(* ===== verification/Prelude.thy ===== *)
theory Prelude
  imports Main "HOL-Library.Word" "HOL-Library.State_Monad"
begin

text \<open>
  What every component shares: the machine types, the error codes, \<open>size_t\<close> arithmetic with
  its wrap-around, the byte order of multi-byte values, and the generic lemmas about lists,
  words and the state monad that the component proofs use.

  The model fixes the ABI the Android port is built for: \<open>size_t\<close> has 32 bits and multi-byte
  values are stored least significant byte first (so \<open>htons\<close> and \<open>htonl\<close> swap bytes).
  An \<open>int\<close> error code is a 32-bit word, so that the source's \<open>err |= f()\<close> is \<open>OR\<close>.
\<close>

unbundle bit_operations_syntax

named_theorems size_simps \<open>size_t arithmetic without wrap-around\<close>
named_theorems byte_simps \<open>multi-byte values and their bytes\<close>
named_theorems mb_simps \<open>effect of memory buffer operations\<close>
named_theorems keeps_intros \<open>operations that keep a memory buffer well formed\<close>

type_synonym u8 = "8 word"
type_synonym u16 = "16 word"
type_synonym u32 = "32 word"
type_synonym u64 = "64 word"
type_synonym err = "32 word"

subsection \<open>Error codes (errno.h)\<close>

abbreviation ENOENT :: err where "ENOENT \<equiv> 2"
abbreviation ENOMEM :: err where "ENOMEM \<equiv> 12"
abbreviation EINVAL :: err where "EINVAL \<equiv> 22"
abbreviation ERANGE :: err where "ERANGE \<equiv> 34"
abbreviation ENOSYS :: err where "ENOSYS \<equiv> 38"
abbreviation EPROTO :: err where "EPROTO \<equiv> 71"
abbreviation EBADMSG :: err where "EBADMSG \<equiv> 74"
abbreviation EOVERFLOW :: err where "EOVERFLOW \<equiv> 75"
abbreviation EAFNOSUPPORT :: err where "EAFNOSUPPORT \<equiv> 97"
abbreviation EPROTONOSUPPORT :: err where "EPROTONOSUPPORT \<equiv> 93"
abbreviation ECONNABORTED :: err where "ECONNABORTED \<equiv> 103"
abbreviation ETIMEDOUT :: err where "ETIMEDOUT \<equiv> 110"
abbreviation EALREADY :: err where "EALREADY \<equiv> 114"

lemma err_or_eq_0 [simp]: "(a OR b = (0 :: 'a::len word)) = (a = 0 \<and> b = 0)"
  proof
  assume "a OR b = 0"
  then have "\<And>n. bit (a OR b) n = bit (0 :: 'a word) n" by simp
  then show "a = 0 \<and> b = 0" by (auto simp: bit_simps intro!: bit_word_eqI)
qed simp

subsection \<open>size_t: 32 bits, wrap-around written out\<close>

definition size_mod :: nat where
  "size_mod = 2 ^ 32"

definition sz_add :: "nat \<Rightarrow> nat \<Rightarrow> nat" where
  "sz_add a b = (a + b) mod size_mod"

definition sz_sub :: "nat \<Rightarrow> nat \<Rightarrow> nat" where
  "sz_sub a b = (a + (size_mod - b mod size_mod)) mod size_mod"

definition sz_mul :: "nat \<Rightarrow> nat \<Rightarrow> nat" where
  "sz_mul a b = (a * b) mod size_mod"

lemma size_mod_pos [simp]: "0 < size_mod"
  by (simp add: size_mod_def)

lemma sz_add_small [size_simps]: "a + b < size_mod \<Longrightarrow> sz_add a b = a + b"
  by (simp add: sz_add_def)

lemma sz_mul_small [size_simps]: "a * b < size_mod \<Longrightarrow> sz_mul a b = a * b"
  by (simp add: sz_mul_def)

lemma sz_sub_small [size_simps]:
  assumes "b \<le> a" "a < size_mod"
  shows "sz_sub a b = a - b"
proof -
  have "a + (size_mod - b) = (a - b) + size_mod" using assms by simp
  moreover have "b mod size_mod = b" using assms by simp
  ultimately have "sz_sub a b = (a - b + size_mod) mod size_mod" by (simp only: sz_sub_def)
  also have "\<dots> = (a - b) mod size_mod" by (rule mod_add_self2)
  also have "\<dots> = a - b" using assms by (intro mod_less) simp
  finally show ?thesis .
qed

lemma sz_sub_wrap:
  assumes "a < b" "b < size_mod"
  shows "sz_sub a b = size_mod - (b - a)"
proof -
  have "a + (size_mod - b) < size_mod" using assms by simp
  with assms show ?thesis by (simp add: sz_sub_def)
qed

lemma sz_add_less [simp]: "sz_add a b < size_mod"
  by (simp add: sz_add_def)

lemma sz_sub_less [simp]: "sz_sub a b < size_mod"
  by (simp add: sz_sub_def)

lemma sz_mul_less [simp]: "sz_mul a b < size_mod"
  by (simp add: sz_mul_def)

subsection \<open>Overwriting a stretch of a list (memcpy)\<close>

definition overwrite :: "nat \<Rightarrow> 'a list \<Rightarrow> 'a list \<Rightarrow> 'a list" where
  "overwrite p xs c = take p c @ xs @ drop (p + length xs) c"

lemma length_overwrite [simp]:
  "p \<le> length c \<Longrightarrow> length (overwrite p xs c) = max (length c) (p + length xs)"
  by (auto simp: overwrite_def)

lemma overwrite_at_end [simp]: "overwrite (length c) xs c = c @ xs"
  by (simp add: overwrite_def)

lemma overwrite_nil [simp]: "overwrite p [] c = c"
  by (simp add: overwrite_def)

lemma overwrite_append:
  "p \<le> length c \<Longrightarrow> overwrite (p + length xs) ys (overwrite p xs c) = overwrite p (xs @ ys) c"
  by (simp add: overwrite_def ac_simps)

lemma take_overwrite_end:
  "p \<le> length c \<Longrightarrow> take (p + length xs) (overwrite p xs c) = take p c @ xs"
  by (simp add: overwrite_def)

lemma take_overwrite_before:
  "n \<le> p \<Longrightarrow> p \<le> length c \<Longrightarrow> take n (overwrite p xs c) = take n c"
  by (simp add: overwrite_def min_def)

lemma drop_overwrite:
  "p \<le> length c \<Longrightarrow> drop p (overwrite p xs c) = xs @ drop (p + length xs) c"
  by (simp add: overwrite_def)

lemma overwrite_middle:
  "length a = p \<Longrightarrow> length b = length xs \<Longrightarrow> overwrite p xs (a @ b @ c) = a @ xs @ c"
  by (simp add: overwrite_def)

lemma take_overwrite_within:
  assumes "p \<le> e" "e \<le> length b" "p + length xs \<le> length b"
  shows "take (max e (p + length xs)) (overwrite p xs b) = overwrite p xs (take e b)"
proof -
  define q where "q = p + length xs"
  have q: "p \<le> q" "q \<le> length b" using assms by (simp_all add: q_def)
  have "overwrite p xs (take e b) = take p b @ xs @ drop q (take e b)"
    using assms by (simp add: overwrite_def q_def min_def)
  also have "drop q (take e b) = take (max e q - q) (drop q b)"
    by (simp add: drop_take max_def)
  also have "take p b @ xs @ take (max e q - q) (drop q b) = take (max e q) (take p b @ xs @ drop q b)"
    using assms q by (simp add: q_def)
  finally show ?thesis by (simp add: overwrite_def q_def)
qed

subsection \<open>Bytes of multi-byte values\<close>

text \<open>The bytes of a value as it lies in memory, least significant first, and back.\<close>

definition le_bytes :: "nat \<Rightarrow> 'a::len word \<Rightarrow> u8 list" where
  "le_bytes k v = map (\<lambda>i. ucast (drop_bit (8 * i) v)) [0..<k]"

fun of_le :: "u8 list \<Rightarrow> 'a::len word" where
  "of_le [] = 0"
| "of_le (b # bs) = ucast b OR push_bit 8 (of_le bs)"

abbreviation le16 :: "u16 \<Rightarrow> u8 list" where "le16 \<equiv> le_bytes 2"
abbreviation le32 :: "u32 \<Rightarrow> u8 list" where "le32 \<equiv> le_bytes 4"
abbreviation le64 :: "u64 \<Rightarrow> u8 list" where "le64 \<equiv> le_bytes 8"

text \<open>\<open>htons\<close>, \<open>htonl\<close> and \<open>sys_htonll\<close>: the byte swap (\<open>ntohs\<close> and the others
  are the same function).\<close>

definition htons :: "u16 \<Rightarrow> u16" where
  "htons v = of_le (rev (le16 v))"

definition htonl :: "u32 \<Rightarrow> u32" where
  "htonl v = of_le (rev (le32 v))"

definition htonll :: "u64 \<Rightarrow> u64" where
  "htonll v = of_le (rev (le64 v))"

text \<open>The bytes in network order.\<close>

definition be16 :: "u16 \<Rightarrow> u8 list" where
  "be16 v = rev (le16 v)"

definition be32 :: "u32 \<Rightarrow> u8 list" where
  "be32 v = rev (le32 v)"

definition be64 :: "u64 \<Rightarrow> u8 list" where
  "be64 v = rev (le64 v)"

lemma length_le_bytes [simp]: "length (le_bytes k v) = k"
  by (simp add: le_bytes_def)

lemma length_be [simp]: "length (be16 v) = 2" "length (be32 w) = 4" "length (be64 x) = 8"
  by (simp_all add: be16_def be32_def be64_def)

lemma bit_of_le:
  "bit (of_le bs :: 'a::len word) n \<longleftrightarrow>
     n < LENGTH('a) \<and> n div 8 < length bs \<and> bit (bs ! (n div 8)) (n mod 8)"
proof (induction bs arbitrary: n)
  case Nil
  then show ?case by simp
next
  case (Cons b bs)
  show ?case
  proof (cases "n < 8")
    case True
    then show ?thesis by (auto simp: bit_simps)
  next
    case False
    then have "\<not> bit b n" using bit_imp_le_length [of b n] by auto
    moreover have "n div 8 = Suc ((n - 8) div 8)" "n mod 8 = (n - 8) mod 8"
      using False by (simp_all add: le_div_geq le_mod_geq)
    ultimately show ?thesis using False Cons.IH [of "n - 8"] by (auto simp: bit_simps)
  qed
qed

lemma of_le_le_bytes:
  assumes "LENGTH('a) = 8 * k"
  shows "of_le (le_bytes k v) = (v :: 'a::len word)"
proof (rule bit_word_eqI)
  fix n assume n: "n < LENGTH('a)"
  then have "n div 8 < k" using assms by auto
  then show "bit (of_le (le_bytes k v) :: 'a word) n = bit v n"
    using n by (simp add: bit_of_le le_bytes_def bit_simps)
qed

lemma le_bytes_of_le:
  assumes "LENGTH('a) = 8 * k" "length bs = k"
  shows "le_bytes k (of_le bs :: 'a::len word) = bs"
proof (rule nth_equalityI)
  fix i assume "i < length (le_bytes k (of_le bs :: 'a word))"
  then have i: "i < k" by simp
  show "le_bytes k (of_le bs :: 'a word) ! i = bs ! i"
  proof (rule bit_word_eqI)
    fix j assume "j < LENGTH(8)"
    then have "j < 8" by simp
    moreover have "8 * i + j < 8 * k" using i \<open>j < 8\<close> by linarith
    ultimately show "bit (le_bytes k (of_le bs :: 'a word) ! i) j = bit (bs ! i) j"
      using i assms by (simp add: le_bytes_def bit_simps bit_of_le)
  qed
qed (use assms in simp)

lemma of_le_le [byte_simps]:
  "of_le (le16 v) = v" "of_le (le32 w) = w" "of_le (le64 x) = x"
  by (simp_all add: of_le_le_bytes)

lemma le_hton [byte_simps]:
  "le16 (htons v) = be16 v" "le32 (htonl w) = be32 w" "le64 (htonll x) = be64 x"
  by (simp_all add: htons_def htonl_def htonll_def be16_def be32_def be64_def le_bytes_of_le)

lemma hton_be [byte_simps]:
  "htons (of_le (be16 v)) = v" "htonl (of_le (be32 w)) = w" "htonll (of_le (be64 x)) = x"
  by (simp_all add: htons_def htonl_def htonll_def be16_def be32_def be64_def
        le_bytes_of_le of_le_le_bytes)

lemma hton_hton [byte_simps]: "htons (htons v) = v" "htonl (htonl w) = w" "htonll (htonll x) = x"
  using hton_be by (simp_all add: htons_def be16_def htonl_def be32_def htonll_def be64_def)

lemma of_le_single [simp]: "of_le [b] = (b :: u8)"
  by simp

subsection \<open>Bit fields\<close>

named_theorems mask_simps \<open>masking as truncation\<close>

lemma and_masks [mask_simps]:
  fixes x :: "'a::len word"
  shows "x AND 1 = take_bit 1 x" "x AND 3 = take_bit 2 x" "x AND 7 = take_bit 3 x"
    "x AND 15 = take_bit 4 x" "x AND 31 = take_bit 5 x" "x AND 63 = take_bit 6 x"
    "x AND 127 = take_bit 7 x" "x AND 255 = take_bit 8 x"
    "x AND 8191 = take_bit 13 x" "x AND 16383 = take_bit 14 x" "x AND 65535 = take_bit 16 x"
    "x AND 16777215 = take_bit 24 x"
  by (simp_all add: take_bit_eq_mask mask_eq_exp_minus_1)

lemma less_8_cases:
  "n < (8::nat) \<Longrightarrow> n = 7 \<or> n = 3 \<or> n = 5 \<or> n = 1 \<or> n = 6 \<or> n = 2 \<or> n = 4 \<or> n = 0"
  by arith

lemma less_16_cases:
  "n < (16::nat) \<Longrightarrow> n = 15 \<or> n = 7 \<or> n = 11 \<or> n = 3 \<or> n = 13 \<or> n = 5 \<or> n = 9 \<or> n = 1 \<or>
     n = 14 \<or> n = 6 \<or> n = 10 \<or> n = 2 \<or> n = 12 \<or> n = 4 \<or> n = 8 \<or> n = 0"
  by arith

lemma bit_times_2: "bit (a * 2 :: u16) n \<longleftrightarrow> 0 < n \<and> n < 16 \<and> bit a (n - 1)"
  using bit_push_bit_iff [of 1 a n] by (auto simp: push_bit_eq_mult mult.commute)

lemma take_bit_below: "(x :: 'a::len word) < 2 ^ k \<Longrightarrow> take_bit k x = x"
  by (simp add: take_bit_eq_mod mod_word_less)

lemma bit_below: "(x :: 'a::len word) < 2 ^ k \<Longrightarrow> bit x n \<Longrightarrow> n < k"
  using take_bit_below [of x k] by (metis bit_take_bit_iff)

lemma take_bit_1_nonzero: "(take_bit 1 (x :: 'a::len word) \<noteq> 0) = bit x 0"
  by (simp add: take_bit_Suc bit_0 odd_iff_mod_2_eq_one)

lemma unat_diff_wrap:
  fixes a b :: "'a::len word"
  assumes "a < b"
  shows "unat (a - b) = 2 ^ LENGTH('a) + unat a - unat b"
proof -
  have "unat a < unat b" "unat b \<le> 2 ^ LENGTH('a)"
    using assms by (simp_all add: word_less_nat_alt order_less_imp_le)
  then show ?thesis by (simp add: unat_sub_if_size word_size)
qed

lemma unat_add_small:
  fixes a b :: "'a::len word"
  shows "unat a + unat b < 2 ^ LENGTH('a) \<Longrightarrow> unat (a + b) = unat a + unat b"
  by (simp add: unat_word_ariths)

lemma unat_sub_small:
  fixes a b :: "'a::len word"
  shows "unat b \<le> unat a \<Longrightarrow> unat (a - b) = unat a - unat b"
  by (simp add: unat_sub_if_size word_size)

lemma unat_bounds:
  "unat (a :: u8) < 256" "unat (b :: u16) < 65536" "unat (c :: u32) < 4294967296"
  using unsigned_less [of a] unsigned_less [of b] unsigned_less [of c] by simp_all

lemma unat_ucast_up [simp]:
  "unat (ucast (a :: u8) :: u16) = unat a" "unat (ucast (a :: u8) :: u32) = unat a"
  "unat (ucast (b :: u16) :: u32) = unat b" "unat (ucast (c :: u32) :: u64) = unat c"
  using unat_bounds(1) [of a] unat_bounds(2) [of b] unat_bounds(3) [of c]
  by (simp_all add: unsigned_ucast_eq take_bit_eq_mod)

lemma sint_small:
  assumes "- (2 ^ 31) \<le> x" "x < 2 ^ 31"
  shows "sint (word_of_int x :: 32 word) = x"
  using assms by (simp add: signed_of_int signed_take_bit_int_eq_self)

lemma sint16_small:
  assumes "- (2 ^ 15) \<le> x" "x < 2 ^ 15"
  shows "sint (word_of_int x :: u16) = x"
  using assms by (simp add: signed_of_int signed_take_bit_int_eq_self)

subsection \<open>The state monad\<close>

lemma run_bind_split:
  "run_state (State_Monad.bind m f) s = run_state (f (fst (run_state m s))) (snd (run_state m s))"
  by (simp add: case_prod_beta)

lemma run_update [simp]: "run_state (State_Monad.update f) s = ((), f s)"
  by (simp add: State_Monad.update_def)

lemma run_if [simp]:
  "run_state (if b then m else n) s = (if b then run_state m s else run_state n s)"
  by simp

end
