(* ===== verification/Mbuf.thy ===== *)
theory Mbuf
  imports Prelude
begin

text \<open>
  Memory buffers: \<^verbatim>\<open>src/mbuf/mbuf.c\<close> and the inline functions of \<^verbatim>\<open>include/re_mbuf.h\<close>.

  A \<^verbatim>\<open>struct mbuf\<close> is a record with the memory block (\<open>None\<close> for \<^verbatim>\<open>NULL\<close>), its size, the
  position and the end. Operations run in the state monad over the buffer. The ghost field
  \<open>mb_fault\<close> records that an access left the block (undefined behaviour in C); what follows a
  fault has no meaning, and the lemmas show when there is none. The allocator is a parameter:
  whether a request succeeds and what fresh memory holds.
\<close>

subsection \<open>State\<close>

record mbuf =
  mb_buf :: "u8 list option"
  mb_size :: nat
  mb_pos :: nat
  mb_end :: nat
  mb_fault :: bool

text \<open>
  The allocator (\<^verbatim>\<open>mem_alloc\<close>, \<^verbatim>\<open>mem_realloc\<close> over the libc heap): \<open>can_alloc n\<close> when a request
  for \<open>n\<close> bytes succeeds; \<open>fresh n i\<close> is byte \<open>i\<close> of the uninitialised block it returns.
\<close>

record mem_env =
  can_alloc :: "nat \<Rightarrow> bool"
  fresh :: "nat \<Rightarrow> nat \<Rightarrow> u8"

definition DEFAULT_SIZE :: nat where
  "DEFAULT_SIZE = 512"

definition mbuf_init :: mbuf where
  "mbuf_init = \<lparr>mb_buf = None, mb_size = 0, mb_pos = 0, mb_end = 0, mb_fault = False\<rparr>"

subsection \<open>Resizing\<close>

definition realloc_block :: "mem_env \<Rightarrow> u8 list option \<Rightarrow> nat \<Rightarrow> u8 list" where
  "realloc_block E b n = (case b of
     None \<Rightarrow> map (fresh E n) [0..<n]
   | Some bs \<Rightarrow> take n bs @ map (fresh E n) [length bs..<n])"

definition mbuf_resize :: "mem_env \<Rightarrow> nat \<Rightarrow> (mbuf, err) state" where
  "mbuf_resize E n = do {
     mb \<leftarrow> State_Monad.get;
     (if \<not> can_alloc E n then State_Monad.return ENOMEM
      else do {
        State_Monad.set (mb\<lparr>mb_buf := Some (realloc_block E (mb_buf mb) n), mb_size := n\<rparr>);
        State_Monad.return 0 })
   }"

definition mbuf_alloc :: "mem_env \<Rightarrow> nat \<Rightarrow> mbuf option" where
  "mbuf_alloc E n =
     (case run_state (mbuf_resize E (if n \<noteq> 0 then n else DEFAULT_SIZE)) mbuf_init of
        (err, mb) \<Rightarrow> if err \<noteq> 0 then None else Some mb)"

text \<open>\<^verbatim>\<open>mbuf_reset\<close> drops the block (the reference is released) and clears the fields.\<close>

definition mbuf_reset :: "mbuf \<Rightarrow> mbuf" where
  "mbuf_reset mb = mb\<lparr>mb_buf := None, mb_size := 0, mb_pos := 0, mb_end := 0\<rparr>"

definition mbuf_trim :: "mem_env \<Rightarrow> (mbuf, unit) state" where
  "mbuf_trim E = do {
     mb \<leftarrow> State_Monad.get;
     (if mb_end mb = 0 \<or> mb_end mb = mb_size mb then State_Monad.return ()
      else do { _ \<leftarrow> mbuf_resize E (mb_end mb); State_Monad.return () })
   }"

subsection \<open>Accessors (re_mbuf.h)\<close>

definition mbuf_get_left :: "mbuf \<Rightarrow> nat" where
  "mbuf_get_left mb = sz_sub (mb_end mb) (mb_pos mb)"

definition mbuf_get_space :: "mbuf \<Rightarrow> nat" where
  "mbuf_get_space mb = sz_sub (mb_size mb) (mb_pos mb)"

definition mbuf_set_pos :: "nat \<Rightarrow> (mbuf, unit) state" where
  "mbuf_set_pos p = State_Monad.update (\<lambda>mb. mb\<lparr>mb_pos := p\<rparr>)"

definition mbuf_set_end :: "nat \<Rightarrow> (mbuf, unit) state" where
  "mbuf_set_end e = State_Monad.update (\<lambda>mb. mb\<lparr>mb_end := e\<rparr>)"

definition mbuf_advance :: "nat \<Rightarrow> (mbuf, unit) state" where
  "mbuf_advance n = State_Monad.update (\<lambda>mb. mb\<lparr>mb_pos := sz_add (mb_pos mb) n\<rparr>)"

definition mbuf_rewind :: "(mbuf, unit) state" where
  "mbuf_rewind = State_Monad.update (\<lambda>mb. mb\<lparr>mb_pos := 0, mb_end := 0\<rparr>)"

definition mbuf_skip_to_end :: "(mbuf, unit) state" where
  "mbuf_skip_to_end = State_Monad.update (\<lambda>mb. mb\<lparr>mb_pos := mb_end mb\<rparr>)"

subsection \<open>Memory access\<close>

text \<open>\<^verbatim>\<open>memcpy\<close> into and out of the block; out of range it is a fault.\<close>

definition mem_poke :: "nat \<Rightarrow> u8 list \<Rightarrow> mbuf \<Rightarrow> mbuf" where
  "mem_poke p xs mb =
     (if xs = [] then mb else case mb_buf mb of
        None \<Rightarrow> mb\<lparr>mb_fault := True\<rparr>
      | Some b \<Rightarrow>
          if p + length xs \<le> length b then mb\<lparr>mb_buf := Some (overwrite p xs b)\<rparr>
          else mb\<lparr>mb_fault := True\<rparr>)"

definition mem_peek :: "nat \<Rightarrow> nat \<Rightarrow> (mbuf, u8 list) state" where
  "mem_peek p n = State (\<lambda>mb.
     if n = 0 then ([], mb) else case mb_buf mb of
        None \<Rightarrow> (replicate n 0, mb\<lparr>mb_fault := True\<rparr>)
      | Some b \<Rightarrow>
          if p + n \<le> length b then (take n (drop p b), mb)
          else (replicate n 0, mb\<lparr>mb_fault := True\<rparr>))"

subsection \<open>Writing\<close>

text \<open>The memory to write is given by its bytes; \<open>None\<close> is a null pointer.\<close>

definition mbuf_write_mem :: "mem_env \<Rightarrow> u8 list option \<Rightarrow> (mbuf, err) state" where
  "mbuf_write_mem E buf = (case buf of
     None \<Rightarrow> State_Monad.return EINVAL
   | Some xs \<Rightarrow> do {
       mb \<leftarrow> State_Monad.get;
       let rsize = sz_add (mb_pos mb) (length xs);
       let dsize = (if mb_size mb \<noteq> 0 then sz_mul (mb_size mb) 2 else DEFAULT_SIZE);
       err \<leftarrow> (if rsize > mb_size mb then mbuf_resize E (max rsize dsize) else State_Monad.return 0);
       (if err \<noteq> 0 then State_Monad.return err
        else do {
          State_Monad.update (mem_poke (mb_pos mb) xs);
          mbuf_advance (length xs);
          State_Monad.update (\<lambda>mb. mb\<lparr>mb_end := max (mb_end mb) (mb_pos mb)\<rparr>);
          State_Monad.return 0 }) })"

definition mbuf_write_u8 :: "mem_env \<Rightarrow> u8 \<Rightarrow> (mbuf, err) state" where
  "mbuf_write_u8 E v = mbuf_write_mem E (Some [v])"

definition mbuf_write_u16 :: "mem_env \<Rightarrow> u16 \<Rightarrow> (mbuf, err) state" where
  "mbuf_write_u16 E v = mbuf_write_mem E (Some (le16 v))"

definition mbuf_write_u32 :: "mem_env \<Rightarrow> u32 \<Rightarrow> (mbuf, err) state" where
  "mbuf_write_u32 E v = mbuf_write_mem E (Some (le32 v))"

definition mbuf_write_u64 :: "mem_env \<Rightarrow> u64 \<Rightarrow> (mbuf, err) state" where
  "mbuf_write_u64 E v = mbuf_write_mem E (Some (le64 v))"

text \<open>A C string is given by its bytes without the terminator; \<^verbatim>\<open>NULL\<close> is \<open>None\<close>.\<close>

definition mbuf_write_str :: "mem_env \<Rightarrow> u8 list option \<Rightarrow> (mbuf, err) state" where
  "mbuf_write_str E str = (case str of
     None \<Rightarrow> State_Monad.return EINVAL
   | Some s \<Rightarrow> mbuf_write_mem E (Some s))"

definition mbuf_write_pl :: "mem_env \<Rightarrow> u8 list option \<Rightarrow> (mbuf, err) state" where
  "mbuf_write_pl E pl = (case pl of
     None \<Rightarrow> State_Monad.return EINVAL
   | Some s \<Rightarrow> mbuf_write_mem E (Some s))"

text \<open>
  \<^verbatim>\<open>mbuf_write_pl_skip\<close>: both pointer-length strings lie in one memory block \<open>m\<close>; \<open>(p, l)\<close> and
  \<open>(sp, sl)\<close> are their offsets and lengths.
\<close>

definition mbuf_write_pl_skip ::
  "mem_env \<Rightarrow> u8 list \<Rightarrow> nat \<times> nat \<Rightarrow> nat \<times> nat \<Rightarrow> (mbuf, err) state" where
  "mbuf_write_pl_skip E m pl skip = (case (pl, skip) of ((p, l), (sp, sl)) \<Rightarrow>
     if p > sp \<or> sp + sl > p + l then State_Monad.return ERANGE
     else do {
       err \<leftarrow> mbuf_write_mem E (Some (take (sp - p) (drop p m)));
       (if err \<noteq> 0 then State_Monad.return err
        else mbuf_write_mem E (Some (take (p + l - (sp + sl)) (drop (sp + sl) m)))) })"

subsection \<open>Reading\<close>

definition mbuf_read_mem :: "nat \<Rightarrow> (mbuf, err \<times> u8 list) state" where
  "mbuf_read_mem n = do {
     mb \<leftarrow> State_Monad.get;
     (if n > mbuf_get_left mb then State_Monad.return (EOVERFLOW, [])
      else do {
        xs \<leftarrow> mem_peek (mb_pos mb) n;
        mbuf_advance n;
        State_Monad.return (0, xs) })
   }"

definition mbuf_read_u8 :: "(mbuf, u8) state" where
  "mbuf_read_u8 = do {
     (err, v) \<leftarrow> mbuf_read_mem 1;
     State_Monad.return (if err = 0 then of_le v else 0) }"

definition mbuf_read_u16 :: "(mbuf, u16) state" where
  "mbuf_read_u16 = do {
     (err, v) \<leftarrow> mbuf_read_mem 2;
     State_Monad.return (if err = 0 then of_le v else 0) }"

definition mbuf_read_u32 :: "(mbuf, u32) state" where
  "mbuf_read_u32 = do {
     (err, v) \<leftarrow> mbuf_read_mem 4;
     State_Monad.return (if err = 0 then of_le v else 0) }"

definition mbuf_read_u64 :: "(mbuf, u64) state" where
  "mbuf_read_u64 = do {
     (err, v) \<leftarrow> mbuf_read_mem 8;
     State_Monad.return (if err = 0 then of_le v else 0) }"

text \<open>
  \<^verbatim>\<open>mbuf_read_str\<close> stores at most \<open>n\<close> characters and stops after a terminator; the result is
  what it has stored.
\<close>

fun mbuf_read_str :: "nat \<Rightarrow> (mbuf, u8 list) state" where
  "mbuf_read_str 0 = State_Monad.return []"
| "mbuf_read_str (Suc n) = do {
     c \<leftarrow> mbuf_read_u8;
     (if c = 0 then State_Monad.return [c]
      else do { cs \<leftarrow> mbuf_read_str n; State_Monad.return (c # cs) })
   }"

text \<open>\<^verbatim>\<open>mbuf_strdup\<close>: the new string without the terminator it gets, on success.\<close>

definition mbuf_strdup :: "mem_env \<Rightarrow> nat \<Rightarrow> (mbuf, err \<times> u8 list) state" where
  "mbuf_strdup E len =
     (if \<not> can_alloc E (sz_add len 1) then State_Monad.return (ENOMEM, [])
      else do {
        (err, str) \<leftarrow> mbuf_read_mem len;
        (if err \<noteq> 0 then State_Monad.return (err, []) else State_Monad.return (0, str)) })"

subsection \<open>Well-formed buffers\<close>

text \<open>
  \<open>mbuf_wf\<close>: no fault so far, the block has the recorded size, and the end lies in it. The position
  may be past the end (writers leave room for a header); \<open>mbuf_ok\<close> excludes that too.
\<close>

definition mbuf_wf :: "mbuf \<Rightarrow> bool" where
  "mbuf_wf mb \<longleftrightarrow> \<not> mb_fault mb \<and>
     (case mb_buf mb of None \<Rightarrow> mb_size mb = 0 | Some b \<Rightarrow> length b = mb_size mb) \<and>
     mb_end mb \<le> mb_size mb \<and> mb_size mb < size_mod \<and> mb_pos mb < size_mod"

definition mbuf_ok :: "mbuf \<Rightarrow> bool" where
  "mbuf_ok mb \<longleftrightarrow> mbuf_wf mb \<and> mb_pos mb \<le> mb_end mb"

definition mbuf_bytes :: "mbuf \<Rightarrow> u8 list" where
  "mbuf_bytes mb = (case mb_buf mb of None \<Rightarrow> [] | Some b \<Rightarrow> b)"

text \<open>What a buffer holds: the bytes up to its end; what is left to read: those from the position.\<close>

definition mbuf_content :: "mbuf \<Rightarrow> u8 list" where
  "mbuf_content mb = take (mb_end mb) (mbuf_bytes mb)"

definition mbuf_rest :: "mbuf \<Rightarrow> u8 list" where
  "mbuf_rest mb = drop (mb_pos mb) (mbuf_content mb)"

definition adv :: "nat \<Rightarrow> mbuf \<Rightarrow> mbuf" where
  "adv n mb = mb\<lparr>mb_pos := mb_pos mb + n\<rparr>"

definition alloc_total :: "mem_env \<Rightarrow> bool" where
  "alloc_total E \<longleftrightarrow> (\<forall>n. n < size_mod \<longrightarrow> can_alloc E n)"

text \<open>An allocator that never fails, for concrete runs.\<close>

definition ideal_env :: mem_env where
  "ideal_env = \<lparr>can_alloc = (\<lambda>_. True), fresh = (\<lambda>_ _. 0)\<rparr>"

lemma alloc_total_ideal [simp]: "alloc_total ideal_env"
  by (simp add: alloc_total_def ideal_env_def)

lemma mbuf_init_ok: "mbuf_ok mbuf_init"
  by (simp add: mbuf_ok_def mbuf_wf_def mbuf_init_def)

lemma mbuf_ok_wf: "mbuf_ok mb \<Longrightarrow> mbuf_wf mb"
  by (simp add: mbuf_ok_def)

lemma mbuf_wf_bytes: "mbuf_wf mb \<Longrightarrow> length (mbuf_bytes mb) = mb_size mb"
  by (auto simp: mbuf_wf_def mbuf_bytes_def split: option.splits)

lemma length_mbuf_content [simp]: "mbuf_wf mb \<Longrightarrow> length (mbuf_content mb) = mb_end mb"
  using mbuf_wf_bytes [of mb] by (simp add: mbuf_content_def mbuf_wf_def)

lemma length_mbuf_rest: "mbuf_wf mb \<Longrightarrow> length (mbuf_rest mb) = mb_end mb - mb_pos mb"
  by (simp add: mbuf_rest_def)

lemma mbuf_get_left_ok [mb_simps]: "mbuf_ok mb \<Longrightarrow> mbuf_get_left mb = length (mbuf_rest mb)"
  by (simp add: mbuf_ok_def mbuf_wf_def mbuf_get_left_def sz_sub_small length_mbuf_rest)

lemma adv_simps [simp]:
  "mb_pos (adv n mb) = mb_pos mb + n" "mb_end (adv n mb) = mb_end mb"
  "mb_buf (adv n mb) = mb_buf mb" "mb_size (adv n mb) = mb_size mb"
  "mb_fault (adv n mb) = mb_fault mb"
  "mbuf_content (adv n mb) = mbuf_content mb" "mbuf_rest (adv n mb) = drop n (mbuf_rest mb)"
  by (simp_all add: adv_def mbuf_content_def mbuf_bytes_def mbuf_rest_def add.commute)

lemma adv_adv [simp]: "adv n (adv m mb) = adv (m + n) mb" "adv 0 mb = mb"
  by (simp_all add: adv_def add.assoc)

lemma mbuf_ok_adv [mb_simps]:
  "mbuf_ok mb \<Longrightarrow> n \<le> length (mbuf_rest mb) \<Longrightarrow> mbuf_ok (adv n mb)"
  using mbuf_get_left_ok [of mb]
  by (auto simp: mbuf_ok_def mbuf_wf_def length_mbuf_rest split: option.splits)

lemma mbuf_rest_less: "mbuf_ok mb \<Longrightarrow> mb_pos mb + length (mbuf_rest mb) < size_mod"
  by (auto simp: mbuf_ok_def mbuf_wf_def length_mbuf_rest)

subsection \<open>Reading never leaves the buffer\<close>

lemma mem_peek_ok:
  assumes "mbuf_ok mb" "n \<le> length (mbuf_rest mb)"
  shows "run_state (mem_peek (mb_pos mb) n) mb = (take n (mbuf_rest mb), mb)"
proof (cases "n = 0")
  case True
  then show ?thesis by (simp add: mem_peek_def)
next
  case False
  from assms have le: "mb_pos mb + n \<le> mb_end mb" by (auto simp: mbuf_ok_def length_mbuf_rest)
  with assms(1) False obtain b where b: "mb_buf mb = Some b" "length b = mb_size mb"
    by (auto simp: mbuf_ok_def mbuf_wf_def split: option.splits)
  moreover have "mb_end mb \<le> mb_size mb" using assms(1) by (simp add: mbuf_ok_def mbuf_wf_def)
  moreover have "take n (drop (mb_pos mb) (take (mb_end mb) b)) = take n (drop (mb_pos mb) b)"
    using le by (simp add: drop_take min_def)
  ultimately show ?thesis using False le
    by (simp add: mem_peek_def mbuf_rest_def mbuf_content_def mbuf_bytes_def)
qed

lemma run_mbuf_advance [mb_simps]:
  "mb_pos mb + n < size_mod \<Longrightarrow> run_state (mbuf_advance n) mb = ((), adv n mb)"
  by (simp add: mbuf_advance_def sz_add_small adv_def)

lemma run_mbuf_read_mem [mb_simps]:
  assumes "mbuf_ok mb"
  shows "run_state (mbuf_read_mem n) mb =
    (if n \<le> length (mbuf_rest mb) then ((0, take n (mbuf_rest mb)), adv n mb)
     else ((EOVERFLOW, []), mb))"
  using assms mbuf_rest_less [OF assms]
  by (auto simp: mbuf_read_mem_def mem_peek_ok mb_simps)

lemma run_mbuf_read_ints [mb_simps]:
  assumes "mbuf_ok mb"
  shows
    "run_state mbuf_read_u8 mb =
      (if 1 \<le> length (mbuf_rest mb) then (of_le (take 1 (mbuf_rest mb)), adv 1 mb) else (0, mb))"
    "run_state mbuf_read_u16 mb =
      (if 2 \<le> length (mbuf_rest mb) then (of_le (take 2 (mbuf_rest mb)), adv 2 mb) else (0, mb))"
    "run_state mbuf_read_u32 mb =
      (if 4 \<le> length (mbuf_rest mb) then (of_le (take 4 (mbuf_rest mb)), adv 4 mb) else (0, mb))"
    "run_state mbuf_read_u64 mb =
      (if 8 \<le> length (mbuf_rest mb) then (of_le (take 8 (mbuf_rest mb)), adv 8 mb) else (0, mb))"
  by (auto simp: mbuf_read_u8_def mbuf_read_u16_def mbuf_read_u32_def mbuf_read_u64_def
      run_mbuf_read_mem [OF assms])

lemma run_mbuf_strdup [mb_simps]:
  assumes "mbuf_ok mb"
  shows "run_state (mbuf_strdup E n) mb =
    (if \<not> can_alloc E (sz_add n 1) then ((ENOMEM, []), mb)
     else if n \<le> length (mbuf_rest mb) then ((0, take n (mbuf_rest mb)), adv n mb)
     else ((EOVERFLOW, []), mb))"
  by (simp add: mbuf_strdup_def run_mbuf_read_mem [OF assms])

subsection \<open>Writing overwrites at the position\<close>

definition need_grow :: "nat \<Rightarrow> mbuf \<Rightarrow> bool" where
  "need_grow n mb \<longleftrightarrow> mb_pos mb + n > mb_size mb"

definition grow_size :: "nat \<Rightarrow> mbuf \<Rightarrow> nat" where
  "grow_size n mb = max (mb_pos mb + n)
     (if mb_size mb \<noteq> 0 then sz_mul (mb_size mb) 2 else DEFAULT_SIZE)"

definition grown :: "mem_env \<Rightarrow> nat \<Rightarrow> mbuf \<Rightarrow> mbuf" where
  "grown E n mb = (if need_grow n mb
     then mb\<lparr>mb_buf := Some (realloc_block E (mb_buf mb) (grow_size n mb)),
             mb_size := grow_size n mb\<rparr>
     else mb)"

text \<open>The buffer after a successful write of \<open>xs\<close>.\<close>

definition wput :: "mem_env \<Rightarrow> u8 list \<Rightarrow> mbuf \<Rightarrow> mbuf" where
  "wput E xs mb = (mem_poke (mb_pos mb) xs (grown E (length xs) mb))
     \<lparr>mb_pos := mb_pos mb + length xs, mb_end := max (mb_end mb) (mb_pos mb + length xs)\<rparr>"

lemma grow_size_less: "mb_pos mb + n < size_mod \<Longrightarrow> grow_size n mb < size_mod"
  by (auto simp: grow_size_def max_def DEFAULT_SIZE_def size_mod_def sz_mul_def)

lemma mem_poke_frame [simp]:
  "mb_pos (mem_poke p xs mb) = mb_pos mb" "mb_end (mem_poke p xs mb) = mb_end mb"
  "mb_size (mem_poke p xs mb) = mb_size mb"
  by (auto simp: mem_poke_def split: option.splits)

lemma grown_frame [simp]:
  "mb_pos (grown E n mb) = mb_pos mb" "mb_end (grown E n mb) = mb_end mb"
  "mb_fault (grown E n mb) = mb_fault mb"
  by (auto simp: grown_def)

lemma run_mbuf_write_mem_cases:
  assumes "mb_pos mb + length xs < size_mod"
  shows "run_state (mbuf_write_mem E (Some xs)) mb =
    (if need_grow (length xs) mb \<and> \<not> can_alloc E (grow_size (length xs) mb) then (ENOMEM, mb)
     else (0, wput E xs mb))"
  using assms
  by (auto simp: mbuf_write_mem_def mbuf_resize_def need_grow_def grow_size_def sz_add_small
      mbuf_advance_def wput_def grown_def Let_def)

lemma run_mbuf_write_mem [mb_simps]:
  "alloc_total E \<Longrightarrow> mb_pos mb + length xs < size_mod \<Longrightarrow>
   run_state (mbuf_write_mem E (Some xs)) mb = (0, wput E xs mb)"
  using grow_size_less [of mb "length xs"]
  by (auto simp: run_mbuf_write_mem_cases alloc_total_def)

lemma run_mbuf_write_ints [mb_simps]:
  assumes "alloc_total E"
  shows
    "mb_pos mb + 1 < size_mod \<Longrightarrow> run_state (mbuf_write_u8 E v8) mb = (0, wput E [v8] mb)"
    "mb_pos mb + 2 < size_mod \<Longrightarrow> run_state (mbuf_write_u16 E v16) mb = (0, wput E (le16 v16) mb)"
    "mb_pos mb + 4 < size_mod \<Longrightarrow> run_state (mbuf_write_u32 E v32) mb = (0, wput E (le32 v32) mb)"
    "mb_pos mb + 8 < size_mod \<Longrightarrow> run_state (mbuf_write_u64 E v64) mb = (0, wput E (le64 v64) mb)"
  by (simp_all add: mbuf_write_u8_def mbuf_write_u16_def mbuf_write_u32_def mbuf_write_u64_def
      run_mbuf_write_mem [OF assms])

lemma grown_block:
  assumes "mbuf_wf mb" "mb_pos mb + n < size_mod"
  shows "length (mbuf_bytes (grown E n mb)) = mb_size (grown E n mb)"
    "mb_pos mb + n \<le> mb_size (grown E n mb)" "mb_size (grown E n mb) < size_mod"
    "mb_size mb \<le> mb_size (grown E n mb)"
    "take (mb_end mb) (mbuf_bytes (grown E n mb)) = mbuf_content mb"
proof -
  have sz: "need_grow n mb \<Longrightarrow> mb_size mb < grow_size n mb" "mb_pos mb + n \<le> grow_size n mb"
    by (auto simp: need_grow_def grow_size_def)
  have b: "length (mbuf_bytes mb) = mb_size mb" and e: "mb_end mb \<le> mb_size mb" "mb_size mb < size_mod"
    using assms(1) mbuf_wf_bytes by (auto simp: mbuf_wf_def)
  have r: "need_grow n mb \<Longrightarrow> length (realloc_block E (mb_buf mb) (grow_size n mb)) = grow_size n mb"
    "need_grow n mb \<Longrightarrow>
       take (mb_end mb) (realloc_block E (mb_buf mb) (grow_size n mb)) = mbuf_content mb"
    using sz b e assms(1)
    by (auto simp: realloc_block_def mbuf_content_def mbuf_bytes_def mbuf_wf_def split: option.splits)
  show "length (mbuf_bytes (grown E n mb)) = mb_size (grown E n mb)"
    using b r by (auto simp: grown_def mbuf_bytes_def)
  show "mb_pos mb + n \<le> mb_size (grown E n mb)"
    using sz by (auto simp: grown_def need_grow_def)
  show "mb_size (grown E n mb) < size_mod"
    using grow_size_less [OF assms(2)] e by (auto simp: grown_def)
  show "mb_size mb \<le> mb_size (grown E n mb)"
    using sz by (auto simp: grown_def)
  show "take (mb_end mb) (mbuf_bytes (grown E n mb)) = mbuf_content mb"
    using r by (auto simp: grown_def mbuf_bytes_def mbuf_content_def)
qed

lemma mem_poke_in_range:
  assumes "p + length xs \<le> length (mbuf_bytes mb)"
  shows "mbuf_bytes (mem_poke p xs mb) = overwrite p xs (mbuf_bytes mb)"
    "mb_fault (mem_poke p xs mb) = mb_fault mb"
    "mb_buf mb = None \<Longrightarrow> mb_buf (mem_poke p xs mb) = None"
  using assms by (auto simp: mem_poke_def mbuf_bytes_def split: option.splits)

lemma wput_facts [mb_simps]:
  assumes "mbuf_wf mb" "mb_pos mb + length xs < size_mod"
  shows "mbuf_wf (wput E xs mb)"
    "mb_pos (wput E xs mb) = mb_pos mb + length xs"
    "mb_end (wput E xs mb) = max (mb_end mb) (mb_pos mb + length xs)"
    "mbuf_bytes (wput E xs mb) = overwrite (mb_pos mb) xs (mbuf_bytes (grown E (length xs) mb))"
proof -
  let ?g = "grown E (length xs) mb"
  note g = grown_block [OF assms, of E]
  have le: "mb_pos mb + length xs \<le> length (mbuf_bytes ?g)" using g by simp
  show "mb_pos (wput E xs mb) = mb_pos mb + length xs"
    "mb_end (wput E xs mb) = max (mb_end mb) (mb_pos mb + length xs)"
    by (simp_all add: wput_def)
  show b: "mbuf_bytes (wput E xs mb) = overwrite (mb_pos mb) xs (mbuf_bytes ?g)"
    using mem_poke_in_range(1) [OF le] by (simp add: wput_def mbuf_bytes_def)
  have "\<not> mb_fault (wput E xs mb)"
    using mem_poke_in_range(2) [OF le] assms(1) by (simp add: wput_def mbuf_wf_def)
  moreover have "length (mbuf_bytes (wput E xs mb)) = mb_size ?g"
    unfolding b using g le by simp
  moreover have "mb_size (wput E xs mb) = mb_size ?g" by (simp add: wput_def)
  moreover have "mb_end mb \<le> mb_size mb" using assms(1) by (simp add: mbuf_wf_def)
  ultimately show "mbuf_wf (wput E xs mb)"
    using g assms(2)
    by (auto simp: mbuf_wf_def wput_def mbuf_bytes_def split: option.splits)
qed

lemma wput_content [mb_simps]:
  assumes "mbuf_ok mb" "mb_pos mb + length xs < size_mod"
  shows "mbuf_content (wput E xs mb) = overwrite (mb_pos mb) xs (mbuf_content mb)"
proof -
  have wf: "mbuf_wf mb" and pe: "mb_pos mb \<le> mb_end mb" using assms(1) by (simp_all add: mbuf_ok_def)
  note g = grown_block [OF wf assms(2), of E]
  have "mb_end mb \<le> mb_size mb" using wf by (simp add: mbuf_wf_def)
  then show ?thesis
    using g pe take_overwrite_within [of "mb_pos mb" "mb_end mb" "mbuf_bytes (grown E (length xs) mb)" xs]
    by (simp add: mbuf_content_def wput_facts [OF wf assms(2)])
qed

lemma wput_ok [mb_simps]:
  "mbuf_wf mb \<Longrightarrow> mb_pos mb + length xs < size_mod \<Longrightarrow> mbuf_ok (wput E xs mb)"
  by (simp add: mbuf_ok_def wput_facts)

text \<open>
  A write past the end (the position was moved there to leave room for a header) keeps what the
  buffer held and puts \<open>xs\<close> last; the gap in between holds whatever the memory held.
\<close>

lemma wput_content_gap:
  assumes "mbuf_wf mb" "mb_end mb \<le> mb_pos mb" "mb_pos mb + length xs < size_mod"
  shows "\<exists>gap. length gap = mb_pos mb - mb_end mb \<and>
    mbuf_content (wput E xs mb) = mbuf_content mb @ gap @ xs"
proof -
  let ?B = "mbuf_bytes (grown E (length xs) mb)"
  note g = grown_block [OF assms(1,3), of E]
  have "mbuf_content (wput E xs mb) = take (mb_pos mb + length xs) (overwrite (mb_pos mb) xs ?B)"
    using assms by (simp add: mbuf_content_def wput_facts max_def)
  also have "\<dots> = take (mb_pos mb) ?B @ xs"
    using g by (simp add: take_overwrite_end)
  also have "take (mb_pos mb) ?B = take (mb_end mb) ?B @ take (mb_pos mb - mb_end mb) (drop (mb_end mb) ?B)"
    using assms(2) by (metis le_add_diff_inverse take_add)
  finally show ?thesis
    using g assms by (intro exI [of _ "take (mb_pos mb - mb_end mb) (drop (mb_end mb) ?B)"]) simp
qed

lemma wput_append:
  assumes "mbuf_ok mb" "mb_pos mb = mb_end mb" "mb_pos mb + length xs < size_mod"
  shows "mbuf_content (wput E xs mb) = mbuf_content mb @ xs" "mb_pos (wput E xs mb) = mb_end (wput E xs mb)"
proof -
  have "length (mbuf_content mb) = mb_pos mb" using assms by (simp add: mbuf_ok_def)
  then show "mbuf_content (wput E xs mb) = mbuf_content mb @ xs"
    using wput_content [OF assms(1,3)] by (metis overwrite_at_end)
  show "mb_pos (wput E xs mb) = mb_end (wput E xs mb)"
    using assms by (simp add: wput_facts mbuf_ok_def)
qed

subsection \<open>Readers\<close>

text \<open>
  A reader only moves the position forward, within what is left to read: the block, the end and the
  ghost fault are as before. Every decoder of the development is shown to be one.
\<close>

definition reads :: "mbuf \<Rightarrow> mbuf \<Rightarrow> bool" where
  "reads s s' \<longleftrightarrow> (\<exists>n. n \<le> length (mbuf_rest s) \<and> s' = adv n s)"

definition reader :: "(mbuf, 'a) state \<Rightarrow> bool" where
  "reader m \<longleftrightarrow> (\<forall>s. mbuf_ok s \<longrightarrow> reads s (snd (run_state m s)))"

lemma reads_refl [simp]: "reads s s"
  by (auto simp: reads_def intro: exI [of _ 0])

lemma reads_adv: "n \<le> length (mbuf_rest s) \<Longrightarrow> reads s (adv n s)"
  by (auto simp: reads_def)

lemma reads_trans:
  assumes "reads s t" "reads t u"
  shows "reads s u"
proof -
  obtain n m where "n \<le> length (mbuf_rest s)" "t = adv n s" "m \<le> length (mbuf_rest t)" "u = adv m t"
    using assms by (auto simp: reads_def)
  then show ?thesis by (auto simp: reads_def intro!: exI [of _ "n + m"])
qed

lemma reads_ok: "mbuf_ok s \<Longrightarrow> reads s t \<Longrightarrow> mbuf_ok t"
  by (auto simp: reads_def mb_simps)

lemma reads_frame:
  "reads s t \<Longrightarrow> mb_buf t = mb_buf s \<and> mb_end t = mb_end s \<and> mb_size t = mb_size s \<and>
    mb_fault t = mb_fault s \<and> mb_pos s \<le> mb_pos t"
  by (auto simp: reads_def)

lemma readerI: "(\<And>s. mbuf_ok s \<Longrightarrow> reads s (snd (run_state m s))) \<Longrightarrow> reader m"
  by (simp add: reader_def)

lemma readerD: "reader m \<Longrightarrow> mbuf_ok s \<Longrightarrow> run_state m s = (a, t) \<Longrightarrow> reads s t \<and> mbuf_ok t"
  using reads_ok by (fastforce simp: reader_def)

lemma reader_return [keeps_intros]: "reader (State_Monad.return x)"
  by (simp add: reader_def)

lemma reader_bind [keeps_intros]:
  assumes "reader m" "\<And>a. reader (f a)"
  shows "reader (State_Monad.bind m f)"
proof (rule readerI)
  fix s assume s: "mbuf_ok s"
  obtain a t where r: "run_state m s = (a, t)" by fastforce
  from readerD [OF assms(1) s r] have "reads s t" "mbuf_ok t" by auto
  then show "reads s (snd (run_state (State_Monad.bind m f) s))"
    using assms(2) [of a] r by (auto simp: reader_def intro: reads_trans)
qed

lemma reader_if [keeps_intros]: "reader m \<Longrightarrow> reader n \<Longrightarrow> reader (if b then m else n)"
  by simp

lemma reader_case_prod [keeps_intros]: "(\<And>a b. reader (f a b)) \<Longrightarrow> reader (case p of (a, b) \<Rightarrow> f a b)"
  by (cases p) simp

lemma reader_case_option [keeps_intros]:
  "reader m \<Longrightarrow> (\<And>a. reader (f a)) \<Longrightarrow> reader (case x of None \<Rightarrow> m | Some a \<Rightarrow> f a)"
  by (cases x) auto

lemma reader_get [keeps_intros]: "reader State_Monad.get"
  by (simp add: reader_def)

lemma reader_let [keeps_intros]: "(\<And>a. reader (f a)) \<Longrightarrow> reader (let a = x in f a)"
  by simp

lemma reader_reads [keeps_intros]:
  "reader (mbuf_read_mem n)" "reader mbuf_read_u8" "reader mbuf_read_u16"
  "reader mbuf_read_u32" "reader mbuf_read_u64" "reader (mbuf_strdup E n)"
  by (auto simp: reader_def mb_simps reads_adv)

lemma reader_read_str [keeps_intros]: "reader (mbuf_read_str n)"
  by (induction n) (auto intro!: keeps_intros)

text \<open>A guarded step past bytes that are there.\<close>

lemma reader_guarded_advance:
  assumes "reader m"
  shows "reader (State_Monad.bind State_Monad.get (\<lambda>mb.
    if mbuf_get_left mb < n then State_Monad.return e
    else State_Monad.bind (mbuf_advance n) (\<lambda>_. m)))"
proof (rule readerI)
  fix s assume s: "mbuf_ok s"
  show "reads s (snd (run_state (State_Monad.bind State_Monad.get (\<lambda>mb.
    if mbuf_get_left mb < n then State_Monad.return e
    else State_Monad.bind (mbuf_advance n) (\<lambda>_. m))) s))"
  proof (cases "n \<le> length (mbuf_rest s)")
    case True
    then have "reads s (adv n s)" "mbuf_ok (adv n s)" using s by (auto simp: reads_adv mb_simps)
    with True s mbuf_rest_less [OF s] assms show ?thesis
      by (auto simp: reader_def mb_simps intro: reads_trans)
  next
    case False
    with s show ?thesis by (simp add: mb_simps)
  qed
qed

subsection \<open>The byte-cursor interface\<close>

text \<open>
  What the codecs rely on: a sequence of bytes with a cursor. Writing overwrites at the cursor and
  moves it, reading returns the bytes at the cursor or fails without effect, seeking moves the
  cursor inside the content. \<open>ready\<close> is the condition under which writing cannot fail and \<open>cap\<close>
  bounds what the cursor can reach.
\<close>

locale byte_cursor =
  fixes inv :: "'s \<Rightarrow> bool" and content :: "'s \<Rightarrow> u8 list" and cur :: "'s \<Rightarrow> nat"
    and put :: "u8 list \<Rightarrow> 's \<Rightarrow> err \<times> 's" and take_bytes :: "nat \<Rightarrow> 's \<Rightarrow> (err \<times> u8 list) \<times> 's"
    and seek :: "nat \<Rightarrow> 's \<Rightarrow> 's" and ready :: bool and cap :: nat
  assumes cur_le: "inv s \<Longrightarrow> cur s \<le> length (content s)"
    and put_ready: "ready \<Longrightarrow> inv s \<Longrightarrow> cur s + length xs < cap \<Longrightarrow> fst (put xs s) = 0"
    and put_done: "inv s \<Longrightarrow> cur s + length xs < cap \<Longrightarrow> fst (put xs s) = 0 \<Longrightarrow>
      inv (snd (put xs s)) \<and> cur (snd (put xs s)) = cur s + length xs \<and>
      content (snd (put xs s)) = overwrite (cur s) xs (content s)"
    and put_failed: "inv s \<Longrightarrow> cur s + length xs < cap \<Longrightarrow> fst (put xs s) \<noteq> 0 \<Longrightarrow> snd (put xs s) = s"
    and get_done: "inv s \<Longrightarrow> cur s + n \<le> length (content s) \<Longrightarrow>
      fst (take_bytes n s) = (0, take n (drop (cur s) (content s))) \<and>
      inv (snd (take_bytes n s)) \<and> cur (snd (take_bytes n s)) = cur s + n \<and>
      content (snd (take_bytes n s)) = content s"
    and get_short: "inv s \<Longrightarrow> length (content s) < cur s + n \<Longrightarrow>
      fst (fst (take_bytes n s)) \<noteq> 0 \<and> snd (take_bytes n s) = s"
    and seek_to: "inv s \<Longrightarrow> p \<le> length (content s) \<Longrightarrow>
      inv (seek p s) \<and> cur (seek p s) = p \<and> content (seek p s) = content s"
begin

lemma put_inv: "inv s \<Longrightarrow> cur s + length xs < cap \<Longrightarrow> inv (snd (put xs s))"
  using put_done put_failed by (cases "fst (put xs s) = 0") auto

lemma put_get:
  assumes "ready" "inv s" "cur s + length xs < cap"
  shows "fst (take_bytes (length xs) (seek (cur s) (snd (put xs s)))) = (0, xs)"
proof -
  let ?t = "snd (put xs s)"
  have t: "inv ?t" "content ?t = overwrite (cur s) xs (content s)" "cur ?t = cur s + length xs"
    using assms put_ready put_done by auto
  have le: "cur s \<le> length (content s)" using assms cur_le by simp
  then have s: "inv (seek (cur s) ?t)" "cur (seek (cur s) ?t) = cur s"
    "content (seek (cur s) ?t) = content ?t"
    using seek_to [OF t(1), of "cur s"] cur_le [OF t(1)] t by auto
  have "cur s + length xs \<le> length (content ?t)" using t cur_le [OF t(1)] by simp
  then show ?thesis using get_done [OF s(1), of "length xs"] s t le by (simp add: drop_overwrite)
qed

lemma put_put:
  assumes "ready" "inv s" "cur s + length xs + length ys < cap"
  shows "content (snd (put ys (snd (put xs s)))) = content (snd (put (xs @ ys) s))"
proof -
  let ?t = "snd (put xs s)"
  have t: "inv ?t" "content ?t = overwrite (cur s) xs (content s)" "cur ?t = cur s + length xs"
    using assms put_ready put_done by auto
  moreover have "cur s \<le> length (content s)" using assms cur_le by simp
  ultimately show ?thesis
    using assms put_done [of ?t ys] put_ready [of ?t ys] put_done [of s "xs @ ys"]
      put_ready [of s "xs @ ys"]
    by (simp add: overwrite_append add.assoc)
qed

lemma put_frame:
  assumes "ready" "inv s" "cur s + length xs < cap"
  shows "take (cur s) (content (snd (put xs s))) = take (cur s) (content s)"
  using assms put_done [of s xs] put_ready [of s xs] cur_le [of s] by (simp add: take_overwrite_before)

end

interpretation mbc: byte_cursor mbuf_ok mbuf_content mb_pos "\<lambda>xs. run_state (mbuf_write_mem E (Some xs))"
  "\<lambda>n. run_state (mbuf_read_mem n)" "\<lambda>p mb. mb\<lparr>mb_pos := p\<rparr>" "alloc_total E" size_mod
  for E
proof (unfold_locales, goal_cases)
  case (1 s)
  then show ?case by (simp add: mbuf_ok_def)
next
  case (2 s xs)
  then show ?case by (simp add: mb_simps)
next
  case (3 s xs)
  then show ?case
    by (auto simp: run_mbuf_write_mem_cases wput_content wput_facts wput_ok mbuf_ok_wf split: if_splits)
next
  case (4 s xs)
  then show ?case by (auto simp: run_mbuf_write_mem_cases split: if_splits)
next
  case (5 s n)
  then have "n \<le> length (mbuf_rest s)" by (simp add: mbuf_rest_def)
  with 5 show ?case by (simp add: mb_simps mbuf_rest_def)
next
  case (6 s n)
  then have "\<not> n \<le> length (mbuf_rest s)" by (simp add: mbuf_rest_def mbuf_ok_def) linarith
  with 6 show ?case by (simp add: mb_simps)
next
  case (7 s p)
  then show ?case by (auto simp: mbuf_ok_def mbuf_wf_def mbuf_content_def mbuf_bytes_def split: option.splits)
qed

subsection \<open>Writers\<close>

text \<open>
  \<open>writes m xs\<close>: run on a well-formed buffer with room for \<open>xs\<close> below the \<open>size_t\<close> limit, \<open>m\<close>
  succeeds, overwrites the content at the position with \<open>xs\<close> and moves the position behind it.
\<close>

definition wrote :: "mbuf \<Rightarrow> u8 list \<Rightarrow> mbuf \<Rightarrow> bool" where
  "wrote mb xs mb' \<longleftrightarrow> mbuf_ok mb' \<and> mb_pos mb' = mb_pos mb + length xs \<and>
     mbuf_content mb' = overwrite (mb_pos mb) xs (mbuf_content mb)"

definition writes :: "(mbuf, err) state \<Rightarrow> u8 list \<Rightarrow> bool" where
  "writes m xs \<longleftrightarrow> (\<forall>mb. mbuf_ok mb \<longrightarrow> mb_pos mb + length xs < size_mod \<longrightarrow>
     (\<exists>mb'. run_state m mb = (0, mb') \<and> wrote mb xs mb'))"

lemma wrote_trans:
  assumes "mbuf_ok mb" "wrote mb xs mb1" "wrote mb1 ys mb2"
  shows "wrote mb (xs @ ys) mb2"
proof -
  have "mb_pos mb \<le> length (mbuf_content mb)" using assms(1) by (simp add: mbuf_ok_def)
  then show ?thesis using assms by (simp add: wrote_def overwrite_append)
qed

lemma wrote_rest:
  assumes "mbuf_ok mb" "wrote mb xs mb'"
  shows "mbuf_ok (mb'\<lparr>mb_pos := mb_pos mb\<rparr>)"
    "mbuf_rest (mb'\<lparr>mb_pos := mb_pos mb\<rparr>) = xs @ drop (length xs) (mbuf_rest mb)"
proof -
  have "mb_pos mb \<le> length (mbuf_content mb)" using assms(1) by (simp add: mbuf_ok_def)
  moreover have "mbuf_content (mb'\<lparr>mb_pos := mb_pos mb\<rparr>) = mbuf_content mb'"
    by (simp add: mbuf_content_def mbuf_bytes_def)
  ultimately show "mbuf_rest (mb'\<lparr>mb_pos := mb_pos mb\<rparr>) = xs @ drop (length xs) (mbuf_rest mb)"
    using assms(2) by (simp add: mbuf_rest_def wrote_def drop_overwrite add.commute)
  show "mbuf_ok (mb'\<lparr>mb_pos := mb_pos mb\<rparr>)"
    using assms by (auto simp: wrote_def mbuf_ok_def mbuf_wf_def split: option.splits)
qed

lemma writesI:
  "(\<And>mb. mbuf_ok mb \<Longrightarrow> mb_pos mb + length xs < size_mod \<Longrightarrow>
      \<exists>mb'. run_state m mb = (0, mb') \<and> wrote mb xs mb') \<Longrightarrow> writes m xs"
  by (simp add: writes_def)

lemma writesD:
  assumes "writes m xs" "mbuf_ok mb" "mb_pos mb + length xs < size_mod"
  obtains mb' where "run_state m mb = (0, mb')" "wrote mb xs mb'"
  using assms by (auto simp: writes_def)

lemma writes_return: "e = 0 \<Longrightarrow> writes (State_Monad.return e) []"
  by (auto simp: writes_def wrote_def)

lemma writes_bind:
  assumes "writes m xs" "writes (f 0) ys"
  shows "writes (State_Monad.bind m f) (xs @ ys)"
proof (rule writesI)
  fix mb assume mb: "mbuf_ok mb" "mb_pos mb + length (xs @ ys) < size_mod"
  obtain t where t: "run_state m mb = (0, t)" "wrote mb xs t"
    using assms(1) mb by (auto elim: writesD)
  then have "mbuf_ok t" "mb_pos t + length ys < size_mod" using mb by (auto simp: wrote_def)
  then obtain u where "run_state (f 0) t = (0, u)" "wrote t ys u"
    using assms(2) by (auto elim: writesD)
  with t mb(1) show "\<exists>u. run_state (State_Monad.bind m f) mb = (0, u) \<and> wrote mb (xs @ ys) u"
    by (auto intro: wrote_trans)
qed

lemma writes_cong: "writes m xs \<Longrightarrow> xs = ys \<Longrightarrow> writes m ys"
  by simp

lemma writes_mem: "alloc_total E \<Longrightarrow> writes (mbuf_write_mem E (Some xs)) xs"
  by (rule writesI) (simp add: run_mbuf_write_mem wrote_def mb_simps mbuf_ok_wf)

lemma writes_ints:
  assumes "alloc_total E"
  shows "writes (mbuf_write_u8 E v8) [v8]"
    "writes (mbuf_write_u16 E v16) (le16 v16)"
    "writes (mbuf_write_u32 E v32) (le32 v32)"
    "writes (mbuf_write_u64 E v64) (le64 v64)"
  by (simp_all add: mbuf_write_u8_def mbuf_write_u16_def mbuf_write_u32_def mbuf_write_u64_def
      writes_mem [OF assms])

lemma writes_hton:
  assumes "alloc_total E"
  shows "writes (mbuf_write_u16 E (htons v16)) (be16 v16)"
    "writes (mbuf_write_u32 E (htonl v32)) (be32 v32)"
    "writes (mbuf_write_u64 E (htonll v64)) (be64 v64)"
  using writes_ints(2) [OF assms, of "htons v16"] writes_ints(3) [OF assms, of "htonl v32"]
    writes_ints(4) [OF assms, of "htonll v64"]
  by (simp_all add: byte_simps)

lemmas writes_rules = writes_bind writes_return writes_mem writes_hton writes_ints

subsection \<open>Puts\<close>

text \<open>
  The same for buffers whose position may be past the end, as when room was left for a header that
  is written later: \<open>xs\<close> is put at the position, what lies before (as far as it is content) and behind
  is kept.
\<close>

definition put_at :: "mbuf \<Rightarrow> u8 list \<Rightarrow> mbuf \<Rightarrow> bool" where
  "put_at mb xs mb' \<longleftrightarrow> mbuf_wf mb' \<and> mb_pos mb' = mb_pos mb + length xs \<and>
     mb_end mb \<le> mb_end mb' \<and> mb_end mb' \<le> max (mb_end mb) (mb_pos mb + length xs) \<and>
     take (min (mb_pos mb) (mb_end mb)) (mbuf_content mb') =
       take (min (mb_pos mb) (mb_end mb)) (mbuf_content mb) \<and>
     take (length xs) (drop (mb_pos mb) (mbuf_content mb')) = xs \<and>
     drop (mb_pos mb + length xs) (mbuf_content mb') = drop (mb_pos mb + length xs) (mbuf_content mb)"

definition puts :: "(mbuf, err) state \<Rightarrow> u8 list \<Rightarrow> bool" where
  "puts m xs \<longleftrightarrow> (\<forall>mb. mbuf_wf mb \<longrightarrow> mb_pos mb + length xs < size_mod \<longrightarrow>
     (\<exists>mb'. run_state m mb = (0, mb') \<and> put_at mb xs mb'))"

lemma put_atD:
  assumes "put_at mb xs mb'"
  shows "mbuf_wf mb'" "mb_pos mb' = mb_pos mb + length xs" "mb_end mb \<le> mb_end mb'"
    "mb_end mb' \<le> max (mb_end mb) (mb_pos mb + length xs)"
    "take (min (mb_pos mb) (mb_end mb)) (mbuf_content mb') =
       take (min (mb_pos mb) (mb_end mb)) (mbuf_content mb)"
    "take (length xs) (drop (mb_pos mb) (mbuf_content mb')) = xs"
    "drop (mb_pos mb + length xs) (mbuf_content mb') = drop (mb_pos mb + length xs) (mbuf_content mb)"
  using assms by (simp_all add: put_at_def)

lemma put_at_end:
  assumes "put_at mb xs mb'" "xs \<noteq> []"
  shows "mb_end mb' = max (mb_end mb) (mb_pos mb + length xs)"
proof -
  have "length (take (length xs) (drop (mb_pos mb) (mbuf_content mb'))) = length xs"
    using put_atD(6) [OF assms(1)] by simp
  then have "length xs \<le> mb_end mb' - mb_pos mb"
    using put_atD(1) [OF assms(1)] by simp
  moreover have "0 < length xs" using assms(2) by simp
  ultimately have "mb_pos mb + length xs \<le> mb_end mb'" by linarith
  then show ?thesis using put_atD(3,4) [OF assms(1)] by simp
qed

lemma put_at_trans:
  assumes "mbuf_wf mb" "put_at mb xs mb1" "put_at mb1 ys mb2"
  shows "put_at mb (xs @ ys) mb2"
proof -
  let ?c = "mbuf_content mb" and ?c1 = "mbuf_content mb1" and ?c2 = "mbuf_content mb2"
  let ?p = "mb_pos mb" and ?e = "mb_end mb" and ?p1 = "mb_pos mb1" and ?e1 = "mb_end mb1"
  have p1: "?p1 = ?p + length xs" and e1: "?e \<le> ?e1" "?e1 \<le> max ?e ?p1"
    and x: "take (length xs) (drop ?p ?c1) = xs" and d1: "drop ?p1 ?c1 = drop ?p1 ?c"
    and t1: "take (min ?p ?e) ?c1 = take (min ?p ?e) ?c" and wf1: "mbuf_wf mb1"
    using put_atD [OF assms(2)] by simp_all
  have t2: "take (min ?p1 ?e1) ?c2 = take (min ?p1 ?e1) ?c1"
    and y: "take (length ys) (drop ?p1 ?c2) = ys" and p2: "mb_pos mb2 = ?p1 + length ys"
    and d2: "drop (?p1 + length ys) ?c2 = drop (?p1 + length ys) ?c1"
    using put_atD [OF assms(3)] by simp_all
  have "take (min ?p ?e) ?c2 = take (min ?p ?e) (take (min ?p1 ?e1) ?c2)"
    using p1 e1 by (simp add: min_def)
  also have "\<dots> = take (min ?p ?e) ?c1" unfolding t2 using p1 e1 by (simp add: min_def)
  finally have "take (min ?p ?e) ?c2 = take (min ?p ?e) ?c" using t1 by simp
  moreover have "take (length xs) (drop ?p ?c2) = xs"
  proof (cases "xs = []")
    case False
    then have "?p1 \<le> ?e1" using put_at_end [OF assms(2)] p1 by simp
    then have "take ?p1 ?c2 = take ?p1 ?c1" using t2 by (simp add: min_absorb1)
    then have "drop ?p (take (?p + length xs) ?c2) = drop ?p (take (?p + length xs) ?c1)"
      using p1 by simp
    then show ?thesis using x by (simp add: drop_take)
  qed simp
  then have "take (length (xs @ ys)) (drop ?p ?c2) = xs @ ys"
    unfolding length_append take_add drop_drop using y p1 by (simp add: add.commute)
  moreover have "drop (?p + length (xs @ ys)) ?c2 = drop (?p + length (xs @ ys)) ?c"
  proof -
    have q: "?p + length (xs @ ys) = ?p1 + length ys" using p1 by simp
    have "drop (?p1 + length ys) ?c1 = drop (?p1 + length ys) ?c"
      using d1 by (metis add.commute drop_drop)
    then show ?thesis unfolding q using d2 p2 by simp
  qed
  moreover have "mb_end mb2 \<le> max ?e (?p + length (xs @ ys))"
    using put_atD(4) [OF assms(3)] e1 p1 by simp
  ultimately show ?thesis
    using put_atD(1-3) [OF assms(3)] p1 e1 by (simp add: put_at_def)
qed

lemma putsD:
  assumes "puts m xs" "mbuf_wf mb" "mb_pos mb + length xs < size_mod"
  obtains mb' where "run_state m mb = (0, mb')" "put_at mb xs mb'"
  using assms by (auto simp: puts_def)

lemma puts_bind:
  assumes "puts m xs" "puts (f 0) ys"
  shows "puts (State_Monad.bind m f) (xs @ ys)"
  unfolding puts_def
proof (intro allI impI)
  fix mb assume mb: "mbuf_wf mb" "mb_pos mb + length (xs @ ys) < size_mod"
  obtain t where t: "run_state m mb = (0, t)" "put_at mb xs t"
    using assms(1) mb by (auto elim: putsD)
  then have "mbuf_wf t" "mb_pos t + length ys < size_mod" using mb by (auto simp: put_at_def)
  then obtain u where "run_state (f 0) t = (0, u)" "put_at t ys u"
    using assms(2) by (auto elim: putsD)
  with t mb(1) show "\<exists>u. run_state (State_Monad.bind m f) mb = (0, u) \<and> put_at mb (xs @ ys) u"
    by (auto intro: put_at_trans)
qed

lemma puts_cong: "puts m xs \<Longrightarrow> xs = ys \<Longrightarrow> puts m ys"
  by simp

lemma puts_return: "e = 0 \<Longrightarrow> puts (State_Monad.return e) []"
  by (auto simp: puts_def put_at_def)

lemma wput_put_at:
  assumes "mbuf_wf mb" "mb_pos mb + length xs < size_mod"
  shows "put_at mb xs (wput E xs mb)"
proof -
  let ?g = "grown E (length xs) mb" and ?mb' = "wput E xs mb"
  note f = wput_facts [OF assms, of E] and g = grown_block [OF assms, of E]
  have c: "mbuf_content ?mb' = take (max (mb_end mb) (mb_pos mb + length xs))
      (overwrite (mb_pos mb) xs (mbuf_bytes ?g))"
    by (simp add: mbuf_content_def f)
  then have "take (length xs) (drop (mb_pos mb) (mbuf_content ?mb')) = xs"
    using g by (simp add: drop_take drop_overwrite)
  moreover have "take (min (mb_pos mb) (mb_end mb)) (mbuf_content ?mb') =
      take (min (mb_pos mb) (mb_end mb)) (take (mb_end mb) (mbuf_bytes ?g))"
    using g(1,2) by (auto simp: c take_overwrite_before min_def max_def)
  moreover have "drop (mb_pos mb + length xs) (mbuf_content ?mb') =
      drop (mb_pos mb + length xs) (take (mb_end mb) (mbuf_bytes ?g))"
    using g(1,2) unfolding c by (auto simp: drop_take overwrite_def max_def)
  ultimately show ?thesis using f g(5) by (simp add: put_at_def)
qed

lemma puts_mem: "alloc_total E \<Longrightarrow> puts (mbuf_write_mem E (Some xs)) xs"
  by (auto simp: puts_def run_mbuf_write_mem intro: wput_put_at)

lemma puts_ints:
  assumes "alloc_total E"
  shows "puts (mbuf_write_u8 E v8) [v8]"
    "puts (mbuf_write_u16 E v16) (le16 v16)"
    "puts (mbuf_write_u32 E v32) (le32 v32)"
    "puts (mbuf_write_u64 E v64) (le64 v64)"
    "puts (mbuf_write_u16 E (htons w16)) (be16 w16)"
    "puts (mbuf_write_u32 E (htonl w32)) (be32 w32)"
    "puts (mbuf_write_u64 E (htonll w64)) (be64 w64)"
  by (simp_all add: mbuf_write_u8_def mbuf_write_u16_def mbuf_write_u32_def mbuf_write_u64_def
      byte_simps puts_mem [OF assms])

lemma mbuf_alloc_run:
  assumes "alloc_total E" "0 < n" "n < size_mod"
  shows "\<exists>mb. mbuf_alloc E n = Some mb \<and> mbuf_wf mb \<and> mb_end mb = 0 \<and> mb_pos mb = 0"
proof -
  have "can_alloc E n" using assms by (simp add: alloc_total_def)
  then show ?thesis using assms
    by (auto simp: mbuf_alloc_def realloc_block_def mbuf_resize_def mbuf_init_def mbuf_wf_def mb_simps split: prod.split)
qed

lemmas puts_rules = puts_bind puts_return puts_mem puts_ints

lemma content_set_pos [simp]: "mbuf_content (mb\<lparr>mb_pos := p\<rparr>) = mbuf_content mb"
  by (simp add: mbuf_content_def mbuf_bytes_def)

lemma mbuf_wf_set_pos: "mbuf_wf mb \<Longrightarrow> p < size_mod \<Longrightarrow> mbuf_wf (mb\<lparr>mb_pos := p\<rparr>)"
  by (auto simp: mbuf_wf_def split: option.splits)

lemma put_at_rest:
  assumes "mbuf_wf mb" "mb_end mb \<le> mb_pos mb" "put_at mb xs mb'" "xs \<noteq> []"
  shows "mbuf_ok (mb'\<lparr>mb_pos := mb_pos mb\<rparr>)" "mbuf_rest (mb'\<lparr>mb_pos := mb_pos mb\<rparr>) = xs"
proof -
  note d = put_atD [OF assms(3)]
  have "drop (mb_pos mb + length xs) (mbuf_content mb') = []" using d(7) assms(1,2) by simp
  then show "mbuf_rest (mb'\<lparr>mb_pos := mb_pos mb\<rparr>) = xs"
    using d(6) append_take_drop_id [of "length xs" "drop (mb_pos mb) (mbuf_content mb')"]
    by (simp add: mbuf_rest_def add.commute)
  have "mb_pos mb < size_mod" using assms(1) by (simp add: mbuf_wf_def)
  then show "mbuf_ok (mb'\<lparr>mb_pos := mb_pos mb\<rparr>)"
    using mbuf_wf_set_pos [OF d(1)] put_at_end [OF assms(3,4)] by (simp add: mbuf_ok_def)
qed

text \<open>The header is written again over one of the same length.\<close>

lemma put_at_again:
  assumes mb: "mbuf_wf mb" "mb_end mb \<le> mb_pos mb" "mb_pos mb + length old + length body < size_mod"
    and b: "put_at mb (old @ body) mb1" and h: "put_at (mb1\<lparr>mb_pos := mb_pos mb\<rparr>) new t" "length new = length old" "old \<noteq> []"
  shows "put_at mb (new @ body) (t\<lparr>mb_pos := mb_pos t + length body\<rparr>)"
proof -
  have ne: "old @ body \<noteq> []" using h(3) by simp
  let ?c1 = "mbuf_content mb1" and ?t = "mbuf_content t" and ?p = "mb_pos mb" and ?e = "mb_end mb"
  note d1 = put_atD [OF b] and d2 = put_atD [OF h(1)]
  note r = put_at_rest [OF mb(1,2) b ne]
  have e1: "mb_end mb1 = ?p + length (old @ body)" using put_at_end [OF b ne] mb(2) by simp
  have "drop ?p ?c1 = old @ body" using r(2) by (simp add: mbuf_rest_def)
  then have "drop (?p + length old) ?c1 = body" by (metis append_eq_conv_conj drop_drop add.commute)
  then have "drop ?p ?t = new @ body"
    using d2(6,7) h(2) append_take_drop_id [of "length new" "drop ?p ?t"] by (simp add: add.commute)
  moreover have "take ?e ?t = mbuf_content mb"
  proof -
    have "take ?e ?t = take ?e (take ?p ?t)" using mb(2) by simp
    also have "take ?p ?t = take ?p ?c1" using d2(5) e1 by (simp add: min_absorb1)
    also have "take ?e (take ?p ?c1) = mbuf_content mb"
      using d1(5) mb(1,2) by (simp add: min_absorb1 min_absorb2)
    finally show ?thesis .
  qed
  ultimately show ?thesis
    using mb d1(3,4) d2(1-4) h(2) e1 by (simp add: put_at_def mbuf_wf_set_pos min_absorb2)
qed

text \<open>The body is put first, behind room for a header of \<open>k\<close> bytes that is filled in afterwards.\<close>

lemma put_at_backfill:
  assumes mb: "mbuf_wf mb" "mb_end mb \<le> mb_pos mb" "mb_pos mb + k + length body < size_mod"
    and body: "put_at (mb\<lparr>mb_pos := mb_pos mb + k\<rparr>) body mb1"
    and hdr: "put_at (mb1\<lparr>mb_pos := mb_pos mb\<rparr>) hdr t" "length hdr = k"
  shows "put_at mb (hdr @ body) (t\<lparr>mb_pos := mb_pos t + length body\<rparr>)"
proof -
  let ?c1 = "mbuf_content mb1" and ?t = "mbuf_content t" and ?p = "mb_pos mb" and ?e = "mb_end mb"
  have lc: "length (mbuf_content mb) = ?e" using mb(1) by simp
  have c1: "take ?e ?c1 = mbuf_content mb" "take (length body) (drop (?p + k) ?c1) = body"
    "drop (?p + k + length body) ?c1 = []" "?e \<le> mb_end mb1" "mb_end mb1 \<le> max ?e (?p + k + length body)"
    using put_atD(3-7) [OF body] mb lc by (simp_all add: min_absorb2)
  have b: "drop (?p + k) ?c1 = body"
    using c1(2,3) append_take_drop_id [of "length body" "drop (?p + k) ?c1"] by (simp add: add.commute)
  have t: "take (min ?p (mb_end mb1)) ?t = take (min ?p (mb_end mb1)) ?c1"
    "take k (drop ?p ?t) = hdr" "drop (?p + k) ?t = body" "mbuf_wf t" "mb_pos t = ?p + k"
    "mb_end mb1 \<le> mb_end t" "mb_end t \<le> max (mb_end mb1) (?p + k)"
    using put_atD [OF hdr(1)] hdr(2) b by simp_all
  have "drop ?p ?t = hdr @ body"
    using t(2,3) append_take_drop_id [of k "drop ?p ?t"] by (simp add: add.commute)
  moreover have "take ?e ?t = take ?e (take (min ?p (mb_end mb1)) ?t)"
    using mb(2) c1(4) by simp
  then have "take ?e ?t = mbuf_content mb"
    using t(1) c1(1) mb(2) c1(4) by (simp add: min_absorb1 min_absorb2)
  ultimately show ?thesis
    using mb t c1(4,5) hdr(2) lc
    by (auto simp: put_at_def mbuf_wf_set_pos min_absorb2 simp del: drop_append)
qed

subsection \<open>Properties of the buffer\<close>

text \<open>C11: What was written is what is read: after a write of \<open>xs\<close> anywhere in a well-formed buffer,
  reading \<open>length xs\<close> bytes from the old position gives \<open>xs\<close>, the buffer is still well formed, the
  bytes before the position are untouched, and those behind the written ones too.\<close>

theorem mbuf_write_read:
  assumes "alloc_total E" "mbuf_ok mb" "mb_pos mb + length xs < size_mod"
  shows "\<exists>mb'. run_state (mbuf_write_mem E (Some xs)) mb = (0, mb') \<and> mbuf_ok mb' \<and>
    fst (run_state (mbuf_read_mem (length xs)) (mb'\<lparr>mb_pos := mb_pos mb\<rparr>)) = (0, xs) \<and>
    take (mb_pos mb) (mbuf_content mb') = take (mb_pos mb) (mbuf_content mb) \<and>
    drop (mb_pos mb + length xs) (mbuf_content mb') = drop (mb_pos mb + length xs) (mbuf_content mb)"
proof -
  let ?r = "run_state (mbuf_write_mem E (Some xs)) mb"
  have r: "fst ?r = 0" using mbc.put_ready [OF assms] .
  note d = mbc.put_done [OF assms(2,3) r]
  have "mb_pos mb \<le> length (mbuf_content mb)" using mbc.cur_le [OF assms(2)] .
  then have "drop (mb_pos mb + length xs) (mbuf_content (snd ?r)) =
      drop (mb_pos mb + length xs) (mbuf_content mb)"
    using d by (simp add: overwrite_def)
  then show ?thesis
    using r d mbc.put_get [OF assms] mbc.put_frame [OF assms] by (intro exI [of _ "snd ?r"]) (simp add: prod_eq_iff)
qed

theorem mbuf_write_read_witness:
  "\<exists>mb'. run_state (mbuf_write_mem ideal_env (Some [1, 2, 3])) mbuf_init = (0, mb') \<and>
    fst (run_state (mbuf_read_mem 3) (mb'\<lparr>mb_pos := 0\<rparr>)) = (0, [1, 2, 3])"
  using mbuf_write_read [OF alloc_total_ideal mbuf_init_ok, of "[1, 2, 3]"]
  by (auto simp: mbuf_init_def size_mod_def numeral_3_eq_3)

text \<open>Every outcome of a write to a well-formed buffer, also one whose position is past its end
  (room kept for a header): it fails only with \<open>ENOMEM\<close>, and then nothing has changed; otherwise
  the buffer stays well formed, no access was out of range, the position is behind the written
  bytes, the end is moved only forward, and the content up to the position is kept.\<close>

theorem mbuf_write_mem_outcomes:
  assumes "mbuf_wf mb" "mb_pos mb + length xs < size_mod"
    and "run_state (mbuf_write_mem E (Some xs)) mb = (err, mb')"
  shows "if err = 0 then mbuf_wf mb' \<and> mb_pos mb' = mb_pos mb + length xs \<and>
      mb_end mb' = max (mb_end mb) (mb_pos mb + length xs) \<and>
      take (min (mb_pos mb) (mb_end mb)) (mbuf_content mb') =
        take (min (mb_pos mb) (mb_end mb)) (mbuf_content mb) \<and>
      take (length xs) (drop (mb_pos mb) (mbuf_content mb')) = xs
    else err = ENOMEM \<and> mb' = mb"
  using assms wput_put_at [OF assms(1,2), of E] wput_facts [OF assms(1,2), of E]
  by (auto simp: run_mbuf_write_mem_cases put_at_def split: if_splits)

theorem mbuf_write_mem_outcomes_witness:
  "mbuf_wf (snd (run_state (mbuf_write_mem ideal_env (Some [1, 2])) (mbuf_init\<lparr>mb_pos := 4\<rparr>)))"
  using mbuf_write_mem_outcomes [of "mbuf_init\<lparr>mb_pos := 4\<rparr>" "[1, 2]" ideal_env 0
      "snd (run_state (mbuf_write_mem ideal_env (Some [1, 2])) (mbuf_init\<lparr>mb_pos := 4\<rparr>))"]
  by (simp add: mbuf_wf_def mbuf_init_def size_mod_def run_mbuf_write_mem_cases ideal_env_def)

text \<open>\<open>mbuf_write_pl_skip\<close> writes the pointer-length string with the part to skip cut out, when
  that part lies inside it; otherwise it returns \<open>ERANGE\<close> and writes nothing.\<close>

theorem mbuf_write_pl_skip_cuts:
  assumes "alloc_total E" "mbuf_ok mb" "p + l \<le> length m" "mb_pos mb + l < size_mod"
  shows "if p \<le> sp \<and> sp + sl \<le> p + l
    then \<exists>mb'. run_state (mbuf_write_pl_skip E m (p, l) (sp, sl)) mb = (0, mb') \<and> mbuf_ok mb' \<and>
      mbuf_content mb' = overwrite (mb_pos mb)
        (take (sp - p) (drop p m) @ drop (sp + sl) (take (p + l) m)) (mbuf_content mb)
    else run_state (mbuf_write_pl_skip E m (p, l) (sp, sl)) mb = (ERANGE, mb)"
proof (cases "p \<le> sp \<and> sp + sl \<le> p + l")
  case True
  let ?a = "take (sp - p) (drop p m)" and ?b = "take (p + l - (sp + sl)) (drop (sp + sl) m)"
  have w: "writes (do { err \<leftarrow> mbuf_write_mem E (Some ?a);
      if err \<noteq> 0 then State_Monad.return err else mbuf_write_mem E (Some ?b) }) (?a @ ?b)"
    by (rule writes_bind) (simp_all add: writes_mem [OF assms(1)])
  have "length ?a \<le> sp - p" "length ?b \<le> p + l - (sp + sl)" by simp_all
  then have "length (?a @ ?b) \<le> l" using True unfolding length_append by linarith
  with assms(4) have "mb_pos mb + length (?a @ ?b) < size_mod" by linarith
  from writesD [OF w assms(2) this] True show ?thesis
    by (fastforce simp: mbuf_write_pl_skip_def wrote_def drop_take)
next
  case False
  then show ?thesis by (auto simp: mbuf_write_pl_skip_def)
qed

theorem mbuf_write_pl_skip_cuts_witness:
  "\<exists>mb'. run_state (mbuf_write_pl_skip ideal_env [1, 2, 3, 4, 5] (1, 4) (2, 1)) mbuf_init = (0, mb') \<and>
    mbuf_content mb' = [2, 4, 5]"
  using mbuf_write_pl_skip_cuts [OF alloc_total_ideal mbuf_init_ok, of 1 4 "[1, 2, 3, 4, 5]" 2 1]
  by (fastforce simp: mbuf_init_def size_mod_def mbuf_content_def overwrite_def)

end
