(* ===== verification/Rtp.thy ===== *)
theory Rtp
  imports Mbuf "HOL-Library.Signed_Division"
begin

text \<open>
  RTP: header encoding and decoding (\<^verbatim>\<open>src/rtp/rtp.c\<close>), the per-source reception statistics of
  RFC 3550 (\<^verbatim>\<open>src/rtp/source.c\<close>) and the NTP helpers on integers (\<^verbatim>\<open>src/rtp/ntp.c\<close>).
\<close>

subsection \<open>The RTP header\<close>

definition RTP_HEADER_SIZE :: nat where "RTP_HEADER_SIZE = 12"
definition RTP_VERSION :: u8 where "RTP_VERSION = 2"

record rtp_header =
  rh_ver :: u8
  rh_pad :: bool
  rh_ext :: bool
  rh_cc :: u8
  rh_m :: bool
  rh_pt :: u8
  rh_seq :: u16
  rh_ts :: u32
  rh_ssrc :: u32
  rh_csrc :: "u32 list" \<comment> \<open>\<^verbatim>\<open>csrc[16]\<close>\<close>
  rh_x_type :: u16
  rh_x_len :: u16

definition rtp_header_zero :: rtp_header where
  "rtp_header_zero = \<lparr>rh_ver = 0, rh_pad = False, rh_ext = False, rh_cc = 0, rh_m = False,
     rh_pt = 0, rh_seq = 0, rh_ts = 0, rh_ssrc = 0, rh_csrc = replicate 16 0,
     rh_x_type = 0, rh_x_len = 0\<rparr>"

definition rtp_byte0 :: "rtp_header \<Rightarrow> u8" where
  "rtp_byte0 h = push_bit 6 (rh_ver h AND 2) OR push_bit 5 (of_bool (rh_pad h)) OR
     push_bit 4 (of_bool (rh_ext h)) OR (rh_cc h AND 15)"

definition rtp_byte1 :: "rtp_header \<Rightarrow> u8" where
  "rtp_byte1 h = push_bit 7 (of_bool (rh_m h)) OR (rh_pt h AND 0x7f)"

text \<open>The loop over \<^verbatim>\<open>csrc[i]\<close>, \<open>n\<close> rounds from \<open>i\<close>; an index past the array is a fault.\<close>

fun rtp_csrc_encode :: "mem_env \<Rightarrow> u32 list \<Rightarrow> nat \<Rightarrow> nat \<Rightarrow> (mbuf, err) state" where
  "rtp_csrc_encode E cs i 0 = State_Monad.return 0"
| "rtp_csrc_encode E cs i (Suc n) = do {
     e \<leftarrow> (if i < length cs then mbuf_write_u32 E (htonl (cs ! i))
          else do { State_Monad.update (\<lambda>mb. mb\<lparr>mb_fault := True\<rparr>); State_Monad.return 0 });
     e' \<leftarrow> rtp_csrc_encode E cs (Suc i) n;
     State_Monad.return (e OR e')
   }"

definition rtp_hdr_encode :: "mem_env \<Rightarrow> rtp_header \<Rightarrow> (mbuf, err) state" where
  "rtp_hdr_encode E hdr = do {
     e1 \<leftarrow> mbuf_write_mem E (Some [rtp_byte0 hdr, rtp_byte1 hdr]);
     e2 \<leftarrow> mbuf_write_u16 E (htons (rh_seq hdr));
     e3 \<leftarrow> mbuf_write_u32 E (htonl (rh_ts hdr));
     e4 \<leftarrow> mbuf_write_u32 E (htonl (rh_ssrc hdr));
     e5 \<leftarrow> rtp_csrc_encode E (rh_csrc hdr) 0 (unat (rh_cc hdr));
     State_Monad.return (e1 OR e2 OR e3 OR e4 OR e5)
   }"

fun rtp_csrc_decode :: "nat \<Rightarrow> (mbuf, u32 list) state" where
  "rtp_csrc_decode 0 = State_Monad.return []"
| "rtp_csrc_decode (Suc n) = do {
     v \<leftarrow> mbuf_read_u32;
     vs \<leftarrow> rtp_csrc_decode n;
     State_Monad.return (htonl v # vs)
   }"

definition rtp_ext_decode :: "rtp_header \<Rightarrow> (mbuf, err \<times> rtp_header) state" where
  "rtp_ext_decode hdr = do {
     mb \<leftarrow> State_Monad.get;
     (if mbuf_get_left mb < 4 then State_Monad.return (EBADMSG, hdr)
      else do {
        t \<leftarrow> mbuf_read_u16;
        l \<leftarrow> mbuf_read_u16;
        let hdr = hdr\<lparr>rh_x_type := htons t, rh_x_len := htons l\<rparr>;
        mb \<leftarrow> State_Monad.get;
        (if mbuf_get_left mb < unat (rh_x_len hdr) * 4 then State_Monad.return (EBADMSG, hdr)
         else do {
           _ \<leftarrow> mbuf_advance (unat (rh_x_len hdr) * 4);
           State_Monad.return (0, hdr) }) })
   }"

text \<open>The last part of \<^verbatim>\<open>rtp_hdr_decode\<close>: the contributing sources and the extension.\<close>

definition rtp_hdr_tail :: "rtp_header \<Rightarrow> (mbuf, err \<times> rtp_header) state" where
  "rtp_hdr_tail hdr = do {
     let n = unat (rh_cc hdr);
     mb \<leftarrow> State_Monad.get;
     (if mbuf_get_left mb < n * 4 then State_Monad.return (EBADMSG, hdr)
      else do {
        cs \<leftarrow> rtp_csrc_decode n;
        let hdr = hdr\<lparr>rh_csrc := cs @ drop n (rh_csrc hdr)\<rparr>;
        (if rh_ext hdr then rtp_ext_decode hdr else State_Monad.return (0, hdr)) })
   }"

text \<open>The decoder writes into the caller's header, also on the error paths.\<close>

definition rtp_hdr_decode :: "rtp_header \<Rightarrow> (mbuf, err \<times> rtp_header) state" where
  "rtp_hdr_decode hdr = do {
     mb \<leftarrow> State_Monad.get;
     (if mbuf_get_left mb < RTP_HEADER_SIZE then State_Monad.return (EBADMSG, hdr)
      else do {
        (err, b) \<leftarrow> mbuf_read_mem 2;
        (if err \<noteq> 0 then State_Monad.return (err, hdr)
         else do {
           let hdr = hdr\<lparr>rh_ver := drop_bit 6 (b ! 0) AND 3,
                         rh_pad := (drop_bit 5 (b ! 0) AND 1 \<noteq> 0),
                         rh_ext := (drop_bit 4 (b ! 0) AND 1 \<noteq> 0),
                         rh_cc := b ! 0 AND 15,
                         rh_m := (drop_bit 7 (b ! 1) AND 1 \<noteq> 0),
                         rh_pt := b ! 1 AND 0x7f\<rparr>;
           s \<leftarrow> mbuf_read_u16;
           t \<leftarrow> mbuf_read_u32;
           r \<leftarrow> mbuf_read_u32;
           let hdr = hdr\<lparr>rh_seq := htons s, rh_ts := htonl t, rh_ssrc := htonl r\<rparr>;
           rtp_hdr_tail hdr }) })
   }"

text \<open>The part of \<^verbatim>\<open>struct rtp_sock\<close> the codec uses.\<close>

record rtp_enc =
  enc_seq :: u16
  enc_ssrc :: u32

definition rtp_encode ::
  "mem_env \<Rightarrow> rtp_enc \<Rightarrow> bool \<Rightarrow> u8 \<Rightarrow> u32 \<Rightarrow> (mbuf, err \<times> rtp_enc) state" where
  "rtp_encode E rs marker pt ts =
     (if pt AND NOT 0x7f \<noteq> 0 then State_Monad.return (EINVAL, rs)
      else do {
        let hdr = rtp_header_zero\<lparr>rh_ver := RTP_VERSION, rh_pad := False, rh_ext := False,
          rh_cc := 0, rh_m := marker, rh_pt := pt, rh_seq := enc_seq rs, rh_ts := ts,
          rh_ssrc := enc_ssrc rs\<rparr>;
        err \<leftarrow> rtp_hdr_encode E hdr;
        State_Monad.return (err, rs\<lparr>enc_seq := enc_seq rs + 1\<rparr>) })"

definition rtp_decode :: "(mbuf, err \<times> rtp_header) state" where
  "rtp_decode = do {
     (err, hdr) \<leftarrow> rtp_hdr_decode rtp_header_zero;
     State_Monad.return
       (if err \<noteq> 0 then (err, hdr) else if rh_ver hdr \<noteq> RTP_VERSION then (EBADMSG, hdr) else (0, hdr))
   }"

subsection \<open>Reception statistics of a source\<close>

definition RTP_SEQ_MOD :: u32 where "RTP_SEQ_MOD = 65536"

text \<open>\<^verbatim>\<open>struct rtp_source\<close>, less the peer's socket address, which these functions do not use.\<close>

record rtp_source =
  max_seq :: u16
  cycles :: u32
  base_seq :: u32
  bad_seq :: u32
  probation :: u32
  received :: u32
  expected_prior :: u32
  received_prior :: u32
  transit :: "32 word" \<comment> \<open>\<^verbatim>\<open>int\<close>\<close>
  jitter :: u32
  rtp_rx_bytes :: nat
  sr_recv :: u64
  last_sr :: "u32 \<times> u32"
  src_rtp_ts :: u32
  psent :: u32
  osent :: u32

definition source_init_seq :: "rtp_source \<Rightarrow> u16 \<Rightarrow> rtp_source" where
  "source_init_seq s q = s\<lparr>base_seq := ucast q, max_seq := q, bad_seq := RTP_SEQ_MOD + 1,
     cycles := 0, received := 0, received_prior := 0, expected_prior := 0\<rparr>"

definition MAX_DROPOUT :: nat where "MAX_DROPOUT = 3000"
definition MAX_MISORDER :: nat where "MAX_MISORDER = 100"
definition MIN_SEQUENTIAL :: u32 where "MIN_SEQUENTIAL = 2"

text \<open>Returns whether the packet counts as received (the C function's 0 or 1).\<close>

definition source_update_seq :: "rtp_source \<Rightarrow> u16 \<Rightarrow> bool \<times> rtp_source" where
  "source_update_seq s q = (let udelta = unat (q - max_seq s) in
     if probation s \<noteq> 0 then
       (if unat q = unat (max_seq s) + 1 then
          (let s = s\<lparr>probation := probation s - 1, max_seq := q\<rparr> in
           if probation s = 0 then
             (let s = source_init_seq s q in (True, s\<lparr>received := received s + 1\<rparr>))
           else (False, s))
        else (False, s\<lparr>probation := MIN_SEQUENTIAL - 1, max_seq := q\<rparr>))
     else if udelta < MAX_DROPOUT then
       (let s = (if q < max_seq s then s\<lparr>cycles := cycles s + RTP_SEQ_MOD\<rparr> else s);
            s = s\<lparr>max_seq := q\<rparr>
        in (True, s\<lparr>received := received s + 1\<rparr>))
     else if udelta \<le> unat RTP_SEQ_MOD - MAX_MISORDER then
       (if ucast q = bad_seq s then
          (let s = source_init_seq s q in (True, s\<lparr>received := received s + 1\<rparr>))
        else (False, s\<lparr>bad_seq := (ucast q + 1) AND (RTP_SEQ_MOD - 1)\<rparr>))
     else (True, s\<lparr>received := received s + 1\<rparr>))"

definition source_calc_jitter :: "rtp_source \<Rightarrow> u32 \<Rightarrow> u32 \<Rightarrow> rtp_source" where
  "source_calc_jitter s rtp_ts arrival = (let
     tr = arrival - rtp_ts;
     d = tr - transit s;
     s = s\<lparr>transit := tr\<rparr>
   in if rtp_rx_bytes s = 0 then s
      else (let d = (if d <s 0 then - d else d)
            in s\<lparr>jitter := jitter s + (d - drop_bit 4 (jitter s + 8))\<rparr>))"

definition source_expected :: "rtp_source \<Rightarrow> 32 word" where
  "source_expected s = (cycles s + ucast (max_seq s)) - base_seq s + 1"

definition source_calc_lost :: "rtp_source \<Rightarrow> 32 word" where
  "source_calc_lost s = (let lost = source_expected s - received s in
     if 0x7fffff <s lost then 0x7fffff
     else if lost <s - 0x7fffff then - 0x7fffff
     else lost)"

definition source_calc_fraction_lost :: "rtp_source \<Rightarrow> u8 \<times> rtp_source" where
  "source_calc_fraction_lost s = (let
     expected = source_expected s;
     expected_interval = expected - expected_prior s;
     received_interval = received s - received_prior s;
     s = s\<lparr>expected_prior := expected, received_prior := received s\<rparr>;
     lost_interval = expected_interval - received_interval
   in (if expected_interval = 0 \<or> lost_interval \<le>s 0 then 0
       else word_of_int (sint (push_bit 8 lost_interval) sdiv sint expected_interval), s))"

subsection \<open>NTP time\<close>

definition ntp_compact :: "u32 \<Rightarrow> u32 \<Rightarrow> u32" where
  "ntp_compact hi lo = push_bit 16 (hi AND 0xffff) OR drop_bit 16 lo"

definition ntp_compact2us :: "u32 \<Rightarrow> u64" where
  "ntp_compact2us ntpc = (let
     hi = drop_bit 16 ntpc AND 0xffff;
     lo = push_bit 16 (ntpc AND 0xffff)
   in 1000000 * ucast hi + drop_bit 32 (1000000 * ucast lo))"

subsection \<open>Properties of the codec\<close>

definition rtp_hdr_bytes :: "rtp_header \<Rightarrow> u8 list" where
  "rtp_hdr_bytes h = [rtp_byte0 h, rtp_byte1 h] @ be16 (rh_seq h) @ be32 (rh_ts h) @
     be32 (rh_ssrc h) @ concat (map be32 (take (unat (rh_cc h)) (rh_csrc h)))"

lemma writes_csrc:
  "alloc_total E \<Longrightarrow> i + n \<le> length cs \<Longrightarrow>
   writes (rtp_csrc_encode E cs i n) (concat (map be32 (take n (drop i cs))))"
proof (induction n arbitrary: i)
  case 0
  then show ?case by (simp add: writes_return)
next
  case (Suc n)
  then have "take (Suc n) (drop i cs) = cs ! i # take n (drop (Suc i) cs)"
    by (simp add: Cons_nth_drop_Suc [symmetric])
  moreover have "writes (rtp_csrc_encode E cs i (Suc n))
      (be32 (cs ! i) @ concat (map be32 (take n (drop (Suc i) cs))) @ [])"
    unfolding rtp_csrc_encode.simps
  proof (rule writes_bind)
    show "writes (if i < length cs then mbuf_write_u32 E (htonl (cs ! i))
        else do { State_Monad.update (\<lambda>mb. mb\<lparr>mb_fault := True\<rparr>); State_Monad.return 0 })
      (be32 (cs ! i))"
      using Suc.prems by (simp add: writes_hton)
    show "writes (do { e' \<leftarrow> rtp_csrc_encode E cs (Suc i) n; State_Monad.return (0 OR e') })
      (concat (map be32 (take n (drop (Suc i) cs))) @ [])"
      using Suc by (intro writes_bind) (simp_all add: writes_return)
  qed
  ultimately show ?case by simp
qed

lemma writes_rtp_hdr:
  assumes "alloc_total E" "unat (rh_cc h) \<le> length (rh_csrc h)"
  shows "writes (rtp_hdr_encode E h) (rtp_hdr_bytes h)"
  unfolding rtp_hdr_encode_def rtp_hdr_bytes_def
  using assms(2)
  by - (rule writes_cong, (rule writes_bind writes_return writes_rules(3-) [OF assms(1)]
        writes_csrc [OF assms(1)] | simp)+)

lemma rtp_byte_fields:
  "drop_bit 6 (rtp_byte0 h) AND 3 = rh_ver h AND 2"
  "rtp_byte0 h AND 15 = rh_cc h AND 15"
  "rtp_byte1 h AND 0x7f = rh_pt h AND 0x7f"
  "(drop_bit 5 (rtp_byte0 h) AND 1 \<noteq> 0) = rh_pad h"
  "(drop_bit 4 (rtp_byte0 h) AND 1 \<noteq> 0) = rh_ext h"
  "(drop_bit 7 (rtp_byte1 h) AND 1 \<noteq> 0) = rh_m h"
proof -
  show "drop_bit 6 (rtp_byte0 h) AND 3 = rh_ver h AND 2"
    by (rule bit_word_eqI, simp add: rtp_byte0_def, drule less_8_cases)
      (elim disjE; simp add: bit_simps)
  show "rtp_byte0 h AND 15 = rh_cc h AND 15"
    by (rule bit_word_eqI, simp add: rtp_byte0_def, drule less_8_cases)
      (elim disjE; simp add: bit_simps)
  show "rtp_byte1 h AND 0x7f = rh_pt h AND 0x7f"
    by (rule bit_word_eqI, simp add: rtp_byte1_def, drule less_8_cases)
      (elim disjE; simp add: bit_simps)
  show "(drop_bit 5 (rtp_byte0 h) AND 1 \<noteq> 0) = rh_pad h"
    "(drop_bit 4 (rtp_byte0 h) AND 1 \<noteq> 0) = rh_ext h"
    "(drop_bit 7 (rtp_byte1 h) AND 1 \<noteq> 0) = rh_m h"
    unfolding mask_simps take_bit_1_nonzero by (simp_all add: rtp_byte0_def rtp_byte1_def bit_simps)
qed

lemma rtp_csrc_decode_run:
  "mbuf_ok mb \<Longrightarrow> mbuf_rest mb = concat (map be32 cs) @ r \<Longrightarrow>
   run_state (rtp_csrc_decode (length cs)) mb = (cs, adv (4 * length cs) mb)"
proof (induction cs arbitrary: mb)
  case Nil
  then show ?case by simp
next
  case (Cons c cs)
  then have "mbuf_ok (adv 4 mb)" "mbuf_rest (adv 4 mb) = concat (map be32 cs) @ r"
    by (simp_all add: mb_simps)
  from Cons.IH [OF this] Cons.prems show ?case by (simp add: mb_simps byte_simps)
qed

text \<open>The header fields survive their bit widths; \<open>ext\<close> is off, as in everything the stack sends.\<close>

definition rtp_hdr_wf :: "rtp_header \<Rightarrow> bool" where
  "rtp_hdr_wf h \<longleftrightarrow> rh_ver h AND 2 = rh_ver h \<and> rh_cc h AND 15 = rh_cc h \<and>
     rh_pt h AND 0x7f = rh_pt h \<and> \<not> rh_ext h \<and> length (rh_csrc h) = 16"

lemma rtp_cc_bound: "cc AND 15 = (cc :: u8) \<Longrightarrow> unat cc \<le> 15"
  using word_and_le1 [of cc 15] by (simp add: word_le_nat_alt)

definition rtp_decoded :: "rtp_header \<Rightarrow> rtp_header \<Rightarrow> rtp_header" where
  "rtp_decoded h0 h = h\<lparr>rh_csrc := take (unat (rh_cc h)) (rh_csrc h) @ drop (unat (rh_cc h)) (rh_csrc h0),
     rh_x_type := rh_x_type h0, rh_x_len := rh_x_len h0\<rparr>"

lemma rtp_hdr_decode_run:
  assumes mb: "mbuf_ok mb" "mbuf_rest mb = rtp_hdr_bytes h @ r" and wf: "rtp_hdr_wf h"
  shows "run_state (rtp_hdr_decode h0) mb =
    ((0, rtp_decoded h0 h), adv (12 + 4 * unat (rh_cc h)) mb)"
proof -
  let ?n = "unat (rh_cc h)" and ?cs = "take (unat (rh_cc h)) (rh_csrc h)"
  have n: "length ?cs = ?n" using wf rtp_cc_bound [of "rh_cc h"] by (simp add: rtp_hdr_wf_def)
  have l: "length (concat (map be32 ?cs)) = 4 * ?n"
    using n by (simp add: length_concat comp_def sum_list_triv)
  have c: "run_state (rtp_csrc_decode ?n) (adv 12 mb) = (?cs, adv (12 + 4 * ?n) mb)"
    using rtp_csrc_decode_run [of "adv 12 mb" ?cs r] mb l n
    by (simp add: rtp_hdr_bytes_def mb_simps)
  show ?thesis
    using mb wf l c
    by (simp add: rtp_hdr_decode_def RTP_HEADER_SIZE_def mb_simps rtp_hdr_bytes_def byte_simps
        rtp_byte_fields rtp_hdr_wf_def rtp_decoded_def rtp_hdr_tail_def Let_def)
qed

lemma reader_rtp_csrc: "reader (rtp_csrc_decode n)"
  by (induction n) (auto intro!: keeps_intros)

lemma reader_rtp_ext: "reader (rtp_ext_decode h)"
  unfolding rtp_ext_decode_def Let_def
  by (rule reader_guarded_advance keeps_intros)+

lemma reader_rtp_tail: "reader (rtp_hdr_tail h)"
  unfolding rtp_hdr_tail_def Let_def
  by (rule reader_rtp_csrc reader_rtp_ext keeps_intros)+

lemma reader_rtp_hdr: "reader (rtp_hdr_decode h)"
  unfolding rtp_hdr_decode_def Let_def
  by (rule reader_rtp_tail keeps_intros)+

text \<open>C12: A header of version 0 or 2 without the extension bit, whose other fields fit their bit widths, and that is
  encoded into a buffer (the encoder keeps only the upper bit of the version, and for a header with the extension bit it sets the bit
  but writes no extension) can be decoded from there: encoding succeeds when allocation does, and decoding from where
  the header starts gives the header back (with the first \<open>cc\<close> contributing sources) and stops right
  behind it.\<close>

theorem rtp_header_roundtrip:
  assumes "alloc_total E" "mbuf_ok mb" "rtp_hdr_wf h"
    and "mb_pos mb + (12 + 4 * unat (rh_cc h)) < size_mod"
  shows "\<exists>mb'. run_state (rtp_hdr_encode E h) mb = (0, mb') \<and>
    run_state (rtp_hdr_decode h0) (mb'\<lparr>mb_pos := mb_pos mb\<rparr>) = ((0, rtp_decoded h0 h), mb')"
proof -
  have cc: "unat (rh_cc h) \<le> length (rh_csrc h)"
    using assms(3) rtp_cc_bound [of "rh_cc h"] by (simp add: rtp_hdr_wf_def)
  then have l: "length (rtp_hdr_bytes h) = 12 + 4 * unat (rh_cc h)"
    by (simp add: rtp_hdr_bytes_def length_concat comp_def sum_list_triv)
  obtain mb' where r: "run_state (rtp_hdr_encode E h) mb = (0, mb')" and w: "wrote mb (rtp_hdr_bytes h) mb'"
    using writesD [OF writes_rtp_hdr [OF assms(1) cc] assms(2)] assms(4) l by auto
  have "adv (12 + 4 * unat (rh_cc h)) (mb'\<lparr>mb_pos := mb_pos mb\<rparr>) = mb'"
    using w l by (simp add: adv_def wrote_def)
  with r rtp_hdr_decode_run [OF wrote_rest [OF assms(2) w] assms(3)] show ?thesis by auto
qed

definition rtp_example :: rtp_header where
  "rtp_example = rtp_header_zero\<lparr>rh_ver := 2, rh_cc := 1, rh_m := True, rh_pt := 8, rh_seq := 4660,
     rh_ts := 160, rh_ssrc := 0xdeadbeef, rh_csrc := [7] @ replicate 15 0\<rparr>"

theorem rtp_header_roundtrip_witness:
  "\<exists>mb'. run_state (rtp_hdr_encode ideal_env rtp_example) mbuf_init = (0, mb') \<and>
    run_state (rtp_hdr_decode rtp_header_zero) (mb'\<lparr>mb_pos := 0\<rparr>) =
      ((0, rtp_decoded rtp_header_zero rtp_example), mb')"
  using rtp_header_roundtrip [of ideal_env mbuf_init rtp_example rtp_header_zero]
  by (simp add: alloc_total_def ideal_env_def mbuf_ok_def mbuf_wf_def mbuf_init_def rtp_hdr_wf_def
      rtp_example_def rtp_header_zero_def size_mod_def)

lemma rtp_hdr_decode_min:
  assumes "mbuf_ok mb" "run_state (rtp_hdr_decode h0) mb = ((0, h), t)"
  shows "mb_pos mb + 12 \<le> mb_pos t"
proof -
  have l: "12 \<le> length (mbuf_rest mb)"
    using assms by (simp add: rtp_hdr_decode_def mb_simps RTP_HEADER_SIZE_def split: if_splits)
  then have "2 \<le> length (mbuf_rest mb) - 2" "4 \<le> length (mbuf_rest mb) - 4" "4 \<le> length (mbuf_rest mb) - 8"
    by simp_all
  with l obtain h1 where "run_state (rtp_hdr_decode h0) mb = run_state (rtp_hdr_tail h1) (adv 12 mb)"
    using assms(1) by (simp add: rtp_hdr_decode_def mb_simps RTP_HEADER_SIZE_def Let_def)
  moreover have "mbuf_ok (adv 12 mb)" using assms(1) l by (simp add: mb_simps)
  ultimately have "reads (adv 12 mb) t" using assms(2) readerD [OF reader_rtp_tail] by metis
  then show ?thesis using reads_frame by fastforce
qed

text \<open>On every well-formed buffer, whatever bytes it holds, \<open>rtp_decode\<close> only moves the position
  forward within the bytes left (no access outside the block, nothing else changed), and when it
  succeeds the version is 2 and at least the 12 bytes of the fixed header were consumed.\<close>

theorem rtp_decode_safe:
  assumes "mbuf_ok mb" "run_state rtp_decode mb = ((err, hdr), mb')"
  shows "reads mb mb' \<and> mbuf_ok mb' \<and>
    (if err = 0 then rh_ver hdr = 2 \<and> mb_pos mb + 12 \<le> mb_pos mb' else True)"
proof -
  obtain e h t where d: "run_state (rtp_hdr_decode rtp_header_zero) mb = ((e, h), t)"
    by (metis prod.collapse)
  have rd: "reads mb t" "mbuf_ok t" using readerD [OF reader_rtp_hdr assms(1) d] by auto
  have "t = mb'" and e: "err = 0 \<Longrightarrow> e = 0 \<and> rh_ver hdr = 2"
    using assms(2) d by (auto simp: rtp_decode_def RTP_VERSION_def split: if_splits)
  have "e = 0 \<Longrightarrow> mb_pos mb + 12 \<le> mb_pos t"
    using rtp_hdr_decode_min [OF assms(1)] d by simp
  with rd e \<open>t = mb'\<close> show ?thesis by auto
qed

theorem rtp_decode_safe_witness:
  "reads mbuf_init (snd (run_state rtp_decode mbuf_init))"
  using rtp_decode_safe [of mbuf_init "fst (fst (run_state rtp_decode mbuf_init))"
      "snd (fst (run_state rtp_decode mbuf_init))" "snd (run_state rtp_decode mbuf_init)"]
  by (simp add: mbuf_init_ok)

subsection \<open>Properties of the reception statistics\<close>

text \<open>The extended highest sequence number, as the 32-bit value RFC 3550 reports.\<close>

definition ext_seq :: "rtp_source \<Rightarrow> u32" where
  "ext_seq s = cycles s + ucast (max_seq s)"

lemma ucast_add_no_wrap:
  fixes a :: u16
  assumes "unat a + d < 65536"
  shows "(ucast (a + of_nat d) :: u32) = ucast a + of_nat d"
proof (rule word_unat_eq_iff [THEN iffD2])
  have d: "d < 65536" using assms by simp
  have "unat (a + of_nat d) = unat a + d"
    using assms d by (simp add: unat_word_ariths unat_of_nat)
  then show "unat (ucast (a + of_nat d) :: u32) = unat (ucast a + of_nat d :: u32)"
    using assms d by (simp add: unat_word_ariths unat_of_nat)
qed

lemma ucast_add_wrap:
  fixes a :: u16
  assumes "65536 \<le> unat a + d" "d < 65536"
  shows "(ucast (a + of_nat d) :: u32) + 65536 = ucast a + of_nat d"
proof (rule word_unat_eq_iff [THEN iffD2])
  have a: "unat a < 65536" by (rule unat_bounds)
  then have "unat (a + of_nat d) = unat a + d - 65536"
    using assms by (simp add: unat_word_ariths unat_of_nat le_mod_geq)
  then show "unat ((ucast (a + of_nat d) :: u32) + 65536) = unat (ucast a + of_nat d :: u32)"
    using assms a by (simp add: unat_word_ariths unat_of_nat)
qed

lemma wrapped_iff:
  fixes a :: u16
  assumes "d < 65536"
  shows "a + of_nat d < a \<longleftrightarrow> 65536 \<le> unat a + d"
proof (cases "65536 \<le> unat a + d")
  case True
  have "unat a < 65536" by (rule unat_bounds)
  with True have "unat (a + of_nat d) = unat a + d - 65536"
    using assms by (simp add: unat_word_ariths unat_of_nat le_mod_geq)
  then show ?thesis using True assms by (simp add: word_less_nat_alt)
next
  case False
  then have "unat (a + of_nat d) = unat a + d"
    using assms by (simp add: unat_word_ariths unat_of_nat)
  then show ?thesis using False by (simp add: word_less_nat_alt)
qed

lemma update_in_order:
  assumes "probation s = 0" "d < 3000"
  shows "fst (source_update_seq s (max_seq s + of_nat d))"
    "ext_seq (snd (source_update_seq s (max_seq s + of_nat d))) = ext_seq s + of_nat d"
    "received (snd (source_update_seq s (max_seq s + of_nat d))) = received s + 1"
    "probation (snd (source_update_seq s (max_seq s + of_nat d))) = 0"
    "base_seq (snd (source_update_seq s (max_seq s + of_nat d))) = base_seq s"
proof -
  let ?q = "max_seq s + of_nat d"
  let ?s = "if ?q < max_seq s then s\<lparr>cycles := cycles s + RTP_SEQ_MOD\<rparr> else s"
  have "unat (?q - max_seq s) = d" using assms(2) by (simp add: unat_of_nat)
  then have u: "source_update_seq s ?q = (True, ?s\<lparr>max_seq := ?q, received := received s + 1\<rparr>)"
    using assms by (simp add: source_update_seq_def MAX_DROPOUT_def Let_def)
  have d: "d < 65536" using assms(2) by simp
  show "ext_seq (snd (source_update_seq s ?q)) = ext_seq s + of_nat d"
    using ucast_add_no_wrap [of "max_seq s" d] ucast_add_wrap [of "max_seq s" d]
    by (cases "65536 \<le> unat (max_seq s) + d")
      (simp_all add: u ext_seq_def RTP_SEQ_MOD_def wrapped_iff [OF d] d add.assoc not_le
        add.commute [of 65536])
qed (use assms in \<open>simp_all add: source_update_seq_def MAX_DROPOUT_def Let_def unat_of_nat\<close>)

text \<open>Packets received one after another, each \<open>d\<close> sequence numbers after the highest so far.\<close>

fun rx_run :: "rtp_source \<Rightarrow> nat list \<Rightarrow> rtp_source" where
  "rx_run s [] = s"
| "rx_run s (d # ds) = rx_run (snd (source_update_seq s (max_seq s + of_nat d))) ds"

lemma rx_run_stats:
  "probation s = 0 \<Longrightarrow> \<forall>d\<in>set ds. d < 3000 \<Longrightarrow>
   ext_seq (rx_run s ds) = ext_seq s + of_nat (sum_list ds) \<and>
   received (rx_run s ds) = received s + of_nat (length ds) \<and> base_seq (rx_run s ds) = base_seq s"
proof (induction ds arbitrary: s)
  case Nil
  then show ?case by simp
next
  case (Cons d ds)
  note u = update_in_order [of s d]
  show ?case using Cons.IH [of "snd (source_update_seq s (max_seq s + of_nat d))"] Cons.prems u
    by (simp add: add.assoc)
qed

lemma source_calc_lost_clamp:
  "sint (source_calc_lost s) = max (- 0x7fffff) (min 0x7fffff (sint (source_expected s - received s)))"
  by (simp add: source_calc_lost_def Let_def word_sless_alt)

text \<open>C16: The loss statistics are exact. A source that starts at sequence number \<open>q\<close> and then sees
  packets that each come \<open>d < 3000\<close> numbers after the highest before (across any number of 16-bit
  wrap-arounds) reports as lost the numbers that were skipped: the sum of the steps less the packets
  received, clamped to 24 bits as in the RTCP report.\<close>

theorem source_loss_exact:
  assumes "probation s = 0" "\<forall>d\<in>set ds. d < 3000" "sum_list ds < 2 ^ 31" "length ds < 2 ^ 31"
    and "s0 = (source_init_seq s q)\<lparr>received := 1\<rparr>"
  shows "sint (source_calc_lost (rx_run s0 ds)) =
    max (- 0x7fffff) (min 0x7fffff (int (sum_list ds) - int (length ds)))"
proof -
  have s0: "probation s0 = 0" "ext_seq s0 = ucast q" "received s0 = 1" "base_seq s0 = ucast q"
    using assms(1,5) by (simp_all add: source_init_seq_def ext_seq_def)
  have "source_expected (rx_run s0 ds) - received (rx_run s0 ds) =
      ext_seq (rx_run s0 ds) - base_seq (rx_run s0 ds) + 1 - received (rx_run s0 ds)"
    by (simp add: source_expected_def ext_seq_def)
  also have "\<dots> = word_of_int (int (sum_list ds) - int (length ds))"
    using rx_run_stats [OF s0(1) assms(2)] s0 by (simp add: algebra_simps)
  finally have "sint (source_expected (rx_run s0 ds) - received (rx_run s0 ds)) =
      int (sum_list ds) - int (length ds)"
    using assms(3,4) sint_small [of "int (sum_list ds) - int (length ds)"] by simp
  then show ?thesis by (simp only: source_calc_lost_clamp)
qed

definition source_zero :: rtp_source where
  "source_zero = \<lparr>max_seq = 0, cycles = 0, base_seq = 0, bad_seq = 0, probation = 0, received = 0,
     expected_prior = 0, received_prior = 0, transit = 0, jitter = 0, rtp_rx_bytes = 0,
     sr_recv = 0, last_sr = (0, 0), src_rtp_ts = 0, psent = 0, osent = 0\<rparr>"

theorem source_loss_exact_witness:
  "sint (source_calc_lost (rx_run ((source_init_seq source_zero 65530)\<lparr>received := 1\<rparr>) [1, 2, 20, 1]))
    = 20"
  using source_loss_exact [of source_zero "[1, 2, 20, 1]" _ 65530] by (simp add: source_zero_def)

lemma sub_shift_unat:
  fixes j :: u32
  assumes "unat j + 8 < 2 ^ 32"
  shows "unat (drop_bit 4 (j + 8)) = (unat j + 8) div 16"
  using assms by (simp add: unat_drop_bit_eq drop_bit_eq_div unat_word_ariths)

lemma unat_abs_sint:
  fixes d :: "32 word"
  assumes "\<bar>sint d\<bar> \<le> D" "D < 2 ^ 31"
  shows "int (unat (if d <s 0 then - d else d)) = \<bar>sint d\<bar>"
proof -
  have d: "word_of_int (sint d) = d" by simp
  then have "word_of_int (- sint d) = - d" by (simp only: of_int_minus)
  with d have "(if d <s 0 then - d else d) = word_of_int \<bar>sint d\<bar>"
    by (simp add: word_sless_alt abs_if)
  then show ?thesis using assms by (simp add: uint_word_of_int)
qed

text \<open>The jitter estimator follows RFC 3550 A.8 (\<open>J + |D| - (J + 8) div 16\<close> on the scaled value)
  without wrap-around, and it is stable: while transit time differences stay within \<open>B\<close>, an
  estimate of at most \<open>16 * B\<close> (the source keeps it scaled by 16) stays at most \<open>16 * B\<close>.\<close>

theorem source_jitter_stable:
  assumes "rtp_rx_bytes s \<noteq> 0" "\<bar>sint (arrival - rtp_ts - transit s)\<bar> \<le> int B"
    and "unat (jitter s) \<le> 16 * B" "16 * B + 8 < 2 ^ 31"
  shows "int (unat (jitter (source_calc_jitter s rtp_ts arrival))) =
      int (unat (jitter s)) + \<bar>sint (arrival - rtp_ts - transit s)\<bar> - (int (unat (jitter s)) + 8) div 16 \<and>
    unat (jitter (source_calc_jitter s rtp_ts arrival)) \<le> 16 * B"
proof -
  let ?d = "arrival - rtp_ts - transit s" and ?j = "unat (jitter s)"
  define a where "a = unat (if ?d <s 0 then - ?d else ?d)"
  have a: "int a = \<bar>sint ?d\<bar>" unfolding a_def by (rule unat_abs_sint [OF assms(2)]) (use assms(4) in simp)
  have aB: "a \<le> B" using a assms(2) by simp
  have sh: "unat (drop_bit 4 (jitter s + 8)) = (?j + 8) div 16"
    using assms(3,4) by (intro sub_shift_unat) simp
  have le: "(?j + 8) div 16 \<le> ?j + a" by linarith
  have "jitter (source_calc_jitter s rtp_ts arrival) =
      jitter s + (if ?d <s 0 then - ?d else ?d) - drop_bit 4 (jitter s + 8)"
    using assms(1) by (simp add: source_calc_jitter_def Let_def)
  moreover have "unat (jitter s + (if ?d <s 0 then - ?d else ?d)) = ?j + a"
    unfolding a_def using aB assms(3,4) by (intro unat_add_small) (simp add: a_def)
  ultimately have j: "unat (jitter (source_calc_jitter s rtp_ts arrival)) = ?j + a - (?j + 8) div 16"
    using sh le by (simp add: unat_sub_small)
  then have "unat (jitter (source_calc_jitter s rtp_ts arrival)) \<le> 16 * B"
    using aB assms(3) by linarith
  moreover have "int (?j + a - (?j + 8) div 16) = int ?j + \<bar>sint ?d\<bar> - (int ?j + 8) div 16"
    using le a by (simp add: of_nat_diff zdiv_int)
  ultimately show ?thesis using j by simp
qed

theorem source_jitter_stable_witness:
  "unat (jitter (source_calc_jitter (source_zero\<lparr>rtp_rx_bytes := 160, jitter := 80\<rparr>) 7 2)) \<le> 160"
  using source_jitter_stable [of "source_zero\<lparr>rtp_rx_bytes := 160, jitter := 80\<rparr>" 2 7 10]
  by (simp add: source_zero_def)

text \<open>The loss fraction of a report interval is \<open>256 * lost div expected\<close>, as RFC 3550 defines it,
  whenever some but not all of the expected packets were lost; with nothing lost it is 0. The
  counters of the interval are reset in both cases.\<close>

theorem source_fraction_lost:
  assumes "sint (source_expected s - expected_prior s) = int e" "e < 2 ^ 23"
    and "sint (source_expected s - expected_prior s - (received s - received_prior s)) = l" "l < int e"
  shows "int (unat (fst (source_calc_fraction_lost s))) = (if l \<le> 0 then 0 else 256 * l div int e) \<and>
    expected_prior (snd (source_calc_fraction_lost s)) = source_expected s \<and>
    received_prior (snd (source_calc_fraction_lost s)) = received s"
proof (cases "l \<le> 0")
  case True
  then show ?thesis using assms(3)
    by (simp add: source_calc_fraction_lost_def Let_def word_sle_eq)
next
  case False
  let ?L = "source_expected s - expected_prior s - (received s - received_prior s)"
  have e: "0 < int e" using False assms(4) by simp
  then have "source_expected s - expected_prior s \<noteq> 0" using assms(1) by auto
  moreover have "sint (push_bit 8 ?L) = 256 * l"
  proof -
    have "?L = word_of_int l" unfolding assms(3) [symmetric] by simp
    then have "push_bit 8 ?L = word_of_int (256 * l)"
      by (simp add: push_bit_eq_mult mult.commute)
    then show ?thesis using False assms(2,4) sint_small [of "256 * l"] by simp
  qed
  moreover have "(256 * l) sdiv int e = 256 * l div int e"
    using False e by (simp add: signed_divide_int_def)
  moreover have "256 * l div int e < 256"
  proof -
    have "256 * l div int e * int e \<le> 256 * l" using e by (simp add: minus_mod_eq_div_mult [symmetric])
    also have "\<dots> < 256 * int e" using assms(4) by simp
    finally show ?thesis using e by (simp only: mult_less_cancel_right)
  qed
  moreover have "0 \<le> 256 * l div int e" using False e by (simp add: pos_imp_zdiv_nonneg_iff)
  ultimately show ?thesis using False assms(1,3)
    by (simp add: source_calc_fraction_lost_def Let_def word_sle_eq uint_word_of_int)
qed

theorem source_fraction_lost_witness:
  "int (unat (fst (source_calc_fraction_lost (source_zero\<lparr>max_seq := 9, received := 5\<rparr>)))) = 128"
  using source_fraction_lost [of "source_zero\<lparr>max_seq := 9, received := 5\<rparr>" 10 5]
  by (simp add: source_zero_def source_expected_def)

end
