(* ===== verification/Pad.thy ===== *)
theory Pad
  imports Mbuf "HOL-Library.Monad_Syntax"
begin

text \<open>
  The loops that STUN attributes and RTCP packets share: padding what was written to a multiple of four bytes and
  skipping such padding (\<^verbatim>\<open>src/stun/attr.c\<close>, \<^verbatim>\<open>src/rtp/sdes.c\<close>, \<^verbatim>\<open>src/rtp/pkt.c\<close>).
\<close>

text \<open>
  The padding loop runs until the position is aligned; a failing write does not move it, and then the
  loop never ends (\<open>None\<close>).
\<close>

partial_function (option) pad_loop ::
  "mem_env \<Rightarrow> nat \<Rightarrow> u8 \<Rightarrow> err \<Rightarrow> mbuf \<Rightarrow> (err \<times> mbuf) option" where
  "pad_loop E start padding err mb =
     (if sz_sub (mb_pos mb) start mod 4 \<noteq> 0
      then pad_loop E start padding (err OR fst (run_state (mbuf_write_u8 E padding) mb))
             (snd (run_state (mbuf_write_u8 E padding) mb))
      else Some (err, mb))"

lemma sz_sub_Suc_less:
  assumes "sz_sub e p \<noteq> 0"
  shows "sz_sub e (sz_add p (Suc 0)) < sz_sub e p"
proof -
  let ?M = "int size_mod"
  have i: "int (sz_sub a b) = (int a - int b) mod ?M" for a b
  proof -
    have "b mod size_mod \<le> size_mod" by (simp add: less_imp_le)
    then have "int (a + (size_mod - b mod size_mod)) = int a + (?M - int b mod ?M)"
      by (simp only: of_nat_add of_nat_diff zmod_int)
    then have "int (sz_sub a b) = (int a + (?M - int b mod ?M)) mod ?M"
      by (metis sz_sub_def zmod_int)
    also have "int a + (?M - int b mod ?M) = int a - int b mod ?M + ?M" by simp
    finally show ?thesis by (simp only: mod_add_self2 mod_diff_right_eq)
  qed
  have M: "1 < ?M" by (simp add: size_mod_def)
  have "int (sz_sub e (sz_add p (Suc 0))) = (int e - (int p + 1) mod ?M) mod ?M"
    by (simp add: i sz_add_def zmod_int add.commute)
  also have "\<dots> = ((int e - int p) mod ?M - 1) mod ?M"
    by (simp add: mod_simps algebra_simps)
  also have "\<dots> = (int e - int p) mod ?M - 1"
  proof (rule mod_pos_pos_trivial)
    show "0 \<le> (int e - int p) mod ?M - 1" using assms i [of e p] by simp
    have "(int e - int p) mod ?M < ?M" by (rule pos_mod_bound) simp
    then show "(int e - int p) mod ?M - 1 < ?M" by linarith
  qed
  finally show ?thesis using i [of e p] by simp
qed

function pad_skip :: "nat \<Rightarrow> mbuf \<Rightarrow> mbuf" where
  "pad_skip start mb =
     (if sz_sub (mb_pos mb) start mod 4 \<noteq> 0 \<and> mbuf_get_left mb \<noteq> 0
      then pad_skip start (mb\<lparr>mb_pos := sz_add (mb_pos mb) 1\<rparr>)
      else mb)"
  by pat_completeness auto
termination
  by (relation "measure (\<lambda>(s, mb). mbuf_get_left mb)") (auto simp: mbuf_get_left_def sz_sub_Suc_less)

declare pad_skip.simps [simp del]

definition round4 :: "nat \<Rightarrow> nat" where
  "round4 n = (n + 3) div 4 * 4"

lemma round4_bounds: "n \<le> round4 n" "round4 n < n + 4" "round4 n mod 4 = 0"
  by (simp_all add: round4_def)

lemma round4_steps:
  "round4 k - k = 0 \<Longrightarrow> k mod 4 = 0"
  "Suc n = round4 k - k \<Longrightarrow> k mod 4 \<noteq> 0 \<and> round4 (Suc k) = round4 k"
  unfolding round4_def by presburger+

lemma mod_4_round4: "n mod 4 = 0 \<Longrightarrow> round4 n = n"
  unfolding round4_def by presburger

lemma pad_loop_run:
  "alloc_total E \<Longrightarrow> mbuf_wf mb \<Longrightarrow> start \<le> mb_pos mb \<Longrightarrow>
   n = round4 (mb_pos mb - start) - (mb_pos mb - start) \<Longrightarrow> mb_pos mb + n < size_mod \<Longrightarrow>
   \<exists>mb'. pad_loop E start padding 0 mb = Some (0, mb') \<and> put_at mb (replicate n padding) mb'"
proof (induction n arbitrary: mb)
  case 0
  let ?k = "mb_pos mb - start"
  have "?k mod 4 = 0" using 0 by (intro round4_steps) simp
  moreover have "sz_sub (mb_pos mb) start = ?k" using 0 by (simp add: sz_sub_small mbuf_wf_def)
  ultimately show ?case using 0 by (simp add: pad_loop.simps put_at_def)
next
  case (Suc n)
  let ?k = "mb_pos mb - start" and ?mb = "wput E [padding] mb"
  have k: "?k mod 4 \<noteq> 0" "round4 (Suc ?k) = round4 ?k"
    using round4_steps(2) [OF Suc.prems(4)] by simp_all
  have s: "sz_sub (mb_pos mb) start = ?k" using Suc.prems by (simp add: sz_sub_small mbuf_wf_def)
  have w: "run_state (mbuf_write_u8 E padding) mb = (0, ?mb)"
    using Suc.prems by (simp add: mb_simps)
  have p: "put_at mb [padding] ?mb" using Suc.prems by (intro wput_put_at) simp_all
  note d = put_atD [OF p]
  have e: "mb_pos ?mb - start = Suc ?k" using d(2) Suc.prems(3) by simp
  have "start \<le> mb_pos ?mb" "mb_pos ?mb + n < size_mod" using d(2) Suc.prems(3,5) by simp_all
  moreover have "n = round4 (mb_pos ?mb - start) - (mb_pos ?mb - start)"
    unfolding e using Suc.prems(4) k(2) by linarith
  ultimately obtain t where "pad_loop E start padding 0 ?mb = Some (0, t)" "put_at ?mb (replicate n padding) t"
    using Suc.IH [OF Suc.prems(1) d(1)] by blast
  moreover from this have "put_at mb (replicate (Suc n) padding) t"
    using put_at_trans [OF Suc.prems(2) p] by simp
  moreover have "pad_loop E start padding 0 mb = pad_loop E start padding 0 ?mb"
    by (subst pad_loop.simps) (use k s w in simp)
  ultimately show ?case by auto
qed

lemma pad_skip_run:
  "mbuf_ok mb \<Longrightarrow> start \<le> mb_pos mb \<Longrightarrow> n = round4 (mb_pos mb - start) - (mb_pos mb - start) \<Longrightarrow>
   n \<le> length (mbuf_rest mb) \<Longrightarrow> pad_skip start mb = adv n mb"
proof (induction n arbitrary: mb)
  case 0
  let ?k = "mb_pos mb - start"
  have "?k mod 4 = 0" using 0 by (intro round4_steps) simp
  moreover have "sz_sub (mb_pos mb) start = ?k"
    using 0 by (simp add: sz_sub_small mbuf_ok_def mbuf_wf_def)
  ultimately show ?case by (simp add: pad_skip.simps)
next
  case (Suc n)
  let ?k = "mb_pos mb - start"
  have k: "?k mod 4 \<noteq> 0" "round4 (Suc ?k) = round4 ?k"
    using round4_steps(2) [OF Suc.prems(3)] by simp_all
  have s: "sz_sub (mb_pos mb) start = ?k" "sz_add (mb_pos mb) 1 = mb_pos mb + 1"
    using Suc.prems mbuf_rest_less [OF Suc.prems(1)] by (simp_all add: sz_sub_small sz_add_small mbuf_ok_def mbuf_wf_def)
  have e: "mb_pos (adv 1 mb) - start = Suc ?k" using Suc.prems(2) by simp
  have "pad_skip start (adv 1 mb) = adv n (adv 1 mb)"
  proof (rule Suc.IH)
    show "n = round4 (mb_pos (adv 1 mb) - start) - (mb_pos (adv 1 mb) - start)"
      unfolding e using Suc.prems(3) k(2) by linarith
    show "mbuf_ok (adv 1 mb)" using Suc.prems(1,4) by (intro mbuf_ok_adv) simp_all
  qed (use Suc.prems(2,4) in simp_all)
  moreover have "pad_skip start mb = pad_skip start (adv 1 mb)"
    using Suc.prems k(1) s by (subst pad_skip.simps) (auto simp: mb_simps adv_def)
  ultimately show ?case by simp
qed

lemma pad_skip_reads: "mbuf_ok mb \<Longrightarrow> reads mb (pad_skip start mb)"
proof (induction start mb rule: pad_skip.induct)
  case (1 start mb)
  show ?case
  proof (cases "sz_sub (mb_pos mb) start mod 4 \<noteq> 0 \<and> mbuf_get_left mb \<noteq> 0")
    case True
    then have l: "1 \<le> length (mbuf_rest mb)"
      using "1.prems" mbuf_get_left_ok [OF "1.prems"] by (cases "mbuf_rest mb") auto
    then have "mb\<lparr>mb_pos := sz_add (mb_pos mb) 1\<rparr> = adv 1 mb"
      using mbuf_rest_less [OF "1.prems"] by (simp add: adv_def sz_add_small)
    moreover have "reads mb (adv 1 mb)" "mbuf_ok (adv 1 mb)"
      using l "1.prems" by (simp_all add: reads_adv mb_simps)
    ultimately have "reads mb (pad_skip start (mb\<lparr>mb_pos := sz_add (mb_pos mb) 1\<rparr>))"
      using "1.IH" [OF True] reads_trans by metis
    then show ?thesis using True by (subst pad_skip.simps) simp
  next
    case False
    then show ?thesis by (subst pad_skip.simps) auto
  qed
qed

end
