(* ===== verification/LinkedList.thy ===== *)
theory LinkedList
  imports Prelude "HOL-Library.Multiset"
begin

text \<open>
  Doubly linked lists: \<^verbatim>\<open>src/list/list.c\<close> and \<^verbatim>\<open>include/re_list.h\<close>.

  The lists are intrusive: an element (\<^verbatim>\<open>struct le\<close>) sits in the client's object and knows its
  neighbours and its list. The model keeps that: a heap of elements and of list heads, both named
  by addresses, with \<open>None\<close> for \<^verbatim>\<open>NULL\<close>, and each operation writes the fields the code writes, in
  its order. \<open>heap_ok h S\<close> is the abstraction: list \<open>L\<close> of heap \<open>h\<close> holds the sequence \<open>S L\<close>. The
  operations are shown to do on the sequences what their names say; the other components work
  on sequences. Loops along the links are \<open>partial_function\<close>s whose value \<open>None\<close> means that
  the loop never ends.
\<close>

subsection \<open>Heap\<close>

type_synonym addr = nat

record 'd le =
  le_prev :: "addr option"
  le_next :: "addr option"
  le_list :: "addr option"
  le_data :: "'d option"

record list_head =
  head :: "addr option"
  tail :: "addr option"

record 'd lheap =
  les :: "addr \<Rightarrow> 'd le"
  lsts :: "addr \<Rightarrow> list_head"

definition upd_le :: "addr \<Rightarrow> ('d le \<Rightarrow> 'd le) \<Rightarrow> 'd lheap \<Rightarrow> 'd lheap" where
  "upd_le e f h = h\<lparr>les := (les h)(e := f (les h e))\<rparr>"

definition upd_list :: "addr \<Rightarrow> (list_head \<Rightarrow> list_head) \<Rightarrow> 'd lheap \<Rightarrow> 'd lheap" where
  "upd_list L f h = h\<lparr>lsts := (lsts h)(L := f (lsts h L))\<rparr>"

definition upd_le_opt :: "addr option \<Rightarrow> ('d le \<Rightarrow> 'd le) \<Rightarrow> 'd lheap \<Rightarrow> 'd lheap" where
  "upd_le_opt p f h = (case p of None \<Rightarrow> h | Some e \<Rightarrow> upd_le e f h)"

subsection \<open>Operations\<close>

definition list_init :: "addr \<Rightarrow> 'd lheap \<Rightarrow> 'd lheap" where
  "list_init L = upd_list L (\<lambda>_. \<lparr>head = None, tail = None\<rparr>)"

definition le_clear :: "'d le \<Rightarrow> 'd le" where
  "le_clear c = c\<lparr>le_list := None, le_prev := None, le_next := None, le_data := None\<rparr>"

text \<open>The loop of \<^verbatim>\<open>list_flush\<close> and \<^verbatim>\<open>list_clear\<close>; the second result lists the data pointers in the
  order in which \<^verbatim>\<open>list_flush\<close> gives them to \<^verbatim>\<open>mem_deref\<close>.\<close>

partial_function (option) clear_loop ::
  "addr option \<Rightarrow> 'd lheap \<Rightarrow> 'd option list \<Rightarrow> ('d lheap \<times> 'd option list) option" where
  "clear_loop p h ds = (case p of
     None \<Rightarrow> Some (h, ds)
   | Some e \<Rightarrow> clear_loop (le_next (les h e)) (upd_le e le_clear h) (ds @ [le_data (les h e)]))"

definition list_flush :: "addr \<Rightarrow> 'd lheap \<Rightarrow> ('d lheap \<times> 'd option list) option" where
  "list_flush L h = map_option (\<lambda>(h, ds). (list_init L h, ds)) (clear_loop (head (lsts h L)) h [])"

definition list_clear :: "addr \<Rightarrow> 'd lheap \<Rightarrow> 'd lheap option" where
  "list_clear L h = map_option (\<lambda>(h, ds). list_init L h) (clear_loop (head (lsts h L)) h [])"

definition list_append :: "addr \<Rightarrow> addr \<Rightarrow> 'd option \<Rightarrow> 'd lheap \<Rightarrow> 'd lheap" where
  "list_append L e d h =
     (if le_list (les h e) \<noteq> None then h
      else let
        h = upd_le e (\<lambda>c. \<lparr>le_prev = tail (lsts h L), le_next = None, le_list = Some L, le_data = d\<rparr>) h;
        h = (if head (lsts h L) = None then upd_list L (\<lambda>l. l\<lparr>head := Some e\<rparr>) h else h);
        h = upd_le_opt (tail (lsts h L)) (\<lambda>c. c\<lparr>le_next := Some e\<rparr>) h
      in upd_list L (\<lambda>l. l\<lparr>tail := Some e\<rparr>) h)"

definition list_prepend :: "addr \<Rightarrow> addr \<Rightarrow> 'd option \<Rightarrow> 'd lheap \<Rightarrow> 'd lheap" where
  "list_prepend L e d h =
     (if le_list (les h e) \<noteq> None then h
      else let
        h = upd_le e (\<lambda>c. \<lparr>le_prev = None, le_next = head (lsts h L), le_list = Some L, le_data = d\<rparr>) h;
        h = upd_le_opt (head (lsts h L)) (\<lambda>c. c\<lparr>le_prev := Some e\<rparr>) h;
        h = (if tail (lsts h L) = None then upd_list L (\<lambda>l. l\<lparr>tail := Some e\<rparr>) h else h)
      in upd_list L (\<lambda>l. l\<lparr>head := Some e\<rparr>) h)"

definition list_insert_before :: "addr \<Rightarrow> addr \<Rightarrow> addr \<Rightarrow> 'd option \<Rightarrow> 'd lheap \<Rightarrow> 'd lheap" where
  "list_insert_before L e i d h =
     (if le_list (les h i) \<noteq> None then h
      else let
        h = (case le_prev (les h e) of
               Some p \<Rightarrow> upd_le p (\<lambda>c. c\<lparr>le_next := Some i\<rparr>) h
             | None \<Rightarrow> if head (lsts h L) = Some e then upd_list L (\<lambda>l. l\<lparr>head := Some i\<rparr>) h else h);
        h = upd_le i (\<lambda>c. \<lparr>le_prev = le_prev (les h e), le_next = Some e, le_list = Some L, le_data = d\<rparr>) h
      in upd_le e (\<lambda>c. c\<lparr>le_prev := Some i\<rparr>) h)"

definition list_insert_after :: "addr \<Rightarrow> addr \<Rightarrow> addr \<Rightarrow> 'd option \<Rightarrow> 'd lheap \<Rightarrow> 'd lheap" where
  "list_insert_after L e i d h =
     (if le_list (les h i) \<noteq> None then h
      else let
        h = (case le_next (les h e) of
               Some n \<Rightarrow> upd_le n (\<lambda>c. c\<lparr>le_prev := Some i\<rparr>) h
             | None \<Rightarrow> if tail (lsts h L) = Some e then upd_list L (\<lambda>l. l\<lparr>tail := Some i\<rparr>) h else h);
        h = upd_le i (\<lambda>c. \<lparr>le_prev = Some e, le_next = le_next (les h e), le_list = Some L, le_data = d\<rparr>) h
      in upd_le e (\<lambda>c. c\<lparr>le_next := Some i\<rparr>) h)"

definition list_unlink :: "addr \<Rightarrow> 'd lheap \<Rightarrow> 'd lheap" where
  "list_unlink e h = (case le_list (les h e) of
     None \<Rightarrow> h
   | Some L \<Rightarrow> let
       h = (case le_prev (les h e) of
              Some p \<Rightarrow> upd_le p (\<lambda>c. c\<lparr>le_next := le_next (les h e)\<rparr>) h
            | None \<Rightarrow> upd_list L (\<lambda>l. l\<lparr>head := le_next (les h e)\<rparr>) h);
       h = (case le_next (les h e) of
              Some n \<Rightarrow> upd_le n (\<lambda>c. c\<lparr>le_prev := le_prev (les h e)\<rparr>) h
            | None \<Rightarrow> upd_list L (\<lambda>l. l\<lparr>tail := le_prev (les h e)\<rparr>) h)
     in upd_le e (\<lambda>c. c\<lparr>le_next := None, le_prev := None, le_list := None\<rparr>) h)"

text \<open>
  \<^verbatim>\<open>list_sort\<close>: one pass of the inner loop from \<open>p\<close>, then again until a pass changes nothing. The sort
  handler compares the elements' objects, which sorting does not change, so it is a function of
  the two elements.
\<close>

partial_function (option) sort_pass ::
  "addr \<Rightarrow> (addr \<Rightarrow> addr \<Rightarrow> bool) \<Rightarrow> addr option \<Rightarrow> bool \<Rightarrow> 'd lheap \<Rightarrow> (bool \<times> 'd lheap) option" where
  "sort_pass L sh p srt h = (case p of
     None \<Rightarrow> Some (srt, h)
   | Some e \<Rightarrow> (case le_next (les h e) of
       None \<Rightarrow> Some (srt, h)
     | Some t \<Rightarrow>
         if sh e t then sort_pass L sh (Some t) srt h
         else let h = list_unlink e h
              in sort_pass L sh (Some e) True (list_insert_after L t e (le_data (les h e)) h)))"

partial_function (option) list_sort :: "addr \<Rightarrow> (addr \<Rightarrow> addr \<Rightarrow> bool) \<Rightarrow> 'd lheap \<Rightarrow> 'd lheap option" where
  "list_sort L sh h = (case sort_pass L sh (head (lsts h L)) False h of
     None \<Rightarrow> None
   | Some (srt, h) \<Rightarrow> if srt then list_sort L sh h else Some h)"

text \<open>
  \<^verbatim>\<open>list_apply\<close>: the handler may change the heap and its own state \<open>'u\<close>; the neighbour is read
  before the handler runs.
\<close>

partial_function (option) apply_loop ::
  "bool \<Rightarrow> (addr \<Rightarrow> 'd lheap \<times> 'u \<Rightarrow> bool \<times> 'd lheap \<times> 'u) \<Rightarrow> addr option \<Rightarrow> 'd lheap \<times> 'u
   \<Rightarrow> (addr option \<times> 'd lheap \<times> 'u) option" where
  "apply_loop fwd ah p s = (case p of
     None \<Rightarrow> Some (None, s)
   | Some e \<Rightarrow> let nx = (if fwd then le_next (les (fst s) e) else le_prev (les (fst s) e));
                   (stop, s) = ah e s
               in if stop then Some (Some e, s) else apply_loop fwd ah nx s)"

definition list_apply ::
  "addr \<Rightarrow> bool \<Rightarrow> (addr \<Rightarrow> 'd lheap \<times> 'u \<Rightarrow> bool \<times> 'd lheap \<times> 'u) \<Rightarrow> 'd lheap \<times> 'u
   \<Rightarrow> (addr option \<times> 'd lheap \<times> 'u) option" where
  "list_apply L fwd ah s =
     apply_loop fwd ah (if fwd then head (lsts (fst s) L) else tail (lsts (fst s) L)) s"

partial_function (option) count_loop :: "addr option \<Rightarrow> u32 \<Rightarrow> 'd lheap \<Rightarrow> u32 option" where
  "count_loop p n h = (case p of
     None \<Rightarrow> Some n
   | Some e \<Rightarrow> count_loop (le_next (les h e)) (n + 1) h)"

definition list_count :: "addr \<Rightarrow> 'd lheap \<Rightarrow> u32 option" where
  "list_count L h = count_loop (head (lsts h L)) 0 h"

definition list_head_of :: "addr \<Rightarrow> 'd lheap \<Rightarrow> addr option" where
  "list_head_of L h = head (lsts h L)"

definition list_tail_of :: "addr \<Rightarrow> 'd lheap \<Rightarrow> addr option" where
  "list_tail_of L h = tail (lsts h L)"

definition list_ledata :: "addr option \<Rightarrow> 'd lheap \<Rightarrow> 'd option" where
  "list_ledata p h = (case p of None \<Rightarrow> None | Some e \<Rightarrow> le_data (les h e))"

definition list_contains :: "addr \<Rightarrow> addr option \<Rightarrow> 'd lheap \<Rightarrow> bool" where
  "list_contains L p h = (case p of None \<Rightarrow> False | Some e \<Rightarrow> le_list (les h e) = Some L)"

definition list_isempty :: "addr \<Rightarrow> 'd lheap \<Rightarrow> bool" where
  "list_isempty L h = (head (lsts h L) = None)"

subsection \<open>Abstraction: the sequence of a list\<close>

fun first_or :: "addr list \<Rightarrow> addr option \<Rightarrow> addr option" where
  "first_or [] n = n"
| "first_or (x # xs) n = Some x"

definition last_or :: "addr list \<Rightarrow> addr option \<Rightarrow> addr option" where
  "last_or xs p = (if xs = [] then p else Some (last xs))"

fun links :: "(addr \<Rightarrow> 'd le) \<Rightarrow> addr option \<Rightarrow> addr list \<Rightarrow> addr option \<Rightarrow> bool" where
  "links m p [] n = True"
| "links m p (x # xs) n =
     (le_prev (m x) = p \<and> le_next (m x) = first_or xs n \<and> links m (Some x) xs n)"

definition heap_ok :: "'d lheap \<Rightarrow> (addr \<Rightarrow> addr list) \<Rightarrow> bool" where
  "heap_ok h S \<longleftrightarrow> (\<forall>L. links (les h) None (S L) None \<and> distinct (S L) \<and>
     head (lsts h L) = first_or (S L) None \<and> tail (lsts h L) = last_or (S L) None \<and>
     (\<forall>e. le_list (les h e) = Some L \<longleftrightarrow> e \<in> set (S L)))"

lemma last_or_simps [simp]:
  "last_or [] p = p" "last_or (xs @ [x]) p = Some x" "last_or (x # xs) p = last_or xs (Some x)"
  by (auto simp: last_or_def)

lemma last_or_append [simp]: "last_or (xs @ ys) p = last_or ys (last_or xs p)"
  by (induction xs arbitrary: p) auto

lemma first_or_append [simp]: "first_or (xs @ ys) n = first_or xs (first_or ys n)"
  by (cases xs) auto

lemma links_append [simp]:
  "links m p (xs @ ys) n \<longleftrightarrow> links m p xs (first_or ys n) \<and> links m (last_or xs p) ys n"
  by (induction xs arbitrary: p) auto

lemma links_cong:
  "(\<And>x. x \<in> set xs \<Longrightarrow> le_prev (m' x) = le_prev (m x) \<and> le_next (m' x) = le_next (m x)) \<Longrightarrow>
   links m' p xs n = links m p xs n"
  by (induction xs arbitrary: p) auto

lemma links_upd_other [simp]: "e \<notin> set xs \<Longrightarrow> links (m(e := c)) p xs n = links m p xs n"
  by (rule links_cong) auto

lemma les_upd [simp]:
  "les (upd_le e f h) = (les h)(e := f (les h e))" "les (upd_list L g h) = les h"
  "lsts (upd_le e f h) = lsts h" "lsts (upd_list L g h) = (lsts h)(L := g (lsts h L))"
  by (simp_all add: upd_le_def upd_list_def)

lemma les_upd_opt [simp]:
  "upd_le_opt None f h = h" "upd_le_opt (Some e) f h = upd_le e f h"
  by (simp_all add: upd_le_opt_def)

lemma heap_okD:
  assumes "heap_ok h S"
  shows "links (les h) None (S L) None" "distinct (S L)" "head (lsts h L) = first_or (S L) None"
    "tail (lsts h L) = last_or (S L) None" "le_list (les h e) = Some L \<longleftrightarrow> e \<in> set (S L)"
  using assms by (auto simp: heap_ok_def)

lemma heap_ok_disjoint:
  "heap_ok h S \<Longrightarrow> e \<in> set (S L) \<Longrightarrow> e \<in> set (S L') \<longleftrightarrow> L' = L"
  using heap_okD(5) by (metis option.inject)

lemma heap_ok_free: "heap_ok h S \<Longrightarrow> le_list (les h e) = None \<Longrightarrow> e \<notin> set (S L)"
  by (auto simp: heap_okD(5) [symmetric])

text \<open>An operation that rebuilds one list and leaves the others alone.\<close>

lemma heap_ok_change:
  assumes ok: "heap_ok h S"
    and new: "links (les h') None xs None" "distinct xs"
      "head (lsts h' L) = first_or xs None" "tail (lsts h' L) = last_or xs None"
    and member: "\<And>e. e \<in> set xs \<Longrightarrow> le_list (les h' e) = Some L"
      "\<And>e. e \<in> set xs \<Longrightarrow> e \<in> set (S L) \<or> le_list (les h e) = None"
      "\<And>e. e \<in> set (S L) \<Longrightarrow> e \<notin> set xs \<Longrightarrow> le_list (les h' e) = None"
    and frame: "\<And>e. e \<notin> set (S L) \<Longrightarrow> e \<notin> set xs \<Longrightarrow> les h' e = les h e"
      "\<And>L'. L' \<noteq> L \<Longrightarrow> lsts h' L' = lsts h L'"
  shows "heap_ok h' (S(L := xs))"
  unfolding heap_ok_def
proof
  fix L'
  have apart: "e \<notin> set (S L) \<and> e \<notin> set xs" if "e \<in> set (S L')" "L' \<noteq> L" for e
    using that member(2) [of e] heap_ok_disjoint [OF ok that(1)] heap_okD(5) [OF ok, of e L'] by auto
  show "links (les h') None ((S(L := xs)) L') None \<and> distinct ((S(L := xs)) L') \<and>
    head (lsts h' L') = first_or ((S(L := xs)) L') None \<and>
    tail (lsts h' L') = last_or ((S(L := xs)) L') None \<and>
    (\<forall>e. le_list (les h' e) = Some L' \<longleftrightarrow> e \<in> set ((S(L := xs)) L'))"
  proof (cases "L' = L")
    case True
    have "e \<in> set xs" if "le_list (les h' e) = Some L" for e
      using that member(3) [of e] frame(1) [of e] heap_okD(5) [OF ok, of e L] by force
    with True new member(1) show ?thesis by auto
  next
    case False
    have "links (les h') None (S L') None = links (les h) None (S L') None"
      using apart False frame(1) by (intro links_cong) simp
    moreover have "le_list (les h' e) = Some L' \<longleftrightarrow> e \<in> set (S L')" for e
      using apart [of e] False member(1,3) [of e] frame(1) [of e] heap_okD(5) [OF ok, of e L']
      by (cases "e \<in> set xs"; cases "e \<in> set (S L)") auto
    ultimately show ?thesis using False frame(2) heap_okD [OF ok] by simp
  qed
qed

subsection \<open>The operations on sequences\<close>

lemma snoc_cases: obtains "xs = []" | ys y where "xs = ys @ [y]"
  by (cases xs rule: rev_cases) auto

lemma list_append_ok:
  assumes ok: "heap_ok h S" and e: "le_list (les h e) = None"
  shows "heap_ok (list_append L e d h) (S(L := S L @ [e]))"
proof (rule heap_ok_change [OF ok])
  note f = heap_okD [OF ok, where L = L] and n = heap_ok_free [OF ok e, of L]
  let ?h = "list_append L e d h"
  consider (nil) "S L = []" | (snoc) ys y where "S L = ys @ [y]" by (rule snoc_cases)
  then have "links (les ?h) None (S L @ [e]) None \<and> head (lsts ?h L) = first_or (S L @ [e]) None \<and>
    tail (lsts ?h L) = last_or (S L @ [e]) None \<and> (\<forall>x\<in>set (S L @ [e]). le_list (les ?h x) = Some L) \<and>
    (\<forall>x. x \<notin> set (S L) \<longrightarrow> x \<notin> set (S L @ [e]) \<longrightarrow> les ?h x = les h x)"
  proof cases
    case nil
    then show ?thesis using f e by (simp add: list_append_def)
  next
    case snoc
    have "first_or ys (Some y) \<noteq> None" by (cases ys) auto
    then show ?thesis using f e n snoc by (auto simp: list_append_def Let_def)
  qed
  then show "links (les ?h) None (S L @ [e]) None" "head (lsts ?h L) = first_or (S L @ [e]) None"
    "tail (lsts ?h L) = last_or (S L @ [e]) None" "\<And>x. x \<in> set (S L @ [e]) \<Longrightarrow> le_list (les ?h x) = Some L"
    "\<And>x. x \<notin> set (S L) \<Longrightarrow> x \<notin> set (S L @ [e]) \<Longrightarrow> les ?h x = les h x"
    by blast+
qed (use e heap_okD [OF ok, where L = L] heap_ok_free [OF ok e] in
    \<open>auto simp: list_append_def Let_def upd_le_opt_def split: option.splits\<close>)

lemma list_prepend_ok:
  assumes ok: "heap_ok h S" and e: "le_list (les h e) = None"
  shows "heap_ok (list_prepend L e d h) (S(L := e # S L))"
proof (rule heap_ok_change [OF ok])
  note f = heap_okD [OF ok, where L = L] and n = heap_ok_free [OF ok e, of L]
  let ?h = "list_prepend L e d h"
  have "links (les ?h) None (e # S L) None \<and> head (lsts ?h L) = first_or (e # S L) None \<and>
    tail (lsts ?h L) = last_or (e # S L) None \<and> (\<forall>x\<in>set (e # S L). le_list (les ?h x) = Some L) \<and>
    (\<forall>x. x \<notin> set (S L) \<longrightarrow> x \<notin> set (e # S L) \<longrightarrow> les ?h x = les h x)"
  proof (cases "S L")
    case Nil
    then show ?thesis using f e by (simp add: list_prepend_def)
  next
    case (Cons y ys)
    then show ?thesis using f e n by (auto simp: list_prepend_def Let_def last_or_def)
  qed
  then show "links (les ?h) None (e # S L) None" "head (lsts ?h L) = first_or (e # S L) None"
    "tail (lsts ?h L) = last_or (e # S L) None" "\<And>x. x \<in> set (e # S L) \<Longrightarrow> le_list (les ?h x) = Some L"
    "\<And>x. x \<notin> set (S L) \<Longrightarrow> x \<notin> set (e # S L) \<Longrightarrow> les ?h x = les h x"
    by blast+
qed (use e heap_okD [OF ok, where L = L] heap_ok_free [OF ok e] in
    \<open>auto simp: list_prepend_def Let_def upd_le_opt_def split: option.splits\<close>)

lemma first_or_None [simp]: "first_or xs None = None \<longleftrightarrow> xs = []"
  by (cases xs) auto

lemma first_or_Some: "first_or xs (Some y) = Some z \<longleftrightarrow> xs = [] \<and> y = z \<or> (\<exists>zs. xs = z # zs)"
  by (cases xs) auto

lemma list_insert_before_ok:
  assumes ok: "heap_ok h S" and i: "le_list (les h i) = None" and S: "S L = xs @ e # ys"
  shows "heap_ok (list_insert_before L e i d h) (S(L := xs @ i # e # ys))"
proof (rule heap_ok_change [OF ok])
  note f = heap_okD [OF ok, where L = L] and n = heap_ok_free [OF ok i, of L]
  let ?h = "list_insert_before L e i d h" and ?zs = "xs @ i # e # ys"
  consider (nil) "xs = []" | (snoc) zs z where "xs = zs @ [z]" by (rule snoc_cases)
  then have "links (les ?h) None ?zs None \<and> head (lsts ?h L) = first_or ?zs None \<and>
    tail (lsts ?h L) = last_or ?zs None \<and> (\<forall>x\<in>set ?zs. le_list (les ?h x) = Some L) \<and>
    (\<forall>x. x \<notin> set (S L) \<longrightarrow> x \<notin> set ?zs \<longrightarrow> les ?h x = les h x)"
  proof cases
    case nil
    then show ?thesis using f n S i by (auto simp: list_insert_before_def Let_def)
  next
    case snoc
    then have "z \<noteq> e" "e \<notin> set zs" "z \<notin> set zs" "z \<notin> set ys" using f(2) S by auto
    with snoc show ?thesis using f n S i by (auto simp: list_insert_before_def Let_def)
  qed
  then show "links (les ?h) None ?zs None" "head (lsts ?h L) = first_or ?zs None"
    "tail (lsts ?h L) = last_or ?zs None" "\<And>x. x \<in> set ?zs \<Longrightarrow> le_list (les ?h x) = Some L"
    "\<And>x. x \<notin> set (S L) \<Longrightarrow> x \<notin> set ?zs \<Longrightarrow> les ?h x = les h x"
    by blast+
qed (use i S heap_okD [OF ok, where L = L] heap_ok_free [OF ok i, of L] in
    \<open>auto simp: list_insert_before_def Let_def split: option.splits\<close>)

lemma list_insert_after_ok:
  assumes ok: "heap_ok h S" and i: "le_list (les h i) = None" and S: "S L = xs @ e # ys"
  shows "heap_ok (list_insert_after L e i d h) (S(L := xs @ e # i # ys))"
proof (rule heap_ok_change [OF ok])
  note f = heap_okD [OF ok, where L = L] and n = heap_ok_free [OF ok i, of L]
  let ?h = "list_insert_after L e i d h" and ?zs = "xs @ e # i # ys"
  have "links (les ?h) None ?zs None \<and> head (lsts ?h L) = first_or ?zs None \<and>
    tail (lsts ?h L) = last_or ?zs None \<and> (\<forall>x\<in>set ?zs. le_list (les ?h x) = Some L) \<and>
    (\<forall>x. x \<notin> set (S L) \<longrightarrow> x \<notin> set ?zs \<longrightarrow> les ?h x = les h x)"
  proof (cases ys)
    case Nil
    then show ?thesis using f n S i by (auto simp: list_insert_after_def Let_def)
  next
    case (Cons z zs)
    then have "z \<noteq> e" "e \<notin> set zs" "z \<notin> set zs" "z \<notin> set xs" using f(2) S by auto
    with Cons show ?thesis using f n S i by (auto simp: list_insert_after_def Let_def last_or_def)
  qed
  then show "links (les ?h) None ?zs None" "head (lsts ?h L) = first_or ?zs None"
    "tail (lsts ?h L) = last_or ?zs None" "\<And>x. x \<in> set ?zs \<Longrightarrow> le_list (les ?h x) = Some L"
    "\<And>x. x \<notin> set (S L) \<Longrightarrow> x \<notin> set ?zs \<Longrightarrow> les ?h x = les h x"
    by blast+
qed (use i S heap_okD [OF ok, where L = L] heap_ok_free [OF ok i, of L] in
    \<open>auto simp: list_insert_after_def Let_def split: option.splits\<close>)

lemma list_unlink_at:
  assumes ok: "heap_ok h S" and S: "S L = xs @ e # ys"
  shows "heap_ok (list_unlink e h) (S(L := xs @ ys))"
proof (rule heap_ok_change [OF ok])
  note f = heap_okD(1-4) [OF ok, where L = L] and m = heap_okD(5) [OF ok, where L = L]
  let ?h = "list_unlink e h"
  have e: "le_list (les h e) = Some L" "e \<notin> set xs" "e \<notin> set ys" using f(2) m S by auto
  have m: "\<And>x. x \<in> set (xs @ ys) \<Longrightarrow> le_list (les h x) = Some L" using m S by auto
  consider (nil) "xs = []" | (snoc) zs z where "xs = zs @ [z]" by (rule snoc_cases)
  then have "links (les ?h) None (xs @ ys) None \<and> head (lsts ?h L) = first_or (xs @ ys) None \<and>
    tail (lsts ?h L) = last_or (xs @ ys) None \<and> (\<forall>x\<in>set (xs @ ys). le_list (les ?h x) = Some L)"
  proof cases
    case nil
    then show ?thesis using f m S e by (cases ys) (auto simp: list_unlink_def Let_def last_or_def)
  next
    case snoc
    then have "z \<noteq> e" "z \<notin> set zs" "z \<notin> set ys" "set zs \<inter> set ys = {}" using f(2) S by auto
    with snoc show ?thesis using f m S e by (cases ys) (auto simp: list_unlink_def Let_def last_or_def)
  qed
  then show "links (les ?h) None (xs @ ys) None" "head (lsts ?h L) = first_or (xs @ ys) None"
    "tail (lsts ?h L) = last_or (xs @ ys) None" "\<And>x. x \<in> set (xs @ ys) \<Longrightarrow> le_list (les ?h x) = Some L"
    by blast+
  show "les ?h x = les h x" if "x \<notin> set (S L)" for x
  proof -
    have "links (les h) None xs (Some e)" "links (les h) (Some e) ys None"
      "le_prev (les h e) = last_or xs None" "le_next (les h e) = first_or ys None" using f S by simp_all
    then have "le_prev (les h e) \<noteq> Some x" "le_next (les h e) \<noteq> Some x" "x \<noteq> e"
      using that S by (auto simp: last_or_def) (cases ys; auto)
    then show ?thesis using e by (auto simp: list_unlink_def Let_def split: option.splits)
  qed
  have l: "le_list (les h e) = Some L" using S by (simp add: heap_okD(5) [OF ok])
  show "lsts ?h L' = lsts h L'" if "L' \<noteq> L" for L'
    using that l by (auto simp: list_unlink_def Let_def split: option.splits)
  show "x \<in> set (S L) \<or> le_list (les h x) = None" if "x \<in> set (xs @ ys)" for x
    using that S by simp
  show "le_list (les ?h x) = None" if "x \<in> set (S L)" "x \<notin> set (xs @ ys)" for x
    using that S l by (auto simp: list_unlink_def Let_def split: option.splits)
qed (use S heap_okD(2) [OF ok, of L] in simp)

lemma list_unlink_ok:
  assumes ok: "heap_ok h S" and e: "e \<in> set (S L)"
  shows "heap_ok (list_unlink e h) (S(L := remove1 e (S L)))"
proof -
  obtain xs ys where S: "S L = xs @ e # ys" using e by (auto dest: split_list)
  then have "e \<notin> set xs" using heap_okD(2) [OF ok, of L] by simp
  then have "remove1 e (S L) = xs @ ys" using S by (simp add: remove1_append)
  then show ?thesis using list_unlink_at [OF ok S] by simp
qed

lemma list_unlink_free [simp]: "le_list (les h e) = None \<Longrightarrow> list_unlink e h = h"
  by (simp add: list_unlink_def)

subsection \<open>Traversals\<close>

lemma clear_loop_run:
  "links (les h) p xs None \<Longrightarrow> distinct xs \<Longrightarrow>
   clear_loop (first_or xs None) h ds =
     Some (fold (\<lambda>e. upd_le e le_clear) xs h, ds @ map (\<lambda>e. le_data (les h e)) xs)"
proof (induction xs arbitrary: p h ds)
  case Nil
  then show ?case by (simp add: clear_loop.simps)
next
  case (Cons x xs)
  let ?h = "upd_le x le_clear h"
  have l: "links (les ?h) (Some x) xs None" using Cons.prems by simp
  have "map (\<lambda>e. le_data (les ?h e)) xs = map (\<lambda>e. le_data (les h e)) xs"
    using Cons.prems(2) by auto
  moreover have "clear_loop (first_or xs None) ?h (ds @ [le_data (les h x)]) =
      Some (fold (\<lambda>e. upd_le e le_clear) xs ?h,
        (ds @ [le_data (les h x)]) @ map (\<lambda>e. le_data (les ?h e)) xs)"
    by (rule Cons.IH [OF l]) (use Cons.prems in simp)
  ultimately show ?case using Cons.prems(1)
    by (subst clear_loop.simps) (simp del: les_upd)
qed

lemma fold_clear:
  "lsts (fold (\<lambda>e. upd_le e le_clear) xs h) = lsts h"
  "les (fold (\<lambda>e. upd_le e le_clear) xs h) e =
     (if e \<in> set xs then le_clear (les h e) else les h e)"
  by (induction xs arbitrary: h) (auto simp: le_clear_def)

lemma list_flush_ok:
  assumes ok: "heap_ok h S"
  obtains h' where "list_flush L h = Some (h', map (\<lambda>e. le_data (les h e)) (S L))"
    "heap_ok h' (S(L := []))"
proof
  let ?g = "fold (\<lambda>e. upd_le e le_clear) (S L) h"
  show "list_flush L h = Some (list_init L ?g, map (\<lambda>e. le_data (les h e)) (S L))"
    using clear_loop_run [of h None "S L"] heap_okD [OF ok, where L = L] by (simp add: list_flush_def)
  show "heap_ok (list_init L ?g) (S(L := []))"
    by (rule heap_ok_change [OF ok])
      (auto simp: list_init_def fold_clear le_clear_def)
qed

lemma list_flush_data:
  assumes "heap_ok h S" "list_flush L h = Some (h', ds)"
  shows "le_data (les h' e) = (if e \<in> set (S L) then None else le_data (les h e))"
proof -
  have "h' = list_init L (fold (\<lambda>e. upd_le e le_clear) (S L) h)"
    using clear_loop_run [of h None "S L" "[]"] heap_okD(1-3) [OF assms(1), where L = L] assms(2)
    by (simp add: list_flush_def)
  then show ?thesis by (simp add: list_init_def fold_clear le_clear_def)
qed

lemma list_clear_flush: "list_clear L h = map_option fst (list_flush L h)"
  by (simp add: list_clear_def list_flush_def option.map_comp comp_def case_prod_unfold)

fun apply_seq :: "(addr \<Rightarrow> 's \<Rightarrow> bool \<times> 's) \<Rightarrow> addr list \<Rightarrow> 's \<Rightarrow> addr option \<times> 's" where
  "apply_seq ah [] s = (None, s)"
| "apply_seq ah (e # es) s =
     (case ah e s of (stop, s) \<Rightarrow> if stop then (Some e, s) else apply_seq ah es s)"

text \<open>A handler may do to the lists what it wants, as long as the elements not yet visited stay
  where they are; it may unlink the element it is called for.\<close>

definition keeps_rest ::
  "bool \<Rightarrow> addr \<Rightarrow> (addr \<Rightarrow> 'd lheap \<times> 'u \<Rightarrow> bool \<times> 'd lheap \<times> 'u) \<Rightarrow> bool" where
  "keeps_rest fwd L ah \<longleftrightarrow> (\<forall>e s S xs ys.
     heap_ok (fst s) S \<longrightarrow> S L = (if fwd then xs @ e # ys else rev ys @ e # xs) \<longrightarrow>
     (\<exists>S' xs'. heap_ok (fst (snd (ah e s))) S' \<and> S' L = (if fwd then xs' @ ys else rev ys @ xs')))"

lemma apply_loop_run:
  "keeps_rest fwd L ah \<Longrightarrow> heap_ok (fst s) S \<Longrightarrow> S L = (if fwd then xs @ ys else rev ys @ xs) \<Longrightarrow>
   apply_loop fwd ah (first_or ys None) s = Some (apply_seq ah ys s)"
proof (induction ys arbitrary: s S xs)
  case Nil
  then show ?case by (simp add: apply_loop.simps)
next
  case (Cons e ys)
  obtain stop s' where a: "ah e s = (stop, s')" by (rule prod.exhaust)
  obtain S' xs' where S': "heap_ok (fst s') S'" "S' L = (if fwd then xs' @ ys else rev ys @ xs')"
    using Cons.prems(1) [unfolded keeps_rest_def, rule_format, of s S xs e ys] Cons.prems(2,3) a
    by (cases fwd) auto
  have "links (les (fst s)) None (S L) None" using heap_okD(1) [OF Cons.prems(2)] .
  then have "(if fwd then le_next (les (fst s) e) else le_prev (les (fst s) e)) = first_or ys None"
    using Cons.prems(3) by (auto simp: last_or_def split: if_splits) (cases ys; auto)+
  then show ?case
    using Cons.IH [OF Cons.prems(1) S'] a by (subst apply_loop.simps) simp
qed

lemma last_or_rev: "last_or xs None = first_or (rev xs) None"
  by (cases xs rule: rev_cases) auto

lemma list_apply_run:
  assumes "keeps_rest fwd L ah" "heap_ok (fst s) S"
  shows "list_apply L fwd ah s = Some (apply_seq ah (if fwd then S L else rev (S L)) s)"
  using apply_loop_run [OF assms, of "[]" "if fwd then S L else rev (S L)"] heap_okD [OF assms(2), where L = L]
  by (cases fwd) (simp_all add: list_apply_def last_or_rev)

lemma list_count_run:
  assumes "heap_ok h S"
  shows "list_count L h = Some (of_nat (length (S L)))"
proof -
  have "links (les h) p xs None \<Longrightarrow> count_loop (first_or xs None) n h = Some (n + of_nat (length xs))"
    for p xs n
  proof (induction xs arbitrary: p n)
    case Nil
    then show ?case by (simp add: count_loop.simps)
  next
    case (Cons x xs)
    then show ?case
      using Cons.IH [of "Some x" "n + 1"] by (subst count_loop.simps) (simp add: add.assoc)
  qed
  from this [of None "S L" 0] show ?thesis
    using heap_okD [OF assms, where L = L] by (simp add: list_count_def)
qed

subsection \<open>Sorting\<close>

text \<open>What a pass does to the sequence.\<close>

fun bubble :: "(addr \<Rightarrow> addr \<Rightarrow> bool) \<Rightarrow> addr list \<Rightarrow> addr list" where
  "bubble sh (x # y # ys) = (if sh x y then x # bubble sh (y # ys) else y # bubble sh (x # ys))"
| "bubble sh [] = []"
| "bubble sh [x] = [x]"

fun inversions :: "(addr \<Rightarrow> addr \<Rightarrow> bool) \<Rightarrow> addr list \<Rightarrow> nat" where
  "inversions sh [] = 0"
| "inversions sh (x # xs) = size (filter_mset (\<lambda>y. \<not> sh x y) (mset xs)) + inversions sh xs"

lemma mset_bubble [simp]: "mset (bubble sh xs) = mset xs"
  by (induction sh xs rule: bubble.induct) auto

lemma bubble_sorted: "successively sh xs \<Longrightarrow> bubble sh xs = xs"
  by (induction sh xs rule: bubble.induct) auto

lemma inversions_bubble:
  assumes "\<And>x y. sh x y \<or> sh y x"
  shows "inversions sh (bubble sh xs) + (if successively sh xs then 0 else 1) \<le> inversions sh xs"
  using assms
proof (induction sh xs rule: bubble.induct)
  case (1 sh x y ys)
  show ?case
  proof (cases "sh x y")
    case True
    with 1 show ?thesis by simp
  next
    case False
    then have "sh y x" using 1 by blast
    with False 1 show ?thesis by (simp split: if_splits)
  qed
qed auto

lemma list_ops_data:
  "le_list (les h i) = None \<Longrightarrow> le_data (les (list_append L i d h) x) = (if x = i then d else le_data (les h x))"
  "le_list (les h i) = None \<Longrightarrow> le_data (les (list_prepend L i d h) x) = (if x = i then d else le_data (les h x))"
  "le_list (les h i) = None \<Longrightarrow> i \<noteq> e \<Longrightarrow>
    le_data (les (list_insert_before L e i d h) x) = (if x = i then d else le_data (les h x))"
  "le_list (les h i) = None \<Longrightarrow> i \<noteq> e \<Longrightarrow>
    le_data (les (list_insert_after L e i d h) x) = (if x = i then d else le_data (les h x))"
  "le_data (les (list_unlink e h) x) = le_data (les h x)"
  by (auto simp: list_append_def list_prepend_def list_insert_before_def list_insert_after_def
      list_unlink_def Let_def upd_le_opt_def split: option.splits)

lemma list_unlink_frees:
  "heap_ok h S \<Longrightarrow> le_list (les (list_unlink e h) e) = None"
  by (auto simp: list_unlink_def Let_def split: option.splits)

lemma sort_swap:
  assumes ok: "heap_ok h S" and S: "S L = xs @ e # t # ys"
  shows "heap_ok (list_insert_after L t e (le_data (les (list_unlink e h) e)) (list_unlink e h))
      (S(L := xs @ t # e # ys))"
    "le_data (les (list_insert_after L t e (le_data (les (list_unlink e h) e)) (list_unlink e h)) x) =
      le_data (les h x)"
proof -
  have u: "heap_ok (list_unlink e h) (S(L := xs @ t # ys))"
    using list_unlink_at [OF ok, of L xs e "t # ys"] S by simp
  from list_insert_after_ok [OF u list_unlink_frees [OF ok], of L xs t ys]
  show "heap_ok (list_insert_after L t e (le_data (les (list_unlink e h) e)) (list_unlink e h))
      (S(L := xs @ t # e # ys))" by simp
  have "t \<noteq> e" using S heap_okD(2) [OF ok, of L] by simp
  then show "le_data (les (list_insert_after L t e (le_data (les (list_unlink e h) e)) (list_unlink e h)) x) =
      le_data (les h x)" using list_unlink_frees [OF ok, of e] by (simp add: list_ops_data)
qed

lemma sort_pass_run:
  "heap_ok h S \<Longrightarrow> S L = xs @ ys \<Longrightarrow>
   \<exists>h'. sort_pass L sh (first_or ys None) srt h = Some (srt \<or> \<not> successively sh ys, h') \<and>
     heap_ok h' (S(L := xs @ bubble sh ys)) \<and> (\<forall>x. le_data (les h' x) = le_data (les h x))"
proof (induction sh ys arbitrary: h S xs srt rule: bubble.induct)
  case (1 sh e t ys)
  have n: "le_next (les h e) = Some t" using heap_okD(1) [OF 1(3), of L] 1(4) by simp
  show ?case
  proof (cases "sh e t")
    case True
    have "S L = (xs @ [e]) @ t # ys" using 1(4) by simp
    from 1(1) [OF True 1(3) this, of srt] show ?thesis
      using True n by (subst sort_pass.simps) (auto simp: fun_upd_def)
  next
    case False
    let ?g = "list_unlink e h"
    let ?h = "list_insert_after L t e (le_data (les ?g e)) ?g"
    note sw = sort_swap [OF 1(3,4)]
    have "(S(L := xs @ t # e # ys)) L = (xs @ [t]) @ e # ys" by simp
    from 1(2) [OF False sw(1) this, of True]
    obtain h' where "sort_pass L sh (Some e) True ?h = Some (True, h')"
      "heap_ok h' (S(L := xs @ t # bubble sh (e # ys)))" "\<forall>x. le_data (les h' x) = le_data (les h x)"
      using sw(2) by (auto simp: fun_upd_def cong: if_cong)
    then show ?thesis using False n
      by (subst sort_pass.simps) (auto simp: Let_def)
  qed
next
  case (2 sh)
  then show ?case using fun_upd_idem [of S L xs] by (auto simp: sort_pass.simps)
next
  case (3 sh e)
  have "le_next (les h e) = None" using heap_okD(1) [OF 3(1), of L] 3(2) by simp
  then show ?case using 3 fun_upd_idem [of S L "xs @ [e]"] by (auto simp: sort_pass.simps)
qed

lemma list_sort_run:
  assumes sh: "\<And>x y. sh x y \<or> sh y x"
  shows "heap_ok h S \<Longrightarrow> \<exists>h' xs. list_sort L sh h = Some h' \<and> heap_ok h' (S(L := xs)) \<and>
    mset xs = mset (S L) \<and> successively sh xs \<and> (\<forall>x. le_data (les h' x) = le_data (les h x))"
proof (induction "inversions sh (S L)" arbitrary: h S rule: less_induct)
  case less
  obtain h1 where h1: "sort_pass L sh (first_or (S L) None) False h = Some (\<not> successively sh (S L), h1)"
    "heap_ok h1 (S(L := bubble sh (S L)))" "\<forall>x. le_data (les h1 x) = le_data (les h x)"
    using sort_pass_run [OF less.prems, of L "[]" "S L" sh False] by auto
  have hd: "head (lsts h L) = first_or (S L) None" using heap_okD(3) [OF less.prems] .
  show ?case
  proof (cases "successively sh (S L)")
    case True
    then have "bubble sh (S L) = S L" by (rule bubble_sorted)
    then show ?thesis using True h1 hd
      by (subst list_sort.simps) (auto intro: exI [of _ "S L"])
  next
    case False
    let ?S = "S(L := bubble sh (S L))"
    have "inversions sh (?S L) < inversions sh (S L)"
      using inversions_bubble [of sh "S L"] sh False by simp
    from less.hyps [OF this h1(2)] show ?thesis
      using h1 hd False by (subst list_sort.simps) auto
  qed
qed

subsection \<open>The list interface\<close>

text \<open>
  What the timer list, the hash buckets, the jitter buffer and the transaction tables rely on:
  a state that represents a family of sequences, an element being in at most one of them.
\<close>

locale linked_lists =
  fixes rep :: "'s \<Rightarrow> ('l \<Rightarrow> 'e list) \<Rightarrow> bool" and owner :: "'s \<Rightarrow> 'e \<Rightarrow> 'l option"
    and push_back push_front :: "'l \<Rightarrow> 'e \<Rightarrow> 's \<Rightarrow> 's"
    and put_before put_after :: "'l \<Rightarrow> 'e \<Rightarrow> 'e \<Rightarrow> 's \<Rightarrow> 's" and cut :: "'e \<Rightarrow> 's \<Rightarrow> 's"
  assumes owner_iff: "rep s S \<Longrightarrow> owner s e = Some L \<longleftrightarrow> e \<in> set (S L)"
    and rep_distinct: "rep s S \<Longrightarrow> distinct (S L)"
    and rep_back: "rep s S \<Longrightarrow> owner s e = None \<Longrightarrow> rep (push_back L e s) (S(L := S L @ [e]))"
    and rep_front: "rep s S \<Longrightarrow> owner s e = None \<Longrightarrow> rep (push_front L e s) (S(L := e # S L))"
    and rep_before: "rep s S \<Longrightarrow> owner s i = None \<Longrightarrow> S L = xs @ e # ys \<Longrightarrow>
      rep (put_before L e i s) (S(L := xs @ i # e # ys))"
    and rep_after: "rep s S \<Longrightarrow> owner s i = None \<Longrightarrow> S L = xs @ e # ys \<Longrightarrow>
      rep (put_after L e i s) (S(L := xs @ e # i # ys))"
    and rep_cut: "rep s S \<Longrightarrow> e \<in> set (S L) \<Longrightarrow> rep (cut e s) (S(L := remove1 e (S L)))"
    and cut_free: "owner s e = None \<Longrightarrow> cut e s = s"
begin

lemma owner_cut:
  assumes "rep s S"
  shows "owner (cut e s) e = None"
proof (cases "owner s e")
  case None
  then show ?thesis by (simp add: cut_free)
next
  case (Some L)
  then have e: "e \<in> set (S L)" using owner_iff [OF assms] by blast
  have "e \<notin> set ((S(L := remove1 e (S L))) M)" for M
    using owner_iff [OF assms, of e M] rep_distinct [OF assms, of L] Some by (cases "M = L") auto
  then show ?thesis using owner_iff [OF rep_cut [OF assms e]] by (metis not_Some_eq)
qed

lemma requeue:
  assumes "rep s S" "e \<in> set (S L)"
  shows "rep (push_back M e (cut e s))
    ((S(L := remove1 e (S L)))(M := (S(L := remove1 e (S L))) M @ [e]))"
  using rep_back [OF rep_cut [OF assms] owner_cut [OF assms(1)]] .

lemma drop_front:
  assumes "rep s S" "S L = e # xs"
  shows "rep (cut e s) (S(L := xs)) \<and> owner (cut e s) e = None"
  using rep_cut [OF assms(1), of e L] owner_cut [OF assms(1)] assms(2) by simp

text \<open>Insertion behind an element keeps a list sorted, when the keys say so.\<close>

lemma sorted_after:
  fixes key :: "'e \<Rightarrow> 'k::linorder"
  assumes "rep s S" "owner s i = None" "S L = xs @ e # ys" "sorted (map key (S L))"
    and "key e \<le> key i" "\<And>y. y \<in> set ys \<Longrightarrow> key i \<le> key y"
  shows "rep (put_after L e i s) (S(L := xs @ e # i # ys)) \<and> sorted (map key (xs @ e # i # ys))"
  using rep_after [OF assms(1-3)] assms(3-6) by (auto simp: sorted_append intro: order_trans)

lemma sorted_front:
  fixes key :: "'e \<Rightarrow> 'k::linorder"
  assumes "rep s S" "owner s i = None" "sorted (map key (S L))" "\<And>y. y \<in> set (S L) \<Longrightarrow> key i \<le> key y"
  shows "rep (push_front L i s) (S(L := i # S L)) \<and> sorted (map key (i # S L))"
  using rep_front [OF assms(1,2)] assms(3,4) by auto

end

interpretation dl: linked_lists heap_ok "\<lambda>h e. le_list (les h e)"
  "\<lambda>L e. list_append L e (D e)" "\<lambda>L e. list_prepend L e (D e)"
  "\<lambda>L e i. list_insert_before L e i (D i)" "\<lambda>L e i. list_insert_after L e i (D i)" list_unlink
  for D :: "addr \<Rightarrow> 'd option"
  by unfold_locales
    (simp_all add: heap_okD list_append_ok list_prepend_ok list_insert_before_ok list_insert_after_ok
      list_unlink_ok)

subsection \<open>Properties\<close>

definition heap_empty :: "'d lheap" where
  "heap_empty = \<lparr>les = \<lambda>_. \<lparr>le_prev = None, le_next = None, le_list = None, le_data = None\<rparr>,
     lsts = \<lambda>_. \<lparr>head = None, tail = None\<rparr>\<rparr>"

lemma heap_empty_free [simp]: "le_list (les heap_empty x) = None"
  by (simp add: heap_empty_def)

lemma heap_empty_ok: "heap_ok heap_empty (\<lambda>_. [])"
  by (simp add: heap_ok_def heap_empty_def)

text \<open>A list of three elements, for concrete runs.\<close>

definition heap_123 :: "nat lheap" where
  "heap_123 = list_append 0 3 (Some 30) (list_append 0 2 (Some 20) (list_append 0 1 (Some 10) heap_empty))"

lemma heap_123_free: "le_list (les heap_123 x) = (if x = 1 \<or> x = 2 \<or> x = 3 then Some 0 else None)"
  by (simp add: heap_123_def heap_empty_def list_append_def Let_def upd_le_opt_def)

lemma heap_123_ok: "heap_ok heap_123 ((\<lambda>_. [])(0 := [1, 2, 3]))"
proof -
  let ?E = "heap_empty :: nat lheap"
  have 1: "heap_ok (list_append 0 1 (Some 10) ?E) ((\<lambda>_. [])(0 := [1]))"
    using list_append_ok [OF heap_empty_ok, of 1 0 "Some 10"] by (simp add: heap_empty_def)
  have "le_list (les (list_append 0 1 (Some 10) ?E) 2) = None"
    by (simp add: heap_empty_def list_append_def)
  from list_append_ok [OF 1 this, of 0 "Some 20"]
  have 2: "heap_ok (list_append 0 2 (Some 20) (list_append 0 1 (Some 10) ?E)) ((\<lambda>_. [])(0 := [1, 2]))"
    by simp
  have "le_list (les (list_append 0 2 (Some 20) (list_append 0 1 (Some 10) ?E)) 3) = None"
    by (simp add: heap_empty_def list_append_def Let_def upd_le_opt_def)
  from list_append_ok [OF 2 this, of 0 "Some 30"] show ?thesis by (simp add: heap_123_def)
qed

text \<open>C10: The pointer operations implement the operations on sequences. On a heap whose lists hold
  the sequences \<open>S\<close>, for an unlinked element \<open>i\<close>: append, prepend and insertion before or after a
  listed element \<open>e\<close> add \<open>i\<close> at that place of list \<open>L\<close> and leave every other list as it was;
  unlinking takes an element out of the list it is in and frees it; flushing empties the list and
  hands its data pointers over in order. A new element gets its data and no operation touches the data of
  another element, except that flushing clears the elements it removes.\<close>

theorem list_operations_refine:
  assumes "heap_ok h S" "le_list (les h i) = None" "S L = xs @ e # ys"
  shows "heap_ok (list_append L i d h) (S(L := S L @ [i])) \<and>
    heap_ok (list_prepend L i d h) (S(L := i # S L)) \<and>
    heap_ok (list_insert_before L e i d h) (S(L := xs @ i # e # ys)) \<and>
    heap_ok (list_insert_after L e i d h) (S(L := xs @ e # i # ys)) \<and>
    heap_ok (list_unlink e h) (S(L := xs @ ys)) \<and> le_list (les (list_unlink e h) e) = None \<and>
    (\<exists>h'. list_flush L h = Some (h', map (\<lambda>x. le_data (les h x)) (S L)) \<and> heap_ok h' (S(L := [])) \<and>
      (\<forall>x. le_data (les h' x) = (if x \<in> set (S L) then None else le_data (les h x)))) \<and>
    (\<forall>x. le_data (les (list_append L i d h) x) = (if x = i then d else le_data (les h x)) \<and>
      le_data (les (list_prepend L i d h) x) = (if x = i then d else le_data (les h x)) \<and>
      le_data (les (list_insert_before L e i d h) x) = (if x = i then d else le_data (les h x)) \<and>
      le_data (les (list_insert_after L e i d h) x) = (if x = i then d else le_data (les h x)) \<and>
      le_data (les (list_unlink e h) x) = le_data (les h x))"
proof -
  have "i \<noteq> e" using heap_ok_free [OF assms(1,2), of L] assms(3) by auto
  moreover obtain h' where f: "list_flush L h = Some (h', map (\<lambda>x. le_data (les h x)) (S L))"
    "heap_ok h' (S(L := []))" by (rule list_flush_ok [OF assms(1)])
  moreover note list_flush_data [OF assms(1) f(1)]
  ultimately show ?thesis
    using list_append_ok [OF assms(1,2), of L d] list_prepend_ok [OF assms(1,2), of L d]
      list_insert_before_ok [OF assms, of d] list_insert_after_ok [OF assms, of d]
      list_unlink_at [OF assms(1,3)] dl.owner_cut [OF assms(1)] assms(2) by (simp add: list_ops_data)
qed

theorem list_operations_refine_witness:
  "heap_ok (list_insert_before 0 2 7 (Some 70) heap_123) ((\<lambda>_. [])(0 := [1, 7, 2, 3]))"
  using list_operations_refine [OF heap_123_ok, of 7 0 "[1]" 2 "[3]"]
  by (simp add: heap_123_free)

text \<open>Traversal: \<open>list_apply\<close> ends and calls the handler for the elements of the list in order
  (or in reverse order) until it returns true, even when the handler unlinks the element it is
  called for or changes other lists, as long as the elements not yet visited stay in place.\<close>

theorem list_apply_visits:
  assumes "keeps_rest fwd L ah" "heap_ok (fst s) S"
  shows "list_apply L fwd ah s = Some (apply_seq ah (if fwd then S L else rev (S L)) s)"
  using list_apply_run [OF assms] .

lemma unlink_keeps_rest:
  "keeps_rest True L (\<lambda>e (h, u). (False, list_unlink e h, u @ [e]))"
  unfolding keeps_rest_def
proof (intro allI impI)
  fix e :: addr and s :: "'d lheap \<times> addr list" and S xs ys
  assume "heap_ok (fst s) S" "S L = (if True then xs @ e # ys else rev ys @ e # xs)"
  then show "\<exists>S' xs'. heap_ok (fst (snd (case s of (h, u) \<Rightarrow> (False, list_unlink e h, u @ [e])))) S' \<and>
      S' L = (if True then xs' @ ys else rev ys @ xs')"
    using list_unlink_at [of "fst s" S L xs e ys]
    by (intro exI [of _ "S(L := xs @ ys)"] exI [of _ xs]) (simp add: case_prod_beta)
qed

theorem list_apply_visits_witness:
  "\<exists>h. list_apply 0 True (\<lambda>e (h, u). (False, list_unlink e h, u @ [e])) (heap_123, []) =
    Some (None, h, [1, 2, 3])"
  using list_apply_visits [OF unlink_keeps_rest, of "(heap_123, [])" _ 0] heap_123_ok by fastforce

text \<open>C17: Sorting: for a sort handler that is total (of two elements one may stand before the
  other), \<open>list_sort\<close> ends, the list then has the same elements, every neighbouring pair is in the
  order the handler accepts, every other list and all data are as before.\<close>

theorem list_sort_sorts:
  assumes "\<And>x y. sh x y \<or> sh y x" "heap_ok h S"
  shows "\<exists>h' xs. list_sort L sh h = Some h' \<and> heap_ok h' (S(L := xs)) \<and>
    mset xs = mset (S L) \<and> successively sh xs \<and> (\<forall>x. le_data (les h' x) = le_data (les h x))"
  using list_sort_run [OF assms] .

theorem list_sort_sorts_witness:
  "\<exists>h' xs. list_sort 0 (\<ge>) heap_123 = Some h' \<and> heap_ok h' ((\<lambda>_. [])(0 := xs)) \<and>
    mset xs = {#1, 2, 3#} \<and> successively (\<ge>) xs"
proof -
  have total: "\<And>x y :: nat. x \<ge> y \<or> y \<ge> x" by linarith
  obtain h' xs where "list_sort 0 (\<ge>) heap_123 = Some h'"
    "heap_ok h' ((\<lambda>_. [])(0 := [1, 2, 3], 0 := xs))"
    "mset xs = mset (((\<lambda>_ :: addr. [])(0 := [1, 2, 3])) 0)" "successively (\<ge>) xs"
    using list_sort_sorts [of "(\<ge>)", OF total heap_123_ok, of 0] by (elim exE conjE) (rule that)
  then show ?thesis by (intro exI [of _ h'] exI [of _ xs]) simp
qed

text \<open>Moving an element to the end of a list (unlink, then append), the idiom of the jitter
  buffer's pool and the transaction queues: it leaves the list it was in and is last in the
  other; appending an element that is still linked changes nothing.\<close>

theorem list_requeue:
  assumes "heap_ok h S" "e \<in> set (S L)" "L \<noteq> M"
  shows "heap_ok (list_append M e (D e) (list_unlink e h)) (S(L := remove1 e (S L), M := S M @ [e])) \<and>
    list_append M e (D e) h = h"
proof -
  have "le_list (les h e) = Some L" using heap_okD(5) [OF assms(1)] assms(2) by blast
  then show ?thesis
    using dl.requeue [OF assms(1,2), where D = D and M = M] assms(3) by (simp add: list_append_def)
qed

theorem list_requeue_witness:
  "heap_ok (list_append 5 2 None (list_unlink 2 heap_123)) ((\<lambda>_. [])(0 := [1, 3], 5 := [2]))"
  using list_requeue [OF heap_123_ok, of 2 0 5 "\<lambda>_. None"] by simp

end
