(* ===== verification/HashTable.thy ===== *)
theory HashTable
  imports LinkedList
begin

text \<open>
  Hash tables: \<^verbatim>\<open>src/hash/hash.c\<close> and the hash functions of \<^verbatim>\<open>src/hash/func.c\<close>.

  A table is an array of list heads in the heap of \<^verbatim>\<open>LinkedList\<close>; bucket \<open>i\<close> is the list at address
  \<open>hash_bucket t + i\<close>. \<open>char\<close> is unsigned, as in the ABI of the port.
\<close>

subsection \<open>Tables\<close>

record hash =
  hash_bucket :: addr
  hash_bsize :: u32

text \<open>\<^verbatim>\<open>hash_alloc\<close>: \<open>new\<close> is the address of the bucket array, or \<open>None\<close> when either allocation fails;
  fresh memory is zeroed, so each bucket is an empty list.\<close>

fun zero_buckets :: "addr \<Rightarrow> nat \<Rightarrow> 'd lheap \<Rightarrow> 'd lheap" where
  "zero_buckets b 0 h = h"
| "zero_buckets b (Suc n) h = zero_buckets b n (list_init (b + n) h)"

definition hash_alloc :: "addr option \<Rightarrow> u32 \<Rightarrow> 'd lheap \<Rightarrow> err \<times> hash option \<times> 'd lheap" where
  "hash_alloc new bsize h =
     (if bsize = 0 then (EINVAL, None, h)
      else if bsize AND (bsize - 1) \<noteq> 0 then (EINVAL, None, h)
      else case new of
        None \<Rightarrow> (ENOMEM, None, h)
      | Some b \<Rightarrow> (0, Some \<lparr>hash_bucket = b, hash_bsize = bsize\<rparr>, zero_buckets b (unat bsize) h))"

definition hash_list :: "hash \<Rightarrow> u32 \<Rightarrow> addr" where
  "hash_list t key = hash_bucket t + unat (key AND (hash_bsize t - 1))"

definition hash_append :: "hash \<Rightarrow> u32 \<Rightarrow> addr \<Rightarrow> 'd option \<Rightarrow> 'd lheap \<Rightarrow> 'd lheap" where
  "hash_append t key le d h = list_append (hash_list t key) le d h"

definition hash_unlink :: "addr \<Rightarrow> 'd lheap \<Rightarrow> 'd lheap" where
  "hash_unlink le h = list_unlink le h"

definition hash_lookup ::
  "hash \<Rightarrow> u32 \<Rightarrow> (addr \<Rightarrow> 'd lheap \<times> 'u \<Rightarrow> bool \<times> 'd lheap \<times> 'u) \<Rightarrow> 'd lheap \<times> 'u
   \<Rightarrow> (addr option \<times> 'd lheap \<times> 'u) option" where
  "hash_lookup t key ah s = list_apply (hash_list t key) True ah s"

text \<open>The loop of \<^verbatim>\<open>hash_apply\<close>: \<open>n\<close> buckets are left, from bucket \<open>i\<close>.\<close>

fun hash_apply_from ::
  "hash \<Rightarrow> nat \<Rightarrow> nat \<Rightarrow> (addr \<Rightarrow> 'd lheap \<times> 'u \<Rightarrow> bool \<times> 'd lheap \<times> 'u) \<Rightarrow> 'd lheap \<times> 'u
   \<Rightarrow> (addr option \<times> 'd lheap \<times> 'u) option" where
  "hash_apply_from t i 0 ah s = Some (None, s)"
| "hash_apply_from t i (Suc n) ah s = (case list_apply (hash_bucket t + i) True ah s of
     None \<Rightarrow> None
   | Some (Some le, s) \<Rightarrow> Some (Some le, s)
   | Some (None, s) \<Rightarrow> hash_apply_from t (Suc i) n ah s)"

definition hash_apply ::
  "hash \<Rightarrow> (addr \<Rightarrow> 'd lheap \<times> 'u \<Rightarrow> bool \<times> 'd lheap \<times> 'u) \<Rightarrow> 'd lheap \<times> 'u
   \<Rightarrow> (addr option \<times> 'd lheap \<times> 'u) option" where
  "hash_apply t ah s = hash_apply_from t 0 (unat (hash_bsize t)) ah s"

fun hash_flush_from :: "hash \<Rightarrow> nat \<Rightarrow> nat \<Rightarrow> 'd lheap \<times> 'd option list \<Rightarrow> ('d lheap \<times> 'd option list) option" where
  "hash_flush_from t i 0 s = Some s"
| "hash_flush_from t i (Suc n) s = (case list_flush (hash_bucket t + i) (fst s) of
     None \<Rightarrow> None
   | Some (h, ds) \<Rightarrow> hash_flush_from t (Suc i) n (h, snd s @ ds))"

text \<open>The second result of \<open>hash_flush\<close>: the data pointers given to \<^verbatim>\<open>mem_deref\<close>.\<close>

definition hash_flush :: "hash \<Rightarrow> 'd lheap \<Rightarrow> ('d lheap \<times> 'd option list) option" where
  "hash_flush t h = hash_flush_from t 0 (unat (hash_bsize t)) (h, [])"

fun hash_clear_from :: "hash \<Rightarrow> nat \<Rightarrow> nat \<Rightarrow> 'd lheap \<Rightarrow> 'd lheap option" where
  "hash_clear_from t i 0 h = Some h"
| "hash_clear_from t i (Suc n) h = (case list_clear (hash_bucket t + i) h of
     None \<Rightarrow> None
   | Some h \<Rightarrow> hash_clear_from t (Suc i) n h)"

definition hash_clear :: "hash \<Rightarrow> 'd lheap \<Rightarrow> 'd lheap option" where
  "hash_clear t h = hash_clear_from t 0 (unat (hash_bsize t)) h"

text \<open>The loop \<^verbatim>\<open>for (x=0; (uint32_t)1<<x < size && x < 31; x++)\<close>.\<close>

function valid_size_from :: "nat \<Rightarrow> u32 \<Rightarrow> nat" where
  "valid_size_from x sz = (if push_bit x 1 < sz \<and> x < 31 then valid_size_from (x + 1) sz else x)"
  by auto
termination by (relation "measure (\<lambda>(x, sz). 31 - x)") auto

declare valid_size_from.simps [simp del]

definition hash_valid_size :: "u32 \<Rightarrow> u32" where
  "hash_valid_size sz = push_bit (valid_size_from 0 sz) 1"

subsection \<open>Hash functions (func.c)\<close>

definition joaat_step :: "u32 \<Rightarrow> u32 \<Rightarrow> u32" where
  "joaat_step c h = (let h = h + c; h = h + push_bit 10 h in h XOR drop_bit 6 h)"

definition joaat_final :: "u32 \<Rightarrow> u32" where
  "joaat_final h = (let h = h + push_bit 3 h; h = h XOR drop_bit 11 h in h + push_bit 15 h)"

definition hash_joaat :: "u8 list \<Rightarrow> u32" where
  "hash_joaat key = joaat_final (fold (\<lambda>c. joaat_step (ucast c)) key 0)"

text \<open>\<^verbatim>\<open>tolower\<close> in the C locale.\<close>

definition tolower :: "u8 \<Rightarrow> u8" where
  "tolower c = (if 65 \<le> c \<and> c \<le> 90 then c + 32 else c)"

definition hash_joaat_ci :: "u8 list \<Rightarrow> u32" where
  "hash_joaat_ci str = joaat_final (fold (\<lambda>c. joaat_step (ucast (tolower c))) str 0)"

text \<open>The variants for C strings stop at the terminator; a string that lacks one is read on, so the
  result is \<open>None\<close>.\<close>

fun joaat_str_loop :: "(u8 \<Rightarrow> u8) \<Rightarrow> u8 list \<Rightarrow> u32 \<Rightarrow> u32 option" where
  "joaat_str_loop f [] h = None"
| "joaat_str_loop f (c # cs) h = (if c = 0 then Some h else joaat_str_loop f cs (joaat_step (ucast (f c)) h))"

definition hash_joaat_str :: "u8 list \<Rightarrow> u32 option" where
  "hash_joaat_str mem = map_option joaat_final (joaat_str_loop (\<lambda>c. c) mem 0)"

definition hash_joaat_str_ci :: "u8 list \<Rightarrow> u32 option" where
  "hash_joaat_str_ci mem = map_option joaat_final (joaat_str_loop tolower mem 0)"

definition hash_joaat_pl :: "u8 list option \<Rightarrow> u32" where
  "hash_joaat_pl pl = (case pl of None \<Rightarrow> 0 | Some s \<Rightarrow> hash_joaat s)"

definition hash_joaat_pl_ci :: "u8 list option \<Rightarrow> u32" where
  "hash_joaat_pl_ci pl = (case pl of None \<Rightarrow> 0 | Some s \<Rightarrow> hash_joaat_ci s)"

subsection \<open>Facts\<close>

definition buckets :: "hash \<Rightarrow> (addr \<Rightarrow> addr list) \<Rightarrow> addr list" where
  "buckets t S = concat (map (\<lambda>i. S (hash_bucket t + i)) [0..<unat (hash_bsize t)])"

text \<open>A table in use: a power of two of buckets, each element in the bucket of its key.\<close>

definition hash_ok :: "hash \<Rightarrow> (addr \<Rightarrow> u32) \<Rightarrow> (addr \<Rightarrow> addr list) \<Rightarrow> bool" where
  "hash_ok t key S \<longleftrightarrow> hash_bsize t \<noteq> 0 \<and> hash_bsize t AND (hash_bsize t - 1) = 0 \<and>
     (\<forall>i. i < unat (hash_bsize t) \<longrightarrow> (\<forall>e\<in>set (S (hash_bucket t + i)). hash_list t (key e) = hash_bucket t + i))"

lemma hash_list_bound:
  assumes "hash_bsize t \<noteq> 0"
  obtains i where "i < unat (hash_bsize t)" "hash_list t key = hash_bucket t + i"
proof
  have "key AND (hash_bsize t - 1) \<le> hash_bsize t - 1" by (rule word_and_le1)
  moreover have "hash_bsize t - 1 < hash_bsize t"
    using assms by (simp add: word_less_nat_alt unat_sub_small unat_gt_0 Suc_le_eq)
  ultimately show "unat (key AND (hash_bsize t - 1)) < unat (hash_bsize t)"
    by (simp add: word_le_nat_alt word_less_nat_alt)
  show "hash_list t key = hash_bucket t + unat (key AND (hash_bsize t - 1))" by (simp add: hash_list_def)
qed

definition pure_handler :: "(addr \<Rightarrow> bool) \<Rightarrow> addr \<Rightarrow> 's \<Rightarrow> bool \<times> 's" where
  "pure_handler p e s = (p e, s)"

lemma pure_keeps_rest: "keeps_rest fwd L (pure_handler p)"
  unfolding keeps_rest_def
proof (intro allI impI)
  fix e :: addr and s :: "'d lheap \<times> 'u" and S xs ys
  assume "heap_ok (fst s) S" "S L = (if fwd then xs @ e # ys else rev ys @ e # xs)"
  then show "\<exists>S' xs'. heap_ok (fst (snd (pure_handler p e s))) S' \<and>
      S' L = (if fwd then xs' @ ys else rev ys @ xs')"
    by (intro exI [of _ S] exI [of _ "if fwd then xs @ [e] else e # xs"]) (simp add: pure_handler_def)
qed

lemma apply_seq_pure [simp]: "apply_seq (pure_handler p) xs s = (find p xs, s)"
  by (induction xs) (simp_all add: pure_handler_def)

lemma hash_lookup_run:
  "heap_ok (fst s) S \<Longrightarrow> hash_lookup t key (pure_handler p) s = Some (find p (S (hash_list t key)), s)"
  using list_apply_run [OF pure_keeps_rest, of s S] by (simp add: hash_lookup_def)

lemma hash_append_ok:
  assumes "hash_ok t key S" "e \<notin> set (buckets t S)" "key e = k"
  shows "hash_ok t key (S(hash_list t k := S (hash_list t k) @ [e]))"
  using assms by (auto simp: hash_ok_def)

lemma set_buckets: "set (buckets t S) = (\<Union>i\<in>{..<unat (hash_bsize t)}. set (S (hash_bucket t + i)))"
  by (auto simp: buckets_def)

lemma in_bucket:
  assumes "hash_ok t key S" "e \<in> set (buckets t S)"
  shows "e \<in> set (S (hash_list t (key e)))"
  using assms by (auto simp: hash_ok_def set_buckets)

lemma bucket_in_table:
  "hash_ok t key S \<Longrightarrow> set (S (hash_list t k)) \<subseteq> set (buckets t S)"
  by (rule hash_list_bound [of t k]) (auto simp: hash_ok_def set_buckets)

lemma hash_flush_from_run:
  assumes "heap_ok h S"
  shows "\<exists>h'. hash_flush_from t i n (h, ds) =
      Some (h', ds @ concat (map (\<lambda>j. map (\<lambda>e. le_data (les h e)) (S (hash_bucket t + j))) [i..<i + n])) \<and>
    heap_ok h' (\<lambda>L. if hash_bucket t + i \<le> L \<and> L < hash_bucket t + i + n then [] else S L)"
  using assms
proof (induction n arbitrary: i h S ds)
  case 0
  have "(\<lambda>L. if hash_bucket t + i \<le> L \<and> L < hash_bucket t + i + 0 then [] else S L) = S"
    by (auto simp: fun_eq_iff)
  with 0 show ?case by simp
next
  case (Suc n)
  let ?L = "hash_bucket t + i"
  obtain h1 where h1: "list_flush ?L h = Some (h1, map (\<lambda>e. le_data (les h e)) (S ?L))"
    "heap_ok h1 (S(?L := []))" by (rule list_flush_ok [OF Suc.prems])
  have data: "le_data (les h1 e) = le_data (les h e)" if "e \<in> set (S L)" "L \<noteq> ?L" for e L
  proof -
    have "e \<notin> set (S ?L)" using heap_ok_disjoint [OF Suc.prems that(1), of ?L] that(2) by simp
    then show ?thesis using list_flush_data [OF Suc.prems h1(1)] by simp
  qed
  from Suc.IH [OF h1(2), of "Suc i" "ds @ map (\<lambda>e. le_data (les h e)) (S ?L)"]
  obtain h' where h': "hash_flush_from t (Suc i) n (h1, ds @ map (\<lambda>e. le_data (les h e)) (S ?L)) =
      Some (h', (ds @ map (\<lambda>e. le_data (les h e)) (S ?L)) @
        concat (map (\<lambda>j. map (\<lambda>e. le_data (les h1 e)) ((S(?L := [])) (hash_bucket t + j))) [Suc i..<Suc i + n]))"
    "heap_ok h' (\<lambda>L. if hash_bucket t + Suc i \<le> L \<and> L < hash_bucket t + Suc i + n then []
      else (S(?L := [])) L)" by blast
  have c: "concat (map (\<lambda>j. map (\<lambda>e. le_data (les h1 e)) ((S(?L := [])) (hash_bucket t + j))) [Suc i..<Suc (i + n)]) =
      concat (map (\<lambda>j. map (\<lambda>e. le_data (les h e)) (S (hash_bucket t + j))) [Suc i..<Suc (i + n)])"
    by (rule arg_cong [where f = concat], rule map_cong) (auto intro!: data)
  have "(\<lambda>L. if hash_bucket t + Suc i \<le> L \<and> L < hash_bucket t + Suc i + n then []
      else (S(?L := [])) L) =
      (\<lambda>L. if ?L \<le> L \<and> L < ?L + Suc n then [] else S L)"
    by (auto simp: fun_eq_iff)
  moreover have "[i..<i + Suc n] = i # [Suc i..<Suc i + n]" by (simp add: upt_conv_Cons del: upt_Suc)
  ultimately show ?case using h1 h' by (simp add: c del: upt_Suc fun_upd_apply)
qed

lemma valid_size_bounds:
  "x \<le> 31 \<Longrightarrow> x \<le> valid_size_from x sz \<and> valid_size_from x sz \<le> 31 \<and>
   (valid_size_from x sz < 31 \<longrightarrow> sz \<le> push_bit (valid_size_from x sz) 1) \<and>
   (x < valid_size_from x sz \<longrightarrow> push_bit (valid_size_from x sz - 1) 1 < sz)"
proof (induction x sz rule: valid_size_from.induct)
  case (1 x sz)
  show ?case
  proof (cases "push_bit x 1 < sz \<and> x < 31")
    case True
    have eq: "valid_size_from x sz = valid_size_from (x + 1) sz"
      by (subst valid_size_from.simps) (simp only: True simp_thms if_True)
    have "x + 1 \<le> 31" using True by simp
    from 1(1) [OF True this] show ?thesis unfolding eq
      using True by (cases "valid_size_from (x + 1) sz = x + 1") auto
  next
    case False
    have eq: "valid_size_from x sz = x"
      by (subst valid_size_from.simps) (simp only: False if_False)
    show ?thesis unfolding eq using False 1(2) by (auto simp: not_less)
  qed
qed

lemma power_and_pred: "(push_bit x 1 :: 'a::len word) AND (push_bit x 1 - 1) = 0"
proof -
  have "(push_bit x 1 :: 'a word) - 1 = mask x" by (simp add: mask_eq_exp_minus_1 push_bit_eq_mult)
  then show ?thesis by (auto simp: bit_simps intro!: bit_word_eqI)
qed

subsection \<open>Properties\<close>

text \<open>C15: Adding an element under its key and looking it up. In a table where every element sits in
  the bucket of its key, \<open>hash_append\<close> of a free element keeps that so, and \<open>hash_lookup\<close> with a
  key and a handler that accepts only elements with that key gives an element of the table the
  handler accepts if there is one, and \<^verbatim>\<open>NULL\<close> only if there is none, although it searches only
  one bucket. The lookup ends and changes nothing.\<close>

theorem hash_append_lookup:
  assumes "heap_ok h S" "hash_ok t key S" "le_list (les h e) = None"
    and "\<And>x. p x \<Longrightarrow> key x = k" "h' = hash_append t (key e) e d h"
  shows "\<exists>S'. heap_ok h' S' \<and> hash_ok t key S' \<and>
    set (buckets t S') = insert e (set (buckets t S)) \<and>
    hash_lookup t k (pure_handler p) (h', u) = Some (find p (S' (hash_list t k)), h', u) \<and>
    (case find p (S' (hash_list t k)) of
       None \<Rightarrow> \<forall>x\<in>set (buckets t S'). \<not> p x
     | Some x \<Rightarrow> x \<in> set (buckets t S') \<and> p x)"
proof -
  let ?L = "hash_list t (key e)"
  let ?S = "S(?L := S ?L @ [e])"
  have ok: "heap_ok h' ?S" using list_append_ok [OF assms(1,3)] assms(5) by (simp add: hash_append_def)
  have "e \<notin> set (buckets t S)" using heap_ok_free [OF assms(1,3)] by (auto simp: set_buckets)
  from hash_append_ok [OF assms(2) this refl] have hok: "hash_ok t key ?S" .
  obtain i where i: "i < unat (hash_bsize t)" "?L = hash_bucket t + i"
    using hash_list_bound [of t "key e"] assms(2) by (auto simp: hash_ok_def)
  have "set (buckets t ?S) = insert e (set (buckets t S))"
    using i by (auto simp: set_buckets split: if_splits)
  moreover have "\<not> p x" if "find p (?S (hash_list t k)) = None" "x \<in> set (buckets t ?S)" for x
    using that in_bucket [OF hok that(2)] assms(4) [of x] by (auto simp: find_None_iff)
  moreover have "x \<in> set (buckets t ?S) \<and> p x" if "find p (?S (hash_list t k)) = Some x" for x
    using that bucket_in_table [OF hok, of k] by (fastforce simp: find_Some_iff)
  ultimately show ?thesis
    using ok hok hash_lookup_run [of "(h', u)" ?S t k p]
    by (intro exI [of _ ?S]) (auto simp del: fun_upd_apply split: option.split)
qed

theorem hash_append_lookup_witness:
  "\<exists>S'. hash_lookup \<lparr>hash_bucket = 8, hash_bsize = 4\<rparr> 2 (pure_handler (\<lambda>x. x = 7))
      (hash_append \<lparr>hash_bucket = 8, hash_bsize = 4\<rparr> 2 7 (Some 70) heap_123, ()) =
    Some (find (\<lambda>x. x = 7) (S' 10), hash_append \<lparr>hash_bucket = 8, hash_bsize = 4\<rparr> 2 7 (Some 70) heap_123, ())"
  using hash_append_lookup [OF heap_123_ok, of "\<lparr>hash_bucket = 8, hash_bsize = 4\<rparr>" "\<lambda>_. 2" 7
      "\<lambda>x. x = 7" 2 "hash_append \<lparr>hash_bucket = 8, hash_bsize = 4\<rparr> 2 7 (Some 70) heap_123" "Some 70" "()"]
  by (auto simp: hash_ok_def heap_123_free hash_list_def)

text \<open>\<open>hash_valid_size\<close> gives a size that \<open>hash_alloc\<close> accepts: a power of two that is at least
  the requested size (or the largest, 2^31) and the smallest such.\<close>

theorem hash_valid_size_power:
  "\<exists>x \<le> 31. hash_valid_size sz = push_bit x 1 \<and> (sz \<le> push_bit x 1 \<or> x = 31) \<and>
    (x = 0 \<or> push_bit (x - 1) 1 < sz) \<and>
    fst (hash_alloc (Some b) (hash_valid_size sz) h) = 0"
proof -
  let ?x = "valid_size_from 0 sz"
  note b = valid_size_bounds [of 0 sz]
  have "bit (hash_valid_size sz) ?x" using b by (simp add: hash_valid_size_def bit_simps)
  then have "hash_valid_size sz \<noteq> 0" by auto
  then have "fst (hash_alloc (Some b) (hash_valid_size sz) h) = 0"
    using power_and_pred [of ?x, where ?'a = 32] by (simp add: hash_alloc_def hash_valid_size_def)
  then show ?thesis using b by (intro exI [of _ ?x]) (auto simp: hash_valid_size_def)
qed

text \<open>\<open>hash_flush\<close> ends, empties every bucket, leaves other lists alone and gives each element's
  data to \<^verbatim>\<open>mem_deref\<close>, bucket by bucket.\<close>

theorem hash_flush_empties:
  assumes "heap_ok h S"
  shows "\<exists>h'. hash_flush t h = Some (h', map (\<lambda>e. le_data (les h e)) (buckets t S)) \<and>
    heap_ok h' (\<lambda>L. if hash_bucket t \<le> L \<and> L < hash_bucket t + unat (hash_bsize t) then [] else S L)"
  using hash_flush_from_run [OF assms, of t 0 "unat (hash_bsize t)" "[]"]
  by (simp add: hash_flush_def buckets_def map_concat comp_def)

theorem hash_flush_empties_witness:
  "\<exists>h'. hash_flush \<lparr>hash_bucket = 0, hash_bsize = 2\<rparr> heap_123 = Some (h', [Some 10, Some 20, Some 30])"
proof -
  have two: "[0..<2] = [0, Suc 0]" by (simp add: numeral_2_eq_2)
  have "map (\<lambda>e. le_data (les heap_123 e))
      (buckets \<lparr>hash_bucket = 0, hash_bsize = 2\<rparr> ((\<lambda>_. [])(0 := [1, 2, 3]))) = [Some 10, Some 20, Some 30]"
    by (simp add: buckets_def two heap_123_def heap_empty_def list_append_def Let_def upd_le_opt_def)
  then show ?thesis
    using hash_flush_empties [OF heap_123_ok, of "\<lparr>hash_bucket = 0, hash_bsize = 2\<rparr>"] by metis
qed

text \<open>The hash functions agree: the case-insensitive one is the plain one on the lower-case
  string, and those for C strings hash the bytes before the terminator.\<close>

theorem hash_joaat_agree:
  assumes "0 \<notin> set s"
  shows "hash_joaat_ci s = hash_joaat (map tolower s) \<and>
    hash_joaat_str (s @ 0 # r) = Some (hash_joaat s) \<and>
    hash_joaat_str_ci (s @ 0 # r) = Some (hash_joaat_ci s) \<and>
    hash_joaat_pl_ci (Some s) = hash_joaat_pl (Some (map tolower s))"
proof -
  have "joaat_str_loop f (s @ 0 # r) h = Some (fold (\<lambda>c. joaat_step (ucast (f c))) s h)" for f h
    using assms by (induction s arbitrary: h) auto
  moreover have "fold (\<lambda>c. joaat_step (ucast (tolower c))) s h =
      fold (\<lambda>c. joaat_step (ucast c)) (map tolower s) h" for h
    by (simp add: fold_map comp_def)
  ultimately show ?thesis
    by (simp add: hash_joaat_ci_def hash_joaat_def hash_joaat_str_def hash_joaat_str_ci_def
        hash_joaat_pl_def hash_joaat_pl_ci_def)
qed

theorem hash_joaat_agree_witness:
  "hash_joaat_str ([72, 105] @ 0 # [9]) = Some (hash_joaat [72, 105])"
  using hash_joaat_agree [of "[72, 105]" "[9]"] by simp

end
