(* ===== verification/Pl.thy ===== *)
theory Pl
  imports Mbuf HashTable
begin

text \<open>
  Pointer-length strings and C strings: \<^verbatim>\<open>src/fmt/pl.c\<close>, \<^verbatim>\<open>src/fmt/ch.c\<close>, \<^verbatim>\<open>src/fmt/str.c\<close>.

  A \<^verbatim>\<open>struct pl\<close> is the list of the bytes it spans, \<open>None\<close> for \<^verbatim>\<open>pl_null\<close>; pointers into it are
  offsets. A C string is the list of its bytes without the terminator, \<open>None\<close> for \<^verbatim>\<open>NULL\<close>.
\<close>

type_synonym pl = "u8 list option"
type_synonym c_string = "u8 list option"

text \<open>Literals of the code, and the bytes a \<^verbatim>\<open>struct pl\<close> prints.\<close>

definition ascii :: "string \<Rightarrow> u8 list" where "ascii s = map of_char s"

definition crlf :: "u8 list" where "crlf = [13, 10]"

definition pl_bytes :: "pl \<Rightarrow> u8 list" where "pl_bytes p = (case p of None \<Rightarrow> [] | Some s \<Rightarrow> s)"

definition pl_null :: pl where
  "pl_null = None"

definition pl_len :: "pl \<Rightarrow> nat" where
  "pl_len pl = (case pl of None \<Rightarrow> 0 | Some s \<Rightarrow> length s)"

definition pl_set_str :: "pl \<Rightarrow> c_string \<Rightarrow> pl" where
  "pl_set_str pl str = (case str of None \<Rightarrow> pl | Some s \<Rightarrow> Some s)"

definition pl_set_mbuf :: "mbuf \<Rightarrow> pl" where
  "pl_set_mbuf mb = (case mb_buf mb of
     None \<Rightarrow> None
   | Some b \<Rightarrow> Some (take (mbuf_get_left mb) (drop (mb_pos mb) b)))"

subsection \<open>Numbers\<close>

text \<open>The loops run from the last character to the first; so do these, over the reversed string.\<close>

fun dec_loop :: "u8 list \<Rightarrow> 'a::len word \<Rightarrow> 'a word \<Rightarrow> 'a word" where
  "dec_loop [] v m = v"
| "dec_loop (ch # cs) v m = (let c = ch - 48 in
     if c > 9 then 0 else dec_loop cs (v + m * ucast c) (m * 10))"

text \<open>The chain of character tests of \<^verbatim>\<open>pl_x32\<close> and \<^verbatim>\<open>pl_x64\<close>.\<close>

definition hex_digit :: "u8 \<Rightarrow> u8 option" where
  "hex_digit ch =
     (if 48 \<le> ch \<and> ch \<le> 57 then Some (ch - 48)
      else if 65 \<le> ch \<and> ch \<le> 70 then Some (ch - 65 + 10)
      else if 97 \<le> ch \<and> ch \<le> 102 then Some (ch - 97 + 10)
      else None)"

fun hex_loop :: "u8 list \<Rightarrow> 'a::len word \<Rightarrow> 'a word \<Rightarrow> 'a word" where
  "hex_loop [] v m = v"
| "hex_loop (ch # cs) v m = (case hex_digit ch of
     None \<Rightarrow> 0
   | Some c \<Rightarrow> hex_loop cs (v + m * ucast c) (m * 16))"

definition pl_u32 :: "pl \<Rightarrow> u32" where
  "pl_u32 pl = (case pl of None \<Rightarrow> 0 | Some s \<Rightarrow> dec_loop (rev s) 0 1)"

definition pl_x32 :: "pl \<Rightarrow> u32" where
  "pl_x32 pl = (case pl of None \<Rightarrow> 0 | Some s \<Rightarrow> hex_loop (rev s) 0 1)"

definition pl_u64 :: "pl \<Rightarrow> u64" where
  "pl_u64 pl = (case pl of None \<Rightarrow> 0 | Some s \<Rightarrow> dec_loop (rev s) 0 1)"

definition pl_x64 :: "pl \<Rightarrow> u64" where
  "pl_x64 pl = (case pl of None \<Rightarrow> 0 | Some s \<Rightarrow> hex_loop (rev s) 0 1)"

definition ch_hex :: "u8 \<Rightarrow> u8" where
  "ch_hex ch =
     (if 48 \<le> ch \<and> ch \<le> 57 then ch - 48
      else if 65 \<le> ch \<and> ch \<le> 70 then ch - 65 + 10
      else if 97 \<le> ch \<and> ch \<le> 102 then ch - 97 + 10
      else 0)"

subsection \<open>Copies\<close>

definition pl_isset :: "pl \<Rightarrow> bool" where
  "pl_isset pl = (case pl of None \<Rightarrow> False | Some s \<Rightarrow> s \<noteq> [])"

text \<open>\<^verbatim>\<open>pl_strcpy\<close>: what it writes to the start of the destination of \<open>n\<close> bytes.\<close>

definition pl_strcpy :: "pl \<Rightarrow> nat \<Rightarrow> err \<times> u8 list" where
  "pl_strcpy pl n = (case pl of
     None \<Rightarrow> (EINVAL, [])
   | Some s \<Rightarrow> if n = 0 then (EINVAL, []) else (0, take (min (length s) (n - 1)) s @ [0]))"

definition pl_strdup :: "mem_env \<Rightarrow> pl \<Rightarrow> err + u8 list" where
  "pl_strdup E src = (case src of
     None \<Rightarrow> Inl EINVAL
   | Some s \<Rightarrow> if can_alloc E (sz_add (length s) 1) then Inr (s @ [0]) else Inl ENOMEM)"

definition pl_dup :: "mem_env \<Rightarrow> pl \<Rightarrow> err + pl" where
  "pl_dup E src = (case src of
     None \<Rightarrow> Inl EINVAL
   | Some s \<Rightarrow> if can_alloc E (length s) then Inr (Some s) else Inl ENOMEM)"

subsection \<open>Comparison\<close>

text \<open>\<^verbatim>\<open>strncasecmp\<close> in the C locale, as far as equality goes: it stops after a common terminator.\<close>

fun strncasecmp_eq :: "nat \<Rightarrow> u8 list \<Rightarrow> u8 list \<Rightarrow> bool" where
  "strncasecmp_eq (Suc n) (a # as) (b # bs) =
     (tolower a = tolower b \<and> (a = 0 \<or> strncasecmp_eq n as bs))"
| "strncasecmp_eq _ _ _ = True"

text \<open>The shortcuts on identical pointers return what the comparison of the bytes returns, so they
  have no counterpart.\<close>

definition pl_cmp :: "pl \<Rightarrow> pl \<Rightarrow> err" where
  "pl_cmp pl1 pl2 =
     (if pl_len pl1 \<noteq> pl_len pl2 then EINVAL
      else if pl_len pl1 = 0 then 0
      else case (pl1, pl2) of (Some a, Some b) \<Rightarrow> if a = b then 0 else EINVAL | _ \<Rightarrow> EINVAL)"

definition pl_strcmp :: "pl \<Rightarrow> c_string \<Rightarrow> err" where
  "pl_strcmp pl str = (case str of None \<Rightarrow> EINVAL | Some s \<Rightarrow> pl_cmp pl (pl_set_str None (Some s)))"

definition pl_casecmp :: "pl \<Rightarrow> pl \<Rightarrow> err" where
  "pl_casecmp pl1 pl2 =
     (if pl_len pl1 \<noteq> pl_len pl2 then EINVAL
      else if pl_len pl1 = 0 then 0
      else case (pl1, pl2) of
          (Some a, Some b) \<Rightarrow> if strncasecmp_eq (length a) a b then 0 else EINVAL
        | _ \<Rightarrow> EINVAL)"

definition pl_strcasecmp :: "pl \<Rightarrow> c_string \<Rightarrow> err" where
  "pl_strcasecmp pl str =
     (case str of None \<Rightarrow> EINVAL | Some s \<Rightarrow> pl_casecmp pl (pl_set_str None (Some s)))"

fun strchr_loop :: "u8 list \<Rightarrow> u8 \<Rightarrow> nat \<Rightarrow> nat option" where
  "strchr_loop [] c i = None"
| "strchr_loop (x # xs) c i = (if x = c then Some i else strchr_loop xs c (Suc i))"

definition pl_strchr :: "pl \<Rightarrow> u8 \<Rightarrow> nat option" where
  "pl_strchr pl c = (case pl of None \<Rightarrow> None | Some s \<Rightarrow> strchr_loop s c 0)"

subsection \<open>C strings (str.c)\<close>

fun hex_pairs :: "u8 list \<Rightarrow> u8 list" where
  "hex_pairs (a # b # cs) = (push_bit 4 (ch_hex a) + ch_hex b) # hex_pairs cs"
| "hex_pairs _ = []"

definition str_hex :: "nat \<Rightarrow> c_string \<Rightarrow> err \<times> u8 list" where
  "str_hex len str = (case str of
     None \<Rightarrow> (EINVAL, [])
   | Some s \<Rightarrow> if length s \<noteq> sz_mul 2 len then (EINVAL, []) else (0, hex_pairs s))"

text \<open>\<^verbatim>\<open>str_ncpy\<close> fills the whole destination of \<open>n\<close> bytes: \<^verbatim>\<open>strncpy\<close> pads with zeros.\<close>

definition str_ncpy :: "u8 list \<Rightarrow> nat \<Rightarrow> u8 list" where
  "str_ncpy src n =
     (if n = 0 then []
      else take (n - 1) src @ replicate (n - 1 - length src) 0 @ [0])"

definition str_dup :: "mem_env \<Rightarrow> c_string \<Rightarrow> err + u8 list" where
  "str_dup E src = (case src of
     None \<Rightarrow> Inl EINVAL
   | Some s \<Rightarrow> if can_alloc E (sz_add (length s) 1) then Inr (s @ [0]) else Inl ENOMEM)"

text \<open>\<^verbatim>\<open>str_casecmp\<close> is zero when the strings agree up to case.\<close>

definition str_casecmp_eq :: "c_string \<Rightarrow> c_string \<Rightarrow> bool" where
  "str_casecmp_eq s1 s2 = (case (s1, s2) of
     (None, None) \<Rightarrow> True
   | (Some a, Some b) \<Rightarrow> map tolower a = map tolower b
   | _ \<Rightarrow> False)"

definition str_len :: "c_string \<Rightarrow> nat" where
  "str_len s = (case s of None \<Rightarrow> 0 | Some s \<Rightarrow> length s)"

text \<open>A C string read from memory: the bytes before the first zero.\<close>

definition c_str :: "u8 list \<Rightarrow> u8 list" where
  "c_str bs = takeWhile (\<lambda>b. b \<noteq> 0) bs"

subsection \<open>Facts\<close>

text \<open>The numbers that decimal and hexadecimal strings denote, most significant digit first.\<close>

definition is_dec :: "u8 list \<Rightarrow> bool" where
  "is_dec s \<longleftrightarrow> (\<forall>ch \<in> set s. 48 \<le> ch \<and> ch \<le> 57)"

definition dec_value :: "u8 list \<Rightarrow> nat" where
  "dec_value s = foldl (\<lambda>a ch. 10 * a + unat (ch - 48)) 0 s"

definition is_hex :: "u8 list \<Rightarrow> bool" where
  "is_hex s \<longleftrightarrow> (\<forall>ch \<in> set s. hex_digit ch \<noteq> None)"

definition hex_value :: "u8 list \<Rightarrow> nat" where
  "hex_value s = foldl (\<lambda>a ch. 16 * a + unat (ch_hex ch)) 0 s"

lemma digit_range: "(ch - 48 > (9 :: u8)) = (\<not> (48 \<le> ch \<and> ch \<le> 57))"
proof (cases "48 \<le> ch")
  case True
  then have "unat (ch - 48) = unat ch - 48" by (simp add: unat_sub_small word_le_nat_alt)
  with True show ?thesis by (simp add: word_less_nat_alt word_le_nat_alt) linarith
next
  case False
  then have "unat (ch - 48) = 256 + unat ch - 48" by (simp add: unat_diff_wrap linorder_not_le)
  with False show ?thesis by (simp add: word_less_nat_alt word_le_nat_alt)
qed

lemma hex_digit_ch_hex: "hex_digit ch = Some c \<Longrightarrow> ch_hex ch = c"
  by (auto simp: hex_digit_def ch_hex_def split: if_splits)

lemma dec_value_snoc [simp]: "dec_value (s @ [ch]) = 10 * dec_value s + unat (ch - 48)"
  "dec_value [] = 0"
  by (simp_all add: dec_value_def)

lemma hex_value_snoc [simp]: "hex_value (s @ [ch]) = 16 * hex_value s + unat (ch_hex ch)"
  "hex_value [] = 0"
  by (simp_all add: hex_value_def)

lemma dec_loop_value:
  "dec_loop (rev s) v m = (if is_dec s then v + m * of_nat (dec_value s) else 0)"
proof (induction s arbitrary: v m rule: rev_induct)
  case Nil
  then show ?case by (simp add: is_dec_def)
next
  case (snoc ch s)
  then show ?case
    by (simp add: Let_def digit_range is_dec_def algebra_simps)
qed

lemma hex_loop_value:
  "hex_loop (rev s) v m = (if is_hex s then v + m * of_nat (hex_value s) else 0)"
proof (induction s arbitrary: v m rule: rev_induct)
  case Nil
  then show ?case by (simp add: is_hex_def)
next
  case (snoc ch s)
  then show ?case
    by (auto simp: is_hex_def hex_digit_ch_hex algebra_simps split: option.splits)
qed

lemma strncasecmp_eq_lower:
  "length a = length b \<Longrightarrow> 0 \<notin> set a \<Longrightarrow> strncasecmp_eq (length a) a b = (map tolower a = map tolower b)"
proof (induction a b rule: list_induct2)
  case (Cons x xs y ys)
  then show ?case by auto
qed simp

lemma strchr_loop_spec:
  "strchr_loop xs c i = (if c \<in> set xs then Some (i + length (takeWhile (\<lambda>x. x \<noteq> c) xs)) else None)"
  by (induction xs arbitrary: i) auto

subsection \<open>Properties\<close>

text \<open>The number parsers compute what the digits denote, modulo the width of the result; a
  string with any other character gives 0 (as does \<^verbatim>\<open>pl_null\<close>).\<close>

theorem pl_numbers:
  "pl_u32 (Some s) = (if is_dec s then of_nat (dec_value s) else 0) \<and>
   pl_u64 (Some s) = (if is_dec s then of_nat (dec_value s) else 0) \<and>
   pl_x32 (Some s) = (if is_hex s then of_nat (hex_value s) else 0) \<and>
   pl_x64 (Some s) = (if is_hex s then of_nat (hex_value s) else 0)"
  by (simp_all add: pl_u32_def pl_u64_def pl_x32_def pl_x64_def dec_loop_value hex_loop_value)

end
