(* ===== verification/Rtcp.thy ===== *)
theory Rtcp
  imports Pad Pl
begin

text \<open>
  RTCP packets: \<^verbatim>\<open>src/rtp/pkt.c\<close>, \<^verbatim>\<open>rr.c\<close>, \<^verbatim>\<open>sdes.c\<close> and \<^verbatim>\<open>fb.c\<close>. A packet is a header and what the type makes of the
  rest. Encoders that may run for ever, and the handlers they call, are functions on the buffer into an option.
\<close>

subsection \<open>Headers and reports\<close>

record rtcp_hdr =
  rc_version :: u8
  rc_p :: bool
  rc_count :: u8
  rc_pt :: u8
  rc_length :: u16

definition RTCP_VERSION :: u8 where "RTCP_VERSION = 2"
definition RTCP_HDR_SIZE :: nat where "RTCP_HDR_SIZE = 4"
definition RTCP_FIR :: u8 where "RTCP_FIR = 192"
definition RTCP_NACK :: u8 where "RTCP_NACK = 193"
definition RTCP_SR :: u8 where "RTCP_SR = 200"
definition RTCP_RR :: u8 where "RTCP_RR = 201"
definition RTCP_SDES :: u8 where "RTCP_SDES = 202"
definition RTCP_BYE :: u8 where "RTCP_BYE = 203"
definition RTCP_APP :: u8 where "RTCP_APP = 204"
definition RTCP_RTPFB :: u8 where "RTCP_RTPFB = 205"
definition RTCP_PSFB :: u8 where "RTCP_PSFB = 206"

lemmas rtcp_types = RTCP_FIR_def RTCP_NACK_def RTCP_SR_def RTCP_RR_def RTCP_SDES_def RTCP_BYE_def RTCP_APP_def
  RTCP_RTPFB_def RTCP_PSFB_def

definition rtcp_hdr_encode :: "mem_env \<Rightarrow> u8 \<Rightarrow> u8 \<Rightarrow> u16 \<Rightarrow> (mbuf, err) state" where
  "rtcp_hdr_encode E cnt type len = do {
     e1 \<leftarrow> mbuf_write_u8 E (push_bit 6 RTCP_VERSION OR cnt);
     e2 \<leftarrow> mbuf_write_u8 E type;
     e3 \<leftarrow> mbuf_write_u16 E (htons len);
     State_Monad.return (e1 OR e2 OR e3) }"

text \<open>A decoder that needs \<open>k\<close> bytes.\<close>

definition need :: "nat \<Rightarrow> (mbuf, err + 'a) state \<Rightarrow> (mbuf, err + 'a) state" where
  "need k m = do { mb \<leftarrow> State_Monad.get; (if mbuf_get_left mb < k then State_Monad.return (Inl EBADMSG) else m) }"

definition rd32 :: "(mbuf, u32) state" where "rd32 = do { w \<leftarrow> mbuf_read_u32; State_Monad.return (htonl w) }"
definition rd16 :: "(mbuf, u16) state" where "rd16 = do { w \<leftarrow> mbuf_read_u16; State_Monad.return (htons w) }"

definition rtcp_hdr_decode :: "(mbuf, err + rtcp_hdr) state" where
  "rtcp_hdr_decode = need RTCP_HDR_SIZE (do {
     b \<leftarrow> mbuf_read_u8;
     pt \<leftarrow> mbuf_read_u8;
     len \<leftarrow> rd16;
     State_Monad.return (Inr \<lparr>rc_version = drop_bit 6 b AND 3, rc_p = (drop_bit 5 b AND 1 \<noteq> 0), rc_count = b AND 0x1f,
       rc_pt = pt, rc_length = len\<rparr>) })"

text \<open>\<open>rr_lost\<close> is a signed number of 24 bits, here sign extended.\<close>

record rtcp_rr =
  rr_ssrc :: u32
  rr_fraction :: u8
  rr_lost :: u32
  rr_last_seq :: u32
  rr_jitter :: u32
  rr_lsr :: u32
  rr_dlsr :: u32

definition RTCP_RR_SIZE :: nat where "RTCP_RR_SIZE = 24"

definition rtcp_rr_encode :: "mem_env \<Rightarrow> rtcp_rr \<Rightarrow> (mbuf, err) state" where
  "rtcp_rr_encode E rr = do {
     e1 \<leftarrow> mbuf_write_u32 E (htonl (rr_ssrc rr));
     e2 \<leftarrow> mbuf_write_u32 E (htonl (push_bit 24 (ucast (rr_fraction rr)) OR (rr_lost rr AND 0x00ffffff)));
     e3 \<leftarrow> mbuf_write_u32 E (htonl (rr_last_seq rr));
     e4 \<leftarrow> mbuf_write_u32 E (htonl (rr_jitter rr));
     e5 \<leftarrow> mbuf_write_u32 E (htonl (rr_lsr rr));
     e6 \<leftarrow> mbuf_write_u32 E (htonl (rr_dlsr rr));
     State_Monad.return (e1 OR e2 OR e3 OR e4 OR e5 OR e6) }"

definition rtcp_rr_decode :: "(mbuf, err + rtcp_rr) state" where
  "rtcp_rr_decode = need RTCP_RR_SIZE (do {
     s \<leftarrow> rd32;
     w \<leftarrow> rd32;
     q \<leftarrow> rd32;
     j \<leftarrow> rd32;
     l \<leftarrow> rd32;
     d \<leftarrow> rd32;
     State_Monad.return (Inr \<lparr>rr_ssrc = s, rr_fraction = ucast (drop_bit 24 w), rr_lost = signed_take_bit 23 (w AND 0x00ffffff),
       rr_last_seq = q, rr_jitter = j, rr_lsr = l, rr_dlsr = d\<rparr>) })"

fun rtcp_rrs_decode :: "nat \<Rightarrow> (mbuf, err + rtcp_rr list) state" where
  "rtcp_rrs_decode 0 = State_Monad.return (Inr [])"
| "rtcp_rrs_decode (Suc n) = do {
     r \<leftarrow> rtcp_rr_decode;
     (case r of
        Inl err \<Rightarrow> State_Monad.return (Inl err)
      | Inr rr \<Rightarrow> do {
          rs \<leftarrow> rtcp_rrs_decode n;
          State_Monad.return (map_sum id ((#) rr) rs) }) }"

subsection \<open>Source descriptions\<close>

text \<open>An item is its type and its text, whose length is kept in a byte.\<close>

type_synonym sdes_item = "u8 \<times> u8 list"

record rtcp_sdes =
  sd_src :: u32
  sd_items :: "sdes_item list"

definition RTCP_SDES_END :: u8 where "RTCP_SDES_END = 0"
definition sizeof_sdes_item :: nat where "sizeof_sdes_item = 12"
definition sizeof_sdes :: nat where "sizeof_sdes = 12"

text \<open>The loop over the items; \<open>True\<close> when it was left by the jump behind the padding.\<close>

fun sdes_items :: "mem_env \<Rightarrow> err \<Rightarrow> (u8 \<times> c_string) list \<Rightarrow> (mbuf, err \<times> bool) state" where
  "sdes_items E err [] = State_Monad.return (err, False)"
| "sdes_items E err ((type, v) # is) =
     (if err \<noteq> 0 then State_Monad.return (err, False)
      else case v of
        None \<Rightarrow> sdes_items E err is
      | Some s \<Rightarrow>
          if length s > 255 then State_Monad.return (EINVAL, True)
          else do {
            e1 \<leftarrow> mbuf_write_u8 E type;
            e2 \<leftarrow> mbuf_write_u8 E (of_nat (length s) AND 0xff);
            e3 \<leftarrow> mbuf_write_mem E (Some s);
            sdes_items E (e1 OR e2 OR e3) is })"

definition rtcp_sdes_encode :: "mem_env \<Rightarrow> u32 \<Rightarrow> (u8 \<times> c_string) list \<Rightarrow> mbuf \<Rightarrow> (err \<times> mbuf) option" where
  "rtcp_sdes_encode E src items mb =
     (if items = [] then Some (EINVAL, mb)
      else case run_state (do { e \<leftarrow> mbuf_write_u32 E (htonl src); sdes_items E e items }) mb of ((err, out), t) \<Rightarrow>
        if out then Some (err, t)
        else case run_state (mbuf_write_u8 E RTCP_SDES_END) t of (e, t) \<Rightarrow> pad_loop E (mb_pos mb) RTCP_SDES_END (err OR e) t)"

definition RTCP_SRC_SIZE :: nat where "RTCP_SRC_SIZE = 4"
definition RTCP_SDES_MIN_SIZE :: nat where "RTCP_SDES_MIN_SIZE = 1"

text \<open>One round: \<open>Inl\<close> leaves the loop (with an error or without), \<open>Inr\<close> is an item.\<close>

definition sdes_item_decode :: "mem_env \<Rightarrow> nat \<Rightarrow> (mbuf, err + sdes_item) state" where
  "sdes_item_decode E n = do {
     type \<leftarrow> mbuf_read_u8;
     (if type = RTCP_SDES_END then State_Monad.return (Inl 0)
      else need 1 (if \<not> can_alloc E ((n + 1) * sizeof_sdes_item) then State_Monad.return (Inl ENOMEM)
        else do {
          len \<leftarrow> mbuf_read_u8;
          need (unat len) (if \<not> can_alloc E (unat len) then State_Monad.return (Inl ENOMEM)
            else do {
              (_, s) \<leftarrow> mbuf_read_mem (unat len);
              State_Monad.return (Inr (type, s)) }) })) }"

partial_function (option) sdes_loop :: "mem_env \<Rightarrow> sdes_item list \<Rightarrow> mbuf \<Rightarrow> ((err \<times> sdes_item list) \<times> mbuf) option" where
  "sdes_loop E items mb =
     (if mbuf_get_left mb \<ge> RTCP_SDES_MIN_SIZE
      then (case run_state (sdes_item_decode E (length items)) mb of
          (Inl err, mb) \<Rightarrow> Some ((err, items), mb)
        | (Inr it, mb) \<Rightarrow> sdes_loop E (items @ [it]) mb)
      else Some ((0, items), mb))"

definition rtcp_sdes_decode :: "mem_env \<Rightarrow> mbuf \<Rightarrow> ((err + rtcp_sdes) \<times> mbuf) option" where
  "rtcp_sdes_decode E mb =
     (if mbuf_get_left mb < RTCP_SRC_SIZE then Some (Inl EBADMSG, mb)
      else case run_state rd32 mb of (src, t) \<Rightarrow>
        (case sdes_loop E [] t of
           None \<Rightarrow> None
         | Some ((err, items), t) \<Rightarrow>
             if err \<noteq> 0 then Some (Inl err, t)
             else Some (Inr \<lparr>sd_src = src, sd_items = items\<rparr>, pad_skip (mb_pos mb) t)))"

fun sdes_chunks :: "mem_env \<Rightarrow> nat \<Rightarrow> mbuf \<Rightarrow> ((err + rtcp_sdes list) \<times> mbuf) option" where
  "sdes_chunks E 0 mb = Some (Inr [], mb)"
| "sdes_chunks E (Suc n) mb = (case rtcp_sdes_decode E mb of
     None \<Rightarrow> None
   | Some (Inl err, mb) \<Rightarrow> Some (Inl err, mb)
   | Some (Inr s, mb) \<Rightarrow> map_option (apfst (map_sum id ((#) s))) (sdes_chunks E n mb))"

subsection \<open>Feedback\<close>

definition rtcp_rtpfb_gnack_encode :: "mem_env \<Rightarrow> u16 \<Rightarrow> u16 \<Rightarrow> (mbuf, err) state" where
  "rtcp_rtpfb_gnack_encode E pid blp = do {
     e1 \<leftarrow> mbuf_write_u16 E (htons pid);
     e2 \<leftarrow> mbuf_write_u16 E (htons blp);
     State_Monad.return (e1 OR e2) }"

definition rtcp_psfb_sli_encode :: "mem_env \<Rightarrow> u16 \<Rightarrow> u16 \<Rightarrow> u8 \<Rightarrow> (mbuf, err) state" where
  "rtcp_psfb_sli_encode E first number picid =
     mbuf_write_u32 E (htonl (push_bit 19 (ucast first) OR push_bit 6 (ucast number) OR ucast picid))"

datatype fci = FciNone | Gnacks "(u16 \<times> u16) list" | Slis "(u16 \<times> u16 \<times> u8) list"

fun gnacks_decode :: "nat \<Rightarrow> (mbuf, (u16 \<times> u16) list) state" where
  "gnacks_decode 0 = State_Monad.return []"
| "gnacks_decode (Suc n) = do { pid \<leftarrow> rd16; blp \<leftarrow> rd16; r \<leftarrow> gnacks_decode n; State_Monad.return ((pid, blp) # r) }"

fun slis_decode :: "nat \<Rightarrow> (mbuf, (u16 \<times> u16 \<times> u8) list) state" where
  "slis_decode 0 = State_Monad.return []"
| "slis_decode (Suc n) = do {
     v \<leftarrow> rd32;
     r \<leftarrow> slis_decode n;
     State_Monad.return ((ucast (drop_bit 19 v AND 0x1fff), ucast (drop_bit 6 v AND 0x1fff), ucast (v AND 0x3f)) # r) }"

definition RTCP_RTPFB_GNACK :: u8 where "RTCP_RTPFB_GNACK = 1"
definition RTCP_PSFB_PLI :: u8 where "RTCP_PSFB_PLI = 1"
definition RTCP_PSFB_SLI :: u8 where "RTCP_PSFB_SLI = 2"
definition sizeof_gnack :: nat where "sizeof_gnack = 4"
definition sizeof_sli :: nat where "sizeof_sli = 6"

text \<open>\<open>n\<close> has 32 bits, and so have the products with it.\<close>

definition rtcp_rtpfb_decode :: "mem_env \<Rightarrow> u8 \<Rightarrow> u32 \<Rightarrow> (mbuf, err + fci) state" where
  "rtcp_rtpfb_decode E cnt n =
     (if cnt = RTCP_RTPFB_GNACK then
        (if \<not> can_alloc E (sz_mul (unat n) sizeof_gnack) then State_Monad.return (Inl ENOMEM)
         else need (unat (n * 4)) (do { r \<leftarrow> gnacks_decode (unat n); State_Monad.return (Inr (Gnacks r)) }))
      else State_Monad.return (Inr FciNone))"

definition rtcp_psfb_decode :: "mem_env \<Rightarrow> u8 \<Rightarrow> u32 \<Rightarrow> (mbuf, err + fci) state" where
  "rtcp_psfb_decode E cnt n =
     (if cnt = RTCP_PSFB_PLI then State_Monad.return (Inr FciNone)
      else if cnt = RTCP_PSFB_SLI then
        (if \<not> can_alloc E (sz_mul (unat n) sizeof_sli) then State_Monad.return (Inl ENOMEM)
         else need (unat (n * 4)) (do { r \<leftarrow> slis_decode (unat n); State_Monad.return (Inr (Slis r)) }))
      else State_Monad.return (Inr FciNone))"

subsection \<open>Encoding a packet\<close>

text \<open>What \<^verbatim>\<open>rtcp_encode\<close> takes after the type and the count; a handler writes the variable part.\<close>

type_synonym ench = "(mbuf \<Rightarrow> (err \<times> mbuf) option) option"

datatype rtcp_args =
    SrArgs u32 u32 u32 u32 u32 u32 ench
  | RrArgs u32 ench
  | SdesArgs ench
  | ByeArgs "u32 list" c_string
  | AppArgs u32 "u8 list" "u8 list option"
  | FirArgs u32
  | NackArgs u32 u32 u32
  | RtpfbArgs u32 u32 ench
  | PsfbArgs u32 u32 ench
  | OtherArgs u8

fun args_type :: "rtcp_args \<Rightarrow> u8" where
  "args_type (SrArgs a b c d e f h) = RTCP_SR"
| "args_type (RrArgs a h) = RTCP_RR"
| "args_type (SdesArgs h) = RTCP_SDES"
| "args_type (ByeArgs s r) = RTCP_BYE"
| "args_type (AppArgs s n d) = RTCP_APP"
| "args_type (FirArgs s) = RTCP_FIR"
| "args_type (NackArgs s f b) = RTCP_NACK"
| "args_type (RtpfbArgs p m h) = RTCP_RTPFB"
| "args_type (PsfbArgs p m h) = RTCP_PSFB"
| "args_type (OtherArgs t) = t"

definition call_ench :: "ench \<Rightarrow> err \<times> mbuf \<Rightarrow> (err \<times> mbuf) option" where
  "call_ench h r = (case r of (err, mb) \<Rightarrow> (case h of
     None \<Rightarrow> Some (err, mb)
   | Some f \<Rightarrow> map_option (apfst ((OR) err)) (f mb)))"

fun write_list :: "mem_env \<Rightarrow> u32 list \<Rightarrow> (mbuf, err) state" where
  "write_list E [] = State_Monad.return 0"
| "write_list E (w # ws) = do {
     e \<leftarrow> mbuf_write_u32 E (htonl w);
     e' \<leftarrow> write_list E ws;
     State_Monad.return (e OR e') }"

text \<open>The sources of a goodbye; an index past the array is a fault.\<close>

fun bye_loop :: "mem_env \<Rightarrow> u32 list \<Rightarrow> nat \<Rightarrow> nat \<Rightarrow> (mbuf, err) state" where
  "bye_loop E srcv i 0 = State_Monad.return 0"
| "bye_loop E srcv i (Suc n) = do {
     e \<leftarrow> (if i < length srcv then mbuf_write_u32 E (htonl (srcv ! i))
          else do { State_Monad.update (\<lambda>mb. mb\<lparr>mb_fault := True\<rparr>); State_Monad.return 0 });
     (if e \<noteq> 0 then State_Monad.return e else bye_loop E srcv (Suc i) n) }"

definition bye_encode :: "mem_env \<Rightarrow> u32 \<Rightarrow> u32 list \<Rightarrow> c_string \<Rightarrow> (mbuf, err) state" where
  "bye_encode E cnt srcv reason = do {
     e \<leftarrow> bye_loop E srcv 0 (unat cnt);
     (case reason of
        None \<Rightarrow> State_Monad.return e
      | Some s \<Rightarrow> do {
          e1 \<leftarrow> mbuf_write_u8 E (of_nat (length s));
          e2 \<leftarrow> mbuf_write_str E (Some s);
          State_Monad.return (e OR e1 OR e2) }) }"

definition app_encode :: "mem_env \<Rightarrow> u32 \<Rightarrow> u8 list \<Rightarrow> u8 list option \<Rightarrow> (mbuf, err) state" where
  "app_encode E src name d = do {
     e1 \<leftarrow> mbuf_write_u32 E (htonl src);
     e2 \<leftarrow> mbuf_write_mem E (Some name);
     (case d of
        None \<Rightarrow> State_Monad.return (e1 OR e2)
      | Some bs \<Rightarrow>
          if length bs mod 4 \<noteq> 0 then State_Monad.return EBADMSG
          else do { e3 \<leftarrow> mbuf_write_mem E (Some bs); State_Monad.return (e1 OR e2 OR e3) }) }"

fun rtcp_payload :: "mem_env \<Rightarrow> u32 \<Rightarrow> rtcp_args \<Rightarrow> mbuf \<Rightarrow> (err \<times> mbuf) option" where
  "rtcp_payload E cnt (SrArgs a b c d e f h) mb = call_ench h (run_state (write_list E [a, b, c, d, e, f]) mb)"
| "rtcp_payload E cnt (RrArgs a h) mb = call_ench h (run_state (mbuf_write_u32 E (htonl a)) mb)"
| "rtcp_payload E cnt (SdesArgs h) mb = call_ench h (0, mb)"
| "rtcp_payload E cnt (ByeArgs srcv reason) mb = Some (run_state (bye_encode E cnt srcv reason) mb)"
| "rtcp_payload E cnt (AppArgs src name d) mb = Some (run_state (app_encode E src name d) mb)"
| "rtcp_payload E cnt (FirArgs a) mb = Some (run_state (mbuf_write_u32 E (htonl a)) mb)"
| "rtcp_payload E cnt (NackArgs a fsn blp) mb = Some (run_state (do {
     e1 \<leftarrow> mbuf_write_u32 E (htonl a);
     e2 \<leftarrow> mbuf_write_u16 E (htons (ucast fsn));
     e3 \<leftarrow> mbuf_write_u16 E (htons (ucast blp));
     State_Monad.return (e1 OR e2 OR e3) }) mb)"
| "rtcp_payload E cnt (RtpfbArgs p m h) mb = call_ench h (run_state (write_list E [p, m]) mb)"
| "rtcp_payload E cnt (PsfbArgs p m h) mb = call_ench h (run_state (write_list E [p, m]) mb)"
| "rtcp_payload E cnt (OtherArgs t) mb = Some (EINVAL, mb)"

text \<open>The padding runs on the end of the buffer. As in the loop on the position, a failing write changes nothing and the
  loop goes on for ever.\<close>

partial_function (option) end_pad :: "mem_env \<Rightarrow> nat \<Rightarrow> err \<Rightarrow> mbuf \<Rightarrow> (err \<times> mbuf) option" where
  "end_pad E pos err mb =
     (if sz_sub (mb_end mb) pos mod 4 \<noteq> 0
      then end_pad E pos (err OR fst (run_state (mbuf_write_u8 E 0) mb)) (snd (run_state (mbuf_write_u8 E 0) mb))
      else Some (err, mb))"

definition rtcp_vencode :: "mem_env \<Rightarrow> u32 \<Rightarrow> rtcp_args \<Rightarrow> mbuf \<Rightarrow> (err \<times> mbuf) option" where
  "rtcp_vencode E cnt args mb = (let pos = mb_pos mb; p4 = sz_add pos RTCP_HDR_SIZE in do {
     (err, t) \<leftarrow> rtcp_payload E cnt args (mb\<lparr>mb_pos := p4, mb_end := p4\<rparr>);
     (if err \<noteq> 0 then Some (err, t)
      else do {
        (err, t) \<leftarrow> end_pad E pos 0 t;
        (if err \<noteq> 0 then Some (err, t)
         else let len = of_nat (sz_sub (sz_sub (mb_end t) pos) RTCP_HDR_SIZE div 4) in
           case run_state (rtcp_hdr_encode E (ucast cnt) (args_type args) len) (t\<lparr>mb_pos := pos\<rparr>) of (err, t) \<Rightarrow>
             if err \<noteq> 0 then Some (err, t) else Some (0, t\<lparr>mb_pos := mb_end t\<rparr>)) }) })"

definition rtcp_encode :: "mem_env \<Rightarrow> u32 \<Rightarrow> rtcp_args \<Rightarrow> mbuf \<Rightarrow> (err \<times> mbuf) option" where
  "rtcp_encode E cnt args mb = rtcp_vencode E cnt args mb"

subsection \<open>Decoding a packet\<close>

datatype rtcp_body =
    Sr u32 u32 u32 u32 u32 u32 "rtcp_rr list"
  | Rr u32 "rtcp_rr list"
  | Sdes "rtcp_sdes list"
  | Bye "u32 list" c_string
  | App u32 "u8 list" "u8 list"
  | Fir u32
  | Nack u32 u16 u16
  | Fb u32 u32 u32 fci
  | NoBody

record rtcp_msg =
  rm_hdr :: rtcp_hdr
  rm_body :: rtcp_body

definition sizeof_rtcp_msg :: nat where "sizeof_rtcp_msg = 32"
definition sizeof_rtcp_rr :: nat where "sizeof_rtcp_rr = 24"
definition RTCP_SR_SIZE :: nat where "RTCP_SR_SIZE = 20"
definition RTCP_APP_SIZE :: nat where "RTCP_APP_SIZE = 8"
definition RTCP_FIR_SIZE :: nat where "RTCP_FIR_SIZE = 4"
definition RTCP_NACK_SIZE :: nat where "RTCP_NACK_SIZE = 8"
definition RTCP_FB_SIZE :: nat where "RTCP_FB_SIZE = 8"

lemmas rtcp_sizes = RTCP_HDR_SIZE_def RTCP_SRC_SIZE_def RTCP_SR_SIZE_def RTCP_RR_SIZE_def RTCP_APP_SIZE_def RTCP_FIR_SIZE_def
  RTCP_NACK_SIZE_def RTCP_FB_SIZE_def RTCP_SDES_MIN_SIZE_def sizeof_rtcp_msg_def sizeof_rtcp_rr_def sizeof_sdes_item_def
  sizeof_sdes_def sizeof_gnack_def sizeof_sli_def

definition rtcp_rr_alloc :: "mem_env \<Rightarrow> nat \<Rightarrow> err" where
  "rtcp_rr_alloc E cnt = (if can_alloc E (cnt * sizeof_rtcp_rr) then 0 else ENOMEM)"

definition rrv_decode :: "mem_env \<Rightarrow> nat \<Rightarrow> (rtcp_rr list \<Rightarrow> rtcp_body) \<Rightarrow> (mbuf, err + rtcp_body) state" where
  "rrv_decode E cnt f =
     (if rtcp_rr_alloc E cnt \<noteq> 0 then State_Monad.return (Inl (rtcp_rr_alloc E cnt))
      else do { rs \<leftarrow> rtcp_rrs_decode cnt; State_Monad.return (map_sum id f rs) })"

fun read_list :: "nat \<Rightarrow> (mbuf, u32 list) state" where
  "read_list 0 = State_Monad.return []"
| "read_list (Suc n) = do { v \<leftarrow> rd32; vs \<leftarrow> read_list n; State_Monad.return (v # vs) }"

definition bye_decode :: "mem_env \<Rightarrow> nat \<Rightarrow> nat \<Rightarrow> (mbuf, err + rtcp_body) state" where
  "bye_decode E cnt rem =
     (if \<not> can_alloc E (cnt * 4) then State_Monad.return (Inl ENOMEM)
      else need (cnt * 4) (do {
        srcv \<leftarrow> read_list cnt;
        (if rem > cnt * 4 then do {
           len \<leftarrow> mbuf_read_u8;
           need (unat len) (do {
             (err, s) \<leftarrow> mbuf_strdup E (unat len);
             State_Monad.return (if err \<noteq> 0 then Inl err else Inr (Bye srcv (Some s))) }) }
         else State_Monad.return (Inr (Bye srcv None))) }))"

definition app_decode :: "mem_env \<Rightarrow> nat \<Rightarrow> (mbuf, err + rtcp_body) state" where
  "app_decode E rem = need RTCP_APP_SIZE (do {
     src \<leftarrow> rd32;
     (_, name) \<leftarrow> mbuf_read_mem 4;
     (if rem > RTCP_APP_SIZE then
        (if \<not> can_alloc E (rem - RTCP_APP_SIZE) then State_Monad.return (Inl ENOMEM)
         else need (rem - RTCP_APP_SIZE) (do {
           (_, d) \<leftarrow> mbuf_read_mem (rem - RTCP_APP_SIZE);
           State_Monad.return (Inr (App src name d)) }))
      else State_Monad.return (Inr (App src name []))) })"

definition fb_decode :: "(u32 \<Rightarrow> (mbuf, err + fci) state) \<Rightarrow> u16 \<Rightarrow> (mbuf, err + rtcp_body) state" where
  "fb_decode dec len = need RTCP_FB_SIZE (do {
     p \<leftarrow> rd32;
     m \<leftarrow> rd32;
     let n = ucast len - 2;
     r \<leftarrow> dec n;
     State_Monad.return (map_sum id (Fb p m n) r) })"

definition rtcp_body_decode :: "mem_env \<Rightarrow> rtcp_hdr \<Rightarrow> nat \<Rightarrow> (mbuf, err + rtcp_body) state" where
  "rtcp_body_decode E hdr rem = (let cnt = unat (rc_count hdr); pt = rc_pt hdr in
     if pt = RTCP_SR then need (RTCP_SRC_SIZE + RTCP_SR_SIZE) (do {
       a \<leftarrow> rd32; b \<leftarrow> rd32; c \<leftarrow> rd32; d \<leftarrow> rd32; e \<leftarrow> rd32; f \<leftarrow> rd32;
       rrv_decode E cnt (Sr a b c d e f) })
     else if pt = RTCP_RR then need RTCP_SRC_SIZE (do { a \<leftarrow> rd32; rrv_decode E cnt (Rr a) })
     else if pt = RTCP_BYE then bye_decode E cnt rem
     else if pt = RTCP_APP then app_decode E rem
     else if pt = RTCP_FIR then need RTCP_FIR_SIZE (do { a \<leftarrow> rd32; State_Monad.return (Inr (Fir a)) })
     else if pt = RTCP_NACK then need RTCP_NACK_SIZE (do {
       a \<leftarrow> rd32; f \<leftarrow> rd16; b \<leftarrow> rd16; State_Monad.return (Inr (Nack a f b)) })
     else if pt = RTCP_RTPFB then fb_decode (rtcp_rtpfb_decode E (rc_count hdr)) (rc_length hdr)
     else if pt = RTCP_PSFB then fb_decode (rtcp_psfb_decode E (rc_count hdr)) (rc_length hdr)
     else do { _ \<leftarrow> mbuf_advance rem; State_Monad.return (Inr NoBody) })"

definition sdesv_decode :: "mem_env \<Rightarrow> nat \<Rightarrow> mbuf \<Rightarrow> ((err + rtcp_body) \<times> mbuf) option" where
  "sdesv_decode E cnt mb =
     (if cnt = 0 then Some (Inr (Sdes []), mb)
      else if \<not> can_alloc E (cnt * sizeof_sdes) then Some (Inl ENOMEM, mb)
      else map_option (apfst (map_sum id Sdes)) (sdes_chunks E cnt mb))"

definition rtcp_decode :: "mem_env \<Rightarrow> mbuf \<Rightarrow> ((err + rtcp_msg) \<times> mbuf) option" where
  "rtcp_decode E mb =
     (if mbuf_get_left mb < RTCP_HDR_SIZE then Some (Inl EBADMSG, mb)
      else if \<not> can_alloc E sizeof_rtcp_msg then Some (Inl ENOMEM, mb)
      else case run_state rtcp_hdr_decode mb of
        (Inl err, t) \<Rightarrow> Some (Inl err, t)
      | (Inr hdr, t) \<Rightarrow>
          if rc_version hdr \<noteq> RTCP_VERSION then Some (Inl EBADMSG, t)
          else let rem = unat (rc_length hdr) * 4 in
            if mbuf_get_left t < rem then Some (Inl EBADMSG, t)
            else case (if rc_pt hdr = RTCP_SDES then sdesv_decode E (unat (rc_count hdr)) t
                       else Some (run_state (rtcp_body_decode E hdr rem) t)) of
                None \<Rightarrow> None
              | Some (Inl err, t) \<Rightarrow> Some (Inl err, t)
              | Some (Inr body, t) \<Rightarrow> Some (Inr \<lparr>rm_hdr = hdr, rm_body = body\<rparr>, pad_skip (mb_pos mb) t))"

subsection \<open>Decoders of given bytes\<close>

text \<open>\<open>decodes m xs v\<close>: with \<open>xs\<close> before it \<open>m\<close> returns \<open>v\<close> and moves behind \<open>xs\<close>.\<close>

definition decodes :: "(mbuf, 'a) state \<Rightarrow> u8 list \<Rightarrow> 'a \<Rightarrow> bool" where
  "decodes m xs v \<longleftrightarrow> (\<forall>mb r. mbuf_ok mb \<longrightarrow> mbuf_rest mb = xs @ r \<longrightarrow> run_state m mb = (v, adv (length xs) mb))"

lemma decodes_return: "decodes (State_Monad.return v) [] v"
  by (simp add: decodes_def)

lemma decodes_bind:
  assumes "decodes m xs v" "decodes (f v) ys w"
  shows "decodes (State_Monad.bind m f) (xs @ ys) w"
  unfolding decodes_def
proof (intro allI impI)
  fix mb r assume mb: "mbuf_ok mb" "mbuf_rest mb = (xs @ ys) @ r"
  then have "mbuf_ok (adv (length xs) mb)" "mbuf_rest (adv (length xs) mb) = ys @ r" by (simp_all add: mb_simps)
  then have "run_state (f v) (adv (length xs) mb) = (w, adv (length ys) (adv (length xs) mb))"
    using assms(2) unfolding decodes_def by blast
  moreover have "run_state m mb = (v, adv (length xs) mb)" using assms(1) mb unfolding decodes_def by simp
  ultimately show "run_state (State_Monad.bind m f) mb = (w, adv (length (xs @ ys)) mb)" by simp
qed

lemma decodes_need: "k \<le> length xs \<Longrightarrow> decodes m xs v \<Longrightarrow> decodes (need k m) xs v"
  by (simp add: decodes_def need_def mb_simps)

lemma decodes_ints: "decodes mbuf_read_u8 [b] b" "decodes rd16 (be16 v) v" "decodes rd32 (be32 w) w"
  by (simp_all add: decodes_def rd16_def rd32_def mb_simps byte_simps)

lemma decodes_mem: "n = length xs \<Longrightarrow> decodes (mbuf_read_mem n) xs (0, xs)"
  by (simp add: decodes_def mb_simps)

lemma decodes_cong: "decodes m xs v \<Longrightarrow> xs = ys \<Longrightarrow> v = w \<Longrightarrow> decodes m ys w"
  by simp

lemmas decodes_rules = decodes_bind decodes_return decodes_ints decodes_mem

subsection \<open>Appending\<close>

text \<open>Encoders that write at the end of the buffer.\<close>

definition app :: "mbuf \<Rightarrow> u8 list \<Rightarrow> mbuf \<Rightarrow> bool" where
  "app mb xs mb' \<longleftrightarrow> mbuf_ok mb' \<and> mb_pos mb' = mb_end mb' \<and> mbuf_content mb' = mbuf_content mb @ xs"

definition appends :: "(mbuf \<Rightarrow> (err \<times> mbuf) option) \<Rightarrow> u8 list \<Rightarrow> bool" where
  "appends f xs \<longleftrightarrow> (\<forall>mb. mbuf_ok mb \<longrightarrow> mb_pos mb = mb_end mb \<longrightarrow> mb_pos mb + length xs < size_mod \<longrightarrow>
     (\<exists>mb'. f mb = Some (0, mb') \<and> app mb xs mb'))"

lemma app_end: "mbuf_ok mb \<Longrightarrow> app mb xs mb' \<Longrightarrow> mb_end mb' = mb_end mb + length xs"
  using length_mbuf_content [of mb] length_mbuf_content [of mb'] by (auto simp: app_def mbuf_ok_def)

lemma app_trans: "app mb xs mb1 \<Longrightarrow> app mb1 ys mb2 \<Longrightarrow> app mb (xs @ ys) mb2"
  by (simp add: app_def)

lemma wrote_app:
  assumes "mbuf_ok mb" "mb_pos mb = mb_end mb" "wrote mb xs mb'"
  shows "app mb xs mb'"
proof -
  have "length (mbuf_content mb) = mb_end mb" using assms(1) by (simp add: mbuf_ok_def)
  then have c: "mbuf_content mb' = mbuf_content mb @ xs" using assms by (simp add: wrote_def overwrite_def)
  moreover have "mbuf_ok mb'" using assms(3) by (simp add: wrote_def)
  moreover have "length (mbuf_content mb') = mb_end mb'" using \<open>mbuf_ok mb'\<close> by (simp add: mbuf_ok_def)
  ultimately show ?thesis using assms \<open>length (mbuf_content mb) = mb_end mb\<close> by (simp add: app_def wrote_def)
qed

lemma put_at_app:
  assumes "mbuf_ok mb" "mb_pos mb = mb_end mb" "put_at mb xs mb'"
  shows "app mb xs mb'"
proof -
  note d = put_atD [OF assms(3)]
  have l: "length (mbuf_content mb) = mb_end mb" "length (mbuf_content mb') = mb_end mb'"
    using assms(1) d(1) by (simp_all add: mbuf_ok_def)
  have "drop (mb_pos mb + length xs) (mbuf_content mb') = []" using d(7) assms(1,2) l by simp
  then have "drop (mb_end mb) (mbuf_content mb') = xs"
    using d(6) assms(2) append_take_drop_id [of "length xs" "drop (mb_end mb) (mbuf_content mb')"] by (simp add: add.commute)
  moreover have "take (mb_end mb) (mbuf_content mb') = mbuf_content mb" using d(5) assms(2) l by simp
  ultimately have c: "mbuf_content mb' = mbuf_content mb @ xs" by (metis append_take_drop_id)
  have "mb_end mb' = mb_pos mb'" using d(2) l arg_cong [OF c, of length] assms(2) by simp
  then show ?thesis using c d(1) by (simp add: app_def mbuf_ok_def)
qed

lemma appends_state: "writes m xs \<Longrightarrow> appends (\<lambda>mb. Some (run_state m mb)) xs"
  unfolding appends_def using wrote_app by (auto elim!: writesD)

lemma call_ench_appends:
  assumes "writes m xs" "appends f ys"
  shows "appends (\<lambda>mb. call_ench (Some f) (run_state m mb)) (xs @ ys)"
  unfolding appends_def
proof (intro allI impI)
  fix mb assume mb: "mbuf_ok mb" "mb_pos mb = mb_end mb" "mb_pos mb + length (xs @ ys) < size_mod"
  obtain t where t: "run_state m mb = (0, t)" "app mb xs t"
    using assms(1) mb wrote_app [OF mb(1,2)] by (auto elim!: writesD)
  have "mbuf_ok t" "mb_pos t = mb_end t" "mb_pos t + length ys < size_mod"
    using t(2) app_end [OF mb(1) t(2)] mb by (simp_all add: app_def)
  then obtain u where "f t = Some (0, u)" "app t ys u" using assms(2) unfolding appends_def by blast
  then show "\<exists>mb'. call_ench (Some f) (run_state m mb) = Some (0, mb') \<and> app mb (xs @ ys) mb'"
    using t app_trans by (auto simp: call_ench_def)
qed

lemma end_pad_run:
  "alloc_total E \<Longrightarrow> mbuf_ok mb \<Longrightarrow> mb_pos mb = mb_end mb \<Longrightarrow> start \<le> mb_end mb \<Longrightarrow>
   n = round4 (mb_end mb - start) - (mb_end mb - start) \<Longrightarrow> mb_end mb + n < size_mod \<Longrightarrow>
   \<exists>mb'. end_pad E start 0 mb = Some (0, mb') \<and> app mb (replicate n 0) mb'"
proof (induction n arbitrary: mb)
  case 0
  let ?k = "mb_end mb - start"
  have "?k mod 4 = 0" using 0 by (intro round4_steps) simp
  moreover have "sz_sub (mb_end mb) start = ?k" using 0 by (simp add: sz_sub_small)
  ultimately show ?case using 0 by (simp add: end_pad.simps app_def)
next
  case (Suc n)
  let ?k = "mb_end mb - start"
  have k: "?k mod 4 \<noteq> 0" "round4 (Suc ?k) = round4 ?k"
    using round4_steps(2) [OF Suc.prems(5)] by simp_all
  have s: "sz_sub (mb_end mb) start = ?k" using Suc.prems by (simp add: sz_sub_small)
  obtain t where t: "run_state (mbuf_write_u8 E 0) mb = (0, t)" "app mb [0] t"
  proof -
    have "mb_pos mb + length [0 :: u8] < size_mod" using Suc.prems(3,6) by simp
    then show ?thesis using appends_state [OF writes_ints(1) [OF Suc.prems(1), of 0]] Suc.prems(2,3) that
      unfolding appends_def by blast
  qed
  have e: "mb_end t = mb_end mb + 1" using app_end [OF Suc.prems(2) t(2)] by simp
  have "n = round4 (mb_end t - start) - (mb_end t - start)"
    using Suc.prems(4,5) k(2) unfolding e by (simp add: Suc_diff_le)
  then obtain u where "end_pad E start 0 t = Some (0, u)" "app t (replicate n 0) u"
    using Suc.IH [OF Suc.prems(1), of t] t(2) e Suc.prems by (auto simp: app_def)
  then show ?case using app_trans [OF t(2)] k s t(1) by (subst end_pad.simps) simp
qed

subsection \<open>Bytes of a packet\<close>

definition pkt_bytes :: "u8 \<Rightarrow> u8 \<Rightarrow> u8 list \<Rightarrow> u8 list" where
  "pkt_bytes cnt type xs = (push_bit 6 RTCP_VERSION OR cnt) # type # be16 (of_nat (round4 (length xs) div 4)) @ xs @
     replicate (round4 (length xs) - length xs) 0"

lemma length_pkt_bytes: "length (pkt_bytes cnt type xs) = 4 + round4 (length xs)"
  using round4_bounds(1) by (simp add: pkt_bytes_def)

lemma rtcp_vencode_run:
  assumes E: "alloc_total E" and p: "appends (rtcp_payload E cnt args) xs" and mb: "mbuf_ok mb" "mb_pos mb + 4 \<le> mb_size mb"
    and l: "mb_pos mb + 4 + round4 (length xs) < size_mod"
  shows "\<exists>mb'. rtcp_vencode E cnt args mb = Some (0, mb') \<and> mbuf_ok mb' \<and> mb_pos mb' = mb_end mb' \<and>
    mbuf_content mb' = take (mb_pos mb) (mbuf_content mb) @ pkt_bytes (ucast cnt) (args_type args) xs"
proof -
  let ?p = "mb_pos mb" and ?r = "round4 (length xs)" and ?pad = "replicate (round4 (length xs) - length xs) (0 :: u8)"
  let ?mb4 = "mb\<lparr>mb_pos := ?p + 4, mb_end := ?p + 4\<rparr>"
  have p4: "sz_add ?p RTCP_HDR_SIZE = ?p + 4" using l by (simp add: RTCP_HDR_SIZE_def sz_add_small)
  have ok4: "mbuf_ok ?mb4" using mb l by (auto simp: mbuf_ok_def mbuf_wf_def split: option.splits)
  have c4: "length (mbuf_content ?mb4) = ?p + 4" "take ?p (mbuf_content ?mb4) = take ?p (mbuf_content mb)"
    using ok4 mb(1) length_mbuf_content [of ?mb4] by (simp_all add: mbuf_ok_def mbuf_content_def mbuf_bytes_def min_def)
  have le: "length xs \<le> ?r" by (rule round4_bounds)
  obtain t where t: "rtcp_payload E cnt args ?mb4 = Some (0, t)" "app ?mb4 xs t"
    using p ok4 l le unfolding appends_def by fastforce
  have e: "mb_end t = ?p + 4 + length xs" using app_end [OF ok4 t(2)] by simp
  have "round4 (4 + n) = 4 + round4 n" for n unfolding round4_def by presburger
  then have k: "round4 (mb_end t - ?p) - (mb_end t - ?p) = ?r - length xs" using e by simp
  obtain u where u: "end_pad E ?p 0 t = Some (0, u)" "app t ?pad u"
    using end_pad_run [OF E, of t ?p "?r - length xs"] t(2) e k l le by (auto simp: app_def)
  have oku: "mbuf_ok u" "mb_pos u = mb_end u" "mbuf_content u = mbuf_content ?mb4 @ xs @ ?pad"
    using t(2) u(2) by (simp_all add: app_def)
  have eu: "mb_end u = ?p + 4 + ?r" using app_end [OF _ u(2)] t(2) e le by (simp add: app_def)
  let ?hdr = "[push_bit 6 RTCP_VERSION OR ucast cnt, args_type args] @ be16 (of_nat (?r div 4))"
  have w: "writes (rtcp_hdr_encode E (ucast cnt) (args_type args) (of_nat (?r div 4))) ?hdr"
    unfolding rtcp_hdr_encode_def by (rule writes_cong, (rule writes_rules(1,2) writes_rules(3-) [OF E] | simp)+)
  have oku0: "mbuf_ok (u\<lparr>mb_pos := ?p\<rparr>)" using oku(1) eu by (auto simp: mbuf_ok_def mbuf_wf_def split: option.splits)
  obtain v where v: "run_state (rtcp_hdr_encode E (ucast cnt) (args_type args) (of_nat (?r div 4))) (u\<lparr>mb_pos := ?p\<rparr>) = (0, v)"
      "wrote (u\<lparr>mb_pos := ?p\<rparr>) ?hdr v"
    using writesD [OF w oku0] l by auto
  have len: "sz_sub (sz_sub (mb_end u) ?p) RTCP_HDR_SIZE = ?r"
    using eu l by (simp add: RTCP_HDR_SIZE_def sz_sub_small)
  have "mbuf_content v = overwrite ?p ?hdr (mbuf_content ?mb4 @ xs @ ?pad)" using v(2) oku(3) by (simp add: wrote_def)
  also have "\<dots> = take ?p (mbuf_content mb) @ ?hdr @ xs @ ?pad"
    using c4 by (simp add: overwrite_def)
  finally have cv: "mbuf_content v = take ?p (mbuf_content mb) @ pkt_bytes (ucast cnt) (args_type args) xs"
    by (simp add: pkt_bytes_def)
  have okv: "mbuf_ok v" using v(2) by (simp add: wrote_def)
  then have "mbuf_ok (v\<lparr>mb_pos := mb_end v\<rparr>)" by (auto simp: mbuf_ok_def mbuf_wf_def split: option.splits)
  then show ?thesis using t(1) u(1) v(1) len cv p4 by (simp add: rtcp_vencode_def Let_def)
qed

subsection \<open>Bodies and their bytes\<close>

definition rr_bytes :: "rtcp_rr \<Rightarrow> u8 list" where
  "rr_bytes rr = be32 (rr_ssrc rr) @ be32 (push_bit 24 (ucast (rr_fraction rr)) OR (rr_lost rr AND 0x00ffffff)) @
     be32 (rr_last_seq rr) @ be32 (rr_jitter rr) @ be32 (rr_lsr rr) @ be32 (rr_dlsr rr)"

definition rr_ok :: "rtcp_rr \<Rightarrow> bool" where "rr_ok rr \<longleftrightarrow> signed_take_bit 23 (rr_lost rr) = rr_lost rr"

lemma writes_rr: "alloc_total E \<Longrightarrow> writes (rtcp_rr_encode E rr) (rr_bytes rr)"
  unfolding rtcp_rr_encode_def rr_bytes_def
  by (rule writes_cong, (rule writes_rules(1,2) | erule writes_rules(3-) | simp)+)

lemma rr_word:
  fixes f :: u8 and l :: u32
  defines "w \<equiv> push_bit 24 (ucast f) OR (l AND 0x00ffffff)"
  shows "ucast (drop_bit 24 w) = f" "signed_take_bit 23 (w AND 0x00ffffff) = signed_take_bit 23 l"
proof -
  have m: "(0x00ffffff :: u32) = mask 24" by (simp add: mask_eq_exp_minus_1)
  show "ucast (drop_bit 24 w) = f"
    unfolding w_def m by (rule bit_word_eqI) (auto simp: bit_simps)
  have "w AND mask 24 = take_bit 24 l"
    unfolding w_def m by (rule bit_word_eqI) (auto simp: bit_simps)
  then show "signed_take_bit 23 (w AND 0x00ffffff) = signed_take_bit 23 l"
    unfolding m by (simp add: signed_take_bit_take_bit)
qed

lemma decodes_rr:
  assumes "rr_ok rr"
  shows "decodes rtcp_rr_decode (rr_bytes rr) (Inr rr)"
  unfolding rtcp_rr_decode_def
proof (rule decodes_need)
  let ?w = "push_bit 24 (ucast (rr_fraction rr)) OR (rr_lost rr AND 0x00ffffff)"
  have v: "\<lparr>rr_ssrc = rr_ssrc rr, rr_fraction = ucast (drop_bit 24 ?w), rr_lost = signed_take_bit 23 (?w AND 0x00ffffff),
       rr_last_seq = rr_last_seq rr, rr_jitter = rr_jitter rr, rr_lsr = rr_lsr rr, rr_dlsr = rr_dlsr rr\<rparr> = rr"
    unfolding rr_word using assms by (simp add: rr_ok_def)
  show "RTCP_RR_SIZE \<le> length (rr_bytes rr)" by (simp add: rr_bytes_def RTCP_RR_SIZE_def)
  have "decodes (do { s \<leftarrow> rd32; w \<leftarrow> rd32; q \<leftarrow> rd32; j \<leftarrow> rd32; l \<leftarrow> rd32; d \<leftarrow> rd32;
      State_Monad.return (Inr \<lparr>rr_ssrc = s, rr_fraction = ucast (drop_bit 24 w), rr_lost = signed_take_bit 23 (w AND 0x00ffffff),
       rr_last_seq = q, rr_jitter = j, rr_lsr = l, rr_dlsr = d\<rparr>) })
      (be32 (rr_ssrc rr) @ be32 ?w @ be32 (rr_last_seq rr) @ be32 (rr_jitter rr) @ be32 (rr_lsr rr) @ be32 (rr_dlsr rr) @ [])
      (Inr \<lparr>rr_ssrc = rr_ssrc rr, rr_fraction = ucast (drop_bit 24 ?w), rr_lost = signed_take_bit 23 (?w AND 0x00ffffff),
       rr_last_seq = rr_last_seq rr, rr_jitter = rr_jitter rr, rr_lsr = rr_lsr rr, rr_dlsr = rr_dlsr rr\<rparr>)"
    by (rule decodes_rules)+
  then show "decodes (do { s \<leftarrow> rd32; w \<leftarrow> rd32; q \<leftarrow> rd32; j \<leftarrow> rd32; l \<leftarrow> rd32; d \<leftarrow> rd32;
      State_Monad.return (Inr \<lparr>rr_ssrc = s, rr_fraction = ucast (drop_bit 24 w), rr_lost = signed_take_bit 23 (w AND 0x00ffffff),
       rr_last_seq = q, rr_jitter = j, rr_lsr = l, rr_dlsr = d\<rparr>) }) (rr_bytes rr) (Inr rr)"
    unfolding v by (simp add: rr_bytes_def)
qed

lemma decodes_rrs:
  "list_all rr_ok rrs \<Longrightarrow> decodes (rtcp_rrs_decode (length rrs)) (concat (map rr_bytes rrs)) (Inr rrs)"
proof (induction rrs)
  case (Cons rr rrs)
  have "decodes (rtcp_rrs_decode (length (rr # rrs))) (rr_bytes rr @ concat (map rr_bytes rrs) @ []) (Inr (rr # rrs))"
    unfolding list.size(4) add_Suc_right add_0_right rtcp_rrs_decode.simps
    by (rule decodes_bind [OF decodes_rr])
      (use Cons in \<open>auto intro!: decodes_cong [OF decodes_bind [OF Cons.IH decodes_return]]\<close>)
  then show ?case by simp
qed (simp add: decodes_return)

fun each :: "('a \<Rightarrow> (mbuf, err) state) \<Rightarrow> 'a list \<Rightarrow> (mbuf, err) state" where
  "each f [] = State_Monad.return 0"
| "each f (x # xs) = do { e \<leftarrow> f x; e' \<leftarrow> each f xs; State_Monad.return (e OR e') }"

lemma writes_each: "(\<And>x. x \<in> set xs \<Longrightarrow> writes (f x) (g x)) \<Longrightarrow> writes (each f xs) (concat (map g xs))"
proof (induction xs)
  case (Cons x xs)
  have "writes (each f (x # xs)) (g x @ concat (map g xs) @ [])"
    unfolding each.simps using Cons by (intro writes_bind) (auto intro: writes_return)
  then show ?case by simp
qed (simp add: writes_return)

subsection \<open>Feedback\<close>

definition sli_ok :: "u16 \<times> u16 \<times> u8 \<Rightarrow> bool" where
  "sli_ok s \<longleftrightarrow> (case s of (f, n, p) \<Rightarrow> take_bit 13 f = f \<and> take_bit 13 n = n \<and> take_bit 6 p = p)"

definition sli_word :: "u16 \<times> u16 \<times> u8 \<Rightarrow> u32" where
  "sli_word s = (case s of (f, n, p) \<Rightarrow> push_bit 19 (ucast f) OR push_bit 6 (ucast n) OR ucast p)"

lemma sli_fields:
  assumes "sli_ok (f, n, p)"
  shows "ucast (drop_bit 19 (sli_word (f, n, p)) AND 0x1fff) = f" "ucast (drop_bit 6 (sli_word (f, n, p)) AND 0x1fff) = n"
    "ucast (sli_word (f, n, p) AND 0x3f) = p"
proof -
  have m: "(0x1fff :: u32) = mask 13" "(0x3f :: u32) = mask 6" by (simp_all add: mask_eq_exp_minus_1)
  have b: "bit f k \<Longrightarrow> k < 13" "bit n k \<Longrightarrow> k < 13" "bit p k \<Longrightarrow> k < 6" for k
    using assms bit_take_bit_iff [of 13 f k] bit_take_bit_iff [of 13 n k] bit_take_bit_iff [of 6 p k] by (auto simp: sli_ok_def)
  show "ucast (drop_bit 19 (sli_word (f, n, p)) AND 0x1fff) = f" unfolding m sli_word_def prod.case
    by (rule bit_word_eqI) (auto simp: bit_simps dest: b)
  show "ucast (drop_bit 6 (sli_word (f, n, p)) AND 0x1fff) = n" unfolding m sli_word_def prod.case
    by (rule bit_word_eqI) (auto simp: bit_simps dest: b)
  show "ucast (sli_word (f, n, p) AND 0x3f) = p" unfolding m sli_word_def prod.case
    by (rule bit_word_eqI) (auto simp: bit_simps dest: b)
qed

definition sli_bytes :: "u16 \<times> u16 \<times> u8 \<Rightarrow> u8 list" where "sli_bytes s = be32 (sli_word s)"

definition gnack_bytes :: "u16 \<times> u16 \<Rightarrow> u8 list" where "gnack_bytes g = be16 (fst g) @ be16 (snd g)"

lemma decodes_gnacks: "decodes (gnacks_decode (length gs)) (concat (map gnack_bytes gs)) gs"
proof (induction gs)
  case (Cons g gs)
  obtain a b where g: "g = (a, b)" by (cases g)
  have "decodes (gnacks_decode (length (g # gs))) (be16 (fst g) @ be16 (snd g) @ concat (map gnack_bytes gs) @ []) (g # gs)"
    unfolding list.size(4) add_Suc_right add_0_right gnacks_decode.simps
    by (rule decodes_cong, (rule decodes_rules Cons.IH)+) (simp_all add: g)
  then show ?case by (simp add: gnack_bytes_def [of g])
qed (simp add: decodes_return)

lemma decodes_slis: "list_all sli_ok ss \<Longrightarrow> decodes (slis_decode (length ss)) (concat (map (sli_bytes) ss)) ss"
proof (induction ss)
  case (Cons s ss)
  obtain f n p where s: "s = (f, n, p)" by (cases s)
  have c: "list_all sli_ok ss" using Cons.prems by simp
  have "decodes (slis_decode (length (s # ss))) (sli_bytes s @ concat (map (sli_bytes) ss) @ []) (s # ss)"
    unfolding list.size(4) add_Suc_right add_0_right slis_decode.simps
    by (rule decodes_cong, (rule decodes_rules Cons.IH [OF c])+) (use Cons.prems sli_fields [of f n p] in \<open>simp_all add: s sli_bytes_def [of "(f, n, p)"]\<close>)
  then show ?case by simp
qed (simp add: decodes_return)

subsection \<open>Source descriptions\<close>

definition sitem_bytes :: "sdes_item \<Rightarrow> u8 list" where "sitem_bytes it = fst it # of_nat (length (snd it)) # snd it"
definition sitem_ok :: "sdes_item \<Rightarrow> bool" where "sitem_ok it \<longleftrightarrow> fst it \<noteq> 0 \<and> length (snd it) \<le> 255"

definition sdes_ok :: "rtcp_sdes \<Rightarrow> bool" where "sdes_ok s \<longleftrightarrow> sd_items s \<noteq> [] \<and> list_all sitem_ok (sd_items s)"

definition chunk_body :: "rtcp_sdes \<Rightarrow> u8 list" where
  "chunk_body s = be32 (sd_src s) @ concat (map sitem_bytes (sd_items s)) @ [0]"

definition chunk_bytes :: "rtcp_sdes \<Rightarrow> u8 list" where
  "chunk_bytes s = chunk_body s @ replicate (round4 (length (chunk_body s)) - length (chunk_body s)) 0"

definition chunk_items :: "rtcp_sdes \<Rightarrow> (u8 \<times> c_string) list" where "chunk_items s = map (apsnd Some) (sd_items s)"

lemma byte_mask: "(x AND 0xff :: u8) = x"
proof -
  have "(0xff :: u8) = - 1" by simp
  then show ?thesis by (simp only: and.right_neutral)
qed

lemma length_chunk: "length (chunk_body s) = 5 + length (concat (map sitem_bytes (sd_items s)))"
    "length (chunk_bytes s) = round4 (length (chunk_body s))"
  using round4_bounds(1) [of "length (chunk_body s)"] by (simp_all add: chunk_bytes_def) (simp add: chunk_body_def)

lemma sdes_items_run:
  assumes E: "alloc_total E"
  shows "list_all sitem_ok is \<Longrightarrow> mbuf_ok mb \<Longrightarrow> mb_pos mb + length (concat (map sitem_bytes is)) < size_mod \<Longrightarrow>
    \<exists>t. run_state (sdes_items E 0 (map (apsnd Some) is)) mb = ((0, False), t) \<and> wrote mb (concat (map sitem_bytes is)) t"
proof (induction "is" arbitrary: mb)
  case Nil
  then show ?case by (simp add: wrote_def)
next
  case (Cons it "is")
  obtain ty s where it: "it = (ty, s)" by (cases it)
  have l: "length s \<le> 255" using Cons.prems(1) by (simp add: it sitem_ok_def)
  have "writes (do { e1 \<leftarrow> mbuf_write_u8 E ty; e2 \<leftarrow> mbuf_write_u8 E (of_nat (length s) AND 0xff); e3 \<leftarrow> mbuf_write_mem E (Some s);
      State_Monad.return (e1 OR e2 OR e3) }) (sitem_bytes it)"
    unfolding byte_mask
    by (rule writes_cong, (rule writes_rules(1,2) writes_rules(3-) [OF E] | simp)+) (simp add: sitem_bytes_def it)
  then obtain t where t: "run_state (do { e1 \<leftarrow> mbuf_write_u8 E ty; e2 \<leftarrow> mbuf_write_u8 E (of_nat (length s) AND 0xff); e3 \<leftarrow> mbuf_write_mem E (Some s);
      State_Monad.return (e1 OR e2 OR e3) }) mb = (0, t)" "wrote mb (sitem_bytes it) t"
    using Cons.prems by (auto elim!: writesD)
  obtain e1 t1 e2 t2 e3 t3 where p: "run_state (mbuf_write_u8 E ty) mb = (e1, t1)"
      "run_state (mbuf_write_u8 E (of_nat (length s) AND 0xff)) t1 = (e2, t2)" "run_state (mbuf_write_mem E (Some s)) t2 = (e3, t3)"
    by (metis prod.exhaust)
  have e: "e1 OR e2 OR e3 = 0" "t3 = t" using t(1) p by simp_all
  have "mbuf_ok t" "mb_pos t + length (concat (map sitem_bytes is)) < size_mod"
    using t(2) Cons.prems(3) by (simp_all add: wrote_def)
  then obtain u where u: "run_state (sdes_items E 0 (map (apsnd Some) is)) t = ((0, False), u)" "wrote t (concat (map sitem_bytes is)) u"
    using Cons.IH [of t] Cons.prems(1) by auto
  have "run_state (sdes_items E 0 (map (apsnd Some) (it # is))) mb = ((0, False), u)"
    using p e u(1) l by (simp add: it)
  then show ?case using wrote_trans [OF Cons.prems(2) t(2) u(2)] by auto
qed

lemma sdes_encode_appends:
  assumes E: "alloc_total E" and s: "sdes_ok s"
  shows "appends (rtcp_sdes_encode E (sd_src s) (chunk_items s)) (chunk_bytes s)"
  unfolding appends_def
proof (intro allI impI)
  fix mb assume mb: "mbuf_ok mb" "mb_pos mb = mb_end mb" "mb_pos mb + length (chunk_bytes s) < size_mod"
  let ?items = "concat (map sitem_bytes (sd_items s))" and ?b = "chunk_body s"
  have lb: "length ?b = 5 + length ?items" "length (chunk_bytes s) = round4 (length ?b)"
    by (rule length_chunk)+
  have le: "length ?b \<le> round4 (length ?b)" by (rule round4_bounds)
  obtain t1 where t1: "run_state (mbuf_write_u32 E (htonl (sd_src s))) mb = (0, t1)" "wrote mb (be32 (sd_src s)) t1"
    using writesD [OF writes_hton(2) [OF E] mb(1)] mb(3) lb le by auto
  have ok1: "mbuf_ok t1" "mb_pos t1 = mb_pos mb + 4" using t1(2) by (simp_all add: wrote_def)
  obtain t2 where t2: "run_state (sdes_items E 0 (chunk_items s)) t1 = ((0, False), t2)" "wrote t1 ?items t2"
    using sdes_items_run [OF E, of "sd_items s" t1] s ok1 mb(3) lb le by (auto simp: sdes_ok_def chunk_items_def)
  have ok2: "mbuf_ok t2" "mb_pos t2 = mb_pos mb + 4 + length ?items" using t2(2) ok1 by (simp_all add: wrote_def)
  obtain t3 where t3: "run_state (mbuf_write_u8 E RTCP_SDES_END) t2 = (0, t3)" "wrote t2 [RTCP_SDES_END] t3"
    using writesD [OF writes_ints(1) [OF E] ok2(1)] ok2(2) mb(3) lb le by auto
  have w: "wrote mb ?b t3"
    using wrote_trans [OF mb(1) wrote_trans [OF mb(1) t1(2) t2(2)] t3(2)] by (simp add: chunk_body_def RTCP_SDES_END_def)
  have ok3: "mbuf_ok t3" "mb_pos t3 = mb_pos mb + length ?b" using w by (simp_all add: wrote_def)
  have a3: "app mb ?b t3" by (rule wrote_app [OF mb(1,2) w])
  have d: "mb_pos t3 - mb_pos mb = length ?b" using ok3 by simp
  obtain u where u: "pad_loop E (mb_pos mb) RTCP_SDES_END 0 t3 = Some (0, u)"
      "put_at t3 (replicate (round4 (length ?b) - length ?b) RTCP_SDES_END) u"
    using pad_loop_run [OF E, of t3 "mb_pos mb" "round4 (length ?b) - length ?b" RTCP_SDES_END] ok3 mb(3) lb le
    unfolding d by (auto simp: mbuf_ok_wf)
  have "app t3 (replicate (round4 (length ?b) - length ?b) 0) u"
    using put_at_app [OF ok3(1) _ u(2)] a3 by (simp add: app_def RTCP_SDES_END_def)
  from app_trans [OF a3 this] have "app mb (chunk_bytes s) u" by (simp add: chunk_bytes_def)
  moreover have "chunk_items s \<noteq> []" using s by (simp add: chunk_items_def sdes_ok_def)
  ultimately show "\<exists>mb'. rtcp_sdes_encode E (sd_src s) (chunk_items s) mb = Some (0, mb') \<and> app mb (chunk_bytes s) mb'"
    using t1(1) t2(1) t3(1) u(1) by (simp add: rtcp_sdes_encode_def)
qed

lemma decodes_item:
  assumes "alloc_total E" "sitem_ok it" "(n + 1) * 12 < size_mod"
  shows "decodes (sdes_item_decode E n) (sitem_bytes it) (Inr it)"
proof -
  obtain ty s where it: "it = (ty, s)" by (cases it)
  have l: "unat (of_nat (length s) :: u8) = length s" "length s < size_mod" and ty: "ty \<noteq> RTCP_SDES_END"
    using assms(2) by (simp_all add: it sitem_ok_def unsigned_of_nat take_bit_nat_eq_self size_mod_def RTCP_SDES_END_def)
  have al: "can_alloc E ((n + 1) * sizeof_sdes_item)" "can_alloc E (length s)"
    using assms(1,3) l(2) by (simp_all add: alloc_total_def sizeof_sdes_item_def)
  have "decodes (need (length s) (do { (_, x) \<leftarrow> mbuf_read_mem (length s); State_Monad.return (Inr (ty, x)) })) (s @ []) (Inr (ty, s))"
    by (rule decodes_need [OF _ decodes_bind [OF decodes_mem [OF refl]]]) (simp_all add: decodes_return)
  note inner = this
  have "decodes (do { len \<leftarrow> mbuf_read_u8; need (unat len)
      (if \<not> can_alloc E (unat len) then State_Monad.return (Inl ENOMEM)
       else do { (_, x) \<leftarrow> mbuf_read_mem (unat len); State_Monad.return (Inr (ty, x)) }) }) ([of_nat (length s)] @ s @ []) (Inr (ty, s))"
    by (rule decodes_bind [OF decodes_ints(1)])
      (use al(2) inner in \<open>simp add: l(1)\<close>)
  then have "decodes (sdes_item_decode E n) ([ty] @ [of_nat (length s)] @ s @ []) (Inr (ty, s))"
    unfolding sdes_item_decode_def
    by (intro decodes_bind [OF decodes_ints(1)]) (use ty al(1) in \<open>simp add: decodes_need\<close>)
  then show ?thesis by (simp add: it sitem_bytes_def)
qed

lemma decodes_end: "decodes (sdes_item_decode E n) [0] (Inl 0)"
proof -
  have "decodes (sdes_item_decode E n) ([0] @ []) (Inl 0)"
    unfolding sdes_item_decode_def by (rule decodes_bind [OF decodes_ints(1)]) (simp add: RTCP_SDES_END_def decodes_return)
  then show ?thesis by simp
qed

lemma sdes_loop_run:
  assumes E: "alloc_total E"
  shows "list_all sitem_ok is \<Longrightarrow> mbuf_ok mb \<Longrightarrow> mbuf_rest mb = concat (map sitem_bytes is) @ 0 # r \<Longrightarrow>
    12 * (length acc + length is) < size_mod \<Longrightarrow>
    sdes_loop E acc mb = Some ((0, acc @ is), adv (length (concat (map sitem_bytes is)) + 1) mb)"
proof (induction "is" arbitrary: acc mb)
  case Nil
  have "run_state (sdes_item_decode E (length acc)) mb = (Inl 0, adv 1 mb)"
    using decodes_end Nil.prems unfolding decodes_def by fastforce
  then show ?case using Nil.prems by (subst sdes_loop.simps) (simp add: mb_simps RTCP_SDES_MIN_SIZE_def)
next
  case (Cons it "is")
  have d: "run_state (sdes_item_decode E (length acc)) mb = (Inr it, adv (length (sitem_bytes it)) mb)"
    using decodes_item [OF E, of it "length acc"] Cons.prems unfolding decodes_def by fastforce
  let ?mb = "adv (length (sitem_bytes it)) mb"
  have "mbuf_ok ?mb" "mbuf_rest ?mb = concat (map sitem_bytes is) @ 0 # r"
    using Cons.prems by (simp_all add: mb_simps)
  then have "sdes_loop E (acc @ [it]) ?mb = Some ((0, acc @ it # is), adv (length (concat (map sitem_bytes is)) + 1) ?mb)"
    using Cons.IH [of ?mb "acc @ [it]"] Cons.prems by simp
  then show ?case using Cons.prems d by (subst sdes_loop.simps) (simp add: mb_simps RTCP_SDES_MIN_SIZE_def add.assoc)
qed

lemma sdes_decode_run:
  assumes E: "alloc_total E" and s: "sdes_ok s" and mb: "mbuf_ok mb" "mbuf_rest mb = chunk_bytes s @ r"
    and l: "12 * length (sd_items s) < size_mod"
  shows "rtcp_sdes_decode E mb = Some (Inr s, adv (length (chunk_bytes s)) mb)"
proof -
  let ?items = "concat (map sitem_bytes (sd_items s))" and ?b = "chunk_body s"
  let ?pad = "replicate (round4 (length ?b) - length ?b) (0 :: u8)"
  have lb: "length ?b = 5 + length ?items" "length (chunk_bytes s) = round4 (length ?b)"
    by (rule length_chunk)+
  have le: "length ?b \<le> round4 (length ?b)" by (rule round4_bounds)
  have r0: "mbuf_rest mb = be32 (sd_src s) @ ?items @ 0 # ?pad @ r" using mb(2) by (simp add: chunk_bytes_def chunk_body_def)
  have d: "run_state rd32 mb = (sd_src s, adv 4 mb)" using decodes_ints(3) mb(1) r0 unfolding decodes_def by fastforce
  have "mbuf_ok (adv 4 mb)" "mbuf_rest (adv 4 mb) = ?items @ 0 # ?pad @ r" using mb(1) r0 by (simp_all add: mb_simps)
  then have lp: "sdes_loop E [] (adv 4 mb) = Some ((0, sd_items s), adv (length ?b) mb)"
    using sdes_loop_run [OF E, of "sd_items s" "adv 4 mb" _ "[]"] s l lb by (simp add: sdes_ok_def add.commute)
  have rb: "mbuf_ok (adv (length ?b) mb)" "mbuf_rest (adv (length ?b) mb) = ?pad @ r"
    using mb(1) r0 lb by (simp_all add: mb_simps)
  have "pad_skip (mb_pos mb) (adv (length ?b) mb) = adv (round4 (length ?b) - length ?b) (adv (length ?b) mb)"
    by (rule pad_skip_run) (use rb in simp_all)
  then show ?thesis using d lp mb r0 lb le by (simp add: rtcp_sdes_decode_def RTCP_SRC_SIZE_def mb_simps)
qed

fun sdes_encode_all :: "mem_env \<Rightarrow> rtcp_sdes list \<Rightarrow> mbuf \<Rightarrow> (err \<times> mbuf) option" where
  "sdes_encode_all E [] mb = Some (0, mb)"
| "sdes_encode_all E (s # ss) mb = (case rtcp_sdes_encode E (sd_src s) (chunk_items s) mb of
     None \<Rightarrow> None
   | Some (e, mb) \<Rightarrow> map_option (apfst ((OR) e)) (sdes_encode_all E ss mb))"

lemma sdes_all_appends:
  assumes E: "alloc_total E"
  shows "list_all sdes_ok ss \<Longrightarrow> appends (sdes_encode_all E ss) (concat (map chunk_bytes ss))"
proof (induction ss)
  case (Cons s ss)
  show ?case unfolding appends_def
  proof (intro allI impI)
    fix mb assume mb: "mbuf_ok mb" "mb_pos mb = mb_end mb" "mb_pos mb + length (concat (map chunk_bytes (s # ss))) < size_mod"
    then obtain t where t: "rtcp_sdes_encode E (sd_src s) (chunk_items s) mb = Some (0, t)" "app mb (chunk_bytes s) t"
      using sdes_encode_appends [OF E, of s] Cons.prems unfolding appends_def by fastforce
    have "mbuf_ok t" "mb_pos t = mb_end t" "mb_pos t + length (concat (map chunk_bytes ss)) < size_mod"
      using t(2) app_end [OF mb(1) t(2)] mb by (simp_all add: app_def)
    then obtain u where "sdes_encode_all E ss t = Some (0, u)" "app t (concat (map chunk_bytes ss)) u"
      using Cons unfolding appends_def by auto
    then show "\<exists>mb'. sdes_encode_all E (s # ss) mb = Some (0, mb') \<and> app mb (concat (map chunk_bytes (s # ss))) mb'"
      using t app_trans by auto
  qed
qed (simp add: appends_def app_def)

lemma sdes_chunks_run:
  assumes E: "alloc_total E"
  shows "list_all sdes_ok ss \<Longrightarrow> list_all (\<lambda>s. 12 * length (sd_items s) < size_mod) ss \<Longrightarrow> mbuf_ok mb \<Longrightarrow>
    mbuf_rest mb = concat (map chunk_bytes ss) @ r \<Longrightarrow>
    sdes_chunks E (length ss) mb = Some (Inr ss, adv (length (concat (map chunk_bytes ss))) mb)"
proof (induction ss arbitrary: mb)
  case (Cons s ss)
  have d: "rtcp_sdes_decode E mb = Some (Inr s, adv (length (chunk_bytes s)) mb)"
    using sdes_decode_run [OF E, of s mb "concat (map chunk_bytes ss) @ r"] Cons.prems by simp
  have "mbuf_ok (adv (length (chunk_bytes s)) mb)" using Cons.prems by (simp add: mb_simps)
  then show ?case using d Cons by simp
qed simp

subsection \<open>Packets are read back\<close>

definition st_ench :: "(mbuf, err) state \<Rightarrow> ench" where "st_ench m = Some (\<lambda>mb. Some (run_state m mb))"

fun fci_cnt :: "fci \<Rightarrow> nat" where "fci_cnt (Slis ss) = 2" | "fci_cnt _ = 1"

text \<open>The count, the arguments and the bytes of a body.\<close>

fun body_cnt :: "rtcp_body \<Rightarrow> nat" where
  "body_cnt (Sr a b c d e f rs) = length rs"
| "body_cnt (Rr a rs) = length rs"
| "body_cnt (Sdes ss) = length ss"
| "body_cnt (Bye srcv r) = length srcv"
| "body_cnt (Fb p m n fc) = fci_cnt fc"
| "body_cnt _ = 0"

fun fci_ench :: "mem_env \<Rightarrow> fci \<Rightarrow> ench" where
  "fci_ench E FciNone = None"
| "fci_ench E (Gnacks gs) = st_ench (each (\<lambda>(pid, blp). rtcp_rtpfb_gnack_encode E pid blp) gs)"
| "fci_ench E (Slis ss) = st_ench (each (\<lambda>(f, n, p). rtcp_psfb_sli_encode E f n p) ss)"

fun body_args :: "mem_env \<Rightarrow> rtcp_body \<Rightarrow> rtcp_args" where
  "body_args E (Sr a b c d e f rs) = SrArgs a b c d e f (st_ench (each (rtcp_rr_encode E) rs))"
| "body_args E (Rr a rs) = RrArgs a (st_ench (each (rtcp_rr_encode E) rs))"
| "body_args E (Sdes ss) = SdesArgs (Some (sdes_encode_all E ss))"
| "body_args E (Bye srcv r) = ByeArgs srcv r"
| "body_args E (App src name d) = AppArgs src name (if d = [] then None else Some d)"
| "body_args E (Fir a) = FirArgs a"
| "body_args E (Nack a f b) = NackArgs a (ucast f) (ucast b)"
| "body_args E (Fb p m n fc) = (case fc of Gnacks gs \<Rightarrow> RtpfbArgs p m (fci_ench E fc) | _ \<Rightarrow> PsfbArgs p m (fci_ench E fc))"
| "body_args E NoBody = OtherArgs 0"

fun fci_bytes :: "fci \<Rightarrow> u8 list" where
  "fci_bytes FciNone = []"
| "fci_bytes (Gnacks gs) = concat (map gnack_bytes gs)"
| "fci_bytes (Slis ss) = concat (map sli_bytes ss)"

fun body_bytes :: "rtcp_body \<Rightarrow> u8 list" where
  "body_bytes (Sr a b c d e f rs) = concat (map be32 [a, b, c, d, e, f]) @ concat (map rr_bytes rs)"
| "body_bytes (Rr a rs) = be32 a @ concat (map rr_bytes rs)"
| "body_bytes (Sdes ss) = concat (map chunk_bytes ss)"
| "body_bytes (Bye srcv r) = concat (map be32 srcv) @ (case r of None \<Rightarrow> [] | Some s \<Rightarrow> of_nat (length s) # s)"
| "body_bytes (App src name d) = be32 src @ name @ d"
| "body_bytes (Fir a) = be32 a"
| "body_bytes (Nack a f b) = be32 a @ be16 f @ be16 b"
| "body_bytes (Fb p m n fc) = be32 p @ be32 m @ fci_bytes fc"
| "body_bytes NoBody = []"

fun fci_ok :: "u32 \<Rightarrow> fci \<Rightarrow> bool" where
  "fci_ok n FciNone \<longleftrightarrow> n = 0"
| "fci_ok n (Gnacks gs) \<longleftrightarrow> unat n = length gs"
| "fci_ok n (Slis ss) \<longleftrightarrow> unat n = length ss \<and> list_all sli_ok ss"

fun body_ok :: "rtcp_body \<Rightarrow> bool" where
  "body_ok (Sr a b c d e f rs) \<longleftrightarrow> list_all rr_ok rs"
| "body_ok (Rr a rs) \<longleftrightarrow> list_all rr_ok rs"
| "body_ok (Sdes ss) \<longleftrightarrow> list_all sdes_ok ss"
| "body_ok (Bye srcv r) \<longleftrightarrow> (case r of None \<Rightarrow> True | Some s \<Rightarrow> length s \<le> 255)"
| "body_ok (App src name d) \<longleftrightarrow> length name = 4 \<and> length d mod 4 = 0"
| "body_ok (Fb p m n fc) \<longleftrightarrow> fci_ok n fc"
| "body_ok NoBody \<longleftrightarrow> False"
| "body_ok _ \<longleftrightarrow> True"

definition rtcp_ok :: "rtcp_body \<Rightarrow> bool" where
  "rtcp_ok b \<longleftrightarrow> body_ok b \<and> body_cnt b < 32 \<and> length (body_bytes b) \<le> 4 * 65535"

lemma writes_list: "alloc_total E \<Longrightarrow> writes (write_list E ws) (concat (map be32 ws))"
proof (induction ws)
  case (Cons w ws)
  have "writes (write_list E (w # ws)) (be32 w @ concat (map be32 ws) @ [])"
    unfolding write_list.simps using Cons by (intro writes_bind) (auto intro: writes_return writes_hton)
  then show ?case by simp
qed (simp add: writes_return)

lemma writes_bye_loop:
  "alloc_total E \<Longrightarrow> i + n \<le> length srcv \<Longrightarrow> writes (bye_loop E srcv i n) (concat (map be32 (take n (drop i srcv))))"
proof (induction n arbitrary: i)
  case (Suc n)
  have i: "i < length srcv" using Suc.prems by simp
  have "writes (bye_loop E srcv i (Suc n)) (be32 (srcv ! i) @ concat (map be32 (take n (drop (Suc i) srcv))))"
    unfolding bye_loop.simps using i Suc by (intro writes_bind) (auto intro: writes_hton)
  then show ?case by (simp add: Cons_nth_drop_Suc [OF i, symmetric])
qed (simp add: writes_return)

lemma writes_gnack: "alloc_total E \<Longrightarrow> writes (rtcp_rtpfb_gnack_encode E (fst g) (snd g)) (gnack_bytes g)"
  unfolding rtcp_rtpfb_gnack_encode_def gnack_bytes_def
  by (rule writes_cong, (rule writes_rules(1,2) | erule writes_rules(3-) | simp)+)

lemma writes_sli: "alloc_total E \<Longrightarrow> writes (rtcp_psfb_sli_encode E (fst s) (fst (snd s)) (snd (snd s))) (sli_bytes s)"
  by (simp add: rtcp_psfb_sli_encode_def sli_bytes_def sli_word_def writes_hton split: prod.split)

lemma call_none: "(\<lambda>mb. call_ench None (run_state m mb)) = (\<lambda>mb. Some (run_state m mb))"
  by (auto simp: call_ench_def split: prod.split)

lemma fci_appends:
  assumes E: "alloc_total E"
  shows "appends (\<lambda>mb. call_ench (fci_ench E fc) (run_state (write_list E [p, m]) mb)) (be32 p @ be32 m @ fci_bytes fc)"
proof -
  have l: "writes (write_list E [p, m]) (be32 p @ be32 m)" using writes_list [OF E, of "[p, m]"] by simp
  have g: "writes (each (\<lambda>(pid, blp). rtcp_rtpfb_gnack_encode E pid blp) gs) (concat (map gnack_bytes gs))" for gs
    by (rule writes_each) (simp add: writes_gnack [OF E] case_prod_unfold)
  have s: "writes (each (\<lambda>(f, n, p). rtcp_psfb_sli_encode E f n p) ss) (concat (map sli_bytes ss))" for ss
    by (rule writes_each) (simp add: writes_sli [OF E] case_prod_unfold)
  show ?thesis
    using appends_state [OF l] call_ench_appends [OF l appends_state [OF g]] call_ench_appends [OF l appends_state [OF s]]
    by (cases fc) (simp_all only: fci_ench.simps fci_bytes.simps st_ench_def call_none append.assoc append_Nil2)
qed

lemma payload_appends:
  assumes E: "alloc_total E" and b: "rtcp_ok b"
  shows "appends (rtcp_payload E (of_nat (body_cnt b)) (body_args E b)) (body_bytes b)"
proof -
  have rrs: "writes (each (rtcp_rr_encode E) rs) (concat (map rr_bytes rs))" for rs
    by (rule writes_each) (rule writes_rr [OF E])
  have a32: "writes (mbuf_write_u32 E (htonl a)) (be32 a)" for a by (rule writes_hton(2) [OF E])
  show ?thesis
  proof (cases b)
    case (Sr x1 x2 x3 x4 x5 x6 rs)
    have "rtcp_payload E c (SrArgs x1 x2 x3 x4 x5 x6 h) = (\<lambda>mb. call_ench h (run_state (write_list E [x1, x2, x3, x4, x5, x6]) mb))" for c h
      by (rule ext) simp
    then show ?thesis
      using call_ench_appends [OF writes_list [OF E, of "[x1, x2, x3, x4, x5, x6]"] appends_state [OF rrs]]
      by (simp only: Sr body_args.simps body_bytes.simps st_ench_def)
  next
    case (Rr x1 rs)
    have "rtcp_payload E c (RrArgs x1 h) = (\<lambda>mb. call_ench h (run_state (mbuf_write_u32 E (htonl x1)) mb))" for c h
      by (rule ext) simp
    then show ?thesis using call_ench_appends [OF a32 appends_state [OF rrs]]
      by (simp only: Rr body_args.simps body_bytes.simps st_ench_def)
  next
    case (Sdes ss)
    have "rtcp_payload E c (SdesArgs (Some f)) = f" for c f
      by (rule ext) (auto simp: call_ench_def apfst_def map_prod_def option.map_ident_strong split: prod.split)
    then show ?thesis using sdes_all_appends [OF E, of ss] b by (simp add: Sdes rtcp_ok_def)
  next
    case (Bye srcv r)
    have n: "unat (of_nat (length srcv) :: u32) = length srcv"
      using b Bye by (simp add: rtcp_ok_def unsigned_of_nat take_bit_nat_eq_self)
    have l: "writes (bye_loop E srcv 0 (length srcv)) (concat (map be32 srcv))"
      using writes_bye_loop [OF E, of 0 "length srcv" srcv] by simp
    have "writes (bye_encode E (of_nat (length srcv)) srcv r) (body_bytes b)"
    proof (cases r)
      case None
      have "writes (bye_encode E (of_nat (length srcv)) srcv r) (concat (map be32 srcv) @ [])"
        unfolding bye_encode_def n None option.case by (intro writes_bind [OF l]) (simp add: writes_return)
      then show ?thesis by (simp add: Bye None)
    next
      case (Some s)
      have "writes (mbuf_write_str E (Some s)) s" using writes_mem [OF E] by (simp add: mbuf_write_str_def)
      then have "writes (bye_encode E (of_nat (length srcv)) srcv r) (concat (map be32 srcv) @ [of_nat (length s)] @ s @ [])"
        unfolding bye_encode_def n Some option.case
        by (intro writes_bind [OF l] writes_bind [OF writes_ints(1) [OF E]] writes_bind) (simp_all add: writes_return)
      then show ?thesis by (simp add: Bye Some)
    qed
    moreover have "rtcp_payload E c (ByeArgs srcv r) = (\<lambda>mb. Some (run_state (bye_encode E c srcv r) mb))" for c
      by (rule ext) simp
    ultimately show ?thesis using appends_state by (simp only: Bye body_args.simps body_cnt.simps)
  next
    case (App src name d)
    have "writes (app_encode E src name (if d = [] then None else Some d)) (be32 src @ name @ d)"
    proof (cases "d = []")
      case True
      have "writes (app_encode E src name None) (be32 src @ name @ [])"
        unfolding app_encode_def option.case by (intro writes_bind [OF a32] writes_bind [OF writes_mem [OF E]]) (simp add: writes_return)
      then show ?thesis using True by simp
    next
      case False
      have m: "(length d mod 4 \<noteq> 0) = False" using b App by (simp add: rtcp_ok_def)
      have "writes (app_encode E src name (Some d)) (be32 src @ name @ d @ [])"
        unfolding app_encode_def option.case m if_False
        by (intro writes_bind [OF a32] writes_bind [OF writes_mem [OF E]]) (simp add: writes_return)
      then show ?thesis using False by simp
    qed
    moreover have "rtcp_payload E c (AppArgs src name x) = (\<lambda>mb. Some (run_state (app_encode E src name x) mb))" for c x
      by (rule ext) simp
    ultimately show ?thesis using appends_state by (simp only: App body_args.simps body_bytes.simps)
  next
    case (Fir x)
    have "rtcp_payload E c (FirArgs x) = (\<lambda>mb. Some (run_state (mbuf_write_u32 E (htonl x)) mb))" for c
      by (rule ext) simp
    then show ?thesis using appends_state [OF a32] by (simp add: Fir)
  next
    case (Nack x1 x2 x3)
    have u: "ucast (ucast x :: u32) = x" for x :: u16 by (simp add: unsigned_ucast_eq take_bit_word_eq_self)
    have "writes (do { e1 \<leftarrow> mbuf_write_u32 E (htonl x1); e2 \<leftarrow> mbuf_write_u16 E (htons x2); e3 \<leftarrow> mbuf_write_u16 E (htons x3);
        State_Monad.return (e1 OR e2 OR e3) }) (be32 x1 @ be16 x2 @ be16 x3 @ [])"
      by (intro writes_bind writes_hton [OF E]) (simp add: writes_return)
    note a = appends_state [OF this]
    have "rtcp_payload E c (NackArgs x1 (ucast x2) (ucast x3)) = (\<lambda>mb. Some (run_state (do { e1 \<leftarrow> mbuf_write_u32 E (htonl x1);
        e2 \<leftarrow> mbuf_write_u16 E (htons x2); e3 \<leftarrow> mbuf_write_u16 E (htons x3); State_Monad.return (e1 OR e2 OR e3) }) mb))" for c
      by (rule ext) (simp add: u)
    then show ?thesis using a by (simp add: Nack)
  next
    case (Fb p m n fc)
    have "rtcp_payload E c (RtpfbArgs p m h) = (\<lambda>mb. call_ench h (run_state (write_list E [p, m]) mb))"
        "rtcp_payload E c (PsfbArgs p m h) = (\<lambda>mb. call_ench h (run_state (write_list E [p, m]) mb))" for c h
      by (rule ext, simp)+
    then show ?thesis using fci_appends [OF E, of fc p m] by (cases fc) (simp_all only: Fb body_args.simps body_bytes.simps fci.case)
  next
    case NoBody
    then show ?thesis using b by (simp add: rtcp_ok_def)
  qed
qed

lemma decodes_list: "decodes (read_list (length ws)) (concat (map be32 ws)) ws"
proof (induction ws)
  case (Cons w ws)
  have "decodes (read_list (length (w # ws))) (be32 w @ concat (map be32 ws) @ []) (w # ws)"
    unfolding list.size(4) add_Suc_right add_0_right read_list.simps
    by (rule decodes_bind [OF decodes_ints(3)] decodes_bind [OF Cons.IH] decodes_return)+
  then show ?case by simp
qed (simp add: decodes_return)

lemma decodes_strdup: "alloc_total E \<Longrightarrow> length xs + 1 < size_mod \<Longrightarrow> decodes (mbuf_strdup E (length xs)) xs (0, xs)"
  by (simp add: decodes_def mb_simps alloc_total_def sz_add_small)

fun body_type :: "rtcp_body \<Rightarrow> u8" where
  "body_type (Sr a b c d e f rs) = RTCP_SR"
| "body_type (Rr a rs) = RTCP_RR"
| "body_type (Sdes ss) = RTCP_SDES"
| "body_type (Bye s r) = RTCP_BYE"
| "body_type (App s n d) = RTCP_APP"
| "body_type (Fir s) = RTCP_FIR"
| "body_type (Nack s f b) = RTCP_NACK"
| "body_type (Fb p m n fc) = (case fc of Gnacks gs \<Rightarrow> RTCP_RTPFB | _ \<Rightarrow> RTCP_PSFB)"
| "body_type NoBody = 0"

lemma args_type_body: "args_type (body_args E b) = body_type b"
  by (cases b) (simp_all split: fci.split)

text \<open>The header of a body.\<close>

definition hdr_of :: "rtcp_body \<Rightarrow> rtcp_hdr" where
  "hdr_of b = \<lparr>rc_version = RTCP_VERSION, rc_p = False, rc_count = of_nat (body_cnt b), rc_pt = body_type b,
     rc_length = of_nat (round4 (length (body_bytes b)) div 4)\<rparr>"

lemma rrv_decodes:
  assumes E: "alloc_total E" and rs: "list_all rr_ok rs" "length rs < 32"
  shows "decodes (rrv_decode E (length rs) f) (concat (map rr_bytes rs)) (Inr (f rs))"
proof -
  have a: "rtcp_rr_alloc E (length rs) = 0"
    using E rs(2) by (simp add: rtcp_rr_alloc_def alloc_total_def sizeof_rtcp_rr_def size_mod_def)
  have "decodes (rrv_decode E (length rs) f) (concat (map rr_bytes rs) @ []) (Inr (f rs))"
    unfolding rrv_decode_def a by (simp only: if_False not_True_eq_False simp_thms)
      (rule decodes_bind [OF decodes_rrs [OF rs(1)]], simp add: decodes_return)
  then show ?thesis by simp
qed

lemma bye_decodes:
  assumes E: "alloc_total E" and b: "rtcp_ok (Bye srcv r)"
  shows "decodes (bye_decode E (length srcv) (round4 (length (body_bytes (Bye srcv r))))) (body_bytes (Bye srcv r)) (Inr (Bye srcv r))"
proof -
  let ?l = "concat (map be32 srcv)"
  have n: "length srcv < 32" "length ?l = 4 * length srcv" using b
    by (simp_all add: rtcp_ok_def length_concat comp_def sum_list_triv)
  have al: "can_alloc E (length srcv * 4)" using E n(1) by (simp add: alloc_total_def size_mod_def)
  show ?thesis
  proof (cases r)
    case None
    have e: "(round4 (length ?l) > length srcv * 4) = False" using n(2) by (simp add: mod_4_round4)
    have "decodes (bye_decode E (length srcv) (round4 (length ?l))) (?l @ []) (Inr (Bye srcv None))"
      unfolding bye_decode_def e using al n(2)
      by (simp only: if_False if_True not_True_eq_False) (intro decodes_need decodes_bind [OF decodes_list], simp_all add: decodes_return)
    then show ?thesis by (simp add: None)
  next
    case (Some s)
    have s: "unat (of_nat (length s) :: u8) = length s" "length s + 1 < size_mod"
      using b by (simp_all add: Some rtcp_ok_def unsigned_of_nat take_bit_nat_eq_self size_mod_def)
    have e: "(round4 (length (?l @ of_nat (length s) # s)) > length srcv * 4) = True"
      using n(2) round4_bounds(1) [of "length (?l @ of_nat (length s) # s)"] by simp
    have i: "decodes (do { (err, x) \<leftarrow> mbuf_strdup E (length s);
        State_Monad.return (if err \<noteq> 0 then Inl err else Inr (Bye srcv (Some x))) }) (s @ []) (Inr (Bye srcv (Some s)))"
      by (rule decodes_bind [OF decodes_strdup [OF E s(2)]]) (simp add: decodes_return)
    have "decodes (bye_decode E (length srcv) (round4 (length (?l @ of_nat (length s) # s)))) (?l @ [of_nat (length s)] @ s @ [])
        (Inr (Bye srcv (Some s)))"
      unfolding bye_decode_def e using al n(2)
      by (simp only: if_False if_True not_True_eq_False)
        (intro decodes_need decodes_bind [OF decodes_list] decodes_bind [OF decodes_ints(1)], use i in \<open>simp_all add: s(1)\<close>)
    then show ?thesis by (simp add: Some)
  qed
qed

lemma app_decodes:
  assumes E: "alloc_total E" and b: "rtcp_ok (App src name d)"
  shows "decodes (app_decode E (round4 (length (body_bytes (App src name d))))) (body_bytes (App src name d)) (Inr (App src name d))"
proof -
  have l: "length name = 4" "length d mod 4 = 0" "length d \<le> 4 * 65535" using b by (simp_all add: rtcp_ok_def)
  then have "round4 (8 + length d) = 8 + length d" by (intro mod_4_round4) presburger
  then have r: "round4 (length (be32 src @ name @ d)) = 8 + length d" using l by simp
  have al: "can_alloc E (length d)" using E l(3) by (simp add: alloc_total_def size_mod_def)
  show ?thesis
  proof (cases "d = []")
    case True
    have "decodes (app_decode E (8 + length d)) (be32 src @ name @ []) (Inr (App src name []))"
      unfolding app_decode_def RTCP_APP_SIZE_def
      by (intro decodes_need decodes_bind [OF decodes_ints(3)] decodes_bind [OF decodes_mem]) (simp_all add: l True decodes_return)
    then show ?thesis using True r by simp
  next
    case False
    have i: "decodes (need (length d) (do { (_, x) \<leftarrow> mbuf_read_mem (length d); State_Monad.return (Inr (App src name x)) })) (d @ [])
        (Inr (App src name d))"
      by (rule decodes_need [OF _ decodes_bind [OF decodes_mem [OF refl]]]) (simp_all add: decodes_return)
    have "decodes (app_decode E (8 + length d)) (be32 src @ name @ d @ []) (Inr (App src name d))"
      unfolding app_decode_def RTCP_APP_SIZE_def
      by (intro decodes_need decodes_bind [OF decodes_ints(3)] decodes_bind [OF decodes_mem]) (use i al False in \<open>simp_all add: l\<close>)
    then show ?thesis using r by simp
  qed
qed

lemma fb_decodes:
  assumes b: "rtcp_ok (Fb p m n fc)" and d: "decodes (dec n) (fci_bytes fc) (Inr fc)"
  shows "decodes (fb_decode dec (rc_length (hdr_of (Fb p m n fc)))) (body_bytes (Fb p m n fc)) (Inr (Fb p m n fc))"
proof -
  let ?l = "length (fci_bytes fc)"
  have "?l = 4 * unat n"
    using b by (cases fc) (auto simp: rtcp_ok_def length_concat comp_def sum_list_triv gnack_bytes_def sli_bytes_def)
  then have "round4 (8 + ?l) div 4 = unat n + 2" "unat n + 2 \<le> 65535"
    using b mod_4_round4 [of "8 + ?l"] by (auto simp: rtcp_ok_def mod_4_round4)
  moreover have e: "length (body_bytes (Fb p m n fc)) = 8 + ?l" by simp
  ultimately have "unat (rc_length (hdr_of (Fb p m n fc))) = unat n + 2"
    by (simp only: hdr_of_def rtcp_hdr.simps e unsigned_of_nat) (simp add: take_bit_nat_eq_self)
  then have n: "ucast (rc_length (hdr_of (Fb p m n fc))) - 2 = n"
    by (simp add: word_unat_eq_iff unat_sub_if')
  have "decodes (fb_decode dec (rc_length (hdr_of (Fb p m n fc)))) (be32 p @ be32 m @ fci_bytes fc @ []) (Inr (Fb p m n fc))"
    unfolding fb_decode_def RTCP_FB_SIZE_def Let_def n
    by (intro decodes_need decodes_bind [OF decodes_ints(3)] decodes_bind [OF d]) (simp_all add: decodes_return)
  then show ?thesis by simp
qed

lemma body_decodes:
  assumes E: "alloc_total E" and b: "rtcp_ok b" "body_type b \<noteq> RTCP_SDES"
  shows "decodes (rtcp_body_decode E (hdr_of b) (round4 (length (body_bytes b)))) (body_bytes b) (Inr b)"
proof -
  have n: "unat (rc_count (hdr_of b)) = body_cnt b"
    using b(1) by (simp add: hdr_of_def rtcp_ok_def unsigned_of_nat take_bit_nat_eq_self)
  note d = rtcp_body_decode_def Let_def n
  show ?thesis
  proof (cases b)
    case (Sr x1 x2 x3 x4 x5 x6 rs)
    have "decodes (rtcp_body_decode E (hdr_of b) (round4 (length (body_bytes b))))
        (be32 x1 @ be32 x2 @ be32 x3 @ be32 x4 @ be32 x5 @ be32 x6 @ concat (map rr_bytes rs)) (Inr b)"
      unfolding d using b(1) rrv_decodes [OF E, of rs] by (simp add: Sr hdr_of_def rtcp_types rtcp_ok_def)
        (intro decodes_need decodes_bind [OF decodes_ints(3)], simp_all add: RTCP_SRC_SIZE_def RTCP_SR_SIZE_def)
    then show ?thesis by (simp add: Sr)
  next
    case (Rr x1 rs)
    have "decodes (rtcp_body_decode E (hdr_of b) (round4 (length (body_bytes b)))) (be32 x1 @ concat (map rr_bytes rs)) (Inr b)"
      unfolding d using b(1) rrv_decodes [OF E, of rs] by (simp add: Rr hdr_of_def rtcp_types rtcp_ok_def)
        (intro decodes_need decodes_bind [OF decodes_ints(3)], simp_all add: RTCP_SRC_SIZE_def)
    then show ?thesis by (simp add: Rr)
  next
    case (Sdes ss)
    then show ?thesis using b(2) by simp
  next
    case (Bye srcv r)
    then show ?thesis using bye_decodes [OF E, of srcv r] b(1) unfolding d by (simp add: hdr_of_def rtcp_types)
  next
    case (App src name x)
    then show ?thesis using app_decodes [OF E, of src name x] b(1) unfolding d by (simp add: hdr_of_def rtcp_types)
  next
    case (Fir x)
    have "decodes (do { a \<leftarrow> rd32; State_Monad.return (Inr (Fir a)) }) (be32 x @ []) (Inr (Fir x) :: err + rtcp_body)"
      by (rule decodes_bind [OF decodes_ints(3) decodes_return])
    then show ?thesis unfolding d by (simp add: Fir hdr_of_def rtcp_types decodes_need RTCP_FIR_SIZE_def)
  next
    case (Nack x1 x2 x3)
    have "decodes (do { a \<leftarrow> rd32; f \<leftarrow> rd16; b \<leftarrow> rd16; State_Monad.return (Inr (Nack a f b)) }) (be32 x1 @ be16 x2 @ be16 x3 @ [])
        (Inr (Nack x1 x2 x3) :: err + rtcp_body)"
      by (rule decodes_bind [OF decodes_ints(3)] decodes_bind [OF decodes_ints(2)] decodes_return)+
    then show ?thesis unfolding d by (simp add: Nack hdr_of_def rtcp_types decodes_need RTCP_NACK_SIZE_def)
  next
    case (Fb p m n fc)
    have nb: "unat n \<le> 65533 \<and> length (fci_bytes fc) = 4 * unat n"
      using b(1) by (cases fc) (auto simp: Fb rtcp_ok_def length_concat comp_def sum_list_triv gnack_bytes_def sli_bytes_def)
    then have n4: "unat (n * 4) = 4 * unat n" by (simp add: unat_word_ariths)
    have al: "can_alloc E (sz_mul a k)" for a k using E by (simp add: alloc_total_def)
    have f: "decodes (rtcp_rtpfb_decode E 1 n) (fci_bytes fc) (Inr fc)" if g: "fc = Gnacks gs" for gs
    proof -
      have l: "unat n = length gs" using b(1) g by (simp add: Fb rtcp_ok_def)
      have "decodes (do { r \<leftarrow> gnacks_decode (length gs); State_Monad.return (Inr (Gnacks r)) }) (concat (map gnack_bytes gs) @ [])
          (Inr (Gnacks gs) :: err + fci)"
        by (rule decodes_bind [OF decodes_gnacks decodes_return])
      then show ?thesis using nb by (simp add: rtcp_rtpfb_decode_def RTCP_RTPFB_GNACK_def al n4 l g decodes_need)
    qed
    have s: "decodes (rtcp_psfb_decode E (of_nat (fci_cnt fc)) n) (fci_bytes fc) (Inr fc)" if g: "\<And>gs. fc \<noteq> Gnacks gs"
    proof (cases fc)
      case FciNone
      then show ?thesis by (simp add: rtcp_psfb_decode_def RTCP_PSFB_PLI_def decodes_return)
    next
      case (Slis ss)
      have l: "unat n = length ss" "list_all sli_ok ss" using b(1) by (simp_all add: Fb Slis rtcp_ok_def)
      have "decodes (do { r \<leftarrow> slis_decode (length ss); State_Monad.return (Inr (Slis r)) }) (concat (map sli_bytes ss) @ [])
          (Inr (Slis ss) :: err + fci)"
        by (rule decodes_bind [OF decodes_slis [OF l(2)] decodes_return])
      then show ?thesis using nb
        by (simp add: rtcp_psfb_decode_def RTCP_PSFB_PLI_def RTCP_PSFB_SLI_def al n4 l(1) Slis decodes_need)
    qed (use g in simp)
    have h: "rc_count (hdr_of (Fb p m n fc)) = of_nat (fci_cnt fc)" by (simp add: hdr_of_def)
    have pt: "rc_pt (hdr_of (Fb p m n fc)) = (case fc of Gnacks gs \<Rightarrow> RTCP_RTPFB | _ \<Rightarrow> RTCP_PSFB)" by (simp add: hdr_of_def)
    show ?thesis
    proof (cases "\<exists>gs. fc = Gnacks gs")
      case True
      then obtain gs where g: "fc = Gnacks gs" by blast
      have c: "rc_count (hdr_of (Fb p m n fc)) = 1" unfolding h by (simp add: g)
      have "decodes (fb_decode (rtcp_rtpfb_decode E (rc_count (hdr_of (Fb p m n fc)))) (rc_length (hdr_of (Fb p m n fc))))
          (body_bytes (Fb p m n fc)) (Inr (Fb p m n fc))"
        using b(1) f [OF g] unfolding Fb c by (rule fb_decodes)
      then show ?thesis unfolding d Fb pt by (simp add: g rtcp_types)
    next
      case False
      have "decodes (fb_decode (rtcp_psfb_decode E (rc_count (hdr_of (Fb p m n fc)))) (rc_length (hdr_of (Fb p m n fc))))
          (body_bytes (Fb p m n fc)) (Inr (Fb p m n fc))"
        using b(1) s False unfolding Fb h by (intro fb_decodes) blast+
      then show ?thesis using False unfolding d Fb pt by (cases fc) (simp_all add: rtcp_types)
    qed
  next
    case NoBody
    then show ?thesis using b(1) by (simp add: rtcp_ok_def)
  qed
qed

lemma hdr_decodes:
  assumes "rtcp_ok b"
  shows "decodes rtcp_hdr_decode ([push_bit 6 RTCP_VERSION OR of_nat (body_cnt b), body_type b] @
    be16 (of_nat (round4 (length (body_bytes b)) div 4))) (Inr (hdr_of b))"
proof -
  let ?c = "of_nat (body_cnt b) :: u8" and ?l = "of_nat (round4 (length (body_bytes b)) div 4) :: u16"
  let ?b0 = "push_bit 6 RTCP_VERSION OR ?c"
  have "unat ?c < 32" using assms by (simp add: rtcp_ok_def unsigned_of_nat take_bit_nat_eq_self)
  then have "take_bit 5 ?c = ?c" by (simp add: word_unat_eq_iff unsigned_take_bit_eq take_bit_nat_eq_self)
  then have c: "bit ?c k \<Longrightarrow> k < 5" for k using bit_take_bit_iff [of 5 ?c k] by auto
  have m: "(0x1f :: u8) = mask 5" "(3 :: u8) = mask 2" "(1 :: u8) = mask 1" by (simp_all add: mask_eq_exp_minus_1)
  have hi: "\<not> bit ?c 5" "\<not> bit ?c 6" "\<not> bit ?c 7" using c [of 5] c [of 6] c [of 7] by auto
  have "drop_bit 6 ?c = 0" "drop_bit 5 ?c = 0"
    using \<open>unat ?c < 32\<close> by (simp_all add: word_unat_eq_iff unat_drop_bit_eq drop_bit_eq_div unat_div)
  then have v: "drop_bit 6 ?b0 AND 3 = RTCP_VERSION" and p: "(drop_bit 5 ?b0 AND 1 \<noteq> 0) = False"
    by (simp_all only: drop_bit_or or.right_neutral) (simp_all add: RTCP_VERSION_def)
  have "?b0 AND 0x1f = take_bit 5 ?b0" unfolding m by (rule take_bit_eq_mask [symmetric])
  also have "\<dots> = ?c" using \<open>take_bit 5 ?c = ?c\<close> by (simp only: take_bit_or) (simp add: RTCP_VERSION_def)
  finally have n: "?b0 AND 0x1f = ?c" .
  have e: "\<lparr>rc_version = drop_bit 6 ?b0 AND 3, rc_p = (drop_bit 5 ?b0 AND 1 \<noteq> 0), rc_count = ?b0 AND 0x1f,
       rc_pt = body_type b, rc_length = ?l\<rparr> = hdr_of b"
    unfolding v p n by (simp add: hdr_of_def)
  have "decodes (do { b \<leftarrow> mbuf_read_u8; pt \<leftarrow> mbuf_read_u8; len \<leftarrow> rd16;
      State_Monad.return (Inr \<lparr>rc_version = drop_bit 6 b AND 3, rc_p = (drop_bit 5 b AND 1 \<noteq> 0), rc_count = b AND 0x1f,
       rc_pt = pt, rc_length = len\<rparr>) }) ([?b0] @ [body_type b] @ be16 ?l @ []) (Inr (hdr_of b) :: err + rtcp_hdr)"
    by (rule decodes_cong [OF decodes_bind [OF decodes_ints(1) decodes_bind [OF decodes_ints(1) decodes_bind [OF decodes_ints(2) decodes_return]]]])
      (simp, simp only: e)
  then show ?thesis unfolding rtcp_hdr_decode_def by (intro decodes_need) (simp_all add: RTCP_HDR_SIZE_def)
qed

lemma body_round: "rtcp_ok b \<Longrightarrow> round4 (length (body_bytes b)) \<le> 4 * 65535"
proof -
  have "n \<le> 4 * 65535 \<Longrightarrow> (n + 3) div 4 * 4 \<le> 4 * 65535" for n :: nat by presburger
  then show "rtcp_ok b \<Longrightarrow> ?thesis" unfolding rtcp_ok_def round4_def by blast
qed

lemma chunk_items_length: "2 * length (sd_items s) \<le> length (chunk_bytes s)"
proof -
  have "2 * length is \<le> length (concat (map sitem_bytes is))" for "is"
    by (induction "is") (auto simp: sitem_bytes_def)
  from this [of "sd_items s"] show ?thesis
    using length_chunk(1) [of s] round4_bounds(1) [of "length (chunk_body s)"] unfolding length_chunk(2) by linarith
qed

lemma rtcp_decode_run:
  assumes E: "alloc_total E" and b: "rtcp_ok b" and mb: "mbuf_ok mb"
    and r: "mbuf_rest mb = pkt_bytes (of_nat (body_cnt b)) (body_type b) (body_bytes b) @ r"
  shows "rtcp_decode E mb = Some (Inr \<lparr>rm_hdr = hdr_of b, rm_body = b\<rparr>, adv (4 + round4 (length (body_bytes b))) mb)"
proof -
  let ?hdr = "[push_bit 6 RTCP_VERSION OR of_nat (body_cnt b), body_type b] @ be16 (of_nat (round4 (length (body_bytes b)) div 4))"
  let ?xs = "body_bytes b" and ?pad = "replicate (round4 (length (body_bytes b)) - length (body_bytes b)) (0 :: u8)"
  have le: "length ?xs \<le> round4 (length ?xs)" by (rule round4_bounds)
  have b4: "round4 (length ?xs) \<le> 4 * 65535" by (rule body_round [OF b])
  have rest: "mbuf_rest mb = ?hdr @ ?xs @ ?pad @ r" using r by (simp add: pkt_bytes_def)
  have h: "run_state rtcp_hdr_decode mb = (Inr (hdr_of b), adv 4 mb)"
    using hdr_decodes [OF b] mb rest unfolding decodes_def by fastforce
  have ok4: "mbuf_ok (adv 4 mb)" "mbuf_rest (adv 4 mb) = ?xs @ ?pad @ r" using mb rest by (simp_all add: mb_simps)
  have rem: "unat (rc_length (hdr_of b)) * 4 = round4 (length ?xs)"
  proof -
    have "round4 (length ?xs) div 4 < 65536" using b4 by simp
    then have "unat (rc_length (hdr_of b)) = round4 (length ?xs) div 4"
      by (simp add: hdr_of_def unsigned_of_nat take_bit_nat_eq_self)
    then show ?thesis using round4_bounds(3) [of "length ?xs"] by presburger
  qed
  have alloc: "can_alloc E sizeof_rtcp_msg" using E by (simp add: alloc_total_def sizeof_rtcp_msg_def size_mod_def)
  have body: "(if rc_pt (hdr_of b) = RTCP_SDES then sdesv_decode E (unat (rc_count (hdr_of b))) (adv 4 mb)
      else Some (run_state (rtcp_body_decode E (hdr_of b) (round4 (length ?xs))) (adv 4 mb))) = Some (Inr b, adv (4 + length ?xs) mb)"
  proof (cases "body_type b = RTCP_SDES")
    case True
    then obtain ss where ss: "b = Sdes ss" by (cases b) (auto simp: rtcp_types split: fci.splits)
    have n: "length ss < 32" "list_all sdes_ok ss" "length (concat (map chunk_bytes ss)) \<le> 4 * 65535" using b ss by (simp_all add: rtcp_ok_def)
    have small: "list_all (\<lambda>s. 12 * length (sd_items s) < size_mod) ss"
      unfolding list_all_iff
    proof
      fix s assume "s \<in> set ss"
      then have "length (chunk_bytes s) \<le> length (concat (map chunk_bytes ss))" by (induction ss) auto
      then show "12 * length (sd_items s) < size_mod" using chunk_items_length [of s] n(3) by (simp add: size_mod_def)
    qed
    have c: "unat (rc_count (hdr_of b)) = length ss"
      using n(1) by (simp add: ss hdr_of_def unsigned_of_nat take_bit_nat_eq_self)
    have al: "can_alloc E (length ss * sizeof_sdes)" using E n(1) by (simp add: alloc_total_def sizeof_sdes_def size_mod_def)
    have "sdes_chunks E (length ss) (adv 4 mb) = Some (Inr ss, adv (length ?xs) (adv 4 mb))"
      using sdes_chunks_run [OF E n(2) small ok4(1)] ok4(2) by (simp add: ss)
    then have "sdesv_decode E (unat (rc_count (hdr_of b))) (adv 4 mb) = Some (Inr b, adv (4 + length ?xs) mb)"
      unfolding c sdesv_decode_def using al by (auto simp: ss)
    then show ?thesis using True by (simp add: hdr_of_def)
  next
    case False
    have "run_state (rtcp_body_decode E (hdr_of b) (round4 (length ?xs))) (adv 4 mb) = (Inr b, adv (4 + length ?xs) mb)"
      using body_decodes [OF E b False] ok4 unfolding decodes_def by simp
    then show ?thesis using False by (simp add: hdr_of_def)
  qed
  let ?t = "adv (4 + length ?xs) mb"
  have t: "?t = adv (length ?xs) (adv 4 mb)" by simp
  have rt: "mbuf_rest (adv (length ?xs) (adv 4 mb)) = ?pad @ r"
    unfolding adv_simps(7) [of "length ?xs" "adv 4 mb"] ok4(2) by simp
  have "length ?xs \<le> length (mbuf_rest (adv 4 mb))" unfolding ok4(2) by simp
  then have ok: "mbuf_ok ?t" "mbuf_rest ?t = ?pad @ r"
    using mbuf_ok_adv [OF ok4(1)] rt unfolding t by blast+
  have "round4 (4 + n) = 4 + round4 n" for n unfolding round4_def by presburger
  then have p: "pad_skip (mb_pos mb) ?t = adv (round4 (length ?xs) - length ?xs) ?t"
    by (intro pad_skip_run) (use ok in simp_all)
  have lr: "length (mbuf_rest mb) = 4 + round4 (length ?xs) + length r" using rest le by simp
  have "rc_version (hdr_of b) = RTCP_VERSION" by (simp add: hdr_of_def)
  then show ?thesis
    using mb h body rem alloc p lr le ok4 by (simp add: rtcp_decode_def RTCP_HDR_SIZE_def mb_simps Let_def)
qed

text \<open>C35: Every packet of the types that are sent, with its reports, source descriptions, goodbye, application data or feedback, is
  read back as it was written; both sides stop behind its padding, and what was in the buffer before it is kept.\<close>

theorem rtcp_roundtrip:
  assumes "alloc_total E" "rtcp_ok b" "mbuf_ok mb" "mb_pos mb + 4 \<le> mb_size mb" "mb_pos mb + 4 + 4 * 65535 < size_mod"
  shows "\<exists>mb'. rtcp_encode E (of_nat (body_cnt b)) (body_args E b) mb = Some (0, mb') \<and>
    take (mb_pos mb) (mbuf_content mb') = take (mb_pos mb) (mbuf_content mb) \<and>
    rtcp_decode E (mb'\<lparr>mb_pos := mb_pos mb\<rparr>) = Some (Inr \<lparr>rm_hdr = hdr_of b, rm_body = b\<rparr>, mb')"
proof -
  let ?xs = "body_bytes b" and ?p = "mb_pos mb"
  have b4: "round4 (length ?xs) \<le> 4 * 65535" by (rule body_round [OF assms(2)])
  obtain mb' where m: "rtcp_vencode E (of_nat (body_cnt b)) (body_args E b) mb = Some (0, mb')" "mbuf_ok mb'" "mb_pos mb' = mb_end mb'"
      "mbuf_content mb' = take ?p (mbuf_content mb) @ pkt_bytes (ucast (of_nat (body_cnt b) :: u32)) (args_type (body_args E b)) ?xs"
    using rtcp_vencode_run [OF assms(1) payload_appends [OF assms(1,2)] assms(3,4)] b4 assms(5) by auto
  have u: "(ucast (of_nat (body_cnt b) :: u32) :: u8) = of_nat (body_cnt b)"
    using assms(2) by (simp add: rtcp_ok_def word_unat_eq_iff unsigned_ucast_eq unsigned_of_nat take_bit_nat_eq_self)
  have lp: "length (take ?p (mbuf_content mb)) = ?p" using assms(3) by (simp add: mbuf_ok_def)
  let ?t = "mb'\<lparr>mb_pos := ?p\<rparr>"
  have l: "mb_end mb' = ?p + (4 + round4 (length ?xs))"
    using m(2) length_mbuf_content [of mb'] lp by (simp add: m(4) mbuf_ok_def length_pkt_bytes)
  then have ok: "mbuf_ok ?t" using m(2) by (auto simp: mbuf_ok_def mbuf_wf_def split: option.splits)
  have r: "mbuf_rest ?t = pkt_bytes (of_nat (body_cnt b)) (body_type b) ?xs @ []"
    using lp by (simp add: mbuf_rest_def m(4) u args_type_body)
  have "adv (4 + round4 (length ?xs)) ?t = mb'" using l m(3) by (simp add: adv_def)
  with rtcp_decode_run [OF assms(1,2) ok r] m(1) show ?thesis using lp by (auto simp: rtcp_encode_def m(4))
qed

definition sample_buf :: mbuf where "sample_buf = \<lparr>mb_buf = Some (replicate 8 0), mb_size = 8, mb_pos = 0, mb_end = 0, mb_fault = False\<rparr>"

theorem rtcp_roundtrip_witness:
  "\<exists>mb'. rtcp_encode ideal_env 2 (ByeArgs [7, 9] (Some [98, 121, 101])) sample_buf = Some (0, mb') \<and>
    (\<exists>h. rtcp_decode ideal_env (mb'\<lparr>mb_pos := 0\<rparr>) = Some (Inr \<lparr>rm_hdr = h, rm_body = Bye [7, 9] (Some [98, 121, 101])\<rparr>, mb') \<and> rc_count h = 2)"
proof -
  have "rtcp_ok (Bye [7, 9] (Some [98, 121, 101]))" by (simp add: rtcp_ok_def)
  moreover have "mbuf_ok sample_buf" "mb_pos sample_buf = 0" "mb_size sample_buf = 8"
    by (simp_all add: mbuf_ok_def mbuf_wf_def sample_buf_def size_mod_def)
  ultimately show ?thesis
    using rtcp_roundtrip [OF alloc_total_ideal, of "Bye [7, 9] (Some [98, 121, 101])" sample_buf]
    by (auto simp: size_mod_def hdr_of_def)
qed

subsection \<open>Decoding ends and stays inside the buffer\<close>

lemma reader_case_sum [keeps_intros]:
  "(\<And>a. reader (f a)) \<Longrightarrow> (\<And>a. reader (g a)) \<Longrightarrow> reader (case x of Inl a \<Rightarrow> f a | Inr a \<Rightarrow> g a)"
  by (cases x) auto

lemma reader_need [keeps_intros]: "reader m \<Longrightarrow> reader (need k m)"
  unfolding need_def by (intro keeps_intros)

lemma reader_rd [keeps_intros]: "reader rd32" "reader rd16"
  unfolding rd32_def rd16_def by (intro keeps_intros)+

lemma reader_rtcp_hdr: "reader rtcp_hdr_decode"
  unfolding rtcp_hdr_decode_def by (intro keeps_intros)

lemma reader_rrs [keeps_intros]: "reader (rtcp_rrs_decode n)"
  by (induction n) (auto simp: rtcp_rr_decode_def intro!: keeps_intros)

lemma reader_lists [keeps_intros]: "reader (gnacks_decode n)" "reader (slis_decode n)" "reader (read_list n)"
  by (induction n) (auto intro!: keeps_intros)

lemma reader_bodies [keeps_intros]:
  "reader (rrv_decode E n f)" "reader (bye_decode E n rem)" "reader (app_decode E rem)"
  "reader (rtcp_rtpfb_decode E c k)" "reader (rtcp_psfb_decode E c k)"
  unfolding rrv_decode_def bye_decode_def app_decode_def rtcp_rtpfb_decode_def rtcp_psfb_decode_def
  by (intro keeps_intros; fail)+

lemma reader_fb [keeps_intros]: "(\<And>k. reader (dec k)) \<Longrightarrow> reader (fb_decode dec l)"
  unfolding fb_decode_def by (intro keeps_intros)

lemma body_reads:
  assumes "mbuf_ok s" "rem \<le> length (mbuf_rest s)" "run_state (rtcp_body_decode E hdr rem) s = (r, t)"
  shows "reads s t"
proof (cases "rc_pt hdr \<in> {RTCP_SR, RTCP_RR, RTCP_BYE, RTCP_APP, RTCP_FIR, RTCP_NACK, RTCP_RTPFB, RTCP_PSFB}")
  case True
  then have rd: "reader (rtcp_body_decode E hdr rem)"
    unfolding rtcp_body_decode_def Let_def by (elim insertE; simp add: rtcp_types) (intro keeps_intros; fail)+
  from readerD [OF rd assms(1,3)] show ?thesis by simp
next
  case False
  then have "rtcp_body_decode E hdr rem = do { _ \<leftarrow> mbuf_advance rem; State_Monad.return (Inr NoBody) }"
    by (simp add: rtcp_body_decode_def)
  then show ?thesis using assms mbuf_rest_less [OF assms(1)] by (auto simp: mb_simps reads_adv)
qed

lemma item_reads:
  assumes "mbuf_ok s" "mbuf_rest s \<noteq> []" "run_state (sdes_item_decode E n) s = (r, t)"
  shows "reads s t \<and> mb_pos s < mb_pos t"
proof -
  have l: "1 \<le> length (mbuf_rest s)" using assms(2) by (cases "mbuf_rest s") auto
  have u: "reads s (adv 1 s)" "mbuf_ok (adv 1 s)" using assms(1) l by (simp_all add: reads_adv mb_simps)
  obtain b where b: "run_state mbuf_read_u8 s = (b, adv 1 s)" using assms(1) l by (simp add: mb_simps)
  let ?m = "\<lambda>type. if type = RTCP_SDES_END then State_Monad.return (Inl 0)
      else need 1 (if \<not> can_alloc E ((n + 1) * sizeof_sdes_item) then State_Monad.return (Inl ENOMEM)
        else do {
          len \<leftarrow> mbuf_read_u8;
          need (unat len) (if \<not> can_alloc E (unat len) then State_Monad.return (Inl ENOMEM)
            else do { (_, s) \<leftarrow> mbuf_read_mem (unat len); State_Monad.return (Inr (type, s)) }) }) :: (mbuf, err + sdes_item) state"
  have r1: "reader (?m b)" by (intro keeps_intros)
  have r2: "run_state (?m b) (adv 1 s) = (r, t)" using assms(3) b by (simp add: sdes_item_decode_def)
  have "reads (adv 1 s) t" using readerD [OF r1 u(2) r2] by simp
  then show ?thesis using u(1) reads_trans reads_frame [of "adv 1 s" t] by auto
qed

lemma reads_left: "mbuf_ok s \<Longrightarrow> reads s t \<Longrightarrow> mb_pos s < mb_pos t \<Longrightarrow> length (mbuf_rest t) < length (mbuf_rest s)"
  by (auto simp: reads_def)

lemma sdes_loop_total:
  "mbuf_ok mb \<Longrightarrow> \<exists>err is t. sdes_loop E acc mb = Some ((err, is), t) \<and> reads mb t"
proof (induction "length (mbuf_rest mb)" arbitrary: mb acc rule: less_induct)
  case less
  show ?case
  proof (cases "mbuf_rest mb = []")
    case True
    then show ?thesis using less.prems by (subst sdes_loop.simps) (simp add: mb_simps RTCP_SDES_MIN_SIZE_def)
  next
    case False
    obtain r t where d: "run_state (sdes_item_decode E (length acc)) mb = (r, t)" by fastforce
    note rd = item_reads [OF less.prems False d]
    have l: "RTCP_SDES_MIN_SIZE \<le> mbuf_get_left mb" using False less.prems by (simp add: mb_simps RTCP_SDES_MIN_SIZE_def Suc_le_eq)
    show ?thesis
    proof (cases r)
      case (Inl err)
      then show ?thesis using l d rd by (subst sdes_loop.simps) simp
    next
      case (Inr it)
      have "mbuf_ok t" using less.prems rd reads_ok by blast
      then obtain err "is" u where "sdes_loop E (acc @ [it]) t = Some ((err, is), u)" "reads t u"
        using less.hyps [of t "acc @ [it]"] reads_left [OF less.prems] rd by blast
      then show ?thesis using l d rd Inr reads_trans by (subst sdes_loop.simps) fastforce
    qed
  qed
qed

lemma sdes_decode_total:
  assumes "mbuf_ok mb"
  shows "\<exists>r t. rtcp_sdes_decode E mb = Some (r, t) \<and> reads mb t"
proof (cases "mbuf_get_left mb < RTCP_SRC_SIZE")
  case False
  obtain src t where d: "run_state rd32 mb = (src, t)" by fastforce
  have t: "reads mb t" "mbuf_ok t" using readerD [OF reader_rd(1) assms d] by simp_all
  obtain err "is" u where u: "sdes_loop E [] t = Some ((err, is), u)" "reads t u" using sdes_loop_total [OF t(2)] by blast
  have mu: "reads mb u" "mbuf_ok u" using t u(2) reads_trans reads_ok by blast+
  then have "reads mb (pad_skip (mb_pos mb) u)" using pad_skip_reads reads_trans by blast
  then show ?thesis using d u(1) mu False by (simp add: rtcp_sdes_decode_def)
qed (simp add: rtcp_sdes_decode_def)

lemma sdes_chunks_total: "mbuf_ok mb \<Longrightarrow> \<exists>r t. sdes_chunks E n mb = Some (r, t) \<and> reads mb t"
proof (induction n arbitrary: mb)
  case (Suc n)
  obtain r t where d: "rtcp_sdes_decode E mb = Some (r, t)" "reads mb t" using sdes_decode_total [OF Suc.prems] by blast
  have "mbuf_ok t" using d(2) Suc.prems reads_ok by blast
  then obtain r' u where "sdes_chunks E n t = Some (r', u)" "reads t u" using Suc.IH by blast
  then show ?case using d reads_trans by (cases r) auto
qed simp

text \<open>C36: Whatever is received, decoding a packet ends, and it reads only bytes of the buffer: the block, the end and the fault
  flag of the buffer are as before and the position stays inside.\<close>

theorem rtcp_decode_safe:
  assumes "mbuf_ok mb"
  shows "\<exists>r mb'. rtcp_decode E mb = Some (r, mb') \<and> mbuf_ok mb' \<and> mbuf_content mb' = mbuf_content mb \<and> \<not> mb_fault mb' \<and>
    mb_pos mb \<le> mb_pos mb'"
proof -
  have "\<exists>r mb'. rtcp_decode E mb = Some (r, mb') \<and> reads mb mb'"
  proof (cases "mbuf_get_left mb < RTCP_HDR_SIZE \<or> \<not> can_alloc E sizeof_rtcp_msg")
    case False
    obtain h t where h: "run_state rtcp_hdr_decode mb = (h, t)" by fastforce
    have t: "reads mb t" "mbuf_ok t" using readerD [OF reader_rtcp_hdr assms h] by simp_all
    show ?thesis
    proof (cases "\<exists>hdr. h = Inr hdr \<and> rc_version hdr = RTCP_VERSION \<and> unat (rc_length hdr) * 4 \<le> mbuf_get_left t")
      case True
      then obtain hdr where hdr: "h = Inr hdr" "rc_version hdr = RTCP_VERSION" "unat (rc_length hdr) * 4 \<le> mbuf_get_left t" by blast
      have "\<exists>r u. (if rc_pt hdr = RTCP_SDES then sdesv_decode E (unat (rc_count hdr)) t
          else Some (run_state (rtcp_body_decode E hdr (unat (rc_length hdr) * 4)) t)) = Some (r, u) \<and> reads t u"
      proof (cases "rc_pt hdr = RTCP_SDES")
        case True
        obtain r u where "sdes_chunks E (unat (rc_count hdr)) t = Some (r, u)" "reads t u" using sdes_chunks_total [OF t(2)] by blast
        then show ?thesis using True by (simp add: sdesv_decode_def)
      next
        case other: False
        obtain r u where "run_state (rtcp_body_decode E hdr (unat (rc_length hdr) * 4)) t = (r, u)" by fastforce
        then show ?thesis using body_reads [OF t(2)] hdr(3) t(2) other by (simp add: mb_simps)
      qed
      then obtain r u where u: "(if rc_pt hdr = RTCP_SDES then sdesv_decode E (unat (rc_count hdr)) t
          else Some (run_state (rtcp_body_decode E hdr (unat (rc_length hdr) * 4)) t)) = Some (r, u)" "reads t u" by blast
      have mu: "reads mb u" "mbuf_ok u" using t u(2) reads_trans reads_ok by blast+
      then have "reads mb (pad_skip (mb_pos mb) u)" using pad_skip_reads reads_trans by blast
      then show ?thesis using False h hdr u(1) mu(1) by (cases r) (simp_all add: rtcp_decode_def Let_def)
    next
      case nope: False
      show ?thesis
      proof (cases h)
        case (Inl err)
        then show ?thesis using False h t by (simp add: rtcp_decode_def)
      next
        case (Inr hdr)
        then show ?thesis using nope False h t by (auto simp: rtcp_decode_def Let_def)
      qed
    qed
  qed (auto simp: rtcp_decode_def)
  then obtain r mb' where d: "rtcp_decode E mb = Some (r, mb')" "reads mb mb'" by blast
  have "mbuf_content mb' = mbuf_content mb" using d(2) by (auto simp: reads_def)
  moreover have "mbuf_ok mb'" using assms d(2) reads_ok by blast
  ultimately show ?thesis using d reads_frame [OF d(2)] assms by (auto simp: mbuf_ok_def mbuf_wf_def)
qed

theorem rtcp_decode_safe_witness:
  "\<exists>r mb'. rtcp_decode ideal_env sample_buf = Some (r, mb') \<and> \<not> mb_fault mb'"
proof -
  have "mbuf_ok sample_buf" by (simp add: mbuf_ok_def mbuf_wf_def sample_buf_def size_mod_def)
  from rtcp_decode_safe [OF this, of ideal_env] show ?thesis by blast
qed

end
