(* ===== verification/Tmr.thy ===== *)
theory Tmr
  imports LinkedList
begin

text \<open>
  Timers: \<^verbatim>\<open>src/tmr/tmr.c\<close> and \<^verbatim>\<open>include/re_tmr.h\<close>.

  The state is the heap of \<^verbatim>\<open>LinkedList\<close>, the \<^verbatim>\<open>struct tmr\<close> objects (each with its list element at the
  same address; the element's data pointer is the timer) and the rest of the world \<open>'w\<close>, which the
  timeout handlers change. The clock (\<^verbatim>\<open>tmr_jiffies\<close>) is an argument, \<open>now\<close>; so is the timer list of
  the thread. Handlers and their arguments are of arbitrary types. A result \<open>None\<close> means that
  the loop does not end.
\<close>

subsection \<open>State and operations\<close>

record ('h, 'a) tmr =
  tmr_th :: "'h option"
  tmr_arg :: 'a
  tmr_jfs :: u64

type_synonym ('h, 'a, 'w) tmr_state = "addr lheap \<times> (addr \<Rightarrow> ('h, 'a) tmr) \<times> 'w"

text \<open>The timer of a list element: \<^verbatim>\<open>le->data\<close>.\<close>

definition tmr_of :: "addr \<Rightarrow> ('h, 'a, 'w) tmr_state \<Rightarrow> ('h, 'a) tmr" where
  "tmr_of le s = (case s of (h, tm, w) \<Rightarrow> tm (the (le_data (les h le))))"

definition inspos_handler :: "u64 \<Rightarrow> addr \<Rightarrow> ('h, 'a, 'w) tmr_state \<Rightarrow> bool \<times> ('h, 'a, 'w) tmr_state" where
  "inspos_handler now le s = (tmr_jfs (tmr_of le s) \<le> now, s)"

definition inspos_handler_0 :: "u64 \<Rightarrow> addr \<Rightarrow> ('h, 'a, 'w) tmr_state \<Rightarrow> bool \<times> ('h, 'a, 'w) tmr_state" where
  "inspos_handler_0 now le s = (tmr_jfs (tmr_of le s) > now, s)"

definition tmr_init :: "'a \<Rightarrow> addr \<Rightarrow> ('h, 'a, 'w) tmr_state \<Rightarrow> ('h, 'a, 'w) tmr_state" where
  "tmr_init null t s = (case s of (h, tm, w) \<Rightarrow>
     (upd_le t (\<lambda>_. \<lparr>le_prev = None, le_next = None, le_list = None, le_data = None\<rparr>) h,
      tm(t := \<lparr>tmr_th = None, tmr_arg = null, tmr_jfs = 0\<rparr>), w))"

definition tmr_start ::
  "addr \<Rightarrow> u64 \<Rightarrow> addr \<Rightarrow> u64 \<Rightarrow> 'h option \<Rightarrow> 'a \<Rightarrow> ('h, 'a, 'w) tmr_state \<Rightarrow> ('h, 'a, 'w) tmr_state option" where
  "tmr_start tmrl now t delay th arg s = (case s of (h, tm, w) \<Rightarrow>
     let h = (if tmr_th (tm t) \<noteq> None then list_unlink t h else h);
         tm = tm(t := (tm t)\<lparr>tmr_th := th, tmr_arg := arg\<rparr>)
     in if th = None then Some (h, tm, w)
        else let
          jfs = delay + now;
          tm = tm(t := (tm t)\<lparr>tmr_jfs := jfs\<rparr>)
        in if delay = 0 then
             (case list_apply tmrl True (inspos_handler_0 jfs) (h, tm, w) of
                None \<Rightarrow> None
              | Some (Some le, h, tm, w) \<Rightarrow> Some (list_insert_before tmrl le t (Some t) h, tm, w)
              | Some (None, h, tm, w) \<Rightarrow> Some (list_append tmrl t (Some t) h, tm, w))
           else
             (case list_apply tmrl False (inspos_handler jfs) (h, tm, w) of
                None \<Rightarrow> None
              | Some (Some le, h, tm, w) \<Rightarrow> Some (list_insert_after tmrl le t (Some t) h, tm, w)
              | Some (None, h, tm, w) \<Rightarrow> Some (list_prepend tmrl t (Some t) h, tm, w)))"

text \<open>The handler argument that a cancelled timer gets is \<^verbatim>\<open>NULL\<close>.\<close>

definition tmr_cancel :: "addr \<Rightarrow> u64 \<Rightarrow> 'a \<Rightarrow> addr \<Rightarrow> ('h, 'a, 'w) tmr_state \<Rightarrow> ('h, 'a, 'w) tmr_state option" where
  "tmr_cancel tmrl now null t s = tmr_start tmrl now t 0 None null s"

text \<open>\<open>call\<close> runs a timeout handler; it may start and cancel timers. \<open>jfs\<close> is read once.\<close>

partial_function (option) tmr_poll ::
  "addr \<Rightarrow> u64 \<Rightarrow> ('h \<Rightarrow> 'a \<Rightarrow> ('h, 'a, 'w) tmr_state \<Rightarrow> ('h, 'a, 'w) tmr_state)
   \<Rightarrow> ('h, 'a, 'w) tmr_state \<Rightarrow> ('h, 'a, 'w) tmr_state option" where
  "tmr_poll tmrl jfs call s = (case s of (h, tm, w) \<Rightarrow>
     (case list_ledata (head (lsts h tmrl)) h of
        None \<Rightarrow> Some s
      | Some t \<Rightarrow>
          if tmr_jfs (tm t) > jfs then Some s
          else let th = tmr_th (tm t);
                   th_arg = tmr_arg (tm t);
                   s = (list_unlink t h, tm(t := (tm t)\<lparr>tmr_th := None\<rparr>), w)
               in (case th of
                     None \<Rightarrow> tmr_poll tmrl jfs call s
                   | Some f \<Rightarrow> tmr_poll tmrl jfs call (call f th_arg s))))"

definition tmr_next_timeout :: "addr \<Rightarrow> u64 \<Rightarrow> ('h, 'a, 'w) tmr_state \<Rightarrow> u64" where
  "tmr_next_timeout tmrl now s = (case s of (h, tm, w) \<Rightarrow>
     (case list_ledata (head (lsts h tmrl)) h of
        None \<Rightarrow> 0
      | Some t \<Rightarrow> if tmr_jfs (tm t) \<le> now then 1 else tmr_jfs (tm t) - now))"

definition tmr_get_expire :: "u64 \<Rightarrow> ('h, 'a) tmr \<Rightarrow> u64" where
  "tmr_get_expire now t =
     (if tmr_th t = None then 0 else if tmr_jfs t > now then tmr_jfs t - now else 0)"

definition tmr_isrunning :: "('h, 'a) tmr \<Rightarrow> bool" where
  "tmr_isrunning t = (tmr_th t \<noteq> None)"

subsection \<open>Invariant\<close>

text \<open>
  \<open>T\<close> are the timer objects, \<open>S\<close> the sequences of the lists: the timers in the list are the running
  ones, their elements carry them, and they are in the order of their expiry.
\<close>

definition tmr_ok :: "addr \<Rightarrow> addr set \<Rightarrow> (addr \<Rightarrow> addr list) \<Rightarrow> ('h, 'a, 'w) tmr_state \<Rightarrow> bool" where
  "tmr_ok L T S s \<longleftrightarrow> (case s of (h, tm, w) \<Rightarrow>
     heap_ok h S \<and> set (S L) \<subseteq> T \<and>
     (\<forall>t\<in>T. (tmr_isrunning (tm t) \<longleftrightarrow> t \<in> set (S L)) \<and> (t \<notin> set (S L) \<longrightarrow> le_list (les h t) = None)) \<and>
     (\<forall>t\<in>set (S L). le_data (les h t) = Some t) \<and> sorted (map (\<lambda>t. tmr_jfs (tm t)) (S L)))"

lemma tmr_okD:
  assumes "tmr_ok L T S (h, tm, w)"
  shows "heap_ok h S" "set (S L) \<subseteq> T" "\<And>t. t \<in> T \<Longrightarrow> tmr_isrunning (tm t) \<longleftrightarrow> t \<in> set (S L)"
    "\<And>t. t \<in> T \<Longrightarrow> t \<notin> set (S L) \<Longrightarrow> le_list (les h t) = None"
    "\<And>t. t \<in> set (S L) \<Longrightarrow> le_data (les h t) = Some t" "sorted (map (\<lambda>t. tmr_jfs (tm t)) (S L))"
  using assms by (auto simp: tmr_ok_def)

text \<open>A sorted sequence is what is due, then what is not.\<close>

lemma sorted_split:
  "sorted (map f xs) \<Longrightarrow> filter (\<lambda>x. f x \<le> v) xs @ filter (\<lambda>x. v < f x) xs = (xs :: 'x list)"
  for f :: "'x \<Rightarrow> 'k::linorder"
proof (induction xs)
  case Nil
  then show ?case by simp
next
  case (Cons x xs)
  show ?case
  proof (cases "f x \<le> v")
    case True
    with Cons show ?thesis by auto
  next
    case False
    then have "filter (\<lambda>x. f x \<le> v) xs = []" using Cons.prems by (auto simp: filter_empty_conv)
    with Cons False show ?thesis by auto
  qed
qed

lemma find_skip: "(\<And>x. x \<in> set xs \<Longrightarrow> \<not> p x) \<Longrightarrow> find p (xs @ ys) = find p ys"
  by (induction xs) auto

lemma find_all: "(\<And>x. x \<in> set xs \<Longrightarrow> p x) \<Longrightarrow> find p xs = first_or xs None"
  by (cases xs) auto

lemma apply_seq_inspos:
  assumes "\<And>x. x \<in> set xs \<Longrightarrow> le_data (les h x) = Some x"
  shows "apply_seq (inspos_handler v) xs (h, tm, w) = (find (\<lambda>x. tmr_jfs (tm x) \<le> v) xs, h, tm, w)"
    "apply_seq (inspos_handler_0 v) xs (h, tm, w) = (find (\<lambda>x. v < tmr_jfs (tm x)) xs, h, tm, w)"
  using assms by (induction xs) (auto simp: inspos_handler_def inspos_handler_0_def tmr_of_def)

lemma inspos_keeps_rest: "keeps_rest fwd L (inspos_handler v)" "keeps_rest fwd L (inspos_handler_0 v)"
proof -
  have *: "\<exists>S' xs'. heap_ok (fst s) S' \<and> S' L = (if fwd then xs' @ ys else rev ys @ xs')"
    if "heap_ok (fst s) S" "S L = (if fwd then xs @ e # ys else rev ys @ e # xs)"
    for s :: "('h, 'a, 'w) tmr_state" and S xs e ys
    using that by (intro exI [of _ S] exI [of _ "if fwd then xs @ [e] else e # xs"]) simp
  show "keeps_rest fwd L (inspos_handler v)" "keeps_rest fwd L (inspos_handler_0 v)"
    unfolding keeps_rest_def inspos_handler_def inspos_handler_0_def by (auto intro: * simp del: split_paired_All)
qed

subsection \<open>Starting and cancelling\<close>

text \<open>The sequence with a timer that is to expire at \<open>v\<close> put in its place.\<close>

definition tmr_insert :: "(addr \<Rightarrow> u64) \<Rightarrow> addr \<Rightarrow> addr list \<Rightarrow> addr list" where
  "tmr_insert f t xs = filter (\<lambda>x. f x \<le> f t) xs @ t # filter (\<lambda>x. f t < f x) xs"

lemma tmr_insert_sorted:
  "sorted (map f xs) \<Longrightarrow> sorted (map f (tmr_insert f t xs))"
  by (fastforce simp: tmr_insert_def sorted_append sorted_filter intro: order_trans)

lemma set_tmr_insert: "set (tmr_insert f t xs) = insert t (set xs)"
  by (auto simp: tmr_insert_def)

text \<open>Both searches find the same place.\<close>

lemma tmr_place:
  assumes ok: "heap_ok h S" and t: "le_list (les h t) = None"
    and data: "\<And>x. x \<in> set (S L) \<Longrightarrow> le_data (les h x) = Some x"
    and srt: "sorted (map (\<lambda>x. tmr_jfs (tm x)) (S L))"
  defines "v \<equiv> tmr_jfs (tm t)"
  defines "ys \<equiv> tmr_insert (\<lambda>x. tmr_jfs (tm x)) t (S L)"
  shows "\<exists>h'. (case list_apply L True (inspos_handler_0 v) (h, tm, w) of
        None \<Rightarrow> None
      | Some (Some le, h, tm, w) \<Rightarrow> Some (list_insert_before L le t (Some t) h, tm, w)
      | Some (None, h, tm, w) \<Rightarrow> Some (list_append L t (Some t) h, tm, w)) = Some (h', tm, w) \<and>
      heap_ok h' (S(L := ys)) \<and> (\<forall>x. le_data (les h' x) = (if x = t then Some t else le_data (les h x)))"
    "\<exists>h'. (case list_apply L False (inspos_handler v) (h, tm, w) of
        None \<Rightarrow> None
      | Some (Some le, h, tm, w) \<Rightarrow> Some (list_insert_after L le t (Some t) h, tm, w)
      | Some (None, h, tm, w) \<Rightarrow> Some (list_prepend L t (Some t) h, tm, w)) = Some (h', tm, w) \<and>
      heap_ok h' (S(L := ys)) \<and> (\<forall>x. le_data (les h' x) = (if x = t then Some t else le_data (les h x)))"
proof -
  let ?A = "filter (\<lambda>x. tmr_jfs (tm x) \<le> v) (S L)" and ?B = "filter (\<lambda>x. v < tmr_jfs (tm x)) (S L)"
  have AB: "S L = ?A @ ?B" using sorted_split [OF srt] by simp
  have ys: "ys = ?A @ t # ?B" by (simp add: ys_def tmr_insert_def v_def)
  have fresh: "t \<notin> set (S L)" using heap_ok_free [OF ok t] .
  have le: "x \<noteq> t" if "x \<in> set (S L)" for x using that fresh by auto
  have "find (\<lambda>x. v < tmr_jfs (tm x)) (S L) = find (\<lambda>x. v < tmr_jfs (tm x)) ?B"
    by (subst AB, rule find_skip) auto
  also have "\<dots> = (case ?B of [] \<Rightarrow> None | b # _ \<Rightarrow> Some b)"
    by (cases ?B) (auto dest: filter_eq_ConsD)
  finally have fwd: "list_apply L True (inspos_handler_0 v) (h, tm, w) =
      Some (case ?B of [] \<Rightarrow> None | b # _ \<Rightarrow> Some b, h, tm, w)"
    using list_apply_run [where fwd = True and L = L and s = "(h, tm, w)" and S = S, OF inspos_keeps_rest(2)] ok data
    by (simp add: apply_seq_inspos)
  have "find (\<lambda>x. tmr_jfs (tm x) \<le> v) (rev (S L)) = find (\<lambda>x. tmr_jfs (tm x) \<le> v) (rev ?A)"
    by (subst AB, subst rev_append, rule find_skip) auto
  also have "\<dots> = last_or ?A None"
    unfolding last_or_rev by (rule find_all) simp
  finally have bwd: "list_apply L False (inspos_handler v) (h, tm, w) = Some (last_or ?A None, h, tm, w)"
    using list_apply_run [where fwd = False and L = L and s = "(h, tm, w)" and S = S, OF inspos_keeps_rest(1)] ok
      apply_seq_inspos(1) [of "rev (S L)" h v tm w] data by simp
  show "\<exists>h'. (case list_apply L True (inspos_handler_0 v) (h, tm, w) of
        None \<Rightarrow> None
      | Some (Some le, h, tm, w) \<Rightarrow> Some (list_insert_before L le t (Some t) h, tm, w)
      | Some (None, h, tm, w) \<Rightarrow> Some (list_append L t (Some t) h, tm, w)) = Some (h', tm, w) \<and>
      heap_ok h' (S(L := ys)) \<and> (\<forall>x. le_data (les h' x) = (if x = t then Some t else le_data (les h x)))"
  proof (cases ?B)
    case Nil
    then have "ys = S L @ [t]" using ys AB by simp
    then show ?thesis using Nil fwd list_append_ok [OF ok t, of L "Some t"] list_ops_data(1) [OF t]
      by simp
  next
    case (Cons b bs)
    have S: "S L = ?A @ b # bs" using AB Cons by simp
    then have "t \<noteq> b" using le [of b] by (metis in_set_conv_decomp)
    then show ?thesis
      using Cons fwd ys list_insert_before_ok [OF ok t S, of "Some t"] list_ops_data(3) [OF t] by simp
  qed
  show "\<exists>h'. (case list_apply L False (inspos_handler v) (h, tm, w) of
        None \<Rightarrow> None
      | Some (Some le, h, tm, w) \<Rightarrow> Some (list_insert_after L le t (Some t) h, tm, w)
      | Some (None, h, tm, w) \<Rightarrow> Some (list_prepend L t (Some t) h, tm, w)) = Some (h', tm, w) \<and>
      heap_ok h' (S(L := ys)) \<and> (\<forall>x. le_data (les h' x) = (if x = t then Some t else le_data (les h x)))"
  proof (cases "?A = []")
    case True
    then have "ys = t # S L" using ys AB by simp
    then show ?thesis using True bwd list_prepend_ok [OF ok t, of L "Some t"] list_ops_data(2) [OF t]
      by simp
  next
    case False
    then obtain as a where A: "?A = as @ [a]" by (meson rev_exhaust)
    have S: "S L = as @ a # ?B" using AB A by (metis append_Cons append_Nil append_assoc)
    then have "t \<noteq> a" using le [of a] by (metis in_set_conv_decomp)
    then show ?thesis
      using A bwd ys list_insert_after_ok [OF ok t S, of "Some t"] list_ops_data(4) [OF t] by simp
  qed
qed

lemma tmr_stop:
  assumes ok: "tmr_ok L T S (h, tm, w)" and t: "t \<in> T"
  defines "h1 \<equiv> (if tmr_th (tm t) \<noteq> None then list_unlink t h else h)"
  shows "heap_ok h1 (S(L := remove1 t (S L)))" "le_list (les h1 t) = None"
    "\<And>x. le_data (les h1 x) = le_data (les h x)" "t \<notin> set (remove1 t (S L))"
    "\<And>x. x \<in> T \<Longrightarrow> x \<notin> set (S L) \<Longrightarrow> le_list (les h1 x) = None"
proof -
  note o = tmr_okD [OF ok]
  have run: "tmr_th (tm t) \<noteq> None \<longleftrightarrow> t \<in> set (S L)" using o(3) [OF t] by (simp add: tmr_isrunning_def)
  show h1: "heap_ok h1 (S(L := remove1 t (S L)))"
    using run o(1) list_unlink_ok [OF o(1)] by (auto simp: h1_def remove1_idem)
  show "t \<notin> set (remove1 t (S L))" using heap_okD(2) [OF o(1)] by simp
  show "le_list (les h1 t) = None"
    using run list_unlink_frees [OF o(1), of t] o(4) [OF t] by (auto simp: h1_def)
  show "le_data (les h1 x) = le_data (les h x)" for x by (simp add: h1_def list_ops_data)
  show "le_list (les h1 x) = None" if "x \<in> T" "x \<notin> set (S L)" for x
  proof (cases "tmr_th (tm t) \<noteq> None")
    case True
    then obtain xs ys where S: "S L = xs @ t # ys" using run by (auto dest: split_list)
    then have f: "le_prev (les h t) = last_or xs None" "le_next (les h t) = first_or ys None" "t \<noteq> x"
      using heap_okD(1) [OF o(1), of L] that by auto
    then have "le_prev (les h t) \<noteq> Some x" "le_next (les h t) \<noteq> Some x"
      using that(2) S by (auto simp: last_or_def) (cases ys; auto)
    then have "les h1 x = les h x"
      using f(3) True by (auto simp: h1_def list_unlink_def Let_def split: option.splits)
    then show ?thesis using o(4) [OF that] by simp
  next
    case False
    then show ?thesis using o(4) [OF that] by (simp add: h1_def)
  qed
qed

lemma sorted_remove1_map: "sorted (map f xs) \<Longrightarrow> sorted (map f (remove1 x xs))"
proof (induction xs)
  case (Cons y ys)
  then show ?case using set_remove1_subset [of x ys] by auto
qed simp

lemma tmr_ok_start:
  fixes delay now :: u64 and f :: 'h and arg :: 'a and tm :: "addr \<Rightarrow> ('h, 'a) tmr" and w :: 'w
  assumes ok: "tmr_ok L T S (h, tm, w)" and t: "t \<in> T"
  defines "tm' \<equiv> tm(t := \<lparr>tmr_th = Some f, tmr_arg = arg, tmr_jfs = delay + now\<rparr>)"
  defines "S' \<equiv> S(L := tmr_insert (\<lambda>x. tmr_jfs (tm' x)) t (remove1 t (S L)))"
  shows "\<exists>h'. tmr_start L now t delay (Some f) arg (h, tm, w) = Some (h', tm', w) \<and>
    tmr_ok L T S' (h', tm', w)"
proof -
  note o = tmr_okD [OF ok] and u = tmr_stop [OF ok t]
  define h1 where "h1 = (if tmr_th (tm t) \<noteq> None then list_unlink t h else h)"
  define S1 where "S1 = S(L := remove1 t (S L))"
  note u = u [folded h1_def]
  have tm: "(tm(t := (tm t)\<lparr>tmr_th := Some f, tmr_arg := arg\<rparr>))(t := ((tm(t := (tm t)
      \<lparr>tmr_th := Some f, tmr_arg := arg\<rparr>)) t)\<lparr>tmr_jfs := delay + now\<rparr>) = tm'"
    by (cases "tm t") (simp add: tm'_def)
  have v: "tmr_jfs (tm' t) = delay + now" by (simp add: tm'_def)
  have "map (\<lambda>x. tmr_jfs (tm' x)) (S1 L) = map (\<lambda>x. tmr_jfs (tm x)) (S1 L)"
    using u(4) by (auto simp: tm'_def S1_def)
  moreover have "sorted (map (\<lambda>x. tmr_jfs (tm x)) (S1 L))"
    using sorted_remove1_map [OF o(6), of t] by (simp add: S1_def)
  ultimately have srt: "sorted (map (\<lambda>x. tmr_jfs (tm' x)) (S1 L))" by (simp only:)
  have d: "\<And>x. x \<in> set (S1 L) \<Longrightarrow> le_data (les h1 x) = Some x"
    using o(5) u(3) set_remove1_subset [of t "S L"] by (auto simp: S1_def)
  have h1: "heap_ok h1 S1" using u(1) by (simp add: S1_def)
  have S': "S1(L := tmr_insert (\<lambda>x. tmr_jfs (tm' x)) t (S1 L)) = S'" by (simp add: S'_def S1_def)
  obtain h' where h': "tmr_start L now t delay (Some f) arg (h, tm, w) = Some (h', tm', w)"
    "heap_ok h' S'" "\<forall>x. le_data (les h' x) = (if x = t then Some t else le_data (les h1 x))"
    using tmr_place [OF h1 u(2) d srt, of w]
    unfolding tmr_start_def prod.case h1_def [symmetric] Let_def tm v S' by (cases "delay = 0") auto
  have set: "set (S' L) = insert t (set (S L))"
    using heap_okD(2) [OF o(1), of L] by (auto simp: S'_def set_tmr_insert)
  have "le_list (les h' x) = None" if "x \<in> T" "x \<notin> set (S' L)" for x
  proof (cases "le_list (les h' x)")
    case (Some M)
    then have "x \<in> set (S' M)" "M \<noteq> L" using heap_okD(5) [OF h'(2)] that by auto
    then have "le_list (les h x) = Some M" using heap_okD(5) [OF o(1)] by (simp add: S'_def)
    then show ?thesis using o(4) [OF that(1)] that(2) set by simp
  qed simp
  then have "tmr_ok L T S' (h', tm', w)"
    using h'(2,3) o u(3) set t tmr_insert_sorted [OF srt] S'
    by (auto simp: tmr_ok_def tm'_def tmr_isrunning_def S1_def S'_def)
  then show ?thesis using h'(1) by blast
qed

lemma tmr_ok_cancel:
  assumes ok: "tmr_ok L T S (h, tm, w)" and t: "t \<in> T"
  shows "\<exists>h'. tmr_start L now t delay None arg (h, tm, w) =
      Some (h', tm(t := (tm t)\<lparr>tmr_th := None, tmr_arg := arg\<rparr>), w) \<and>
    tmr_ok L T (S(L := remove1 t (S L))) (h', tm(t := (tm t)\<lparr>tmr_th := None, tmr_arg := arg\<rparr>), w)"
proof -
  note o = tmr_okD [OF ok] and u = tmr_stop [OF ok t]
  let ?tm = "tm(t := (tm t)\<lparr>tmr_th := None, tmr_arg := arg\<rparr>)"
  have "set (remove1 t (S L)) = set (S L) - {t}" using heap_okD(2) [OF o(1)] by simp
  moreover have "(\<lambda>x. tmr_jfs (?tm x)) = (\<lambda>x. tmr_jfs (tm x))" by (simp add: fun_eq_iff)
  then have "sorted (map (\<lambda>x. tmr_jfs (?tm x)) (remove1 t (S L)))"
    using sorted_remove1_map [OF o(6), of t] by (simp only:)
  ultimately show ?thesis
    using o(1-5) u
    by (auto simp: tmr_start_def tmr_ok_def tmr_isrunning_def Let_def)
qed

subsection \<open>Polling\<close>

lemma tmr_head:
  assumes "tmr_ok L T S (h, tm, w)"
  shows "list_ledata (head (lsts h L)) h = first_or (S L) None"
  using tmr_okD [OF assms] heap_okD(3) [of h S L] by (cases "S L") (auto simp: list_ledata_def)

text \<open>Taking the first timer off.\<close>

lemma tmr_ok_pop:
  assumes ok: "tmr_ok L T S (h, tm, w)" and S: "S L = t # ts"
  shows "tmr_ok L T (S(L := ts)) (list_unlink t h, tm(t := (tm t)\<lparr>tmr_th := None\<rparr>), w')"
proof -
  note o = tmr_okD [OF ok]
  have t: "t \<in> T" "tmr_th (tm t) \<noteq> None" "remove1 t (S L) = ts"
    using o(2,3) S by (auto simp: tmr_isrunning_def)
  note u = tmr_stop [OF ok t(1)]
  have "(\<lambda>x. tmr_jfs ((tm(t := (tm t)\<lparr>tmr_th := None\<rparr>)) x)) = (\<lambda>x. tmr_jfs (tm x))"
    by (simp add: fun_eq_iff)
  then have "sorted (map (\<lambda>x. tmr_jfs ((tm(t := (tm t)\<lparr>tmr_th := None\<rparr>)) x)) ts)"
    using o(6) S by (simp only: list.map sorted_simps)
  then show ?thesis using o(1-5) u t S by (auto simp: tmr_ok_def tmr_isrunning_def)
qed

definition tmr_due :: "addr \<Rightarrow> u64 \<Rightarrow> (addr \<Rightarrow> addr list) \<Rightarrow> (addr \<Rightarrow> ('h, 'a) tmr) \<Rightarrow> addr list" where
  "tmr_due L jfs S tm = filter (\<lambda>t. tmr_jfs (tm t) \<le> jfs) (S L)"

lemma tmr_poll_run:
  assumes quiet: "\<And>f a h tm w. call f a (h, tm, w) = (h, tm, step f a w)"
  shows "tmr_ok L T S (h, tm, w) \<Longrightarrow> \<exists>h' tm'. tmr_poll L jfs call (h, tm, w) =
      Some (h', tm', fold (\<lambda>t. step (the (tmr_th (tm t))) (tmr_arg (tm t))) (tmr_due L jfs S tm) w) \<and>
    tmr_ok L T (S(L := filter (\<lambda>t. jfs < tmr_jfs (tm t)) (S L)))
      (h', tm', fold (\<lambda>t. step (the (tmr_th (tm t))) (tmr_arg (tm t))) (tmr_due L jfs S tm) w) \<and>
    (\<forall>t. t \<notin> set (tmr_due L jfs S tm) \<longrightarrow> tm' t = tm t)"
proof (induction "S L" arbitrary: S h tm w)
  case Nil
  then have "list_ledata (head (lsts h L)) h = None" by (simp add: tmr_head [OF Nil(2)])
  moreover have "S(L := filter (\<lambda>t. jfs < tmr_jfs (tm t)) (S L)) = S"
    using Nil(1) by (auto simp: fun_eq_iff)
  ultimately show ?case using Nil
    by (subst tmr_poll.simps) (simp add: tmr_due_def Nil(1) [symmetric])
next
  case (Cons t ts)
  note ok = Cons(3) and S = Cons(2) [symmetric]
  have hd: "list_ledata (head (lsts h L)) h = Some t" using S by (simp add: tmr_head [OF ok])
  show ?case
  proof (cases "jfs < tmr_jfs (tm t)")
    case True
    have later: "\<And>x. x \<in> set (S L) \<Longrightarrow> jfs < tmr_jfs (tm x)"
      using tmr_okD(6) [OF ok] True S by auto
    then have "filter (\<lambda>t. jfs < tmr_jfs (tm t)) (S L) = S L" by (simp add: filter_id_conv)
    moreover have "filter (\<lambda>t. tmr_jfs (tm t) \<le> jfs) (S L) = []"
      using later by (auto simp: filter_empty_conv not_le)
    ultimately show ?thesis using hd True ok
      by (subst tmr_poll.simps) (simp add: tmr_due_def)
  next
    case False
    let ?tm = "tm(t := (tm t)\<lparr>tmr_th := None\<rparr>)" and ?S = "S(L := ts)"
    obtain f where f: "tmr_th (tm t) = Some f"
      using tmr_okD(2,3) [OF ok] S by (auto simp: tmr_isrunning_def)
    let ?w = "step f (tmr_arg (tm t)) w"
    have ok': "tmr_ok L T ?S (list_unlink t h, ?tm, ?w)" by (rule tmr_ok_pop [OF ok S])
    have nt: "t \<notin> set ts" using heap_okD(2) [OF tmr_okD(1) [OF ok], of L] S by simp
    then have due: "tmr_due L jfs ?S ?tm = tmr_due L jfs ?S tm"
      "filter (\<lambda>t. jfs < tmr_jfs (?tm t)) ts = filter (\<lambda>t. jfs < tmr_jfs (tm t)) ts"
      by (auto simp: tmr_due_def intro!: filter_cong)
    have fold_eq: "fold (\<lambda>t. step (the (tmr_th (?tm t))) (tmr_arg (?tm t))) (tmr_due L jfs ?S tm) ?w =
        fold (\<lambda>t. step (the (tmr_th (tm t))) (tmr_arg (tm t))) (tmr_due L jfs ?S tm) ?w"
      using nt by (intro fold_cong) (auto simp: tmr_due_def)
    have all: "tmr_due L jfs S tm = t # tmr_due L jfs ?S tm" using False S by (simp add: tmr_due_def)
    have "ts = ?S L" by simp
    from Cons(1) [OF this ok'] obtain h' tm' where r:
      "tmr_poll L jfs call (list_unlink t h, ?tm, ?w) =
        Some (h', tm', fold (\<lambda>t. step (the (tmr_th (tm t))) (tmr_arg (tm t))) (tmr_due L jfs ?S tm) ?w)"
      "tmr_ok L T (?S(L := filter (\<lambda>t. jfs < tmr_jfs (tm t)) ts))
        (h', tm', fold (\<lambda>t. step (the (tmr_th (tm t))) (tmr_arg (tm t))) (tmr_due L jfs ?S tm) ?w)"
      "\<And>x. x \<notin> set (tmr_due L jfs ?S tm) \<Longrightarrow> tm' x = ?tm x"
      by (simp only: due fold_eq fun_upd_same) blast
    have "tmr_poll L jfs call (h, tm, w) = tmr_poll L jfs call (list_unlink t h, ?tm, ?w)"
      using hd False f by (subst tmr_poll.simps) (simp add: Let_def quiet)
    then show ?thesis
      using r f S False by (intro exI [of _ h'] exI [of _ tm']) (auto simp: all)
  qed
qed

text \<open>Handlers that start and cancel timers as they like.\<close>

definition keeps_tmr_ok ::
  "addr \<Rightarrow> addr set \<Rightarrow> ('h \<Rightarrow> 'a \<Rightarrow> ('h, 'a, 'w) tmr_state \<Rightarrow> ('h, 'a, 'w) tmr_state) \<Rightarrow> bool" where
  "keeps_tmr_ok L T call \<longleftrightarrow> (\<forall>f a s S. tmr_ok L T S s \<longrightarrow> (\<exists>S'. tmr_ok L T S' (call f a s)))"

lemma tmr_poll_inv:
  assumes "tmr_poll L jfs call s = Some s'" "keeps_tmr_ok L T call" "tmr_ok L T S s"
  shows "\<exists>S'. tmr_ok L T S' s' \<and> (\<forall>t\<in>set (S' L). jfs < tmr_jfs (tmr_of t s'))"
proof -
  have "keeps_tmr_ok L T call \<longrightarrow> (\<forall>S. tmr_ok L T S s \<longrightarrow>
      (\<exists>S'. tmr_ok L T S' s' \<and> (\<forall>t\<in>set (S' L). jfs < tmr_jfs (tmr_of t s'))))"
  proof (rule tmr_poll.raw_induct [where P = "\<lambda>L jfs call s s'. keeps_tmr_ok L T call \<longrightarrow>
      (\<forall>S. tmr_ok L T S s \<longrightarrow> (\<exists>S'. tmr_ok L T S' s' \<and> (\<forall>t\<in>set (S' L). jfs < tmr_jfs (tmr_of t s'))))",
      OF _ assms(1)], intro impI allI)
    fix rec tmrl jf cl st s2 S
    assume IH: "\<And>a b c d y. rec a b c d = Some y \<Longrightarrow> keeps_tmr_ok a T c \<longrightarrow> (\<forall>S. tmr_ok a T S d \<longrightarrow>
        (\<exists>S'. tmr_ok a T S' y \<and> (\<forall>t\<in>set (S' a). b < tmr_jfs (tmr_of t y))))"
      and body: "(case st of (h, tm, w) \<Rightarrow>
        (case list_ledata (head (lsts h tmrl)) h of
          None \<Rightarrow> Some st
        | Some t \<Rightarrow>
            if tmr_jfs (tm t) > jf then Some st
            else let th = tmr_th (tm t); th_arg = tmr_arg (tm t);
                     s = (list_unlink t h, tm(t := (tm t)\<lparr>tmr_th := None\<rparr>), w)
                 in (case th of None \<Rightarrow> rec tmrl jf cl s
                     | Some f \<Rightarrow> rec tmrl jf cl (cl f th_arg s)))) = Some s2"
      and keeps: "keeps_tmr_ok tmrl T cl" and ok: "tmr_ok tmrl T S st"
    obtain h tm w where st: "st = (h, tm, w)" by (rule prod_cases3)
    note hd = tmr_head [OF ok [unfolded st]]
    show "\<exists>S'. tmr_ok tmrl T S' s2 \<and> (\<forall>t\<in>set (S' tmrl). jf < tmr_jfs (tmr_of t s2))"
    proof (cases "S tmrl")
      case Nil
      then have "s2 = st" using body st hd by simp
      then show ?thesis using Nil ok by (intro exI [of _ S]) simp
    next
      case (Cons t ts)
      note pop = tmr_ok_pop [OF ok [unfolded st] Cons, of w]
      obtain f where f: "tmr_th (tm t) = Some f"
        using tmr_okD(2,3) [OF ok [unfolded st]] Cons by (auto simp: tmr_isrunning_def)
      show ?thesis
      proof (cases "jf < tmr_jfs (tm t)")
        case True
        then have "s2 = st" using body st hd Cons by simp
        moreover have "\<forall>x\<in>set (S tmrl). jf < tmr_jfs (tmr_of x st)"
          using tmr_okD(5,6) [OF ok [unfolded st]] True Cons by (auto simp: tmr_of_def st)
        ultimately show ?thesis using ok by blast
      next
        case False
        then have "rec tmrl jf cl (cl f (tmr_arg (tm t)) (list_unlink t h, tm(t := (tm t)\<lparr>tmr_th := None\<rparr>), w)) = Some s2"
          using body st hd Cons f by simp
        moreover obtain S' where "tmr_ok tmrl T S'
            (cl f (tmr_arg (tm t)) (list_unlink t h, tm(t := (tm t)\<lparr>tmr_th := None\<rparr>), w))"
          using keeps pop unfolding keeps_tmr_ok_def by blast
        ultimately show ?thesis using IH keeps by blast
      qed
    qed
  qed
  then show ?thesis using assms(2,3) by blast
qed

text \<open>Polling as it should be, on the sequence of the running timers: while the first one is due it is taken off and its handler is
  called, which may start and cancel timers; the next one is the first of the sequence that the handler left. The trace has the timers fired.\<close>

type_synonym ('h, 'a, 'w) tmr_seq = "addr list \<times> (addr \<Rightarrow> ('h, 'a) tmr) \<times> 'w"

inductive poll_seq ::
  "u64 \<Rightarrow> ('h \<Rightarrow> 'a \<Rightarrow> ('h, 'a, 'w) tmr_seq \<Rightarrow> ('h, 'a, 'w) tmr_seq) \<Rightarrow> ('h, 'a, 'w) tmr_seq \<Rightarrow> addr list \<Rightarrow> ('h, 'a, 'w) tmr_seq \<Rightarrow> bool"
  for jfs ah where
  rest: "xs = [] \<or> jfs < tmr_jfs (tm (hd xs)) \<Longrightarrow> poll_seq jfs ah (xs, tm, w) [] (xs, tm, w)"
| fire: "tmr_jfs (tm t) \<le> jfs \<Longrightarrow> tmr_th (tm t) = Some f \<Longrightarrow>
    poll_seq jfs ah (ah f (tmr_arg (tm t)) (ts, tm(t := (tm t)\<lparr>tmr_th := None\<rparr>), w)) fs s \<Longrightarrow> poll_seq jfs ah (t # ts, tm, w) (t # fs) s"

text \<open>\<open>call\<close> does on the list heap what \<open>ah\<close> does on sequences.\<close>

definition handler_ok ::
  "addr \<Rightarrow> addr set \<Rightarrow> ('h \<Rightarrow> 'a \<Rightarrow> ('h, 'a, 'w) tmr_state \<Rightarrow> ('h, 'a, 'w) tmr_state) \<Rightarrow> ('h \<Rightarrow> 'a \<Rightarrow> ('h, 'a, 'w) tmr_seq \<Rightarrow> ('h, 'a, 'w) tmr_seq) \<Rightarrow> bool" where
  "handler_ok L T call ah \<longleftrightarrow> (\<forall>f a S h tm w xs' tm' w'. tmr_ok L T S (h, tm, w) \<longrightarrow> ah f a (S L, tm, w) = (xs', tm', w') \<longrightarrow>
     (\<exists>h' S'. call f a (h, tm, w) = (h', tm', w') \<and> tmr_ok L T S' (h', tm', w') \<and> S' L = xs'))"

definition due_in :: "u64 \<Rightarrow> ('h, 'a, 'w) tmr_seq \<Rightarrow> addr list" where
  "due_in jfs s = (case s of (xs, tm, w) \<Rightarrow> filter (\<lambda>t. tmr_jfs (tm t) \<le> jfs) xs)"

lemma due_pop: "tmr_jfs (tm t) \<le> jfs \<Longrightarrow> due_in jfs (t # ts, tm, w) = t # due_in jfs (ts, tm(t := (tm t)\<lparr>tmr_th := None\<rparr>), w)"
  by (auto simp: due_in_def intro!: filter_cong)

lemma due_none:
  assumes "sorted (map (\<lambda>t. tmr_jfs (tm t)) xs)" "xs = [] \<or> jfs < tmr_jfs (tm (hd xs))"
  shows "due_in jfs (xs, tm, w) = []" "\<forall>t \<in> set xs. jfs < tmr_jfs (tm t)"
  using assms by (cases xs; force simp: due_in_def filter_empty_conv)+

lemma tmr_poll_refines:
  assumes h: "handler_ok L T call ah" and calm: "\<And>f a s. length (due_in jfs (ah f a s)) \<le> length (due_in jfs s)"
  shows "tmr_ok L T S (h, tm, w) \<Longrightarrow> \<exists>h' S' tm' w' fs. tmr_poll L jfs call (h, tm, w) = Some (h', tm', w') \<and> tmr_ok L T S' (h', tm', w') \<and>
    poll_seq jfs ah (S L, tm, w) fs (S' L, tm', w') \<and> (\<forall>t \<in> set (S' L). jfs < tmr_jfs (tm' t))"
proof (induction "length (due_in jfs (S L, tm, w))" arbitrary: S h tm w rule: less_induct)
  case less
  note ok = less.prems
  show ?case
  proof (cases "S L = [] \<or> jfs < tmr_jfs (tm (hd (S L)))")
    case True
    then have "tmr_poll L jfs call (h, tm, w) = Some (h, tm, w)"
      using tmr_head [OF ok] by (subst tmr_poll.simps) (cases "S L", auto)
    moreover have "poll_seq jfs ah (S L, tm, w) [] (S L, tm, w)" using True by (rule poll_seq.rest)
    ultimately show ?thesis using ok due_none(2) [OF tmr_okD(6) [OF ok] True] by blast
  next
    case False
    then obtain t ts where S: "S L = t # ts" and j: "tmr_jfs (tm t) \<le> jfs" by (cases "S L") auto
    obtain f where f: "tmr_th (tm t) = Some f" using tmr_okD(2,3) [OF ok] S by (auto simp: tmr_isrunning_def)
    let ?tm = "tm(t := (tm t)\<lparr>tmr_th := None\<rparr>)"
    obtain xs' tm' w' where a: "ah f (tmr_arg (tm t)) (ts, ?tm, w) = (xs', tm', w')" by (rule prod_cases3)
    obtain h' S' where c: "call f (tmr_arg (tm t)) (list_unlink t h, ?tm, w) = (h', tm', w')" "tmr_ok L T S' (h', tm', w')" "S' L = xs'"
      using h tmr_ok_pop [OF ok S] a unfolding handler_ok_def by (metis fun_upd_same)
    have "length (due_in jfs (S' L, tm', w')) < length (due_in jfs (S L, tm, w))"
      using calm [of f "tmr_arg (tm t)" "(ts, ?tm, w)"] unfolding a c(3) S using due_pop [where tm = tm and t = t, OF j, of ts w] by simp
    from less.hyps [OF this c(2)] obtain h2 S2 tm2 w2 fs where r: "tmr_poll L jfs call (h', tm', w') = Some (h2, tm2, w2)"
      "tmr_ok L T S2 (h2, tm2, w2)" "poll_seq jfs ah (S' L, tm', w') fs (S2 L, tm2, w2)" "\<forall>t \<in> set (S2 L). jfs < tmr_jfs (tm2 t)" by blast
    have nj: "\<not> jfs < tmr_jfs (tm t)" using j by (simp add: not_less)
    then have "tmr_poll L jfs call (h, tm, w) = Some (h2, tm2, w2)"
      using tmr_head [OF ok] S f c(1) r(1) by (subst tmr_poll.simps) (simp add: Let_def)
    moreover have "poll_seq jfs ah (S L, tm, w) (t # fs) (S2 L, tm2, w2)"
      unfolding S using r(3) a c(3) by (intro poll_seq.fire [where tm = tm and t = t, OF j f]) simp
    ultimately show ?thesis using r(2,4) by blast
  qed
qed

lemma poll_seq_quiet:
  assumes "poll_seq jfs ah s fs s'" "\<And>f a xs tm w. \<exists>w'. ah f a (xs, tm, w) = (xs, tm, w')"
  shows "sorted (map (\<lambda>t. tmr_jfs (fst (snd s) t)) (fst s)) \<Longrightarrow> fs = due_in jfs s \<and> fst s' = filter (\<lambda>t. jfs < tmr_jfs (fst (snd s) t)) (fst s)"
  using assms(1)
proof (induction rule: poll_seq.induct)
  case (rest xs tm w)
  then show ?case using due_none(1) [where tm = tm and xs = xs and w = w, OF _ rest.hyps] due_none(2) [where tm = tm and xs = xs, OF _ rest.hyps] by (simp add: filter_id_conv)
next
  case (fire tm t f ts w fs s)
  obtain w' where a: "ah f (tmr_arg (tm t)) (ts, tm(t := (tm t)\<lparr>tmr_th := None\<rparr>), w) = (ts, tm(t := (tm t)\<lparr>tmr_th := None\<rparr>), w')"
    using assms(2) by blast
  have j: "tmr_jfs ((tm(t := (tm t)\<lparr>tmr_th := None\<rparr>)) x) = tmr_jfs (tm x)" for x by simp
  have "sorted (map (\<lambda>x. tmr_jfs (tm x)) ts)" using fire.prems by simp
  then show ?case using fire.IH fire.hyps(1) due_pop [where tm = tm and t = t, OF fire.hyps(1), of ts w] unfolding a fst_conv snd_conv j by (simp add: due_in_def not_less j)
qed

subsection \<open>Properties\<close>

definition tmr_none :: "(nat, unit, nat) tmr_state" where
  "tmr_none = (heap_empty, \<lambda>_. \<lparr>tmr_th = None, tmr_arg = (), tmr_jfs = 0\<rparr>, 0)"

lemma tmr_none_ok: "tmr_ok 0 {1, 2} (\<lambda>_. []) tmr_none"
  by (simp add: tmr_none_def tmr_ok_def heap_empty_ok tmr_isrunning_def)

text \<open>C14: Starting a timer, running or not: \<open>tmr_start\<close> ends, the timer list stays ordered by expiry and
  holds exactly the running timers, and the timer stands behind all timers that expire no later
  and before all that expire later, so that timers with the same expiry fire in the order they
  were started. Both search directions (delay zero or not) find this place.\<close>

theorem tmr_start_order:
  assumes "tmr_ok L T S (h, tm, w)" "t \<in> T"
    and "tm' = tm(t := \<lparr>tmr_th = Some f, tmr_arg = arg, tmr_jfs = delay + now\<rparr>)"
    and "xs = remove1 t (S L)"
  shows "\<exists>h'. tmr_start L now t delay (Some f) arg (h, tm, w) = Some (h', tm', w) \<and>
    tmr_ok L T (S(L := filter (\<lambda>x. tmr_jfs (tm' x) \<le> delay + now) xs @ t #
      filter (\<lambda>x. delay + now < tmr_jfs (tm' x)) xs)) (h', tm', w)"
  using tmr_ok_start [OF assms(1,2), of now delay f arg] unfolding assms(3,4) tmr_insert_def by simp

theorem tmr_start_order_witness:
  "\<exists>h'. tmr_start 0 100 1 5 (Some 7) () tmr_none =
    Some (h', (fst (snd tmr_none))(1 := \<lparr>tmr_th = Some 7, tmr_arg = (), tmr_jfs = 105\<rparr>), 0)"
  using tmr_start_order [OF tmr_none_ok [unfolded tmr_none_def], of 1 _ 7 "()" 5 100 "[]"]
  by (auto simp: tmr_none_def)

text \<open>C13: Polling fires what is due. For handlers that may start and cancel timers, but none that is due at the time of the call,
  \<open>tmr_poll\<close> ends, and fires timers as the specification on sequences: always the first of the list that the handlers before have left, a
  stopped timer with its handler and argument. Then no timer that is due is left and the list is consistent. When the handlers leave the
  timers alone, the timers that are fired are those that expire by now, in the order of expiry, each once, and the others stay.\<close>

theorem tmr_poll_fires:
  assumes "handler_ok L T call ah" "\<And>f a s. length (due_in jfs (ah f a s)) \<le> length (due_in jfs s)" "tmr_ok L T S (h, tm, w)"
  shows "\<exists>h' S' tm' w' fired. tmr_poll L jfs call (h, tm, w) = Some (h', tm', w') \<and> tmr_ok L T S' (h', tm', w') \<and>
    poll_seq jfs ah (S L, tm, w) fired (S' L, tm', w') \<and> (\<forall>t \<in> set (S' L). jfs < tmr_jfs (tm' t)) \<and>
    ((\<forall>f a xs tm w. \<exists>w'. ah f a (xs, tm, w) = (xs, tm, w')) \<longrightarrow>
      fired = filter (\<lambda>t. tmr_jfs (tm t) \<le> jfs) (S L) \<and> S' L = filter (\<lambda>t. jfs < tmr_jfs (tm t)) (S L))"
proof -
  obtain h' S' tm' w' fs where r: "tmr_poll L jfs call (h, tm, w) = Some (h', tm', w')" "tmr_ok L T S' (h', tm', w')"
    "poll_seq jfs ah (S L, tm, w) fs (S' L, tm', w')" "\<forall>t \<in> set (S' L). jfs < tmr_jfs (tm' t)"
    using tmr_poll_refines [OF assms] by blast
  have "fs = filter (\<lambda>t. tmr_jfs (tm t) \<le> jfs) (S L) \<and> S' L = filter (\<lambda>t. jfs < tmr_jfs (tm t)) (S L)"
    if q: "\<forall>f a xs tm w. \<exists>w'. ah f a (xs, tm, w) = (xs, tm, w')"
    using poll_seq_quiet [OF r(3)] q tmr_okD(6) [OF assms(3)] by (auto simp: due_in_def)
  then show ?thesis using r by blast
qed

inductive_cases poll_seq_Cons: "poll_seq jfs ah (x # xs, tm, w) fs s"

text \<open>A handler that counts its calls and starts its timer again, five milliseconds later.\<close>

definition restart :: "nat \<Rightarrow> unit \<Rightarrow> (nat, unit, nat) tmr_state \<Rightarrow> (nat, unit, nat) tmr_state" where
  "restart f a s = (case tmr_start 0 105 1 5 (Some f) a s of None \<Rightarrow> s | Some (h, tm, w) \<Rightarrow> (h, tm, w + 1))"

definition restart_seq :: "nat \<Rightarrow> unit \<Rightarrow> (nat, unit, nat) tmr_seq \<Rightarrow> (nat, unit, nat) tmr_seq" where
  "restart_seq f a s = (case s of (xs, tm, w) \<Rightarrow>
     let tm' = tm(1 := \<lparr>tmr_th = Some f, tmr_arg = a, tmr_jfs = 110\<rparr>) in (tmr_insert (\<lambda>x. tmr_jfs (tm' x)) 1 (remove1 1 xs), tm', w + 1))"

lemma tmr_ok_world: "tmr_ok L T S (h, tm, w) = tmr_ok L T S (h, tm, w')"
  by (simp add: tmr_ok_def)

lemma restart_ok: "handler_ok 0 {1} restart restart_seq"
  unfolding handler_ok_def
proof (intro allI impI)
  fix f a S h tm w xs' tm' w'
  assume ok: "tmr_ok 0 {1} S (h, tm, w)" and s: "restart_seq f a (S 0, tm, w) = (xs', tm', w')"
  let ?tm = "tm(1 := \<lparr>tmr_th = Some f, tmr_arg = a, tmr_jfs = 110\<rparr>)"
  let ?S = "S(0 := tmr_insert (\<lambda>x. tmr_jfs (?tm x)) 1 (remove1 1 (S 0)))"
  have "(5 :: u64) + 105 = 110" by simp
  then obtain h' where h: "tmr_start 0 105 1 5 (Some f) a (h, tm, w) = Some (h', ?tm, w)" "tmr_ok 0 {1} ?S (h', ?tm, w)"
    using tmr_ok_start [OF ok, of 1 105 5 f a] by auto
  have e: "xs' = ?S 0" "tm' = ?tm" "w' = w + 1" using s by (auto simp: restart_seq_def Let_def)
  have "restart f a (h, tm, w) = (h', tm', w')" using h(1) by (simp add: restart_def e(2,3))
  moreover have "tmr_ok 0 {1} ?S (h', tm', w')" unfolding e(2) by (subst tmr_ok_world [where w' = w]) (rule h(2))
  ultimately show "\<exists>h' S'. restart f a (h, tm, w) = (h', tm', w') \<and> tmr_ok 0 {1} S' (h', tm', w') \<and> S' 0 = xs'" using e(1) by blast
qed

lemma length_filter_mono: "(\<And>y. P y \<Longrightarrow> Q y) \<Longrightarrow> length (filter P xs) \<le> length (filter Q xs)"
  by (induction xs) (auto simp: le_SucI)

lemma length_filter_remove1: "(\<And>y. P y \<Longrightarrow> Q y) \<Longrightarrow> length (filter P (remove1 x xs)) \<le> length (filter Q xs)"
  using length_filter_mono [of P Q] by (induction xs) (auto simp: le_SucI)

lemma restart_calm: "length (due_in 105 (restart_seq f a s)) \<le> length (due_in 105 s)"
proof -
  obtain xs tm w where s: "s = (xs, tm, w)" by (rule prod_cases3)
  let ?tm = "tm(1 := \<lparr>tmr_th = Some f, tmr_arg = a, tmr_jfs = 110\<rparr>)"
  let ?xs = "remove1 1 xs"
  have "due_in 105 (restart_seq f a s) = filter (\<lambda>t. tmr_jfs (?tm t) \<le> 105) ?xs"
  proof -
    have "filter (\<lambda>t. tmr_jfs (?tm t) \<le> 105) (filter (\<lambda>x. tmr_jfs (?tm x) \<le> tmr_jfs (?tm 1)) ?xs) = filter (\<lambda>t. tmr_jfs (?tm t) \<le> 105) ?xs"
      unfolding filter_filter by (rule filter_cong) (auto elim: order.trans)
    moreover have "filter (\<lambda>t. tmr_jfs (?tm t) \<le> 105) (filter (\<lambda>x. tmr_jfs (?tm 1) < tmr_jfs (?tm x)) ?xs) = []"
      by (auto simp: filter_empty_conv dest: order.strict_trans2)
    ultimately show ?thesis by (simp add: s due_in_def restart_seq_def Let_def tmr_insert_def del: fun_upd_apply filter_filter) simp
  qed
  moreover have "length (filter (\<lambda>t. tmr_jfs (?tm t) \<le> 105) ?xs) \<le> length (filter (\<lambda>t. tmr_jfs (tm t) \<le> 105) xs)"
    by (rule length_filter_remove1) (auto split: if_splits)
  ultimately show ?thesis by (simp add: s due_in_def)
qed

theorem tmr_poll_fires_witness:
  "\<exists>s h' tm'. tmr_start 0 100 1 5 (Some 7) () tmr_none = Some s \<and> tmr_poll 0 105 restart s = Some (h', tm', 1) \<and> tmr_jfs (tm' 1) = 110"
proof -
  let ?t = "\<lparr>tmr_th = Some (7 :: nat), tmr_arg = (), tmr_jfs = 105\<rparr>"
  let ?tm = "(\<lambda>_. \<lparr>tmr_th = None, tmr_arg = (), tmr_jfs = 0\<rparr>)(1 := ?t)"
  have "tmr_ok 0 {1} (\<lambda>_. []) (heap_empty, \<lambda>_. \<lparr>tmr_th = None, tmr_arg = (), tmr_jfs = 0\<rparr>, 0 :: nat)"
    using tmr_none_ok by (auto simp: tmr_none_def tmr_ok_def tmr_isrunning_def)
  from tmr_ok_start [OF this, of 1 100 5 7 "()"]
  obtain h where h: "tmr_start 0 100 1 5 (Some 7) () tmr_none = Some (h, ?tm, 0)" "tmr_ok 0 {1} ((\<lambda>_. [])(0 := [1])) (h, ?tm, 0 :: nat)"
    by (auto simp: tmr_none_def tmr_insert_def)
  obtain h' S' tm' w' fs where r: "tmr_poll 0 105 restart (h, ?tm, 0) = Some (h', tm', w')" "poll_seq 105 restart_seq ([1], ?tm, 0) fs (S' 0, tm', w')"
    using tmr_poll_fires [OF restart_ok restart_calm h(2)] by (elim exE conjE) (rule that, assumption, simp only: fun_upd_same)
  have step: "restart_seq 7 () ([], ?tm(1 := ?t\<lparr>tmr_th := None\<rparr>), 0) = ([1], ?tm(1 := ?t\<lparr>tmr_jfs := 110\<rparr>), 1)"
    by (simp add: restart_seq_def tmr_insert_def)
  have "\<not> 105 < tmr_jfs (?tm 1)" "tmr_th (?tm 1) = Some 7" "tmr_arg (?tm 1) = ()" by simp_all
  then obtain fs' where "poll_seq 105 restart_seq (restart_seq 7 () ([], ?tm(1 := ?t\<lparr>tmr_th := None\<rparr>), 0)) fs' (S' 0, tm', w')"
    using r(2) by (elim poll_seq_Cons) (simp_all only: list.sel option.inject fun_upd_same)
  then have "w' = 1 \<and> tm' = ?tm(1 := ?t\<lparr>tmr_jfs := 110\<rparr>)" unfolding step by (elim poll_seq_Cons) simp_all
  then have "w' = 1 \<and> tmr_jfs (tm' 1) = 110" by simp
  then show ?thesis using h(1) r(1) by auto
qed

text \<open>Polling with handlers that start and cancel timers: if \<open>tmr_poll\<close> returns, no timer that was due
  at the time of the call is left, also none that a handler has started, and the timer list is
  consistent.\<close>

theorem tmr_poll_none_due:
  assumes "keeps_tmr_ok L T call" "tmr_ok L T S s" "tmr_poll L jfs call s = Some s'"
  shows "\<exists>S'. tmr_ok L T S' s' \<and> (\<forall>t\<in>set (S' L). jfs < tmr_jfs (tmr_of t s'))"
  using tmr_poll_inv [OF assms(3,1,2)] .

theorem tmr_poll_none_due_witness:
  "\<exists>S'. tmr_ok 0 {1, 2} S' tmr_none \<and> (\<forall>t\<in>set (S' 0). 5 < tmr_jfs (tmr_of t tmr_none))"
  using tmr_poll_none_due [of 0 "{1, 2}" "\<lambda>_ _ s. s" _ tmr_none 5 tmr_none, OF _ tmr_none_ok]
  by (simp add: keeps_tmr_ok_def tmr_poll.simps tmr_none_def heap_empty_def list_ledata_def)

text \<open>\<open>tmr_next_timeout\<close> never sleeps past an expiry: it is 0 exactly when no timer runs; otherwise
  the wait is no longer than the time to any running timer's expiry, except that a timer already
  due gives 1, and some running timer expires then.\<close>

theorem tmr_next_timeout_least:
  assumes "tmr_ok L T S (h, tm, w)"
  shows "(tmr_next_timeout L now (h, tm, w) = 0) = (S L = []) \<and>
    (\<forall>t\<in>set (S L). if tmr_jfs (tm t) \<le> now then tmr_next_timeout L now (h, tm, w) = 1
      else tmr_next_timeout L now (h, tm, w) \<le> tmr_get_expire now (tm t)) \<and>
    (S L \<noteq> [] \<longrightarrow> (\<exists>t\<in>set (S L). tmr_next_timeout L now (h, tm, w) = max 1 (tmr_get_expire now (tm t))))"
proof (cases "S L")
  case Nil
  then show ?thesis using tmr_head [OF assms] by (simp add: tmr_next_timeout_def)
next
  case (Cons t ts)
  note o = tmr_okD [OF assms]
  have hd: "list_ledata (head (lsts h L)) h = Some t" using tmr_head [OF assms] Cons by simp
  have run: "tmr_th (tm x) \<noteq> None" if "x \<in> set (S L)" for x
    using that o(2,3) by (auto simp: tmr_isrunning_def)
  have le: "tmr_jfs (tm t) \<le> tmr_jfs (tm x)" if "x \<in> set (S L)" for x
    using that o(6) Cons by auto
  have pos: "1 \<le> tmr_jfs (tm x) - now" "tmr_jfs (tm x) - now \<noteq> 0" if "now < tmr_jfs (tm x)" for x
  proof -
    have "unat now < unat (tmr_jfs (tm x))" using that by (simp add: word_less_nat_alt)
    then have "1 \<le> unat (tmr_jfs (tm x) - now)" by (simp add: unat_sub_small)
    then show "1 \<le> tmr_jfs (tm x) - now" "tmr_jfs (tm x) - now \<noteq> 0"
      by (auto simp: word_le_nat_alt)
  qed
  have mono: "tmr_jfs (tm t) - now \<le> tmr_jfs (tm x) - now"
    if "now < tmr_jfs (tm t)" "x \<in> set (S L)" for x
  proof -
    have "unat now < unat (tmr_jfs (tm t))" "unat (tmr_jfs (tm t)) \<le> unat (tmr_jfs (tm x))"
      using that(1) le [OF that(2)] by (simp_all add: word_less_nat_alt word_le_nat_alt)
    then show ?thesis by (simp add: word_le_nat_alt unat_sub_small)
  qed
  have nt: "tmr_next_timeout L now (h, tm, w) =
      (if tmr_jfs (tm t) \<le> now then 1 else tmr_jfs (tm t) - now)"
    using hd by (simp add: tmr_next_timeout_def)
  have e: "tmr_get_expire now (tm x) = (if now < tmr_jfs (tm x) then tmr_jfs (tm x) - now else 0)"
    if "x \<in> set (S L)" for x using run [OF that] by (auto simp: tmr_get_expire_def)
  have t: "t \<in> set (S L)" using Cons by simp
  show ?thesis
  proof (cases "tmr_jfs (tm t) \<le> now")
    case True
    then have "tmr_get_expire now (tm t) = 0" using e [OF t] by auto
    moreover have "\<forall>x\<in>set (S L). tmr_jfs (tm x) \<le> now \<or> 1 \<le> tmr_get_expire now (tm x)"
      using e pos(1) by (auto simp: not_le)
    ultimately show ?thesis using nt True t by (auto intro!: bexI [of _ t])
  next
    case False
    then have n: "now < tmr_jfs (tm t)" by simp
    have later: "now < tmr_jfs (tm x)" if "x \<in> set (S L)" for x
      using n le [OF that] by (rule less_le_trans)
    have "\<forall>x\<in>set (S L). \<not> tmr_jfs (tm x) \<le> now \<and> tmr_jfs (tm t) - now \<le> tmr_get_expire now (tm x)"
      using later e mono [OF n] by (simp add: not_le)
    moreover have "max 1 (tmr_get_expire now (tm t)) = tmr_jfs (tm t) - now"
      using e [OF t] n pos(1) [OF n] by (simp add: max_def)
    ultimately show ?thesis using nt False t pos(2) [OF n] by (auto intro!: bexI [of _ t])
  qed
qed

theorem tmr_next_timeout_least_witness:
  "tmr_next_timeout 0 4 tmr_none = 0"
  using tmr_next_timeout_least [OF tmr_none_ok [unfolded tmr_none_def], of 4] by (simp add: tmr_none_def)

end
