(* ===== verification/Jbuf.thy ===== *)
theory Jbuf
  imports LinkedList Rtp
begin

text \<open>
  The jitter buffer for incoming RTP packets: \<^verbatim>\<open>src/jbuf/jbuf.c\<close>.

  Frames are objects in the heap of \<^verbatim>\<open>LinkedList\<close>, each with its list element at the same address;
  they move between the pool and the list of buffered frames. Packets are reference counted: the
  ghost field \<open>jb_refs\<close> counts for every packet the references taken (\<^verbatim>\<open>mem_ref\<close>) less those
  released (\<^verbatim>\<open>mem_deref\<close>). A result \<open>None\<close> stands for a \<^verbatim>\<open>NULL\<close> dereference or an endless loop.
\<close>

subsection \<open>State\<close>

record 'm frame =
  fr_hdr :: rtp_header
  fr_mem :: "'m option"

record jbuf_stat =
  n_put :: u32
  n_get :: u32
  n_oos :: u32
  n_dups :: u32
  n_late :: u32
  n_lost :: u32
  n_overflow :: u32
  n_underflow :: u32
  n_flush :: u32

record 'm jbuf =
  jb_heap :: "addr lheap"
  jb_frames :: "addr \<Rightarrow> 'm frame"
  jb_pooll :: addr
  jb_framel :: addr
  jb_n :: u32
  jb_min :: u32
  jb_max :: u32
  jb_seq_put :: u16
  jb_running :: bool
  jb_seq_get :: u16
  jb_stat :: jbuf_stat
  jb_refs :: "'m \<Rightarrow> int"

definition seq_less :: "u16 \<Rightarrow> u16 \<Rightarrow> bool" where
  "seq_less x y = (x - y <s 0)"

definition ref_add :: "int \<Rightarrow> 'm option \<Rightarrow> 'm jbuf \<Rightarrow> 'm jbuf" where
  "ref_add k m jb = (case m of
     None \<Rightarrow> jb
   | Some p \<Rightarrow> jb\<lparr>jb_refs := (jb_refs jb)(p := jb_refs jb p + k)\<rparr>)"

definition upd_frame :: "addr \<Rightarrow> ('m frame \<Rightarrow> 'm frame) \<Rightarrow> 'm jbuf \<Rightarrow> 'm jbuf" where
  "upd_frame f g jb = jb\<lparr>jb_frames := (jb_frames jb)(f := g (jb_frames jb f))\<rparr>"

definition stat_upd :: "(jbuf_stat \<Rightarrow> jbuf_stat) \<Rightarrow> 'm jbuf \<Rightarrow> 'm jbuf" where
  "stat_upd g jb = jb\<lparr>jb_stat := g (jb_stat jb)\<rparr>"

text \<open>\<^verbatim>\<open>f->mem = mem_deref(f->mem)\<close>\<close>

definition drop_mem :: "addr \<Rightarrow> 'm jbuf \<Rightarrow> 'm jbuf" where
  "drop_mem f jb = upd_frame f (\<lambda>x. x\<lparr>fr_mem := None\<rparr>) (ref_add (-1) (fr_mem (jb_frames jb f)) jb)"

text \<open>The frame of an element, \<^verbatim>\<open>le->data\<close>, and its sequence number.\<close>

definition frame_of :: "'m jbuf \<Rightarrow> addr \<Rightarrow> addr" where
  "frame_of jb le = the (le_data (les (jb_heap jb) le))"

definition le_seq :: "'m jbuf \<Rightarrow> addr \<Rightarrow> u16" where
  "le_seq jb le = rh_seq (fr_hdr (jb_frames jb (frame_of jb le)))"

subsection \<open>Operations\<close>

definition frame_alloc :: "'m jbuf \<Rightarrow> (addr \<times> 'm jbuf) option" where
  "frame_alloc jb = (case head (lsts (jb_heap jb) (jb_pooll jb)) of
     Some le \<Rightarrow> Some (frame_of jb le, jb\<lparr>jb_heap := list_unlink le (jb_heap jb), jb_n := jb_n jb + 1\<rparr>)
   | None \<Rightarrow> (case head (lsts (jb_heap jb) (jb_framel jb)) of
       None \<Rightarrow> None
     | Some le \<Rightarrow> let f0 = frame_of jb le;
                      jb = stat_upd (\<lambda>s. s\<lparr>n_overflow := n_overflow s + 1\<rparr>) jb;
                      jb = drop_mem f0 jb
                  in Some (f0, jb\<lparr>jb_heap := list_unlink le (jb_heap jb)\<rparr>)))"

definition frame_deref :: "addr \<Rightarrow> 'm jbuf \<Rightarrow> 'm jbuf" where
  "frame_deref f jb = (let
     jb = drop_mem f jb;
     jb = jb\<lparr>jb_heap := list_append (jb_pooll jb) f (Some f) (list_unlink f (jb_heap jb))\<rparr>
   in jb\<lparr>jb_n := jb_n jb - 1\<rparr>)"

text \<open>The search for the position of an out-of-sequence frame, from the tail.\<close>

datatype put_pos = Ins_after addr | Dup_at addr | Put_head

partial_function (option) put_scan :: "'m jbuf \<Rightarrow> u16 \<Rightarrow> addr option \<Rightarrow> put_pos option" where
  "put_scan jb sq p = (case p of
     None \<Rightarrow> Some Put_head
   | Some le \<Rightarrow>
       if seq_less (le_seq jb le) sq then Some (Ins_after le)
       else if sq = le_seq jb le then Some (Dup_at le)
       else put_scan jb sq (le_prev (les (jb_heap jb) le)))"

text \<open>What follows the label \<^verbatim>\<open>out\<close>.\<close>

definition put_done :: "addr \<Rightarrow> rtp_header \<Rightarrow> 'm option \<Rightarrow> 'm jbuf \<Rightarrow> 'm jbuf" where
  "put_done f hdr mem jb =
     upd_frame f (\<lambda>_. \<lparr>fr_hdr = hdr, fr_mem = mem\<rparr>)
       (ref_add 1 mem (jb\<lparr>jb_running := True, jb_seq_put := rh_seq hdr\<rparr>))"

definition jbuf_put :: "rtp_header \<Rightarrow> 'm option \<Rightarrow> 'm jbuf \<Rightarrow> (err \<times> 'm jbuf) option" where
  "jbuf_put hdr mem jb = (let
     sq = rh_seq hdr;
     jb = stat_upd (\<lambda>s. s\<lparr>n_put := n_put s + 1\<rparr>) jb
   in if jb_running jb \<and> seq_less (ucast (ucast sq + jb_n jb)) (jb_seq_put jb)
      then Some (ETIMEDOUT, stat_upd (\<lambda>s. s\<lparr>n_late := n_late s + 1\<rparr>) jb)
      else (case frame_alloc jb of
        None \<Rightarrow> None
      | Some (f, jb) \<Rightarrow>
          let L = jb_framel jb; tl = tail (lsts (jb_heap jb) L) in
          if tl = None \<or> seq_less (le_seq jb (the tl)) sq then
            Some (0, put_done f hdr mem (jb\<lparr>jb_heap := list_append L f (Some f) (jb_heap jb)\<rparr>))
          else (case put_scan jb sq tl of
              None \<Rightarrow> None
            | Some (Ins_after le) \<Rightarrow>
                Some (0, put_done f hdr mem (stat_upd (\<lambda>s. s\<lparr>n_oos := n_oos s + 1\<rparr>)
                  (jb\<lparr>jb_heap := list_insert_after L le f (Some f) (jb_heap jb)\<rparr>)))
            | Some (Dup_at le) \<Rightarrow>
                Some (EALREADY, frame_deref f ((stat_upd (\<lambda>s. s\<lparr>n_dups := n_dups s + 1\<rparr>) jb)
                  \<lparr>jb_heap := list_insert_after L le f (Some f) (jb_heap jb)\<rparr>))
            | Some Put_head \<Rightarrow>
                Some (0, put_done f hdr mem (stat_upd (\<lambda>s. s\<lparr>n_oos := n_oos s + 1\<rparr>)
                  (jb\<lparr>jb_heap := list_prepend L f (Some f) (jb_heap jb)\<rparr>))))))"

text \<open>On success the header and the packet, with a reference for the caller.\<close>

definition jbuf_get :: "'m jbuf \<Rightarrow> (err \<times> (rtp_header \<times> 'm option) option) \<times> 'm jbuf" where
  "jbuf_get jb = (let
     jb = stat_upd (\<lambda>s. s\<lparr>n_get := n_get s + 1\<rparr>) jb
   in if jb_n jb \<le> jb_min jb \<or> head (lsts (jb_heap jb) (jb_framel jb)) = None
      then ((ENOENT, None), stat_upd (\<lambda>s. s\<lparr>n_underflow := n_underflow s + 1\<rparr>) jb)
      else let
        f = frame_of jb (the (head (lsts (jb_heap jb) (jb_framel jb))));
        hdr = fr_hdr (jb_frames jb f);
        mem = fr_mem (jb_frames jb f);
        jb = (if jb_seq_get jb \<noteq> 0 \<and> \<not> seq_less (rh_seq hdr) (jb_seq_get jb) \<and>
                 1 <s rh_seq hdr - jb_seq_get jb
              then stat_upd (\<lambda>s. s\<lparr>n_lost := n_lost s + 1\<rparr>) jb else jb);
        jb = jb\<lparr>jb_seq_get := rh_seq hdr\<rparr>;
        jb = ref_add 1 mem jb
      in ((0, Some (hdr, mem)), frame_deref f jb))"

partial_function (option) flush_loop :: "'m jbuf \<Rightarrow> 'm jbuf option" where
  "flush_loop jb = (case head (lsts (jb_heap jb) (jb_framel jb)) of
     None \<Rightarrow> Some jb
   | Some le \<Rightarrow> flush_loop (frame_deref (frame_of jb le) jb))"

definition jbuf_flush :: "'m jbuf \<Rightarrow> 'm jbuf option" where
  "jbuf_flush jb = map_option (\<lambda>jb. stat_upd (\<lambda>s. s\<lparr>n_flush := n_flush s + 1\<rparr>)
     (jb\<lparr>jb_n := 0, jb_running := False\<rparr>)) (flush_loop jb)"

text \<open>The destructor; the second result lists the frames given to \<^verbatim>\<open>mem_deref\<close>.\<close>

definition jbuf_destructor :: "'m jbuf \<Rightarrow> ('m jbuf \<times> addr option list) option" where
  "jbuf_destructor jb = (case jbuf_flush jb of
     None \<Rightarrow> None
   | Some jb \<Rightarrow> map_option (\<lambda>(h, ds). (jb\<lparr>jb_heap := h\<rparr>, ds)) (list_flush (jb_pooll jb) (jb_heap jb)))"

text \<open>\<open>al i\<close> is the result of the allocation of frame \<open>i\<close>; \<open>n\<close> frames are left to allocate.\<close>

fun alloc_frames :: "(nat \<Rightarrow> addr option) \<Rightarrow> nat \<Rightarrow> nat \<Rightarrow> 'm jbuf \<Rightarrow> err \<times> 'm jbuf" where
  "alloc_frames al i 0 jb = (0, jb)"
| "alloc_frames al i (Suc n) jb = (case al i of
     None \<Rightarrow> (ENOMEM, jb)
   | Some f \<Rightarrow> alloc_frames al (Suc i) n
       (jb\<lparr>jb_frames := (jb_frames jb)(f := \<lparr>fr_hdr = rtp_header_zero, fr_mem = None\<rparr>),
          jb_heap := list_append (jb_pooll jb) f (Some f)
            (upd_le f (\<lambda>_. \<lparr>le_prev = None, le_next = None, le_list = None, le_data = None\<rparr>) (jb_heap jb))\<rparr>))"

definition jbuf_zero :: "addr \<Rightarrow> addr \<Rightarrow> addr lheap \<Rightarrow> 'm jbuf" where
  "jbuf_zero P F h = \<lparr>jb_heap = list_init F (list_init P h),
     jb_frames = (\<lambda>_. \<lparr>fr_hdr = rtp_header_zero, fr_mem = None\<rparr>), jb_pooll = P, jb_framel = F,
     jb_n = 0, jb_min = 0, jb_max = 0, jb_seq_put = 0, jb_running = False, jb_seq_get = 0,
     jb_stat = \<lparr>n_put = 0, n_get = 0, n_oos = 0, n_dups = 0, n_late = 0, n_lost = 0, n_overflow = 0,
       n_underflow = 0, n_flush = 0\<rparr>, jb_refs = (\<lambda>_. 0)\<rparr>"

text \<open>\<open>new\<close> gives the addresses of the two list heads, when the buffer itself can be allocated. On
  failure the buffer is destroyed.\<close>

definition jbuf_alloc ::
  "(addr \<times> addr) option \<Rightarrow> (nat \<Rightarrow> addr option) \<Rightarrow> u32 \<Rightarrow> u32 \<Rightarrow> addr lheap \<Rightarrow> err \<times> 'm jbuf option" where
  "jbuf_alloc new al mn mx h =
     (if mn > mx then (EINVAL, None)
      else if \<not> seq_less 10 20 \<or> seq_less 20 10 \<or> \<not> seq_less 65535 0 then (ENOSYS, None)
      else (case new of
        None \<Rightarrow> (ENOMEM, None)
      | Some (P, F) \<Rightarrow>
          let (err, jb) = alloc_frames al 0 (unat mx) ((jbuf_zero P F h)\<lparr>jb_min := mn, jb_max := mx\<rparr>)
          in if err \<noteq> 0 then (err, None) else (0, Some jb)))"

definition jbuf_stats :: "'m jbuf \<Rightarrow> err \<times> jbuf_stat" where
  "jbuf_stats jb = (0, jb_stat jb)"

subsection \<open>Invariant\<close>

definition fseq :: "'m jbuf \<Rightarrow> addr \<Rightarrow> u16" where
  "fseq jb f = rh_seq (fr_hdr (jb_frames jb f))"

text \<open>How many buffered frames hold a packet.\<close>

definition held :: "'m jbuf \<Rightarrow> addr list \<Rightarrow> 'm \<Rightarrow> nat" where
  "held jb xs m = length (filter (\<lambda>f. fr_mem (jb_frames jb f) = Some m) xs)"

text \<open>
  \<open>S\<close> gives the frames of the lists, \<open>out\<close> the references the users hold: the counter is the number
  of buffered frames, no frame is lost, pool frames hold no packet, buffered frames stand in
  sequence order, and the references taken are those of the buffered frames and the users.
\<close>

definition jbuf_ok :: "'m jbuf \<Rightarrow> (addr \<Rightarrow> addr list) \<Rightarrow> ('m \<Rightarrow> int) \<Rightarrow> bool" where
  "jbuf_ok jb S out \<longleftrightarrow> (let P = S (jb_pooll jb); F = S (jb_framel jb) in
     heap_ok (jb_heap jb) S \<and> jb_pooll jb \<noteq> jb_framel jb \<and>
     (\<forall>f\<in>set P \<union> set F. le_data (les (jb_heap jb) f) = Some f) \<and>
     jb_n jb = of_nat (length F) \<and> length P + length F = unat (jb_max jb) \<and>
     (\<forall>f\<in>set P. fr_mem (jb_frames jb f) = None) \<and>
     successively (\<lambda>x y. seq_less (fseq jb x) (fseq jb y)) F \<and>
     (\<forall>m. jb_refs jb m = int (held jb F m) + out m))"

text \<open>The queue that a buffer stands for.\<close>

definition jbuf_queue :: "'m jbuf \<Rightarrow> (addr \<Rightarrow> addr list) \<Rightarrow> (rtp_header \<times> 'm option) list" where
  "jbuf_queue jb S = map (\<lambda>f. (fr_hdr (jb_frames jb f), fr_mem (jb_frames jb f))) (S (jb_framel jb))"

lemma seq_less_total: "x = y \<or> seq_less x y \<or> seq_less y x"
proof (cases "x = y")
  case False
  then have "x - y \<noteq> 0" by simp
  moreover have "y - x = - (x - y)" by simp
  ultimately have "x - y <s 0 \<or> y - x <s 0"
  proof -
    have "word_of_int (sint (x - y)) = x - y" by simp
    then have s: "sint (x - y) \<noteq> 0" using False by (metis of_int_0 right_minus_eq)
    show ?thesis
    proof (rule ccontr)
      assume "\<not> (x - y <s 0 \<or> y - x <s 0)"
      then have "0 < sint (x - y)" "0 \<le> sint (- (x - y))" using s by (auto simp: word_sless_alt)
      moreover have "sint (- (x - y)) = - sint (x - y)"
        using sint_greater_eq [of "x - y"] sint_less [of "x - y"] \<open>0 < sint (x - y)\<close>
        by (subst sint_word_minus) (simp add: signed_take_bit_int_eq_self)
      ultimately show False by simp
    qed
  qed
  then show ?thesis by (simp add: seq_less_def)
qed simp

lemma seq_less_irrefl [simp]: "\<not> seq_less x x"
  by (simp add: seq_less_def)

lemma jbuf_simps [simp]:
  "jb_heap (ref_add k m jb) = jb_heap jb" "jb_frames (ref_add k m jb) = jb_frames jb"
  "jb_pooll (ref_add k m jb) = jb_pooll jb" "jb_framel (ref_add k m jb) = jb_framel jb"
  "jb_n (ref_add k m jb) = jb_n jb" "jb_max (ref_add k m jb) = jb_max jb"
  "jb_min (ref_add k m jb) = jb_min jb" "jb_running (ref_add k m jb) = jb_running jb"
  "jb_seq_put (ref_add k m jb) = jb_seq_put jb"
  "jb_refs (ref_add k m jb) p = jb_refs jb p + (if m = Some p then k else 0)"
  "jb_heap (upd_frame f g jb) = jb_heap jb" "jb_frames (upd_frame f g jb) = (jb_frames jb)(f := g (jb_frames jb f))"
  "jb_pooll (upd_frame f g jb) = jb_pooll jb" "jb_framel (upd_frame f g jb) = jb_framel jb"
  "jb_n (upd_frame f g jb) = jb_n jb" "jb_max (upd_frame f g jb) = jb_max jb"
  "jb_min (upd_frame f g jb) = jb_min jb" "jb_running (upd_frame f g jb) = jb_running jb"
  "jb_seq_put (upd_frame f g jb) = jb_seq_put jb" "jb_refs (upd_frame f g jb) = jb_refs jb"
  "jb_heap (stat_upd s jb) = jb_heap jb" "jb_frames (stat_upd s jb) = jb_frames jb"
  "jb_pooll (stat_upd s jb) = jb_pooll jb" "jb_framel (stat_upd s jb) = jb_framel jb"
  "jb_n (stat_upd s jb) = jb_n jb" "jb_max (stat_upd s jb) = jb_max jb"
  "jb_min (stat_upd s jb) = jb_min jb" "jb_running (stat_upd s jb) = jb_running jb"
  "jb_seq_put (stat_upd s jb) = jb_seq_put jb" "jb_refs (stat_upd s jb) = jb_refs jb"
  by (auto simp: ref_add_def upd_frame_def stat_upd_def split: option.splits)

lemma drop_mem_simps [simp]:
  "jb_heap (drop_mem f jb) = jb_heap jb"
  "jb_frames (drop_mem f jb) = (jb_frames jb)(f := (jb_frames jb f)\<lparr>fr_mem := None\<rparr>)"
  "jb_pooll (drop_mem f jb) = jb_pooll jb" "jb_framel (drop_mem f jb) = jb_framel jb"
  "jb_n (drop_mem f jb) = jb_n jb" "jb_max (drop_mem f jb) = jb_max jb"
  "jb_min (drop_mem f jb) = jb_min jb" "jb_running (drop_mem f jb) = jb_running jb"
  "jb_seq_put (drop_mem f jb) = jb_seq_put jb"
  "jb_refs (drop_mem f jb) p = jb_refs jb p - (if fr_mem (jb_frames jb f) = Some p then 1 else 0)"
  by (auto simp: drop_mem_def)

lemma jbuf_okD:
  assumes "jbuf_ok jb S out"
  shows "heap_ok (jb_heap jb) S" "jb_pooll jb \<noteq> jb_framel jb"
    "\<And>f. f \<in> set (S (jb_pooll jb)) \<Longrightarrow> le_data (les (jb_heap jb) f) = Some f"
    "\<And>f. f \<in> set (S (jb_framel jb)) \<Longrightarrow> le_data (les (jb_heap jb) f) = Some f"
    "jb_n jb = of_nat (length (S (jb_framel jb)))"
    "length (S (jb_pooll jb)) + length (S (jb_framel jb)) = unat (jb_max jb)"
    "\<And>f. f \<in> set (S (jb_pooll jb)) \<Longrightarrow> fr_mem (jb_frames jb f) = None"
    "successively (\<lambda>x y. seq_less (fseq jb x) (fseq jb y)) (S (jb_framel jb))"
    "\<And>m. jb_refs jb m = int (held jb (S (jb_framel jb)) m) + out m"
  using assms by (auto simp: jbuf_ok_def Let_def)

lemma held_append [simp]: "held jb (xs @ ys) m = held jb xs m + held jb ys m"
  "held jb [] m = 0"
  "held jb (x # xs) m = (if fr_mem (jb_frames jb x) = Some m then 1 else 0) + held jb xs m"
  by (auto simp: held_def)

lemma held_cong:
  "(\<And>f. f \<in> set xs \<Longrightarrow> fr_mem (jb_frames jb f) = fr_mem (jb_frames jb' f)) \<Longrightarrow> held jb xs m = held jb' xs m"
  by (auto simp: held_def intro!: arg_cong [where f = length] filter_cong)

subsection \<open>Taking a frame\<close>

text \<open>While \<open>jbuf_put\<close> holds a frame that is in neither list.\<close>

definition jbuf_taken :: "'m jbuf \<Rightarrow> (addr \<Rightarrow> addr list) \<Rightarrow> ('m \<Rightarrow> int) \<Rightarrow> addr \<Rightarrow> bool" where
  "jbuf_taken jb S out f \<longleftrightarrow> (let P = S (jb_pooll jb); F = S (jb_framel jb) in
     heap_ok (jb_heap jb) S \<and> le_list (les (jb_heap jb) f) = None \<and> jb_pooll jb \<noteq> jb_framel jb \<and>
     (\<forall>x\<in>set P \<union> set F. le_data (les (jb_heap jb) x) = Some x) \<and>
     jb_n jb = of_nat (Suc (length F)) \<and> length P + Suc (length F) = unat (jb_max jb) \<and>
     (\<forall>x\<in>insert f (set P). fr_mem (jb_frames jb x) = None) \<and>
     successively (\<lambda>x y. seq_less (fseq jb x) (fseq jb y)) F \<and>
     (\<forall>m. jb_refs jb m = int (held jb F m) + out m))"

lemma jbuf_takenD:
  assumes "jbuf_taken jb S out f"
  shows "heap_ok (jb_heap jb) S" "le_list (les (jb_heap jb) f) = None" "jb_pooll jb \<noteq> jb_framel jb"
    "\<And>x. x \<in> set (S (jb_pooll jb)) \<Longrightarrow> le_data (les (jb_heap jb) x) = Some x"
    "\<And>x. x \<in> set (S (jb_framel jb)) \<Longrightarrow> le_data (les (jb_heap jb) x) = Some x"
    "jb_n jb = of_nat (Suc (length (S (jb_framel jb))))"
    "length (S (jb_pooll jb)) + Suc (length (S (jb_framel jb))) = unat (jb_max jb)"
    "\<And>x. x \<in> set (S (jb_pooll jb)) \<Longrightarrow> fr_mem (jb_frames jb x) = None" "fr_mem (jb_frames jb f) = None"
    "successively (\<lambda>x y. seq_less (fseq jb x) (fseq jb y)) (S (jb_framel jb))"
    "\<And>m. jb_refs jb m = int (held jb (S (jb_framel jb)) m) + out m"
    "f \<notin> set (S (jb_pooll jb))" "f \<notin> set (S (jb_framel jb))"
proof -
  show "heap_ok (jb_heap jb) S" "le_list (les (jb_heap jb) f) = None"
    using assms by (auto simp: jbuf_taken_def Let_def)
  then show "f \<notin> set (S (jb_pooll jb))" "f \<notin> set (S (jb_framel jb))" using heap_ok_free by blast+
qed (use assms in \<open>auto simp: jbuf_taken_def Let_def\<close>)

lemma successively_Cons_tl: "successively r (x # xs) \<Longrightarrow> successively r xs"
  by (cases xs) auto

lemma fseq_drop_mem [simp]: "fseq (drop_mem f jb) = fseq jb"
  by (auto simp: fseq_def fun_eq_iff)

lemma frame_alloc_ok:
  assumes ok: "jbuf_ok jb S out" and mx: "jb_max jb \<noteq> 0"
  defines "F1 \<equiv> (if length (S (jb_framel jb)) = unat (jb_max jb) then tl (S (jb_framel jb)) else S (jb_framel jb))"
  shows "\<exists>f jb1 S1. frame_alloc jb = Some (f, jb1) \<and> jbuf_taken jb1 S1 out f \<and> S1 (jb_framel jb) = F1 \<and>
    jb_framel jb1 = jb_framel jb \<and> jb_max jb1 = jb_max jb \<and> jb_min jb1 = jb_min jb \<and>
    (\<forall>x\<in>set F1. jb_frames jb1 x = jb_frames jb x)"
proof -
  note o = jbuf_okD [OF ok]
  let ?P = "jb_pooll jb" and ?F = "jb_framel jb"
  show ?thesis
  proof (cases "S ?P")
    case (Cons p ps)
    then have hd: "head (lsts (jb_heap jb) ?P) = Some p" using heap_okD(3) [OF o(1)] by simp
    have pd: "frame_of jb p = p" using o(3) [of p] Cons by (simp add: frame_of_def)
    let ?h = "list_unlink p (jb_heap jb)" and ?S = "S(?P := ps)"
    have h: "heap_ok ?h ?S" "le_list (les ?h p) = None"
      using dl.drop_front [OF o(1) Cons] by auto
    have F1: "F1 = S ?F" using o(6) Cons by (simp add: F1_def)
    let ?jb = "jb\<lparr>jb_heap := ?h, jb_n := jb_n jb + 1\<rparr>"
    have "frame_alloc jb = Some (p, ?jb)" using hd pd by (simp add: frame_alloc_def)
    moreover have "jbuf_taken ?jb ?S out p"
      using h o Cons F1 by (auto simp: jbuf_taken_def list_ops_data fseq_def held_def)
    ultimately show ?thesis
      using F1 o(2) by (intro exI [of _ p] exI [of _ ?jb] exI [of _ ?S]) simp
  next
    case Nil
    then have len: "length (S ?F) = unat (jb_max jb)" using o(6) by simp
    then have "S ?F \<noteq> []" using mx by (auto simp: unat_eq_0)
    then obtain g gs where F: "S ?F = g # gs" by (cases "S ?F") auto
    then have hd: "head (lsts (jb_heap jb) ?P) = None" "head (lsts (jb_heap jb) ?F) = Some g"
      using heap_okD(3) [OF o(1)] Nil by simp_all
    have gd: "frame_of jb g = g" using o(4) [of g] F by (simp add: frame_of_def)
    let ?h = "list_unlink g (jb_heap jb)" and ?S = "S(?F := gs)"
    have h: "heap_ok ?h ?S" "le_list (les ?h g) = None"
      using dl.drop_front [OF o(1) F] by auto
    have F1: "F1 = gs" using len F by (simp add: F1_def)
    have g: "g \<notin> set gs" using heap_okD(2) [OF o(1), of ?F] F by simp
    let ?jb = "(drop_mem g (stat_upd (\<lambda>s. s\<lparr>n_overflow := n_overflow s + 1\<rparr>) jb))\<lparr>jb_heap := ?h\<rparr>"
    have a: "frame_alloc jb = Some (g, ?jb)" using hd gd by (simp add: frame_alloc_def Let_def)
    have held: "held ?jb gs m = held jb gs m" for m using g by (intro held_cong) auto
    have fs: "fseq ?jb = fseq jb" by (auto simp: fseq_def fun_eq_iff)
    have "jbuf_taken ?jb ?S out g"
      using h o F len Nil held successively_Cons_tl [of _ g gs]
      by (auto simp: jbuf_taken_def list_ops_data fs)
    then show ?thesis
      using a F1 g by (intro exI [of _ g] exI [of _ ?jb] exI [of _ ?S]) auto
  qed
qed

subsection \<open>Finding the place\<close>

text \<open>The tail of the list that a frame with sequence number \<open>sq\<close> goes before.\<close>

definition later_than :: "('x \<Rightarrow> u16) \<Rightarrow> u16 \<Rightarrow> 'x \<Rightarrow> bool" where
  "later_than g sq x = (\<not> seq_less (g x) sq \<and> sq \<noteq> g x)"

definition seq_split :: "('x \<Rightarrow> u16) \<Rightarrow> u16 \<Rightarrow> 'x list \<Rightarrow> 'x list \<times> 'x list" where
  "seq_split g sq xs = (rev (dropWhile (later_than g sq) (rev xs)), rev (takeWhile (later_than g sq) (rev xs)))"

lemma seq_split_append: "seq_split g sq xs = (pre, post) \<Longrightarrow> xs = pre @ post"
  by (metis Pair_inject rev_append rev_rev_ident seq_split_def takeWhile_dropWhile_id)

lemma seq_split_later: "seq_split g sq xs = (pre, post) \<Longrightarrow> x \<in> set post \<Longrightarrow> seq_less sq (g x)"
  using seq_less_total [of sq "g x"] by (auto simp: seq_split_def later_than_def dest!: set_takeWhileD)

lemma seq_split_last:
  assumes "seq_split g sq xs = (pre, post)" "pre \<noteq> []"
  shows "seq_less (g (last pre)) sq \<or> sq = g (last pre)"
proof -
  have "dropWhile (later_than g sq) (rev xs) = rev pre" "rev pre \<noteq> []"
    using assms by (auto simp: seq_split_def)
  then show ?thesis using hd_dropWhile [of "later_than g sq" "rev xs"] assms(2)
    by (auto simp: later_than_def hd_rev)
qed

lemma seq_split_map:
  "seq_split g sq (map f xs) = (map f (fst (seq_split (g \<circ> f) sq xs)), map f (snd (seq_split (g \<circ> f) sq xs)))"
proof -
  have "later_than g sq \<circ> f = later_than (g \<circ> f) sq" by (auto simp: later_than_def fun_eq_iff)
  then show ?thesis by (simp add: seq_split_def rev_map dropWhile_map takeWhile_map)
qed

lemma seq_split_cong:
  assumes "\<And>x. x \<in> set xs \<Longrightarrow> g x = g' x"
  shows "seq_split g sq xs = seq_split g' sq xs"
proof -
  have "takeWhile (later_than g sq) (rev xs) = takeWhile (later_than g' sq) (rev xs)"
    "dropWhile (later_than g sq) (rev xs) = dropWhile (later_than g' sq) (rev xs)"
    using assms by (auto simp: later_than_def intro: takeWhile_cong dropWhile_cong)
  then show ?thesis by (simp add: seq_split_def)
qed

text \<open>The backward search finds the split.\<close>

definition put_pos_of :: "'m jbuf \<Rightarrow> u16 \<Rightarrow> addr list \<Rightarrow> put_pos" where
  "put_pos_of jb sq pre = (if pre = [] then Put_head
     else if seq_less (fseq jb (last pre)) sq then Ins_after (last pre) else Dup_at (last pre))"

lemma put_scan_run:
  assumes "links (les (jb_heap jb)) None (xs @ ys) None" "\<And>x. x \<in> set xs \<Longrightarrow> le_data (les (jb_heap jb) x) = Some x"
  shows "put_scan jb sq (last_or xs None) = Some (put_pos_of jb sq (fst (seq_split (fseq jb) sq xs)))"
  using assms
proof (induction xs arbitrary: ys rule: rev_induct)
  case Nil
  then show ?case by (simp add: put_scan.simps put_pos_of_def seq_split_def)
next
  case (snoc x xs)
  have e: "le_seq jb x = fseq jb x" using snoc.prems(2) [of x] by (simp add: le_seq_def fseq_def frame_of_def)
  have "le_prev (les (jb_heap jb) x) = last_or xs None" using snoc.prems(1) by simp
  moreover have "put_scan jb sq (last_or xs None) = Some (put_pos_of jb sq (fst (seq_split (fseq jb) sq xs)))"
    using snoc.prems by (intro snoc.IH [of "x # ys"]) auto
  ultimately show ?case
    using e by (subst put_scan.simps) (auto simp: seq_split_def later_than_def put_pos_of_def)
qed

lemma successively_insert:
  assumes "successively r (xs @ ys)" "xs \<noteq> [] \<Longrightarrow> r (last xs) z" "ys \<noteq> [] \<Longrightarrow> r z (hd ys)"
  shows "successively r (xs @ z # ys)"
  using assms by (auto simp: successively_append_iff successively_Cons)

lemma jbuf_placed:
  assumes tk: "jbuf_taken jb S out f" and h: "heap_ok h (S(jb_framel jb := pre @ f # post))"
    and F: "S (jb_framel jb) = pre @ post"
    and data: "\<And>x. le_data (les h x) = (if x = f then Some f else le_data (les (jb_heap jb) x))"
    and left: "pre \<noteq> [] \<Longrightarrow> seq_less (fseq jb (last pre)) (rh_seq hdr)"
    and right: "\<And>x. x \<in> set post \<Longrightarrow> seq_less (rh_seq hdr) (fseq jb x)"
  shows "jbuf_ok (put_done f hdr mem (jb\<lparr>jb_heap := h\<rparr>)) (S(jb_framel jb := pre @ f # post)) out"
    "jbuf_queue (put_done f hdr mem (jb\<lparr>jb_heap := h\<rparr>)) (S(jb_framel jb := pre @ f # post)) =
      map (\<lambda>f. (fr_hdr (jb_frames jb f), fr_mem (jb_frames jb f))) pre @ (hdr, mem) #
      map (\<lambda>f. (fr_hdr (jb_frames jb f), fr_mem (jb_frames jb f))) post"
proof -
  note t = jbuf_takenD [OF tk]
  let ?jb = "put_done f hdr mem (jb\<lparr>jb_heap := h\<rparr>)"
  have f: "f \<notin> set pre" "f \<notin> set post" using t(13) F by auto
  have same: "jb_heap ?jb = h" "jb_pooll ?jb = jb_pooll jb" "jb_framel ?jb = jb_framel jb" "jb_n ?jb = jb_n jb"
    "jb_max ?jb = jb_max jb" "jb_frames ?jb = (jb_frames jb)(f := \<lparr>fr_hdr = hdr, fr_mem = mem\<rparr>)"
    "jb_refs ?jb p = jb_refs jb p + (if mem = Some p then 1 else 0)" for p
    by (simp_all add: put_done_def)
  have fs: "fseq ?jb x = (if x = f then rh_seq hdr else fseq jb x)" for x by (simp add: fseq_def same)
  have chain: "successively (\<lambda>x y. seq_less (fseq ?jb x) (fseq ?jb y)) (pre @ f # post)"
  proof (rule successively_insert)
    have "successively (\<lambda>x y. seq_less (fseq jb x) (fseq jb y)) (pre @ post)" using t(10) F by simp
    then show "successively (\<lambda>x y. seq_less (fseq ?jb x) (fseq ?jb y)) (pre @ post)"
      by (rule successively_mono) (use f in \<open>auto simp: fs\<close>)
    show "seq_less (fseq ?jb (last pre)) (fseq ?jb f)" if "pre \<noteq> []"
      using that left f last_in_set [OF that] by (auto simp: fs)
    show "seq_less (fseq ?jb f) (fseq ?jb (hd post))" if "post \<noteq> []"
      using that right [of "hd post"] f by (auto simp: fs)
  qed
  have held: "held ?jb pre m = held jb pre m" "held ?jb post m = held jb post m" for m
    using f by (auto intro!: held_cong simp: same)
  show "jbuf_ok ?jb (S(jb_framel jb := pre @ f # post)) out"
    using t h F data chain held f
    by (auto simp: jbuf_ok_def same Let_def)
  show "jbuf_queue ?jb (S(jb_framel jb := pre @ f # post)) =
      map (\<lambda>f. (fr_hdr (jb_frames jb f), fr_mem (jb_frames jb f))) pre @ (hdr, mem) #
      map (\<lambda>f. (fr_hdr (jb_frames jb f), fr_mem (jb_frames jb f))) post"
    using f by (auto simp: jbuf_queue_def same)
qed

subsection \<open>Putting, getting, flushing\<close>

lemma jbuf_stat_upd [simp]:
  "jbuf_ok (stat_upd g jb) S out = jbuf_ok jb S out" "jbuf_queue (stat_upd g jb) S = jbuf_queue jb S"
  "fseq (stat_upd g jb) = fseq jb" "jbuf_taken (stat_upd g jb) S out f = jbuf_taken jb S out f"
  by (simp_all add: jbuf_ok_def jbuf_queue_def fseq_def fun_eq_iff held_def jbuf_taken_def)

text \<open>Releasing a frame of the list puts it into the pool.\<close>

lemma frame_deref_ok:
  assumes h: "heap_ok (jb_heap jb) S" and F: "S (jb_framel jb) = xs @ f # ys" and ne: "jb_pooll jb \<noteq> jb_framel jb"
  shows "heap_ok (jb_heap (frame_deref f jb)) (S(jb_framel jb := xs @ ys, jb_pooll jb := S (jb_pooll jb) @ [f]))"
    "le_data (les (jb_heap (frame_deref f jb)) x) = (if x = f then Some f else le_data (les (jb_heap jb) x))"
    "jb_frames (frame_deref f jb) = (jb_frames jb)(f := (jb_frames jb f)\<lparr>fr_mem := None\<rparr>)"
    "jb_n (frame_deref f jb) = jb_n jb - 1" "jb_pooll (frame_deref f jb) = jb_pooll jb"
    "jb_framel (frame_deref f jb) = jb_framel jb" "jb_max (frame_deref f jb) = jb_max jb"
    "jb_refs (frame_deref f jb) m = jb_refs jb m - (if fr_mem (jb_frames jb f) = Some m then 1 else 0)"
proof -
  have u: "heap_ok (list_unlink f (jb_heap jb)) (S(jb_framel jb := xs @ ys))"
    "le_list (les (list_unlink f (jb_heap jb)) f) = None"
    using list_unlink_at [OF h F] list_unlink_frees [OF h] by auto
  from list_append_ok [OF u, of "jb_pooll jb" "Some f"] ne
  show "heap_ok (jb_heap (frame_deref f jb)) (S(jb_framel jb := xs @ ys, jb_pooll jb := S (jb_pooll jb) @ [f]))"
    by (simp add: frame_deref_def Let_def)
  show "le_data (les (jb_heap (frame_deref f jb)) x) = (if x = f then Some f else le_data (les (jb_heap jb) x))"
    using u(2) by (simp add: frame_deref_def Let_def list_ops_data)
qed (simp_all add: frame_deref_def Let_def)

lemma jbuf_put_run:
  assumes ok: "jbuf_ok jb S out" and mx: "jb_max jb \<noteq> 0"
    and soon: "\<not> (jb_running jb \<and> seq_less (ucast (ucast (rh_seq hdr) + jb_n jb)) (jb_seq_put jb))"
    and F1: "F1 = (if length (S (jb_framel jb)) = unat (jb_max jb) then tl (S (jb_framel jb)) else S (jb_framel jb))"
    and split: "seq_split (fseq jb) (rh_seq hdr) F1 = (pre, post)"
  shows "\<exists>err jb' S'. jbuf_put hdr mem jb = Some (err, jb') \<and> jbuf_ok jb' S' out \<and>
    (if pre \<noteq> [] \<and> fseq jb (last pre) = rh_seq hdr
     then err = EALREADY \<and>
       jbuf_queue jb' S' = map (\<lambda>f. (fr_hdr (jb_frames jb f), fr_mem (jb_frames jb f))) F1
     else err = 0 \<and>
       jbuf_queue jb' S' = map (\<lambda>f. (fr_hdr (jb_frames jb f), fr_mem (jb_frames jb f))) pre @ (hdr, mem) #
         map (\<lambda>f. (fr_hdr (jb_frames jb f), fr_mem (jb_frames jb f))) post)"
proof -
  let ?sq = "rh_seq hdr" and ?L = "jb_framel jb"
  let ?jb0 = "stat_upd (\<lambda>s. s\<lparr>n_put := n_put s + 1\<rparr>) jb"
  have ok0: "jbuf_ok ?jb0 S out" using ok by simp
  obtain f jb1 S1 where a: "frame_alloc ?jb0 = Some (f, jb1)" "jbuf_taken jb1 S1 out f" "S1 ?L = F1"
    "jb_framel jb1 = ?L" "\<forall>x\<in>set F1. jb_frames jb1 x = jb_frames jb x"
    using frame_alloc_ok [OF ok0] mx F1 by auto
  note t = jbuf_takenD [OF a(2), unfolded a(4)]
  have fs: "fseq jb1 x = fseq jb x" if "x \<in> set F1" for x using that a(5) by (simp add: fseq_def)
  have split1: "seq_split (fseq jb1) ?sq F1 = (pre, post)"
    using split seq_split_cong [of F1 "fseq jb1" "fseq jb" ?sq] fs by simp
  have F: "F1 = pre @ post" by (rule seq_split_append [OF split])
  then have S1: "S1 (jb_framel jb1) = pre @ post" using a(3,4) by simp
  have q: "map (\<lambda>f. (fr_hdr (jb_frames jb1 f), fr_mem (jb_frames jb1 f))) xs =
      map (\<lambda>f. (fr_hdr (jb_frames jb f), fr_mem (jb_frames jb f))) xs" if "set xs \<subseteq> set F1" for xs
    using that a(5) by auto
  have right: "\<And>x. x \<in> set post \<Longrightarrow> seq_less ?sq (fseq jb1 x)" using seq_split_later [OF split1] .
  have last: "pre \<noteq> [] \<Longrightarrow> seq_less (fseq jb1 (last pre)) ?sq \<or> ?sq = fseq jb1 (last pre)"
    using seq_split_last [OF split1] .
  have tl: "tail (lsts (jb_heap jb1) ?L) = last_or F1 None" using heap_okD(4) [OF t(1), of ?L] a(3) by simp
  have lseq: "le_seq jb1 x = fseq jb1 x" if "x \<in> set F1" for x
    using t(5) [of x] that a(3) by (simp add: le_seq_def fseq_def frame_of_def)
  have scan: "put_scan jb1 ?sq (last_or F1 None) = Some (put_pos_of jb1 ?sq pre)"
    using put_scan_run [of jb1 F1 "[]" ?sq] heap_okD(1) [OF t(1), of ?L] t(5) a(3) split1 by simp
  note fresh = t(2)
  have success: ?thesis
    if put: "jbuf_put hdr mem jb = Some (0, put_done f hdr mem ((stat_upd g jb1)\<lparr>jb_heap := h\<rparr>))"
      and h: "heap_ok h (S1(?L := pre @ f # post))"
      and data: "\<And>x. le_data (les h x) = (if x = f then Some f else le_data (les (jb_heap jb1) x))"
      and left: "pre \<noteq> [] \<Longrightarrow> seq_less (fseq jb1 (last pre)) ?sq" for g h
  proof -
    let ?jb = "put_done f hdr mem ((stat_upd g jb1)\<lparr>jb_heap := h\<rparr>)" and ?S = "S1(?L := pre @ f # post)"
    have tk: "jbuf_taken (stat_upd g jb1) S1 out f" using a(2) by simp
    have ne: "\<not> (pre \<noteq> [] \<and> fseq jb (last pre) = ?sq)"
      using left fs [of "last pre"] F last_in_set [of pre] by auto
    have "jbuf_ok ?jb ?S out"
      using jbuf_placed(1) [OF tk, of h pre post hdr mem] h S1 data left right a(4) by simp
    moreover have "jbuf_queue ?jb ?S = map (\<lambda>f. (fr_hdr (jb_frames jb f), fr_mem (jb_frames jb f))) pre @
        (hdr, mem) # map (\<lambda>f. (fr_hdr (jb_frames jb f), fr_mem (jb_frames jb f))) post"
      using jbuf_placed(2) [OF tk, of h pre post hdr mem] h S1 data left right a(4) q [of pre] q [of post] F
      by simp
    ultimately show ?thesis using put ne by (intro exI [of _ 0] exI [of _ ?jb] exI [of _ ?S]) simp
  qed
  show ?thesis
  proof (cases "F1 = [] \<or> seq_less (fseq jb1 (last F1)) ?sq")
    case True
    then have pp: "pre = F1" "post = []"
      using split1 by (auto simp: seq_split_def later_than_def hd_rev [symmetric])
        (cases "rev F1"; auto simp: later_than_def last_rev)+
    let ?h = "list_append ?L f (Some f) (jb_heap jb1)"
    show ?thesis
    proof (rule success)
      show "jbuf_put hdr mem jb = Some (0, put_done f hdr mem ((stat_upd (\<lambda>s. s) jb1)\<lparr>jb_heap := ?h\<rparr>))"
        using a(1,4) tl True soon lseq last_in_set [of F1]
        by (auto simp: jbuf_put_def Let_def last_or_def stat_upd_def)
      show "heap_ok ?h (S1(?L := pre @ f # post))"
        using list_append_ok [OF t(1) fresh, of ?L "Some f"] a(3,4) pp by simp
    qed (use True pp list_ops_data(1) [OF fresh] in auto)
  next
    case False
    then have put: "jbuf_put hdr mem jb = (case Some (put_pos_of jb1 ?sq pre) of
        None \<Rightarrow> None
      | Some (Ins_after le) \<Rightarrow>
          Some (0, put_done f hdr mem (stat_upd (\<lambda>s. s\<lparr>n_oos := n_oos s + 1\<rparr>)
            (jb1\<lparr>jb_heap := list_insert_after ?L le f (Some f) (jb_heap jb1)\<rparr>)))
      | Some (Dup_at le) \<Rightarrow>
          Some (EALREADY, frame_deref f ((stat_upd (\<lambda>s. s\<lparr>n_dups := n_dups s + 1\<rparr>) jb1)
            \<lparr>jb_heap := list_insert_after ?L le f (Some f) (jb_heap jb1)\<rparr>))
      | Some Put_head \<Rightarrow>
          Some (0, put_done f hdr mem (stat_upd (\<lambda>s. s\<lparr>n_oos := n_oos s + 1\<rparr>)
            (jb1\<lparr>jb_heap := list_prepend ?L f (Some f) (jb_heap jb1)\<rparr>))))"
      using a(1,4) tl soon scan lseq last_in_set [of F1]
      by (auto simp: jbuf_put_def Let_def last_or_def split: put_pos.split)
    have st: "stat_upd g (jb1\<lparr>jb_heap := h\<rparr>) = (stat_upd g jb1)\<lparr>jb_heap := h\<rparr>" for g h
      by (simp add: stat_upd_def)
    show ?thesis
    proof (cases "pre = []")
      case True
      show ?thesis
      proof (rule success)
        show "jbuf_put hdr mem jb = Some (0, put_done f hdr mem
            ((stat_upd (\<lambda>s. s\<lparr>n_oos := n_oos s + 1\<rparr>) jb1)\<lparr>jb_heap := list_prepend ?L f (Some f) (jb_heap jb1)\<rparr>))"
          using put True by (simp add: put_pos_of_def st)
        show "heap_ok (list_prepend ?L f (Some f) (jb_heap jb1)) (S1(?L := pre @ f # post))"
          using list_prepend_ok [OF t(1) fresh, of ?L "Some f"] a(3) F True by simp
      qed (use True list_ops_data(2) [OF fresh] in auto)
    next
      case False
      then obtain ps e where pre: "pre = ps @ [e]" by (meson rev_exhaust)
      let ?h = "list_insert_after ?L e f (Some f) (jb_heap jb1)"
      have S1': "S1 ?L = ps @ e # post" using a(3) F pre by simp
      have h: "heap_ok ?h (S1(?L := pre @ f # post))"
        using list_insert_after_ok [OF t(1) fresh S1', of "Some f"] pre by simp
      have "f \<noteq> e" using t(13) S1' a(4) by auto
      note data = list_ops_data(4) [OF fresh this]
      show ?thesis
      proof (cases "seq_less (fseq jb1 e) ?sq")
        case True
        show ?thesis
        proof (rule success)
          show "jbuf_put hdr mem jb = Some (0, put_done f hdr mem
              ((stat_upd (\<lambda>s. s\<lparr>n_oos := n_oos s + 1\<rparr>) jb1)\<lparr>jb_heap := ?h\<rparr>))"
            using put True pre by (simp add: put_pos_of_def st)
        qed (use h data True pre in auto)
      next
        case False
        then have eq: "fseq jb1 e = ?sq" using last pre by auto
        let ?jb2 = "(stat_upd (\<lambda>s. s\<lparr>n_dups := n_dups s + 1\<rparr>) jb1)\<lparr>jb_heap := ?h\<rparr>"
        let ?jb3 = "frame_deref f ?jb2"
        let ?S1 = "S1(jb_framel jb1 := pre @ f # post)"
        let ?S = "S1(jb_framel jb1 := pre @ post, jb_pooll jb1 := S1 (jb_pooll jb1) @ [f])"
        have put: "jbuf_put hdr mem jb = Some (EALREADY, ?jb3)"
          using put False pre by (simp add: put_pos_of_def)
        have p: "heap_ok (jb_heap ?jb2) ?S1" "?S1 (jb_framel ?jb2) = pre @ f # post"
          "jb_pooll ?jb2 \<noteq> jb_framel ?jb2" using h a(4) t(3) by simp_all
        note d = frame_deref_ok [OF p]
        have frames: "jb_frames ?jb3 = jb_frames jb1" using d(3) t(9) by (auto simp: fun_eq_iff)
        then have fs3: "fseq ?jb3 = fseq jb1" and held3: "\<And>xs m. held ?jb3 xs m = held jb1 xs m"
          by (auto simp: fseq_def held_def fun_eq_iff)
        have "?S1(jb_framel ?jb2 := pre @ post, jb_pooll ?jb2 := ?S1 (jb_pooll ?jb2) @ [f]) = ?S"
          using a(4) t(3) by (auto simp: fun_eq_iff)
        then have "heap_ok (jb_heap ?jb3) ?S" using d(1) by metis
        moreover have "le_data (les (jb_heap ?jb3) x) = (if x = f then Some f else le_data (les (jb_heap jb1) x))" for x
          using d(2) [of x] by (simp add: data)
        moreover have "jb_refs ?jb3 m = jb_refs jb1 m" for m using d(8) [of m] t(9) by simp
        moreover have "jb_n ?jb3 = of_nat (length (S1 (jb_framel jb1)))" using d(4) t(6) a(4) by simp
        ultimately have "jbuf_ok ?jb3 ?S out"
          unfolding jbuf_ok_def Let_def d(5-7) frames fs3 held3
          using t S1 by (auto simp: d(5-7) a(4))
        moreover have "jbuf_queue ?jb3 ?S = map (\<lambda>f. (fr_hdr (jb_frames jb f), fr_mem (jb_frames jb f))) F1"
          using q [of F1] F t(3) a(4) by (simp add: jbuf_queue_def d(6) frames)
        moreover have "pre \<noteq> [] \<and> fseq jb (last pre) = ?sq" using eq pre fs [of e] F by simp
        ultimately show ?thesis using put by (intro exI [of _ EALREADY] exI [of _ ?jb3] exI [of _ ?S]) simp
      qed
    qed
  qed
qed

lemma jbuf_release_head:
  assumes ok: "jbuf_ok jb S out" and F: "S (jb_framel jb) = f # fs"
  shows "jbuf_ok (frame_deref f jb) (S(jb_framel jb := fs, jb_pooll jb := S (jb_pooll jb) @ [f])) out"
    "jbuf_queue (frame_deref f jb) (S(jb_framel jb := fs, jb_pooll jb := S (jb_pooll jb) @ [f])) =
      tl (jbuf_queue jb S)"
    "frame_of jb f = f"
proof -
  note o = jbuf_okD [OF ok]
  have F': "S (jb_framel jb) = [] @ f # fs" using F by simp
  note d = frame_deref_ok [OF o(1) F' o(2), simplified append_Nil]
  have nf: "f \<notin> set fs" using heap_okD(2) [OF o(1), of "jb_framel jb"] F by simp
  have held: "held (frame_deref f jb) fs m = held jb fs m" for m
    using nf by (intro held_cong) (auto simp: d)
  have fq: "fseq (frame_deref f jb) = fseq jb" by (auto simp: fseq_def d fun_eq_iff)
  show "jbuf_ok (frame_deref f jb) (S(jb_framel jb := fs, jb_pooll jb := S (jb_pooll jb) @ [f])) out"
    unfolding jbuf_ok_def Let_def d(5-7) fq
    using d(1) o F nf successively_Cons_tl [of _ f fs]
    by (auto simp: d(2-4) d(8) held)
  show "jbuf_queue (frame_deref f jb) (S(jb_framel jb := fs, jb_pooll jb := S (jb_pooll jb) @ [f])) =
      tl (jbuf_queue jb S)"
    using F o(2) nf by (auto simp: jbuf_queue_def d)
  show "frame_of jb f = f" using o(4) [of f] F by (simp add: frame_of_def)
qed

lemma flush_loop_run:
  assumes "jbuf_ok jb S out"
  shows "\<exists>jb' S'. flush_loop jb = Some jb' \<and> jbuf_ok jb' S' out \<and> S' (jb_framel jb') = []"
  using assms
proof (induction "S (jb_framel jb)" arbitrary: jb S)
  case Nil
  then have "head (lsts (jb_heap jb) (jb_framel jb)) = None"
    using heap_okD(3) [OF jbuf_okD(1) [OF Nil(2)]] by (metis first_or.simps(1))
  then show ?case using Nil by (subst flush_loop.simps) auto
next
  case (Cons f fs)
  note F = Cons(2) [symmetric] and ok = Cons(3)
  have hd: "head (lsts (jb_heap jb) (jb_framel jb)) = Some f"
    using heap_okD(3) [OF jbuf_okD(1) [OF ok]] F by (metis first_or.simps(2))
  note r = jbuf_release_head [OF ok F]
  have "fs = (S(jb_framel jb := fs, jb_pooll jb := S (jb_pooll jb) @ [f])) (jb_framel (frame_deref f jb))"
    using jbuf_okD(2) [OF ok] by (simp add: frame_deref_def Let_def)
  from Cons(1) [OF this r(1)] show ?case
    using hd r(3) by (subst flush_loop.simps) simp
qed

lemma jbuf_ok_idle:
  "jbuf_ok jb S out \<Longrightarrow> S (jb_framel jb) = [] \<Longrightarrow> jbuf_ok (jb\<lparr>jb_n := 0, jb_running := r\<rparr>) S out"
  by (simp add: jbuf_ok_def held_def fseq_def Let_def)

lemma heap_ok_zero:
  "heap_ok h S \<Longrightarrow> le_list (les h e) = None \<Longrightarrow>
   heap_ok (upd_le e (\<lambda>_. \<lparr>le_prev = None, le_next = None, le_list = None, le_data = None\<rparr>) h) S"
  using heap_ok_free [of h S e] by (auto simp: heap_ok_def)

lemma alloc_frames_run:
  assumes "heap_ok (jb_heap jb) S" "jb_pooll jb \<noteq> jb_framel jb" "S (jb_framel jb) = []"
    and "\<forall>j < n. \<exists>f. al (i + j) = Some f \<and> le_list (les (jb_heap jb) f) = None"
    and "\<forall>j < n. \<forall>k < j. al (i + j) \<noteq> al (i + k)"
    and "\<forall>f\<in>set (S (jb_pooll jb)). le_data (les (jb_heap jb) f) = Some f \<and> fr_mem (jb_frames jb f) = None"
    and "\<forall>m. jb_refs jb m = 0"
  shows "\<exists>jb' S'. alloc_frames al i n jb = (0, jb') \<and> heap_ok (jb_heap jb') S' \<and>
    jb_pooll jb' = jb_pooll jb \<and> jb_framel jb' = jb_framel jb \<and> jb_running jb' = jb_running jb \<and> jb_n jb' = jb_n jb \<and> jb_max jb' = jb_max jb \<and>
    S' (jb_framel jb) = [] \<and> length (S' (jb_pooll jb)) = length (S (jb_pooll jb)) + n \<and>
    (\<forall>f\<in>set (S' (jb_pooll jb)). le_data (les (jb_heap jb') f) = Some f \<and> fr_mem (jb_frames jb' f) = None) \<and>
    (\<forall>m. jb_refs jb' m = 0)"
  using assms
proof (induction n arbitrary: i jb S)
  case 0
  then show ?case by auto
next
  case (Suc n)
  obtain f where f: "al i = Some f" "le_list (les (jb_heap jb) f) = None"
    using Suc.prems(4) by (metis add_0_right zero_less_Suc)
  let ?z = "upd_le f (\<lambda>_. \<lparr>le_prev = None, le_next = None, le_list = None, le_data = None\<rparr>) (jb_heap jb)"
  let ?jb = "jb\<lparr>jb_frames := (jb_frames jb)(f := \<lparr>fr_hdr = rtp_header_zero, fr_mem = None\<rparr>),
    jb_heap := list_append (jb_pooll jb) f (Some f) ?z\<rparr>"
  let ?S = "S(jb_pooll jb := S (jb_pooll jb) @ [f])"
  have z: "le_list (les ?z f) = None" by simp
  have h: "heap_ok (jb_heap ?jb) ?S" using list_append_ok [OF heap_ok_zero [OF Suc.prems(1) f(2)] z] by simp
  have data: "le_data (les (jb_heap ?jb) x) = (if x = f then Some f else le_data (les (jb_heap jb) x))" for x
    using z by (simp add: list_ops_data)
  have free: "\<forall>j < n. \<exists>g. al (Suc i + j) = Some g \<and> le_list (les (jb_heap ?jb) g) = None"
  proof (intro allI impI)
    fix j assume "j < n"
    then obtain g where g: "al (Suc i + j) = Some g" "le_list (les (jb_heap jb) g) = None"
      using Suc.prems(4) by (metis Suc_less_eq add_Suc_shift)
    have "al (i + Suc j) \<noteq> al (i + 0)" using Suc.prems(5) \<open>j < n\<close> by blast
    then have "g \<noteq> f" using g(1) f(1) by auto
    then have "\<nexists>M. g \<in> set (?S M)" using heap_ok_free [OF Suc.prems(1) g(2)] by simp
    then have "le_list (les (jb_heap ?jb) g) = None" using heap_okD(5) [OF h] by (metis not_Some_eq)
    then show "\<exists>g. al (Suc i + j) = Some g \<and> le_list (les (jb_heap ?jb) g) = None" using g(1) by blast
  qed
  have inj: "\<forall>j < n. \<forall>k < j. al (Suc i + j) \<noteq> al (Suc i + k)"
    using Suc.prems(5) by (metis Suc_less_eq add_Suc_shift)
  have "S (jb_framel jb) = [] \<Longrightarrow> ?S (jb_framel ?jb) = []" using Suc.prems(2) by simp
  from Suc.IH [OF h _ this [OF Suc.prems(3)] free inj] show ?case
    using f Suc.prems(2,3,6,7) data by auto
qed

subsection \<open>Properties\<close>

text \<open>A buffer of one to three frames in a fresh heap, for concrete runs.\<close>

lemma seq_less_works: "seq_less 10 20" "\<not> seq_less 20 10" "seq_less 65535 0"
  by (simp_all add: seq_less_def word_sless_alt)

lemma jbuf_alloc_run:
  assumes "heap_ok h S" "P \<noteq> F" "S P = []" "S F = []" "mn \<le> mx"
    and "\<forall>j < unat mx. \<exists>f. al j = Some f \<and> le_list (les h f) = None"
    and "\<forall>j < unat mx. \<forall>k < j. al j \<noteq> al k"
  shows "\<exists>(jb :: 'm jbuf) S'. jbuf_alloc (Some (P, F)) al mn mx h = (0, Some jb) \<and>
    jbuf_ok jb S' (\<lambda>_. 0) \<and> jbuf_queue jb S' = [] \<and> jb_max jb = mx \<and> \<not> jb_running jb"
proof -
  let ?jb = "(jbuf_zero P F h :: 'm jbuf)\<lparr>jb_min := mn, jb_max := mx\<rparr>"
  have init: "heap_ok (list_init L g) S" if "heap_ok g S" "S L = []" for L and g :: "addr lheap"
    using that by (auto simp: heap_ok_def list_init_def)
  have h: "heap_ok (jb_heap ?jb) S" using init [OF init [OF assms(1,3)] assms(4)] by (simp add: jbuf_zero_def)
  have l: "les (jb_heap ?jb) = les h" by (simp add: jbuf_zero_def list_init_def)
  from alloc_frames_run [OF h, of "unat mx" al 0] assms(2-4,6,7) l
  obtain jb S' where r: "alloc_frames al 0 (unat mx) ?jb = (0, jb)" "heap_ok (jb_heap jb) S'"
    "jb_pooll jb = P" "jb_framel jb = F" "jb_n jb = 0" "jb_max jb = mx" "S' F = []" "\<not> jb_running jb"
    "length (S' P) = unat mx"
    "\<forall>f\<in>set (S' P). le_data (les (jb_heap jb) f) = Some f \<and> fr_mem (jb_frames jb f) = None"
    "\<forall>m. jb_refs jb m = 0"
    by (auto simp: jbuf_zero_def)
  have "jbuf_ok jb S' (\<lambda>_. 0)" using r assms(2) by (simp add: jbuf_ok_def Let_def)
  moreover have "jbuf_queue jb S' = []" using r by (simp add: jbuf_queue_def)
  moreover have "jbuf_alloc (Some (P, F)) al mn mx h = (0, Some jb)"
    using r(1) assms(5) seq_less_works by (simp add: jbuf_alloc_def not_less)
  ultimately show ?thesis using r(6,8) by blast
qed

lemma jbuf_ok_example: "\<exists>jb S. jbuf_ok (jb :: nat jbuf) S (\<lambda>_. 0) \<and> jb_max jb = 2 \<and> jbuf_queue jb S = [] \<and> \<not> jb_running jb"
  using jbuf_alloc_run [OF heap_empty_ok, of 0 1 0 2 "\<lambda>i. Some (5 + i)"] by (auto simp: word_le_nat_alt)

text \<open>C9: \<open>jbuf_put\<close> on a consistent buffer with at least one frame always returns, leaves the buffer
  consistent (all frames accounted for, sequence order kept, references exact) and does this to
  the queue: a packet that is late for a running buffer is refused with \<open>ETIMEDOUT\<close>; otherwise, when
  all frames are in use, the oldest packet is dropped; a packet whose sequence number the search
  meets is refused with \<open>EALREADY\<close>; any other is put behind the last packet that is earlier.\<close>

theorem jbuf_put_inserts:
  assumes "jbuf_ok jb S out" "jb_max jb \<noteq> 0" "q = jbuf_queue jb S"
    and "q1 = (if length q = unat (jb_max jb) then tl q else q)"
    and "seq_split (rh_seq \<circ> fst) (rh_seq hdr) q1 = (pre, post)"
  shows "\<exists>err jb' S'. jbuf_put hdr mem jb = Some (err, jb') \<and> jbuf_ok jb' S' out \<and>
    (if jb_running jb \<and> seq_less (ucast (ucast (rh_seq hdr) + jb_n jb)) (jb_seq_put jb)
     then err = ETIMEDOUT \<and> jbuf_queue jb' S' = q
     else if pre \<noteq> [] \<and> rh_seq (fst (last pre)) = rh_seq hdr
     then err = EALREADY \<and> jbuf_queue jb' S' = q1
     else err = 0 \<and> jbuf_queue jb' S' = pre @ (hdr, mem) # post)"
proof (cases "jb_running jb \<and> seq_less (ucast (ucast (rh_seq hdr) + jb_n jb)) (jb_seq_put jb)")
  case True
  then show ?thesis
    using assms(1,3) by (intro exI [of _ ETIMEDOUT] exI [of _ "snd (the (jbuf_put hdr mem jb))"] exI [of _ S])
      (simp add: jbuf_put_def Let_def)
next
  case False
  let ?g = "\<lambda>f. (fr_hdr (jb_frames jb f), fr_mem (jb_frames jb f))"
  define F1 where "F1 = (if length (S (jb_framel jb)) = unat (jb_max jb) then tl (S (jb_framel jb)) else S (jb_framel jb))"
  obtain a b where ab: "seq_split (fseq jb) (rh_seq hdr) F1 = (a, b)" by fastforce
  have q1: "q1 = map ?g F1" using assms(3,4) by (simp add: F1_def jbuf_queue_def map_tl)
  have "(rh_seq \<circ> fst) \<circ> ?g = fseq jb" by (simp add: fun_eq_iff fseq_def)
  then have pp: "pre = map ?g a" "post = map ?g b"
    using assms(5) seq_split_map [of "rh_seq \<circ> fst" "rh_seq hdr" ?g F1] ab by (simp_all add: q1)
  have dup: "pre \<noteq> [] \<and> rh_seq (fst (last pre)) = rh_seq hdr \<longleftrightarrow> a \<noteq> [] \<and> fseq jb (last a) = rh_seq hdr"
    by (auto simp: pp last_map fseq_def)
  show ?thesis
    using jbuf_put_run [OF assms(1,2) False F1_def ab, of mem]
    unfolding if_not_P [OF False] dup by (simp only: pp q1)
qed

theorem jbuf_put_inserts_witness:
  "\<exists>(jb :: nat jbuf) S jb' S'. jbuf_put (rtp_header_zero\<lparr>rh_seq := 7\<rparr>) (Some 3) jb = Some (0, jb') \<and>
    jbuf_ok jb' S' (\<lambda>_. 0) \<and> jbuf_queue jb' S' = [(rtp_header_zero\<lparr>rh_seq := 7\<rparr>, Some 3)]"
proof -
  obtain jb :: "nat jbuf" and S where jb: "jbuf_ok jb S (\<lambda>_. 0)" "jb_max jb = 2" "jbuf_queue jb S = []"
    "\<not> jb_running jb"
    using jbuf_ok_example by auto
  show ?thesis
    using jbuf_put_inserts [OF jb(1), of "[]" "[]" "rtp_header_zero\<lparr>rh_seq := 7\<rparr>" "[]" "[]" "Some 3"] jb
    by (auto simp: seq_split_def)
qed

text \<open>C18: \<open>jbuf_get\<close> returns \<open>ENOENT\<close> and changes only statistics while no more than the configured
  minimum is buffered; otherwise it hands out the first packet of the queue with one reference for
  the caller, which the caller now holds, and takes the packet off the queue.\<close>

theorem jbuf_get_takes:
  assumes "jbuf_ok jb S out" "jbuf_get jb = ((err, res), jb')"
  shows "if of_nat (length (jbuf_queue jb S)) \<le> jb_min jb \<or> jbuf_queue jb S = []
    then err = ENOENT \<and> res = None \<and> jbuf_ok jb' S out \<and> jbuf_queue jb' S = jbuf_queue jb S
    else err = 0 \<and> res = Some (hd (jbuf_queue jb S)) \<and>
      (\<exists>S'. jbuf_ok jb' S' (\<lambda>m. out m + (if snd (hd (jbuf_queue jb S)) = Some m then 1 else 0)) \<and>
        jbuf_queue jb' S' = tl (jbuf_queue jb S))"
proof (cases "S (jb_framel jb)")
  case Nil
  then have "head (lsts (jb_heap jb) (jb_framel jb)) = None" "jbuf_queue jb S = []"
    using heap_okD(3) [OF jbuf_okD(1) [OF assms(1)], of "jb_framel jb"] by (simp_all add: jbuf_queue_def)
  then show ?thesis using assms by (auto simp: jbuf_get_def Let_def)
next
  case (Cons f fs)
  then have hd: "head (lsts (jb_heap jb) (jb_framel jb)) = Some f"
    and q: "jbuf_queue jb S \<noteq> []" "hd (jbuf_queue jb S) = (fr_hdr (jb_frames jb f), fr_mem (jb_frames jb f))"
    and n: "jb_n jb = of_nat (length (jbuf_queue jb S))"
    using heap_okD(3) [OF jbuf_okD(1) [OF assms(1)], of "jb_framel jb"] jbuf_okD(5) [OF assms(1)]
    by (simp_all add: jbuf_queue_def)
  show ?thesis
  proof (cases "jb_n jb \<le> jb_min jb")
    case True
    then show ?thesis using assms n q by (auto simp: jbuf_get_def Let_def)
  next
    case False
    let ?mem = "fr_mem (jb_frames jb f)"
    obtain g r where jb': "jb' = frame_deref f (ref_add 1 ?mem ((stat_upd g jb)\<lparr>jb_seq_get := r\<rparr>))"
      and r: "err = 0" "res = Some (hd (jbuf_queue jb S))"
    proof -
      have fo: "frame_of (stat_upd s jb) f = f" for s
        using jbuf_release_head(3) [OF assms(1) Cons] by (simp add: frame_of_def)
      have "\<exists>g. jb' = frame_deref f (ref_add 1 ?mem ((stat_upd g jb)\<lparr>jb_seq_get := rh_seq (fr_hdr (jb_frames jb f))\<rparr>)) \<and>
          err = 0 \<and> res = Some (hd (jbuf_queue jb S))"
        using assms(2) False hd q(2) fo
        by (auto simp: jbuf_get_def Let_def stat_upd_def split: if_splits)
      then show ?thesis using that by blast
    qed
    let ?jb = "ref_add 1 ?mem ((stat_upd g jb)\<lparr>jb_seq_get := r\<rparr>)"
    have "jbuf_ok ?jb S (\<lambda>m. out m + (if ?mem = Some m then 1 else 0))"
      using assms(1) by (simp add: jbuf_ok_def Let_def held_def fseq_def)
    moreover have "jbuf_queue ?jb S = jbuf_queue jb S" "S (jb_framel ?jb) = f # fs"
      using Cons by (simp_all add: jbuf_queue_def)
    ultimately show ?thesis
      using jbuf_release_head(1,2) [of ?jb S "\<lambda>m. out m + (if ?mem = Some m then 1 else 0)" f fs] jb' r q n False
      by auto
  qed
qed

theorem jbuf_get_takes_witness:
  "\<exists>(jb :: nat jbuf) jb'. jbuf_get jb = ((ENOENT, None), jb') \<and> jb_max jb = 2"
proof -
  obtain jb :: "nat jbuf" and S where jb: "jbuf_ok jb S (\<lambda>_. 0)" "jb_max jb = 2" "jbuf_queue jb S = []"
    using jbuf_ok_example by auto
  obtain err res jb' where g: "jbuf_get jb = ((err, res), jb')" by (metis prod.collapse)
  then show ?thesis using jbuf_get_takes [OF jb(1) g] jb by auto
qed

text \<open>\<open>jbuf_flush\<close> ends, empties the buffer, and releases exactly the references of the buffered
  packets: what is left are the references the users hold.\<close>

theorem jbuf_flush_releases:
  assumes "jbuf_ok jb S out"
  shows "\<exists>jb' S'. jbuf_flush jb = Some jb' \<and> jbuf_ok jb' S' out \<and> jbuf_queue jb' S' = [] \<and>
    \<not> jb_running jb' \<and> jb_refs jb' = out"
proof -
  obtain jb1 S1 where f: "flush_loop jb = Some jb1" "jbuf_ok jb1 S1 out" "S1 (jb_framel jb1) = []"
    using flush_loop_run [OF assms] by auto
  let ?jb = "stat_upd (\<lambda>s. s\<lparr>n_flush := n_flush s + 1\<rparr>) (jb1\<lparr>jb_n := 0, jb_running := False\<rparr>)"
  have ok: "jbuf_ok ?jb S1 out" using jbuf_ok_idle [OF f(2,3), of False] by simp
  moreover have "jb_refs ?jb = out" using jbuf_okD(9) [OF ok] f(3) by (auto simp: fun_eq_iff)
  ultimately show ?thesis
    using f by (intro exI [of _ ?jb] exI [of _ S1]) (simp add: jbuf_flush_def jbuf_queue_def stat_upd_def)
qed

theorem jbuf_flush_releases_witness:
  "\<exists>(jb :: nat jbuf) jb'. jbuf_flush jb = Some jb' \<and> jb_refs jb' = (\<lambda>_. 0)"
proof -
  obtain jb :: "nat jbuf" and S where jb: "jbuf_ok jb S (\<lambda>_. 0)" using jbuf_ok_example by auto
  from jbuf_flush_releases [OF jb] show ?thesis by blast
qed

text \<open>Playout order: while the buffered sequence numbers lie within half the number space from
  some base, the queue is strictly ascending from that base, so that packets are handed out in
  order and none twice, whatever order they arrived in.\<close>

theorem jbuf_queue_ascending:
  assumes "jbuf_ok jb S out" "\<forall>p\<in>set (jbuf_queue jb S). unat (rh_seq (fst p) - b) < 2 ^ 15"
  shows "sorted_wrt (<) (map (\<lambda>p. unat (rh_seq (fst p) - b)) (jbuf_queue jb S))"
proof -
  have less: "unat (x - b) < unat (y - b)"
    if "seq_less x y" "unat (x - b) < 2 ^ 15" "unat (y - b) < 2 ^ 15" for x y :: u16
  proof (rule ccontr)
    assume "\<not> unat (x - b) < unat (y - b)"
    then have le: "unat (y - b) \<le> unat (x - b)" by simp
    have "unat (x - y) = unat (x - b) - unat (y - b)"
      using unat_sub_small [OF le] by simp
    then have "unat (x - y) < 2 ^ 15" using that(2) by simp
    then obtain k where k: "unat (x - y) = k" "k < 2 ^ 15" by blast
    have "sint (word_of_int (int k) :: u16) = int k" by (rule sint16_small) (use k(2) in simp_all)
    moreover have "word_of_int (int k) = x - y" unfolding k(1) [symmetric] by simp
    ultimately have "0 \<le> sint (x - y)" by simp
    then show False using that(1) by (simp add: seq_less_def word_sless_alt)
  qed
  have "successively (\<lambda>x y. unat (fseq jb x - b) < unat (fseq jb y - b)) (S (jb_framel jb))"
    using jbuf_okD(8) [OF assms(1)] by (rule successively_mono)
      (use assms(2) in \<open>auto simp: jbuf_queue_def fseq_def intro: less\<close>)
  then have "successively (<) (map (\<lambda>p. unat (rh_seq (fst p) - b)) (jbuf_queue jb S))"
    by (simp add: successively_map jbuf_queue_def fseq_def)
  then show ?thesis by (simp add: successively_conv_sorted_wrt)
qed

theorem jbuf_queue_ascending_witness:
  "\<exists>(jb :: nat jbuf) S. jbuf_ok jb S (\<lambda>_. 0) \<and>
    sorted_wrt (<) (map (\<lambda>p. unat (rh_seq (fst p) - 0)) (jbuf_queue jb S))"
proof -
  obtain jb :: "nat jbuf" and S where jb: "jbuf_ok jb S (\<lambda>_. 0)" "jbuf_queue jb S = []"
    using jbuf_ok_example by auto
  have "\<forall>p\<in>set (jbuf_queue jb S). unat (rh_seq (fst p) - 0) < 2 ^ 15" using jb(2) by simp
  from jbuf_queue_ascending [OF jb(1) this] jb(1) show ?thesis by blast
qed

text \<open>A new buffer: with fresh frames for the asked maximum (and a minimum no larger),
  \<open>jbuf_alloc\<close> succeeds with a consistent, empty buffer that has exactly that many frames.\<close>

theorem jbuf_alloc_ready:
  assumes "heap_ok h S" "P \<noteq> F" "S P = []" "S F = []" "mn \<le> mx"
    and "\<forall>j < unat mx. \<exists>f. al j = Some f \<and> le_list (les h f) = None"
    and "\<forall>j < unat mx. \<forall>k < j. al j \<noteq> al k"
  shows "\<exists>(jb :: 'm jbuf) S'. jbuf_alloc (Some (P, F)) al mn mx h = (0, Some jb) \<and>
    jbuf_ok jb S' (\<lambda>_. 0) \<and> jbuf_queue jb S' = [] \<and> jb_max jb = mx \<and> \<not> jb_running jb"
  using jbuf_alloc_run [OF assms] .

theorem jbuf_alloc_ready_witness:
  "\<exists>jb :: nat jbuf. jbuf_alloc (Some (0, 1)) (\<lambda>i. Some (5 + i)) 1 3 heap_empty = (0, Some jb) \<and> jb_max jb = 3"
  using jbuf_alloc_ready [OF heap_empty_ok, of 0 1 1 3 "\<lambda>i. Some (5 + i)"] by (auto simp: word_le_nat_alt)

end
