(* ===== verification/Sa.thy ===== *)
theory Sa
  imports Pl
begin

text \<open>
  Socket addresses: \<^verbatim>\<open>src/sa/sa.c\<close>, \<^verbatim>\<open>include/re_sa.h\<close> and \<^verbatim>\<open>net_inet_pton\<close> of
  \<^verbatim>\<open>src/sa/pton.c\<close>, built with \<^verbatim>\<open>HAVE_INET6\<close> and \<^verbatim>\<open>HAVE_INET_PTON\<close>.

  The union of \<^verbatim>\<open>sockaddr_in\<close> and \<^verbatim>\<open>sockaddr_in6\<close> is a record of what lies at each offset: the family
  and the port are shared, \<^verbatim>\<open>sin_addr\<close> lies over \<^verbatim>\<open>sin6_flowinfo\<close>, \<^verbatim>\<open>sin_zero\<close> over the first eight
  bytes of \<^verbatim>\<open>sin6_addr\<close>. Ports and IPv4 addresses are kept in network order as in memory. The C library's
  \<^verbatim>\<open>inet_pton\<close> is a parameter.
\<close>

subsection \<open>Data\<close>

definition AF_UNSPEC :: u16 where "AF_UNSPEC = 0"
definition AF_INET :: u16 where "AF_INET = 2"
definition AF_INET6 :: u16 where "AF_INET6 = 10"

definition SA_ADDR :: u32 where "SA_ADDR = 1"
definition SA_PORT :: u32 where "SA_PORT = 2"
definition SA_ALL :: u32 where "SA_ALL = SA_ADDR OR SA_PORT"

record sa =
  sa_family :: u16
  sin_port :: u16
  sin_addr :: u32
  sin6_addr :: "u8 list"
  sin6_scope_id :: u32
  sa_len :: nat

text \<open>\<^verbatim>\<open>inet_pton\<close>: the binary address a text denotes, as it lies in memory.\<close>

record pton_env =
  pton4 :: "u8 list \<Rightarrow> u32 option"
  pton6 :: "u8 list \<Rightarrow> u8 list option"

subsection \<open>Setting\<close>

definition sa_init :: "u16 \<Rightarrow> sa" where
  "sa_init af = \<lparr>sa_family = af, sin_port = 0, sin_addr = 0, sin6_addr = replicate 16 0,
     sin6_scope_id = 0, sa_len = 28\<rparr>"

definition sa_set_in :: "u32 \<Rightarrow> u16 \<Rightarrow> sa \<Rightarrow> sa" where
  "sa_set_in addr port sa = sa\<lparr>sa_family := AF_INET, sin_addr := htonl addr,
     sin_port := htons port, sa_len := 16\<rparr>"

definition sa_set_in6 :: "u8 list \<Rightarrow> u16 \<Rightarrow> sa \<Rightarrow> sa" where
  "sa_set_in6 addr port sa = sa\<lparr>sa_family := AF_INET6, sin6_addr := take 16 addr,
     sin_port := htons port, sa_len := 28\<rparr>"

definition sa_set_sa :: "sa \<Rightarrow> sa \<Rightarrow> err \<times> sa" where
  "sa_set_sa sa s =
     (if sa_family s = AF_INET then
        (0, sa\<lparr>sa_family := sa_family s, sin_port := sin_port s, sin_addr := sin_addr s,
              sin6_addr := take 8 (sin6_addr s) @ drop 8 (sin6_addr sa), sa_len := 16\<rparr>)
      else if sa_family s = AF_INET6 then
        (0, sa\<lparr>sa_family := sa_family s, sin_port := sin_port s, sin_addr := sin_addr s,
              sin6_addr := sin6_addr s, sin6_scope_id := sin6_scope_id s, sa_len := 28\<rparr>)
      else (EAFNOSUPPORT, sa))"

definition sa_set_port :: "u16 \<Rightarrow> sa \<Rightarrow> sa" where
  "sa_set_port port sa =
     (if sa_family sa = AF_INET \<or> sa_family sa = AF_INET6 then sa\<lparr>sin_port := htons port\<rparr> else sa)"

definition in6_v4mapped :: "u8 list \<Rightarrow> bool" where
  "in6_v4mapped a \<longleftrightarrow> take 10 a = replicate 10 0 \<and> a ! 10 = 255 \<and> a ! 11 = 255"

definition net_inet_pton :: "pton_env \<Rightarrow> c_string \<Rightarrow> sa \<Rightarrow> err \<times> sa" where
  "net_inet_pton N addr sa = (case addr of
     None \<Rightarrow> (EINVAL, sa)
   | Some txt \<Rightarrow> (case pton4 N txt of
       Some a \<Rightarrow> (0, sa\<lparr>sin_addr := a, sa_family := AF_INET\<rparr>)
     | None \<Rightarrow> (case pton6 N txt of
         Some a \<Rightarrow>
           (let sa = sa\<lparr>sin6_addr := a\<rparr> in
            if in6_v4mapped a then (0, sa\<lparr>sa_family := AF_INET, sin_addr := of_le (take 4 (drop 12 a))\<rparr>)
            else (0, sa\<lparr>sa_family := AF_INET6\<rparr>))
       | None \<Rightarrow> (EINVAL, sa))))"

definition sa_set_str :: "pton_env \<Rightarrow> c_string \<Rightarrow> u16 \<Rightarrow> sa \<Rightarrow> err \<times> sa" where
  "sa_set_str N addr port sa = (case addr of
     None \<Rightarrow> (EINVAL, sa)
   | Some txt \<Rightarrow> (case net_inet_pton N (Some txt) sa of (err, sa) \<Rightarrow>
       if err \<noteq> 0 then (err, sa)
       else if sa_family sa = AF_INET then (0, sa\<lparr>sin_port := htons port, sa_len := 16\<rparr>)
       else if sa_family sa = AF_INET6 then (0, sa\<lparr>sin_port := htons port, sa_len := 28\<rparr>)
       else (EAFNOSUPPORT, sa)))"

text \<open>\<^verbatim>\<open>sa_set\<close> copies the text into 64 bytes of stack, whose first content is \<open>junk\<close>.\<close>

definition sa_set :: "pton_env \<Rightarrow> u8 list \<Rightarrow> pl \<Rightarrow> u16 \<Rightarrow> sa \<Rightarrow> err \<times> sa" where
  "sa_set N junk addr port sa =
     (let buf = overwrite 0 (snd (pl_strcpy addr 64)) junk
      in sa_set_str N (Some (c_str buf)) port sa)"

text \<open>The second half of \<^verbatim>\<open>sa_decode\<close>: \<open>c\<close> is where the colon before the port should be.\<close>

definition sa_decode_port ::
  "pton_env \<Rightarrow> u8 list \<Rightarrow> u8 list \<Rightarrow> u8 list \<Rightarrow> nat \<Rightarrow> sa \<Rightarrow> err \<times> sa" where
  "sa_decode_port N junk s addr c sa =
     (if length s < c + 2 then (EINVAL, sa)
      else if s ! c \<noteq> 58 then (EINVAL, sa)
      else sa_set N junk (Some addr) (ucast (pl_u32 (Some (drop (c + 1) s)))) sa)"

definition sa_decode :: "pton_env \<Rightarrow> u8 list \<Rightarrow> c_string \<Rightarrow> sa \<Rightarrow> err \<times> sa" where
  "sa_decode N junk str sa = (case str of
     None \<Rightarrow> (EINVAL, sa)
   | Some s \<Rightarrow> if s = [] then (EINVAL, sa) else
       (case (if s ! 0 = 91 then pl_strchr (Some s) 93 else None) of
          Some i \<Rightarrow> sa_decode_port N junk s (take (i - 1) (drop 1 s)) (i + 1) sa
        | None \<Rightarrow> (case pl_strchr (Some s) 58 of
            Some i \<Rightarrow> sa_decode_port N junk s (take i s) i sa
          | None \<Rightarrow> (EINVAL, sa))))"


subsection \<open>Getting and comparing\<close>

definition sa_af :: "sa \<Rightarrow> u16" where
  "sa_af sa = sa_family sa"

definition sa_in :: "sa \<Rightarrow> u32" where
  "sa_in sa = htonl (sin_addr sa)"

definition sa_in6 :: "sa \<Rightarrow> u8 list" where
  "sa_in6 sa = sin6_addr sa"

definition sa_port :: "sa \<Rightarrow> u16" where
  "sa_port sa =
     (if sa_family sa = AF_INET \<or> sa_family sa = AF_INET6 then htons (sin_port sa) else 0)"

definition in6_unspecified :: "u8 list \<Rightarrow> bool" where
  "in6_unspecified a \<longleftrightarrow> a = replicate 16 0"

definition sa_isset :: "sa \<Rightarrow> u32 \<Rightarrow> bool" where
  "sa_isset sa flag =
     (if sa_family sa = AF_INET then
        \<not> (flag AND SA_ADDR \<noteq> 0 \<and> sin_addr sa = 0) \<and> \<not> (flag AND SA_PORT \<noteq> 0 \<and> sin_port sa = 0)
      else if sa_family sa = AF_INET6 then
        \<not> (flag AND SA_ADDR \<noteq> 0 \<and> in6_unspecified (sin6_addr sa)) \<and>
        \<not> (flag AND SA_PORT \<noteq> 0 \<and> sin_port sa = 0)
      else False)"

text \<open>The IPv6 address is read as four 32-bit integers, in host order.\<close>

definition sa_hash :: "sa \<Rightarrow> u32 \<Rightarrow> u32" where
  "sa_hash sa flag =
     (if sa_family sa = AF_INET then
        (let v = (if flag AND SA_ADDR \<noteq> 0 then htonl (sin_addr sa) else 0)
         in if flag AND SA_PORT \<noteq> 0 then v + ucast (htons (sin_port sa)) else v)
      else if sa_family sa = AF_INET6 then
        (let a = sin6_addr sa;
             v = (if flag AND SA_ADDR \<noteq> 0
                  then of_le (take 4 a) XOR of_le (take 4 (drop 4 a)) XOR
                       of_le (take 4 (drop 8 a)) XOR of_le (take 4 (drop 12 a))
                  else 0)
         in if flag AND SA_PORT \<noteq> 0 then v + ucast (htons (sin_port sa)) else v)
      else 0)"

definition sa_cpy :: "sa \<Rightarrow> sa \<Rightarrow> sa" where
  "sa_cpy dst src = src"

text \<open>\<open>same\<close> tells that both arguments point to the same object.\<close>

definition sa_cmp :: "bool \<Rightarrow> sa \<Rightarrow> sa \<Rightarrow> u32 \<Rightarrow> bool" where
  "sa_cmp same l r flag =
     (if same then True
      else if sa_family l \<noteq> sa_family r then False
      else if sa_family l = AF_INET then
        \<not> (flag AND SA_ADDR \<noteq> 0 \<and> sin_addr l \<noteq> sin_addr r) \<and>
        \<not> (flag AND SA_PORT \<noteq> 0 \<and> sin_port l \<noteq> sin_port r)
      else if sa_family l = AF_INET6 then
        \<not> (flag AND SA_ADDR \<noteq> 0 \<and> sin6_addr l \<noteq> sin6_addr r) \<and>
        \<not> (flag AND SA_PORT \<noteq> 0 \<and> sin_port l \<noteq> sin_port r)
      else False)"

definition sa_is_linklocal :: "sa \<Rightarrow> bool" where
  "sa_is_linklocal sa =
     (if sa_af sa = AF_INET then sin_addr sa AND htonl 0xffff0000 = htonl 0xa9fe0000
      else if sa_af sa = AF_INET6 then sin6_addr sa ! 0 = 0xfe \<and> sin6_addr sa ! 1 AND 0xc0 = 0x80
      else False)"

definition sa_is_loopback :: "sa \<Rightarrow> bool" where
  "sa_is_loopback sa =
     (if sa_af sa = AF_INET then htonl (sin_addr sa) = 0x7f000001
      else if sa_af sa = AF_INET6 then sin6_addr sa = replicate 15 0 @ [1]
      else False)"

definition sa_is_any :: "sa \<Rightarrow> bool" where
  "sa_is_any sa =
     (if sa_af sa = AF_INET then htonl (sin_addr sa) = 0
      else if sa_af sa = AF_INET6 then in6_unspecified (sin6_addr sa)
      else False)"

subsection \<open>Facts\<close>

named_theorems sa_simps \<open>socket address accessors over constructors\<close>

lemma af_distinct [simp]:
  "AF_INET \<noteq> AF_INET6" "AF_INET6 \<noteq> AF_INET" "AF_INET \<noteq> 0" "AF_INET6 \<noteq> 0"
  "AF_UNSPEC \<noteq> AF_INET" "AF_UNSPEC \<noteq> AF_INET6"
  by (simp_all add: AF_INET_def AF_INET6_def AF_UNSPEC_def)

lemma sa_set_in_get [sa_simps]:
  "sa_af (sa_set_in a p sa) = AF_INET" "sa_in (sa_set_in a p sa) = a" "sa_port (sa_set_in a p sa) = p"
  by (simp_all add: sa_set_in_def sa_af_def sa_in_def sa_port_def byte_simps)

lemma sa_set_in6_get [sa_simps]:
  "sa_af (sa_set_in6 b p sa) = AF_INET6" "sa_in6 (sa_set_in6 b p sa) = take 16 b"
  "sa_port (sa_set_in6 b p sa) = p"
  by (simp_all add: sa_set_in6_def sa_af_def sa_in6_def sa_port_def byte_simps)

lemma c_str_append: "0 \<notin> set s \<Longrightarrow> c_str (s @ 0 # r) = s"
  by (induction s) (auto simp: c_str_def)

lemma sa_set_text:
  assumes "0 \<notin> set a" "length a < 64" "length junk = 64"
  shows "sa_set N junk (Some a) port sa = sa_set_str N (Some a) port sa"
proof -
  have "overwrite 0 (snd (pl_strcpy (Some a) 64)) junk = a @ 0 # drop (Suc (length a)) junk"
    using assms by (simp add: pl_strcpy_def overwrite_def min_def)
  then show ?thesis using assms(1) by (simp add: sa_set_def c_str_append)
qed

lemma strchr_found: "c \<notin> set a \<Longrightarrow> pl_strchr (Some (a @ c # r)) c = Some (length a)"
proof -
  assume "c \<notin> set a"
  then have "takeWhile (\<lambda>x. x \<noteq> c) (a @ c # r) = a" by (induction a) auto
  then show ?thesis by (simp add: pl_strchr_def strchr_loop_spec)
qed

lemma u16_of_u32: "(ucast (of_nat n :: u32) :: u16) = of_nat n"
  by (rule bit_word_eqI) (simp add: bit_simps)

subsection \<open>Properties\<close>

text \<open>Comparing addresses under given flags is an equivalence on the IPv4 and IPv6 addresses, and
  addresses that compare equal have the same hash value under these flags, so hash tables keyed by
  \<^verbatim>\<open>sa_hash\<close> and searched by \<^verbatim>\<open>sa_cmp\<close> find them.\<close>

theorem sa_cmp_hash:
  "(sa_af l = AF_INET \<or> sa_af l = AF_INET6 \<longrightarrow> sa_cmp False l l f) \<and>
   (sa_cmp False l r f = sa_cmp False r l f) \<and>
   (sa_cmp False l r f \<and> sa_cmp False r t f \<longrightarrow> sa_cmp False l t f) \<and>
   (sa_cmp False l r f \<longrightarrow> sa_hash l f = sa_hash r f)"
proof (intro conjI)
  show "sa_cmp False l r f = sa_cmp False r l f" by (auto simp: sa_cmp_def)
  show "sa_cmp False l r f \<and> sa_cmp False r t f \<longrightarrow> sa_cmp False l t f"
    by (auto simp: sa_cmp_def)
  show "sa_cmp False l r f \<longrightarrow> sa_hash l f = sa_hash r f"
    by (auto simp: sa_cmp_def sa_hash_def Let_def split: if_splits)
qed (auto simp: sa_cmp_def sa_af_def)

definition sa_v4 :: "u32 \<Rightarrow> u16 \<Rightarrow> sa" where
  "sa_v4 a p = sa_set_in a p (sa_init AF_INET)"

theorem sa_cmp_hash_witness:
  "sa_hash (sa_v4 1 2) SA_ADDR = sa_hash (sa_v4 1 3) SA_ADDR"
  using sa_cmp_hash [of "sa_v4 1 2" SA_ADDR "sa_v4 1 3" "sa_v4 1 2"]
  by (simp add: sa_cmp_def sa_v4_def sa_set_in_def SA_ADDR_def SA_PORT_def)

text \<open>\<^verbatim>\<open>sa_decode\<close> parses \<open>address:port\<close>, and \<open>[address]:port\<close> for IPv6: when \<^verbatim>\<open>inet_pton\<close> accepts the
  address text (shorter than 64 bytes) and the port is a decimal number, the result has that address
  and that port modulo 65536.\<close>

theorem sa_decode_parses:
  assumes "0 \<notin> set a" "length a < 63" "length junk = 64" "p \<noteq> []" "is_dec p"
  shows "(pton4 N a = Some v \<and> a \<noteq> [] \<and> hd a \<noteq> 91 \<and> 58 \<notin> set a \<longrightarrow>
      (\<exists>sa'. sa_decode N junk (Some (a @ 58 # p)) sa = (0, sa') \<and> sa_af sa' = AF_INET \<and>
        sa_in sa' = htonl v \<and> sa_port sa' = of_nat (dec_value p))) \<and>
    (pton4 N a = None \<and> pton6 N a = Some w \<and> \<not> in6_v4mapped w \<and> 93 \<notin> set a \<longrightarrow>
      (\<exists>sa'. sa_decode N junk (Some (91 # a @ 93 # 58 # p)) sa = (0, sa') \<and> sa_af sa' = AF_INET6 \<and>
        sa_in6 sa' = w \<and> sa_port sa' = of_nat (dec_value p)))"
proof -
  have port: "(ucast (pl_u32 (Some p)) :: u16) = of_nat (dec_value p)"
    using assms(5) by (simp add: pl_u32_def dec_loop_value u16_of_u32)
  have p: "0 < length p" using assms(4) by simp
  have "sa_decode N junk (Some (a @ 58 # p)) sa = sa_set_str N (Some a) (of_nat (dec_value p)) sa"
    if "a \<noteq> []" "hd a \<noteq> 91" "58 \<notin> set a"
  proof -
    have "(a @ 58 # p) ! 0 \<noteq> 91" using that by (simp add: nth_append hd_conv_nth)
    moreover have "pl_strchr (Some (a @ 58 # p)) 58 = Some (length a)"
      using that(3) by (rule strchr_found)
    ultimately show ?thesis
      using assms(1-3) p port by (simp add: sa_decode_def sa_decode_port_def sa_set_text)
  qed
  moreover have "sa_decode N junk (Some (91 # a @ 93 # 58 # p)) sa =
      sa_set_str N (Some a) (of_nat (dec_value p)) sa" if "93 \<notin> set a"
  proof -
    have "pl_strchr (Some (91 # a @ 93 # 58 # p)) 93 = Some (Suc (length a))"
      using strchr_found [of 93 "91 # a" "58 # p"] that by simp
    then show ?thesis
      using assms(1-3) p port by (simp add: sa_decode_def sa_decode_port_def nth_append sa_set_text)
  qed
  ultimately show ?thesis
    by (auto simp: sa_set_str_def net_inet_pton_def Let_def sa_port_def sa_af_def sa_in_def sa_in6_def byte_simps)
qed

text \<open>The text \<open>1:80\<close> with an \<^verbatim>\<open>inet_pton\<close> that knows the address \<open>1\<close>.\<close>

theorem sa_decode_parses_witness:
  "\<exists>sa'. sa_decode \<lparr>pton4 = (\<lambda>t. if t = [49] then Some 7 else None), pton6 = (\<lambda>_. None)\<rparr>
      (replicate 64 0) (Some [49, 58, 56, 48]) (sa_init 0) = (0, sa') \<and>
    sa_port sa' = 80 \<and> sa_in sa' = htonl 7"
  using sa_decode_parses [of "[49]" "replicate 64 0" "[56, 48]"
      "\<lparr>pton4 = (\<lambda>t. if t = [49] then Some 7 else None), pton6 = (\<lambda>_. None)\<rparr>" 7 "sa_init 0" "[]"]
  by (auto simp: is_dec_def dec_value_def)

end
