(* ===== verification/Stun.thy ===== *)
theory Stun
  imports Pad Sa "HOL-Library.Monad_Syntax"
begin

text \<open>
  STUN encoding: the header (\<^verbatim>\<open>src/stun/hdr.c\<close>), addresses (\<^verbatim>\<open>src/stun/addr.c\<close>) and attributes
  (\<^verbatim>\<open>src/stun/attr.c\<close>), with the macros of \<^verbatim>\<open>src/stun/stun.h\<close>. Transaction ids are lists of 12 bytes.
\<close>

subsection \<open>Header\<close>

definition STUN_HEADER_SIZE :: nat where "STUN_HEADER_SIZE = 20"
definition STUN_TID_SIZE :: nat where "STUN_TID_SIZE = 12"
definition STUN_MAGIC_COOKIE :: u32 where "STUN_MAGIC_COOKIE = 0x2112a442"

definition STUN_TYPE :: "u16 \<Rightarrow> u8 \<Rightarrow> u16" where
  "STUN_TYPE met cls = push_bit 2 (met AND 0x0f80) OR push_bit 1 (met AND 0x0070) OR
     (met AND 0x000f) OR push_bit 7 (ucast (cls AND 2)) OR push_bit 4 (ucast (cls AND 1))"

definition STUN_CLASS :: "u16 \<Rightarrow> u16" where
  "STUN_CLASS type = (drop_bit 7 type OR drop_bit 4 type) AND 3"

definition STUN_METHOD :: "u16 \<Rightarrow> u16" where
  "STUN_METHOD type = drop_bit 2 (type AND 0x3e00) OR drop_bit 1 (type AND 0x00e0) OR (type AND 0x000f)"

record stun_hdr =
  sh_type :: u16
  sh_len :: u16
  sh_cookie :: u32
  sh_tid :: "u8 list"

definition stun_hdr_encode :: "mem_env \<Rightarrow> stun_hdr \<Rightarrow> (mbuf, err) state" where
  "stun_hdr_encode E hdr = do {
     e1 \<leftarrow> mbuf_write_u16 E (htons (sh_type hdr AND 0x3fff));
     e2 \<leftarrow> mbuf_write_u16 E (htons (sh_len hdr));
     e3 \<leftarrow> mbuf_write_u32 E (htonl (sh_cookie hdr));
     e4 \<leftarrow> mbuf_write_mem E (Some (take STUN_TID_SIZE (sh_tid hdr)));
     State_Monad.return (e1 OR e2 OR e3 OR e4)
   }"

text \<open>The decoder fills the caller's header as far as it gets.\<close>

definition stun_hdr_decode :: "stun_hdr \<Rightarrow> (mbuf, err \<times> stun_hdr) state" where
  "stun_hdr_decode hdr = do {
     mb \<leftarrow> State_Monad.get;
     (if mbuf_get_left mb < STUN_HEADER_SIZE then State_Monad.return (EBADMSG, hdr)
      else do {
        t \<leftarrow> mbuf_read_u16;
        let hdr = hdr\<lparr>sh_type := htons t\<rparr>;
        (if sh_type hdr AND 0xc000 \<noteq> 0 then State_Monad.return (EBADMSG, hdr)
         else do {
           l \<leftarrow> mbuf_read_u16;
           let hdr = hdr\<lparr>sh_len := htons l\<rparr>;
           (if sh_len hdr AND 3 \<noteq> 0 then State_Monad.return (EBADMSG, hdr)
            else do {
              c \<leftarrow> mbuf_read_u32;
              (err, tid) \<leftarrow> mbuf_read_mem STUN_TID_SIZE;
              let hdr = hdr\<lparr>sh_cookie := htonl c, sh_tid := (if err = 0 then tid else sh_tid hdr)\<rparr>;
              mb \<leftarrow> State_Monad.get;
              (if mbuf_get_left mb < unat (sh_len hdr) then State_Monad.return (EBADMSG, hdr)
               else State_Monad.return (0, hdr)) }) }) })
   }"

subsection \<open>Addresses\<close>

definition STUN_AF_IPv4 :: u8 where "STUN_AF_IPv4 = 1"
definition STUN_AF_IPv6 :: u8 where "STUN_AF_IPv6 = 2"

definition in6_xor_tid :: "u8 list \<Rightarrow> u8 list \<Rightarrow> u8 list" where
  "in6_xor_tid in6 tid = map2 (XOR) in6 ([0x21, 0x12, 0xa4, 0x42] @ take STUN_TID_SIZE tid)"

definition stun_addr_encode :: "mem_env \<Rightarrow> sa \<Rightarrow> u8 list option \<Rightarrow> (mbuf, err) state" where
  "stun_addr_encode E addr tid = (let
     port = (if tid \<noteq> None then sa_port addr XOR ucast (drop_bit 16 STUN_MAGIC_COOKIE) else sa_port addr)
   in if sa_af addr = AF_INET then do {
        let addr4 = (if tid \<noteq> None then sa_in addr XOR STUN_MAGIC_COOKIE else sa_in addr);
        e1 \<leftarrow> mbuf_write_u8 E 0;
        e2 \<leftarrow> mbuf_write_u8 E STUN_AF_IPv4;
        e3 \<leftarrow> mbuf_write_u16 E (htons port);
        e4 \<leftarrow> mbuf_write_u32 E (htonl addr4);
        State_Monad.return (e1 OR e2 OR e3 OR e4) }
      else if sa_af addr = AF_INET6 then do {
        let addr6 = (case tid of Some t \<Rightarrow> in6_xor_tid (sa_in6 addr) t | None \<Rightarrow> sa_in6 addr);
        e1 \<leftarrow> mbuf_write_u8 E 0;
        e2 \<leftarrow> mbuf_write_u8 E STUN_AF_IPv6;
        e3 \<leftarrow> mbuf_write_u16 E (htons port);
        e4 \<leftarrow> mbuf_write_mem E (Some addr6);
        State_Monad.return (e1 OR e2 OR e3 OR e4) }
      else State_Monad.return EAFNOSUPPORT)"

definition stun_addr_decode :: "sa \<Rightarrow> u8 list option \<Rightarrow> (mbuf, err \<times> sa) state" where
  "stun_addr_decode addr tid = do {
     mb \<leftarrow> State_Monad.get;
     (if mbuf_get_left mb < 4 then State_Monad.return (EBADMSG, addr)
      else do {
        _ \<leftarrow> mbuf_read_u8;
        family \<leftarrow> mbuf_read_u8;
        p \<leftarrow> mbuf_read_u16;
        let port = (if tid \<noteq> None then htons p XOR ucast (drop_bit 16 STUN_MAGIC_COOKIE) else htons p);
        mb \<leftarrow> State_Monad.get;
        (if family = STUN_AF_IPv4 then
           (if mbuf_get_left mb < 4 then State_Monad.return (EBADMSG, addr)
            else do {
              a \<leftarrow> mbuf_read_u32;
              let addr4 = (if tid \<noteq> None then htonl a XOR STUN_MAGIC_COOKIE else htonl a);
              State_Monad.return (0, sa_set_in addr4 port addr) })
         else if family = STUN_AF_IPv6 then
           (if mbuf_get_left mb < 16 then State_Monad.return (EBADMSG, addr)
            else do {
              (_, a) \<leftarrow> mbuf_read_mem 16;
              let addr6 = (case tid of Some t \<Rightarrow> in6_xor_tid a t | None \<Rightarrow> a);
              State_Monad.return (0, sa_set_in6 addr6 port addr) })
         else State_Monad.return (EAFNOSUPPORT, addr)) })
   }"

subsection \<open>Attributes: data\<close>

text \<open>
  The attribute value: the \<^verbatim>\<open>void *\<close> given to the encoder (a constructor for each type it may point
  to) and the union the decoder fills. \<open>SelfV\<close> is the data attribute whose buffer is the message buffer
  itself; the decoder's buffer is a view into the message.
\<close>

datatype stun_val =
    SaV sa
  | ChangeReqV bool bool
  | StrV "u8 list"
  | MiV "u8 list"
  | ErrCodeV u16 "u8 list option"
  | UnknownV "u16 list" u32
  | U8V u8
  | U16V u16
  | U32V u32
  | U64V u64
  | MbufV mbuf
  | SelfV
  | EvenPortV bool
  | EmptyV

record stun_attr =
  at_type :: u16
  at_v :: stun_val

record stun_unknown_attr =
  ua_typev :: "u16 list" \<comment> \<open>8 entries\<close>
  ua_typec :: u32

abbreviation STUN_ATTR_MSG_INTEGRITY :: u16 where "STUN_ATTR_MSG_INTEGRITY \<equiv> 0x0008"
abbreviation STUN_ATTR_ERR_CODE :: u16 where "STUN_ATTR_ERR_CODE \<equiv> 0x0009"
abbreviation STUN_ATTR_FINGERPRINT :: u16 where "STUN_ATTR_FINGERPRINT \<equiv> 0x8028"

text \<open>The groups of labels in the \<^verbatim>\<open>switch\<close> statements of the encoder and the decoder.\<close>

datatype attr_kind = KAddr | KXorAddr | KChangeReq | KStr | KMi | KErrCode | KUnknown | KU16 | KU32
  | KMbuf | KU8 | KEvenPort | KEmpty | KU64 | KOther

definition attr_kind :: "u16 \<Rightarrow> attr_kind" where
  "attr_kind t =
     (if t \<in> {0x0001, 0x8023, 0x802b, 0x802c} then KAddr
      else if t \<in> {0x0012, 0x0016, 0x0020} then KXorAddr
      else if t = 0x0003 then KChangeReq
      else if t \<in> {0x0006, 0x0014, 0x0015, 0x8022} then KStr
      else if t = 0x0008 then KMi
      else if t = 0x0009 then KErrCode
      else if t = 0x000a then KUnknown
      else if t \<in> {0x000c, 0x0027} then KU16
      else if t \<in> {0x000d, 0x0024, 0x8028} then KU32
      else if t \<in> {0x0013, 0x0026} then KMbuf
      else if t \<in> {0x0017, 0x0019} then KU8
      else if t = 0x0018 then KEvenPort
      else if t \<in> {0x001a, 0x0025} then KEmpty
      else if t \<in> {0x0022, 0x8029, 0x802a} then KU64
      else KOther)"

subsection \<open>Attributes: encoding\<close>

definition mb_misuse :: "(mbuf, err) state" where
  "mb_misuse = do { State_Monad.update (\<lambda>mb. mb\<lparr>mb_fault := True\<rparr>); State_Monad.return 0 }"

fun unknown_encode :: "mem_env \<Rightarrow> u16 list \<Rightarrow> nat \<Rightarrow> nat \<Rightarrow> (mbuf, err) state" where
  "unknown_encode E tv i 0 = State_Monad.return 0"
| "unknown_encode E tv i (Suc n) = do {
     e \<leftarrow> (if i < length tv then mbuf_write_u16 E (htons (tv ! i)) else mb_misuse);
     e' \<leftarrow> unknown_encode E tv (Suc i) n;
     State_Monad.return (e OR e') }"

text \<open>A read of \<open>n\<close> bytes at the position of another buffer; a fault there is one here.\<close>

definition mbuf_take_other :: "mbuf \<Rightarrow> nat \<Rightarrow> (mbuf, u8 list) state" where
  "mbuf_take_other d n = (case run_state (mem_peek (mb_pos d) n) d of (xs, d') \<Rightarrow> do {
     State_Monad.update (\<lambda>mb. mb\<lparr>mb_fault := (mb_fault mb \<or> (mb_fault d' \<and> \<not> mb_fault d))\<rparr>);
     State_Monad.return xs })"

text \<open>The \<^verbatim>\<open>switch\<close> of the encoder. A value of another type than the attribute needs is misuse.\<close>

definition stun_attr_value :: "mem_env \<Rightarrow> u16 \<Rightarrow> stun_val \<Rightarrow> u8 list option \<Rightarrow> (mbuf, err) state" where
  "stun_attr_value E type v tid = (case attr_kind type of
     KAddr \<Rightarrow> (case v of SaV a \<Rightarrow> stun_addr_encode E a None | _ \<Rightarrow> mb_misuse)
   | KXorAddr \<Rightarrow> (case v of SaV a \<Rightarrow> stun_addr_encode E a tid | _ \<Rightarrow> mb_misuse)
   | KChangeReq \<Rightarrow> (case v of
       ChangeReqV ip port \<Rightarrow>
         mbuf_write_u32 E (htonl (push_bit 2 (of_bool ip) OR push_bit 1 (of_bool port)))
     | _ \<Rightarrow> mb_misuse)
   | KStr \<Rightarrow> (case v of StrV s \<Rightarrow> mbuf_write_str E (Some s) | _ \<Rightarrow> mb_misuse)
   | KMi \<Rightarrow> (case v of MiV mi \<Rightarrow> mbuf_write_mem E (Some (take 20 mi)) | _ \<Rightarrow> mb_misuse)
   | KErrCode \<Rightarrow> (case v of
       ErrCodeV code reason \<Rightarrow> do {
         e1 \<leftarrow> mbuf_write_u16 E 0;
         e2 \<leftarrow> mbuf_write_u8 E (ucast (code div 100));
         e3 \<leftarrow> mbuf_write_u8 E (ucast (code mod 100));
         e4 \<leftarrow> mbuf_write_str E reason;
         State_Monad.return (e1 OR e2 OR e3 OR e4) }
     | _ \<Rightarrow> mb_misuse)
   | KUnknown \<Rightarrow> (case v of UnknownV tv tc \<Rightarrow> unknown_encode E tv 0 (unat tc) | _ \<Rightarrow> mb_misuse)
   | KU16 \<Rightarrow> (case v of
       U32V num \<Rightarrow> do {
         e1 \<leftarrow> mbuf_write_u16 E (htons (ucast num));
         e2 \<leftarrow> mbuf_write_u16 E 0;
         State_Monad.return (e1 OR e2) }
     | _ \<Rightarrow> mb_misuse)
   | KU32 \<Rightarrow> (case v of U32V num \<Rightarrow> mbuf_write_u32 E (htonl num) | _ \<Rightarrow> mb_misuse)
   | KMbuf \<Rightarrow> (case v of
       SelfV \<Rightarrow> do {
         State_Monad.update (\<lambda>mb. mb\<lparr>mb_pos := mb_end mb\<rparr>);
         State_Monad.return 0 }
     | MbufV d \<Rightarrow> (case mb_buf d of
         None \<Rightarrow> mbuf_write_mem E None
       | Some _ \<Rightarrow> do {
           xs \<leftarrow> mbuf_take_other d (mbuf_get_left d);
           mbuf_write_mem E (Some xs) })
     | _ \<Rightarrow> mb_misuse)
   | KU8 \<Rightarrow> (case v of
       U32V num \<Rightarrow> do {
         e1 \<leftarrow> mbuf_write_u8 E (ucast num);
         e2 \<leftarrow> mbuf_write_u8 E 0;
         e3 \<leftarrow> mbuf_write_u16 E 0;
         State_Monad.return (e1 OR e2 OR e3) }
     | _ \<Rightarrow> mb_misuse)
   | KEvenPort \<Rightarrow> (case v of EvenPortV r \<Rightarrow> mbuf_write_u8 E (push_bit 7 (of_bool r)) | _ \<Rightarrow> mb_misuse)
   | KEmpty \<Rightarrow> State_Monad.return 0
   | KU64 \<Rightarrow> (case v of U64V n \<Rightarrow> mbuf_write_u64 E (htonll n) | _ \<Rightarrow> mb_misuse)
   | KOther \<Rightarrow> State_Monad.return EINVAL)"

text \<open>The value and the attribute header, without the padding.\<close>

definition stun_attr_body :: "mem_env \<Rightarrow> u16 \<Rightarrow> stun_val \<Rightarrow> u8 list option \<Rightarrow> (mbuf, err) state" where
  "stun_attr_body E type v tid = do {
     _ \<leftarrow> mbuf_advance 4;
     mb \<leftarrow> State_Monad.get;
     let start = mb_pos mb;
     e1 \<leftarrow> stun_attr_value E type v tid;
     mb \<leftarrow> State_Monad.get;
     let len = sz_sub (mb_pos mb) start;
     _ \<leftarrow> mbuf_set_pos (sz_sub start 4);
     e2 \<leftarrow> mbuf_write_u16 E (htons type);
     e3 \<leftarrow> mbuf_write_u16 E (htons (of_nat len));
     _ \<leftarrow> mbuf_advance len;
     State_Monad.return (e1 OR e2 OR e3)
   }"

definition stun_attr_encode ::
  "mem_env \<Rightarrow> u16 \<Rightarrow> stun_val option \<Rightarrow> u8 list option \<Rightarrow> u8 \<Rightarrow> mbuf \<Rightarrow> (err \<times> mbuf) option" where
  "stun_attr_encode E type v tid padding mb = (case v of
     None \<Rightarrow> Some (EINVAL, mb)
   | Some v \<Rightarrow> (case run_state (stun_attr_body E type v tid) mb of
       (err, mb') \<Rightarrow> pad_loop E (sz_add (mb_pos mb) 4) padding err mb'))"

subsection \<open>Attributes: decoding\<close>

text \<open>The memory the attribute object takes, on the 32-bit ABI.\<close>

definition sizeof_stun_attr :: nat where "sizeof_stun_attr = 56"

definition sa_zero :: sa where
  "sa_zero = (sa_init AF_UNSPEC)\<lparr>sa_len := 0\<rparr>"

definition str_decode :: "mem_env \<Rightarrow> nat \<Rightarrow> (mbuf, err \<times> u8 list) state" where
  "str_decode E len = do {
     mb \<leftarrow> State_Monad.get;
     (if mbuf_get_left mb < len then State_Monad.return (EBADMSG, []) else mbuf_strdup E len) }"

text \<open>The loop over unknown attribute types: \<open>n\<close> rounds from \<open>i\<close>; the array has 8 entries.\<close>

fun unknown_decode :: "nat \<Rightarrow> nat \<Rightarrow> u16 list \<Rightarrow> u32 \<Rightarrow> (mbuf, u16 list \<times> u32) state" where
  "unknown_decode i 0 tv tc = State_Monad.return (tv, tc)"
| "unknown_decode i (Suc n) tv tc = do {
     t \<leftarrow> mbuf_read_u16;
     (if i \<ge> 8 then unknown_decode (Suc i) n tv tc
      else unknown_decode (Suc i) n (tv[i := htons t]) (tc + 1)) }"

text \<open>The result of the \<^verbatim>\<open>switch\<close>: an error code, or the value.\<close>

definition val_result :: "(err \<times> 'a) \<Rightarrow> ('a \<Rightarrow> stun_val) \<Rightarrow> err + stun_val" where
  "val_result r f = (if fst r = 0 then Inr (f (snd r)) else Inl (fst r))"

definition stun_val_decode ::
  "mem_env \<Rightarrow> u16 \<Rightarrow> nat \<Rightarrow> u8 list option \<Rightarrow> (mbuf, err + stun_val) state" where
  "stun_val_decode E type len tid = (case attr_kind type of
     KAddr \<Rightarrow> do {
       r \<leftarrow> stun_addr_decode sa_zero None;
       State_Monad.return (val_result r SaV) }
   | KXorAddr \<Rightarrow> do {
       r \<leftarrow> stun_addr_decode sa_zero tid;
       State_Monad.return (val_result r SaV) }
   | KChangeReq \<Rightarrow>
       (if len \<noteq> 4 then State_Monad.return (Inl EBADMSG)
        else do {
          w \<leftarrow> mbuf_read_u32;
          let n = htonl w;
          State_Monad.return (Inr (ChangeReqV (drop_bit 2 n AND 1 \<noteq> 0) (drop_bit 1 n AND 1 \<noteq> 0))) })
   | KStr \<Rightarrow> do {
       r \<leftarrow> str_decode E len;
       State_Monad.return (val_result r StrV) }
   | KMi \<Rightarrow>
       (if len \<noteq> 20 then State_Monad.return (Inl EBADMSG)
        else do {
          r \<leftarrow> mbuf_read_mem 20;
          State_Monad.return (val_result r MiV) })
   | KErrCode \<Rightarrow>
       (if len < 4 then State_Monad.return (Inl EBADMSG)
        else do {
          _ \<leftarrow> mbuf_advance 2;
          h \<leftarrow> mbuf_read_u8;
          l \<leftarrow> mbuf_read_u8;
          r \<leftarrow> str_decode E (len - 4);
          State_Monad.return (val_result r (\<lambda>s. ErrCodeV (ucast (h AND 7) * 100 + ucast l) (Some s))) })
   | KUnknown \<Rightarrow> do {
       (tv, tc) \<leftarrow> unknown_decode 0 (len div 2) (replicate 8 0) 0;
       State_Monad.return (Inr (UnknownV tv tc)) }
   | KU16 \<Rightarrow>
       (if len < 2 then State_Monad.return (Inl EBADMSG)
        else do {
          w \<leftarrow> mbuf_read_u16;
          State_Monad.return (Inr (U16V (htons w))) })
   | KU32 \<Rightarrow>
       (if len \<noteq> 4 then State_Monad.return (Inl EBADMSG)
        else do {
          w \<leftarrow> mbuf_read_u32;
          State_Monad.return (Inr (U32V (htonl w))) })
   | KMbuf \<Rightarrow> do {
       mb \<leftarrow> State_Monad.get;
       let d = \<lparr>mb_buf = mb_buf mb, mb_size = mb_size mb, mb_pos = mb_pos mb,
                mb_end = sz_add (mb_pos mb) len, mb_fault = False\<rparr>;
       _ \<leftarrow> mbuf_advance len;
       State_Monad.return (Inr (MbufV d)) }
   | KU8 \<Rightarrow>
       (if len < 1 then State_Monad.return (Inl EBADMSG)
        else do {
          w \<leftarrow> mbuf_read_u8;
          State_Monad.return (Inr (U8V w)) })
   | KEvenPort \<Rightarrow>
       (if len < 1 then State_Monad.return (Inl EBADMSG)
        else do {
          w \<leftarrow> mbuf_read_u8;
          State_Monad.return (Inr (EvenPortV (drop_bit 7 w AND 1 \<noteq> 0))) })
   | KEmpty \<Rightarrow>
       (if len > 0 then State_Monad.return (Inl EBADMSG) else State_Monad.return (Inr EmptyV))
   | KU64 \<Rightarrow>
       (if len \<noteq> 8 then State_Monad.return (Inl EBADMSG)
        else do {
          w \<leftarrow> mbuf_read_u64;
          State_Monad.return (Inr (U64V (htonll w))) })
   | KOther \<Rightarrow> do {
       _ \<leftarrow> mbuf_advance len;
       State_Monad.return (Inr EmptyV) })"

definition ua_note :: "u16 \<Rightarrow> stun_unknown_attr \<Rightarrow> stun_unknown_attr" where
  "ua_note type ua =
     (if attr_kind type = KOther \<and> type < 0x8000 \<and> ua_typec ua < 8
      then ua\<lparr>ua_typev := (ua_typev ua)[unat (ua_typec ua) := type], ua_typec := ua_typec ua + 1\<rparr>
      else ua)"

text \<open>The attribute read, or the error; the list of unknown attributes is updated on the way.\<close>

definition stun_attr_decode ::
  "mem_env \<Rightarrow> u8 list option \<Rightarrow> stun_unknown_attr option
    \<Rightarrow> (mbuf, (err + stun_attr) \<times> stun_unknown_attr option) state"
where
  "stun_attr_decode E tid ua = do {
     mb \<leftarrow> State_Monad.get;
     (if mbuf_get_left mb < 4 then State_Monad.return (Inl EBADMSG, ua)
      else if \<not> can_alloc E sizeof_stun_attr then State_Monad.return (Inl ENOMEM, ua)
      else do {
        t \<leftarrow> mbuf_read_u16;
        l \<leftarrow> mbuf_read_u16;
        mb \<leftarrow> State_Monad.get;
        let type = htons t;
        let len = unat (htons l);
        let start = mb_pos mb;
        (if mbuf_get_left mb < len then State_Monad.return (Inl EBADMSG, ua)
         else do {
           r \<leftarrow> stun_val_decode E type len tid;
           (case r of
              Inl err \<Rightarrow> State_Monad.return (Inl err, ua)
            | Inr v \<Rightarrow> do {
                State_Monad.update (pad_skip start);
                State_Monad.return (Inr \<lparr>at_type = type, at_v = v\<rparr>, map_option (ua_note type) ua) }) }) })
   }"

subsection \<open>Message types\<close>

lemma stun_method_type: "STUN_METHOD (STUN_TYPE met cls) = met AND 0xfff"
  by (rule bit_word_eqI, simp add: STUN_METHOD_def STUN_TYPE_def, drule less_16_cases)
    (elim disjE; simp add: bit_simps bit_times_2)

lemma stun_class_type: "met AND 0x50 = 0 \<Longrightarrow> STUN_CLASS (STUN_TYPE met cls) = ucast cls AND 3"
proof -
  assume m: "met AND 0x50 = 0"
  have "bit (met AND 0x50) 4 = False" "bit (met AND 0x50) 6 = False" unfolding m by simp_all
  then have "\<not> bit met 4" "\<not> bit met 6" by (simp_all add: bit_simps)
  then show ?thesis
    by - (rule bit_word_eqI, simp add: STUN_CLASS_def STUN_TYPE_def, drule less_16_cases,
      elim disjE; simp add: bit_simps bit_times_2)
qed

lemma stun_type_14: "STUN_TYPE met cls AND 0xc000 = 0" "STUN_TYPE met cls AND 0x3fff = STUN_TYPE met cls"
  by (rule bit_word_eqI, simp add: STUN_TYPE_def, drule less_16_cases, elim disjE; simp add: bit_simps bit_times_2)+

subsection \<open>Header and addresses: what is written is what is read\<close>

definition stun_hdr_bytes :: "stun_hdr \<Rightarrow> u8 list" where
  "stun_hdr_bytes h = be16 (sh_type h AND 0x3fff) @ be16 (sh_len h) @ be32 (sh_cookie h) @
     take STUN_TID_SIZE (sh_tid h)"

lemma length_hdr_bytes [simp]: "length (sh_tid h) = 12 \<Longrightarrow> length (stun_hdr_bytes h) = 20"
  by (simp add: stun_hdr_bytes_def STUN_TID_SIZE_def)

lemma puts_stun_hdr: "alloc_total E \<Longrightarrow> puts (stun_hdr_encode E h) (stun_hdr_bytes h)"
  unfolding stun_hdr_encode_def stun_hdr_bytes_def
  by (rule puts_cong, (rule puts_bind puts_return puts_rules(3-) | assumption | simp)+)

lemma stun_hdr_decode_run:
  assumes mb: "mbuf_ok mb" "mbuf_rest mb = stun_hdr_bytes h @ r"
    and h: "sh_type h AND 0xc000 = 0" "sh_type h AND 0x3fff = sh_type h" "sh_len h AND 3 = 0"
      "length (sh_tid h) = 12" "unat (sh_len h) \<le> length r"
  shows "run_state (stun_hdr_decode h0) mb = ((0, h), adv 20 mb)"
  using assms
  by (simp add: stun_hdr_decode_def STUN_HEADER_SIZE_def STUN_TID_SIZE_def mb_simps stun_hdr_bytes_def
      byte_simps Let_def)

definition xor_cookie16 :: "bool \<Rightarrow> u16 \<Rightarrow> u16" where
  "xor_cookie16 x p = (if x then p XOR ucast (drop_bit 16 STUN_MAGIC_COOKIE) else p)"

definition xor_cookie32 :: "bool \<Rightarrow> u32 \<Rightarrow> u32" where
  "xor_cookie32 x a = (if x then a XOR STUN_MAGIC_COOKIE else a)"

definition stun_addr_bytes :: "sa \<Rightarrow> u8 list option \<Rightarrow> u8 list" where
  "stun_addr_bytes a tid =
     (if sa_af a = AF_INET
      then [0, STUN_AF_IPv4] @ be16 (xor_cookie16 (tid \<noteq> None) (sa_port a)) @
           be32 (xor_cookie32 (tid \<noteq> None) (sa_in a))
      else [0, STUN_AF_IPv6] @ be16 (xor_cookie16 (tid \<noteq> None) (sa_port a)) @
           (case tid of Some t \<Rightarrow> in6_xor_tid (sa_in6 a) t | None \<Rightarrow> sa_in6 a))"

text \<open>An address the encoder takes, with a full IPv6 address and transaction id.\<close>

definition stun_addr_wf :: "sa \<Rightarrow> u8 list option \<Rightarrow> bool" where
  "stun_addr_wf a tid \<longleftrightarrow> (sa_af a = AF_INET \<or> sa_af a = AF_INET6) \<and> length (sa_in6 a) = 16 \<and>
     (case tid of None \<Rightarrow> True | Some t \<Rightarrow> length t = 12)"

lemma xor_cookie_twice [simp]:
  "xor_cookie16 x (xor_cookie16 x p) = p" "xor_cookie32 x (xor_cookie32 x a) = a"
  by (simp_all add: xor_cookie16_def xor_cookie32_def xor.assoc)

lemma map2_xor_twice:
  "length a = length m \<Longrightarrow> map2 (XOR) (map2 (XOR) a m) m = (a :: u8 list)"
  by (induction a m rule: list_induct2) (simp_all add: xor.assoc)

lemma in6_xor_twice:
  "length a = 16 \<Longrightarrow> length t = 12 \<Longrightarrow> in6_xor_tid (in6_xor_tid a t) t = a"
  by (simp add: in6_xor_tid_def STUN_TID_SIZE_def map2_xor_twice)

lemma length_in6_xor [simp]:
  "length a = 16 \<Longrightarrow> length t = 12 \<Longrightarrow> length (in6_xor_tid a t) = 16"
  by (simp add: in6_xor_tid_def STUN_TID_SIZE_def)

lemma length_addr_bytes:
  "stun_addr_wf a tid \<Longrightarrow> length (stun_addr_bytes a tid) = (if sa_af a = AF_INET then 8 else 20)"
  by (auto simp: stun_addr_bytes_def stun_addr_wf_def split: option.splits)

lemma puts_stun_addr:
  assumes "alloc_total E" "stun_addr_wf a tid"
  shows "puts (stun_addr_encode E a tid) (stun_addr_bytes a tid)"
proof (cases "sa_af a = AF_INET")
  case True
  show ?thesis
    unfolding stun_addr_encode_def stun_addr_bytes_def Let_def xor_cookie16_def xor_cookie32_def if_P [OF True]
    by (rule puts_cong, (rule puts_bind puts_return puts_rules(3-) [OF assms(1)] | simp only: HOL.refl or.idem)+)
      simp
next
  case False
  then have "sa_af a = AF_INET6" using assms(2) by (simp add: stun_addr_wf_def)
  note if_neg = if_not_P [OF False] if_P [OF this]
  show ?thesis
    unfolding stun_addr_encode_def stun_addr_bytes_def Let_def xor_cookie16_def if_neg
    by (rule puts_cong, (rule puts_bind puts_return puts_rules(3-) [OF assms(1)] | simp only: HOL.refl or.idem)+)
      simp
qed

text \<open>What the decoder makes of the bytes: the address and the port, set in a given \<^verbatim>\<open>struct sa\<close>.\<close>

definition sa_copied :: "sa \<Rightarrow> sa \<Rightarrow> sa" where
  "sa_copied a s = (if sa_af a = AF_INET then sa_set_in (sa_in a) (sa_port a) s
     else sa_set_in6 (sa_in6 a) (sa_port a) s)"

lemma stun_af_distinct [simp]: "STUN_AF_IPv4 \<noteq> STUN_AF_IPv6" "STUN_AF_IPv6 \<noteq> STUN_AF_IPv4"
  by (simp_all add: STUN_AF_IPv4_def STUN_AF_IPv6_def)

lemma stun_addr_decode_run:
  assumes "mbuf_ok mb" "mbuf_rest mb = stun_addr_bytes a tid @ r" "stun_addr_wf a tid"
  shows "run_state (stun_addr_decode s tid) mb =
    ((0, sa_copied a s), adv (length (stun_addr_bytes a tid)) mb)"
proof (cases "sa_af a = AF_INET")
  case True
  then have rest: "mbuf_rest mb = 0 # STUN_AF_IPv4 # be16 (xor_cookie16 (tid \<noteq> None) (sa_port a)) @
      be32 (xor_cookie32 (tid \<noteq> None) (sa_in a)) @ r"
    using assms(2) by (simp add: stun_addr_bytes_def)
  show ?thesis
    unfolding stun_addr_decode_def Let_def xor_cookie16_def [symmetric] xor_cookie32_def [symmetric]
    using True assms(1) rest
    by (simp add: mb_simps byte_simps sa_copied_def length_addr_bytes [OF assms(3)])
next
  case False
  then have rest: "mbuf_rest mb = 0 # STUN_AF_IPv6 # be16 (xor_cookie16 (tid \<noteq> None) (sa_port a)) @
      (case tid of Some t \<Rightarrow> in6_xor_tid (sa_in6 a) t | None \<Rightarrow> sa_in6 a) @ r"
    using assms(2) by (simp add: stun_addr_bytes_def)
  show ?thesis
    unfolding stun_addr_decode_def Let_def xor_cookie16_def [symmetric] xor_cookie32_def [symmetric]
    using False assms(1,3) rest
    by (cases tid) (simp_all add: mb_simps byte_simps sa_copied_def stun_addr_bytes_def
        stun_addr_wf_def in6_xor_twice)
qed

subsection \<open>Attributes: what is written\<close>

text \<open>The bytes of a value the attribute type goes with.\<close>

definition val_bytes :: "u16 \<Rightarrow> stun_val \<Rightarrow> u8 list option \<Rightarrow> u8 list" where
  "val_bytes type v tid = (case v of
     SaV a \<Rightarrow> stun_addr_bytes a (if attr_kind type = KXorAddr then tid else None)
   | ChangeReqV ip port \<Rightarrow> be32 (push_bit 2 (of_bool ip) OR push_bit 1 (of_bool port))
   | StrV s \<Rightarrow> s
   | MiV mi \<Rightarrow> mi
   | ErrCodeV code reason \<Rightarrow> [0, 0, ucast (code div 100), ucast (code mod 100)] @ the reason
   | UnknownV tv tc \<Rightarrow> concat (map be16 (take (unat tc) tv))
   | U32V n \<Rightarrow>
       (if attr_kind type = KU16 then be16 (ucast n) @ [0, 0]
        else if attr_kind type = KU8 then [ucast n, 0, 0, 0]
        else be32 n)
   | MbufV d \<Rightarrow> mbuf_rest d
   | EvenPortV r \<Rightarrow> [push_bit 7 (of_bool r)]
   | U64V n \<Rightarrow> be64 n
   | _ \<Rightarrow> [])"

text \<open>The value has the type the attribute needs, and fits its fields.\<close>

definition val_wf :: "u16 \<Rightarrow> stun_val \<Rightarrow> u8 list option \<Rightarrow> bool" where
  "val_wf type v tid \<longleftrightarrow> length (val_bytes type v tid) < 65536 \<and> (case v of
     SaV a \<Rightarrow> attr_kind type = KAddr \<and> stun_addr_wf a None \<or>
       attr_kind type = KXorAddr \<and> stun_addr_wf a tid
   | ChangeReqV ip port \<Rightarrow> attr_kind type = KChangeReq
   | StrV s \<Rightarrow> attr_kind type = KStr
   | MiV mi \<Rightarrow> attr_kind type = KMi \<and> length mi = 20
   | ErrCodeV code reason \<Rightarrow> attr_kind type = KErrCode \<and> code < 800 \<and> reason \<noteq> None
   | UnknownV tv tc \<Rightarrow> attr_kind type = KUnknown \<and> length tv = 8 \<and> tc \<le> 8
   | U32V n \<Rightarrow> attr_kind type \<in> {KU16, KU32, KU8}
   | MbufV d \<Rightarrow> attr_kind type = KMbuf \<and> mbuf_ok d \<and> mb_buf d \<noteq> None
   | EvenPortV r \<Rightarrow> attr_kind type = KEvenPort
   | EmptyV \<Rightarrow> attr_kind type = KEmpty
   | U64V n \<Rightarrow> attr_kind type = KU64
   | _ \<Rightarrow> False)"

lemma le16_0 [simp]: "le16 0 = [0, 0]"
  by (simp add: le_bytes_def eval_nat_numeral)

lemma puts_unknown:
  "alloc_total E \<Longrightarrow> i + n \<le> length tv \<Longrightarrow>
   puts (unknown_encode E tv i n) (concat (map be16 (take n (drop i tv))))"
proof (induction n arbitrary: i)
  case 0
  then show ?case by (simp add: puts_return)
next
  case (Suc n)
  then have "take (Suc n) (drop i tv) = tv ! i # take n (drop (Suc i) tv)"
    by (simp add: Cons_nth_drop_Suc [symmetric])
  moreover have "puts (unknown_encode E tv i (Suc n))
      (be16 (tv ! i) @ concat (map be16 (take n (drop (Suc i) tv))) @ [])"
    unfolding unknown_encode.simps
  proof (rule puts_bind)
    show "puts (if i < length tv then mbuf_write_u16 E (htons (tv ! i)) else mb_misuse) (be16 (tv ! i))"
      using Suc.prems by (simp add: puts_ints)
    show "puts (do { e' \<leftarrow> unknown_encode E tv (Suc i) n; State_Monad.return (0 OR e') })
      (concat (map be16 (take n (drop (Suc i) tv))) @ [])"
      using Suc by (intro puts_bind) (simp_all add: puts_return)
  qed
  ultimately show ?case by simp
qed

lemma puts_take_other:
  assumes "mbuf_ok d" "puts (f (mbuf_rest d)) xs"
  shows "puts (State_Monad.bind (mbuf_take_other d (mbuf_get_left d)) f) xs"
proof -
  have "run_state (mbuf_take_other d (mbuf_get_left d)) s = (mbuf_rest d, s)" for s
    using assms(1) by (simp add: mbuf_take_other_def mem_peek_ok mb_simps)
  then show ?thesis using assms(2) by (simp add: puts_def)
qed

lemma puts_attr_value:
  assumes "alloc_total E" "val_wf type v tid"
  shows "puts (stun_attr_value E type v tid) (val_bytes type v tid)"
proof -
  note rules = puts_bind puts_return puts_rules(3-) [OF assms(1)]
  show ?thesis
  proof (cases v)
    case (SaV a)
    then show ?thesis using assms
      by (auto simp: val_wf_def val_bytes_def stun_attr_value_def puts_stun_addr)
  next
    case (UnknownV tv tc)
    then have "unat tc \<le> length tv"
      using assms(2) by (simp add: val_wf_def word_le_nat_alt)
    then show ?thesis using assms UnknownV puts_unknown [OF assms(1), of 0 "unat tc" tv]
      by (simp add: val_wf_def val_bytes_def stun_attr_value_def)
  next
    case (ErrCodeV code reason)
    then obtain r where "reason = Some r" using assms(2) by (auto simp: val_wf_def)
    then show ?thesis using assms(2) ErrCodeV
      by (simp add: val_wf_def val_bytes_def stun_attr_value_def mbuf_write_str_def)
        (rule puts_cong, (rule rules | simp)+)
  next
    case (U32V n)
    then have "attr_kind type = KU16 \<or> attr_kind type = KU32 \<or> attr_kind type = KU8"
      using assms(2) by (simp add: val_wf_def)
    then show ?thesis
    proof (elim disjE)
      assume k: "attr_kind type = KU16"
      show ?thesis unfolding stun_attr_value_def val_bytes_def U32V
        by (simp add: k) (rule puts_cong, (rule rules | simp add: byte_simps)+)
    next
      assume k: "attr_kind type = KU32"
      show ?thesis unfolding stun_attr_value_def val_bytes_def U32V
        by (simp add: k puts_ints [OF assms(1)])
    next
      assume k: "attr_kind type = KU8"
      show ?thesis unfolding stun_attr_value_def val_bytes_def U32V
        by (simp add: k) (rule puts_cong, (rule rules | simp)+)
    qed
  next
    case (MbufV d)
    then show ?thesis using assms
      by (auto simp: val_wf_def val_bytes_def stun_attr_value_def puts_take_other puts_mem)
  qed (use assms in \<open>simp_all add: val_wf_def val_bytes_def stun_attr_value_def mbuf_write_str_def
      puts_mem puts_ints puts_return\<close>)
qed

subsection \<open>Attributes: what is read\<close>

text \<open>A decoded value stands for an encoded one: the integers are cut to the attribute's width, and the
  data of a buffer is a view of the message.\<close>

definition val_agrees :: "u16 \<Rightarrow> stun_val \<Rightarrow> stun_val \<Rightarrow> bool" where
  "val_agrees type v v' \<longleftrightarrow> (case v of
     SaV a \<Rightarrow> v' = SaV (sa_copied a sa_zero)
   | UnknownV tv tc \<Rightarrow> (\<exists>tv'. v' = UnknownV tv' tc \<and> take (unat tc) tv' = take (unat tc) tv)
   | U32V n \<Rightarrow> v' = (if attr_kind type = KU16 then U16V (ucast n)
       else if attr_kind type = KU8 then U8V (ucast n) else U32V n)
   | MbufV d \<Rightarrow> (\<exists>d'. v' = MbufV d' \<and> mbuf_ok d' \<and> mbuf_rest d' = mbuf_rest d)
   | _ \<Rightarrow> v' = v)"

lemma str_decode_run:
  assumes "alloc_total E" "mbuf_ok mb" "n \<le> length (mbuf_rest mb)"
  shows "run_state (str_decode E n) mb = ((0, take n (mbuf_rest mb)), adv n mb)"
  using assms by (simp add: str_decode_def mb_simps alloc_total_def)

lemma unknown_decode_run:
  "mbuf_ok mb \<Longrightarrow> mbuf_rest mb = concat (map be16 ts) @ r \<Longrightarrow> i + length ts \<le> 8 \<Longrightarrow> length tv = 8 \<Longrightarrow>
   run_state (unknown_decode i (length ts) tv tc) mb =
     ((overwrite i ts tv, tc + of_nat (length ts)), adv (2 * length ts) mb)"
proof (induction ts arbitrary: mb i tv tc)
  case Nil
  then show ?case by simp
next
  case (Cons t ts)
  then have "mbuf_ok (adv 2 mb)" "mbuf_rest (adv 2 mb) = concat (map be16 ts) @ r"
    by (simp_all add: mb_simps)
  note IH = Cons.IH [OF this, of "Suc i" "tv[i := t]" "tc + 1"]
  have "overwrite (Suc i) ts (tv[i := t]) = overwrite i (t # ts) tv"
    using Cons.prems(3,4) by (simp add: overwrite_def take_Suc_conv_app_nth drop_update_cancel)
  then show ?case
    using IH Cons.prems by (simp add: mb_simps byte_simps ac_simps)
qed

lemma err_code_parts:
  assumes "code < (800 :: u16)"
  shows "(ucast ((ucast (code div 100) :: u8) AND 7) * 100 + ucast (ucast (code mod 100) :: u8) :: u16) = code"
proof -
  have c: "unat code < 800" using assms by (simp add: word_less_nat_alt)
  have "unat (code div 100) = unat code div 100" "unat (code mod 100) = unat code mod 100"
    by (simp_all add: unat_div unat_mod)
  moreover have "unat code div 100 < 8" "unat code mod 100 < 256" using c by simp_all
  ultimately have "unat (ucast (code div 100) :: u8) = unat code div 100"
    "unat (ucast (code mod 100) :: u8) = unat code mod 100"
    by (simp_all add: unsigned_ucast_eq take_bit_nat_eq_self)
  note u = this
  have "unat (ucast (code div 100) :: u8) < 8" using u(1) c by simp
  then have h: "(ucast (code div 100) :: u8) AND 7 = ucast (code div 100)"
    by (simp add: mask_simps word_unat_eq_iff unsigned_take_bit_eq take_bit_nat_eq_self)
  have "unat code div 100 * 100 + unat code mod 100 = unat code" by simp
  then show ?thesis unfolding h using u c
    by (simp add: word_unat_eq_iff unat_word_ariths)
qed

lemma change_req_bits:
  "(drop_bit 2 (push_bit 2 (of_bool a) OR push_bit 1 (of_bool b) :: u32) AND 1 \<noteq> 0) = a"
  "(drop_bit 1 (push_bit 2 (of_bool a) OR push_bit 1 (of_bool b) :: u32) AND 1 \<noteq> 0) = b"
  unfolding mask_simps take_bit_1_nonzero by (simp_all add: bit_simps)

lemma even_port_bit: "(drop_bit 7 (push_bit 7 (of_bool r) :: u8) AND 1 \<noteq> 0) = r"
  unfolding mask_simps take_bit_1_nonzero by (simp add: bit_simps)


lemma val_decode_run:
  assumes E: "alloc_total E" and wf: "val_wf type v tid" and mb: "mbuf_ok mb"
    and rest: "mbuf_rest mb = val_bytes type v tid @ r"
    and len: "len = length (val_bytes type v tid)"
  shows "\<exists>v' n. run_state (stun_val_decode E type len tid) mb = (Inr v', adv n mb) \<and>
    n \<le> len \<and> round4 n = round4 len \<and> val_agrees type v v'"
proof (cases v)
  case (SaV a)
  then consider "attr_kind type = KAddr" "stun_addr_wf a None" | "attr_kind type = KXorAddr" "stun_addr_wf a tid"
    using wf by (auto simp: val_wf_def)
  then show ?thesis
  proof cases
    case 1
    then show ?thesis using SaV mb rest len
      by (auto simp: stun_val_decode_def val_bytes_def val_agrees_def val_result_def stun_addr_decode_run)
  next
    case 2
    then show ?thesis using SaV mb rest len
      by (auto simp: stun_val_decode_def val_bytes_def val_agrees_def val_result_def stun_addr_decode_run)
  qed
next
  case (ChangeReqV ip port)
  then show ?thesis using wf mb rest len
    by (auto simp: val_wf_def stun_val_decode_def val_bytes_def val_agrees_def mb_simps byte_simps
        change_req_bits)
next
  case (StrV s)
  then show ?thesis using wf mb rest len
    by (auto simp: val_wf_def stun_val_decode_def val_bytes_def val_agrees_def str_decode_run [OF E mb] val_result_def)
next
  case (MiV mi)
  then show ?thesis using wf mb rest len
    by (auto simp: val_wf_def stun_val_decode_def val_bytes_def val_agrees_def mb_simps val_result_def)
next
  case (ErrCodeV code reason)
  then obtain s where s: "reason = Some s" and k: "attr_kind type = KErrCode" and c: "code < 800"
    using wf by (auto simp: val_wf_def)
  have rest': "mbuf_rest mb = 0 # 0 # ucast (code div 100) # ucast (code mod 100) # s @ r"
    using rest s ErrCodeV by (simp add: val_bytes_def)
  have ok: "mbuf_ok (adv 2 mb)" "mbuf_ok (adv 3 mb)" "mbuf_ok (adv 4 mb)"
    using mb rest' by (simp_all add: mb_simps)
  have "mb_pos mb + 2 < size_mod" using mbuf_rest_less [OF mb] rest' by simp
  moreover have "run_state (str_decode E (length s)) (adv 4 mb) = ((0, s), adv (4 + length s) mb)"
    using str_decode_run [OF E ok(3), of "length s"] rest' by simp
  moreover have "len = 4 + length s" using len ErrCodeV s by (simp add: val_bytes_def)
  ultimately show ?thesis using ErrCodeV s k rest' ok
    by (intro exI [of _ "ErrCodeV code (Some s)"] exI [of _ "4 + length s"]) (simp add: stun_val_decode_def val_bytes_def val_agrees_def mb_simps val_result_def
        err_code_parts [OF c])
next
  case (UnknownV tv tc)
  then have k: "attr_kind type = KUnknown" and tv: "length tv = 8" and tc: "unat tc \<le> 8"
    using wf by (auto simp: val_wf_def word_le_nat_alt)
  let ?ts = "take (unat tc) tv"
  have l: "length ?ts = unat tc" using tv tc by simp
  have "len = 2 * unat tc" using len UnknownV l
    by (simp add: val_bytes_def length_concat comp_def sum_list_triv)
  moreover have "run_state (unknown_decode 0 (unat tc) (replicate 8 0) 0) mb =
      ((overwrite 0 ?ts (replicate 8 0), tc), adv (2 * unat tc) mb)"
    using unknown_decode_run [OF mb, of ?ts r 0 "replicate 8 0" 0] rest UnknownV l tc
    by (simp add: val_bytes_def)
  ultimately show ?thesis using UnknownV k l
    by (auto simp: stun_val_decode_def val_agrees_def overwrite_def)
next
  case (U32V n)
  then have "attr_kind type = KU16 \<or> attr_kind type = KU32 \<or> attr_kind type = KU8"
    using wf by (simp add: val_wf_def)
  then show ?thesis using U32V mb rest len
    by (intro exI [of _ "if attr_kind type = KU16 then U16V (ucast n) else
          if attr_kind type = KU8 then U8V (ucast n) else U32V n"]
        exI [of _ "if attr_kind type = KU16 then 2 else if attr_kind type = KU8 then 1 else 4"], elim disjE)
      (simp_all add: stun_val_decode_def val_bytes_def val_agrees_def mb_simps byte_simps round4_def)
next
  case (MbufV d)
  then have k: "attr_kind type = KMbuf" "mbuf_ok d" using wf by (simp_all add: val_wf_def)
  have r: "mbuf_rest mb = mbuf_rest d @ r" "len = length (mbuf_rest d)"
    using rest len MbufV by (simp_all add: val_bytes_def)
  have lt: "mb_pos mb + len < size_mod" using mbuf_rest_less [OF mb] r by simp
  let ?d = "\<lparr>mb_buf = mb_buf mb, mb_size = mb_size mb, mb_pos = mb_pos mb,
    mb_end = mb_pos mb + len, mb_fault = False\<rparr>"
  have le: "mb_pos mb + len \<le> mb_end mb"
    using r mb length_mbuf_rest [of mb] by (simp add: mbuf_ok_def) linarith
  have "mbuf_ok ?d"
    using mb le lt by (auto simp: mbuf_ok_def mbuf_wf_def split: option.splits)
  moreover have "mbuf_rest ?d = take len (mbuf_rest mb)"
    using le by (simp add: mbuf_rest_def mbuf_content_def mbuf_bytes_def drop_take min_def)
  ultimately show ?thesis using k MbufV r lt
    by (intro exI [of _ "MbufV ?d"] exI [of _ len]) (simp add: stun_val_decode_def val_agrees_def mb_simps sz_add_small)
next
  case (EvenPortV b)
  then show ?thesis using wf mb rest len
    by (auto simp: val_wf_def stun_val_decode_def val_bytes_def val_agrees_def mb_simps even_port_bit)
qed (use wf mb rest len in \<open>auto simp: val_wf_def stun_val_decode_def val_bytes_def val_agrees_def
    mb_simps byte_simps\<close>)


subsection \<open>Attributes: encoding and decoding\<close>

definition attr_bytes :: "u16 \<Rightarrow> stun_val \<Rightarrow> u8 list option \<Rightarrow> u8 \<Rightarrow> u8 list" where
  "attr_bytes type v tid padding = (let val = val_bytes type v tid in
     be16 type @ be16 (of_nat (length val)) @ val @ replicate (round4 (length val) - length val) padding)"

lemma length_attr_bytes:
  "length (attr_bytes type v tid padding) = 4 + round4 (length (val_bytes type v tid))"
  using round4_bounds(1) by (simp add: attr_bytes_def Let_def)

lemma stun_attr_body_run:
  assumes "alloc_total E" "val_wf type v tid" "mbuf_wf mb" "mb_end mb \<le> mb_pos mb"
    and "mb_pos mb + 4 + length (val_bytes type v tid) < size_mod"
  shows "\<exists>t. run_state (stun_attr_body E type v tid) mb = (0, t) \<and>
    put_at mb (be16 type @ be16 (of_nat (length (val_bytes type v tid))) @ val_bytes type v tid) t"
proof -
  let ?val = "val_bytes type v tid" and ?p = "mb_pos mb"
  let ?mb4 = "mb\<lparr>mb_pos := ?p + 4\<rparr>"
  obtain t1 where t1: "run_state (stun_attr_value E type v tid) ?mb4 = (0, t1)" "put_at ?mb4 ?val t1"
    using putsD [OF puts_attr_value [OF assms(1,2)], of ?mb4] assms(3,5) by (auto simp: mbuf_wf_set_pos)
  note d = put_atD [OF t1(2)]
  let ?hdr = "be16 type @ be16 (of_nat (length ?val))"
  have "puts (do { e2 \<leftarrow> mbuf_write_u16 E (htons type);
      e3 \<leftarrow> mbuf_write_u16 E (htons (of_nat (length ?val)));
      State_Monad.return (e2 OR e3) }) ?hdr"
    by (rule puts_cong, (rule puts_bind puts_return puts_rules(3-) [OF assms(1)] | simp)+)
  from putsD [OF this, of "t1\<lparr>mb_pos := ?p\<rparr>"]
  obtain t2 where "run_state (do { e2 \<leftarrow> mbuf_write_u16 E (htons type);
      e3 \<leftarrow> mbuf_write_u16 E (htons (of_nat (length ?val)));
      State_Monad.return (e2 OR e3) }) (t1\<lparr>mb_pos := ?p\<rparr>) = (0, t2)"
    and h: "put_at (t1\<lparr>mb_pos := ?p\<rparr>) ?hdr t2"
    using d(1) assms(3,5) by (auto simp: mbuf_wf_set_pos)
  then obtain u where w: "run_state (mbuf_write_u16 E (htons type)) (t1\<lparr>mb_pos := ?p\<rparr>) = (0, u)"
    "run_state (mbuf_write_u16 E (htons (of_nat (length ?val)))) u = (0, t2)"
    by (auto simp: case_prod_beta prod_eq_iff)
  have "put_at mb (?hdr @ ?val) (t2\<lparr>mb_pos := mb_pos t2 + length ?val\<rparr>)"
    by (rule put_at_backfill [OF assms(3,4,5) t1(2) h]) simp
  moreover have "run_state (stun_attr_body E type v tid) mb = (0, t2\<lparr>mb_pos := mb_pos t2 + length ?val\<rparr>)"
    using assms(5) t1(1) w d(2) put_atD(2) [OF h]
    by (simp add: stun_attr_body_def mbuf_advance_def mbuf_set_pos_def sz_add_small sz_sub_small Let_def)
  ultimately show ?thesis by auto
qed

lemma stun_attr_encode_run:
  assumes "alloc_total E" "val_wf type v tid" "mbuf_wf mb" "mb_end mb \<le> mb_pos mb"
    and "mb_pos mb + length (attr_bytes type v tid padding) < size_mod"
  shows "\<exists>t. stun_attr_encode E type (Some v) tid padding mb = Some (0, t) \<and>
    put_at mb (attr_bytes type v tid padding) t"
proof -
  let ?val = "val_bytes type v tid" and ?p = "mb_pos mb"
  have l: "?p + 4 + round4 (length ?val) < size_mod" using assms(5) by (simp add: length_attr_bytes)
  with round4_bounds(1) [of "length ?val"] have "?p + 4 + length ?val < size_mod" by linarith
  from stun_attr_body_run [OF assms(1-4) this]
  obtain t where t: "run_state (stun_attr_body E type v tid) mb = (0, t)"
    "put_at mb (be16 type @ be16 (of_nat (length ?val)) @ ?val) t" by blast
  note d = put_atD [OF t(2)]
  have "mb_pos t - (?p + 4) = length ?val" using d(2) by simp
  then obtain u where u: "pad_loop E (?p + 4) padding 0 t = Some (0, u)"
    "put_at t (replicate (round4 (length ?val) - length ?val) padding) u"
    using pad_loop_run [OF assms(1) d(1), of "?p + 4" _ padding] d(2) l round4_bounds(1) [of "length ?val"]
    by auto
  have "put_at mb (attr_bytes type v tid padding) u"
    using put_at_trans [OF assms(3) t(2) u(2)] by (simp add: attr_bytes_def Let_def)
  moreover have "sz_add ?p 4 = ?p + 4" using l by (simp add: sz_add_small)
  ultimately show ?thesis using t(1) u(1) by (simp add: stun_attr_encode_def)
qed

lemma stun_attr_decode_run:
  assumes E: "alloc_total E" and wf: "val_wf type v tid" and mb: "mbuf_ok mb"
    and rest: "mbuf_rest mb = attr_bytes type v tid padding @ r"
  shows "\<exists>v'. run_state (stun_attr_decode E tid ua) mb =
      ((Inr \<lparr>at_type = type, at_v = v'\<rparr>, ua), adv (length (attr_bytes type v tid padding)) mb) \<and>
    val_agrees type v v'"
proof -
  let ?val = "val_bytes type v tid"
  let ?pad = "replicate (round4 (length ?val) - length ?val) padding"
  have rest': "mbuf_rest mb = be16 type @ be16 (of_nat (length ?val)) @ ?val @ ?pad @ r"
    using rest by (simp add: attr_bytes_def Let_def)
  have l: "unat (of_nat (length ?val) :: u16) = length ?val"
    using wf by (simp add: val_wf_def unat_of_nat)
  have ok: "mbuf_ok (adv 2 mb)" "mbuf_ok (adv 4 mb)" using mb rest' by (simp_all add: mb_simps)
  obtain v' n where v: "run_state (stun_val_decode E type (length ?val) tid) (adv 4 mb) = (Inr v', adv n (adv 4 mb))"
    "n \<le> length ?val" "round4 n = round4 (length ?val)" "val_agrees type v v'"
    using val_decode_run [OF E wf ok(2), of "?pad @ r"] rest' by auto
  have k: "attr_kind type \<noteq> KOther" using wf by (auto simp: val_wf_def split: stun_val.splits)
  have lr: "length (mbuf_rest (adv 4 mb)) = round4 (length ?val) + length r"
    using rest' round4_bounds(1) [of "length ?val"] by simp
  have "pad_skip (mb_pos mb + 4) (adv n (adv 4 mb)) = adv (round4 n - n) (adv n (adv 4 mb))"
  proof (rule pad_skip_run)
    have "n \<le> length (mbuf_rest (adv 4 mb))" using v(2) lr round4_bounds(1) [of "length ?val"] by linarith
    then show "mbuf_ok (adv n (adv 4 mb))" using ok(2) by (rule mbuf_ok_adv [rotated])
    show "round4 n - n \<le> length (mbuf_rest (adv n (adv 4 mb)))" using lr v(3) by simp
  qed simp_all
  also have "\<dots> = adv (length (attr_bytes type v tid padding)) mb"
    using round4_bounds(1) [of n] v(3) by (simp add: length_attr_bytes)
  finally show ?thesis
    using E mb ok rest' l v k
    by (auto simp: stun_attr_decode_def mb_simps byte_simps Let_def ua_note_def option.map_ident
        alloc_total_def sizeof_stun_attr_def size_mod_def cong: map_option_cong)
qed

subsection \<open>Decoding stays inside the message\<close>

lemma reader_stun_hdr: "reader (stun_hdr_decode h)"
  unfolding stun_hdr_decode_def Let_def
  by (rule keeps_intros)+

lemma reader_stun_addr: "reader (stun_addr_decode a tid)"
  unfolding stun_addr_decode_def Let_def
  by (rule keeps_intros)+

lemma reader_str_decode: "reader (str_decode E n)"
  unfolding str_decode_def by (rule keeps_intros)+

lemma reader_unknown: "reader (unknown_decode i n tv tc)"
  by (induction n arbitrary: i tv tc) (auto intro!: keeps_intros)

lemma readerE: "reader m \<Longrightarrow> mbuf_ok s \<Longrightarrow> reads s (snd (run_state m s))"
  by (simp add: reader_def)

lemma val_decode_reads:
  assumes s: "mbuf_ok s" and len: "len \<le> length (mbuf_rest s)"
  shows "reads s (snd (run_state (stun_val_decode E type len tid) s))"
proof -
  have adv: "run_state (mbuf_advance n) s = ((), adv n s)" "reads s (adv n s)" "mbuf_ok (adv n s)"
    if "n \<le> len" for n
    using that len s mbuf_rest_less [OF s] by (simp_all add: mb_simps reads_adv)
  show ?thesis
  proof (cases "attr_kind type")
    case KErrCode
    show ?thesis
    proof (cases "len < 4")
      case False
      have "reader (do {
          h \<leftarrow> mbuf_read_u8;
          l \<leftarrow> mbuf_read_u8;
          r \<leftarrow> str_decode E (len - 4);
          State_Monad.return (val_result r (\<lambda>s. ErrCodeV (ucast (h AND 7) * 100 + ucast l) (Some s))) })"
        by (rule keeps_intros reader_str_decode)+
      from readerE [OF this adv(3) [of 2]] have "reads s (snd (run_state (do {
          h \<leftarrow> mbuf_read_u8;
          l \<leftarrow> mbuf_read_u8;
          r \<leftarrow> str_decode E (len - 4);
          State_Monad.return (val_result r (\<lambda>s. ErrCodeV (ucast (h AND 7) * 100 + ucast l) (Some s))) }) (adv 2 s)))"
        using False reads_trans [OF adv(2) [of 2]] by simp
      then show ?thesis using KErrCode False adv(1) [of 2] by (simp add: stun_val_decode_def)
    qed (simp add: stun_val_decode_def KErrCode)
  next
    case KMbuf
    then show ?thesis using adv [of len] by (simp add: stun_val_decode_def)
  next
    case KOther
    then show ?thesis using adv [of len] by (simp add: stun_val_decode_def)
  qed (simp_all only: stun_val_decode_def attr_kind.case Let_def,
      (rule readerE [OF _ s], (rule keeps_intros reader_stun_addr reader_str_decode reader_unknown)+)+)
qed

text \<open>On success at least the attribute header was consumed.\<close>

lemma stun_attr_decode_reads:
  assumes "mbuf_ok mb" "run_state (stun_attr_decode E tid ua) mb = ((r, ua'), mb')"
  shows "reads mb mb'" "r = Inr a \<Longrightarrow> mb_pos mb + 4 \<le> mb_pos mb'"
proof -
  let ?l = "unat (htons (of_le (take 2 (drop 2 (mbuf_rest mb))) :: u16))"
  have "reads mb mb' \<and> (r = Inr a \<longrightarrow> mb_pos mb + 4 \<le> mb_pos mb')"
  proof (cases "4 \<le> length (mbuf_rest mb) \<and> can_alloc E sizeof_stun_attr")
    case True
    then have "2 \<le> length (mbuf_rest mb)" "2 \<le> length (mbuf_rest mb) - 2" by linarith+
    with True have ok: "mbuf_ok (adv 2 mb)" "mbuf_ok (adv 4 mb)" "reads mb (adv 4 mb)"
      "2 \<le> length (mbuf_rest mb)" "2 \<le> length (mbuf_rest mb) - 2"
      using assms(1) by (simp_all add: mb_simps reads_adv)
    show ?thesis
    proof (cases "?l \<le> length (mbuf_rest (adv 4 mb))")
      case l: True
      obtain v s where d: "run_state (stun_val_decode E (htons (of_le (take 2 (mbuf_rest mb)))) ?l tid) (adv 4 mb) = (v, s)"
        by fastforce
      then have r: "reads (adv 4 mb) s"
        using val_decode_reads [OF ok(2) l, of E "htons (of_le (take 2 (mbuf_rest mb)))" tid] by simp
      note r4 = reads_trans [OF ok(3) r] reads_ok [OF ok(2) r]
      have p: "reads s (pad_skip n s)" for n using r4(2) by (rule pad_skip_reads)
      have le: "mb_pos mb + 4 \<le> mb_pos (pad_skip n s)" for n
        using reads_frame [OF r] reads_frame [OF p [of n]] by simp
      show ?thesis
        using assms True ok l d r4 reads_trans [OF r4(1) p] le
        by (auto simp: stun_attr_decode_def mb_simps Let_def split: sum.splits)
    next
      case False
      then show ?thesis using assms True ok
        by (auto simp: stun_attr_decode_def mb_simps Let_def)
    qed
  next
    case False
    then show ?thesis using assms by (auto simp: stun_attr_decode_def mb_simps split: if_splits)
  qed
  then show "reads mb mb'" "r = Inr a \<Longrightarrow> mb_pos mb + 4 \<le> mb_pos mb'" by auto
qed

subsection \<open>Properties\<close>

text \<open>C19: What the attribute encoder appends to a buffer (also behind room left for a message header) the
  decoder reads back, for every attribute type the encoder knows and every value that fits it (data and padding
  come from another buffer that has a block): the value agrees, exactly the encoded bytes are consumed, padding included, and the length is a multiple of 4.\<close>

theorem stun_attr_roundtrip:
  assumes "alloc_total E" "val_wf type v tid" "mbuf_wf mb" "mb_end mb \<le> mb_pos mb"
    and "mb_pos mb + length (attr_bytes type v tid padding) < size_mod"
  shows "\<exists>mb' v'. stun_attr_encode E type (Some v) tid padding mb = Some (0, mb') \<and>
    run_state (stun_attr_decode E tid ua) (mb'\<lparr>mb_pos := mb_pos mb\<rparr>) =
      ((Inr \<lparr>at_type = type, at_v = v'\<rparr>, ua), mb') \<and>
    val_agrees type v v' \<and> (mb_pos mb' - mb_pos mb) mod 4 = 0"
proof -
  let ?b = "attr_bytes type v tid padding"
  obtain t where t: "stun_attr_encode E type (Some v) tid padding mb = Some (0, t)" "put_at mb ?b t"
    using stun_attr_encode_run [OF assms] by blast
  have "?b \<noteq> []" using length_attr_bytes [of type v tid padding] by auto
  note r = put_at_rest [OF assms(3,4) t(2) this]
  obtain v' where v: "run_state (stun_attr_decode E tid ua) (t\<lparr>mb_pos := mb_pos mb\<rparr>) =
      ((Inr \<lparr>at_type = type, at_v = v'\<rparr>, ua), adv (length ?b) (t\<lparr>mb_pos := mb_pos mb\<rparr>))"
    "val_agrees type v v'"
    using stun_attr_decode_run [OF assms(1,2) r(1), of padding "[]" ua] r(2) by auto
  have "adv (length ?b) (t\<lparr>mb_pos := mb_pos mb\<rparr>) = t"
    using put_atD(2) [OF t(2)] by (simp add: adv_def)
  moreover have "(mb_pos t - mb_pos mb) mod 4 = 0"
    using put_atD(2) [OF t(2)] round4_bounds(3) by (simp add: length_attr_bytes)
  ultimately show ?thesis using t(1) v by auto
qed

theorem stun_attr_roundtrip_witness:
  "\<exists>mb' v'. stun_attr_encode ideal_env 6 (Some (StrV [97, 98, 99])) None 0 mbuf_init = Some (0, mb') \<and>
    val_agrees 6 (StrV [97, 98, 99]) v'"
  using stun_attr_roundtrip [of ideal_env 6 "StrV [97, 98, 99]" None mbuf_init 0 None]
  by (auto simp: val_wf_def val_bytes_def attr_kind_def mbuf_init_ok mbuf_ok_wf length_attr_bytes round4_def
      size_mod_def) (auto simp: mbuf_init_def)

text \<open>The padding loop of the attribute encoder never ends when the buffer is full, its position is not
  aligned and no memory can be had: each round fails and does not move the position. (When memory can be
  had it ends, as part of C27.)\<close>

theorem stun_pad_loop_hangs:
  assumes "mb_size mb \<le> mb_pos mb" "mb_pos mb + 1 < size_mod"
    and "sz_sub (mb_pos mb) start mod 4 \<noteq> 0" "\<forall>n. \<not> can_alloc E n"
  shows "pad_loop E start padding err mb = None"
proof -
  let ?stuck = "\<lambda>E start mb. mb_size mb \<le> mb_pos mb \<and> mb_pos mb + 1 < size_mod \<and>
    sz_sub (mb_pos mb) start mod 4 \<noteq> 0 \<and> (\<forall>n. \<not> can_alloc E n)"
  have "\<not> ?stuck E start mb" if r: "pad_loop E start padding err mb = Some r" for r
  proof (rule pad_loop.raw_induct [where P = "\<lambda>E start padding err mb r. \<not> ?stuck E start mb", OF _ r],
      rule notI)
    fix rec E' start' padding' err' mb' r'
    assume IH: "\<And>a b c d e y. rec a b c d e = Some y \<Longrightarrow> \<not> ?stuck a b e"
      and step: "(if sz_sub (mb_pos mb') start' mod 4 \<noteq> 0
        then rec E' start' padding' (err' OR fst (run_state (mbuf_write_u8 E' padding') mb'))
               (snd (run_state (mbuf_write_u8 E' padding') mb'))
        else Some (err', mb')) = Some r'"
      and s: "?stuck E' start' mb'"
    have "need_grow (Suc 0) mb'" using s by (simp add: need_grow_def)
    then have "run_state (mbuf_write_u8 E' padding') mb' = (ENOMEM, mb')"
      using s by (simp add: mbuf_write_u8_def run_mbuf_write_mem_cases)
    then have "rec E' start' padding' (err' OR ENOMEM) mb' = Some r'" using step s by simp
    from IH [OF this] s show False by blast
  qed
  then show ?thesis using assms by (cases "pad_loop E start padding err mb") auto
qed

theorem stun_pad_loop_hangs_witness:
  "pad_loop \<lparr>can_alloc = (\<lambda>_. False), fresh = (\<lambda>_ _. 0)\<rparr> 0 0 0
     \<lparr>mb_buf = Some [1, 2, 3], mb_size = 3, mb_pos = 3, mb_end = 3, mb_fault = False\<rparr> = None"
  by (rule stun_pad_loop_hangs) (simp_all add: size_mod_def sz_sub_def)

text \<open>The class bits cannot be told from two of the method bits: a request for method \<open>0x010\<close> reads as a
  success response. (The methods of the stack have neither bit.)\<close>

lemma stun_class_confused: "STUN_CLASS (STUN_TYPE 0x010 0) = 2"
  by code_simp

end
