(* ===== verification/Crc32.thy ===== *)
theory Crc32
  imports Prelude
begin

text \<open>
  The table-driven CRC-32 of \<^verbatim>\<open>src/crc32/crc32.c\<close>, which protects STUN messages
  (\<^verbatim>\<open>FINGERPRINT\<close>), and its equivalence with the bit-by-bit shift register of the polynomial.
\<close>

definition crc32_tab :: "u32 list" where
  "crc32_tab = [
     0x00000000, 0x77073096, 0xee0e612c, 0x990951ba, 0x076dc419, 0x706af48f,
     0xe963a535, 0x9e6495a3, 0x0edb8832, 0x79dcb8a4, 0xe0d5e91e, 0x97d2d988,
     0x09b64c2b, 0x7eb17cbd, 0xe7b82d07, 0x90bf1d91, 0x1db71064, 0x6ab020f2,
     0xf3b97148, 0x84be41de, 0x1adad47d, 0x6ddde4eb, 0xf4d4b551, 0x83d385c7,
     0x136c9856, 0x646ba8c0, 0xfd62f97a, 0x8a65c9ec, 0x14015c4f, 0x63066cd9,
     0xfa0f3d63, 0x8d080df5, 0x3b6e20c8, 0x4c69105e, 0xd56041e4, 0xa2677172,
     0x3c03e4d1, 0x4b04d447, 0xd20d85fd, 0xa50ab56b, 0x35b5a8fa, 0x42b2986c,
     0xdbbbc9d6, 0xacbcf940, 0x32d86ce3, 0x45df5c75, 0xdcd60dcf, 0xabd13d59,
     0x26d930ac, 0x51de003a, 0xc8d75180, 0xbfd06116, 0x21b4f4b5, 0x56b3c423,
     0xcfba9599, 0xb8bda50f, 0x2802b89e, 0x5f058808, 0xc60cd9b2, 0xb10be924,
     0x2f6f7c87, 0x58684c11, 0xc1611dab, 0xb6662d3d, 0x76dc4190, 0x01db7106,
     0x98d220bc, 0xefd5102a, 0x71b18589, 0x06b6b51f, 0x9fbfe4a5, 0xe8b8d433,
     0x7807c9a2, 0x0f00f934, 0x9609a88e, 0xe10e9818, 0x7f6a0dbb, 0x086d3d2d,
     0x91646c97, 0xe6635c01, 0x6b6b51f4, 0x1c6c6162, 0x856530d8, 0xf262004e,
     0x6c0695ed, 0x1b01a57b, 0x8208f4c1, 0xf50fc457, 0x65b0d9c6, 0x12b7e950,
     0x8bbeb8ea, 0xfcb9887c, 0x62dd1ddf, 0x15da2d49, 0x8cd37cf3, 0xfbd44c65,
     0x4db26158, 0x3ab551ce, 0xa3bc0074, 0xd4bb30e2, 0x4adfa541, 0x3dd895d7,
     0xa4d1c46d, 0xd3d6f4fb, 0x4369e96a, 0x346ed9fc, 0xad678846, 0xda60b8d0,
     0x44042d73, 0x33031de5, 0xaa0a4c5f, 0xdd0d7cc9, 0x5005713c, 0x270241aa,
     0xbe0b1010, 0xc90c2086, 0x5768b525, 0x206f85b3, 0xb966d409, 0xce61e49f,
     0x5edef90e, 0x29d9c998, 0xb0d09822, 0xc7d7a8b4, 0x59b33d17, 0x2eb40d81,
     0xb7bd5c3b, 0xc0ba6cad, 0xedb88320, 0x9abfb3b6, 0x03b6e20c, 0x74b1d29a,
     0xead54739, 0x9dd277af, 0x04db2615, 0x73dc1683, 0xe3630b12, 0x94643b84,
     0x0d6d6a3e, 0x7a6a5aa8, 0xe40ecf0b, 0x9309ff9d, 0x0a00ae27, 0x7d079eb1,
     0xf00f9344, 0x8708a3d2, 0x1e01f268, 0x6906c2fe, 0xf762575d, 0x806567cb,
     0x196c3671, 0x6e6b06e7, 0xfed41b76, 0x89d32be0, 0x10da7a5a, 0x67dd4acc,
     0xf9b9df6f, 0x8ebeeff9, 0x17b7be43, 0x60b08ed5, 0xd6d6a3e8, 0xa1d1937e,
     0x38d8c2c4, 0x4fdff252, 0xd1bb67f1, 0xa6bc5767, 0x3fb506dd, 0x48b2364b,
     0xd80d2bda, 0xaf0a1b4c, 0x36034af6, 0x41047a60, 0xdf60efc3, 0xa867df55,
     0x316e8eef, 0x4669be79, 0xcb61b38c, 0xbc66831a, 0x256fd2a0, 0x5268e236,
     0xcc0c7795, 0xbb0b4703, 0x220216b9, 0x5505262f, 0xc5ba3bbe, 0xb2bd0b28,
     0x2bb45a92, 0x5cb36a04, 0xc2d7ffa7, 0xb5d0cf31, 0x2cd99e8b, 0x5bdeae1d,
     0x9b64c2b0, 0xec63f226, 0x756aa39c, 0x026d930a, 0x9c0906a9, 0xeb0e363f,
     0x72076785, 0x05005713, 0x95bf4a82, 0xe2b87a14, 0x7bb12bae, 0x0cb61b38,
     0x92d28e9b, 0xe5d5be0d, 0x7cdcefb7, 0x0bdbdf21, 0x86d3d2d4, 0xf1d4e242,
     0x68ddb3f8, 0x1fda836e, 0x81be16cd, 0xf6b9265b, 0x6fb077e1, 0x18b74777,
     0x88085ae6, 0xff0f6a70, 0x66063bca, 0x11010b5c, 0x8f659eff, 0xf862ae69,
     0x616bffd3, 0x166ccf45, 0xa00ae278, 0xd70dd2ee, 0x4e048354, 0x3903b3c2,
     0xa7672661, 0xd06016f7, 0x4969474d, 0x3e6e77db, 0xaed16a4a, 0xd9d65adc,
     0x40df0b66, 0x37d83bf0, 0xa9bcae53, 0xdebb9ec5, 0x47b2cf7f, 0x30b5ffe9,
     0xbdbdf21c, 0xcabac28a, 0x53b39330, 0x24b4a3a6, 0xbad03605, 0xcdd70693,
     0x54de5729, 0x23d967bf, 0xb3667a2e, 0xc4614ab8, 0x5d681b02, 0x2a6f2b94,
     0xb40bbe37, 0xc30c8ea1, 0x5a05df1b, 0x2d02ef8d]"

definition crc32_step :: "u8 \<Rightarrow> u32 \<Rightarrow> u32" where
  "crc32_step b crc = crc32_tab ! unat ((crc XOR ucast b) AND 0xff) XOR drop_bit 8 crc"

definition crc32 :: "u32 \<Rightarrow> u8 list \<Rightarrow> u32" where
  "crc32 crc buf = fold crc32_step buf (NOT crc) XOR NOT 0"

subsection \<open>The shift register\<close>

definition crc_bit :: "u32 \<Rightarrow> u32" where
  "crc_bit c = (if bit c 0 then drop_bit 1 c XOR 0xedb88320 else drop_bit 1 c)"

definition crc_byte :: "u8 \<Rightarrow> u32 \<Rightarrow> u32" where
  "crc_byte b c = (crc_bit ^^ 8) (c XOR ucast b)"

definition crc32_ref :: "u8 list \<Rightarrow> u32" where
  "crc32_ref bs = NOT (fold crc_byte bs (NOT 0))"


definition crc8 :: "u32 \<Rightarrow> u32" where "crc8 c = (crc_bit ^^ 8) c"

lemma crc_bit_xor: "crc_bit (a XOR b) = crc_bit a XOR crc_bit b"
  by (rule bit_word_eqI) (auto simp: crc_bit_def bit_simps)

lemma crc_pow_xor: "(crc_bit ^^ n) (a XOR b) = (crc_bit ^^ n) a XOR (crc_bit ^^ n) b"
  by (induction n) (simp_all add: crc_bit_xor)

lemma crc8_pows:
  "map (\<lambda>k. crc8 (push_bit k 1)) [0..<8] = map (\<lambda>k. crc32_tab ! (2 ^ k)) [0..<8]"
  by code_simp

primrec crc_rows :: "nat \<Rightarrow> u32 list" where
  "crc_rows 0 = [0]"
| "crc_rows (Suc k) = crc_rows k @ map (\<lambda>t. crc32_tab ! (2 ^ k) XOR t) (crc_rows k)"

lemma rows: "crc_rows 8 = crc32_tab"
  by (simp add: crc32_tab_def eval_nat_numeral)

lemma upt_double: "[0..<2 ^ Suc k] = [0..<2 ^ k] @ map (\<lambda>i. 2 ^ k + i) [0..<2 ^ k]"
proof -
  have "[0..<2 ^ Suc k] = [0..<2 ^ k] @ [2 ^ k..<2 ^ k + 2 ^ k]"
    by (metis add_0 mult_2 power_Suc upt_add_eq_append zero_le)
  then show ?thesis by (simp only: map_add_upt [symmetric] add.commute)
qed

lemma crc_pow_0: "(crc_bit ^^ n) 0 = 0"
  by (induction n) (simp_all add: crc_bit_def)

lemma of_nat_top_bit:
  assumes "i < 2 ^ k" "k < 8"
  shows "(of_nat (2 ^ k + i) :: u32) = push_bit k 1 XOR of_nat i"
proof -
  have "push_bit k 1 AND (of_nat i :: u32) = 0"
    using assms(1) by (intro bit_word_eqI) (auto simp: bit_simps bit_nat_def)
  then have "push_bit k 1 XOR (of_nat i :: u32) = push_bit k 1 + of_nat i"
    by (metis disjunctive_add_eq_xor)
  then show ?thesis by (simp add: push_bit_eq_mult)
qed

lemma crc_rows_map: "k \<le> 8 \<Longrightarrow> crc_rows k = map (\<lambda>i. crc8 (of_nat i)) [0..<2 ^ k]"
proof (induction k)
  case 0
  then show ?case by (simp add: crc8_def crc_pow_0)
next
  case (Suc k)
  then have k: "k < 8" by simp
  then have t: "crc8 (push_bit k 1) = crc32_tab ! (2 ^ k)"
    using arg_cong [OF crc8_pows, of "\<lambda>xs. xs ! k"] by simp
  have "crc32_tab ! (2 ^ k) XOR crc8 (of_nat i) = crc8 (of_nat (2 ^ k + i))" if "i < 2 ^ k" for i
    unfolding of_nat_top_bit [OF that k] t [symmetric] by (simp add: crc8_def crc_pow_xor)
  with Suc show ?case by (auto simp: upt_double comp_def simp del: of_nat_add upt_Suc power_Suc)
qed

lemma crc32_tab_entry:
  assumes "i < 256"
  shows "crc32_tab ! i = crc8 (of_nat i)"
proof -
  have "crc32_tab = map (\<lambda>i. crc8 (of_nat i)) [0..<256]" using crc_rows_map [of 8] by (simp add: rows)
  then have "crc32_tab ! i = map (\<lambda>i. crc8 (of_nat i)) [0..<256] ! i" by (rule arg_cong)
  then show ?thesis using assms by simp
qed

lemma crc_shift: "(\<And>i. i < n \<Longrightarrow> \<not> bit x i) \<Longrightarrow> (crc_bit ^^ n) x = drop_bit n x"
  by (induction n) (simp_all add: crc_bit_def bit_simps)

lemma crc32_step_ref: "crc32_step b c = crc_byte b c"
proof -
  let ?x = "c XOR ucast b" and ?hi = "push_bit 8 (drop_bit 8 (c XOR ucast b))"
  have x: "?x = ?hi XOR (?x AND 0xff)"
    by (rule bit_word_eqI) (auto simp: mask_simps bit_simps)
  have d: "drop_bit 8 ?hi = drop_bit 8 c"
    by (rule bit_word_eqI) (auto simp: bit_simps dest: bit_imp_le_length)
  have "unat (?x AND 0xff) < 256"
    using word_and_le1 [of ?x 255] by (simp add: word_le_nat_alt)
  then have t: "crc32_tab ! unat (?x AND 0xff) = crc8 (?x AND 0xff)"
    by (simp add: crc32_tab_entry)
  have "crc_byte b c = (crc_bit ^^ 8) ?hi XOR crc8 (?x AND 0xff)"
    by (metis crc8_def crc_byte_def crc_pow_xor x)
  also have "(crc_bit ^^ 8) ?hi = drop_bit 8 c"
    using crc_shift [of 8 ?hi] d by (simp add: bit_simps)
  finally show ?thesis by (simp add: crc32_step_def t xor.commute)
qed

text \<open>Nothing is lost in a step: a single altered byte always changes the checksum.\<close>

lemma xor_cancel: "(a XOR b = a XOR c) = (b = (c :: 'a :: len word))" "(b XOR a = c XOR a) = (b = (c :: 'a :: len word))"
  by (metis xor.left_neutral xor.assoc xor_self_eq xor.commute)+

lemma crc_bit_inj: "crc_bit a = crc_bit b \<Longrightarrow> a = b"
proof (rule bit_word_eqI)
  fix n assume e: "crc_bit a = crc_bit b" and n: "n < LENGTH(32)"
  have m: "bit (0xedb88320 :: u32) 31" by simp
  have top: "bit (crc_bit c) 31 = bit c 0" for c
    using m by (auto simp: crc_bit_def bit_simps dest: bit_imp_le_length)
  have z: "bit a 0 = bit b 0" using top [of a] top [of b] e by simp
  have "drop_bit 1 a = drop_bit 1 b"
  proof (cases "bit b 0")
    case True
    then have "drop_bit 1 a XOR 0xedb88320 = drop_bit 1 b XOR (0xedb88320 :: u32)"
      using e z by (simp add: crc_bit_def)
    then show ?thesis by (simp only: xor_cancel)
  qed (use e z in \<open>simp add: crc_bit_def\<close>)
  then have s: "bit (drop_bit 1 a) k = bit (drop_bit 1 b) k" for k by simp
  show "bit a n = bit b n"
    using z s [of "n - 1"] by (cases n) (simp_all add: bit_simps)
qed

lemma crc8_inj: "(crc_bit ^^ n) a = (crc_bit ^^ n) b \<Longrightarrow> a = b"
  by (induction n) (auto dest: crc_bit_inj)

lemma crc32_step_inj: "crc32_step x c = crc32_step y d \<Longrightarrow> c XOR ucast x = d XOR ucast y"
  by (simp add: crc32_step_ref crc_byte_def crc8_inj)

lemma crc32_step_cancel: "crc32_step x c = crc32_step x d \<longleftrightarrow> c = d"
  using crc32_step_inj [of x c x d] by (auto simp: xor_cancel)

lemma fold_crc_inj: "fold crc32_step bs c = fold crc32_step bs d \<Longrightarrow> c = d"
proof (induction bs arbitrary: c d)
  case (Cons b bs)
  then have "crc32_step b c = crc32_step b d" by simp
  then show ?case by (simp add: crc32_step_cancel)
qed simp

lemma crc32_one_byte:
  assumes "i < length bs" "b \<noteq> bs ! i"
  shows "crc32 c (bs[i := b]) \<noteq> crc32 c bs"
proof
  let ?c = "fold crc32_step (take i bs) (NOT c)"
  have bs: "fold crc32_step bs (NOT c) = fold crc32_step (drop (Suc i) bs) (crc32_step (bs ! i) ?c)"
    by (subst id_take_nth_drop [OF assms(1)]) (simp only: fold_append fold_simps o_apply)
  have upd: "fold crc32_step (bs[i := b]) (NOT c) = fold crc32_step (drop (Suc i) bs) (crc32_step b ?c)"
    using assms(1) by (simp add: upd_conv_take_nth_drop)
  assume "crc32 c (bs[i := b]) = crc32 c bs"
  then have "fold crc32_step (bs[i := b]) (NOT c) = fold crc32_step bs (NOT c)"
    unfolding crc32_def by (simp only: xor_cancel)
  then have "crc32_step b ?c = crc32_step (bs ! i) ?c" using fold_crc_inj unfolding bs upd by blast
  then have "?c XOR ucast b = ?c XOR ucast (bs ! i)" by (rule crc32_step_inj)
  then have "(ucast b :: u32) = ucast (bs ! i)" by (simp only: xor_cancel)
  then have "unat (ucast b :: u32) = unat (ucast (bs ! i) :: u32)" by (rule arg_cong)
  moreover have "unat (ucast x :: u32) = unat x" for x :: u8
    using unsigned_less [of x] by (simp add: unsigned_ucast_eq take_bit_nat_eq_self)
  ultimately show False using assms(2) by (simp add: word_eq_iff_unsigned [symmetric])
qed
text \<open>C20: The table-driven CRC is the CRC of the shift register of the polynomial, bit by bit, and it
  can be computed in pieces.\<close>

theorem crc32_shift_register:
  "crc32 0 bs = crc32_ref bs \<and> crc32 (crc32 0 bs) cs = crc32 0 (bs @ cs)"
proof -
  have "crc32_step = crc_byte" using crc32_step_ref by blast
  then show ?thesis by (simp add: crc32_def crc32_ref_def)
qed

end
