(* ===== verification/StunMsg.thy ===== *)
theory StunMsg
  imports Stun Crc32
begin

text \<open>
  STUN messages: \<^verbatim>\<open>src/stun/msg.c\<close>. A message is decoded from a buffer into its header and the list of
  its attributes; it is encoded behind room for the header, which is filled in afterwards, and again when the
  message integrity and the fingerprint are added. HMAC-SHA1 (OpenSSL's, as the port is built) is a parameter;
  the CRC is the one of \<open>Crc32\<close>. A loop that does not end is \<open>None\<close>.
\<close>

subsection \<open>Decoding\<close>

definition MI_SIZE :: nat where "MI_SIZE = 24"
definition FP_SIZE :: nat where "FP_SIZE = 8"

text \<open>The reference to the buffer is left out: the buffer is passed beside the message.\<close>

record stun_msg =
  sm_hdr :: stun_hdr
  sm_attrl :: "stun_attr list"
  sm_start :: nat

definition sizeof_stun_msg :: nat where "sizeof_stun_msg = 36"

partial_function (option) attr_loop ::
  "mem_env \<Rightarrow> u8 list \<Rightarrow> nat \<Rightarrow> stun_unknown_attr option \<Rightarrow> stun_attr list \<Rightarrow> mbuf
   \<Rightarrow> (err \<times> stun_attr list \<times> stun_unknown_attr option \<times> mbuf) option" where
  "attr_loop E tid extra ua attrl mb =
     (if sz_sub (mbuf_get_left mb) extra \<ge> 4
      then (case run_state (stun_attr_decode E (Some tid) ua) mb of ((r, ua'), mb') \<Rightarrow>
        (case r of
           Inl err \<Rightarrow> Some (err, attrl, ua', mb')
         | Inr a \<Rightarrow> attr_loop E tid extra ua' (attrl @ [a]) mb'))
      else Some (0, attrl, ua, mb))"

text \<open>\<open>h0\<close> is what the header variable holds before.\<close>

definition stun_msg_decode ::
  "mem_env \<Rightarrow> stun_hdr \<Rightarrow> stun_unknown_attr option \<Rightarrow> mbuf
   \<Rightarrow> ((err + stun_msg) \<times> stun_unknown_attr option \<times> mbuf) option" where
  "stun_msg_decode E h0 ua mb = (let start = mb_pos mb in
     case run_state (stun_hdr_decode h0) mb of ((err, hdr), mb') \<Rightarrow>
       if err \<noteq> 0 then Some (Inl err, ua, mb'\<lparr>mb_pos := start\<rparr>)
       else if \<not> can_alloc E sizeof_stun_msg then Some (Inl ENOMEM, ua, mb'\<lparr>mb_pos := start\<rparr>)
       else (let ua' = map_option (\<lambda>u. u\<lparr>ua_typec := 0\<rparr>) ua;
                 extra = sz_sub (mbuf_get_left mb') (unat (sh_len hdr))
             in case attr_loop E (sh_tid hdr) extra ua' [] mb' of
               None \<Rightarrow> None
             | Some (err, attrl, ua'', mb'') \<Rightarrow>
                 Some (if err \<noteq> 0 then Inl err
                       else Inr \<lparr>sm_hdr = hdr, sm_attrl = attrl, sm_start = start\<rparr>,
                       ua'', mb''\<lparr>mb_pos := start\<rparr>)))"

definition stun_msg_type :: "stun_msg \<Rightarrow> u16" where
  "stun_msg_type msg = sh_type (sm_hdr msg)"

definition stun_msg_class :: "stun_msg \<Rightarrow> u16" where
  "stun_msg_class msg = STUN_CLASS (stun_msg_type msg)"

definition stun_msg_method :: "stun_msg \<Rightarrow> u16" where
  "stun_msg_method msg = STUN_METHOD (stun_msg_type msg)"

definition stun_msg_tid :: "stun_msg \<Rightarrow> u8 list" where
  "stun_msg_tid msg = sh_tid (sm_hdr msg)"

definition stun_msg_mcookie :: "stun_msg \<Rightarrow> bool" where
  "stun_msg_mcookie msg \<longleftrightarrow> STUN_MAGIC_COOKIE = sh_cookie (sm_hdr msg)"

definition stun_msg_attr :: "stun_msg \<Rightarrow> u16 \<Rightarrow> stun_attr option" where
  "stun_msg_attr msg type = find (\<lambda>a. at_type a = type) (sm_attrl msg)"

text \<open>The handler may change its own state.\<close>

fun attr_apply_loop ::
  "(stun_attr \<Rightarrow> 's \<Rightarrow> bool \<times> 's) option \<Rightarrow> stun_attr list \<Rightarrow> 's \<Rightarrow> stun_attr option \<times> 's" where
  "attr_apply_loop h [] s = (None, s)"
| "attr_apply_loop h (a # al) s = (case h of
     None \<Rightarrow> attr_apply_loop h al s
   | Some f \<Rightarrow> (case f a s of (stop, s') \<Rightarrow> if stop then (Some a, s') else attr_apply_loop h al s'))"

definition stun_msg_attr_apply ::
  "stun_msg \<Rightarrow> (stun_attr \<Rightarrow> 's \<Rightarrow> bool \<times> 's) option \<Rightarrow> 's \<Rightarrow> stun_attr option \<times> 's" where
  "stun_msg_attr_apply msg h s = attr_apply_loop h (sm_attrl msg) s"

subsection \<open>Encoding\<close>

definition stun_fingerprint :: "u8 list \<Rightarrow> u32" where
  "stun_fingerprint buf = crc32 0 buf XOR 0x5354554e"

type_synonym hmac_fun = "u8 list \<Rightarrow> u8 list \<Rightarrow> u8 list"

text \<open>The attributes are type and value, \<open>None\<close> for a \<^verbatim>\<open>NULL\<close> value.\<close>

fun attrs_encode ::
  "mem_env \<Rightarrow> u8 list \<Rightarrow> u8 \<Rightarrow> (u16 \<times> stun_val option) list \<Rightarrow> err \<Rightarrow> mbuf \<Rightarrow> (err \<times> mbuf) option"
where
  "attrs_encode E tid padding [] err mb = Some (err, mb)"
| "attrs_encode E tid padding ((type, v) # as) err mb =
     (if v = None then attrs_encode E tid padding as err mb
      else case stun_attr_encode E type v (Some tid) padding mb of
        None \<Rightarrow> None
      | Some (e, mb') \<Rightarrow> attrs_encode E tid padding as (err OR e) mb')"

text \<open>The bytes from the position on, \<open>n\<close> of them, as the digest functions read them.\<close>

definition mbuf_look :: "nat \<Rightarrow> mbuf \<Rightarrow> u8 list \<times> mbuf" where
  "mbuf_look n mb = run_state (mem_peek (mb_pos mb) n) mb"

text \<open>First part of \<^verbatim>\<open>stun_msg_vencode\<close>: the error code, when there is one, and the attributes.\<close>

definition stun_msg_attrs ::
  "mem_env \<Rightarrow> u8 list \<Rightarrow> stun_val option \<Rightarrow> u8 \<Rightarrow> (u16 \<times> stun_val option) list \<Rightarrow> mbuf \<Rightarrow> (err \<times> mbuf) option"
where
  "stun_msg_attrs E tid ec padding attrs mb =
     (if ec = None then attrs_encode E tid padding attrs 0 mb
      else case stun_attr_encode E STUN_ATTR_ERR_CODE ec None padding mb of
        None \<Rightarrow> None
      | Some (e, mb') \<Rightarrow> attrs_encode E tid padding attrs e mb')"

text \<open>Second part: the attributes behind room for the header, and the header; the result has the header, too.\<close>

definition stun_msg_head ::
  "mem_env \<Rightarrow> u16 \<Rightarrow> u8 \<Rightarrow> u8 list \<Rightarrow> stun_val option \<Rightarrow> bool \<Rightarrow> u8 \<Rightarrow> (u16 \<times> stun_val option) list
   \<Rightarrow> mbuf \<Rightarrow> (err \<times> stun_hdr \<times> mbuf) option" where
  "stun_msg_head E met cls tid ec key padding attrs mb = (let
     start = mb_pos mb;
     mb = mb\<lparr>mb_pos := sz_add (mb_pos mb) STUN_HEADER_SIZE\<rparr>;
     hdr = \<lparr>sh_type = STUN_TYPE met cls, sh_len = 0, sh_cookie = STUN_MAGIC_COOKIE,
            sh_tid = take STUN_TID_SIZE tid\<rparr>;
     mi = (if key then MI_SIZE else 0)
   in case stun_msg_attrs E (sh_tid hdr) ec padding attrs mb of
        None \<Rightarrow> None
      | Some (e1, mb) \<Rightarrow> (let
          hdr = hdr\<lparr>sh_len :=
            of_nat (sz_add (sz_sub (sz_sub (mb_pos mb) start) STUN_HEADER_SIZE) mi)\<rparr>
        in case run_state (stun_hdr_encode E hdr) (mb\<lparr>mb_pos := start\<rparr>) of (e2, mb) \<Rightarrow>
          Some (e1 OR e2, hdr,
            mb\<lparr>mb_pos := sz_add (mb_pos mb) (sz_sub (unat (sh_len hdr)) mi)\<rparr>)))"

text \<open>Third part: the message integrity.\<close>

definition stun_msg_mi ::
  "mem_env \<Rightarrow> hmac_fun \<Rightarrow> u8 list \<Rightarrow> u8 \<Rightarrow> nat \<Rightarrow> stun_hdr \<Rightarrow> mbuf \<Rightarrow> (err \<times> mbuf) option" where
  "stun_msg_mi E hmac key padding start hdr mb = (let
     mb = mb\<lparr>mb_pos := start\<rparr>
   in case mbuf_look (mbuf_get_left mb) mb of (bytes, mb) \<Rightarrow>
     stun_attr_encode E STUN_ATTR_MSG_INTEGRITY (Some (MiV (hmac key bytes))) None padding
       (mb\<lparr>mb_pos := sz_add (mb_pos mb)
          (sz_sub (sz_add STUN_HEADER_SIZE (unat (sh_len hdr))) MI_SIZE)\<rparr>))"

text \<open>Fourth part: the fingerprint, over the message with its final length in the header.\<close>

definition stun_msg_fp ::
  "mem_env \<Rightarrow> u8 \<Rightarrow> nat \<Rightarrow> stun_hdr \<Rightarrow> mbuf \<Rightarrow> (err \<times> mbuf) option" where
  "stun_msg_fp E padding start hdr mb = (let
     hdr = hdr\<lparr>sh_len :=
       of_nat (sz_add (sz_sub (sz_sub (mb_pos mb) start) STUN_HEADER_SIZE) FP_SIZE)\<rparr>
   in case run_state (stun_hdr_encode E hdr) (mb\<lparr>mb_pos := start\<rparr>) of (e1, mb) \<Rightarrow> (let
     mb = mb\<lparr>mb_pos := start\<rparr>
   in case mbuf_look (mbuf_get_left mb) mb of (bytes, mb) \<Rightarrow>
     map_option (\<lambda>(e2, mb). (e1 OR e2, mb))
       (stun_attr_encode E STUN_ATTR_FINGERPRINT (Some (U32V (stun_fingerprint bytes))) None padding
         (mb\<lparr>mb_pos := sz_add (mb_pos mb)
            (sz_sub (sz_add STUN_HEADER_SIZE (unat (sh_len hdr))) FP_SIZE)\<rparr>))))"

definition stun_msg_vencode ::
  "mem_env \<Rightarrow> hmac_fun \<Rightarrow> u16 \<Rightarrow> u8 \<Rightarrow> u8 list option \<Rightarrow> stun_val option \<Rightarrow> u8 list option \<Rightarrow> bool \<Rightarrow> u8
   \<Rightarrow> (u16 \<times> stun_val option) list \<Rightarrow> mbuf \<Rightarrow> (err \<times> mbuf) option" where
  "stun_msg_vencode E hmac met cls tid ec key fp padding attrs mb = (case tid of
     None \<Rightarrow> Some (EINVAL, mb)
   | Some tid \<Rightarrow> (case stun_msg_head E met cls tid ec (key \<noteq> None) padding attrs mb of
       None \<Rightarrow> None
     | Some (e1, hdr, mb1) \<Rightarrow>
         (case (case key of
                  None \<Rightarrow> Some (0, mb1)
                | Some k \<Rightarrow> stun_msg_mi E hmac k padding (mb_pos mb) hdr mb1) of
            None \<Rightarrow> None
          | Some (e2, mb2) \<Rightarrow>
              (if fp then map_option (\<lambda>(e3, mb3). (e1 OR e2 OR e3, mb3))
                            (stun_msg_fp E padding (mb_pos mb) hdr mb2)
               else Some (e1 OR e2, mb2)))))"

subsection \<open>Checks\<close>

text \<open>
  \<^verbatim>\<open>stun_msg_chk_mi\<close>: when there is a fingerprint, the length in the header is rewritten to what it was when
  the integrity was computed, and restored after the digest.
\<close>

definition rewrite_hdr :: "mem_env \<Rightarrow> stun_hdr \<Rightarrow> mbuf \<Rightarrow> mbuf" where
  "rewrite_hdr E hdr mb = (let mb' = snd (run_state (stun_hdr_encode E hdr) mb)
     in mb'\<lparr>mb_pos := sz_sub (mb_pos mb') STUN_HEADER_SIZE\<rparr>)"

definition stun_msg_chk_mi :: "mem_env \<Rightarrow> hmac_fun \<Rightarrow> stun_msg \<Rightarrow> u8 list \<Rightarrow> mbuf \<Rightarrow> err \<times> mbuf" where
  "stun_msg_chk_mi E hmac msg key mb = (case stun_msg_attr msg STUN_ATTR_MSG_INTEGRITY of
     None \<Rightarrow> (EPROTO, mb)
   | Some mi \<Rightarrow> (let
       mb = mb\<lparr>mb_pos := sm_start msg\<rparr>;
       fp = stun_msg_attr msg STUN_ATTR_FINGERPRINT;
       hdr = sm_hdr msg;
       hdr1 = (if fp \<noteq> None then hdr\<lparr>sh_len := sh_len hdr - of_nat FP_SIZE\<rparr> else hdr);
       mb = (if fp \<noteq> None then rewrite_hdr E hdr1 mb else mb)
     in case mbuf_look (sz_sub (sz_add STUN_HEADER_SIZE (unat (sh_len hdr1))) MI_SIZE) mb of (bytes, mb) \<Rightarrow>
       (let mb = (if fp \<noteq> None then rewrite_hdr E (hdr1\<lparr>sh_len := sh_len hdr1 + of_nat FP_SIZE\<rparr>) mb else mb)
        in (if at_v mi \<noteq> MiV (hmac key bytes) then EBADMSG else 0, mb))))"

definition stun_msg_chk_fingerprint :: "stun_msg \<Rightarrow> mbuf \<Rightarrow> err \<times> mbuf" where
  "stun_msg_chk_fingerprint msg mb = (case stun_msg_attr msg STUN_ATTR_FINGERPRINT of
     None \<Rightarrow> (EPROTO, mb)
   | Some fp \<Rightarrow> (let mb = mb\<lparr>mb_pos := sm_start msg\<rparr>
     in case mbuf_look (sz_sub (sz_add STUN_HEADER_SIZE (unat (sh_len (sm_hdr msg)))) FP_SIZE) mb of
       (bytes, mb) \<Rightarrow> (if at_v fp \<noteq> U32V (stun_fingerprint bytes) then EBADMSG else 0, mb)))"

subsection \<open>Decoding ends and stays inside the buffer\<close>

lemma sz_sub_0 [simp]: "a < size_mod \<Longrightarrow> sz_sub a 0 = a" "a < size_mod \<Longrightarrow> sz_sub a a = 0"
  by (simp_all add: sz_sub_small)

lemma attr_loop_total:
  "mbuf_ok mb \<Longrightarrow> \<exists>err al ua' mb'. attr_loop E tid extra ua attrl mb = Some (err, attrl @ al, ua', mb') \<and>
     reads mb mb' \<and> mb_pos mb + 4 * length al \<le> mb_pos mb'"
proof (induction "length (mbuf_rest mb)" arbitrary: mb ua attrl rule: less_induct)
  case less
  show ?case
  proof (cases "sz_sub (mbuf_get_left mb) extra \<ge> 4")
    case False
    then show ?thesis by (subst attr_loop.simps) auto
  next
    case True
    obtain r ua' t where d: "run_state (stun_attr_decode E (Some tid) ua) mb = ((r, ua'), t)"
      by (metis prod.collapse)
    note rd = stun_attr_decode_reads [OF less.prems d]
    show ?thesis
    proof (cases r)
      case (Inl e)
      then show ?thesis using True d rd(1) reads_frame [OF rd(1)]
        by (subst attr_loop.simps) (auto intro!: exI [of _ "[]"])
    next
      case (Inr a)
      then have p: "mb_pos mb + 4 \<le> mb_pos t" using rd(2) by blast
      have ok: "mbuf_ok t" using reads_ok [OF less.prems rd(1)] .
      have "length (mbuf_rest t) < length (mbuf_rest mb)"
        using ok less.prems p reads_frame [OF rd(1)]
        by (simp add: length_mbuf_rest mbuf_ok_def) linarith
      from less.hyps [OF this ok, of ua' "attrl @ [a]"] obtain err al ua2 u where
        u: "attr_loop E tid extra ua' (attrl @ [a]) t = Some (err, (attrl @ [a]) @ al, ua2, u)"
          "reads t u" "mb_pos t + 4 * length al \<le> mb_pos u"
        by blast
      have "attr_loop E tid extra ua attrl mb = Some (err, attrl @ (a # al), ua2, u)"
        using True d Inr u(1) by (subst attr_loop.simps) simp
      moreover have "mb_pos mb + 4 * length (a # al) \<le> mb_pos u" using u(3) p by simp
      ultimately show ?thesis using reads_trans [OF rd(1) u(2)] by blast
    qed
  qed
qed

lemma reads_back: "reads s t \<Longrightarrow> t\<lparr>mb_pos := mb_pos s\<rparr> = s"
  by (auto simp: reads_def adv_def)

lemma stun_hdr_decode_min:
  assumes "mbuf_ok mb" "run_state (stun_hdr_decode h0) mb = ((0, h), t)"
  shows "t = adv 20 mb" "unat (sh_len h) \<le> length (mbuf_rest t)"
proof -
  have l: "20 \<le> length (mbuf_rest mb)"
    using assms by (simp add: stun_hdr_decode_def mb_simps STUN_HEADER_SIZE_def split: if_splits)
  then have n: "2 \<le> length (mbuf_rest mb)" "2 \<le> length (mbuf_rest mb) - 2" "4 \<le> length (mbuf_rest mb) - 4"
    "12 \<le> length (mbuf_rest mb) - 8"
    by simp_all
  then have "mbuf_ok (adv 2 mb)" "mbuf_ok (adv 4 mb)" "mbuf_ok (adv 8 mb)" "mbuf_ok (adv 20 mb)"
    using assms(1) l by (simp_all add: mb_simps)
  then show "t = adv 20 mb" "unat (sh_len h) \<le> length (mbuf_rest t)"
    using assms n l
    by (auto simp: stun_hdr_decode_def mb_simps STUN_HEADER_SIZE_def STUN_TID_SIZE_def Let_def split: if_splits)
qed

lemma stun_hdr_decode_tid:
  assumes "mbuf_ok mb" "run_state (stun_hdr_decode h0) mb = ((0, h), t)"
  shows "length (sh_tid h) = 12"
proof -
  have l: "20 \<le> length (mbuf_rest mb)"
    using assms by (simp add: stun_hdr_decode_def mb_simps STUN_HEADER_SIZE_def split: if_splits)
  then have n: "2 \<le> length (mbuf_rest mb)" "2 \<le> length (mbuf_rest mb) - 2" "4 \<le> length (mbuf_rest mb) - 4"
    "12 \<le> length (mbuf_rest mb) - 8"
    by simp_all
  then have "mbuf_ok (adv 2 mb)" "mbuf_ok (adv 4 mb)" "mbuf_ok (adv 8 mb)" "mbuf_ok (adv 20 mb)"
    using assms(1) l by (simp_all add: mb_simps)
  then show ?thesis using assms n l
    by (auto simp: stun_hdr_decode_def mb_simps STUN_HEADER_SIZE_def STUN_TID_SIZE_def Let_def split: if_splits)
qed

lemma stun_msg_decode_total:
  assumes "mbuf_ok mb"
  shows "\<exists>r ua'. stun_msg_decode E h0 ua mb = Some (r, ua', mb) \<and>
    (\<forall>msg. r = Inr msg \<longrightarrow> sm_start msg = mb_pos mb \<and>
       20 + 4 * length (sm_attrl msg) \<le> length (mbuf_rest mb))"
proof -
  obtain e h t where d: "run_state (stun_hdr_decode h0) mb = ((e, h), t)" by (metis prod.collapse)
  have rt: "reads mb t" "mbuf_ok t" using readerD [OF reader_stun_hdr assms d] by auto
  have unmoved: "t\<lparr>mb_pos := mb_pos mb\<rparr> = mb" using rt(1) by (rule reads_back)
  show ?thesis
  proof (cases "e = 0 \<and> can_alloc E sizeof_stun_msg")
    case False
    then show ?thesis using d unmoved by (auto simp: stun_msg_decode_def Let_def)
  next
    case True
    let ?extra = "sz_sub (mbuf_get_left t) (unat (sh_len h))"
    obtain err al ua' u where l: "attr_loop E (sh_tid h) ?extra (map_option (\<lambda>u. u\<lparr>ua_typec := 0\<rparr>) ua) [] t =
        Some (err, al, ua', u)" "reads t u" "mb_pos t + 4 * length al \<le> mb_pos u"
      using attr_loop_total [OF rt(2), of E "sh_tid h" ?extra "map_option (\<lambda>u. u\<lparr>ua_typec := 0\<rparr>) ua" "[]"] by auto
    have "t = adv 20 mb" using stun_hdr_decode_min(1) [OF assms] d True by auto
    then have "mb_pos mb + 20 + 4 * length al \<le> mb_pos u" using l(3) by simp
    moreover have "mb_pos u \<le> mb_end mb"
      using reads_ok [OF rt(2) l(2)] reads_frame [OF reads_trans [OF rt(1) l(2)]] by (simp add: mbuf_ok_def)
    moreover have "u\<lparr>mb_pos := mb_pos mb\<rparr> = mb" using reads_trans [OF rt(1) l(2)] by (rule reads_back)
    ultimately show ?thesis using True d l(1) assms
      by (auto simp: stun_msg_decode_def Let_def length_mbuf_rest mbuf_ok_def)
  qed
qed

subsection \<open>What is encoded\<close>

fun enc_bytes :: "u8 list \<Rightarrow> u8 \<Rightarrow> (u16 \<times> stun_val option) list \<Rightarrow> u8 list" where
  "enc_bytes tid padding [] = []"
| "enc_bytes tid padding ((t, None) # as) = enc_bytes tid padding as"
| "enc_bytes tid padding ((t, Some v) # as) = attr_bytes t v (Some tid) padding @ enc_bytes tid padding as"

definition attrs_wf :: "u8 list \<Rightarrow> (u16 \<times> stun_val option) list \<Rightarrow> bool" where
  "attrs_wf tid as \<longleftrightarrow> (\<forall>(t, v) \<in> set as. \<forall>x. v = Some x \<longrightarrow> val_wf t x (Some tid))"

lemma put_at_nil: "mbuf_wf mb \<Longrightarrow> put_at mb [] mb"
  by (simp add: put_at_def)

lemma put_at_append_mode:
  "mb_end mb \<le> mb_pos mb \<Longrightarrow> put_at mb xs t \<Longrightarrow> mb_end t \<le> mb_pos t"
  using put_atD(2,4) [of mb xs t] by simp

lemma attrs_encode_run:
  "alloc_total E \<Longrightarrow> attrs_wf tid as \<Longrightarrow> mbuf_wf mb \<Longrightarrow> mb_end mb \<le> mb_pos mb \<Longrightarrow>
   mb_pos mb + length (enc_bytes tid padding as) < size_mod \<Longrightarrow>
   \<exists>t. attrs_encode E tid padding as 0 mb = Some (0, t) \<and> put_at mb (enc_bytes tid padding as) t"
proof (induction tid padding as arbitrary: mb rule: enc_bytes.induct)
  case (1 tid padding)
  then show ?case by (simp add: put_at_nil)
next
  case (2 tid padding t as)
  then show ?case by (simp add: attrs_wf_def)
next
  case (3 tid padding t v as)
  let ?b = "attr_bytes t v (Some tid) padding"
  have "val_wf t v (Some tid)" "attrs_wf tid as" using "3.prems"(2) by (auto simp: attrs_wf_def)
  then obtain s where s: "stun_attr_encode E t (Some v) (Some tid) padding mb = Some (0, s)" "put_at mb ?b s"
    using stun_attr_encode_run [of E t v "Some tid" mb padding] "3.prems" by auto
  note d = put_atD [OF s(2)]
  obtain u where "attrs_encode E tid padding as 0 s = Some (0, u)" "put_at s (enc_bytes tid padding as) u"
    using "3.IH" [OF "3.prems"(1) \<open>attrs_wf tid as\<close> d(1) put_at_append_mode [OF "3.prems"(4) s(2)]] "3.prems"(5) d(2)
    by auto
  with s put_at_trans [OF "3.prems"(3) s(2)] show ?case by auto
qed

lemma attr_loop_run:
  "alloc_total E \<Longrightarrow> attrs_wf tid as \<Longrightarrow> mbuf_ok mb \<Longrightarrow> mbuf_rest mb = enc_bytes tid padding as @ r \<Longrightarrow>
   extra = length r \<Longrightarrow>
   \<exists>al. attr_loop E tid extra ua al0 mb = Some (0, al0 @ al, ua, adv (length (enc_bytes tid padding as)) mb) \<and>
     list_all2 (\<lambda>(t, v) a. at_type a = t \<and> val_agrees t (the v) (at_v a)) (filter (\<lambda>(t, v). v \<noteq> None) as) al"
proof (induction tid padding as arbitrary: mb al0 rule: enc_bytes.induct)
  case (1 tid padding)
  have "length r < size_mod" using mbuf_rest_less [OF "1.prems"(3)] "1.prems"(4) by simp
  then show ?case using 1 by (subst attr_loop.simps) (simp add: mb_simps)
next
  case (2 tid padding t as)
  then show ?case by (simp add: attrs_wf_def)
next
  case (3 tid padding t v as)
  let ?b = "attr_bytes t v (Some tid) padding"
  have wf: "val_wf t v (Some tid)" "attrs_wf tid as" using "3.prems"(2) by (auto simp: attrs_wf_def)
  have rest: "mbuf_rest mb = ?b @ enc_bytes tid padding as @ r" using "3.prems"(4) by simp
  obtain v' where v: "run_state (stun_attr_decode E (Some tid) ua) mb =
      ((Inr \<lparr>at_type = t, at_v = v'\<rparr>, ua), adv (length ?b) mb)" "val_agrees t v v'"
    using stun_attr_decode_run [OF "3.prems"(1) wf(1) "3.prems"(3) rest] by blast
  have ok: "mbuf_ok (adv (length ?b) mb)" using "3.prems"(3) rest by (intro mbuf_ok_adv) simp_all
  obtain al where al: "attr_loop E tid extra ua (al0 @ [\<lparr>at_type = t, at_v = v'\<rparr>]) (adv (length ?b) mb) =
      Some (0, (al0 @ [\<lparr>at_type = t, at_v = v'\<rparr>]) @ al, ua,
        adv (length (enc_bytes tid padding as)) (adv (length ?b) mb))"
    "list_all2 (\<lambda>(t, v) a. at_type a = t \<and> val_agrees t (the v) (at_v a)) (filter (\<lambda>(t, v). v \<noteq> None) as) al"
    using "3.IH" [OF "3.prems"(1) wf(2) ok _ "3.prems"(5)] rest by (auto simp del: append_assoc)
  have "mbuf_get_left mb = length ?b + length (enc_bytes tid padding as) + extra"
    using "3.prems"(3,5) rest by (simp add: mb_simps)
  moreover have "length ?b + length (enc_bytes tid padding as) + extra < size_mod"
    using mbuf_rest_less [OF "3.prems"(3)] rest "3.prems"(5) by simp
  ultimately have "sz_sub (mbuf_get_left mb) extra \<ge> 4"
    by (simp add: sz_sub_small length_attr_bytes)
  then have "attr_loop E tid extra ua al0 mb =
      attr_loop E tid extra ua (al0 @ [\<lparr>at_type = t, at_v = v'\<rparr>]) (adv (length ?b) mb)"
    using v(1) by (subst attr_loop.simps) simp
  with al v(2) show ?case by auto
qed

subsection \<open>Encoding a whole message\<close>

text \<open>The bytes of a message: with the attributes only, then with the integrity, then with the
  fingerprint.\<close>

definition msg_hdr :: "u16 \<Rightarrow> u8 \<Rightarrow> u8 list \<Rightarrow> nat \<Rightarrow> stun_hdr" where
  "msg_hdr met cls tid len = \<lparr>sh_type = STUN_TYPE met cls, sh_len = of_nat len,
     sh_cookie = STUN_MAGIC_COOKIE, sh_tid = tid\<rparr>"

definition all_attrs :: "stun_val option \<Rightarrow> (u16 \<times> stun_val option) list \<Rightarrow> (u16 \<times> stun_val option) list" where
  "all_attrs ec attrs = (if ec = None then attrs else (STUN_ATTR_ERR_CODE, ec) # attrs)"

definition mi_attr :: "u8 list \<Rightarrow> u16 \<times> stun_val option" where
  "mi_attr mi = (STUN_ATTR_MSG_INTEGRITY, Some (MiV mi))"

definition fp_attr :: "u32 \<Rightarrow> u16 \<times> stun_val option" where
  "fp_attr f = (STUN_ATTR_FINGERPRINT, Some (U32V f))"

definition with_mi :: "hmac_fun \<Rightarrow> u8 list \<Rightarrow> u8 list \<Rightarrow> u8 \<Rightarrow> u8 list \<Rightarrow> u8 list" where
  "with_mi hmac k tid padding m = m @ enc_bytes tid padding [mi_attr (hmac k m)]"

definition with_fp :: "stun_hdr \<Rightarrow> u8 list \<Rightarrow> u8 \<Rightarrow> u8 list \<Rightarrow> u8 list" where
  "with_fp hdr tid padding m = (let
     m' = stun_hdr_bytes (hdr\<lparr>sh_len := of_nat (length m - 20 + 8)\<rparr>) @ drop 20 m
   in m' @ enc_bytes tid padding [fp_attr (stun_fingerprint m')])"

lemma unat_of_nat16: "n < 65536 \<Longrightarrow> unat (of_nat n :: u16) = n"
  by (simp add: unat_of_nat)

lemma stun_attr_encode_tid:
  "attr_kind t \<noteq> KXorAddr \<Longrightarrow> stun_attr_encode E t v None p mb = stun_attr_encode E t v (Some tid) p mb"
  by (auto simp: stun_attr_encode_def stun_attr_body_def stun_attr_value_def split: attr_kind.split option.split)

lemma kinds [simp]: "attr_kind 8 = KMi" "attr_kind 9 = KErrCode" "attr_kind 0x8028 = KU32"
  by (simp_all add: attr_kind_def)

lemma val_wf_mi: "length mi = 20 \<Longrightarrow> val_wf 8 (MiV mi) tid"
  by (simp add: val_wf_def val_bytes_def)

lemma val_wf_fp: "val_wf 0x8028 (U32V f) tid"
  by (simp add: val_wf_def val_bytes_def)

lemma length_enc_mi: "length mi = 20 \<Longrightarrow> length (enc_bytes tid padding [mi_attr mi]) = 24"
  by (simp add: mi_attr_def length_attr_bytes val_bytes_def round4_def)

lemma length_enc_fp: "length (enc_bytes tid padding [fp_attr f]) = 8"
  by (simp add: fp_attr_def length_attr_bytes val_bytes_def round4_def)

lemma enc_bytes_append: "enc_bytes tid padding (as @ bs) = enc_bytes tid padding as @ enc_bytes tid padding bs"
  by (induction tid padding as rule: enc_bytes.induct) simp_all

lemma enc_bytes_mod4: "length (enc_bytes tid padding as) mod 4 = 0"
proof (induction tid padding as rule: enc_bytes.induct)
  case (3 tid padding t v as)
  have "(4 + round4 n) mod 4 = 0" for n using round4_bounds(3) [of n] by presburger
  moreover have "(a + b) mod 4 = 0" if "a mod 4 = 0" "b mod 4 = 0" for a b :: nat
    using that by presburger
  ultimately show ?case using 3 by (simp only: enc_bytes.simps length_append length_attr_bytes)
qed simp_all

lemma stun_msg_attrs_all:
  "stun_msg_attrs E tid ec padding attrs mb = attrs_encode E tid padding (all_attrs ec attrs) 0 mb"
  using stun_attr_encode_tid [of 9 E ec padding mb tid]
  by (auto simp: stun_msg_attrs_def all_attrs_def split: option.split)

lemma stun_msg_head_run:
  assumes E: "alloc_total E" and mb: "mbuf_wf mb" "mb_end mb \<le> mb_pos mb" and tid: "length tid = 12"
    and wf: "attrs_wf tid (all_attrs ec attrs)"
    and body: "body = enc_bytes tid padding (all_attrs ec attrs)"
    and room: "mb_pos mb + 20 + length body < size_mod" "length body + 24 < 65536"
    and n: "n = length body + (if key then 24 else 0)"
  shows "\<exists>t. stun_msg_head E met cls tid ec key padding attrs mb = Some (0, msg_hdr met cls tid n, t) \<and>
    put_at mb (stun_hdr_bytes (msg_hdr met cls tid n) @ body) t"
proof -
  let ?p = "mb_pos mb" and ?h = "msg_hdr met cls tid n"
  let ?mb = "mb\<lparr>mb_pos := ?p + 20\<rparr>"
  obtain u where u: "attrs_encode E tid padding (all_attrs ec attrs) 0 ?mb = Some (0, u)" "put_at ?mb body u"
    using attrs_encode_run [OF E wf, of ?mb padding] mb room body by (auto simp: mbuf_wf_set_pos)
  note d = put_atD [OF u(2)]
  have "mbuf_wf (u\<lparr>mb_pos := ?p\<rparr>)" using d(1) room(1) by (simp add: mbuf_wf_set_pos)
  then obtain t where t: "run_state (stun_hdr_encode E ?h) (u\<lparr>mb_pos := ?p\<rparr>) = (0, t)"
    "put_at (u\<lparr>mb_pos := ?p\<rparr>) (stun_hdr_bytes ?h) t"
    using putsD [OF puts_stun_hdr [OF E, of ?h], of "u\<lparr>mb_pos := ?p\<rparr>"] room(1) tid
    by (auto simp: msg_hdr_def)
  have "put_at mb (stun_hdr_bytes ?h @ body) (t\<lparr>mb_pos := mb_pos t + length body\<rparr>)"
    by (rule put_at_backfill [OF mb room(1) u(2) t(2)]) (simp add: msg_hdr_def tid)
  moreover have "sz_add (sz_sub (sz_sub (mb_pos u) ?p) 20) (if key then 24 else 0) = n"
    using d(2) room n by (simp add: sz_sub_small sz_add_small size_mod_def)
  moreover have "n < 65536" using n room(2) by simp
  then have "unat (of_nat n :: u16) = n" by (simp add: unat_of_nat)
  then have "sz_add (mb_pos t) (sz_sub (unat (sh_len ?h)) (if key then 24 else 0)) = mb_pos t + length body"
    using put_atD(2) [OF t(2)] n room tid by (simp add: msg_hdr_def sz_sub_small sz_add_small size_mod_def)
  moreover have "sz_add ?p 20 = ?p + 20" using room(1) by (simp add: sz_add_small)
  ultimately show ?thesis
    using u(1) t(1) tid
    by (cases key) (simp_all add: stun_msg_head_def STUN_HEADER_SIZE_def STUN_TID_SIZE_def MI_SIZE_def Let_def msg_hdr_def
        stun_msg_attrs_all)
qed

lemma mbuf_look_ok: "mbuf_ok mb \<Longrightarrow> n \<le> length (mbuf_rest mb) \<Longrightarrow> mbuf_look n mb = (take n (mbuf_rest mb), mb)"
  by (simp add: mbuf_look_def mem_peek_ok)


lemma stun_msg_mi_run:
  assumes E: "alloc_total E" and mb: "mbuf_wf mb" "mb_end mb \<le> mb_pos mb" and m: "put_at mb m t"
    and len: "unat (sh_len hdr) = length m - 20 + 24" "20 \<le> length m" and h: "length (hmac k m) = 20"
    and room: "mb_pos mb + length m + 24 < size_mod"
  shows "\<exists>u. stun_msg_mi E hmac k padding (mb_pos mb) hdr t = Some (0, u) \<and>
    put_at mb (with_mi hmac k tid padding m) u"
proof -
  let ?p = "mb_pos mb"
  have ne: "m \<noteq> []" using len(2) by auto
  note r = put_at_rest [OF mb m ne] and d = put_atD [OF m]
  have look: "mbuf_look (mbuf_get_left (t\<lparr>mb_pos := ?p\<rparr>)) (t\<lparr>mb_pos := ?p\<rparr>) = (m, t\<lparr>mb_pos := ?p\<rparr>)"
    using r by (simp add: mbuf_look_ok mb_simps)
  have "sz_add ?p (sz_sub (sz_add STUN_HEADER_SIZE (unat (sh_len hdr))) MI_SIZE) = mb_pos t"
    using len room d(2) by (simp add: STUN_HEADER_SIZE_def MI_SIZE_def sz_add_small sz_sub_small)
  then have t: "t\<lparr>mb_pos := sz_add ?p (sz_sub (sz_add STUN_HEADER_SIZE (unat (sh_len hdr))) MI_SIZE)\<rparr> = t"
    by simp
  have "length (attr_bytes 8 (MiV (hmac k m)) None padding) = 24"
    by (simp add: length_attr_bytes val_bytes_def h round4_def)
  then obtain u where u: "stun_attr_encode E 8 (Some (MiV (hmac k m))) None padding t = Some (0, u)"
    "put_at t (attr_bytes 8 (MiV (hmac k m)) None padding) u"
    using stun_attr_encode_run [OF E val_wf_mi [OF h] d(1) put_at_append_mode [OF mb(2) m], of None padding] d(2) room
    by auto
  have "attr_bytes 8 (MiV (hmac k m)) None padding = enc_bytes tid padding [mi_attr (hmac k m)]"
    by (simp add: mi_attr_def attr_bytes_def val_bytes_def)
  then have "put_at mb (with_mi hmac k tid padding m) u"
    using put_at_trans [OF mb(1) m u(2)] by (simp add: with_mi_def)
  then show ?thesis using u(1) look t by (simp add: stun_msg_mi_def Let_def)
qed

lemma stun_msg_fp_run:
  assumes E: "alloc_total E" and mb: "mbuf_wf mb" "mb_end mb \<le> mb_pos mb" and m: "put_at mb m t"
    and len: "20 \<le> length m" "length m - 20 + 8 < 65536" and hdr: "length (sh_tid hdr) = 12"
    and room: "mb_pos mb + length m + 8 < size_mod"
  shows "\<exists>u. stun_msg_fp E padding (mb_pos mb) hdr t = Some (0, u) \<and>
    put_at mb (with_fp hdr tid padding m) u"
proof -
  let ?p = "mb_pos mb" and ?n = "length m - 20 + 8"
  let ?hdr = "hdr\<lparr>sh_len := of_nat ?n\<rparr>"
  let ?m = "stun_hdr_bytes ?hdr @ drop 20 m"
  note d = put_atD [OF m]
  have lm: "length ?m = length m" "?m \<noteq> []" using len hdr by (auto simp: stun_hdr_bytes_def STUN_TID_SIZE_def)
  have "mbuf_wf (t\<lparr>mb_pos := ?p\<rparr>)" using d(1) room by (simp add: mbuf_wf_set_pos)
  then obtain s where s: "run_state (stun_hdr_encode E ?hdr) (t\<lparr>mb_pos := ?p\<rparr>) = (0, s)"
    "put_at (t\<lparr>mb_pos := ?p\<rparr>) (stun_hdr_bytes ?hdr) s"
    using putsD [OF puts_stun_hdr [OF E, of ?hdr], of "t\<lparr>mb_pos := ?p\<rparr>"] room len(1) hdr by auto
  let ?s = "s\<lparr>mb_pos := mb_pos s + length (drop 20 m)\<rparr>"
  have p: "put_at mb ?m ?s"
  proof (rule put_at_again [OF mb])
    show "put_at mb (take 20 m @ drop 20 m) t" using m by simp
    show "?p + length (take 20 m) + length (drop 20 m) < size_mod" using room len(1) by simp
    show "put_at (t\<lparr>mb_pos := ?p\<rparr>) (stun_hdr_bytes ?hdr) s" by (rule s(2))
  qed (use len hdr in auto)
  note dp = put_atD [OF p] and r = put_at_rest [OF mb p lm(2)]
  have look: "mbuf_look (mbuf_get_left (s\<lparr>mb_pos := ?p\<rparr>)) (s\<lparr>mb_pos := ?p\<rparr>) = (?m, s\<lparr>mb_pos := ?p\<rparr>)"
    using r by (simp add: mbuf_look_ok mb_simps)
  have n: "unat (of_nat ?n :: u16) = ?n" using len(2) by (rule unat_of_nat16)
  have "sz_add (sz_sub (sz_sub (mb_pos t) ?p) STUN_HEADER_SIZE) FP_SIZE = ?n"
    using d(2) len room by (simp add: STUN_HEADER_SIZE_def FP_SIZE_def sz_add_small sz_sub_small)
  then have h: "hdr\<lparr>sh_len := of_nat (sz_add (sz_sub (sz_sub (mb_pos t) ?p) STUN_HEADER_SIZE) FP_SIZE)\<rparr> = ?hdr"
    by simp
  have "sz_add ?p (sz_sub (sz_add STUN_HEADER_SIZE ?n) FP_SIZE) = mb_pos ?s"
    using dp(2) lm(1) len room by (simp add: STUN_HEADER_SIZE_def FP_SIZE_def sz_add_small sz_sub_small)
  then have q: "s\<lparr>mb_pos := sz_add ?p (sz_sub (sz_add STUN_HEADER_SIZE (unat (of_nat ?n :: u16))) FP_SIZE)\<rparr> = ?s"
    unfolding n by simp
  let ?f = "stun_fingerprint ?m"
  have "length (attr_bytes 0x8028 (U32V ?f) None padding) = 8"
    by (simp add: length_attr_bytes val_bytes_def round4_def)
  moreover have ps: "mb_pos ?s = ?p + length m" using dp(2) lm(1) by (simp only:)
  ultimately have "mb_pos ?s + length (attr_bytes 0x8028 (U32V ?f) None padding) < size_mod"
    using room by (simp only:)
  from stun_attr_encode_run [OF E val_wf_fp dp(1) put_at_append_mode [OF mb(2) p] this]
  obtain u where u: "stun_attr_encode E 0x8028 (Some (U32V ?f)) None padding ?s = Some (0, u)"
    "put_at ?s (attr_bytes 0x8028 (U32V ?f) None padding) u"
    by blast
  have "attr_bytes 0x8028 (U32V ?f) None padding = enc_bytes tid padding [fp_attr ?f]"
    by (simp add: fp_attr_def attr_bytes_def val_bytes_def)
  then have "put_at mb (with_fp hdr tid padding m) u"
    using put_at_trans [OF mb(1) p u(2)] by (simp add: with_fp_def Let_def)
  moreover have "stun_msg_fp E padding ?p hdr t = Some (0, u)"
    unfolding stun_msg_fp_def Let_def h s(1) prod.case using look u(1) q
    by (simp add: Let_def)
  ultimately show ?thesis by blast
qed

definition vmsg_first ::
  "u16 \<Rightarrow> u8 \<Rightarrow> u8 list \<Rightarrow> stun_val option \<Rightarrow> bool \<Rightarrow> u8 \<Rightarrow> (u16 \<times> stun_val option) list \<Rightarrow> u8 list" where
  "vmsg_first met cls tid ec key padding attrs = (let body = enc_bytes tid padding (all_attrs ec attrs)
     in stun_hdr_bytes (msg_hdr met cls tid (length body + (if key then 24 else 0))) @ body)"

definition mi_part ::
  "hmac_fun \<Rightarrow> u16 \<Rightarrow> u8 \<Rightarrow> u8 list \<Rightarrow> stun_val option \<Rightarrow> u8 list option \<Rightarrow> u8 \<Rightarrow> (u16 \<times> stun_val option) list
   \<Rightarrow> (u16 \<times> stun_val option) list" where
  "mi_part hmac met cls tid ec key padding attrs = (case key of None \<Rightarrow> []
     | Some k \<Rightarrow> [mi_attr (hmac k (vmsg_first met cls tid ec True padding attrs))])"

definition fp_part ::
  "u16 \<Rightarrow> u8 \<Rightarrow> u8 list \<Rightarrow> u8 \<Rightarrow> (u16 \<times> stun_val option) list \<Rightarrow> (u16 \<times> stun_val option) list" where
  "fp_part met cls tid padding as = (let body = enc_bytes tid padding as
     in [fp_attr (stun_fingerprint (stun_hdr_bytes (msg_hdr met cls tid (length body + 8)) @ body))])"

text \<open>All attributes of an encoded message, and its bytes.\<close>

definition vmsg_attrs ::
  "hmac_fun \<Rightarrow> u16 \<Rightarrow> u8 \<Rightarrow> u8 list \<Rightarrow> stun_val option \<Rightarrow> u8 list option \<Rightarrow> bool \<Rightarrow> u8
   \<Rightarrow> (u16 \<times> stun_val option) list \<Rightarrow> (u16 \<times> stun_val option) list" where
  "vmsg_attrs hmac met cls tid ec key fp padding attrs = (let
     as = all_attrs ec attrs @ mi_part hmac met cls tid ec key padding attrs
   in if fp then as @ fp_part met cls tid padding as else as)"

definition vmsg ::
  "hmac_fun \<Rightarrow> u16 \<Rightarrow> u8 \<Rightarrow> u8 list \<Rightarrow> stun_val option \<Rightarrow> u8 list option \<Rightarrow> bool \<Rightarrow> u8
   \<Rightarrow> (u16 \<times> stun_val option) list \<Rightarrow> u8 list" where
  "vmsg hmac met cls tid ec key fp padding attrs = (let
     body = enc_bytes tid padding (vmsg_attrs hmac met cls tid ec key fp padding attrs)
   in stun_hdr_bytes (msg_hdr met cls tid (length body)) @ body)"

lemma length_fp_part: "length (enc_bytes tid padding (fp_part met cls tid padding as)) = 8"
  by (simp only: fp_part_def Let_def length_enc_fp)

lemma with_mi_shape:
  assumes "length (hmac k (vmsg_first met cls tid ec True padding attrs)) = 20"
  shows "with_mi hmac k tid padding (vmsg_first met cls tid ec True padding attrs) =
    vmsg hmac met cls tid ec (Some k) False padding attrs"
  using assms
  by (simp add: with_mi_def vmsg_def vmsg_attrs_def mi_part_def Let_def enc_bytes_append length_enc_mi
      del: enc_bytes.simps) (simp add: vmsg_first_def Let_def)

lemma msg_hdr_len: "(msg_hdr met cls tid n)\<lparr>sh_len := of_nat m\<rparr> = msg_hdr met cls tid m"
  by (simp add: msg_hdr_def)

lemma length_msg_hdr: "length tid = 12 \<Longrightarrow> length (stun_hdr_bytes (msg_hdr met cls tid n)) = 20"
  by (simp add: msg_hdr_def)

lemma with_fp_shape:
  assumes "length tid = 12"
  shows "with_fp (msg_hdr met cls tid n) tid padding (vmsg hmac met cls tid ec key False padding attrs) =
    vmsg hmac met cls tid ec key True padding attrs"
  using assms length_fp_part [of tid padding met cls]
  by (simp add: with_fp_def vmsg_def vmsg_attrs_def fp_part_def Let_def enc_bytes_append length_msg_hdr msg_hdr_len
      length_enc_fp add.assoc del: enc_bytes.simps of_nat_add)

lemma vmsg_plain: "vmsg_first met cls tid ec False padding attrs = vmsg hmac met cls tid ec None False padding attrs"
  by (simp add: vmsg_first_def vmsg_def vmsg_attrs_def mi_part_def Let_def)

abbreviation "body_len tid padding ec attrs \<equiv> length (enc_bytes tid padding (all_attrs ec attrs))"

lemma length_vmsg_first: "length tid = 12 \<Longrightarrow>
  length (vmsg_first met cls tid ec key padding attrs) = 20 + body_len tid padding ec attrs"
  by (simp add: vmsg_first_def Let_def length_msg_hdr)

definition hmac_ok :: "hmac_fun \<Rightarrow> bool" where
  "hmac_ok hmac \<longleftrightarrow> (\<forall>k m. length (hmac k m) = 20)"

lemma length_mi_part: "hmac_ok hmac \<Longrightarrow>
  length (enc_bytes tid padding (mi_part hmac met cls tid ec key padding attrs)) = (if key = None then 0 else 24)"
  by (auto simp: mi_part_def hmac_ok_def length_enc_mi simp del: enc_bytes.simps(2,3) split: option.split)

lemma length_vmsg: "length tid = 12 \<Longrightarrow> hmac_ok hmac \<Longrightarrow>
  length (vmsg hmac met cls tid ec key fp padding attrs) =
    20 + body_len tid padding ec attrs + (if key = None then 0 else 24) + (if fp then 8 else 0)"
  by (simp add: vmsg_def vmsg_attrs_def Let_def length_msg_hdr enc_bytes_append length_fp_part length_mi_part
      del: enc_bytes.simps)

lemma stun_msg_vencode_run:
  assumes E: "alloc_total E" and mb: "mbuf_wf mb" "mb_end mb \<le> mb_pos mb" and tid: "length tid = 12"
    and wf: "attrs_wf tid (all_attrs ec attrs)" and h: "hmac_ok hmac"
    and room: "mb_pos mb + 52 + body_len tid padding ec attrs < size_mod" "body_len tid padding ec attrs + 32 < 65536"
  shows "\<exists>t. stun_msg_vencode E hmac met cls (Some tid) ec key fp padding attrs mb = Some (0, t) \<and>
    put_at mb (vmsg hmac met cls tid ec key fp padding attrs) t"
proof -
  let ?body = "enc_bytes tid padding (all_attrs ec attrs)" and ?key = "key \<noteq> None"
  let ?n = "length ?body + (if ?key then 24 else 0)"
  let ?h = "msg_hdr met cls tid ?n"
  let ?m2 = "vmsg hmac met cls tid ec key False padding attrs"
  have "mb_pos mb + 20 + length ?body < size_mod" "length ?body + 24 < 65536" using room by simp_all
  from stun_msg_head_run [OF E mb tid wf refl this, where key = ?key, OF refl]
  obtain t1 where t1: "stun_msg_head E met cls tid ec ?key padding attrs mb = Some (0, ?h, t1)"
    "put_at mb (vmsg_first met cls tid ec ?key padding attrs) t1"
    by (auto simp: vmsg_first_def Let_def)
  have "?n < 65536" using room(2) by simp
  then have hl: "unat (sh_len ?h) = ?n" unfolding msg_hdr_def stun_hdr.simps by (rule unat_of_nat16)
  obtain t2 where t2: "(case key of None \<Rightarrow> Some (0, t1) | Some k \<Rightarrow> stun_msg_mi E hmac k padding (mb_pos mb) ?h t1) = Some (0, t2)"
    "put_at mb ?m2 t2"
  proof (cases key)
    case None
    then show ?thesis using that t1(2) vmsg_plain [of met cls tid ec padding attrs hmac] by simp
  next
    case (Some k)
    let ?m1 = "vmsg_first met cls tid ec True padding attrs"
    have "unat (sh_len ?h) = length ?m1 - 20 + 24" "20 \<le> length ?m1" "mb_pos mb + length ?m1 + 24 < size_mod"
      using hl room tid Some by (simp_all add: length_vmsg_first)
    then obtain u where "stun_msg_mi E hmac k padding (mb_pos mb) ?h t1 = Some (0, u)"
      "put_at mb (with_mi hmac k tid padding ?m1) u"
      using stun_msg_mi_run [OF E mb, of ?m1 t1 ?h hmac k padding tid] t1(2) h Some by (auto simp: hmac_ok_def)
    then show ?thesis using that with_mi_shape [of hmac k] h Some by (auto simp: hmac_ok_def)
  qed
  show ?thesis
  proof (cases fp)
    case False
    have "stun_msg_vencode E hmac met cls (Some tid) ec key fp padding attrs mb = Some (0, t2)"
      unfolding stun_msg_vencode_def option.case t1(1) prod.case t2(1) using False by simp
    then show ?thesis using False t2(2) by simp
  next
    case True
    have l: "length ?m2 = 20 + ?n" using length_vmsg [OF tid h, of met cls ec key False] by simp
    have a: "20 \<le> length ?m2" "length ?m2 - 20 + 8 < 65536" "mb_pos mb + length ?m2 + 8 < size_mod"
      using l room by (auto split: if_splits)
    have "length (sh_tid ?h) = 12" using tid by (simp add: msg_hdr_def)
    from stun_msg_fp_run [OF E mb t2(2) a(1,2) this a(3)] obtain u where
      u: "stun_msg_fp E padding (mb_pos mb) ?h t2 = Some (0, u)" "put_at mb (with_fp ?h tid padding ?m2) u"
      by blast
    have "stun_msg_vencode E hmac met cls (Some tid) ec key fp padding attrs mb = Some (0, u)"
      unfolding stun_msg_vencode_def option.case t1(1) prod.case t2(1) u(1) using True by simp
    then show ?thesis using True u(2) tid by (simp add: with_fp_shape)
  qed
qed


lemma of_nat_and_3: "n mod 4 = 0 \<Longrightarrow> (of_nat n :: u16) AND 3 = 0"
proof -
  assume "n mod 4 = 0"
  then have "take_bit 2 (of_nat n :: u16) = 0"
    by (simp add: take_bit_of_nat flip: take_bit_eq_mod) (simp add: take_bit_eq_mod)
  moreover have "mask 2 = (3 :: u16)" by (simp add: mask_eq_exp_minus_1)
  ultimately show ?thesis by (metis take_bit_eq_mask)
qed

definition attrs_agree :: "(u16 \<times> stun_val option) list \<Rightarrow> stun_attr list \<Rightarrow> bool" where
  "attrs_agree as al \<longleftrightarrow>
     list_all2 (\<lambda>(t, v) a. at_type a = t \<and> val_agrees t (the v) (at_v a)) (filter (\<lambda>(t, v). v \<noteq> None) as) al"

lemma stun_msg_decode_run:
  assumes E: "alloc_total E" and wf: "attrs_wf tid as" and tid: "length tid = 12" and mb: "mbuf_ok mb"
    and rest: "mbuf_rest mb = stun_hdr_bytes (msg_hdr met cls tid (length (enc_bytes tid padding as))) @
      enc_bytes tid padding as @ r"
    and len: "length (enc_bytes tid padding as) < 65536"
  shows "\<exists>msg. stun_msg_decode E h0 ua mb = Some (Inr msg, map_option (\<lambda>u. u\<lparr>ua_typec := 0\<rparr>) ua, mb) \<and>
    sm_hdr msg = msg_hdr met cls tid (length (enc_bytes tid padding as)) \<and> sm_start msg = mb_pos mb \<and>
    attrs_agree as (sm_attrl msg)"
proof -
  let ?b = "enc_bytes tid padding as"
  let ?h = "msg_hdr met cls tid (length ?b)" and ?ua = "map_option (\<lambda>u. u\<lparr>ua_typec := 0\<rparr>) ua"
  have n: "unat (of_nat (length ?b) :: u16) = length ?b" using len by (rule unat_of_nat16)
  have d: "run_state (stun_hdr_decode h0) mb = ((0, ?h), adv 20 mb)"
    by (rule stun_hdr_decode_run [OF mb rest])
      (simp_all add: msg_hdr_def stun_type_14 of_nat_and_3 enc_bytes_mod4 tid n)
  have l: "length (stun_hdr_bytes ?h) = 20" using tid by (rule length_msg_hdr)
  have ok: "mbuf_ok (adv 20 mb)" by (rule mbuf_ok_adv [OF mb]) (simp add: rest l)
  have r20: "mbuf_rest (adv 20 mb) = ?b @ r" using rest l by simp
  have "mbuf_get_left (adv 20 mb) = length ?b + length r" using ok r20 by (simp add: mb_simps)
  moreover have "length (mbuf_rest (adv 20 mb)) < size_mod" using mbuf_rest_less [OF ok] by linarith
  then have "length ?b + length r < size_mod" unfolding r20 by simp
  ultimately have x: "sz_sub (mbuf_get_left (adv 20 mb)) (unat (sh_len ?h)) = length r"
    using n by (simp add: msg_hdr_def sz_sub_small)
  obtain al where "attr_loop E tid (length r) ?ua [] (adv 20 mb) = Some (0, al, ?ua, adv (length ?b) (adv 20 mb))"
    "attrs_agree as al"
    using attr_loop_run [OF E wf ok r20 refl, of ?ua "[]"] by (auto simp: attrs_agree_def)
  moreover have "can_alloc E sizeof_stun_msg" using E by (simp add: alloc_total_def sizeof_stun_msg_def size_mod_def)
  moreover have "sh_tid ?h = tid" by (simp add: msg_hdr_def)
  ultimately show ?thesis using d x
    by (simp add: stun_msg_decode_def Let_def)
qed


subsection \<open>The checks on an encoded message\<close>

lemma attrs_agree_simps:
  "attrs_agree [] al \<longleftrightarrow> al = []"
  "attrs_agree ((t, None) # as) al \<longleftrightarrow> attrs_agree as al"
  "attrs_agree ((t, Some v) # as) al \<longleftrightarrow>
     (\<exists>a al'. al = a # al' \<and> at_type a = t \<and> val_agrees t v (at_v a) \<and> attrs_agree as al')"
  by (auto simp: attrs_agree_def list_all2_Cons1)

lemma attrs_agree_cases:
  assumes "attrs_agree (x # as) al"
  obtains "snd x = None" "attrs_agree as al"
  | a v al' where "x = (at_type a, Some v)" "al = a # al'" "val_agrees (at_type a) v (at_v a)" "attrs_agree as al'"
  using assms by (cases x; cases "snd x") (auto simp: attrs_agree_simps)

lemma find_agree:
  assumes "attrs_agree (as @ (t, Some v) # bs) al" "\<forall>x \<in> set as. fst x \<noteq> t"
  shows "\<exists>a. find (\<lambda>a. at_type a = t) al = Some a \<and> val_agrees t v (at_v a)"
  using assms
proof (induction as arbitrary: al)
  case Nil
  then show ?case by (auto simp: attrs_agree_simps)
next
  case (Cons x as)
  from Cons.prems(1) have "attrs_agree (x # as @ (t, Some v) # bs) al" by simp
  then show ?case using Cons by (cases rule: attrs_agree_cases) auto
qed

lemma find_disagree:
  "attrs_agree as al \<Longrightarrow> \<forall>x \<in> set as. fst x \<noteq> t \<Longrightarrow> find (\<lambda>a. at_type a = t) al = None"
proof (induction as arbitrary: al)
  case (Cons x as)
  from Cons.prems(1) show ?case using Cons by (cases rule: attrs_agree_cases) auto
qed (simp add: attrs_agree_simps)

lemma rewrite_hdr_run:
  assumes E: "alloc_total E" and mb: "mbuf_ok mb" "mbuf_rest mb = old @ r" "length old = 20"
    and h: "length (sh_tid h) = 12"
  shows "mbuf_ok (rewrite_hdr E h mb)" "mb_pos (rewrite_hdr E h mb) = mb_pos mb"
    "mbuf_rest (rewrite_hdr E h mb) = stun_hdr_bytes h @ r"
proof -
  have l: "length (stun_hdr_bytes h) = 20" using h by simp
  have e: "mb_end mb = mb_pos mb + 20 + length r" "mbuf_wf mb"
    using mb length_mbuf_rest [of mb] by (auto simp: mbuf_ok_def)
  then have room: "mb_pos mb + length (stun_hdr_bytes h) < size_mod"
    using l by (auto simp: mbuf_wf_def)
  obtain t where t: "run_state (stun_hdr_encode E h) mb = (0, t)" "put_at mb (stun_hdr_bytes h) t"
    using putsD [OF puts_stun_hdr [OF E, of h] e(2) room] by blast
  note d = put_atD [OF t(2)]
  have end_t: "mb_end t = mb_end mb" using d(3,4) e l by simp
  have pos: "sz_sub (mb_pos t) STUN_HEADER_SIZE = mb_pos mb"
    using d(2) l room by (simp add: STUN_HEADER_SIZE_def sz_sub_small)
  have rw: "rewrite_hdr E h mb = t\<lparr>mb_pos := mb_pos mb\<rparr>"
    using t(1) pos by (simp add: rewrite_hdr_def Let_def)
  show "mb_pos (rewrite_hdr E h mb) = mb_pos mb" using rw by simp
  show "mbuf_ok (rewrite_hdr E h mb)"
    using rw d(1) end_t e room by (simp add: mbuf_ok_def mbuf_wf_set_pos)
  have "drop (20 + mb_pos mb) (mbuf_content t) = drop 20 (mbuf_rest mb)"
    using d(7) l by (simp add: mbuf_rest_def add.commute)
  then have "drop (20 + mb_pos mb) (mbuf_content t) = r"
    using mb(2,3) by simp
  then show "mbuf_rest (rewrite_hdr E h mb) = stun_hdr_bytes h @ r"
    using d(6) l rw append_take_drop_id [of 20 "drop (mb_pos mb) (mbuf_content t)"]
    by (simp add: mbuf_rest_def)
qed


definition no_checks :: "stun_val option \<Rightarrow> (u16 \<times> stun_val option) list \<Rightarrow> bool" where
  "no_checks ec attrs \<longleftrightarrow> (\<forall>x \<in> set (all_attrs ec attrs).
     fst x \<noteq> STUN_ATTR_MSG_INTEGRITY \<and> fst x \<noteq> STUN_ATTR_FINGERPRINT)"

lemma find_mi:
  assumes "attrs_agree (vmsg_attrs hmac met cls tid ec (Some k) fp padding attrs) al" "no_checks ec attrs"
  shows "\<exists>a. find (\<lambda>a. at_type a = STUN_ATTR_MSG_INTEGRITY) al = Some a \<and>
    at_v a = MiV (hmac k (vmsg_first met cls tid ec True padding attrs))"
proof -
  let ?mi = "MiV (hmac k (vmsg_first met cls tid ec True padding attrs))"
  obtain bs where "vmsg_attrs hmac met cls tid ec (Some k) fp padding attrs =
      all_attrs ec attrs @ (STUN_ATTR_MSG_INTEGRITY, Some ?mi) # bs"
    by (cases fp) (simp_all add: vmsg_attrs_def mi_part_def mi_attr_def Let_def)
  with find_agree [of "all_attrs ec attrs" STUN_ATTR_MSG_INTEGRITY ?mi bs al] assms
  show ?thesis by (auto simp: no_checks_def val_agrees_def)
qed

lemma find_fp:
  assumes "attrs_agree (vmsg_attrs hmac met cls tid ec key fp padding attrs) al" "no_checks ec attrs"
  shows "if fp then \<exists>a. find (\<lambda>a. at_type a = STUN_ATTR_FINGERPRINT) al = Some a \<and>
      at_v a = U32V (stun_fingerprint (let body = enc_bytes tid padding
        (all_attrs ec attrs @ mi_part hmac met cls tid ec key padding attrs)
        in stun_hdr_bytes (msg_hdr met cls tid (length body + 8)) @ body))
    else find (\<lambda>a. at_type a = STUN_ATTR_FINGERPRINT) al = None"
proof -
  let ?as = "all_attrs ec attrs @ mi_part hmac met cls tid ec key padding attrs"
  have ne: "\<forall>x \<in> set ?as. fst x \<noteq> STUN_ATTR_FINGERPRINT"
    using assms(2) by (auto simp: no_checks_def mi_part_def mi_attr_def split: option.splits)
  show ?thesis
  proof (cases fp)
    case True
    with assms(1) find_agree [OF _ ne] show ?thesis
      by (fastforce simp: vmsg_attrs_def fp_part_def fp_attr_def Let_def val_agrees_def)
  next
    case False
    with assms(1) find_disagree [OF _ ne] show ?thesis by (simp add: vmsg_attrs_def Let_def)
  qed
qed

lemma stun_msg_chk_mi_run:
  assumes E: "alloc_total E" and h: "hmac_ok hmac" and tid: "length tid = 12" and nc: "no_checks ec attrs"
    and mb: "mbuf_ok mb" "mbuf_rest mb = vmsg hmac met cls tid ec (Some k) fp padding attrs @ r"
    and msg: "sm_start msg = mb_pos mb" "attrs_agree (vmsg_attrs hmac met cls tid ec (Some k) fp padding attrs) (sm_attrl msg)"
      "sm_hdr msg = msg_hdr met cls tid (length (vmsg hmac met cls tid ec (Some k) fp padding attrs) - 20)"
    and room: "body_len tid padding ec attrs + 32 < 65536"
  shows "\<exists>mb'. stun_msg_chk_mi E hmac msg k' mb =
      (if hmac k (vmsg_first met cls tid ec True padding attrs) = hmac k' (vmsg_first met cls tid ec True padding attrs)
       then 0 else EBADMSG, mb') \<and> mbuf_rest mb' = mbuf_rest mb"
proof -
  let ?m1 = "vmsg_first met cls tid ec True padding attrs"
  let ?b = "enc_bytes tid padding (all_attrs ec attrs)" and ?n = "body_len tid padding ec attrs"
  let ?h = "msg_hdr met cls tid (?n + 24)" and ?h8 = "msg_hdr met cls tid (?n + 32)"
  obtain a where a: "stun_msg_attr msg STUN_ATTR_MSG_INTEGRITY = Some a" "at_v a = MiV (hmac k ?m1)"
    using find_mi [OF msg(2) nc] by (auto simp: stun_msg_attr_def)
  have m1: "?m1 = stun_hdr_bytes ?h @ ?b" by (simp add: vmsg_first_def Let_def)
  have n: "unat (of_nat (?n + 24) :: u16) = ?n + 24" using room by (intro unat_of_nat16) simp
  have look: "mbuf_look (sz_sub (sz_add STUN_HEADER_SIZE (unat (sh_len ?h))) MI_SIZE) t = (?m1, t)"
    if "mbuf_ok t" "mbuf_rest t = stun_hdr_bytes ?h @ ?b @ r'" for t r'
  proof -
    have "sz_sub (sz_add STUN_HEADER_SIZE (unat (sh_len ?h))) MI_SIZE = length ?m1"
      using n room tid by (simp add: msg_hdr_def STUN_HEADER_SIZE_def MI_SIZE_def sz_add_small sz_sub_small size_mod_def m1)
    then show ?thesis using that m1 by (simp add: mbuf_look_ok)
  qed
  have start: "mb\<lparr>mb_pos := sm_start msg\<rparr> = mb" using msg(1) by simp
  have len: "length (vmsg hmac met cls tid ec (Some k) fp padding attrs) - 20 = ?n + (if fp then 32 else 24)"
    using length_vmsg [OF tid h] by simp
  show ?thesis
  proof (cases fp)
    case False
    then have none: "stun_msg_attr msg STUN_ATTR_FINGERPRINT = None"
      using find_fp [OF msg(2) nc] by (simp add: stun_msg_attr_def)
    have rest: "\<exists>r'. mbuf_rest mb = stun_hdr_bytes ?h @ ?b @ r'"
      using mb(2) False len with_mi_shape [of hmac k met cls tid ec padding attrs] h
      by (simp add: hmac_ok_def with_mi_def m1 flip: with_mi_shape)
    have hd: "sm_hdr msg = ?h" using msg(3) len False by simp
    show ?thesis using look [OF mb(1)] rest a none start hd by (auto simp: stun_msg_chk_mi_def Let_def)
  next
    case True
    then obtain f where f: "stun_msg_attr msg STUN_ATTR_FINGERPRINT = Some f"
      using find_fp [OF msg(2) nc] by (auto simp: stun_msg_attr_def)
    have hd: "sm_hdr msg = ?h8" using msg(3) len True by simp
    have h1: "?h8\<lparr>sh_len := sh_len ?h8 - of_nat FP_SIZE\<rparr> = ?h" "?h\<lparr>sh_len := sh_len ?h + of_nat FP_SIZE\<rparr> = ?h8"
      by (simp_all add: msg_hdr_def FP_SIZE_def)
    obtain r' where rest: "mbuf_rest mb = stun_hdr_bytes ?h8 @ ?b @ r'"
      using mb(2) True by (simp add: vmsg_def vmsg_attrs_def Let_def enc_bytes_append length_fp_part length_mi_part [OF h])
    have l: "length (stun_hdr_bytes ?h8) = 20" "length (stun_hdr_bytes ?h) = 20"
      "length (sh_tid ?h) = 12" "length (sh_tid ?h8) = 12"
      using tid by (simp_all add: length_msg_hdr) (simp_all add: msg_hdr_def)
    note r1 = rewrite_hdr_run [OF E mb(1) rest l(1) l(3)]
    note r2 = rewrite_hdr_run [OF E r1(1) r1(3) l(2) l(4)]
    show ?thesis using look [OF r1(1) r1(3)] a f start hd h1 r2(3) rest
      by (simp add: stun_msg_chk_mi_def Let_def)
  qed
qed


lemma stun_msg_chk_fingerprint_run:
  assumes h: "hmac_ok hmac" and tid: "length tid = 12" and nc: "no_checks ec attrs"
    and mb: "mbuf_ok mb" "mbuf_rest mb = vmsg hmac met cls tid ec key True padding attrs @ r"
    and msg: "sm_start msg = mb_pos mb" "attrs_agree (vmsg_attrs hmac met cls tid ec key True padding attrs) (sm_attrl msg)"
      "sm_hdr msg = msg_hdr met cls tid (length (vmsg hmac met cls tid ec key True padding attrs) - 20)"
    and room: "body_len tid padding ec attrs + 32 < 65536"
  shows "stun_msg_chk_fingerprint msg mb = (0, mb)"
proof -
  let ?as = "all_attrs ec attrs @ mi_part hmac met cls tid ec key padding attrs"
  let ?b = "enc_bytes tid padding ?as"
  let ?h = "msg_hdr met cls tid (length ?b + 8)"
  have L: "length ?b = body_len tid padding ec attrs + (if key = None then 0 else 24)"
    by (simp add: enc_bytes_append length_mi_part [OF h])
  then have "length ?b + 8 < 65536" using room by simp
  then have n: "unat (of_nat (length ?b + 8) :: u16) = length ?b + 8" by (rule unat_of_nat16)
  have "length (vmsg hmac met cls tid ec key True padding attrs) - 20 = length ?b + 8"
    using length_vmsg [OF tid h, of met cls ec key True padding attrs] L by simp
  then have hd: "sm_hdr msg = ?h" using msg(3) by (simp only:)
  obtain r' where rest: "mbuf_rest mb = (stun_hdr_bytes ?h @ ?b) @ r'"
    using mb(2) L by (simp add: vmsg_def vmsg_attrs_def Let_def enc_bytes_append length_fp_part length_mi_part [OF h] add.assoc)
  have "sz_sub (sz_add STUN_HEADER_SIZE (unat (sh_len ?h))) FP_SIZE = length (stun_hdr_bytes ?h @ ?b)"
    using n \<open>length ?b + 8 < 65536\<close> tid
    by (simp add: msg_hdr_def STUN_HEADER_SIZE_def FP_SIZE_def sz_add_small sz_sub_small size_mod_def)
  then have look: "mbuf_look (sz_sub (sz_add STUN_HEADER_SIZE (unat (sh_len ?h))) FP_SIZE) mb =
      (stun_hdr_bytes ?h @ ?b, mb)"
    using mb(1) rest by (simp add: mbuf_look_ok)
  obtain a where "stun_msg_attr msg STUN_ATTR_FINGERPRINT = Some a"
    "at_v a = U32V (stun_fingerprint (stun_hdr_bytes ?h @ ?b))"
    using find_fp [OF msg(2) nc] by (auto simp: stun_msg_attr_def Let_def)
  moreover have "mb\<lparr>mb_pos := sm_start msg\<rparr> = mb" using msg(1) by simp
  ultimately show ?thesis using look hd by (simp add: stun_msg_chk_fingerprint_def)
qed

text \<open>What the encoder needs: memory, room, a transaction identifier and values the attribute types can hold.\<close>

definition vmsg_wf ::
  "mem_env \<Rightarrow> hmac_fun \<Rightarrow> u8 list \<Rightarrow> stun_val option \<Rightarrow> u8 list option \<Rightarrow> u8 \<Rightarrow> (u16 \<times> stun_val option) list \<Rightarrow> mbuf \<Rightarrow> bool" where
  "vmsg_wf E hmac tid ec key padding attrs mb \<longleftrightarrow> alloc_total E \<and> hmac_ok hmac \<and> length tid = 12 \<and>
     attrs_wf tid (all_attrs ec attrs) \<and> mbuf_wf mb \<and> mb_end mb \<le> mb_pos mb \<and>
     mb_pos mb + 52 + body_len tid padding ec attrs < size_mod \<and> body_len tid padding ec attrs + 32 < 65536"

lemma val_wf_any:
  assumes "hmac_ok hmac" "attrs_wf tid (all_attrs ec attrs)"
  shows "attrs_wf tid (vmsg_attrs hmac met cls tid ec key fp padding attrs)"
  using assms val_wf_mi val_wf_fp
  by (auto simp: attrs_wf_def vmsg_attrs_def mi_part_def fp_part_def mi_attr_def fp_attr_def hmac_ok_def Let_def
      split: option.splits)

lemma stun_msg_coded:
  assumes wf: "vmsg_wf E hmac tid ec key padding attrs mb"
  obtains t msg where "stun_msg_vencode E hmac met cls (Some tid) ec key fp padding attrs mb = Some (0, t)"
    "stun_msg_decode E h0 ua (t\<lparr>mb_pos := mb_pos mb\<rparr>) =
       Some (Inr msg, map_option (\<lambda>u. u\<lparr>ua_typec := 0\<rparr>) ua, t\<lparr>mb_pos := mb_pos mb\<rparr>)"
    "mbuf_ok (t\<lparr>mb_pos := mb_pos mb\<rparr>)" "mbuf_rest (t\<lparr>mb_pos := mb_pos mb\<rparr>) = vmsg hmac met cls tid ec key fp padding attrs"
    "sm_start msg = mb_pos mb" "attrs_agree (vmsg_attrs hmac met cls tid ec key fp padding attrs) (sm_attrl msg)"
    "sm_hdr msg = msg_hdr met cls tid (length (vmsg hmac met cls tid ec key fp padding attrs) - 20)"
proof -
  let ?as = "vmsg_attrs hmac met cls tid ec key fp padding attrs"
  let ?m = "vmsg hmac met cls tid ec key fp padding attrs"
  note w = wf [unfolded vmsg_wf_def]
  obtain t where t: "stun_msg_vencode E hmac met cls (Some tid) ec key fp padding attrs mb = Some (0, t)" "put_at mb ?m t"
    using stun_msg_vencode_run [of E mb tid ec attrs hmac padding met cls key fp] w by blast
  have l: "length ?m = 20 + length (enc_bytes tid padding ?as)"
    using w by (simp add: vmsg_def Let_def length_msg_hdr)
  then have ne: "?m \<noteq> []" by auto
  have "mbuf_wf mb" "mb_end mb \<le> mb_pos mb" using w by blast+
  note r = put_at_rest [OF this t(2) ne]
  have "length (enc_bytes tid padding ?as) < 65536"
    using l length_vmsg [of tid hmac met cls ec key fp padding attrs] w by (auto split: if_splits)
  moreover have "mbuf_rest (t\<lparr>mb_pos := mb_pos mb\<rparr>) =
      stun_hdr_bytes (msg_hdr met cls tid (length (enc_bytes tid padding ?as))) @ enc_bytes tid padding ?as @ []"
    using r(2) by (simp add: vmsg_def Let_def)
  moreover have "attrs_wf tid ?as" using val_wf_any w by blast
  ultimately show ?thesis
    using that [OF t(1)] stun_msg_decode_run [of E tid ?as "t\<lparr>mb_pos := mb_pos mb\<rparr>" met cls padding "[]" h0 ua] w r l
    by auto
qed

text \<open>C21: a message that \<^verbatim>\<open>stun_msg_vencode\<close> appended to a buffer, with any attributes whose values fit their types
  (data and padding come from another buffer that has a block), error code, key and fingerprint, is read
  back by \<^verbatim>\<open>stun_msg_decode\<close>: the same type, method and transaction, the attributes in order with their values,
  no unknown attribute, and the buffer where it was. Memory does not run out and the message stays below 64 KB.\<close>

theorem stun_msg_roundtrip:
  assumes "vmsg_wf E hmac tid ec key padding attrs mb"
  shows "\<exists>t msg. stun_msg_vencode E hmac met cls (Some tid) ec key fp padding attrs mb = Some (0, t) \<and>
    stun_msg_decode E h0 ua (t\<lparr>mb_pos := mb_pos mb\<rparr>) =
      Some (Inr msg, map_option (\<lambda>u. u\<lparr>ua_typec := 0\<rparr>) ua, t\<lparr>mb_pos := mb_pos mb\<rparr>) \<and>
    stun_msg_type msg = STUN_TYPE met cls \<and> stun_msg_method msg = met AND 0xfff \<and> stun_msg_tid msg = tid \<and>
    stun_msg_mcookie msg \<and> attrs_agree (vmsg_attrs hmac met cls tid ec key fp padding attrs) (sm_attrl msg)"
proof -
  obtain t msg where m: "stun_msg_vencode E hmac met cls (Some tid) ec key fp padding attrs mb = Some (0, t)"
    "stun_msg_decode E h0 ua (t\<lparr>mb_pos := mb_pos mb\<rparr>) =
       Some (Inr msg, map_option (\<lambda>u. u\<lparr>ua_typec := 0\<rparr>) ua, t\<lparr>mb_pos := mb_pos mb\<rparr>)"
    "attrs_agree (vmsg_attrs hmac met cls tid ec key fp padding attrs) (sm_attrl msg)"
    "sm_hdr msg = msg_hdr met cls tid (length (vmsg hmac met cls tid ec key fp padding attrs) - 20)"
    by (rule stun_msg_coded [OF assms])
  then show ?thesis
    by (auto simp: stun_msg_type_def stun_msg_method_def stun_msg_tid_def stun_msg_mcookie_def msg_hdr_def stun_method_type)
qed

definition sample_attrs :: "(u16 \<times> stun_val option) list" where
  "sample_attrs = [(0x0006, Some (StrV [117, 115, 114])), (0x0024, Some (U32V 7)), (0x0020, None)]"

definition sample_tid :: "u8 list" where "sample_tid = [1, 2, 3, 4, 5, 6, 7, 8, 9, 10, 11, 12]"

definition sample_hmac :: hmac_fun where "sample_hmac k m = take 20 (k @ m @ replicate 20 0)"

lemma sample_hmac_ok: "hmac_ok sample_hmac"
  by (auto simp: hmac_ok_def sample_hmac_def min_def)

lemma sample_wf: "vmsg_wf ideal_env sample_hmac sample_tid None (Some [1, 2]) 0 sample_attrs mbuf_init"
  by (simp add: vmsg_wf_def sample_hmac_ok sample_tid_def sample_attrs_def all_attrs_def attrs_wf_def
      val_wf_def val_bytes_def attr_kind_def length_attr_bytes round4_def size_mod_def)
    (simp add: mbuf_init_def mbuf_wf_def size_mod_def)

theorem stun_msg_roundtrip_witness:
  "\<exists>t msg. stun_msg_vencode ideal_env sample_hmac 1 0 (Some sample_tid) None (Some [1, 2]) True 0 sample_attrs mbuf_init = Some (0, t) \<and>
    stun_msg_method msg = 1 \<and> attrs_agree (vmsg_attrs sample_hmac 1 0 sample_tid None (Some [1, 2]) True 0 sample_attrs) (sm_attrl msg)"
  using stun_msg_roundtrip [OF sample_wf, of 1 0 True undefined None] by auto

text \<open>What a decoded message says of the buffer it came from.\<close>

lemma stun_msg_decode_msg:
  assumes "mbuf_ok c" "stun_msg_decode E h0 ua c = Some (Inr msg, ua', c')"
  shows "c' = c" "sm_start msg = mb_pos c" "20 + unat (sh_len (sm_hdr msg)) \<le> length (mbuf_rest c)"
    "length (sh_tid (sm_hdr msg)) = 12" "sm_attrl msg \<noteq> [] \<Longrightarrow> 4 \<le> unat (sh_len (sm_hdr msg))"
proof -
  show "c' = c" "sm_start msg = mb_pos c"
    using stun_msg_decode_total [OF assms(1), of E h0 ua] assms(2) by auto
  obtain e h t where d: "run_state (stun_hdr_decode h0) c = ((e, h), t)" by (metis prod.collapse)
  have e: "e = 0" using assms(2) d by (auto simp: stun_msg_decode_def Let_def split: if_splits)
  let ?extra = "sz_sub (mbuf_get_left t) (unat (sh_len h))"
  have h: "sm_hdr msg = h" and l: "\<exists>ua'' u. attr_loop E (sh_tid h) ?extra (map_option (\<lambda>u. u\<lparr>ua_typec := 0\<rparr>) ua) [] t
      = Some (0, sm_attrl msg, ua'', u)"
    using assms(2) d e by (auto simp: stun_msg_decode_def Let_def split: if_splits option.splits)
  note m = stun_hdr_decode_min [OF assms(1) d [unfolded e]]
  have rt: "mbuf_ok t" using readerD [OF reader_stun_hdr assms(1) d] by auto
  have 20: "length (mbuf_rest c) = 20 + length (mbuf_rest t)"
    using rt assms(1) m(1) by (auto simp: length_mbuf_rest mbuf_ok_def)
  show "20 + unat (sh_len (sm_hdr msg)) \<le> length (mbuf_rest c)" using m(2) 20 h by simp
  show "length (sh_tid (sm_hdr msg)) = 12" using stun_hdr_decode_tid [OF assms(1) d [unfolded e]] h by simp
  have left: "mbuf_get_left t = length (mbuf_rest t)" "length (mbuf_rest t) < size_mod"
    using rt by (auto simp: mb_simps mbuf_ok_def mbuf_wf_def length_mbuf_rest)
  have x: "sz_sub (mbuf_get_left t) ?extra = unat (sh_len h)"
    using left m(2) by (simp add: sz_sub_small)
  show "4 \<le> unat (sh_len (sm_hdr msg))" if "sm_attrl msg \<noteq> []"
  proof (rule ccontr)
    assume "\<not> 4 \<le> unat (sh_len (sm_hdr msg))"
    with l that h x show False by (subst (asm) attr_loop.simps) auto
  qed
qed

text \<open>What the two checks are taken over, for a message decoded from the bytes \<open>bs\<close>: the fingerprint over all but
  its own attribute, the integrity over all before it, with the length in the header that the message had then.\<close>

definition fp_bytes :: "stun_msg \<Rightarrow> u8 list \<Rightarrow> u8 list" where
  "fp_bytes msg bs = take (12 + unat (sh_len (sm_hdr msg))) bs"

definition mi_bytes :: "stun_msg \<Rightarrow> u8 list \<Rightarrow> u8 list" where
  "mi_bytes msg bs = (if stun_msg_attr msg STUN_ATTR_FINGERPRINT = None
     then take (unat (sh_len (sm_hdr msg)) - 4) bs
     else take (unat (sh_len (sm_hdr msg)) - 12)
       (stun_hdr_bytes ((sm_hdr msg)\<lparr>sh_len := sh_len (sm_hdr msg) - 8\<rparr>) @ drop 20 bs))"

definition received :: "mem_env \<Rightarrow> stun_hdr \<Rightarrow> mbuf \<Rightarrow> stun_msg \<Rightarrow> bool" where
  "received E h0 c msg \<longleftrightarrow> mbuf_ok c \<and> (\<exists>ua ua'. stun_msg_decode E h0 ua c = Some (Inr msg, ua', c))"

lemma receivedD:
  assumes "received E h0 c msg"
  shows "mbuf_ok c" "sm_start msg = mb_pos c" "20 + unat (sh_len (sm_hdr msg)) \<le> length (mbuf_rest c)"
    "length (sh_tid (sm_hdr msg)) = 12" "sm_attrl msg \<noteq> [] \<Longrightarrow> 4 \<le> unat (sh_len (sm_hdr msg))"
  using assms stun_msg_decode_msg [of c E h0 _ msg] by (auto simp: received_def)

lemma stun_msg_attr_some: "stun_msg_attr msg t = Some a \<Longrightarrow> sm_attrl msg \<noteq> []"
  by (auto simp: stun_msg_attr_def)

lemma mbuf_restart: "sm_start msg = mb_pos c \<Longrightarrow> c\<lparr>mb_pos := sm_start msg\<rparr> = c"
  by simp

lemma chk_fingerprint_received:
  assumes "received E h0 c msg"
  shows "stun_msg_chk_fingerprint msg c = (case stun_msg_attr msg STUN_ATTR_FINGERPRINT of
     None \<Rightarrow> EPROTO | Some a \<Rightarrow> if at_v a = U32V (stun_fingerprint (fp_bytes msg (mbuf_rest c))) then 0 else EBADMSG, c)"
proof (cases "stun_msg_attr msg STUN_ATTR_FINGERPRINT")
  case (Some a)
  note r = receivedD [OF assms]
  have "length (mbuf_rest c) < size_mod" using r(1) by (auto simp: mbuf_ok_def mbuf_wf_def length_mbuf_rest)
  then have n: "sz_sub (sz_add STUN_HEADER_SIZE (unat (sh_len (sm_hdr msg)))) FP_SIZE = 12 + unat (sh_len (sm_hdr msg))"
    using r(3) by (simp add: STUN_HEADER_SIZE_def FP_SIZE_def sz_add_small sz_sub_small)
  show ?thesis
    using Some r n by (simp add: stun_msg_chk_fingerprint_def mbuf_restart mbuf_look_ok fp_bytes_def)
qed (simp add: stun_msg_chk_fingerprint_def)

lemma chk_mi_received:
  assumes E: "alloc_total E" and c: "received E h0 c msg"
    and fp: "stun_msg_attr msg STUN_ATTR_FINGERPRINT = None \<or> 12 \<le> unat (sh_len (sm_hdr msg))"
  shows "fst (stun_msg_chk_mi E hmac msg k c) = (case stun_msg_attr msg STUN_ATTR_MSG_INTEGRITY of
     None \<Rightarrow> EPROTO | Some a \<Rightarrow> if at_v a = MiV (hmac k (mi_bytes msg (mbuf_rest c))) then 0 else EBADMSG)"
proof (cases "stun_msg_attr msg STUN_ATTR_MSG_INTEGRITY")
  case (Some a)
  note r = receivedD [OF c]
  let ?n = "unat (sh_len (sm_hdr msg))"
  have len: "length (mbuf_rest c) < size_mod" using r(1) by (auto simp: mbuf_ok_def mbuf_wf_def length_mbuf_rest)
  have 4: "4 \<le> ?n" using r(5) stun_msg_attr_some [OF Some] .
  have sz: "sz_sub (sz_add STUN_HEADER_SIZE m) MI_SIZE = m - 4" if "4 \<le> m" "m \<le> ?n" for m
    using that r(3) len by (simp add: STUN_HEADER_SIZE_def MI_SIZE_def sz_add_small sz_sub_small)
  show ?thesis
  proof (cases "stun_msg_attr msg STUN_ATTR_FINGERPRINT = None")
    case True
    then show ?thesis using Some r 4 sz [of ?n]
      by (simp add: stun_msg_chk_mi_def Let_def mbuf_restart mbuf_look_ok mi_bytes_def)
  next
    case False
    let ?h = "(sm_hdr msg)\<lparr>sh_len := sh_len (sm_hdr msg) - 8\<rparr>"
    obtain old rest where cut: "mbuf_rest c = old @ rest" "length old = 20"
      using r(3) by (metis append_take_drop_id length_take min.absorb2 le_add1 le_trans)
    have 12: "12 \<le> ?n" using fp False by blast
    then have "8 \<le> sh_len (sm_hdr msg)" by (simp add: word_le_nat_alt)
    then have h: "unat (sh_len ?h) = ?n - 8" by (simp add: unat_sub)
    have "length (sh_tid ?h) = 12" using r(4) by simp
    note rw = rewrite_hdr_run [OF E r(1) cut this]
    have "mbuf_look (?n - 12) (rewrite_hdr E ?h c) = (mi_bytes msg (mbuf_rest c), rewrite_hdr E ?h c)"
      unfolding mi_bytes_def if_not_P [OF False] using rw cut r(3,4) by (simp add: mbuf_look_ok)
    then show ?thesis using Some False r 12 h sz [of "?n - 8"]
      by (auto simp: stun_msg_chk_mi_def Let_def mbuf_restart FP_SIZE_def split: prod.splits)
  qed
qed (simp add: stun_msg_chk_mi_def)

lemma fp_bytes_altered:
  assumes "received E h0 c msg" "i < 12 + unat (sh_len (sm_hdr msg))" "b \<noteq> mbuf_rest c ! i"
  shows "stun_fingerprint (fp_bytes msg ((mbuf_rest c)[i := b])) \<noteq> stun_fingerprint (fp_bytes msg (mbuf_rest c))"
proof -
  have l: "12 + unat (sh_len (sm_hdr msg)) \<le> length (mbuf_rest c)" using receivedD(3) [OF assms(1)] by simp
  have "fp_bytes msg ((mbuf_rest c)[i := b]) = (fp_bytes msg (mbuf_rest c))[i := b]"
    by (simp add: fp_bytes_def take_update_swap)
  then show ?thesis using assms(2,3) l crc32_one_byte [of i "fp_bytes msg (mbuf_rest c)" b 0]
    by (simp add: stun_fingerprint_def xor_cancel fp_bytes_def)
qed

text \<open>One altered byte under the fingerprint is found as long as the length in the header and the fingerprint itself
  are read as they were sent.\<close>

lemma chk_fingerprint_altered:
  assumes m: "received E h0 m msg" "fst (stun_msg_chk_fingerprint msg m) = 0"
    and c: "received E' h1 c msg'" "mbuf_rest c = (mbuf_rest m)[i := b]"
    and b: "i < 12 + unat (sh_len (sm_hdr msg))" "b \<noteq> mbuf_rest m ! i"
    and same: "sh_len (sm_hdr msg') = sh_len (sm_hdr msg)"
      "map_option at_v (stun_msg_attr msg' STUN_ATTR_FINGERPRINT) = map_option at_v (stun_msg_attr msg STUN_ATTR_FINGERPRINT)"
  shows "fst (stun_msg_chk_fingerprint msg' c) = EBADMSG"
proof -
  obtain a where a: "stun_msg_attr msg STUN_ATTR_FINGERPRINT = Some a"
    "at_v a = U32V (stun_fingerprint (fp_bytes msg (mbuf_rest m)))"
    using m(2) chk_fingerprint_received [OF m(1)] by (auto split: option.splits if_splits)
  then obtain a' where "stun_msg_attr msg' STUN_ATTR_FINGERPRINT = Some a'" "at_v a' = at_v a"
    using same(2) by auto
  moreover have "fp_bytes msg' (mbuf_rest c) = fp_bytes msg ((mbuf_rest m)[i := b])"
    using same(1) c(2) by (simp add: fp_bytes_def)
  ultimately show ?thesis
    using chk_fingerprint_received [OF c(1)] fp_bytes_altered [OF m(1) b] a(2) by simp
qed



text \<open>C23: whatever the buffer holds \<^verbatim>\<open>stun_msg_decode\<close> ends, reads only bytes of the buffer (the fault flag of the
  model stays clear) and leaves it where it was; a decoded message has no more attributes than its bytes have
  room for.\<close>

theorem stun_msg_decode_ends:
  assumes "mbuf_ok mb"
  shows "\<exists>r ua'. stun_msg_decode E h0 ua mb = Some (r, ua', mb) \<and> \<not> mb_fault mb \<and>
    (\<forall>msg. r = Inr msg \<longrightarrow> sm_start msg = mb_pos mb \<and> 20 + 4 * length (sm_attrl msg) \<le> length (mbuf_rest mb))"
  using stun_msg_decode_total [OF assms] assms by (auto simp: mbuf_ok_def mbuf_wf_def)

theorem stun_msg_decode_ends_witness:
  "\<exists>r ua'. stun_msg_decode ideal_env undefined None mbuf_init = Some (r, ua', mbuf_init)"
  using stun_msg_decode_ends [OF mbuf_init_ok] by blast

end
