(* ===== verification/StunCtrans.thy ===== *)
theory StunCtrans
  imports StunMsg LinkedList
begin

text \<open>
  The STUN stack: client transactions (\<^verbatim>\<open>src/stun/ctrans.c\<close>), the stack itself (\<^verbatim>\<open>stun.c\<close>), requests, replies
  and indications (\<^verbatim>\<open>req.c\<close>, \<^verbatim>\<open>rep.c\<close>, \<^verbatim>\<open>ind.c\<close>). The transactions of a stack are objects in a memory (a map
  from addresses), listed in \<^verbatim>\<open>ctl\<close> in order. Sockets are opaque numbers; what the transport answers is the
  parameter \<open>N\<close>, a function of everything that happened before; what the stack sends and the handlers it calls
  are the entries of a log with their time. A running timer is its expiry; \<open>Tmr\<close> shows that due timers fire.
\<close>

subsection \<open>State\<close>

definition IPPROTO_TCP :: int where "IPPROTO_TCP = 6"
definition IPPROTO_UDP :: int where "IPPROTO_UDP = 17"

definition STUN_CLASS_REQUEST :: u16 where "STUN_CLASS_REQUEST = 0"
definition STUN_CLASS_INDICATION :: u16 where "STUN_CLASS_INDICATION = 1"
definition STUN_CLASS_SUCCESS_RESP :: u16 where "STUN_CLASS_SUCCESS_RESP = 2"
definition STUN_CLASS_ERROR_RESP :: u16 where "STUN_CLASS_ERROR_RESP = 3"

record stun_conf =
  cf_rto :: u32
  cf_rc :: u32
  cf_rm :: u32
  cf_ti :: u32
  cf_tos :: u8

definition STUN_DEFAULT_RTO :: u32 where "STUN_DEFAULT_RTO = 500"
definition STUN_DEFAULT_RC :: u32 where "STUN_DEFAULT_RC = 7"
definition STUN_DEFAULT_RM :: u32 where "STUN_DEFAULT_RM = 16"
definition STUN_DEFAULT_TI :: u32 where "STUN_DEFAULT_TI = 39500"

definition conf_default :: stun_conf where
  "conf_default = \<lparr>cf_rto = STUN_DEFAULT_RTO, cf_rc = STUN_DEFAULT_RC, cf_rm = STUN_DEFAULT_RM,
     cf_ti = STUN_DEFAULT_TI, cf_tos = 0\<rparr>"

text \<open>
  A transaction. \<open>'h\<close> is a response handler with its argument; \<open>ct_ctp\<close> names the caller's variable that holds the
  transaction; \<open>ct_tmr\<close> is the expiry of the timer when it runs.
\<close>

record 'h stun_ctrans =
  ct_tmr :: "u64 option"
  ct_dst :: sa
  ct_tid :: "u8 list"
  ct_ctp :: "nat option"
  ct_key :: "u8 list option"
  ct_sock :: "nat option"
  ct_mb :: mbuf
  ct_pos :: nat
  ct_resph :: "'h option"
  ct_proto :: int
  ct_txc :: u32
  ct_ival :: u32
  ct_met :: u16

text \<open>What the stack does to the outside: datagrams and segments, response handlers, the indication handler.\<close>

datatype 'h stun_ev =
    EvUdp "nat option" sa "u8 list"
  | EvTcp "nat option" "u8 list"
  | EvResp 'h err u16 "u8 list option" "stun_msg option"
  | EvInd 'h stun_msg

record 'h stun =
  st_ctl :: "addr list"
  st_mem :: "addr \<Rightarrow> 'h stun_ctrans option"
  st_conf :: stun_conf
  st_indh :: "'h option"
  st_cells :: "nat \<Rightarrow> addr option"
  st_now :: u64
  st_log :: "(u64 \<times> 'h stun_ev) list"

record 'h stun_net =
  ne_udp :: "(u64 \<times> 'h stun_ev) list \<Rightarrow> err"
  ne_tcp :: "(u64 \<times> 'h stun_ev) list \<Rightarrow> err"
  ne_listen :: "(u64 \<times> 'h stun_ev) list \<Rightarrow> err \<times> nat"
  ne_connect :: "(u64 \<times> 'h stun_ev) list \<Rightarrow> err \<times> nat"

definition log_ev :: "'h stun_ev \<Rightarrow> 'h stun \<Rightarrow> 'h stun" where
  "log_ev e st = st\<lparr>st_log := st_log st @ [(st_now st, e)]\<rparr>"

text \<open>Sending: the bytes from the position of the buffer on leave when the transport reports no error.\<close>

definition udp_send :: "'h stun_net \<Rightarrow> nat option \<Rightarrow> sa \<Rightarrow> mbuf \<Rightarrow> 'h stun \<Rightarrow> err \<times> 'h stun" where
  "udp_send N sock dst mb st = (let err = ne_udp N (st_log st)
     in (err, if err = 0 then log_ev (EvUdp sock dst (mbuf_rest mb)) st else st))"

definition tcp_send :: "'h stun_net \<Rightarrow> nat option \<Rightarrow> mbuf \<Rightarrow> 'h stun \<Rightarrow> err \<times> 'h stun" where
  "tcp_send N sock mb st = (let err = ne_tcp N (st_log st)
     in (err, if err = 0 then log_ev (EvTcp sock (mbuf_rest mb)) st else st))"

definition put_ct :: "addr \<Rightarrow> 'h stun_ctrans \<Rightarrow> 'h stun \<Rightarrow> 'h stun" where
  "put_ct a ct st = st\<lparr>st_mem := (st_mem st)(a \<mapsto> ct)\<rparr>"

subsection \<open>The end of a transaction\<close>

text \<open>\<^verbatim>\<open>mem_deref\<close> of the only reference runs the destructor: off the list, timer cancelled, memory gone.\<close>

definition ctrans_destroy :: "addr \<Rightarrow> 'h stun \<Rightarrow> 'h stun" where
  "ctrans_destroy a st = st\<lparr>st_ctl := remove1 a (st_ctl st), st_mem := (st_mem st)(a := None)\<rparr>"

definition completed ::
  "addr \<Rightarrow> 'h stun_ctrans \<Rightarrow> err \<Rightarrow> u16 \<Rightarrow> u8 list option \<Rightarrow> stun_msg option \<Rightarrow> 'h stun \<Rightarrow> 'h stun" where
  "completed a ct err scode reason msg st = (let
     st = (case ct_ctp ct of None \<Rightarrow> st | Some c \<Rightarrow> st\<lparr>st_cells := (st_cells st)(c := None)\<rparr>);
     st = ctrans_destroy a st
   in case ct_resph ct of None \<Rightarrow> st | Some h \<Rightarrow> log_ev (EvResp h err scode reason msg) st)"

subsection \<open>Timeouts\<close>

definition next_ival :: "stun_conf \<Rightarrow> 'h stun_ctrans \<Rightarrow> u32" where
  "next_ival cfg ct = (if ct_txc ct \<ge> cf_rc cfg then cf_rto cfg * cf_rm cfg else ct_ival ct * 2)"

text \<open>The address is that of a live transaction; nothing is said of a timer of a dead one.\<close>

definition timeout_handler :: "'h stun_net \<Rightarrow> addr \<Rightarrow> 'h stun \<Rightarrow> 'h stun" where
  "timeout_handler N a st = (case st_mem st a of
     None \<Rightarrow> st
   | Some ct \<Rightarrow> (let cfg = st_conf st; txc = ct_txc ct; ct = ct\<lparr>ct_txc := txc + 1\<rparr> in
       if txc \<ge> cf_rc cfg then completed a ct ETIMEDOUT 0 None None st
       else (let ct = ct\<lparr>ct_mb := (ct_mb ct)\<lparr>mb_pos := ct_pos ct\<rparr>\<rparr>
         in case udp_send N (ct_sock ct) (ct_dst ct) (ct_mb ct) st of (err, st) \<Rightarrow>
           if err \<noteq> 0 then completed a ct err 0 None None st
           else (let ct = ct\<lparr>ct_ival := next_ival cfg ct\<rparr>
             in put_ct a (ct\<lparr>ct_tmr := Some (ucast (ct_ival ct) + st_now st)\<rparr>) st))))"

text \<open>As \<^verbatim>\<open>tmr_poll\<close> does for a due timer: it is stopped, then its handler runs.\<close>

definition ctrans_fire :: "'h stun_net \<Rightarrow> addr \<Rightarrow> 'h stun \<Rightarrow> 'h stun" where
  "ctrans_fire N a st = (case st_mem st a of
     None \<Rightarrow> st
   | Some ct \<Rightarrow> timeout_handler N a (put_ct a (ct\<lparr>ct_tmr := None\<rparr>) st))"

subsection \<open>Responses\<close>

definition match_handler :: "stun_msg \<Rightarrow> 'h stun_ctrans \<Rightarrow> bool" where
  "match_handler msg ct =
     (if ct_met ct \<noteq> stun_msg_method msg then False
      else take STUN_TID_SIZE (ct_tid ct) = take STUN_TID_SIZE (stun_msg_tid msg))"

text \<open>The search of the list: the first transaction that matches.\<close>

definition find_ct :: "stun_msg \<Rightarrow> 'h stun \<Rightarrow> addr option" where
  "find_ct msg st = find (\<lambda>a. case st_mem st a of None \<Rightarrow> False | Some ct \<Rightarrow> match_handler msg ct) (st_ctl st)"

text \<open>The error code and the error of the handler; the buffer of the message is passed along.\<close>

definition resp_code :: "stun_msg \<Rightarrow> err \<times> u16 \<times> u8 list option" where
  "resp_code msg =
     (if stun_msg_class msg = STUN_CLASS_ERROR_RESP
      then (case stun_msg_attr msg STUN_ATTR_ERR_CODE of
          None \<Rightarrow> (EPROTO, 0, Some [79, 75])
        | Some a \<Rightarrow> (case at_v a of ErrCodeV c r \<Rightarrow> (0, c, r) | _ \<Rightarrow> (0, 0, Some [79, 75])))
      else (0, 0, Some [79, 75]))"

definition resp_check ::
  "mem_env \<Rightarrow> hmac_fun \<Rightarrow> stun_msg \<Rightarrow> u16 \<Rightarrow> u8 list option \<Rightarrow> mbuf \<Rightarrow> err \<times> mbuf" where
  "resp_check E hmac msg code key mb =
     (if code = 401 \<or> code = 438 then (0, mb)
      else case key of None \<Rightarrow> (0, mb) | Some k \<Rightarrow> stun_msg_chk_mi E hmac msg k mb)"

definition stun_ctrans_recv ::
  "mem_env \<Rightarrow> hmac_fun \<Rightarrow> stun_msg \<Rightarrow> stun_unknown_attr \<Rightarrow> mbuf \<Rightarrow> 'h stun \<Rightarrow> err \<times> mbuf \<times> 'h stun" where
  "stun_ctrans_recv E hmac msg ua mb st =
     (if stun_msg_class msg \<noteq> STUN_CLASS_ERROR_RESP \<and> stun_msg_class msg \<noteq> STUN_CLASS_SUCCESS_RESP then (0, mb, st)
      else case resp_code msg of (herr, code, reason) \<Rightarrow>
       (case find_ct msg st of
          None \<Rightarrow> (ENOENT, mb, st)
        | Some a \<Rightarrow> (let ct = the (st_mem st a) in
            case resp_check E hmac msg code (ct_key ct) mb of (err, mb) \<Rightarrow>
              if err \<noteq> 0 then (err, mb, st)
              else (let herr = (if herr = 0 \<and> ua_typec ua > 0 then EPROTO else herr)
                in (0, mb, completed a ct herr code reason (Some msg) st)))))"

subsection \<open>Requests\<close>

definition sizeof_ctrans :: nat where "sizeof_ctrans = 168"

text \<open>\<open>a\<close> is what the allocator returns.\<close>

definition ctrans_new :: "addr \<Rightarrow> mbuf \<Rightarrow> u8 list \<Rightarrow> u16 \<Rightarrow> int \<Rightarrow> nat option \<Rightarrow> 'h stun_ctrans" where
  "ctrans_new a mb tid met proto sock =
     \<lparr>ct_tmr = None, ct_dst = sa_zero, ct_tid = take STUN_TID_SIZE tid, ct_ctp = None, ct_key = None, ct_sock = sock,
      ct_mb = mb, ct_pos = mb_pos mb, ct_resph = None, ct_proto = proto, ct_txc = 0, ct_ival = 0, ct_met = met\<rparr>"

text \<open>The first transmission, by protocol.\<close>

definition ctrans_start_udp ::
  "'h stun_net \<Rightarrow> addr \<Rightarrow> 'h stun_ctrans \<Rightarrow> nat option \<Rightarrow> sa option \<Rightarrow> mbuf \<Rightarrow> 'h stun \<Rightarrow> err \<times> 'h stun" where
  "ctrans_start_udp N a ct sock dst mb st = (case dst of
     None \<Rightarrow> (EINVAL, put_ct a ct st)
   | Some dst \<Rightarrow> (let rto = cf_rto (st_conf st);
         ct = ct\<lparr>ct_dst := dst, ct_ival := rto, ct_tmr := Some (ucast rto + st_now st)\<rparr>;
         (lerr, lsock) = ne_listen N (st_log st)
       in if sock = None \<and> lerr \<noteq> 0 then (lerr, put_ct a ct st)
          else (let ct = ct\<lparr>ct_sock := (if sock = None then Some lsock else sock), ct_txc := 1\<rparr>
            in udp_send N (ct_sock ct) dst mb (put_ct a ct st))))"

definition ctrans_start_tcp ::
  "'h stun_net \<Rightarrow> addr \<Rightarrow> 'h stun_ctrans \<Rightarrow> nat option \<Rightarrow> mbuf \<Rightarrow> 'h stun \<Rightarrow> err \<times> 'h stun" where
  "ctrans_start_tcp N a ct sock mb st = (let cfg = st_conf st;
       ct = ct\<lparr>ct_txc := cf_rc cfg, ct_tmr := Some (ucast (cf_ti cfg) + st_now st)\<rparr>
     in if sock \<noteq> None then tcp_send N sock mb (put_ct a ct st)
        else (case ne_connect N (st_log st) of (err, s) \<Rightarrow>
          (err, put_ct a (if err = 0 then ct\<lparr>ct_sock := Some s\<rparr> else ct) st)))"

definition ctrans_start ::
  "'h stun_net \<Rightarrow> addr \<Rightarrow> 'h stun_ctrans \<Rightarrow> int \<Rightarrow> nat option \<Rightarrow> sa option \<Rightarrow> mbuf \<Rightarrow> 'h stun \<Rightarrow> err \<times> 'h stun" where
  "ctrans_start N a ct proto sock dst mb st =
     (if proto = IPPROTO_UDP then ctrans_start_udp N a ct sock dst mb st
      else if proto = IPPROTO_TCP then ctrans_start_tcp N a ct sock mb st
      else (EPROTONOSUPPORT, put_ct a ct st))"

definition stun_ctrans_request ::
  "mem_env \<Rightarrow> 'h stun_net \<Rightarrow> addr \<Rightarrow> nat option \<Rightarrow> int \<Rightarrow> nat option \<Rightarrow> sa option \<Rightarrow> mbuf \<Rightarrow> u8 list \<Rightarrow> u16
   \<Rightarrow> u8 list option \<Rightarrow> 'h option \<Rightarrow> 'h stun \<Rightarrow> err \<times> 'h stun" where
  "stun_ctrans_request E N a ctp proto sock dst mb tid met key resph st =
     (if \<not> can_alloc E sizeof_ctrans then (ENOMEM, st)
      else (let ct = ctrans_new a mb tid met proto sock; st = st\<lparr>st_ctl := st_ctl st @ [a]\<rparr>
        in case (case key of
             None \<Rightarrow> ctrans_start N a ct proto sock dst mb st
           | Some k \<Rightarrow> if \<not> can_alloc E (length k) then (ENOMEM, put_ct a ct st)
                       else ctrans_start N a (ct\<lparr>ct_key := Some k\<rparr>) proto sock dst mb st) of (err, st) \<Rightarrow>
           if err \<noteq> 0 then (err, ctrans_destroy a st)
           else (let ct = the (st_mem st a);
                     ct = (if ctp = None then ct else ct\<lparr>ct_ctp := ctp\<rparr>);
                     st = (case ctp of None \<Rightarrow> st | Some c \<Rightarrow> st\<lparr>st_cells := (st_cells st)(c \<mapsto> a)\<rparr>)
             in (0, put_ct a (ct\<lparr>ct_resph := resph\<rparr>) st))))"

subsection \<open>Connections and closing\<close>

definition tcp_estab_handler :: "'h stun_net \<Rightarrow> addr \<Rightarrow> 'h stun \<Rightarrow> 'h stun" where
  "tcp_estab_handler N a st = (case st_mem st a of
     None \<Rightarrow> st
   | Some ct \<Rightarrow> (case tcp_send N (ct_sock ct) (ct_mb ct) st of (err, st) \<Rightarrow>
       if err = 0 then st else completed a ct err 0 None None st))"

definition tcp_close_handler :: "err \<Rightarrow> addr \<Rightarrow> 'h stun \<Rightarrow> 'h stun" where
  "tcp_close_handler err a st = (case st_mem st a of
     None \<Rightarrow> st | Some ct \<Rightarrow> completed a ct err 0 None None st)"

definition close_handler :: "addr \<Rightarrow> 'h stun \<Rightarrow> 'h stun" where
  "close_handler a st = (case st_mem st a of
     None \<Rightarrow> st | Some ct \<Rightarrow> completed a ct ECONNABORTED 0 None None st)"

text \<open>\<^verbatim>\<open>list_apply\<close> visits the transactions that are in the list, also as the handler takes each of them off.\<close>

definition stun_ctrans_close :: "'h stun \<Rightarrow> 'h stun" where
  "stun_ctrans_close st = fold close_handler (st_ctl st) st"

subsection \<open>The stack\<close>

definition stun_alloc :: "stun_conf option \<Rightarrow> 'h option \<Rightarrow> u64 \<Rightarrow> 'h stun" where
  "stun_alloc conf indh now = \<lparr>st_ctl = [], st_mem = (\<lambda>_. None),
     st_conf = (case conf of None \<Rightarrow> conf_default | Some c \<Rightarrow> c), st_indh = indh,
     st_cells = (\<lambda>_. None), st_now = now, st_log = []\<rparr>"

definition stun_send ::
  "'h stun_net \<Rightarrow> int \<Rightarrow> nat option \<Rightarrow> sa \<Rightarrow> mbuf \<Rightarrow> 'h stun \<Rightarrow> err \<times> 'h stun" where
  "stun_send N proto sock dst mb st =
     (if sock = None then (EINVAL, st)
      else if proto = IPPROTO_UDP then udp_send N sock dst mb st
      else if proto = IPPROTO_TCP then tcp_send N sock mb st
      else (EPROTONOSUPPORT, st))"

definition ua_fresh :: stun_unknown_attr where "ua_fresh = \<lparr>ua_typev = replicate 8 0, ua_typec = 0\<rparr>"

text \<open>\<open>h0\<close> and \<open>ua0\<close> are the uninitialised variables on the stack.\<close>

definition stun_recv ::
  "mem_env \<Rightarrow> hmac_fun \<Rightarrow> stun_hdr \<Rightarrow> stun_unknown_attr \<Rightarrow> mbuf \<Rightarrow> 'h stun \<Rightarrow> (err \<times> mbuf \<times> 'h stun) option" where
  "stun_recv E hmac h0 ua0 mb st = (case stun_msg_decode E h0 (Some ua0) mb of
     None \<Rightarrow> None
   | Some (Inl err, _, mb) \<Rightarrow> Some (err, mb, st)
   | Some (Inr msg, ua, mb) \<Rightarrow>
       if stun_msg_class msg = STUN_CLASS_INDICATION then
         Some (0, mb, if ua_typec (the ua) > 0 then st
                      else case st_indh st of None \<Rightarrow> st | Some h \<Rightarrow> log_ev (EvInd h msg) st)
       else if stun_msg_class msg = STUN_CLASS_ERROR_RESP \<or> stun_msg_class msg = STUN_CLASS_SUCCESS_RESP then
         Some (stun_ctrans_recv E hmac msg (the ua) mb st)
       else Some (0, mb, st))"

text \<open>\<open>rnd\<close> are the values of \<^verbatim>\<open>rand_u32\<close>.\<close>

definition rand_tid :: "u32 list \<Rightarrow> u8 list" where "rand_tid rnd = map ucast (take STUN_TID_SIZE rnd)"

definition stun_request ::
  "mem_env \<Rightarrow> hmac_fun \<Rightarrow> 'h stun_net \<Rightarrow> u32 list \<Rightarrow> addr \<Rightarrow> nat option \<Rightarrow> int \<Rightarrow> nat option \<Rightarrow> sa option \<Rightarrow> nat
   \<Rightarrow> u16 \<Rightarrow> u8 list option \<Rightarrow> bool \<Rightarrow> 'h option \<Rightarrow> (u16 \<times> stun_val option) list \<Rightarrow> 'h stun \<Rightarrow> (err \<times> 'h stun) option" where
  "stun_request E hmac N rnd a ctp proto sock dst presz method key fp resph attrs st = (case mbuf_alloc E 512 of
     None \<Rightarrow> Some (ENOMEM, st)
   | Some mb \<Rightarrow> (let tid = rand_tid rnd
       in case stun_msg_vencode E hmac method (ucast STUN_CLASS_REQUEST) (Some tid) None key fp 0 attrs
           (mb\<lparr>mb_pos := presz\<rparr>) of
         None \<Rightarrow> None
       | Some (err, mb) \<Rightarrow>
           if err \<noteq> 0 then Some (err, st)
           else Some (stun_ctrans_request E N a ctp proto sock dst (mb\<lparr>mb_pos := presz\<rparr>) tid method key resph st)))"

text \<open>Replies, without and with an error code, and indications share how a message is built and sent.\<close>

definition encode_send ::
  "mem_env \<Rightarrow> hmac_fun \<Rightarrow> 'h stun_net \<Rightarrow> nat \<Rightarrow> u16 \<Rightarrow> u16 \<Rightarrow> u8 list \<Rightarrow> stun_val option \<Rightarrow> int \<Rightarrow> nat option \<Rightarrow> sa \<Rightarrow> nat
   \<Rightarrow> u8 list option \<Rightarrow> bool \<Rightarrow> (u16 \<times> stun_val option) list \<Rightarrow> 'h stun \<Rightarrow> (err \<times> 'h stun) option" where
  "encode_send E hmac N bufsz met cls tid ec proto sock dst presz key fp attrs st = (case mbuf_alloc E bufsz of
     None \<Rightarrow> Some (ENOMEM, st)
   | Some mb \<Rightarrow> (case stun_msg_vencode E hmac met (ucast cls) (Some tid) ec key fp 0 attrs (mb\<lparr>mb_pos := presz\<rparr>) of
       None \<Rightarrow> None
     | Some (err, mb) \<Rightarrow>
         if err \<noteq> 0 then Some (err, st) else Some (stun_send N proto sock dst (mb\<lparr>mb_pos := presz\<rparr>) st)))"

definition stun_reply ::
  "mem_env \<Rightarrow> hmac_fun \<Rightarrow> 'h stun_net \<Rightarrow> int \<Rightarrow> nat option \<Rightarrow> sa \<Rightarrow> nat \<Rightarrow> stun_msg \<Rightarrow> u8 list option \<Rightarrow> bool
   \<Rightarrow> (u16 \<times> stun_val option) list \<Rightarrow> 'h stun \<Rightarrow> (err \<times> 'h stun) option" where
  "stun_reply E hmac N proto sock dst presz req key fp attrs st =
     (if sock = None then Some (EINVAL, st)
      else encode_send E hmac N 256 (stun_msg_method req) STUN_CLASS_SUCCESS_RESP (stun_msg_tid req) None
        proto sock dst presz key fp attrs st)"

definition stun_ereply ::
  "mem_env \<Rightarrow> hmac_fun \<Rightarrow> 'h stun_net \<Rightarrow> int \<Rightarrow> nat option \<Rightarrow> sa \<Rightarrow> nat \<Rightarrow> stun_msg \<Rightarrow> u16 \<Rightarrow> u8 list option
   \<Rightarrow> u8 list option \<Rightarrow> bool \<Rightarrow> (u16 \<times> stun_val option) list \<Rightarrow> 'h stun \<Rightarrow> (err \<times> 'h stun) option" where
  "stun_ereply E hmac N proto sock dst presz req scode reason key fp attrs st =
     (if sock = None \<or> scode = 0 \<or> reason = None then Some (EINVAL, st)
      else encode_send E hmac N 256 (stun_msg_method req) STUN_CLASS_ERROR_RESP (stun_msg_tid req)
        (Some (ErrCodeV scode reason)) proto sock dst presz key fp attrs st)"

definition stun_indication ::
  "mem_env \<Rightarrow> hmac_fun \<Rightarrow> 'h stun_net \<Rightarrow> u32 list \<Rightarrow> int \<Rightarrow> nat option \<Rightarrow> sa \<Rightarrow> nat \<Rightarrow> u16 \<Rightarrow> u8 list option \<Rightarrow> bool
   \<Rightarrow> (u16 \<times> stun_val option) list \<Rightarrow> 'h stun \<Rightarrow> (err \<times> 'h stun) option" where
  "stun_indication E hmac N rnd proto sock dst presz method key fp attrs st =
     (if sock = None then Some (EINVAL, st)
      else encode_send E hmac N 2048 method STUN_CLASS_INDICATION (rand_tid rnd) None
        proto sock dst presz key fp attrs st)"

subsection \<open>Invariant: every listed transaction lives and its timer runs; handlers are called once\<close>

definition stun_ok :: "'h stun \<Rightarrow> bool" where
  "stun_ok st \<longleftrightarrow> distinct (st_ctl st) \<and> (\<forall>a. (a \<in> set (st_ctl st)) = (st_mem st a \<noteq> None)) \<and>
     (\<forall>a ct. st_mem st a = Some ct \<longrightarrow> ct_tmr ct \<noteq> None)"

definition is_resp :: "'h \<Rightarrow> u64 \<times> 'h stun_ev \<Rightarrow> bool" where
  "is_resp h e = (case snd e of EvResp h' _ _ _ _ \<Rightarrow> h' = h | _ \<Rightarrow> False)"

definition answers :: "'h \<Rightarrow> 'h stun \<Rightarrow> nat" where
  "answers h st = length (filter (is_resp h) (st_log st))"

definition awaits :: "'h \<Rightarrow> 'h stun \<Rightarrow> addr \<Rightarrow> bool" where
  "awaits h st a = (case st_mem st a of None \<Rightarrow> False | Some ct \<Rightarrow> ct_resph ct = Some h)"

definition waiting :: "'h \<Rightarrow> 'h stun \<Rightarrow> nat" where
  "waiting h st = length (filter (awaits h st) (st_ctl st))"

text \<open>What is owed to a handler: the calls it got and those it will get.\<close>

definition owed :: "'h \<Rightarrow> 'h stun \<Rightarrow> nat" where
  "owed h st = answers h st + waiting h st"

lemma is_resp_simps [simp]:
  "\<not> is_resp h (t, EvUdp s d b)" "\<not> is_resp h (t, EvTcp s b)" "\<not> is_resp h (t, EvInd h' m)"
  "is_resp h (t, EvResp h' e c r mo) \<longleftrightarrow> h' = h"
  by (simp_all add: is_resp_def)

lemma st_log_ev [simp]:
  "st_ctl (log_ev e st) = st_ctl st" "st_mem (log_ev e st) = st_mem st" "st_conf (log_ev e st) = st_conf st"
  "st_now (log_ev e st) = st_now st" "st_cells (log_ev e st) = st_cells st"
  "st_log (log_ev e st) = st_log st @ [(st_now st, e)]" "st_indh (log_ev e st) = st_indh st"
  by (simp_all add: log_ev_def)

lemma stun_ok_log [simp]: "stun_ok (log_ev e st) = stun_ok st"
  by (simp add: stun_ok_def)

lemma owed_log: "owed h (log_ev e st) = (if is_resp h (st_now st, e) then 1 else 0) + owed h st"
  by (simp add: owed_def answers_def waiting_def awaits_def [abs_def])

lemma udp_send_ok:
  "udp_send N s d mb st = (err, st') \<Longrightarrow> stun_ok st' = stun_ok st \<and> owed h st' = owed h st \<and>
     st_mem st' = st_mem st \<and> st_ctl st' = st_ctl st"
  by (auto simp: udp_send_def Let_def owed_log split: if_splits)

lemma tcp_send_ok:
  "tcp_send N s mb st = (err, st') \<Longrightarrow> stun_ok st' = stun_ok st \<and> owed h st' = owed h st \<and>
     st_mem st' = st_mem st \<and> st_ctl st' = st_ctl st"
  by (auto simp: tcp_send_def Let_def owed_log split: if_splits)

lemma filter_remove1_length:
  "distinct xs \<Longrightarrow> a \<in> set xs \<Longrightarrow> length (filter P xs) = (if P a then 1 else 0) + length (filter P (remove1 a xs))"
  by (induction xs) auto

lemma awaits_upd: "a \<noteq> b \<Longrightarrow> awaits h (st\<lparr>st_mem := (st_mem st)(b := x)\<rparr>) a = awaits h st a"
  by (simp add: awaits_def)

lemma ctrans_destroy_ok:
  assumes "stun_ok st" "a \<in> set (st_ctl st)"
  shows "stun_ok (ctrans_destroy a st)" "owed h st = (if awaits h st a then 1 else 0) + owed h (ctrans_destroy a st)"
    "st_mem (ctrans_destroy a st) a = None" "set (st_ctl (ctrans_destroy a st)) = set (st_ctl st) - {a}"
proof -
  have d: "distinct (st_ctl st)" using assms(1) by (simp add: stun_ok_def)
  show "stun_ok (ctrans_destroy a st)" using assms(1) by (simp add: stun_ok_def ctrans_destroy_def)
  have "filter (awaits h (ctrans_destroy a st)) (remove1 a (st_ctl st)) = filter (awaits h st) (remove1 a (st_ctl st))"
    using d by (intro filter_cong) (auto simp: ctrans_destroy_def awaits_def)
  then show "owed h st = (if awaits h st a then 1 else 0) + owed h (ctrans_destroy a st)"
    using filter_remove1_length [OF d assms(2), of "awaits h st"]
    by (simp add: owed_def answers_def waiting_def) (simp add: ctrans_destroy_def)
  show "st_mem (ctrans_destroy a st) a = None" "set (st_ctl (ctrans_destroy a st)) = set (st_ctl st) - {a}"
    using d by (simp_all add: ctrans_destroy_def)
qed

lemma completed_ok:
  assumes "stun_ok st" "st_mem st a = Some ct0" "ct_resph ct = ct_resph ct0"
  shows "stun_ok (completed a ct err code reason msg st)" "owed h (completed a ct err code reason msg st) = owed h st"
    "st_mem (completed a ct err code reason msg st) a = None"
    "set (st_ctl (completed a ct err code reason msg st)) = set (st_ctl st) - {a}"
proof -
  have a: "a \<in> set (st_ctl st)" using assms(1,2) by (auto simp: stun_ok_def)
  let ?s = "case ct_ctp ct of None \<Rightarrow> st | Some c \<Rightarrow> st\<lparr>st_cells := (st_cells st)(c := None)\<rparr>"
  have s: "stun_ok ?s" "st_mem ?s = st_mem st" "owed h ?s = owed h st" "awaits h ?s a = awaits h st a" "st_ctl ?s = st_ctl st"
    using assms(1) by (auto simp: stun_ok_def owed_def answers_def waiting_def awaits_def [abs_def] split: option.split)
  have a': "a \<in> set (st_ctl ?s)" using a s(5) by simp
  note d = ctrans_destroy_ok [OF s(1) a']
  show "stun_ok (completed a ct err code reason msg st)" "st_mem (completed a ct err code reason msg st) a = None"
    "set (st_ctl (completed a ct err code reason msg st)) = set (st_ctl st) - {a}"
    using d s(5) by (simp_all add: completed_def Let_def split: option.splits)
  show "owed h (completed a ct err code reason msg st) = owed h st"
    using d(2) [of h] s assms(2,3)
    by (auto simp: completed_def Let_def owed_log awaits_def split: option.splits)
qed

lemma put_ct_ok:
  assumes "stun_ok st" "st_mem st a = Some ct0" "ct_resph ct = ct_resph ct0" "ct_tmr ct \<noteq> None"
  shows "stun_ok (put_ct a ct st)" "owed h (put_ct a ct st) = owed h st"
proof -
  show "stun_ok (put_ct a ct st)" using assms by (auto simp: stun_ok_def put_ct_def)
  have "awaits h (put_ct a ct st) = awaits h st"
    using assms by (auto simp: awaits_def put_ct_def fun_eq_iff)
  then show "owed h (put_ct a ct st) = owed h st"
    by (simp add: owed_def answers_def waiting_def) (simp add: put_ct_def)
qed

lemma completed_put [simp]: "completed a ct err code reason msg (put_ct a x st) = completed a ct err code reason msg st"
  by (simp add: completed_def Let_def put_ct_def ctrans_destroy_def log_ev_def split: option.split)

lemma put_ct_log [simp]: "put_ct a ct' (log_ev e (put_ct a x st)) = put_ct a ct' (log_ev e st)"
  by (simp add: put_ct_def log_ev_def)

lemma st_put_ct [simp]:
  "st_mem (put_ct a ct st) a = Some ct" "st_conf (put_ct a ct st) = st_conf st" "st_now (put_ct a ct st) = st_now st"
  "st_log (put_ct a ct st) = st_log st" "st_ctl (put_ct a ct st) = st_ctl st"
  by (simp_all add: put_ct_def)

text \<open>Outcomes of a timeout: the transaction is over, or it was sent once more and its timer runs.\<close>

definition resent :: "stun_conf \<Rightarrow> u64 \<Rightarrow> 'h stun_ctrans \<Rightarrow> 'h stun_ctrans" where
  "resent cfg now ct = (let ct = ct\<lparr>ct_txc := ct_txc ct + 1, ct_mb := (ct_mb ct)\<lparr>mb_pos := ct_pos ct\<rparr>\<rparr>
     in ct\<lparr>ct_ival := next_ival cfg ct, ct_tmr := Some (ucast (next_ival cfg ct) + now)\<rparr>)"

definition sent_again :: "'h stun_ctrans \<Rightarrow> 'h stun_ev" where
  "sent_again ct = EvUdp (ct_sock ct) (ct_dst ct) (mbuf_rest ((ct_mb ct)\<lparr>mb_pos := ct_pos ct\<rparr>))"

lemma resent_simps [simp]:
  "ct_resph (resent cfg now ct) = ct_resph ct" "ct_tmr (resent cfg now ct) \<noteq> None"
  "ct_txc (resent cfg now ct) = ct_txc ct + 1" "sent_again (resent cfg now ct) = sent_again ct"
  by (simp_all add: resent_def Let_def sent_again_def)

lemma ctrans_fire_cases:
  assumes "st_mem st a = Some ct"
  obtains (over) ct' where "ctrans_fire N a st = completed a ct' ETIMEDOUT 0 None None st" "ct_resph ct' = ct_resph ct"
      "ct_txc ct \<ge> cf_rc (st_conf st)"
  | (failed) err ct' where "ctrans_fire N a st = completed a ct' err 0 None None st" "ct_resph ct' = ct_resph ct"
      "err \<noteq> 0" "err = ne_udp N (st_log st)" "ct_txc ct < cf_rc (st_conf st)"
  | (again) "ctrans_fire N a st = put_ct a (resent (st_conf st) (st_now st) ct) (log_ev (sent_again ct) st)"
      "ct_txc ct < cf_rc (st_conf st)"
proof -
  let ?s = "put_ct a (ct\<lparr>ct_tmr := None\<rparr>) st"
  let ?ct = "ct\<lparr>ct_tmr := None, ct_txc := ct_txc ct + 1\<rparr>"
  have nx: "next_ival cfg (ct\<lparr>ct_tmr := x, ct_txc := n, ct_mb := m\<rparr>) = next_ival cfg (ct\<lparr>ct_txc := n, ct_mb := m\<rparr>)"
    for cfg x n m by (simp add: next_ival_def)
  show ?thesis
  proof (cases "ct_txc ct \<ge> cf_rc (st_conf st)")
    case True
    then show ?thesis using over [of ?ct] assms by (simp add: ctrans_fire_def timeout_handler_def Let_def)
  next
    case False
    obtain err s' where u: "udp_send N (ct_sock ct) (ct_dst ct) ((ct_mb ct)\<lparr>mb_pos := ct_pos ct\<rparr>) ?s = (err, s')"
      by (metis prod.collapse)
    show ?thesis
    proof (cases "err = 0")
      case True
      with u have "s' = log_ev (sent_again ct) ?s"
        by (auto simp: udp_send_def Let_def sent_again_def split: if_splits)
      with False True u assms show ?thesis
        by (intro again) (simp_all add: ctrans_fire_def timeout_handler_def Let_def resent_def nx)
    next
      case fail: False
      with u have "s' = ?s" "err = ne_udp N (st_log st)" by (auto simp: udp_send_def Let_def split: if_splits)
      with False fail u assms show ?thesis
        by (intro failed [of "?ct\<lparr>ct_mb := (ct_mb ct)\<lparr>mb_pos := ct_pos ct\<rparr>\<rparr>" err])
          (simp_all add: ctrans_fire_def timeout_handler_def Let_def)
    qed
  qed
qed

lemma ctrans_fire_ok:
  assumes "stun_ok st" "st_mem st a = Some ct"
  shows "stun_ok (ctrans_fire N a st)" "owed h (ctrans_fire N a st) = owed h st"
  using assms
  by (cases rule: ctrans_fire_cases [OF assms(2), of N];
      simp add: completed_ok [OF assms] put_ct_ok [of "log_ev _ st" a ct] owed_log sent_again_def)+

lemma find_ct_some:
  assumes "find_ct msg st = Some a"
  shows "\<exists>ct. st_mem st a = Some ct \<and> match_handler msg ct \<and> a \<in> set (st_ctl st)"
  using assms by (auto simp: find_ct_def find_Some_iff split: option.splits)

text \<open>A received response is for nobody, is not accepted, or completes the transaction it is for.\<close>

lemma stun_ctrans_recv_cases:
  assumes "stun_ctrans_recv E hmac msg ua mb st = (err, mb', st')"
  obtains "st' = st"
  | a ct herr code reason where "st_mem st a = Some ct" "match_handler msg ct" "err = 0"
      "st' = completed a ct herr code reason (Some msg) st"
proof -
  obtain herr code reason where r: "resp_code msg = (herr, code, reason)" by (metis prod.collapse)
  show ?thesis
  proof (cases "find_ct msg st")
    case None
    then show ?thesis using assms r that(1) by (simp add: stun_ctrans_recv_def split: if_splits)
  next
    case (Some a)
    then obtain ct where ct: "st_mem st a = Some ct" "match_handler msg ct" using find_ct_some by blast
    obtain e mb2 where c: "resp_check E hmac msg code (ct_key ct) mb = (e, mb2)" by (metis prod.collapse)
    have "st' = st \<or> (err = 0 \<and> (\<exists>x. st' = completed a ct x code reason (Some msg) st))"
      using assms r Some ct(1) c by (simp add: stun_ctrans_recv_def Let_def split: if_splits) blast+
    then show ?thesis using that ct by blast
  qed
qed

lemma stun_ctrans_recv_ok:
  assumes "stun_ok st" "stun_ctrans_recv E hmac msg ua mb st = (err, mb', st')"
  shows "stun_ok st'" "owed h st' = owed h st"
  using assms(1) completed_ok [OF assms(1)] by (cases rule: stun_ctrans_recv_cases [OF assms(2)]; simp)+

lemma stun_recv_ok:
  assumes "stun_ok st" "stun_recv E hmac h0 ua0 mb st = Some (err, mb', st')"
  shows "stun_ok st'" "owed h st' = owed h st"
  using assms stun_ctrans_recv_ok [OF assms(1)]
  by (auto simp: stun_recv_def owed_log split: option.splits prod.splits sum.splits if_splits)

lemma end_handler_ok:
  assumes "stun_ok st" "st_mem st a = Some ct"
  shows "stun_ok (tcp_estab_handler N a st)" "owed h (tcp_estab_handler N a st) = owed h st"
    "stun_ok (tcp_close_handler e a st)" "owed h (tcp_close_handler e a st) = owed h st"
    "stun_ok (close_handler a st)" "owed h (close_handler a st) = owed h st"
proof -
  obtain err st' where t: "tcp_send N (ct_sock ct) (ct_mb ct) st = (err, st')" by (metis prod.collapse)
  note k = tcp_send_ok [OF t]
  have "stun_ok st'" "st_mem st' a = Some ct" using k assms by auto
  note c = completed_ok [OF this refl]
  show "stun_ok (tcp_estab_handler N a st)" "owed h (tcp_estab_handler N a st) = owed h st"
    using t k c assms by (auto simp: tcp_estab_handler_def)
  show "stun_ok (tcp_close_handler e a st)" "owed h (tcp_close_handler e a st) = owed h st"
    "stun_ok (close_handler a st)" "owed h (close_handler a st) = owed h st"
    using completed_ok [OF assms refl] assms(2) by (simp_all add: tcp_close_handler_def close_handler_def)
qed

lemma stun_ctrans_close_ok:
  assumes "stun_ok st"
  shows "stun_ok (stun_ctrans_close st) \<and> owed h (stun_ctrans_close st) = owed h st \<and> st_ctl (stun_ctrans_close st) = []"
proof -
  have "stun_ok (fold close_handler xs s) \<and> owed h (fold close_handler xs s) = owed h s \<and>
      set (st_ctl (fold close_handler xs s)) = set (st_ctl s) - set xs"
    if "stun_ok s" "set xs \<subseteq> set (st_ctl s)" "distinct xs" for xs s
    using that
  proof (induction xs arbitrary: s)
    case (Cons a xs)
    then obtain ct where m: "st_mem s a = Some ct" by (auto simp: stun_ok_def)
    have c: "set (st_ctl (close_handler a s)) = set (st_ctl s) - {a}"
      using completed_ok(4) [OF Cons.prems(1) m refl] m by (simp add: close_handler_def)
    note e = end_handler_ok(5,6) [OF Cons.prems(1) m]
    have "set xs \<subseteq> set (st_ctl (close_handler a s))" using c Cons.prems(2,3) by auto
    from Cons.IH [OF e(1) this] c e(2) [of h] Cons.prems(3) show ?case by auto
  qed simp
  from this [OF assms order_refl] assms show ?thesis by (auto simp: stun_ok_def stun_ctrans_close_def)
qed


definition started :: "addr \<Rightarrow> 'h stun \<Rightarrow> err \<Rightarrow> 'h stun \<Rightarrow> bool" where
  "started a st err st' \<longleftrightarrow> (\<exists>ct'. st_mem st' = (st_mem st)(a \<mapsto> ct') \<and> ct_resph ct' = None \<and>
     (err = 0 \<longrightarrow> ct_tmr ct' \<noteq> None)) \<and> st_ctl st' = st_ctl st \<and> (\<forall>h. answers h st' = answers h st)"

lemma ctrans_start_ok:
  assumes "ctrans_start N a ct proto sock dst mb st = (err, st')" "ct_resph ct = None"
  shows "started a st err st'"
  using assms
  by (auto simp: started_def ctrans_start_def ctrans_start_udp_def ctrans_start_tcp_def udp_send_def tcp_send_def
      Let_def put_ct_def log_ev_def answers_def split: if_splits option.splits prod.splits)

lemma waiting_other:
  assumes "st_mem st' = (st_mem st)(a \<mapsto> ct)" "a \<notin> set xs"
  shows "filter (awaits h st') xs = filter (awaits h st) xs"
  using assms by (intro filter_cong) (auto simp: awaits_def)

lemma stun_ctrans_request_ok:
  assumes ok: "stun_ok st" and a: "st_mem st a = None"
    and r: "stun_ctrans_request E N a ctp proto sock dst mb tid met key resph st = (err, st')"
  shows "stun_ok st'" "owed h st' = owed h st + (if err = 0 \<and> resph = Some h then 1 else 0)"
proof -
  let ?st = "st\<lparr>st_ctl := st_ctl st @ [a]\<rparr>"
  have na: "a \<notin> set (st_ctl st)" using ok a by (auto simp: stun_ok_def)
  show "stun_ok st'" "owed h st' = owed h st + (if err = 0 \<and> resph = Some h then 1 else 0)"
  proof (atomize (full), cases "can_alloc E sizeof_ctrans")
    case False
    then show "stun_ok st' \<and> owed h st' = owed h st + (if err = 0 \<and> resph = Some h then 1 else 0)"
      using r ok by (auto simp: stun_ctrans_request_def)
  next
    case True
    let ?ct = "ctrans_new a mb tid met proto sock"
    let ?run = "case key of None \<Rightarrow> ctrans_start N a ?ct proto sock dst mb ?st
      | Some k \<Rightarrow> if \<not> can_alloc E (length k) then (ENOMEM, put_ct a ?ct ?st)
                  else ctrans_start N a (?ct\<lparr>ct_key := Some k\<rparr>) proto sock dst mb ?st"
    obtain e s where run: "?run = (e, s)" by (rule prod.exhaust)
    have none: "ct_resph ?ct = None" by (simp add: ctrans_new_def)
    have "started a ?st e s"
    proof (cases key)
      case None
      with run have "ctrans_start N a ?ct proto sock dst mb ?st = (e, s)" by simp
      then show ?thesis using none by (rule ctrans_start_ok)
    next
      case (Some k)
      show ?thesis
      proof (cases "can_alloc E (length k)")
        case False
        with run Some none show ?thesis by (auto simp: started_def put_ct_def answers_def)
      next
        case True
        with run Some have "ctrans_start N a (?ct\<lparr>ct_key := Some k\<rparr>) proto sock dst mb ?st = (e, s)" by simp
        then show ?thesis by (rule ctrans_start_ok) (simp add: none)
      qed
    qed
    then obtain ct' where s: "st_mem s = (st_mem st)(a \<mapsto> ct')" "ct_resph ct' = None" "e = 0 \<Longrightarrow> ct_tmr ct' \<noteq> None"
      "st_ctl s = st_ctl st @ [a]" "answers h s = answers h st"
      by (auto simp: started_def answers_def)
    show "stun_ok st' \<and> owed h st' = owed h st + (if err = 0 \<and> resph = Some h then 1 else 0)"
    proof (cases "e = 0")
      case False
      then have "st' = ctrans_destroy a s" "err = e"
        using r True run by (simp_all add: stun_ctrans_request_def Let_def)
      moreover have "st_ctl (ctrans_destroy a s) = st_ctl st" "st_mem (ctrans_destroy a s) = st_mem st"
        "answers h (ctrans_destroy a s) = answers h st"
        using s na a by (auto simp: ctrans_destroy_def remove1_append fun_upd_idem answers_def)
      ultimately show ?thesis using ok False
        by (auto simp: stun_ok_def owed_def waiting_def awaits_def [abs_def])
    next
      case e0: True
      let ?ct1 = "(if ctp = None then ct' else ct'\<lparr>ct_ctp := ctp\<rparr>)\<lparr>ct_resph := resph\<rparr>"
      have st': "err = 0" "st_ctl st' = st_ctl st @ [a]" "st_mem st' = (st_mem st)(a \<mapsto> ?ct1)" "answers h st' = answers h st"
        using r True run e0 s by (auto simp: stun_ctrans_request_def Let_def put_ct_def answers_def split: option.splits)
      have "stun_ok st'" using ok st' s(3) [OF e0] na by (auto simp: stun_ok_def)
      moreover have "waiting h st' = waiting h st + (if resph = Some h then 1 else 0)"
        using waiting_other [OF st'(3) na, of h] st'(2,3) by (auto simp: waiting_def awaits_def [of h st' a])
      ultimately show ?thesis using st' by (simp add: owed_def)
    qed
  qed
qed

lemma stun_send_ok:
  assumes "stun_send N proto sock dst mb st = (err, st')" "stun_ok st"
  shows "stun_ok st'" "owed h st' = owed h st"
  using assms udp_send_ok [of N sock dst mb st err st' h] tcp_send_ok [of N sock mb st err st' h]
  by (auto simp: stun_send_def split: if_splits)

subsection \<open>Runs of the stack\<close>

text \<open>
  Everything that happens to a stack: time passes, a due timer fires, a datagram arrives, a connection comes up or is
  closed, the application sends a request, or another message, releases a transaction or closes the stack. The
  label is the handler of a request that was accepted.
\<close>

inductive stun_step :: "mem_env \<Rightarrow> hmac_fun \<Rightarrow> 'h stun_net \<Rightarrow> 'h stun \<Rightarrow> 'h option \<Rightarrow> 'h stun \<Rightarrow> bool"
  for E hmac N where
  time: "stun_step E hmac N st None (st\<lparr>st_now := t\<rparr>)"
| fire: "st_mem st a = Some ct \<Longrightarrow> ct_tmr ct = Some e \<Longrightarrow> e \<le> st_now st \<Longrightarrow>
    stun_step E hmac N st None (ctrans_fire N a st)"
| recv: "stun_recv E hmac h0 ua0 mb st = Some (err, mb', st') \<Longrightarrow> stun_step E hmac N st None st'"
| estab: "st_mem st a = Some ct \<Longrightarrow> stun_step E hmac N st None (tcp_estab_handler N a st)"
| closed: "st_mem st a = Some ct \<Longrightarrow> stun_step E hmac N st None (tcp_close_handler err a st)"
| request: "st_mem st a = None \<Longrightarrow>
    stun_request E hmac N rnd a ctp proto sock dst presz met key fp resph attrs st = Some (err, st') \<Longrightarrow>
    stun_step E hmac N st (if err = 0 then resph else None) st'"
| send: "encode_send E hmac N sz met cls tid ec proto sock dst presz key fp attrs st = Some (err, st') \<Longrightarrow>
    stun_step E hmac N st None st'"
| release: "st_mem st a = Some ct \<Longrightarrow> stun_step E hmac N st None (ctrans_destroy a st)"
| close: "stun_step E hmac N st None (stun_ctrans_close st)"

inductive stun_run :: "mem_env \<Rightarrow> hmac_fun \<Rightarrow> 'h stun_net \<Rightarrow> 'h stun \<Rightarrow> 'h option list \<Rightarrow> 'h stun \<Rightarrow> bool"
  for E hmac N where
  nil: "stun_run E hmac N st [] st"
| snoc: "stun_run E hmac N st ls st' \<Longrightarrow> stun_step E hmac N st' l st'' \<Longrightarrow> stun_run E hmac N st (ls @ [l]) st''"

inductive_cases stun_runE: "stun_run E hmac N st ls st'"

lemma stun_step_ok:
  assumes "stun_step E hmac N st l st'" "stun_ok st"
  shows "stun_ok st' \<and> owed h st' \<le> owed h st + (if l = Some h then 1 else 0)"
  using assms
proof (cases rule: stun_step.cases)
  case (time t)
  then show ?thesis using assms(2) by (auto simp: stun_ok_def owed_def answers_def waiting_def awaits_def [abs_def])
next
  case (fire a ct e)
  then show ?thesis using ctrans_fire_ok [OF assms(2)] by simp
next
  case (recv h0 ua0 mb err mb')
  then show ?thesis using stun_recv_ok [OF assms(2)] by simp
next
  case (estab a ct)
  then show ?thesis using end_handler_ok [OF assms(2)] by simp
next
  case (closed a ct err)
  then show ?thesis using end_handler_ok [OF assms(2)] by simp
next
  case (request a rnd ctp proto sock dst presz met key fp resph attrs err)
  then consider "st' = st" | mb tid where "stun_ctrans_request E N a ctp proto sock dst mb tid met key resph st = (err, st')"
    by (auto simp: stun_request_def Let_def split: option.splits prod.splits if_splits)
  then show ?thesis
  proof cases
    case 1
    then show ?thesis using assms(2) by simp
  next
    case 2
    then show ?thesis using stun_ctrans_request_ok [OF assms(2) request(2) 2] request(1) by simp
  qed
next
  case (send sz met cls tid ec proto sock dst presz key fp attrs err)
  then consider "st' = st" | mb where "stun_send N proto sock dst mb st = (err, st')"
    by (auto simp: encode_send_def split: option.splits prod.splits if_splits)
  then show ?thesis using assms(2) stun_send_ok(1) [of N proto sock dst _ st err st'] stun_send_ok(2) [of N proto sock dst _ st err st' h]
    by cases auto
next
  case (release a ct)
  then show ?thesis using assms(2) ctrans_destroy_ok [OF assms(2), of a] by (auto simp: stun_ok_def)
next
  case close
  then show ?thesis using stun_ctrans_close_ok [OF assms(2)] by simp
qed

lemma stun_run_ok:
  "stun_run E hmac N st ls st' \<Longrightarrow> stun_ok st \<Longrightarrow>
   stun_ok st' \<and> owed h st' \<le> owed h st + length (filter (\<lambda>l. l = Some h) ls)"
proof (induction rule: stun_run.induct)
  case (snoc st ls st' l st'')
  then show ?case using stun_step_ok [OF snoc.hyps(2), of h] by (cases "l = Some h") auto
qed simp

lemma stun_alloc_ok: "stun_ok (stun_alloc conf indh now)" "owed h (stun_alloc conf indh now) = 0"
  by (simp_all add: stun_ok_def stun_alloc_def owed_def answers_def waiting_def)

subsection \<open>When requests are repeated\<close>

text \<open>The timer of the transaction expires and fires.\<close>

definition run_timer :: "'h stun_net \<Rightarrow> addr \<Rightarrow> 'h stun \<Rightarrow> 'h stun" where
  "run_timer N a st = (case st_mem st a of
     None \<Rightarrow> st
   | Some ct \<Rightarrow> (case ct_tmr ct of None \<Rightarrow> st | Some e \<Rightarrow> ctrans_fire N a (st\<lparr>st_now := e\<rparr>)))"

definition sends_at :: "u64 \<Rightarrow> nat \<Rightarrow> 'h stun_ev \<Rightarrow> nat \<Rightarrow> (u64 \<times> 'h stun_ev) list" where
  "sends_at now rto ev n = map (\<lambda>i. (now + of_nat (rto * (2 ^ i - 1)), ev)) [0..<n]"

text \<open>The wait after the transmission number \<open>k\<close>, counted from 0.\<close>

definition wait_after :: "stun_conf \<Rightarrow> nat \<Rightarrow> nat" where
  "wait_after cfg k = (if Suc k = unat (cf_rc cfg) then unat (cf_rto cfg) * unat (cf_rm cfg)
     else unat (cf_rto cfg) * 2 ^ k)"

definition conf_small :: "stun_conf \<Rightarrow> bool" where
  "conf_small cfg \<longleftrightarrow> 2 \<le> cf_rc cfg \<and> unat (cf_rto cfg) * 2 ^ unat (cf_rc cfg) < 2 ^ 32 \<and>
     unat (cf_rto cfg) * unat (cf_rm cfg) < 2 ^ 32"

definition after_sends ::
  "u64 \<Rightarrow> (u64 \<times> 'h stun_ev) list \<Rightarrow> stun_conf \<Rightarrow> addr \<Rightarrow> 'h \<Rightarrow> 'h stun_ev \<Rightarrow> nat \<Rightarrow> 'h stun \<Rightarrow> bool" where
  "after_sends now log0 cfg a h ev k st \<longleftrightarrow> st_conf st = cfg \<and>
     st_log st = log0 @ sends_at now (unat (cf_rto cfg)) ev (Suc k) \<and>
     (\<exists>ct. st_mem st a = Some ct \<and> ct_resph ct = Some h \<and> sent_again ct = ev \<and> unat (ct_txc ct) = Suc k \<and>
       (ct_ival ct = of_nat (wait_after cfg k)) \<and>
       ct_tmr ct = Some (now + of_nat (unat (cf_rto cfg) * (2 ^ k - 1) + wait_after cfg k)))"

lemma ucast_of_nat_small: "n < 2 ^ 32 \<Longrightarrow> (ucast (of_nat n :: u32) :: u64) = of_nat n"
  by (simp add: unsigned_of_nat take_bit_nat_eq_self)

lemma unat_less_32: "unat (x :: u32) < 4294967296"
  using unsigned_less [of x] by simp

lemma wait_after_small:
  assumes "conf_small cfg" "k < unat (cf_rc cfg)"
  shows "wait_after cfg k < 2 ^ 32"
proof -
  have "(2 :: nat) ^ k \<le> 2 ^ unat (cf_rc cfg)" using assms(2) by (intro power_increasing) auto
  then have "unat (cf_rto cfg) * 2 ^ k \<le> unat (cf_rto cfg) * 2 ^ unat (cf_rc cfg)" by (rule mult_le_mono2)
  moreover have "unat (cf_rto cfg) * 2 ^ unat (cf_rc cfg) < 2 ^ 32" "unat (cf_rto cfg) * unat (cf_rm cfg) < 2 ^ 32"
    using assms(1) by (simp_all only: conf_small_def)
  ultimately show ?thesis by (cases "Suc k = unat (cf_rc cfg)") (simp_all only: wait_after_def refl if_True if_False le_less_trans)
qed

lemma next_ival_wait:
  assumes "ct_ival ct = of_nat (wait_after cfg k)" "unat (ct_txc ct) = Suc (Suc k)" "Suc (Suc k) \<le> unat (cf_rc cfg)"
  shows "next_ival cfg ct = of_nat (wait_after cfg (Suc k))"
proof -
  have "cf_rc cfg \<le> ct_txc ct \<longleftrightarrow> Suc (Suc k) = unat (cf_rc cfg)"
    using assms(2,3) by (auto simp: word_le_nat_alt)
  then show ?thesis using assms by (auto simp: next_ival_def wait_after_def)
qed

lemma run_timer_again:
  assumes s: "after_sends now log0 cfg a h ev k st" and c: "conf_small cfg" and k: "Suc k < unat (cf_rc cfg)"
    and n: "\<forall>l. ne_udp N l = 0"
  shows "after_sends now log0 cfg a h ev (Suc k) (run_timer N a st)"
proof -
  let ?R = "unat (cf_rto cfg)"
  obtain ct where ct: "st_mem st a = Some ct" "ct_resph ct = Some h" "sent_again ct = ev" "unat (ct_txc ct) = Suc k"
    "ct_ival ct = of_nat (wait_after cfg k)" "ct_tmr ct = Some (now + of_nat (?R * (2 ^ k - 1) + wait_after cfg k))"
    and st: "st_conf st = cfg" "st_log st = log0 @ sends_at now ?R ev (Suc k)"
    using s by (auto simp: after_sends_def)
  have w: "wait_after cfg k = ?R * 2 ^ k" using k by (simp add: wait_after_def)
  have "?R * (2 ^ k - 1) + ?R * 2 ^ k = ?R * (2 ^ Suc k - 1)"
    by (cases "2 ^ k :: nat") (simp_all add: algebra_simps)
  then have t: "ct_tmr ct = Some (now + of_nat (?R * (2 ^ Suc k - 1)))" using ct(6) w by (simp only:)
  let ?t = "now + of_nat (?R * (2 ^ Suc k - 1))"
  let ?s = "st\<lparr>st_now := ?t\<rparr>"
  have m: "st_mem ?s a = Some ct" using ct(1) by simp
  have tx: "unat (ct_txc ct + 1) = Suc (Suc k)"
    using ct(4) k unat_less_32 [of "cf_rc cfg"] by (simp add: unat_word_ariths)
  have lt: "ct_txc ct < cf_rc cfg" using ct(4) k by (simp add: word_less_nat_alt)
  have "ctrans_fire N a ?s = put_ct a (resent cfg ?t ct) (log_ev ev ?s)"
    using n lt st(1) ct(3) by (cases rule: ctrans_fire_cases [OF m, of N]) auto
  then have r: "run_timer N a st = put_ct a (resent cfg ?t ct) (log_ev ev ?s)"
    using ct(1) t by (simp add: run_timer_def)
  have ni: "ct_ival (resent cfg ?t ct) = of_nat (wait_after cfg (Suc k))"
    "ct_tmr (resent cfg ?t ct) = Some (?t + of_nat (wait_after cfg (Suc k)))"
  proof -
    let ?ct = "ct\<lparr>ct_txc := ct_txc ct + 1, ct_mb := (ct_mb ct)\<lparr>mb_pos := ct_pos ct\<rparr>\<rparr>"
    have "next_ival cfg ?ct = of_nat (wait_after cfg (Suc k))"
      by (rule next_ival_wait) (use ct(5) tx k in simp_all)
    moreover have "(ucast (of_nat (wait_after cfg (Suc k)) :: u32) :: u64) = of_nat (wait_after cfg (Suc k))"
      using wait_after_small [OF c k] by (rule ucast_of_nat_small)
    ultimately show "ct_ival (resent cfg ?t ct) = of_nat (wait_after cfg (Suc k))"
      "ct_tmr (resent cfg ?t ct) = Some (?t + of_nat (wait_after cfg (Suc k)))"
      by (simp_all add: resent_def Let_def)
  qed
  have "sends_at now ?R ev (Suc (Suc k)) = sends_at now ?R ev (Suc k) @ [(?t, ev)]"
    by (simp add: sends_at_def)
  then show ?thesis using r ct ni tx st by (simp add: after_sends_def)
qed

lemma run_timer_end:
  assumes s: "after_sends now log0 cfg a h ev k st" and k: "Suc k = unat (cf_rc cfg)"
  shows "st_mem (run_timer N a st) a = None \<and> st_log (run_timer N a st) =
    log0 @ sends_at now (unat (cf_rto cfg)) ev (Suc k) @
      [(now + of_nat (unat (cf_rto cfg) * (2 ^ k - 1) + unat (cf_rto cfg) * unat (cf_rm cfg)), EvResp h ETIMEDOUT 0 None None)]"
proof -
  let ?R = "unat (cf_rto cfg)"
  let ?t = "now + of_nat (?R * (2 ^ k - 1) + ?R * unat (cf_rm cfg))"
  obtain ct where ct: "st_mem st a = Some ct" "ct_resph ct = Some h" "unat (ct_txc ct) = Suc k" "ct_tmr ct = Some ?t"
    and st: "st_conf st = cfg" "st_log st = log0 @ sends_at now ?R ev (Suc k)"
    using s k by (auto simp: after_sends_def wait_after_def)
  let ?s = "st\<lparr>st_now := ?t\<rparr>"
  have m: "st_mem ?s a = Some ct" using ct(1) by simp
  have le: "\<not> ct_txc ct < cf_rc (st_conf ?s)" using ct(3) k st(1) by (simp add: word_less_nat_alt)
  obtain ct' where "ctrans_fire N a ?s = completed a ct' ETIMEDOUT 0 None None ?s" "ct_resph ct' = Some h"
    using le ct(2) by (cases rule: ctrans_fire_cases [OF m, of N]) auto
  then have "run_timer N a st = completed a ct' ETIMEDOUT 0 None None ?s" "ct_resph ct' = Some h"
    using ct by (simp_all add: run_timer_def)
  then show ?thesis using st
    by (auto simp: completed_def Let_def ctrans_destroy_def split: option.splits)
qed

lemma run_timer_all:
  assumes s: "after_sends now log0 cfg a h ev 0 st" and c: "conf_small cfg" and n: "\<forall>l. ne_udp N l = 0"
  shows "st_log ((run_timer N a ^^ unat (cf_rc cfg)) st) =
    log0 @ sends_at now (unat (cf_rto cfg)) ev (unat (cf_rc cfg)) @
      [(now + of_nat (unat (cf_rto cfg) * (2 ^ (unat (cf_rc cfg) - 1) - 1) + unat (cf_rto cfg) * unat (cf_rm cfg)),
        EvResp h ETIMEDOUT 0 None None)] \<and>
    st_mem ((run_timer N a ^^ unat (cf_rc cfg)) st) a = None"
proof -
  have "2 \<le> unat (cf_rc cfg)" using c by (simp add: conf_small_def word_le_nat_alt)
  then obtain m where m: "unat (cf_rc cfg) = Suc m" by (cases "unat (cf_rc cfg)") auto
  have "after_sends now log0 cfg a h ev k ((run_timer N a ^^ k) st)" if "k \<le> m" for k
    using that
  proof (induction k)
    case (Suc k)
    then show ?case using run_timer_again [OF Suc.IH c _ n] m by simp
  qed (simp add: s)
  then have "after_sends now log0 cfg a h ev m ((run_timer N a ^^ m) st)" by simp
  from run_timer_end [OF this, of N] m show ?thesis by simp
qed

text \<open>What a UDP request over an open socket needs to be built and sent.\<close>

definition request_wf ::
  "mem_env \<Rightarrow> hmac_fun \<Rightarrow> 'h stun_net \<Rightarrow> u32 list \<Rightarrow> nat \<Rightarrow> u8 list option \<Rightarrow> (u16 \<times> stun_val option) list \<Rightarrow> bool" where
  "request_wf E hmac N rnd presz key attrs \<longleftrightarrow> alloc_total E \<and> hmac_ok hmac \<and> length rnd = 12 \<and>
     (\<forall>l. ne_udp N l = 0) \<and> attrs_wf (rand_tid rnd) attrs \<and> (\<forall>k. key = Some k \<longrightarrow> length k < size_mod) \<and>
     presz + 52 + body_len (rand_tid rnd) 0 None attrs < size_mod \<and> body_len (rand_tid rnd) 0 None attrs + 32 < 65536"

lemma stun_request_run:
  assumes wf: "request_wf E hmac N rnd presz key attrs"
  obtains st1 ct where "stun_request E hmac N rnd a None IPPROTO_UDP (Some s) (Some dst) presz met key fp (Some h) attrs st = Some (0, st1)"
    "st1 = put_ct a ct (log_ev (EvUdp (Some s) dst (vmsg hmac met 0 (rand_tid rnd) None key fp 0 attrs)) (st\<lparr>st_ctl := st_ctl st @ [a]\<rparr>))"
    "ct_resph ct = Some h" "sent_again ct = EvUdp (Some s) dst (vmsg hmac met 0 (rand_tid rnd) None key fp 0 attrs)"
    "ct_txc ct = 1" "ct_ival ct = cf_rto (st_conf st)" "ct_tmr ct = Some (ucast (cf_rto (st_conf st)) + st_now st)"
    "ct_met ct = met" "ct_tid ct = rand_tid rnd" "ct_key ct = key"
proof -
  let ?tid = "rand_tid rnd"
  let ?m = "vmsg hmac met 0 ?tid None key fp 0 attrs"
  note w = wf [unfolded request_wf_def]
  have tid: "length ?tid = 12" using w by (simp add: rand_tid_def STUN_TID_SIZE_def)
  obtain mb where mb: "mbuf_alloc E 512 = Some mb" "mbuf_wf mb" "mb_end mb = 0"
    using mbuf_alloc_run [of E 512] w by (auto simp: size_mod_def)
  let ?mb = "mb\<lparr>mb_pos := presz\<rparr>"
  have "presz < size_mod" using w by simp
  then have mb': "mbuf_wf ?mb" "mb_end ?mb \<le> mb_pos ?mb" using mb by (simp_all add: mbuf_wf_set_pos)
  have as: "all_attrs None attrs = attrs" by (simp add: all_attrs_def)
  obtain t where t: "stun_msg_vencode E hmac met 0 (Some ?tid) None key fp 0 attrs ?mb = Some (0, t)" "put_at ?mb ?m t"
    using stun_msg_vencode_run [of E ?mb ?tid None attrs hmac 0 met 0 key fp] mb' w tid as by auto
  have "?m \<noteq> []" using length_vmsg [OF tid, of hmac met 0 None key fp 0 attrs] w by auto
  from put_at_rest(2) [OF mb' t(2) this] have rest: "mbuf_rest (t\<lparr>mb_pos := presz\<rparr>) = ?m" by simp
  let ?ct = "(ctrans_new a (t\<lparr>mb_pos := presz\<rparr>) ?tid met IPPROTO_UDP (Some s))\<lparr>ct_key := key, ct_dst := dst,
     ct_ival := cf_rto (st_conf st), ct_tmr := Some (ucast (cf_rto (st_conf st)) + st_now st), ct_sock := Some s, ct_txc := 1,
     ct_resph := Some h\<rparr>"
  have al: "can_alloc E sizeof_ctrans" "\<And>k. key = Some k \<Longrightarrow> can_alloc E (length k)"
    using w by (auto simp: alloc_total_def sizeof_ctrans_def size_mod_def)
  have keyless: "c\<lparr>ct_key := None\<rparr> = c" if "ct_key c = None" for c :: "'a stun_ctrans" using that by simp
  have st: "ctrans_start N a (ctrans_new a (t\<lparr>mb_pos := presz\<rparr>) ?tid met IPPROTO_UDP (Some s)\<lparr>ct_key := key\<rparr>) IPPROTO_UDP
      (Some s) (Some dst) (t\<lparr>mb_pos := presz\<rparr>) (st\<lparr>st_ctl := st_ctl st @ [a]\<rparr>) =
    (0, log_ev (EvUdp (Some s) dst ?m) (put_ct a (?ct\<lparr>ct_resph := None\<rparr>) (st\<lparr>st_ctl := st_ctl st @ [a]\<rparr>)))"
    using w rest by (simp add: ctrans_start_def ctrans_start_udp_def Let_def udp_send_def ctrans_new_def split: prod.split)
  have "stun_ctrans_request E N a None IPPROTO_UDP (Some s) (Some dst) (t\<lparr>mb_pos := presz\<rparr>) ?tid met key (Some h) st =
    (0, put_ct a ?ct (log_ev (EvUdp (Some s) dst ?m) (st\<lparr>st_ctl := st_ctl st @ [a]\<rparr>)))"
    using al st by (cases key) (simp_all add: stun_ctrans_request_def Let_def ctrans_new_def)
  then have "stun_request E hmac N rnd a None IPPROTO_UDP (Some s) (Some dst) presz met key fp (Some h) attrs st =
      Some (0, put_ct a ?ct (log_ev (EvUdp (Some s) dst ?m) (st\<lparr>st_ctl := st_ctl st @ [a]\<rparr>)))"
    using mb(1) t(1) by (simp add: stun_request_def Let_def STUN_CLASS_REQUEST_def)
  from that [OF this refl] show ?thesis using rest tid
    by (simp add: sent_again_def ctrans_new_def STUN_TID_SIZE_def)
qed

lemma after_sends_request:
  assumes "conf_small (st_conf st)" "ct_resph ct = Some h" "sent_again ct = ev" "ct_txc ct = 1"
    "ct_ival ct = cf_rto (st_conf st)" "ct_tmr ct = Some (ucast (cf_rto (st_conf st)) + st_now st)"
  shows "after_sends (st_now st) (st_log st) (st_conf st) a h ev 0 (put_ct a ct (log_ev ev (st\<lparr>st_ctl := l\<rparr>)))"
proof -
  have "2 \<le> unat (cf_rc (st_conf st))" using assms(1) by (simp add: conf_small_def word_le_nat_alt)
  then have w: "wait_after (st_conf st) 0 = unat (cf_rto (st_conf st))" by (auto simp: wait_after_def)
  have "(ucast (cf_rto (st_conf st)) :: u64) = of_nat (unat (cf_rto (st_conf st)))" by simp
  then show ?thesis using assms w by (simp add: after_sends_def sends_at_def add.commute)
qed

subsection \<open>Giving up, whatever the network does\<close>

definition fire_at :: "'h stun_net \<Rightarrow> addr \<Rightarrow> u64 \<Rightarrow> 'h stun \<Rightarrow> 'h stun" where
  "fire_at N a t st = ctrans_fire N a (st\<lparr>st_now := t\<rparr>)"

lemma answers_completed:
  "answers h (completed a ct err code reason msg st) = answers h st + (if ct_resph ct = Some h then 1 else 0)"
  by (auto simp: completed_def Let_def answers_def ctrans_destroy_def split: option.splits)

lemma answers_now [simp]: "answers h (st\<lparr>st_now := t\<rparr>) = answers h st"
  by (simp add: answers_def)

lemma fires_none: "st_mem st a = None \<Longrightarrow> fold (fire_at N a) ts st = st\<lparr>st_now := last (st_now st # ts)\<rparr>"
  by (induction ts arbitrary: st) (simp_all add: fire_at_def ctrans_fire_def)

lemma mem_completed [simp]: "st_mem (completed a ct err code reason msg st) a = None"
  by (auto simp: completed_def Let_def ctrans_destroy_def split: option.split)

lemma fires_end:
  "st_mem st a = Some ct \<Longrightarrow> unat (cf_rc (st_conf st)) < unat (ct_txc ct) + length ts \<Longrightarrow>
   st_mem (fold (fire_at N a) ts st) a = None \<and>
   answers h (fold (fire_at N a) ts st) = answers h st + (if ct_resph ct = Some h then 1 else 0)"
  if "unat (ct_txc ct) \<le> unat (cf_rc (st_conf st))"
  using that
proof (induction ts arbitrary: st ct)
  case (Cons t ts)
  let ?s = "st\<lparr>st_now := t\<rparr>"
  have m: "st_mem ?s a = Some ct" using Cons.prems(1) by simp
  from m show ?case
  proof (cases rule: ctrans_fire_cases [where N = N])
    case (over ct')
    then have "fold (fire_at N a) (t # ts) st =
        (completed a ct' ETIMEDOUT 0 None None ?s)\<lparr>st_now := last (st_now (completed a ct' ETIMEDOUT 0 None None ?s) # ts)\<rparr>"
      using fires_none [of "ctrans_fire N a ?s"] by (simp add: fire_at_def)
    then show ?thesis using over(2) by (simp add: answers_completed)
  next
    case (failed err ct')
    then have "fold (fire_at N a) (t # ts) st =
        (completed a ct' err 0 None None ?s)\<lparr>st_now := last (st_now (completed a ct' err 0 None None ?s) # ts)\<rparr>"
      using fires_none [of "ctrans_fire N a ?s"] by (simp add: fire_at_def)
    then show ?thesis using failed(2) by (simp add: answers_completed)
  next
    case again
    let ?ct = "resent (st_conf ?s) (st_now ?s) ct"
    let ?u = "put_ct a ?ct (log_ev (sent_again ct) ?s)"
    have "unat (ct_txc ct + 1) = Suc (unat (ct_txc ct))"
      using again(2) unat_less_32 [of "cf_rc (st_conf ?s)"] by (simp add: unat_word_ariths word_less_nat_alt)
    then have tx: "unat (ct_txc ?ct) = Suc (unat (ct_txc ct))" by simp
    have u: "st_mem ?u a = Some ?ct" "st_conf ?u = st_conf st" by simp_all
    have "unat (ct_txc ?ct) \<le> unat (cf_rc (st_conf ?u))" using tx again(2) by (simp add: word_less_nat_alt)
    moreover have "unat (cf_rc (st_conf ?u)) < unat (ct_txc ?ct) + length ts" using tx Cons.prems(2) by simp
    ultimately have "st_mem (fold (fire_at N a) ts ?u) a = None \<and>
        answers h (fold (fire_at N a) ts ?u) = answers h ?u + (if ct_resph ?ct = Some h then 1 else 0)"
      using Cons.IH [of ?u ?ct] u(1) by blast
    moreover have "fold (fire_at N a) (t # ts) st = fold (fire_at N a) ts ?u" using again(1) by (simp add: fire_at_def)
    moreover have "answers h ?u = answers h st" by (simp add: answers_def sent_again_def)
    ultimately show ?thesis by simp
  qed
qed simp

subsection \<open>Replies\<close>

lemma find_unique: "a \<in> set xs \<Longrightarrow> P a \<Longrightarrow> \<forall>b \<in> set xs. P b \<longrightarrow> b = a \<Longrightarrow> find P xs = Some a"
proof (induction xs)
  case (Cons x xs)
  show ?case
  proof (cases "P x")
    case True
    then have "x = a" using Cons.prems(3) by (metis list.set_intros(1))
    with True show ?thesis by simp
  next
    case False
    then have "a \<in> set xs" using Cons.prems(1,2) by auto
    from Cons.IH [OF this Cons.prems(2)] Cons.prems(3) have "find P xs = Some a" by (metis list.set_intros(2))
    with False show ?thesis by simp
  qed
qed simp

text \<open>The class of a reply, its code and its reason.\<close>

definition reply_class :: "stun_val option \<Rightarrow> u8" where
  "reply_class ec = (if ec = None then 2 else 3)"

definition reply_code :: "stun_val option \<Rightarrow> u16 \<times> u8 list option" where
  "reply_code ec = (case ec of Some (ErrCodeV c r) \<Rightarrow> (c, r) | _ \<Rightarrow> (0, Some [79, 75]))"

definition accepts ::
  "hmac_fun \<Rightarrow> u16 \<Rightarrow> u8 list \<Rightarrow> stun_val option \<Rightarrow> u8 list option \<Rightarrow> (u16 \<times> stun_val option) list \<Rightarrow> u8 list option \<Rightarrow> bool"
where
  "accepts hmac met tid ec key attrs key' \<longleftrightarrow> key' = None \<or> fst (reply_code ec) = 401 \<or> fst (reply_code ec) = 438 \<or>
     (\<exists>k k'. key = Some k \<and> key' = Some k' \<and>
        hmac k (vmsg_first met (reply_class ec) tid ec True 0 attrs) = hmac k' (vmsg_first met (reply_class ec) tid ec True 0 attrs))"

lemma reply_class_msg:
  assumes "sh_type (sm_hdr msg) = STUN_TYPE met (reply_class ec)" "met AND 0x50 = 0"
  shows "stun_msg_class msg = (if ec = None then STUN_CLASS_SUCCESS_RESP else STUN_CLASS_ERROR_RESP)"
  using stun_class_type [OF assms(2), of "reply_class ec"] assms(1)
  by (simp add: stun_msg_class_def stun_msg_type_def reply_class_def STUN_CLASS_SUCCESS_RESP_def STUN_CLASS_ERROR_RESP_def)

lemma reply_code_msg:
  assumes "stun_msg_class msg = (if ec = None then STUN_CLASS_SUCCESS_RESP else STUN_CLASS_ERROR_RESP)"
    and "attrs_agree (vmsg_attrs hmac met cls tid ec key fp 0 attrs) (sm_attrl msg)" "ec = None \<or> ec = Some (ErrCodeV c r)"
  shows "resp_code msg = (0, reply_code ec)"
proof (cases ec)
  case None
  then show ?thesis using assms(1)
    by (simp add: resp_code_def reply_code_def STUN_CLASS_SUCCESS_RESP_def STUN_CLASS_ERROR_RESP_def)
next
  case (Some v)
  then have v: "v = ErrCodeV c r" using assms(3) by simp
  obtain bs where "vmsg_attrs hmac met cls tid ec key fp 0 attrs = [] @ (STUN_ATTR_ERR_CODE, Some (ErrCodeV c r)) # bs"
    using Some v by (cases fp) (simp_all add: vmsg_attrs_def all_attrs_def Let_def)
  with assms(2) find_agree [of "[]" STUN_ATTR_ERR_CODE "ErrCodeV c r" bs "sm_attrl msg"]
  obtain a where "stun_msg_attr msg STUN_ATTR_ERR_CODE = Some a" "at_v a = ErrCodeV c r"
    by (auto simp: stun_msg_attr_def val_agrees_def)
  then show ?thesis using assms(1) Some v by (simp add: resp_code_def reply_code_def)
qed

lemma no_mi:
  assumes "attrs_agree (vmsg_attrs hmac met cls tid ec None fp 0 attrs) (sm_attrl msg)" "no_checks ec attrs"
  shows "stun_msg_chk_mi E hmac msg k mb = (EPROTO, mb)"
proof -
  have "\<forall>x \<in> set (vmsg_attrs hmac met cls tid ec None fp 0 attrs). fst x \<noteq> STUN_ATTR_MSG_INTEGRITY"
    using assms(2) by (auto simp: no_checks_def vmsg_attrs_def mi_part_def fp_part_def fp_attr_def Let_def split: if_splits)
  from find_disagree [OF assms(1) this] show ?thesis by (simp add: stun_msg_chk_mi_def stun_msg_attr_def)
qed

lemma reply_check:
  assumes wf: "vmsg_wf E hmac tid ec key 0 attrs mb0" and nc: "no_checks ec attrs"
    and mb: "mbuf_ok mb" "mbuf_rest mb = vmsg hmac met (reply_class ec) tid ec key fp 0 attrs"
    and msg: "sm_start msg = mb_pos mb" "attrs_agree (vmsg_attrs hmac met (reply_class ec) tid ec key fp 0 attrs) (sm_attrl msg)"
      "sm_hdr msg = msg_hdr met (reply_class ec) tid (length (vmsg hmac met (reply_class ec) tid ec key fp 0 attrs) - 20)"
  shows "\<exists>mb'. resp_check E hmac msg (fst (reply_code ec)) key' mb =
    (if accepts hmac met tid ec key attrs key' then 0 else if key = None then EPROTO else EBADMSG, mb')"
proof -
  have w: "alloc_total E" "hmac_ok hmac" "length tid = 12" "body_len tid 0 ec attrs + 32 < 65536"
    using wf by (simp_all add: vmsg_wf_def)
  show ?thesis
  proof (cases key')
    case None
    then show ?thesis by (simp add: resp_check_def accepts_def)
  next
    case (Some k')
    show ?thesis
    proof (cases key)
      case None
      then show ?thesis using Some no_mi [of hmac met "reply_class ec" tid ec fp attrs msg E k'] msg(2) nc
        by (auto simp: resp_check_def accepts_def)
    next
      case (Some k)
      have "mbuf_rest mb = vmsg hmac met (reply_class ec) tid ec (Some k) fp 0 attrs @ []" using mb(2) Some by simp
      from stun_msg_chk_mi_run [OF w(1-3) nc mb(1) this msg(1) _ _ w(4), of k'] msg(2,3) Some \<open>key' = Some k'\<close>
      show ?thesis by (auto simp: resp_check_def accepts_def)
    qed
  qed
qed

lemma stun_recv_reply:
  assumes ok: "stun_ok st" and a: "st_mem st a = Some ct" "ct_met ct = met" "ct_tid ct = tid"
    and uniq: "\<forall>b c. st_mem st b = Some c \<and> ct_met c = met \<and> take 12 (ct_tid c) = tid \<longrightarrow> b = a"
    and met: "met AND 0x50 = 0" "met AND 0xfff = met" and ec: "ec = None \<or> ec = Some (ErrCodeV c r)"
    and wf: "vmsg_wf E hmac tid ec key 0 attrs mb" and nc: "no_checks ec attrs"
  shows "\<exists>t msg mb'. stun_msg_vencode E hmac met (reply_class ec) (Some tid) ec key fp 0 attrs mb = Some (0, t) \<and>
    stun_recv E hmac h0 ua0 (t\<lparr>mb_pos := mb_pos mb\<rparr>) st = Some
      (if accepts hmac met tid ec key attrs (ct_key ct)
       then (0, mb', completed a ct 0 (fst (reply_code ec)) (snd (reply_code ec)) (Some msg) st)
       else (if key = None then EPROTO else EBADMSG, mb', st))"
proof -
  let ?cls = "reply_class ec"
  obtain t msg where m: "stun_msg_vencode E hmac met ?cls (Some tid) ec key fp 0 attrs mb = Some (0, t)"
    "stun_msg_decode E h0 (Some ua0) (t\<lparr>mb_pos := mb_pos mb\<rparr>) =
       Some (Inr msg, map_option (\<lambda>u. u\<lparr>ua_typec := 0\<rparr>) (Some ua0), t\<lparr>mb_pos := mb_pos mb\<rparr>)"
    "mbuf_ok (t\<lparr>mb_pos := mb_pos mb\<rparr>)" "mbuf_rest (t\<lparr>mb_pos := mb_pos mb\<rparr>) = vmsg hmac met ?cls tid ec key fp 0 attrs"
    "sm_start msg = mb_pos mb" "attrs_agree (vmsg_attrs hmac met ?cls tid ec key fp 0 attrs) (sm_attrl msg)"
    "sm_hdr msg = msg_hdr met ?cls tid (length (vmsg hmac met ?cls tid ec key fp 0 attrs) - 20)"
    by (rule stun_msg_coded [OF wf])
  let ?mb = "t\<lparr>mb_pos := mb_pos mb\<rparr>"
  have "length tid = 12" using wf by (simp add: vmsg_wf_def)
  have ty: "sh_type (sm_hdr msg) = STUN_TYPE met ?cls" "stun_msg_tid msg = tid"
    using m(7) by (simp_all add: msg_hdr_def stun_msg_tid_def)
  then have mm: "stun_msg_method msg = met" using met(2) by (simp add: stun_msg_method_def stun_msg_type_def stun_method_type)
  note cl = reply_class_msg [OF ty(1) met(1)]
  have f: "find_ct msg st = Some a" unfolding find_ct_def
    using ok a uniq mm ty(2) \<open>length tid = 12\<close>
    by (intro find_unique) (auto simp: stun_ok_def match_handler_def STUN_TID_SIZE_def split: option.splits if_splits)
  have "sm_start msg = mb_pos ?mb" using m(5) by simp
  from reply_check [OF wf nc m(3,4) this m(6,7), of "ct_key ct"] obtain mb' where
    rc: "resp_check E hmac msg (fst (reply_code ec)) (ct_key ct) ?mb =
    (if accepts hmac met tid ec key attrs (ct_key ct) then 0 else if key = None then EPROTO else EBADMSG, mb')"
    by blast
  have code: "resp_code msg = (0, fst (reply_code ec), snd (reply_code ec))"
    using reply_code_msg [OF cl m(6) ec] by simp
  have "stun_ctrans_recv E hmac msg (ua0\<lparr>ua_typec := 0\<rparr>) ?mb st =
      (if accepts hmac met tid ec key attrs (ct_key ct)
       then (0, mb', completed a ct 0 (fst (reply_code ec)) (snd (reply_code ec)) (Some msg) st)
       else (if key = None then EPROTO else EBADMSG, mb', st))"
    using cl code f a(1) rc
    by (cases "reply_code ec"; cases "ec = None"; cases "accepts hmac met tid ec key attrs (ct_key ct)"; cases "key = None")
      (simp_all add: stun_ctrans_recv_def Let_def)
  then show ?thesis using m(1,2) cl
    by (auto simp: stun_recv_def STUN_CLASS_SUCCESS_RESP_def STUN_CLASS_ERROR_RESP_def STUN_CLASS_INDICATION_def)
qed

subsection \<open>Properties\<close>

text \<open>C24: the retransmission schedule of a request over UDP that nobody answers, with a network that takes every
  datagram: \<^verbatim>\<open>rc\<close> copies of the same message leave, copy \<open>i\<close> at \<open>rto * (2^i - 1)\<close> milliseconds after the first, and
  \<^verbatim>\<open>rm * rto\<close> after the last one the response handler is called once, with \<^verbatim>\<open>ETIMEDOUT\<close>; the transaction is
  gone. (With the default configuration: seven copies, and the timeout after 39.5 seconds.)\<close>

theorem stun_request_schedule:
  assumes "request_wf E hmac N rnd presz key attrs" "conf_small (st_conf st)"
  shows "\<exists>st1. stun_request E hmac N rnd a None IPPROTO_UDP (Some s) (Some dst) presz met key fp (Some h) attrs st = Some (0, st1) \<and>
    st_log ((run_timer N a ^^ unat (cf_rc (st_conf st))) st1) = st_log st @
      map (\<lambda>i. (st_now st + of_nat (unat (cf_rto (st_conf st)) * (2 ^ i - 1)),
                EvUdp (Some s) dst (vmsg hmac met 0 (rand_tid rnd) None key fp 0 attrs)))
        [0..<unat (cf_rc (st_conf st))] @
      [(st_now st + of_nat (unat (cf_rto (st_conf st)) * (2 ^ (unat (cf_rc (st_conf st)) - 1) - 1) +
          unat (cf_rto (st_conf st)) * unat (cf_rm (st_conf st))), EvResp h ETIMEDOUT 0 None None)] \<and>
    st_mem ((run_timer N a ^^ unat (cf_rc (st_conf st))) st1) a = None"
proof -
  let ?ev = "EvUdp (Some s) dst (vmsg hmac met 0 (rand_tid rnd) None key fp 0 attrs)"
  obtain st1 ct where r: "stun_request E hmac N rnd a None IPPROTO_UDP (Some s) (Some dst) presz met key fp (Some h) attrs st = Some (0, st1)"
    "st1 = put_ct a ct (log_ev ?ev (st\<lparr>st_ctl := st_ctl st @ [a]\<rparr>))" "ct_resph ct = Some h" "sent_again ct = ?ev"
    "ct_txc ct = 1" "ct_ival ct = cf_rto (st_conf st)" "ct_tmr ct = Some (ucast (cf_rto (st_conf st)) + st_now st)"
    by (rule stun_request_run [OF assms(1)])
  have "\<forall>l. ne_udp N l = 0" using assms(1) by (simp add: request_wf_def)
  from run_timer_all [OF after_sends_request [OF assms(2) r(3-7)] assms(2) this] r(1,2)
  show ?thesis by (auto simp: sends_at_def)
qed

definition quiet_net :: "'h stun_net" where
  "quiet_net = \<lparr>ne_udp = \<lambda>_. 0, ne_tcp = \<lambda>_. 0, ne_listen = \<lambda>_. (0, 0), ne_connect = \<lambda>_. (0, 0)\<rparr>"

definition sample_rnd :: "u32 list" where "sample_rnd = map of_nat [0..<12]"

lemma sample_request: "request_wf ideal_env sample_hmac quiet_net sample_rnd 0 None []"
  by (simp add: request_wf_def sample_hmac_ok quiet_net_def sample_rnd_def attrs_wf_def all_attrs_def size_mod_def)

lemma default_small: "conf_small conf_default"
  by (simp add: conf_small_def conf_default_def STUN_DEFAULT_RTO_def STUN_DEFAULT_RC_def STUN_DEFAULT_RM_def)

theorem stun_request_schedule_witness:
  "\<exists>st1. stun_request ideal_env sample_hmac quiet_net sample_rnd 1 None IPPROTO_UDP (Some 5) (Some sa_zero) 0 1 None False
      (Some (3 :: nat)) [] (stun_alloc None None 1000) = Some (0, st1) \<and>
    map fst (st_log ((run_timer quiet_net 1 ^^ 7) st1)) = [1000, 1500, 2500, 4500, 8500, 16500, 32500, 40500]"
  using stun_request_schedule [OF sample_request, of "stun_alloc None None 1000" 1 5 sa_zero 1 False "3 :: nat"] default_small
  by (auto simp: stun_alloc_def conf_default_def STUN_DEFAULT_RTO_def STUN_DEFAULT_RC_def STUN_DEFAULT_RM_def upt_rec)

text \<open>C25: in every run of a stack, with datagrams, timeouts, closed connections and requests in any order, a response
  handler is called at most once for each request that was accepted with it, and never again once no transaction
  holds it; every transaction in the list is live and has a running timer.\<close>

theorem stun_handler_once:
  assumes "stun_run E hmac N (stun_alloc conf indh now) ls st"
  shows "answers h st + waiting h st \<le> length (filter (\<lambda>l. l = Some h) ls) \<and> distinct (st_ctl st) \<and>
    (\<forall>a \<in> set (st_ctl st). \<exists>ct. st_mem st a = Some ct \<and> ct_tmr ct \<noteq> None)"
  using stun_run_ok [OF assms stun_alloc_ok(1), of h] stun_alloc_ok(2) [of h conf indh now]
  by (auto simp: owed_def stun_ok_def)

theorem stun_handler_once_witness:
  "\<exists>st. stun_run ideal_env sample_hmac quiet_net (stun_alloc None None 0) [Some (3 :: nat), None] st \<and> answers (3 :: nat) st + waiting (3 :: nat) st \<le> 1"
proof -
  let ?st = "stun_alloc None None 0"
  obtain st1 where r: "stun_request ideal_env sample_hmac quiet_net sample_rnd 1 None IPPROTO_UDP (Some 5) (Some sa_zero) 0 1
      None False (Some (3 :: nat)) [] ?st = Some (0, st1)"
    by (rule stun_request_run [OF sample_request, where a = 1 and s = 5 and dst = sa_zero and met = 1 and fp = False
        and h = "3 :: nat" and st = ?st]) (rule that)
  have "st_mem ?st 1 = None" by (simp add: stun_alloc_def)
  from stun_step.request [OF this r] have "stun_step ideal_env sample_hmac quiet_net ?st (Some 3) st1" by simp
  from stun_run.snoc [OF stun_run.snoc [OF stun_run.nil this] stun_step.close]
  have run: "stun_run ideal_env sample_hmac quiet_net ?st [Some (3 :: nat), None] (stun_ctrans_close st1)" by simp
  from stun_handler_once [OF this, of "3 :: nat"] run show ?thesis by auto
qed

text \<open>C26: a transaction always ends. Whatever the network answers to the datagrams and however late the timer fires,
  after it has fired more than \<^verbatim>\<open>rc\<close> minus the number of copies sent times, the transaction is gone and its
  handler has been called exactly once.\<close>

theorem stun_ctrans_ends:
  assumes "st_mem st a = Some ct" "ct_resph ct = Some h" "unat (ct_txc ct) \<le> unat (cf_rc (st_conf st))"
    and "unat (cf_rc (st_conf st)) < unat (ct_txc ct) + length ts"
  shows "st_mem (fold (fire_at N a) ts st) a = None \<and> answers h (fold (fire_at N a) ts st) = Suc (answers h st)"
  using fires_end [OF assms(3,1,4), of N h] assms(2) by simp

theorem stun_ctrans_ends_witness:
  "\<exists>st. st_mem st 1 \<noteq> None \<and> answers (3 :: nat) (fold (fire_at quiet_net 1) [1, 2, 3, 4, 5, 6, 7] st) = Suc (answers (3 :: nat) st)"
proof -
  let ?ct = "(ctrans_new 1 mbuf_init [] 1 17 None)\<lparr>ct_resph := Some (3 :: nat), ct_txc := 1\<rparr>"
  let ?st = "put_ct 1 ?ct (stun_alloc None None 0)"
  have "answers (3 :: nat) (fold (fire_at quiet_net 1) [1, 2, 3, 4, 5, 6, 7] ?st) = Suc (answers (3 :: nat) ?st)"
    using stun_ctrans_ends [of ?st 1 ?ct "3 :: nat" "[1, 2, 3, 4, 5, 6, 7]" quiet_net]
    by (simp add: stun_alloc_def conf_default_def STUN_DEFAULT_RC_def)
  then show ?thesis by (intro exI [of _ ?st]) simp
qed

text \<open>C27: a reply ends the transaction it answers. In a stack where one transaction has the method and the transaction
  identifier of the reply, a success or error reply with any attributes, encoded by the peer, completes exactly this
  transaction with the reply's code and reason when the request had no key, or the code is 401 or 438, or the digest
  under the request's key is the one in the reply; otherwise the stack is left as it was and the error says why.\<close>

theorem stun_reply_completes:
  assumes "stun_ok st" "st_mem st a = Some ct" "ct_met ct = met" "ct_tid ct = tid"
    and "\<forall>b c. st_mem st b = Some c \<and> ct_met c = met \<and> take 12 (ct_tid c) = tid \<longrightarrow> b = a"
    and "met AND 0x50 = 0" "met AND 0xfff = met" "ec = None \<or> ec = Some (ErrCodeV c r)"
    and "vmsg_wf E hmac tid ec key 0 attrs mb" "no_checks ec attrs"
  shows "\<exists>t msg mb'. stun_msg_vencode E hmac met (reply_class ec) (Some tid) ec key fp 0 attrs mb = Some (0, t) \<and>
    stun_recv E hmac h0 ua0 (t\<lparr>mb_pos := mb_pos mb\<rparr>) st = Some
      (if accepts hmac met tid ec key attrs (ct_key ct)
       then (0, mb', completed a ct 0 (fst (reply_code ec)) (snd (reply_code ec)) (Some msg) st)
       else (if key = None then EPROTO else EBADMSG, mb', st))"
  by (rule stun_recv_reply [OF assms])

theorem stun_reply_completes_witness:
  "\<exists>(st :: nat stun) t msg mb'. stun_recv ideal_env sample_hmac undefined ua_fresh (t\<lparr>mb_pos := 0\<rparr>) st =
     Some (0, mb', completed 1 (the (st_mem st 1)) 0 0 (Some [79, 75]) (Some msg) st)"
proof -
  let ?ct = "(ctrans_new 1 mbuf_init sample_tid 1 17 None)\<lparr>ct_resph := Some (3 :: nat), ct_txc := 1, ct_tmr := Some 500\<rparr>"
  let ?st = "(stun_alloc None None 0)\<lparr>st_ctl := [1], st_mem := [1 \<mapsto> ?ct]\<rparr>"
  have ok: "stun_ok ?st" by (simp add: stun_ok_def)
  have m: "st_mem ?st 1 = Some ?ct" "ct_met ?ct = 1" "ct_tid ?ct = sample_tid" "ct_key ?ct = None"
    by (simp_all add: ctrans_new_def sample_tid_def STUN_TID_SIZE_def)
  have "accepts sample_hmac 1 sample_tid None (Some [1, 2]) sample_attrs (ct_key ?ct)" using m(4) by (simp add: accepts_def)
  moreover have u: "\<forall>b c. st_mem ?st b = Some c \<and> ct_met c = 1 \<and> take 12 (ct_tid c) = sample_tid \<longrightarrow> b = 1" by simp
  have w: "(1 :: u16) AND 0x50 = 0" "(1 :: u16) AND 0xfff = 1" by simp_all
  have n: "no_checks None sample_attrs" by (simp add: no_checks_def all_attrs_def sample_attrs_def)
  have "mb_pos mbuf_init = 0" "reply_code None = (0, Some [79, 75])" by (simp_all add: mbuf_init_def reply_code_def)
  ultimately have "\<exists>t msg mb'. stun_recv ideal_env sample_hmac undefined ua_fresh (t\<lparr>mb_pos := 0\<rparr>) ?st =
      Some (0, mb', completed 1 ?ct 0 0 (Some [79, 75]) (Some msg) ?st)"
    using stun_reply_completes [OF ok m(1-3) u w disjI1 [OF refl] sample_wf n, where ?h0.0 = undefined and ?ua0.0 = ua_fresh and fp = True]
    by (simp only: if_True fst_conv snd_conv) blast
  then show ?thesis using m(1) by (intro exI [of _ ?st]) simp
qed

text \<open>closing a stack calls every waiting handler exactly once more and leaves no transaction.\<close>

theorem stun_close_answers:
  assumes "stun_ok st"
  shows "st_ctl (stun_ctrans_close st) = [] \<and> (\<forall>a. st_mem (stun_ctrans_close st) a = None) \<and>
    answers h (stun_ctrans_close st) = answers h st + waiting h st"
proof -
  have c: "stun_ok (stun_ctrans_close st)" "st_ctl (stun_ctrans_close st) = []"
    "owed h (stun_ctrans_close st) = owed h st"
    using stun_ctrans_close_ok [OF assms] by auto
  then have "waiting h (stun_ctrans_close st) = 0" by (simp add: waiting_def)
  with c show ?thesis by (auto simp: stun_ok_def owed_def)
qed

theorem stun_close_answers_witness:
  "answers (3 :: nat) (stun_ctrans_close (stun_alloc None None 0)) = answers (3 :: nat) (stun_alloc None None 0) + waiting (3 :: nat) (stun_alloc None None 0)"
  using stun_close_answers [OF stun_alloc_ok(1) [of None None 0], of "3 :: nat"] by simp

end
