(* ===== verification/Dns.thy ===== *)
theory Dns
  imports Mbuf Pl HashTable
begin

text \<open>
  DNS messages: \<^verbatim>\<open>src/dns/hdr.c\<close>, \<^verbatim>\<open>cstr.c\<close>, \<^verbatim>\<open>dname.c\<close> and \<^verbatim>\<open>rr.c\<close>. C strings are the bytes before the zero. The
  table of domain names that the encoder compresses with is the sequence of its entries in the order they were
  added: equal names, case ignored, are in the same bucket (\<open>dname_same_bucket\<close>), and \<open>HashTable\<close> shows that a
  lookup finds the first entry of the bucket that matches.
\<close>

subsection \<open>Header\<close>

record dnshdr =
  dh_id :: u16
  dh_qr :: bool
  dh_opcode :: u8
  dh_aa :: bool
  dh_tc :: bool
  dh_rd :: bool
  dh_ra :: bool
  dh_z :: u8
  dh_rcode :: u8
  dh_nq :: u16
  dh_nans :: u16
  dh_nauth :: u16
  dh_nadd :: u16

definition DNS_HEADER_SIZE :: nat where "DNS_HEADER_SIZE = 12"

text \<open>The flags are shifted as \<^verbatim>\<open>int\<close> and cut to 16 bits by \<^verbatim>\<open>|=\<close>.\<close>

definition dns_flags :: "dnshdr \<Rightarrow> u16" where
  "dns_flags hdr = push_bit 15 (of_bool (dh_qr hdr)) OR push_bit 11 (ucast (dh_opcode hdr)) OR
     push_bit 10 (of_bool (dh_aa hdr)) OR push_bit 9 (of_bool (dh_tc hdr)) OR
     push_bit 8 (of_bool (dh_rd hdr)) OR push_bit 7 (of_bool (dh_ra hdr)) OR
     push_bit 4 (ucast (dh_z hdr)) OR ucast (dh_rcode hdr)"

definition dns_hdr_encode :: "mem_env \<Rightarrow> dnshdr \<Rightarrow> (mbuf, err) state" where
  "dns_hdr_encode E hdr = do {
     e1 \<leftarrow> mbuf_write_u16 E (htons (dh_id hdr));
     e2 \<leftarrow> mbuf_write_u16 E (htons (dns_flags hdr));
     e3 \<leftarrow> mbuf_write_u16 E (htons (dh_nq hdr));
     e4 \<leftarrow> mbuf_write_u16 E (htons (dh_nans hdr));
     e5 \<leftarrow> mbuf_write_u16 E (htons (dh_nauth hdr));
     e6 \<leftarrow> mbuf_write_u16 E (htons (dh_nadd hdr));
     State_Monad.return (e1 OR e2 OR e3 OR e4 OR e5 OR e6)
   }"

definition dns_hdr_decode :: "dnshdr \<Rightarrow> (mbuf, err \<times> dnshdr) state" where
  "dns_hdr_decode hdr = do {
     mb \<leftarrow> State_Monad.get;
     (if mbuf_get_left mb < DNS_HEADER_SIZE then State_Monad.return (EINVAL, hdr)
      else do {
        id \<leftarrow> mbuf_read_u16;
        f \<leftarrow> mbuf_read_u16;
        let flags = htons f;
        nq \<leftarrow> mbuf_read_u16;
        nans \<leftarrow> mbuf_read_u16;
        nauth \<leftarrow> mbuf_read_u16;
        nadd \<leftarrow> mbuf_read_u16;
        State_Monad.return (0, \<lparr>dh_id = htons id,
          dh_qr = (1 AND drop_bit 15 flags \<noteq> 0), dh_opcode = ucast (0xf AND drop_bit 11 flags),
          dh_aa = (1 AND drop_bit 10 flags \<noteq> 0), dh_tc = (1 AND drop_bit 9 flags \<noteq> 0),
          dh_rd = (1 AND drop_bit 8 flags \<noteq> 0), dh_ra = (1 AND drop_bit 7 flags \<noteq> 0),
          dh_z = ucast (0x7 AND drop_bit 4 flags), dh_rcode = ucast (0xf AND drop_bit 0 flags),
          dh_nq = htons nq, dh_nans = htons nans, dh_nauth = htons nauth, dh_nadd = htons nadd\<rparr>) })
   }"

subsection \<open>Character strings\<close>

definition dns_cstr_encode :: "mem_env \<Rightarrow> u8 list option \<Rightarrow> (mbuf, err) state" where
  "dns_cstr_encode E str = (case str of
     None \<Rightarrow> State_Monad.return EINVAL
   | Some s \<Rightarrow> do {
       let len = (of_nat (length s) :: u8);
       e1 \<leftarrow> mbuf_write_u8 E len;
       e2 \<leftarrow> mbuf_write_mem E (Some (take (unat len) s));
       State_Monad.return (e1 OR e2) })"

definition dns_cstr_decode :: "mem_env \<Rightarrow> (mbuf, err \<times> u8 list) state" where
  "dns_cstr_decode E = do {
     mb \<leftarrow> State_Monad.get;
     (if mbuf_get_left mb < 1 then State_Monad.return (EINVAL, [])
      else do {
        len \<leftarrow> mbuf_read_u8;
        mb \<leftarrow> State_Monad.get;
        (if mbuf_get_left mb < unat len then State_Monad.return (EBADMSG, [])
         else mbuf_strdup E (unat len)) })
   }"

subsection \<open>Domain names: encoding\<close>

definition OFFSET_MASK :: nat where "OFFSET_MASK = 0x3fff"
definition COMP_LOOP :: nat where "COMP_LOOP = 255"

text \<open>The table, \<open>None\<close> for \<^verbatim>\<open>NULL\<close>: names with their positions.\<close>

type_synonym dname_ht = "(u8 list \<times> nat) list option"

definition sizeof_dname :: nat where "sizeof_dname = 24"

definition dname_append :: "mem_env \<Rightarrow> dname_ht \<Rightarrow> u8 list \<Rightarrow> nat \<Rightarrow> dname_ht" where
  "dname_append E ht name pos = (case ht of
     None \<Rightarrow> None
   | Some l \<Rightarrow>
       if pos > OFFSET_MASK \<or> name = [] then Some l
       else if \<not> can_alloc E sizeof_dname \<or> \<not> can_alloc E (sz_add (length name) 1) then Some l
       else Some (l @ [(name, pos)]))"

definition dname_lookup :: "dname_ht \<Rightarrow> u8 list \<Rightarrow> nat option" where
  "dname_lookup ht name = (case ht of
     None \<Rightarrow> None
   | Some l \<Rightarrow> map_option snd (find (\<lambda>d. str_casecmp_eq (Some (fst d)) (Some name)) l))"

definition dname_encode_pointer :: "mem_env \<Rightarrow> nat \<Rightarrow> (mbuf, err) state" where
  "dname_encode_pointer E pos = mbuf_write_u16 E (htons (of_nat pos OR 0xc000))"

text \<open>The loop; \<open>pos\<close> is where the length of the current label goes.\<close>

fun dname_enc_loop ::
  "mem_env \<Rightarrow> nat \<Rightarrow> bool \<Rightarrow> u8 list \<Rightarrow> nat \<Rightarrow> dname_ht \<Rightarrow> err \<Rightarrow> mbuf \<Rightarrow> err \<times> dname_ht \<times> mbuf" where
  "dname_enc_loop E start cmp [] pos ht err mb =
     (if err \<noteq> 0 then (err, ht, mb)
      else (let lablen = sz_sub (sz_sub (mb_pos mb) pos) 1 in
        if lablen = 0 then (err, ht, mb)
        else (case run_state (mbuf_write_u8 E 0) (mem_poke pos [of_nat lablen] mb) of
          (e, mb) \<Rightarrow> (err OR e, ht, mb))))"
| "dname_enc_loop E start cmp (c # name) pos ht err mb =
     (if err \<noteq> 0 then (err, ht, mb)
      else (let lablen = sz_sub (sz_sub (mb_pos mb) pos) 1 in
        if c = 46 then
          (if lablen = 0 then (EINVAL, ht, mb)
           else (let mb = mem_poke pos [of_nat lablen] mb in
             case (dname_lookup ht name, cmp) of
               (Some p, True) \<Rightarrow> (case run_state (dname_encode_pointer E p) mb of (e, mb) \<Rightarrow> (err OR e, ht, mb))
             | (dn, _) \<Rightarrow>
                 (let pos = mb_pos mb;
                      ht = (if dn = None then dname_append E ht name (sz_sub pos start) else ht)
                  in case run_state (mbuf_write_u8 E 0) mb of
                    (e, mb) \<Rightarrow> dname_enc_loop E start cmp name pos ht (err OR e) mb)))
        else (case run_state (mbuf_write_u8 E c) mb of
          (e, mb) \<Rightarrow> dname_enc_loop E start cmp name pos ht (err OR e) mb)))"

definition dns_dname_encode ::
  "mem_env \<Rightarrow> u8 list option \<Rightarrow> dname_ht \<Rightarrow> nat \<Rightarrow> bool \<Rightarrow> mbuf \<Rightarrow> err \<times> dname_ht \<times> mbuf" where
  "dns_dname_encode E name ht start cmp mb = (case name of
     None \<Rightarrow> (EINVAL, ht, mb)
   | Some name \<Rightarrow> (case (dname_lookup ht name, cmp) of
       (Some p, True) \<Rightarrow> (case run_state (dname_encode_pointer E p) mb of (e, mb) \<Rightarrow> (e, ht, mb))
     | (dn, _) \<Rightarrow>
         (let pos = mb_pos mb;
              ht = (if dn = None then dname_append E ht name (sz_sub pos start) else ht)
          in case run_state (mbuf_write_u8 E 0) mb of (e, mb) \<Rightarrow>
            if name = [46] then (e, ht, mb)
            else dname_enc_loop E start cmp name pos ht e mb)))"

subsection \<open>Domain names: decoding\<close>

text \<open>
  \<open>buf\<close> is what was stored in the local array so far, also past its end of 256 bytes; the loop returns it.
  \<open>ret\<close> is the position to go back to, when a pointer was followed.
\<close>

definition name_room :: nat where "name_room = 256"

lemma mem_peek_frame [simp]:
  "mb_pos (snd (run_state (mem_peek p n) mb)) = mb_pos mb" "mb_end (snd (run_state (mem_peek p n) mb)) = mb_end mb"
  by (simp_all add: mem_peek_def split: option.split)

lemma read_u16_end [simp]: "mb_end (snd (run_state mbuf_read_u16 mb)) = mb_end mb"
  by (simp add: mbuf_read_u16_def mbuf_read_mem_def mbuf_advance_def mem_peek_def Let_def split: prod.split option.split)

text \<open>The loop ends: a jump is counted, and anything else moves forward in the packet.\<close>

lemma peek_put_frame:
  "(x, y) = run_state (mem_peek p n) mb \<Longrightarrow> mb_pos y = mb_pos mb \<and> mb_end y = mb_end mb"
  "(w, y) = run_state mbuf_read_u16 mb \<Longrightarrow> mb_end y = mb_end mb"
  using mem_peek_frame [of p n mb] read_u16_end [of mb]
  by (metis snd_conv)+

function dname_dec_loop ::
  "nat \<Rightarrow> u8 list \<Rightarrow> nat \<Rightarrow> nat option \<Rightarrow> mbuf \<Rightarrow> bool \<times> u8 list \<times> mbuf" where
  "dname_dec_loop start buf loopc ret mb =
     (if mb_pos mb < mb_end mb then
        (case run_state (mem_peek (mb_pos mb) 1) mb of (b, mb1) \<Rightarrow>
          (let len = hd b; mb2 = mb1\<lparr>mb_pos := mb_pos mb1 + 1\<rparr> in
           if len = 0 then
             (True, buf @ [0], case ret of None \<Rightarrow> mb2 | Some p \<Rightarrow> mb2\<lparr>mb_pos := p\<rparr>)
           else if len AND 0xc0 = 0xc0 then
             (if loopc > COMP_LOOP then (False, buf, mb2)
              else (case run_state mbuf_read_u16 (mb2\<lparr>mb_pos := mb_pos mb2 - 1\<rparr>) of (w, mb3) \<Rightarrow>
                dname_dec_loop start buf (loopc + 1) (if ret = None then Some (mb_pos mb3) else ret)
                  (mb3\<lparr>mb_pos := sz_add (unat (htons w AND 0x3fff)) start\<rparr>)))
           else if unat len > mbuf_get_left mb2 then (False, buf, mb2)
           else if unat len > sz_sub (sz_sub name_room (length buf)) 2 then (False, buf, mb2)
           else (case run_state (mem_peek (mb_pos mb2) (unat len)) mb2 of (label, mb3) \<Rightarrow>
             dname_dec_loop start (buf @ (if buf = [] then [] else [46]) @ label) loopc ret
               (mb3\<lparr>mb_pos := mb_pos mb3 + unat len\<rparr>))))
      else (False, buf, mb))"
  by pat_completeness auto

termination
proof (relation "measures [\<lambda>(start, buf, loopc, ret, mb). COMP_LOOP + 1 - loopc,
    \<lambda>(start, buf, loopc, ret, mb). mb_end mb - mb_pos mb]")
qed (auto simp: COMP_LOOP_def dest!: peek_put_frame)


text \<open>The result is the C string in the array; a store past its end is a fault.\<close>

definition dns_dname_decode :: "mem_env \<Rightarrow> nat \<Rightarrow> (mbuf, err \<times> u8 list) state" where
  "dns_dname_decode E start = State (\<lambda>mb. case dname_dec_loop start [] 0 None mb of (found, buf, mb) \<Rightarrow>
     (let mb = (if length buf \<le> name_room then mb else mb\<lparr>mb_fault := True\<rparr>)
      in if \<not> found then ((EINVAL, []), mb)
         else if \<not> can_alloc E (length buf) then ((ENOMEM, []), mb)
         else ((0, takeWhile (\<lambda>c. c \<noteq> 0) buf), mb)))"

subsection \<open>Resource records\<close>

abbreviation DNS_TYPE_A :: u16 where "DNS_TYPE_A \<equiv> 0x0001"
abbreviation DNS_TYPE_NS :: u16 where "DNS_TYPE_NS \<equiv> 0x0002"
abbreviation DNS_TYPE_CNAME :: u16 where "DNS_TYPE_CNAME \<equiv> 0x0005"
abbreviation DNS_TYPE_SOA :: u16 where "DNS_TYPE_SOA \<equiv> 0x0006"
abbreviation DNS_TYPE_PTR :: u16 where "DNS_TYPE_PTR \<equiv> 0x000c"
abbreviation DNS_TYPE_MX :: u16 where "DNS_TYPE_MX \<equiv> 0x000f"
abbreviation DNS_TYPE_AAAA :: u16 where "DNS_TYPE_AAAA \<equiv> 0x001c"
abbreviation DNS_TYPE_SRV :: u16 where "DNS_TYPE_SRV \<equiv> 0x0021"
abbreviation DNS_TYPE_NAPTR :: u16 where "DNS_TYPE_NAPTR \<equiv> 0x0023"

text \<open>The union of the data, with the member that was written last.\<close>

datatype dns_rdata =
    RdA u32
  | RdNs c_string
  | RdCname c_string
  | RdSoa c_string c_string u32 u32 u32 u32 u32
  | RdPtr c_string
  | RdMx u16 c_string
  | RdAaaa "u8 list"
  | RdSrv u16 u16 u16 c_string
  | RdNaptr u16 u16 c_string c_string c_string c_string
  | RdOther

record dnsrr =
  rr_name :: c_string
  rr_type :: u16
  rr_dnsclass :: u16
  rr_ttl :: u64 \<comment> \<open>signed\<close>
  rr_rdlen :: u16
  rr_rdata :: dns_rdata

definition rdata_type :: "dns_rdata \<Rightarrow> u16 option" where
  "rdata_type d = (case d of
     RdA _ \<Rightarrow> Some DNS_TYPE_A | RdNs _ \<Rightarrow> Some DNS_TYPE_NS | RdCname _ \<Rightarrow> Some DNS_TYPE_CNAME
   | RdSoa _ _ _ _ _ _ _ \<Rightarrow> Some DNS_TYPE_SOA | RdPtr _ \<Rightarrow> Some DNS_TYPE_PTR | RdMx _ _ \<Rightarrow> Some DNS_TYPE_MX
   | RdAaaa _ \<Rightarrow> Some DNS_TYPE_AAAA | RdSrv _ _ _ _ \<Rightarrow> Some DNS_TYPE_SRV
   | RdNaptr _ _ _ _ _ _ \<Rightarrow> Some DNS_TYPE_NAPTR | RdOther \<Rightarrow> None)"

definition dns_types :: "u16 list" where
  "dns_types = [DNS_TYPE_A, DNS_TYPE_NS, DNS_TYPE_CNAME, DNS_TYPE_SOA, DNS_TYPE_PTR, DNS_TYPE_MX, DNS_TYPE_AAAA,
     DNS_TYPE_SRV, DNS_TYPE_NAPTR]"

text \<open>The encoder's state: the table of names and the buffer.\<close>

type_synonym 'a enc = "(dname_ht \<times> mbuf, 'a) state"

definition on_mb :: "(mbuf, 'a) state \<Rightarrow> 'a enc" where
  "on_mb m = State (\<lambda>(ht, mb). case run_state m mb of (a, mb) \<Rightarrow> (a, ht, mb))"

definition name_enc :: "mem_env \<Rightarrow> nat \<Rightarrow> bool \<Rightarrow> c_string \<Rightarrow> err enc" where
  "name_enc E start cmp name = State (\<lambda>(ht, mb). dns_dname_encode E name ht start cmp mb)"

text \<open>A member of the union that was not written last: nothing can be said of it, a fault.\<close>

definition union_misuse :: "err enc" where
  "union_misuse = State (\<lambda>(ht, mb). (0, ht, mb\<lparr>mb_fault := True\<rparr>))"

definition rdata_encode :: "mem_env \<Rightarrow> nat \<Rightarrow> u16 \<Rightarrow> dns_rdata \<Rightarrow> err \<Rightarrow> err enc" where
  "rdata_encode E start type d err =
     (if type \<notin> set dns_types then State_Monad.return EINVAL
      else if rdata_type d \<noteq> Some type then union_misuse
      else case d of
        RdA a \<Rightarrow> do {
          e \<leftarrow> on_mb (mbuf_write_u32 E (htonl a));
          State_Monad.return (err OR e) }
      | RdNs n \<Rightarrow> do {
          e \<leftarrow> name_enc E start True n;
          State_Monad.return (err OR e) }
      | RdCname n \<Rightarrow> do {
          e \<leftarrow> name_enc E start True n;
          State_Monad.return (err OR e) }
      | RdSoa mn rn serial refresh retry expire ttlmin \<Rightarrow> do {
          e1 \<leftarrow> name_enc E start True mn;
          e2 \<leftarrow> name_enc E start True rn;
          e3 \<leftarrow> on_mb (mbuf_write_u32 E (htonl serial));
          e4 \<leftarrow> on_mb (mbuf_write_u32 E (htonl refresh));
          e5 \<leftarrow> on_mb (mbuf_write_u32 E (htonl retry));
          e6 \<leftarrow> on_mb (mbuf_write_u32 E (htonl expire));
          e7 \<leftarrow> on_mb (mbuf_write_u32 E (htonl ttlmin));
          State_Monad.return (err OR e1 OR e2 OR e3 OR e4 OR e5 OR e6 OR e7) }
      | RdPtr n \<Rightarrow> do {
          e \<leftarrow> name_enc E start True n;
          State_Monad.return (err OR e) }
      | RdMx pref n \<Rightarrow> do {
          e1 \<leftarrow> on_mb (mbuf_write_u16 E (htons pref));
          e2 \<leftarrow> name_enc E start True n;
          State_Monad.return (err OR e1 OR e2) }
      | RdAaaa addr \<Rightarrow> do {
          e \<leftarrow> on_mb (mbuf_write_mem E (Some (take 16 addr)));
          State_Monad.return (err OR e) }
      | RdSrv pri weight port n \<Rightarrow> do {
          e1 \<leftarrow> on_mb (mbuf_write_u16 E (htons pri));
          e2 \<leftarrow> on_mb (mbuf_write_u16 E (htons weight));
          e3 \<leftarrow> on_mb (mbuf_write_u16 E (htons port));
          e4 \<leftarrow> name_enc E start False n;
          State_Monad.return (err OR e1 OR e2 OR e3 OR e4) }
      | RdNaptr order pref flags services regexp n \<Rightarrow> do {
          e1 \<leftarrow> on_mb (mbuf_write_u16 E (htons order));
          e2 \<leftarrow> on_mb (mbuf_write_u16 E (htons pref));
          e3 \<leftarrow> on_mb (dns_cstr_encode E flags);
          e4 \<leftarrow> on_mb (dns_cstr_encode E services);
          e5 \<leftarrow> on_mb (dns_cstr_encode E regexp);
          e6 \<leftarrow> name_enc E start False n;
          State_Monad.return (err OR e1 OR e2 OR e3 OR e4 OR e5 OR e6) }
      | RdOther \<Rightarrow> State_Monad.return EINVAL)"

definition dns_rr_encode :: "mem_env \<Rightarrow> dnsrr \<Rightarrow> u64 \<Rightarrow> nat \<Rightarrow> err enc" where
  "dns_rr_encode E rr ttl_offs start = do {
     let ttl = (ucast (if ttl_offs <s rr_ttl rr then rr_ttl rr - ttl_offs else 0) :: u32);
     e1 \<leftarrow> name_enc E start True (rr_name rr);
     e2 \<leftarrow> on_mb (mbuf_write_u16 E (htons (rr_type rr)));
     e3 \<leftarrow> on_mb (mbuf_write_u16 E (htons (rr_dnsclass rr)));
     e4 \<leftarrow> on_mb (mbuf_write_u32 E (htonl ttl));
     e5 \<leftarrow> on_mb (mbuf_write_u16 E (htons (rr_rdlen rr)));
     mb \<leftarrow> on_mb State_Monad.get;
     let start_rdata = mb_pos mb;
     err \<leftarrow> rdata_encode E start (rr_type rr) (rr_rdata rr) (e1 OR e2 OR e3 OR e4 OR e5);
     mb \<leftarrow> on_mb State_Monad.get;
     let len = (of_nat (sz_sub (mb_pos mb) start_rdata) :: u16);
     _ \<leftarrow> on_mb (mbuf_set_pos (sz_sub start_rdata 2));
     e6 \<leftarrow> on_mb (mbuf_write_u16 E (htons len));
     _ \<leftarrow> on_mb (mbuf_advance (unat len));
     State_Monad.return (err OR e6)
   }"

definition sizeof_dnsrr :: nat where "sizeof_dnsrr = 88"

text \<open>A domain name that is the last part of a record's data.\<close>

definition name_rest :: "mem_env \<Rightarrow> nat \<Rightarrow> (c_string \<Rightarrow> dns_rdata) \<Rightarrow> (mbuf, err + dns_rdata) state" where
  "name_rest E start con = do {
     (err, n) \<leftarrow> dns_dname_decode E start;
     State_Monad.return (if err \<noteq> 0 then Inl err else Inr (con (Some n))) }"

definition soa_decode :: "mem_env \<Rightarrow> nat \<Rightarrow> (mbuf, err + dns_rdata) state" where
  "soa_decode E start = do {
     (err, mn) \<leftarrow> dns_dname_decode E start;
     (if err \<noteq> 0 then State_Monad.return (Inl err)
      else do {
        (err, rn) \<leftarrow> dns_dname_decode E start;
        mb \<leftarrow> State_Monad.get;
        (if err \<noteq> 0 then State_Monad.return (Inl err)
         else if mbuf_get_left mb < 20 then State_Monad.return (Inl EINVAL)
         else do {
           serial \<leftarrow> mbuf_read_u32;
           refresh \<leftarrow> mbuf_read_u32;
           retry \<leftarrow> mbuf_read_u32;
           expire \<leftarrow> mbuf_read_u32;
           ttlmin \<leftarrow> mbuf_read_u32;
           State_Monad.return (Inr (RdSoa (Some mn) (Some rn) (htonl serial) (htonl refresh) (htonl retry)
             (htonl expire) (htonl ttlmin))) }) }) }"

definition naptr_decode :: "mem_env \<Rightarrow> nat \<Rightarrow> (mbuf, err + dns_rdata) state" where
  "naptr_decode E start = do {
     mb \<leftarrow> State_Monad.get;
     (if mbuf_get_left mb < 4 then State_Monad.return (Inl EINVAL)
      else do {
        order \<leftarrow> mbuf_read_u16;
        pref \<leftarrow> mbuf_read_u16;
        (err, flags) \<leftarrow> dns_cstr_decode E;
        (if err \<noteq> 0 then State_Monad.return (Inl err)
         else do {
           (err, services) \<leftarrow> dns_cstr_decode E;
           (if err \<noteq> 0 then State_Monad.return (Inl err)
            else do {
              (err, regexp) \<leftarrow> dns_cstr_decode E;
              (if err \<noteq> 0 then State_Monad.return (Inl err)
               else name_rest E start
                 (RdNaptr (htons order) (htons pref) (Some flags) (Some services) (Some regexp))) }) }) }) }"

definition rdata_decode :: "mem_env \<Rightarrow> nat \<Rightarrow> u16 \<Rightarrow> u16 \<Rightarrow> (mbuf, err + dns_rdata) state" where
  "rdata_decode E start type rdlen =
     (if type = DNS_TYPE_A then
        (if rdlen \<noteq> 4 then State_Monad.return (Inl EINVAL)
         else do {
           a \<leftarrow> mbuf_read_u32;
           State_Monad.return (Inr (RdA (htonl a))) })
      else if type = DNS_TYPE_NS then name_rest E start RdNs
      else if type = DNS_TYPE_CNAME then name_rest E start RdCname
      else if type = DNS_TYPE_SOA then soa_decode E start
      else if type = DNS_TYPE_PTR then name_rest E start RdPtr
      else if type = DNS_TYPE_MX then do {
        mb \<leftarrow> State_Monad.get;
        (if mbuf_get_left mb < 2 then State_Monad.return (Inl EINVAL)
         else do {
           pref \<leftarrow> mbuf_read_u16;
           name_rest E start (RdMx (htons pref)) }) }
      else if type = DNS_TYPE_AAAA then
        (if rdlen \<noteq> 16 then State_Monad.return (Inl EINVAL)
         else do {
           (err, addr) \<leftarrow> mbuf_read_mem 16;
           State_Monad.return (if err \<noteq> 0 then Inl err else Inr (RdAaaa addr)) })
      else if type = DNS_TYPE_SRV then do {
        mb \<leftarrow> State_Monad.get;
        (if mbuf_get_left mb < 6 then State_Monad.return (Inl EINVAL)
         else do {
           pri \<leftarrow> mbuf_read_u16;
           weight \<leftarrow> mbuf_read_u16;
           port \<leftarrow> mbuf_read_u16;
           name_rest E start (RdSrv (htons pri) (htons weight) (htons port)) }) }
      else if type = DNS_TYPE_NAPTR then naptr_decode E start
      else do {
        _ \<leftarrow> State_Monad.update (\<lambda>mb. mb\<lparr>mb_pos := sz_add (mb_pos mb) (unat rdlen)\<rparr>);
        State_Monad.return (Inr RdOther) })"

definition dns_rr_decode :: "mem_env \<Rightarrow> nat \<Rightarrow> (mbuf, err + dnsrr) state" where
  "dns_rr_decode E start =
     (if \<not> can_alloc E sizeof_dnsrr then State_Monad.return (Inl ENOMEM)
      else do {
        (err, name) \<leftarrow> dns_dname_decode E start;
        mb \<leftarrow> State_Monad.get;
        (if err \<noteq> 0 then State_Monad.return (Inl err)
         else if mbuf_get_left mb < 10 then State_Monad.return (Inl EINVAL)
         else do {
           type \<leftarrow> mbuf_read_u16;
           cls \<leftarrow> mbuf_read_u16;
           ttl \<leftarrow> mbuf_read_u32;
           rdlen \<leftarrow> mbuf_read_u16;
           mb \<leftarrow> State_Monad.get;
           (if mbuf_get_left mb < unat (htons rdlen) then State_Monad.return (Inl EINVAL)
            else do {
              d \<leftarrow> rdata_decode E start (htons type) (htons rdlen);
              State_Monad.return (case d of
                 Inl err \<Rightarrow> Inl err
               | Inr d \<Rightarrow> Inr \<lparr>rr_name = Some name, rr_type = htons type, rr_dnsclass = htons cls,
                   rr_ttl = ucast (htonl ttl), rr_rdlen = htons rdlen, rr_rdata = d\<rparr>) }) }) })"

text \<open>Comparison; \<open>same\<close> when the two pointers are equal.\<close>

definition rdata_cmp :: "dns_rdata \<Rightarrow> dns_rdata \<Rightarrow> bool" where
  "rdata_cmp d1 d2 = (case (d1, d2) of
     (RdA a, RdA b) \<Rightarrow> a = b
   | (RdNs a, RdNs b) \<Rightarrow> str_casecmp_eq a b
   | (RdCname a, RdCname b) \<Rightarrow> str_casecmp_eq a b
   | (RdSoa m r s f t e l, RdSoa m' r' s' f' t' e' l') \<Rightarrow>
       str_casecmp_eq m m' \<and> str_casecmp_eq r r' \<and> s = s' \<and> f = f' \<and> t = t' \<and> e = e' \<and> l = l'
   | (RdPtr a, RdPtr b) \<Rightarrow> str_casecmp_eq a b
   | (RdMx p a, RdMx p' b) \<Rightarrow> p = p' \<and> str_casecmp_eq a b
   | (RdAaaa a, RdAaaa b) \<Rightarrow> take 16 a = take 16 b
   | (RdSrv p w q a, RdSrv p' w' q' b) \<Rightarrow> p = p' \<and> w = w' \<and> q = q' \<and> str_casecmp_eq a b
   | (RdNaptr p q f s x a, RdNaptr p' q' f' s' x' b) \<Rightarrow> p = p' \<and> q = q' \<and> str_casecmp_eq f f' \<and>
       str_casecmp_eq s s' \<and> str_casecmp_eq x x' \<and> str_casecmp_eq a b
   | _ \<Rightarrow> False)"

definition dns_rr_cmp :: "bool \<Rightarrow> dnsrr option \<Rightarrow> dnsrr option \<Rightarrow> bool \<Rightarrow> bool" where
  "dns_rr_cmp same rr1 rr2 rdata = (case (rr1, rr2) of
     (Some r1, Some r2) \<Rightarrow>
       if same then True
       else if rr_type r1 \<noteq> rr_type r2 then False
       else if rr_dnsclass r1 \<noteq> rr_dnsclass r2 then False
       else if \<not> str_casecmp_eq (rr_name r1) (rr_name r2) then False
       else if \<not> rdata then True
       else if rr_type r1 \<notin> set dns_types then False
       else rdata_cmp (rr_rdata r1) (rr_rdata r2)
   | _ \<Rightarrow> False)"


subsection \<open>Lists of resource records\<close>

text \<open>
  \<^verbatim>\<open>src/dns/rrlist.c\<close>. Sorting works on the elements of a linked list of \<open>LinkedList\<close>, \<open>rr_of\<close> gives the record of
  an element; the search handlers do not change the list, which is the sequence of its records.
\<close>

definition CNAME_RECURSE_MAX :: nat where "CNAME_RECURSE_MAX = 16"

abbreviation DNS_QTYPE_ANY :: u16 where "DNS_QTYPE_ANY \<equiv> 0x00ff"
abbreviation DNS_QCLASS_ANY :: u16 where "DNS_QCLASS_ANY \<equiv> 0x00ff"

definition rr_before :: "u16 \<Rightarrow> dnsrr \<Rightarrow> dnsrr \<Rightarrow> bool" where
  "rr_before type rr1 rr2 =
     (if type \<noteq> rr_type rr1 then type \<noteq> rr_type rr2
      else if type \<noteq> rr_type rr2 then True
      else if type = DNS_TYPE_MX then (case (rr_rdata rr1, rr_rdata rr2) of (RdMx p1 _, RdMx p2 _) \<Rightarrow> p1 \<le> p2 | _ \<Rightarrow> True)
      else if type = DNS_TYPE_SRV then (case (rr_rdata rr1, rr_rdata rr2) of
          (RdSrv p1 w1 _ _, RdSrv p2 w2 _ _) \<Rightarrow> if p1 = p2 then (if w1 \<noteq> 0 then w2 \<noteq> 0 else True) else p1 < p2
        | _ \<Rightarrow> True)
      else if type = DNS_TYPE_NAPTR then (case (rr_rdata rr1, rr_rdata rr2) of
          (RdNaptr o1 p1 _ _ _ _, RdNaptr o2 p2 _ _ _ _) \<Rightarrow> if o1 = o2 then p1 \<le> p2 else o1 < o2
        | _ \<Rightarrow> True)
      else True)"

definition std_sort_handler :: "(addr \<Rightarrow> dnsrr) \<Rightarrow> u16 \<Rightarrow> addr \<Rightarrow> addr \<Rightarrow> bool" where
  "std_sort_handler rr_of type le1 le2 = rr_before type (rr_of le1) (rr_of le2)"

definition dns_rrlist_sort :: "(addr \<Rightarrow> dnsrr) \<Rightarrow> addr \<Rightarrow> u16 \<Rightarrow> 'd lheap \<Rightarrow> 'd lheap option" where
  "dns_rrlist_sort rr_of rrl type h = list_sort rrl (std_sort_handler rr_of type) h"

definition rr_skip :: "c_string \<Rightarrow> u16 \<Rightarrow> u16 \<Rightarrow> u16 \<Rightarrow> bool \<Rightarrow> dnsrr \<Rightarrow> bool" where
  "rr_skip name t1 t2 cls recurse rr \<longleftrightarrow>
     name \<noteq> None \<and> \<not> str_casecmp_eq name (rr_name rr) \<or>
     t1 \<noteq> DNS_QTYPE_ANY \<and> t2 \<noteq> DNS_QTYPE_ANY \<and> rr_type rr \<noteq> t1 \<and> rr_type rr \<noteq> t2 \<and>
       (rr_type rr \<noteq> DNS_TYPE_CNAME \<or> \<not> recurse) \<or>
     cls \<noteq> DNS_QCLASS_ANY \<and> rr_dnsclass rr \<noteq> cls"

definition rr_follow :: "u16 \<Rightarrow> u16 \<Rightarrow> bool \<Rightarrow> dnsrr \<Rightarrow> bool" where
  "rr_follow t1 t2 recurse rr \<longleftrightarrow> recurse \<and> t1 \<noteq> DNS_QTYPE_ANY \<and> t2 \<noteq> DNS_QTYPE_ANY \<and>
     t1 \<noteq> DNS_TYPE_CNAME \<and> t2 \<noteq> DNS_TYPE_CNAME \<and> rr_type rr = DNS_TYPE_CNAME"

definition rr_cname :: "dnsrr \<Rightarrow> c_string" where
  "rr_cname rr = (case rr_rdata rr of RdCname n \<Rightarrow> n | _ \<Rightarrow> None)"

text \<open>\<open>rem\<close> is what is left of the list at this level; the depth counts the alias records met so far, too.\<close>

function rrlist_go ::
  "dnsrr list \<Rightarrow> u16 \<Rightarrow> u16 \<Rightarrow> u16 \<Rightarrow> bool \<Rightarrow> (dnsrr \<Rightarrow> 's \<Rightarrow> bool \<times> 's) option \<Rightarrow> c_string \<Rightarrow> nat \<Rightarrow> dnsrr list \<Rightarrow> 's
   \<Rightarrow> dnsrr option \<times> 's" where
  "rrlist_go rrl t1 t2 cls recurse rrlh name depth [] s = (None, s)"
| "rrlist_go rrl t1 t2 cls recurse rrlh name depth (rr # rem) s =
     (if rr_skip name t1 t2 cls recurse rr then rrlist_go rrl t1 t2 cls recurse rrlh name depth rem s
      else case rrlh of
        None \<Rightarrow> (Some rr, s)
      | Some f \<Rightarrow> (case f rr s of (stop, s) \<Rightarrow>
          if stop then (Some rr, s)
          else if rr_follow t1 t2 recurse rr then
            (case (if depth + 1 > CNAME_RECURSE_MAX then (None, s)
                   else rrlist_go rrl t1 t2 cls recurse rrlh (rr_cname rr) (depth + 1) rrl s) of
               (Some r, s) \<Rightarrow> (Some r, s)
             | (None, s) \<Rightarrow> rrlist_go rrl t1 t2 cls recurse rrlh name (depth + 1) rem s)
          else rrlist_go rrl t1 t2 cls recurse rrlh name depth rem s))"
  by pat_completeness auto

termination
  by (relation "measures [\<lambda>(rrl, t1, t2, cls, recurse, rrlh, name, depth, rem, s). CNAME_RECURSE_MAX + 1 - depth,
    \<lambda>(rrl, t1, t2, cls, recurse, rrlh, name, depth, rem, s). length rem]") auto

definition rrlist_apply ::
  "dnsrr list \<Rightarrow> c_string \<Rightarrow> u16 \<Rightarrow> u16 \<Rightarrow> u16 \<Rightarrow> bool \<Rightarrow> nat \<Rightarrow> (dnsrr \<Rightarrow> 's \<Rightarrow> bool \<times> 's) option \<Rightarrow> 's
   \<Rightarrow> dnsrr option \<times> 's" where
  "rrlist_apply rrl name t1 t2 cls recurse depth rrlh s =
     (if depth > CNAME_RECURSE_MAX then (None, s) else rrlist_go rrl t1 t2 cls recurse rrlh name depth rrl s)"

definition dns_rrlist_apply ::
  "dnsrr list \<Rightarrow> c_string \<Rightarrow> u16 \<Rightarrow> u16 \<Rightarrow> bool \<Rightarrow> (dnsrr \<Rightarrow> 's \<Rightarrow> bool \<times> 's) option \<Rightarrow> 's \<Rightarrow> dnsrr option \<times> 's" where
  "dns_rrlist_apply rrl name type cls recurse rrlh s = rrlist_apply rrl name type type cls recurse 0 rrlh s"

definition dns_rrlist_apply2 ::
  "dnsrr list \<Rightarrow> c_string \<Rightarrow> u16 \<Rightarrow> u16 \<Rightarrow> u16 \<Rightarrow> bool \<Rightarrow> (dnsrr \<Rightarrow> 's \<Rightarrow> bool \<times> 's) option \<Rightarrow> 's \<Rightarrow> dnsrr option \<times> 's" where
  "dns_rrlist_apply2 rrl name type1 type2 cls recurse rrlh s = rrlist_apply rrl name type1 type2 cls recurse 0 rrlh s"

definition find_handler :: "u16 \<Rightarrow> dnsrr \<Rightarrow> unit \<Rightarrow> bool \<times> unit" where
  "find_handler type rr s = (rr_type rr = type, s)"

definition dns_rrlist_find :: "dnsrr list \<Rightarrow> c_string \<Rightarrow> u16 \<Rightarrow> u16 \<Rightarrow> bool \<Rightarrow> dnsrr option" where
  "dns_rrlist_find rrl name type cls recurse =
     fst (rrlist_apply rrl name type type cls recurse 0 (Some (find_handler type)) ())"

subsection \<open>The table of names\<close>

text \<open>Names that are equal, case ignored, are in the same bucket of the hash table.\<close>

lemma dname_same_bucket:
  assumes "0 \<notin> set a" "0 \<notin> set b" "str_casecmp_eq (Some a) (Some b)"
  shows "hash_joaat_str_ci (a @ 0 # r) = hash_joaat_str_ci (b @ 0 # r')"
proof -
  have e: "map tolower a = map tolower b" using assms(3) by (simp add: str_casecmp_eq_def)
  have "joaat_str_loop tolower (s @ 0 # r) h = Some (fold (\<lambda>c. joaat_step (ucast c)) (map tolower s) h)"
    if "0 \<notin> set s" for s r h
    using that by (induction s arbitrary: h) auto
  then show ?thesis using assms(1,2) e by (simp add: hash_joaat_str_ci_def)
qed

subsection \<open>Header\<close>

definition dns_hdr_bytes :: "dnshdr \<Rightarrow> u8 list" where
  "dns_hdr_bytes h = be16 (dh_id h) @ be16 (dns_flags h) @ be16 (dh_nq h) @ be16 (dh_nans h) @
     be16 (dh_nauth h) @ be16 (dh_nadd h)"

definition dns_hdr_wf :: "dnshdr \<Rightarrow> bool" where
  "dns_hdr_wf h \<longleftrightarrow> dh_opcode h < 16 \<and> dh_z h < 8 \<and> dh_rcode h < 16"

lemma puts_dns_hdr: "alloc_total E \<Longrightarrow> puts (dns_hdr_encode E h) (dns_hdr_bytes h)"
  unfolding dns_hdr_encode_def dns_hdr_bytes_def
  by (rule puts_cong, (rule puts_bind puts_ints puts_return | assumption | simp)+)

lemma dns_flags_fields:
  assumes "dns_hdr_wf h"
  shows "(1 AND drop_bit 15 (dns_flags h) \<noteq> 0) = dh_qr h" "ucast (0xf AND drop_bit 11 (dns_flags h)) = dh_opcode h"
    "(1 AND drop_bit 10 (dns_flags h) \<noteq> 0) = dh_aa h" "(1 AND drop_bit 9 (dns_flags h) \<noteq> 0) = dh_tc h"
    "(1 AND drop_bit 8 (dns_flags h) \<noteq> 0) = dh_rd h" "(1 AND drop_bit 7 (dns_flags h) \<noteq> 0) = dh_ra h"
    "ucast (0x7 AND drop_bit 4 (dns_flags h)) = dh_z h" "ucast (0xf AND dns_flags h) = dh_rcode h"
proof -
  have b: "\<not> bit (dh_opcode h) n" "\<not> bit (dh_rcode h) n" if "4 \<le> n" for n
    using assms bit_below [of "dh_opcode h" 4 n] bit_below [of "dh_rcode h" 4 n] that by (auto simp: dns_hdr_wf_def)
  have z: "\<not> bit (dh_z h) n" if "3 \<le> n" for n
    using assms bit_below [of "dh_z h" 3 n] that by (auto simp: dns_hdr_wf_def)
  have one: "(1 AND x \<noteq> 0) = bit x 0" for x :: u16
    by (subst and.commute) (simp only: and_masks take_bit_1_nonzero)
  show "(1 AND drop_bit 15 (dns_flags h) \<noteq> 0) = dh_qr h"
    "(1 AND drop_bit 10 (dns_flags h) \<noteq> 0) = dh_aa h" "(1 AND drop_bit 9 (dns_flags h) \<noteq> 0) = dh_tc h"
    "(1 AND drop_bit 8 (dns_flags h) \<noteq> 0) = dh_rd h" "(1 AND drop_bit 7 (dns_flags h) \<noteq> 0) = dh_ra h"
    unfolding one by (simp_all add: dns_flags_def bit_simps b z)
  show "ucast (0xf AND drop_bit 11 (dns_flags h)) = dh_opcode h" "ucast (0x7 AND drop_bit 4 (dns_flags h)) = dh_z h"
    "ucast (0xf AND dns_flags h) = dh_rcode h"
    by (rule bit_word_eqI, simp add: dns_flags_def, drule less_8_cases, elim disjE; simp add: bit_simps b z)+
qed


lemma dns_hdr_decode_run:
  assumes "mbuf_ok mb" "mbuf_rest mb = dns_hdr_bytes h @ r" "dns_hdr_wf h"
  shows "run_state (dns_hdr_decode h0) mb = ((0, h), adv 12 mb)"
  using assms dns_flags_fields [OF assms(3)]
  by (simp add: dns_hdr_decode_def DNS_HEADER_SIZE_def dns_hdr_bytes_def mb_simps byte_simps)

subsection \<open>Decoding of names: the loop stays inside the packet\<close>

declare dname_dec_loop.simps [simp del]

lemma mem_peek_content:
  "mbuf_wf mb \<Longrightarrow> p + n \<le> mb_end mb \<Longrightarrow> run_state (mem_peek p n) mb = (take n (drop p (mbuf_content mb)), mb)"
proof (cases "n = 0")
  case False
  assume a: "mbuf_wf mb" "p + n \<le> mb_end mb"
  with False obtain b where b: "mb_buf mb = Some b" "length b = mb_size mb" "mb_end mb \<le> mb_size mb"
    by (auto simp: mbuf_wf_def split: option.splits)
  then show ?thesis using False a(2)
    by (simp add: mem_peek_def mbuf_content_def mbuf_bytes_def drop_take min_def)
qed (simp add: mem_peek_def)

lemma wf_set_pos_le: "mbuf_wf mb \<Longrightarrow> p \<le> mb_end mb \<Longrightarrow> mbuf_ok (mb\<lparr>mb_pos := p\<rparr>)"
  by (auto simp: mbuf_ok_def mbuf_wf_def split: option.splits)

definition dname_len :: "mbuf \<Rightarrow> u8" where
  "dname_len mb = mbuf_content mb ! mb_pos mb"

text \<open>One round of the loop, on a well-formed buffer.\<close>

lemma dname_dec_step:
  assumes "mbuf_wf mb"
  shows "dname_dec_loop start buf loopc ret mb =
    (if mb_pos mb < mb_end mb then
       (let len = dname_len mb; p = mb_pos mb in
        if len = 0 then (True, buf @ [0], mb\<lparr>mb_pos := case ret of None \<Rightarrow> p + 1 | Some q \<Rightarrow> q\<rparr>)
        else if len AND 0xc0 = 0xc0 then
          (if loopc > COMP_LOOP then (False, buf, mb\<lparr>mb_pos := p + 1\<rparr>)
           else (let w = (if p + 2 \<le> mb_end mb then of_le (take 2 (drop p (mbuf_content mb))) else 0);
                     q = (if p + 2 \<le> mb_end mb then p + 2 else p)
             in dname_dec_loop start buf (loopc + 1) (if ret = None then Some q else ret)
                  (mb\<lparr>mb_pos := sz_add (unat (htons w AND 0x3fff)) start\<rparr>)))
        else if unat len > mb_end mb - (p + 1) then (False, buf, mb\<lparr>mb_pos := p + 1\<rparr>)
        else if unat len > sz_sub (sz_sub name_room (length buf)) 2 then (False, buf, mb\<lparr>mb_pos := p + 1\<rparr>)
        else dname_dec_loop start (buf @ (if buf = [] then [] else [46]) @ take (unat len) (drop (p + 1) (mbuf_content mb)))
               loopc ret (mb\<lparr>mb_pos := p + 1 + unat len\<rparr>))
     else (False, buf, mb))"
proof (cases "mb_pos mb < mb_end mb")
  case False
  then show ?thesis by (subst dname_dec_loop.simps) simp
next
  case True
  let ?p = "mb_pos mb"
  have ok: "mbuf_ok mb" using assms True by (simp add: mbuf_ok_def)
  have r: "length (mbuf_rest mb) = mb_end mb - ?p" using assms by (rule length_mbuf_rest)
  have p1: "run_state (mem_peek ?p 1) mb = (take 1 (drop ?p (mbuf_content mb)), mb)"
    using True by (intro mem_peek_content [OF assms]) simp
  have h: "hd (take 1 (drop ?p (mbuf_content mb))) = dname_len mb"
    using True assms by (simp add: dname_len_def hd_drop_conv_nth)
  have ok1: "mbuf_ok (mb\<lparr>mb_pos := ?p + 1\<rparr>)" using True by (intro wf_set_pos_le [OF assms]) simp
  then have left: "mbuf_get_left (mb\<lparr>mb_pos := ?p + 1\<rparr>) = mb_end mb - (?p + 1)"
    using assms by (simp add: mb_simps mbuf_rest_def)
  have u16: "run_state mbuf_read_u16 mb = (if ?p + 2 \<le> mb_end mb
      then (of_le (take 2 (drop ?p (mbuf_content mb))), mb\<lparr>mb_pos := ?p + 2\<rparr>) else (0, mb))"
    using ok r by (auto simp: mb_simps mbuf_rest_def adv_def)
  have lab: "run_state (mem_peek (mb_pos (mb\<lparr>mb_pos := ?p + 1\<rparr>)) n) (mb\<lparr>mb_pos := ?p + 1\<rparr>) =
      (take n (drop (?p + 1) (mbuf_content mb)), mb\<lparr>mb_pos := ?p + 1\<rparr>)" if "n \<le> mb_end mb - (?p + 1)" for n
    using True that mem_peek_content [of "mb\<lparr>mb_pos := ?p + 1\<rparr>" "?p + 1" n] ok1
    by (simp add: mbuf_ok_def)
  show ?thesis
    using True left u16 lab
    by (subst dname_dec_loop.simps)
      (simp add: p1 [simplified] h [simplified] Let_def split: option.split)
qed

text \<open>The packet is not changed, nothing outside it is read, and a name that is found ends in it.\<close>

lemma dname_dec_frame:
  assumes "mbuf_wf mb" "\<And>q. ret = Some q \<Longrightarrow> q \<le> mb_end mb"
  shows "\<exists>found buf' p. dname_dec_loop start buf loopc ret mb = (found, buf', mb\<lparr>mb_pos := p\<rparr>) \<and>
    (found \<longrightarrow> p \<le> mb_end mb) \<and> p < size_mod"
  using assms
proof (induction "(COMP_LOOP + 1 - loopc) * size_mod + (mb_end mb - mb_pos mb)" arbitrary: buf loopc ret mb
    rule: less_induct)
  case less
  let ?p = "mb_pos mb" and ?len = "dname_len mb"
  note step = dname_dec_step [OF less.prems(1), of start buf loopc ret]
  have b: "?p < size_mod" "mb_end mb < size_mod" using less.prems(1) by (auto simp: mbuf_wf_def)
  show ?case
  proof (cases "?p < mb_end mb")
    case False
    then have "dname_dec_loop start buf loopc ret mb = (False, buf, mb\<lparr>mb_pos := ?p\<rparr>)" using step by simp
    then show ?thesis using b by blast
  next
    case in_packet: True
    consider "?len = 0" | "?len \<noteq> 0" "?len AND 0xc0 = 0xc0" "loopc \<le> COMP_LOOP"
      | "?len \<noteq> 0" "?len AND 0xc0 \<noteq> 0xc0" "unat ?len \<le> mb_end mb - (?p + 1)"
          "unat ?len \<le> sz_sub (sz_sub name_room (length buf)) 2"
      | "?len \<noteq> 0" "if ?len AND 0xc0 = 0xc0 then COMP_LOOP < loopc
           else mb_end mb - (?p + 1) < unat ?len \<or> sz_sub (sz_sub name_room (length buf)) 2 < unat ?len"
      by (metis not_le)
    then show ?thesis
    proof cases
      case 1
      let ?r = "case ret of None \<Rightarrow> ?p + 1 | Some q \<Rightarrow> q"
      have "dname_dec_loop start buf loopc ret mb = (True, buf @ [0], mb\<lparr>mb_pos := ?r\<rparr>)"
        using step in_packet 1 by simp
      moreover have "?r \<le> mb_end mb" using in_packet less.prems(2) by (cases ret) simp_all
      moreover from this have "?r < size_mod" using b(2) by (rule le_less_trans)
      ultimately show ?thesis by blast
    next
      case 2
      let ?w = "if ?p + 2 \<le> mb_end mb then of_le (take 2 (drop ?p (mbuf_content mb))) else 0 :: u16"
      let ?q = "if ?p + 2 \<le> mb_end mb then ?p + 2 else ?p"
      let ?mb = "mb\<lparr>mb_pos := sz_add (unat (htons ?w AND 0x3fff)) start\<rparr>"
      let ?ret = "if ret = None then Some ?q else ret"
      have eq: "dname_dec_loop start buf loopc ret mb = dname_dec_loop start buf (loopc + 1) ?ret ?mb"
        using step in_packet 2 by (simp add: Let_def)
      have wf: "mbuf_wf ?mb" by (intro mbuf_wf_set_pos less.prems(1) sz_add_less)
      have "(COMP_LOOP + 1 - (loopc + 1)) * size_mod + (mb_end ?mb - mb_pos ?mb) <
          (COMP_LOOP + 1 - (loopc + 1)) * size_mod + size_mod"
        using b by simp
      also have "\<dots> \<le> (COMP_LOOP + 1 - loopc) * size_mod" using 2(3) by (simp add: Suc_diff_le)
      finally have m: "(COMP_LOOP + 1 - (loopc + 1)) * size_mod + (mb_end ?mb - mb_pos ?mb) <
          (COMP_LOOP + 1 - loopc) * size_mod + (mb_end mb - ?p)" by simp
      have "\<And>q. ?ret = Some q \<Longrightarrow> q \<le> mb_end ?mb" using less.prems(2) in_packet by (auto split: if_splits)
      from less.hyps [OF m wf this] eq show ?thesis by simp
    next
      case 3
      let ?mb = "mb\<lparr>mb_pos := ?p + 1 + unat ?len\<rparr>"
      have "?p + 1 + unat ?len \<le> mb_end mb" using 3(3) in_packet by simp
      then have wf: "mbuf_wf ?mb" using b by (intro mbuf_wf_set_pos less.prems(1)) simp
      have eq: "dname_dec_loop start buf loopc ret mb = dname_dec_loop start
          (buf @ (if buf = [] then [] else [46]) @ take (unat ?len) (drop (?p + 1) (mbuf_content mb))) loopc ret ?mb"
        using step in_packet 3 by (simp add: Let_def)
      have m: "(COMP_LOOP + 1 - loopc) * size_mod + (mb_end ?mb - mb_pos ?mb) <
          (COMP_LOOP + 1 - loopc) * size_mod + (mb_end mb - ?p)" using in_packet by simp
      have "\<And>q. ret = Some q \<Longrightarrow> q \<le> mb_end ?mb" using less.prems(2) by simp
      from less.hyps [OF m wf this] eq show ?thesis by simp
    next
      case 4
      then have "dname_dec_loop start buf loopc ret mb = (False, buf, mb\<lparr>mb_pos := ?p + 1\<rparr>)"
        using step in_packet by (auto simp: Let_def split: if_splits)
      moreover have "?p + 1 < size_mod" using in_packet b by simp
      ultimately show ?thesis by blast
    qed
  qed
qed

subsection \<open>Names in a packet\<close>

text \<open>
  \<open>name_at c start p ls j q\<close>: at position \<open>p\<close> of the packet \<open>c\<close> is a name with the labels \<open>ls\<close>, reached through
  \<open>j\<close> pointers (relative to \<open>start\<close>), and what follows it is at \<open>q\<close>.
\<close>

inductive name_at :: "u8 list \<Rightarrow> nat \<Rightarrow> nat \<Rightarrow> u8 list list \<Rightarrow> nat \<Rightarrow> nat \<Rightarrow> bool" for c start where
  last: "p < length c \<Longrightarrow> c ! p = 0 \<Longrightarrow> name_at c start p [] 0 (p + 1)"
| label: "l \<noteq> [] \<Longrightarrow> length l < 192 \<Longrightarrow> 0 \<notin> set l \<Longrightarrow> p + 1 + length l \<le> length c \<Longrightarrow> c ! p = of_nat (length l) \<Longrightarrow>
    take (length l) (drop (p + 1) c) = l \<Longrightarrow> name_at c start (p + 1 + length l) ls j q \<Longrightarrow>
    name_at c start p (l # ls) j q"
| pointer: "p + 2 \<le> length c \<Longrightarrow> off < 0x4000 \<Longrightarrow> take 2 (drop p c) = be16 (of_nat off OR 0xc000) \<Longrightarrow>
    start + off < length c \<Longrightarrow> name_at c start (start + off) ls j q \<Longrightarrow> name_at c start p ls (Suc j) (p + 2)"

inductive_cases name_atE: "name_at c start p ls j q"

lemma name_at_bounds: "name_at c start p ls j q \<Longrightarrow> p < q \<and> q \<le> length c"
  by (induction rule: name_at.induct) auto

lemma name_at_more: "name_at c start p ls j q \<Longrightarrow> name_at (c @ d) start p ls j q"
proof (induction rule: name_at.induct)
  case (last p)
  then show ?case by (intro name_at.last) (simp_all add: nth_append)
next
  case (label l p ls j q)
  then show ?case by (intro name_at.label) (simp_all add: nth_append)
next
  case (pointer p off ls j q)
  have "take 2 (drop p (c @ d)) = take 2 (drop p c)" using pointer.hyps(1) by simp
  with pointer show ?case by (intro name_at.pointer [where off = off]) simp_all
qed

text \<open>The text of a name: its labels with dots between.\<close>

fun join_labels :: "u8 list list \<Rightarrow> u8 list" where
  "join_labels [] = []"
| "join_labels [l] = l"
| "join_labels (l # ls) = l @ 46 # join_labels ls"

definition name_text :: "u8 list \<Rightarrow> u8 list list \<Rightarrow> u8 list" where
  "name_text buf ls = buf @ concat (map (\<lambda>l. 46 # l) ls)"

lemma join_labels_Cons: "join_labels (l # ls) = name_text l ls"
  by (induction ls arbitrary: l) (simp_all add: name_text_def)

lemma htons_be16_take:
  assumes "take 2 (drop p c) = be16 w"
  shows "htons (of_le (take 2 (drop p c)) :: u16) = w"
  using assms by (simp add: byte_simps)


definition name_add :: "u8 list \<Rightarrow> u8 list list \<Rightarrow> u8 list" where
  "name_add buf ls = (if buf = [] then join_labels ls else name_text buf ls)"

lemma name_add_Nil [simp]: "name_add buf [] = buf"
  by (simp add: name_add_def name_text_def)

lemma name_add_Cons:
  "l \<noteq> [] \<Longrightarrow> name_add buf (l # ls) = name_add (buf @ (if buf = [] then [] else [46]) @ l) ls"
  by (simp add: name_add_def join_labels_Cons) (simp add: name_text_def)

lemma length_name_add: "length buf \<le> length (name_add buf ls)"
  by (cases ls) (auto simp: name_add_def name_text_def)

lemma pointer_bytes:
  assumes "off < 0x4000"
  shows "unat ((of_nat off OR 0xc000 :: u16) AND 0x3fff) = off" "hd (be16 (of_nat off OR 0xc000)) AND 0xc0 = 0xc0"
proof -
  have "take_bit 14 off = off" using assms by (simp add: take_bit_nat_eq_self)
  then have b: "\<not> bit off n" if "14 \<le> n" for n
    using that bit_take_bit_iff [of 14 off n] by simp
  have "((of_nat off OR 0xc000 :: u16) AND 0x3fff) = of_nat off"
    by (rule bit_word_eqI, simp, drule less_16_cases, elim disjE; simp add: bit_simps b)
  then show "unat ((of_nat off OR 0xc000 :: u16) AND 0x3fff) = off" using assms by (simp add: unat_of_nat)
  have h: "hd (be16 w) = ucast (drop_bit 8 w)" for w :: u16
    by (simp add: be16_def le_bytes_def numeral_2_eq_2)
  show "hd (be16 (of_nat off OR 0xc000)) AND 0xc0 = 0xc0"
    unfolding h by (rule bit_word_eqI, simp, drule less_8_cases, elim disjE; simp add: bit_simps)
qed


lemma dname_dec_run:
  "name_at c start p ls j q \<Longrightarrow> mbuf_wf mb \<Longrightarrow> mbuf_content mb = c \<Longrightarrow> mb_pos mb = p \<Longrightarrow> loopc + j \<le> COMP_LOOP + 1 \<Longrightarrow>
   length (name_add buf ls) < 256 \<Longrightarrow>
   dname_dec_loop start buf loopc ret mb =
     (True, name_add buf ls @ [0], mb\<lparr>mb_pos := case ret of None \<Rightarrow> q | Some q' \<Rightarrow> q'\<rparr>)"
proof (induction arbitrary: mb loopc buf ret rule: name_at.induct)
  case (last p)
  have "mb_end mb = length c" using last.prems(1,2) by auto
  then show ?case using last dname_dec_step [OF last.prems(1), of start buf loopc ret]
    by (simp add: dname_len_def)
next
  case (label l p ls j q)
  let ?len = "of_nat (length l) :: u8" and ?mb = "mb\<lparr>mb_pos := p + 1 + length l\<rparr>"
  let ?buf = "buf @ (if buf = [] then [] else [46]) @ l"
  have e: "mb_end mb = length c" using label.prems(1,2) by auto
  have n: "unat ?len = length l" using label.hyps(2) by (simp add: unat_of_nat)
  then have nz: "?len \<noteq> 0" using label.hyps(1) by (metis length_0_conv unat_0)
  have "unat (?len AND 0xc0) \<noteq> 192"
  proof -
    have "?len AND 0xc0 \<le> ?len" by (rule word_and_le2)
    then show ?thesis using n label.hyps(2) by (simp add: word_le_nat_alt)
  qed
  then have nc: "?len AND 0xc0 \<noteq> 0xc0" by auto
  have na: "name_add buf (l # ls) = name_add ?buf ls" using label.hyps(1) by (rule name_add_Cons)
  have lb: "length ?buf < 256" using length_name_add [of ?buf ls] label.prems(5) na by simp
  have room: "\<not> sz_sub (sz_sub name_room (length buf)) 2 < length l"
    using lb label.hyps(1,2) by (cases "buf = []") (auto simp: name_room_def sz_sub_small size_mod_def not_less)
  have inside: "\<not> length c - Suc p < length l" using label.hyps(4) by simp
  have wf: "mbuf_wf ?mb" using label.prems(1) e label.hyps(4) by (intro mbuf_wf_set_pos) (auto simp: mbuf_wf_def)
  have "dname_dec_loop start buf loopc ret mb = dname_dec_loop start ?buf loopc ret ?mb"
    using label.hyps label.prems(2,3) e n nz nc room inside
    by (subst dname_dec_step [OF label.prems(1)]) (simp add: dname_len_def Let_def)
  also have "\<dots> = (True, name_add ?buf ls @ [0], ?mb\<lparr>mb_pos := case ret of None \<Rightarrow> q | Some q' \<Rightarrow> q'\<rparr>)"
    using label.prems label.hyps na by (intro label.IH [OF wf]) simp_all
  finally show ?case using na by simp
next
  case (pointer p off ls j q)
  let ?w = "of_nat off OR 0xc000 :: u16"
  let ?mb = "mb\<lparr>mb_pos := start + off\<rparr>"
  have e: "mb_end mb = length c" "length c < size_mod" using pointer.prems(1,2) by (auto simp: mbuf_wf_def)
  have "c ! p = hd (take 2 (drop p c))" using pointer.hyps(1) by (simp add: hd_drop_conv_nth)
  then have l: "dname_len mb AND 0xc0 = 0xc0" "dname_len mb \<noteq> 0"
    using pointer.hyps(3) pointer_bytes(2) [OF pointer.hyps(2)] pointer.prems(2,3) by (auto simp: dname_len_def)
  have off: "unat (htons (of_le (take 2 (drop p c))) AND 0x3fff) = off"
    using htons_be16_take [OF pointer.hyps(3)] pointer_bytes(1) [OF pointer.hyps(2)] by (simp only:)
  have sz: "sz_add off start = start + off" using pointer.hyps(4) e by (simp add: sz_add_small)
  have wf: "mbuf_wf ?mb" using pointer.prems(1) pointer.hyps(4) e by (intro mbuf_wf_set_pos) simp_all
  have "dname_dec_loop start buf loopc ret mb =
      dname_dec_loop start buf (loopc + 1) (if ret = None then Some (p + 2) else ret) ?mb"
    using pointer.hyps(1) pointer.prems(2-4) e l off sz
    by (subst dname_dec_step [OF pointer.prems(1)]) (simp add: Let_def)
  also have "\<dots> = (True, name_add buf ls @ [0],
      ?mb\<lparr>mb_pos := case (if ret = None then Some (p + 2) else ret) of None \<Rightarrow> q | Some q' \<Rightarrow> q'\<rparr>)"
    using pointer.prems by (intro pointer.IH [OF wf]) simp_all
  finally show ?case by (cases ret) simp_all
qed

subsection \<open>Encoding of names\<close>

text \<open>A buffer whose position is its end, holding \<open>c\<close>.\<close>

definition at_end :: "mbuf \<Rightarrow> u8 list \<Rightarrow> bool" where
  "at_end mb c \<longleftrightarrow> mbuf_wf mb \<and> mb_pos mb = mb_end mb \<and> mbuf_content mb = c"

lemma at_endD: "at_end mb c \<Longrightarrow> mbuf_wf mb \<and> mb_pos mb = length c \<and> mb_end mb = length c \<and> mbuf_content mb = c"
  by (auto simp: at_end_def)

lemma at_end_put_at:
  assumes "at_end mb c" "put_at mb xs mb'"
  shows "at_end mb' (c @ xs)"
proof -
  note a = at_endD [OF assms(1)] and d = put_atD [OF assms(2)]
  have len: "length (mbuf_content mb') = mb_end mb'" using d(1) by simp
  have e: "mb_end mb' = length c + length xs"
  proof (cases "xs = []")
    case True
    then show ?thesis using d(3,4) a by simp
  next
    case False
    then show ?thesis using put_at_end [OF assms(2) False] a by simp
  qed
  have "mbuf_content mb' = take (length c) (mbuf_content mb') @ drop (length c) (mbuf_content mb')" by simp
  also have "take (length c) (mbuf_content mb') = c" using d(5) a by simp
  also have "drop (length c) (mbuf_content mb') = xs" using d(6) a len e by simp
  finally show ?thesis using d(1,2) e a by (simp add: at_end_def)
qed

lemma at_end_puts:
  assumes "puts m xs" "at_end mb c" "length c + length xs < size_mod"
  obtains mb' where "run_state m mb = (0, mb')" "at_end mb' (c @ xs)"
proof -
  note a = at_endD [OF assms(2)]
  obtain mb' where "run_state m mb = (0, mb')" "put_at mb xs mb'"
    using putsD [OF assms(1), of mb] a assms(3) by auto
  then show ?thesis using that at_end_put_at [OF assms(2)] by blast
qed

lemma at_end_poke:
  assumes "at_end mb (c @ x # d)" "p = length c"
  shows "at_end (mem_poke p [y] mb) (c @ y # d)"
proof -
  note a = at_endD [OF assms(1)]
  obtain b where b: "mb_buf mb = Some b" "length b = mb_size mb" "mb_end mb \<le> mb_size mb"
    using a by (auto simp: mbuf_wf_def split: option.splits)
  let ?e = "length (c @ x # d)"
  have tk: "take ?e b = c @ x # d" using a b(1) by (auto simp: mbuf_content_def mbuf_bytes_def)
  have le: "p + 1 \<le> length b" using a b assms(2) by simp
  have m: "mem_poke p [y] mb = mb\<lparr>mb_buf := Some (overwrite p [y] b)\<rparr>" using b(1) le by (simp add: mem_poke_def)
  have "b = c @ [x] @ d @ drop ?e b" using tk append_take_drop_id [of ?e b] by simp
  then have "overwrite p [y] b = c @ [y] @ d @ drop ?e b"
    using overwrite_middle [of c p "[x]" "[y]" "d @ drop ?e b"] assms(2) by (simp only: length_Cons list.size)
  then have ob: "overwrite p [y] b = (c @ y # d) @ drop ?e b" by simp
  have "take ?e (overwrite p [y] b) = c @ y # d" unfolding ob by simp
  moreover have "length (overwrite p [y] b) = mb_size mb" using le b(2) by (simp add: length_overwrite)
  ultimately show ?thesis using a b m by (simp add: at_end_def mbuf_wf_def mbuf_content_def mbuf_bytes_def)
qed


abbreviation same_name :: "u8 list \<Rightarrow> u8 list \<Rightarrow> bool" where
  "same_name a b \<equiv> map tolower a = map tolower b"

definition labels_ok :: "u8 list list \<Rightarrow> bool" where
  "labels_ok ls \<longleftrightarrow> (\<forall>l \<in> set ls. l \<noteq> [] \<and> length l < 64 \<and> 0 \<notin> set l \<and> 46 \<notin> set l)"

text \<open>A valid entry of the table: its position, at most 14 bits, holds its name, case ignored.\<close>

definition entry_ok :: "u8 list \<Rightarrow> nat \<Rightarrow> u8 list \<times> nat \<Rightarrow> bool" where
  "entry_ok c start e \<longleftrightarrow> fst e \<noteq> [] \<and> snd e < 0x4000 \<and> (\<exists>ls j q. name_at c start (start + snd e) ls j q \<and>
     same_name (join_labels ls) (fst e) \<and> j \<le> length ls)"

definition ht_entries :: "dname_ht \<Rightarrow> (u8 list \<times> nat) list" where
  "ht_entries ht = (case ht of None \<Rightarrow> [] | Some l \<Rightarrow> l)"

definition ht_ok :: "u8 list \<Rightarrow> nat \<Rightarrow> dname_ht \<Rightarrow> bool" where
  "ht_ok c start ht \<longleftrightarrow> (\<forall>e \<in> set (ht_entries ht). entry_ok c start e)"

lemma entry_ok_more: "entry_ok c start e \<Longrightarrow> entry_ok (c @ d) start e"
  unfolding entry_ok_def using name_at_more by blast

lemma ht_ok_more: "ht_ok c start ht \<Longrightarrow> ht_ok (c @ d) start ht"
  by (simp add: ht_ok_def entry_ok_more)

lemma dname_lookup_some:
  assumes "dname_lookup ht t = Some p"
  obtains n where "(n, p) \<in> set (ht_entries ht)" "same_name n t"
proof (cases ht)
  case None
  then show ?thesis using assms by (simp add: dname_lookup_def)
next
  case (Some l)
  then obtain d where d: "find (\<lambda>d. str_casecmp_eq (Some (fst d)) (Some t)) l = Some d" "snd d = p"
    using assms by (auto simp: dname_lookup_def)
  then obtain i where "i < length l" "l ! i = d" "same_name (fst d) t"
    by (auto simp: find_Some_iff str_casecmp_eq_def)
  then have "d \<in> set l" "same_name (fst d) t" by (auto dest: nth_mem)
  with that [of "fst d"] d(2) Some show ?thesis by (auto simp: ht_entries_def)
qed

lemma dname_append_entries:
  "ht_entries (dname_append E ht t p) = ht_entries ht \<or>
   t \<noteq> [] \<and> p < 0x4000 \<and> ht_entries (dname_append E ht t p) = ht_entries ht @ [(t, p)]"
  by (auto simp: dname_append_def ht_entries_def OFFSET_MASK_def split: option.split)

lemma enc_chars:
  assumes "alloc_total E" "46 \<notin> set l" "at_end mb c" "length c + length l < size_mod"
  shows "\<exists>mb'. dname_enc_loop E start cmp (l @ rest) pos ht 0 mb = dname_enc_loop E start cmp rest pos ht 0 mb' \<and>
    at_end mb' (c @ l)"
  using assms(2-)
proof (induction l arbitrary: mb c)
  case (Cons x l)
  obtain mb1 where m: "run_state (mbuf_write_u8 E x) mb = (0, mb1)" "at_end mb1 (c @ [x])"
    using at_end_puts [OF puts_ints(1) [OF assms(1), of x] Cons.prems(2)] Cons.prems(3) by auto
  have "length (c @ [x]) + length l < size_mod" "46 \<notin> set l" using Cons.prems by simp_all
  from Cons.IH [OF this(2) m(2) this(1)] m(1) Cons.prems(1) show ?case by auto
qed auto

lemma enc_lablen:
  assumes "at_end mb (c @ x # l)" "l \<noteq> []" "length c + Suc (length l) < size_mod"
  shows "sz_sub (sz_sub (mb_pos mb) (length c)) 1 = length l"
  using at_endD [OF assms(1)] assms by (cases l) (auto simp: sz_sub_small)

lemma enc_last:
  assumes "alloc_total E" "at_end mb (c @ x # l)" "l \<noteq> []" "length c + length l + 2 < size_mod"
  shows "\<exists>mb'. dname_enc_loop E start cmp [] (length c) ht 0 mb = (0, ht, mb') \<and>
    at_end mb' (c @ of_nat (length l) # l @ [0])"
proof -
  have n: "sz_sub (sz_sub (mb_pos mb) (length c)) 1 = length l"
    by (rule enc_lablen [OF assms(2,3)]) (use assms(4) in simp)
  obtain mb' where "run_state (mbuf_write_u8 E 0) (mem_poke (length c) [of_nat (length l)] mb) = (0, mb')"
    "at_end mb' ((c @ of_nat (length l) # l) @ [0])"
    using at_end_puts [OF puts_ints(1) [OF assms(1), of 0] at_end_poke [OF assms(2) refl, of "of_nat (length l)"]] assms(4)
    by auto
  then show ?thesis using n assms(3) by (simp add: Let_def)
qed

text \<open>What the encoder promises for a name with the text \<open>t\<close>, written at the end of \<open>c\<close>.\<close>

definition encoded ::
  "u8 list \<Rightarrow> nat \<Rightarrow> u8 list \<Rightarrow> dname_ht \<Rightarrow> dname_ht \<Rightarrow> u8 list \<Rightarrow> nat \<Rightarrow> bool" where
  "encoded c start t ht ht' bs slack \<longleftrightarrow> length bs \<le> length t + 2 \<and>
     (\<exists>ls j. name_at (c @ bs) start (length c) ls j (length (c @ bs)) \<and> same_name (join_labels ls) t \<and>
        j \<le> length ls + slack) \<and>
     (\<exists>D. ht_entries ht' = ht_entries ht @ D \<and> (\<forall>e \<in> set D. entry_ok (c @ bs) start e))"

lemma join_labels_nil: "labels_ok ls \<Longrightarrow> join_labels ls = [] \<longleftrightarrow> ls = []"
  by (cases ls rule: join_labels.cases) (auto simp: labels_ok_def)

lemma join_Cons2: "ls \<noteq> [] \<Longrightarrow> join_labels (l # ls) = l @ 46 # join_labels ls"
  by (cases ls) simp_all

lemma length_join: "length ls \<le> Suc (length (join_labels ls))"
  by (induction ls rule: join_labels.induct) auto

lemma label_step:
  assumes "l \<noteq> []" "length l < 64" "0 \<notin> set l"
    and "name_at (c @ of_nat (length l) # l @ bs) start (length c + 1 + length l) ls j q"
  shows "name_at (c @ of_nat (length l) # l @ bs) start (length c) (l # ls) j q"
  using assms by (intro name_at.label) simp_all

lemma enc_loop_run:
  assumes E: "alloc_total E"
  shows "labels_ok (l # ls) \<Longrightarrow> at_end mb (c @ [x]) \<Longrightarrow> start \<le> length c \<Longrightarrow>
    length c + length (join_labels (l # ls)) + 2 < size_mod \<Longrightarrow>
    \<forall>e \<in> set (ht_entries ht). entry_ok c start e \<or> length (join_labels (l # ls)) \<le> length (fst e) \<Longrightarrow>
    \<exists>ht' mb' bs. dname_enc_loop E start cmp (join_labels (l # ls)) (length c) ht 0 mb = (0, ht', mb') \<and>
      at_end mb' (c @ bs) \<and> encoded c start (join_labels (l # ls)) ht ht' bs 0"
proof (induction ls arbitrary: l c x mb ht)
  case Nil
  have l: "l \<noteq> []" "length l < 64" "0 \<notin> set l" "46 \<notin> set l" using Nil.prems(1) by (auto simp: labels_ok_def)
  obtain mb1 where 1: "dname_enc_loop E start cmp l (length c) ht 0 mb = dname_enc_loop E start cmp [] (length c) ht 0 mb1"
    "at_end mb1 (c @ x # l)"
    using enc_chars [OF E l(4) Nil.prems(2), of start cmp "[]" "length c" ht] Nil.prems(4) by auto
  let ?bs = "of_nat (length l) # l @ [0]"
  obtain mb' where 2: "dname_enc_loop E start cmp [] (length c) ht 0 mb1 = (0, ht, mb')" "at_end mb' (c @ ?bs)"
    using enc_last [OF E 1(2) l(1), of start cmp ht] Nil.prems(4) by auto
  have "name_at (c @ ?bs) start (length c + 1 + length l) [] 0 (length (c @ ?bs))"
    using name_at.last [of "length c + 1 + length l" "c @ ?bs" start] by (simp add: nth_append)
  from label_step [OF l(1-3) this] have "name_at (c @ ?bs) start (length c) [l] 0 (length (c @ ?bs))" .
  then have "encoded c start (join_labels [l]) ht ht ?bs 0"
    unfolding encoded_def by (intro conjI exI [of _ "[l]"] exI [of _ 0] exI [of _ "[]"]) simp_all
  moreover have "dname_enc_loop E start cmp (join_labels [l]) (length c) ht 0 mb = (0, ht, mb')" using 1(1) 2(1) by simp
  ultimately show ?case using 2(2) by blast
next
  case (Cons l2 ls)
  let ?t = "join_labels (l2 # ls)"
  have l: "l \<noteq> []" "length l < 64" "0 \<notin> set l" "46 \<notin> set l" and ok2: "labels_ok (l2 # ls)"
    using Cons.prems(1) by (auto simp: labels_ok_def)
  have t: "join_labels (l # l2 # ls) = l @ 46 # ?t" by simp
  have tne: "?t \<noteq> []" using join_labels_nil [OF ok2] by simp
  have room: "length c + length l + length ?t + 3 < size_mod" using Cons.prems(4) t by simp
  obtain mb1 where 1: "dname_enc_loop E start cmp (l @ 46 # ?t) (length c) ht 0 mb =
      dname_enc_loop E start cmp (46 # ?t) (length c) ht 0 mb1" "at_end mb1 (c @ x # l)"
    using enc_chars [OF E l(4) Cons.prems(2), of start cmp "46 # ?t" "length c" ht] room by auto
  let ?lb = "of_nat (length l) # l" and ?c1 = "c @ of_nat (length l) # l"
  let ?mb2 = "mem_poke (length c) [of_nat (length l)] mb1"
  have 2: "at_end ?mb2 ?c1" using at_end_poke [OF 1(2) refl] by simp
  note a2 = at_endD [OF 2]
  have n: "sz_sub (sz_sub (mb_pos mb1) (length c)) 1 = length l"
    by (rule enc_lablen [OF 1(2) l(1)]) (use room in simp)
  have ent: "entry_ok c start e" if "e \<in> set (ht_entries ht)" "length (fst e) \<le> length ?t" for e
    using Cons.prems(5) that t by fastforce
  consider (ptr) p where "dname_lookup ht ?t = Some p" cmp | (go) "\<not> (\<exists>p. dname_lookup ht ?t = Some p \<and> cmp)"
    by blast
  then show ?case
  proof cases
    case ptr
    obtain nm where nm: "(nm, p) \<in> set (ht_entries ht)" "same_name nm ?t" by (rule dname_lookup_some [OF ptr(1)])
    have "length nm = length ?t" using nm(2) by (metis length_map)
    then have "entry_ok c start (nm, p)" using ent [OF nm(1)] by simp
    then obtain ls' j q where e: "p < 0x4000" "name_at c start (start + p) ls' j q" "same_name (join_labels ls') nm"
      "j \<le> length ls'" "nm \<noteq> []"
      by (auto simp: entry_ok_def)
    let ?w = "be16 (of_nat p OR 0xc000)"
    obtain mb' where 3: "run_state (dname_encode_pointer E p) ?mb2 = (0, mb')" "at_end mb' (?c1 @ ?w)"
      using at_end_puts [OF puts_ints(5) [OF E, of "of_nat p OR 0xc000"] 2] room
      by (auto simp: dname_encode_pointer_def)
    have na: "name_at (?c1 @ ?w) start (start + p) ls' j q" using name_at_more [OF e(2), of "?lb @ ?w"] by simp
    have "start + p < length (?c1 @ ?w)" using name_at_bounds [OF na] by simp
    then have "name_at (?c1 @ ?w) start (length ?c1) ls' (Suc j) (length ?c1 + 2)"
      using na e(1) by (intro name_at.pointer [where off = p]) simp_all
    then have "name_at (c @ ?lb @ ?w) start (length c) (l # ls') (Suc j) (length (c @ ?lb @ ?w))"
      using label_step [OF l(1-3), of c ?w start ls' "Suc j" "length ?c1 + 2"] by simp
    moreover have "ls' \<noteq> []" using e(3,5) by auto
    then have "same_name (join_labels (l # ls')) (l @ 46 # ?t)" using e(3) nm(2) by (simp add: join_Cons2)
    moreover have "length (?lb @ ?w) \<le> length (l @ 46 # ?t) + 2" by simp
    ultimately have "encoded c start (l @ 46 # ?t) ht ht (?lb @ ?w) 0"
      unfolding encoded_def using e(4)
      by (intro conjI exI [of _ "l # ls'"] exI [of _ "Suc j"] exI [of _ "[]"]) simp_all
    moreover have "dname_enc_loop E start cmp (l @ 46 # ?t) (length c) ht 0 mb = (0, ht, mb')"
      using 1(1) n l(1) ptr 3(1) by (simp add: Let_def)
    ultimately show ?thesis using 3(2) t by (metis append_assoc append_Cons)
  next
    case go
    let ?ht = "if dname_lookup ht ?t = None then dname_append E ht ?t (sz_sub (mb_pos ?mb2) start) else ht"
    obtain mb3 where 3: "run_state (mbuf_write_u8 E 0) ?mb2 = (0, mb3)" "at_end mb3 (?c1 @ [0])"
      using at_end_puts [OF puts_ints(1) [OF E, of 0] 2] room by auto
    have pos: "sz_sub (mb_pos ?mb2) start = length ?c1 - start"
      using a2 Cons.prems(3) room by (simp add: sz_sub_small)
    define A where "A = drop (length (ht_entries ht)) (ht_entries ?ht)"
    have A: "ht_entries ?ht = ht_entries ht @ A" "\<forall>e \<in> set A. e = (?t, length ?c1 - start) \<and> snd e < 0x4000"
      using dname_append_entries [of E ht ?t "sz_sub (mb_pos ?mb2) start"] pos by (auto simp: A_def)
    have "\<forall>e \<in> set (ht_entries ?ht). entry_ok ?c1 start e \<or> length ?t \<le> length (fst e)"
    proof
      fix e assume "e \<in> set (ht_entries ?ht)"
      then consider "e \<in> set (ht_entries ht)" | "e \<in> set A" using A(1) by auto
      then show "entry_ok ?c1 start e \<or> length ?t \<le> length (fst e)"
      proof cases
        case 1
        then show ?thesis using ent [of e] entry_ok_more [of c start e ?lb] by (cases "length (fst e) \<le> length ?t") auto
      next
        case 2
        then show ?thesis using A(2) by auto
      qed
    qed
    moreover have "start \<le> length ?c1" using Cons.prems(3) by simp
    moreover have "length ?c1 + length ?t + 2 < size_mod" using room by simp
    ultimately obtain ht' mb' bs where r: "dname_enc_loop E start cmp ?t (length ?c1) ?ht 0 mb3 = (0, ht', mb')"
      "at_end mb' (?c1 @ bs)" "encoded ?c1 start ?t ?ht ht' bs 0"
      using Cons.IH [OF ok2 3(2)] by blast
    obtain ls' j D where d: "name_at (?c1 @ bs) start (length ?c1) ls' j (length (?c1 @ bs))" "same_name (join_labels ls') ?t"
      "j \<le> length ls'" "ht_entries ht' = ht_entries ?ht @ D" "\<forall>e \<in> set D. entry_ok (?c1 @ bs) start e"
      "length bs \<le> length ?t + 2"
      using r(3) by (auto simp: encoded_def)
    have "ls' \<noteq> []" using d(2) tne by auto
    then have sn: "same_name (join_labels (l # ls')) (l @ 46 # ?t)" using d(2) by (simp add: join_Cons2)
    have na: "name_at (c @ ?lb @ bs) start (length c) (l # ls') j (length (c @ ?lb @ bs))"
      using label_step [OF l(1-3), of c bs start ls' j "length (?c1 @ bs)"] d(1) by simp
    have "\<forall>e \<in> set (A @ D). entry_ok (c @ ?lb @ bs) start e"
    proof
      fix e assume "e \<in> set (A @ D)"
      then consider "e \<in> set A" | "e \<in> set D" by auto
      then show "entry_ok (c @ ?lb @ bs) start e"
      proof cases
        case 1
        then have "e = (?t, length ?c1 - start)" "snd e < 0x4000" using A(2) by auto
        moreover have "start + (length ?c1 - start) = length ?c1" using Cons.prems(3) by simp
        ultimately show ?thesis using d(1-3) tne unfolding entry_ok_def
          by (intro conjI exI [of _ ls'] exI [of _ j] exI [of _ "length (?c1 @ bs)"]) simp_all
      next
        case 2
        then show ?thesis using d(5) by simp
      qed
    qed
    moreover have "ht_entries ht' = ht_entries ht @ A @ D" using d(4) A(1) by simp
    ultimately have "encoded c start (l @ 46 # ?t) ht ht' (?lb @ bs) 0"
      unfolding encoded_def using na sn d(3,6)
      by (intro conjI exI [of _ "l # ls'"] exI [of _ j] exI [of _ "A @ D"]) simp_all
    moreover have "dname_enc_loop E start cmp (l @ 46 # ?t) (length c) ht 0 mb = (0, ht', mb')"
      using 1(1) n l(1) go 3(1) r(1) a2 by (cases "dname_lookup ht ?t"; cases cmp) (simp_all add: Let_def)
    moreover have "at_end mb' (c @ ?lb @ bs)" using r(2) by simp
    ultimately show ?thesis unfolding t by blast
  qed
qed

lemma dname_encode_run:
  assumes E: "alloc_total E" and ls: "labels_ok ls" and mb: "at_end mb c" "start \<le> length c"
    and room: "length c + length (join_labels ls) + 2 < size_mod" and ht: "ht_ok c start ht"
  obtains ht' mb' bs where "dns_dname_encode E (Some (join_labels ls)) ht start cmp mb = (0, ht', mb')"
    "at_end mb' (c @ bs)" "encoded c start (join_labels ls) ht ht' bs 1"
proof -
  let ?t = "join_labels ls"
  note a = at_endD [OF mb(1)]
  have len: "length n = length n'" if "same_name n n'" for n n' :: "u8 list" using that by (metis length_map)
  consider (ptr) p where "dname_lookup ht ?t = Some p" cmp | (go) "\<not> (\<exists>p. dname_lookup ht ?t = Some p \<and> cmp)"
    by blast
  then show ?thesis
  proof cases
    case ptr
    obtain nm where nm: "(nm, p) \<in> set (ht_entries ht)" "same_name nm ?t" by (rule dname_lookup_some [OF ptr(1)])
    then obtain ls' j q where e: "p < 0x4000" "name_at c start (start + p) ls' j q" "same_name (join_labels ls') nm"
      "j \<le> length ls'"
      using ht by (auto simp: ht_ok_def entry_ok_def)
    let ?w = "be16 (of_nat p OR 0xc000)"
    obtain mb' where r: "run_state (dname_encode_pointer E p) mb = (0, mb')" "at_end mb' (c @ ?w)"
      using at_end_puts [OF puts_ints(5) [OF E, of "of_nat p OR 0xc000"] mb(1)] room
      by (auto simp: dname_encode_pointer_def)
    have na: "name_at (c @ ?w) start (start + p) ls' j q" using name_at_more [OF e(2)] .
    have "start + p < length (c @ ?w)" using name_at_bounds [OF na] by simp
    then have "name_at (c @ ?w) start (length c) ls' (Suc j) (length c + 2)"
      using na e(1) by (intro name_at.pointer [where off = p]) simp_all
    then have "encoded c start ?t ht ht ?w 1"
      unfolding encoded_def using e(3,4) nm(2)
      by (intro conjI exI [of _ ls'] exI [of _ "Suc j"] exI [of _ "[]"]) simp_all
    moreover have "dns_dname_encode E (Some ?t) ht start cmp mb = (0, ht, mb')"
      using ptr r(1) by (simp add: dns_dname_encode_def)
    ultimately show ?thesis using that r(2) by blast
  next
    case go
    let ?ht = "if dname_lookup ht ?t = None then dname_append E ht ?t (sz_sub (mb_pos mb) start) else ht"
    obtain mb1 where 1: "run_state (mbuf_write_u8 E 0) mb = (0, mb1)" "at_end mb1 (c @ [0])"
      using at_end_puts [OF puts_ints(1) [OF E, of 0] mb(1)] room by auto
    have enc: "dns_dname_encode E (Some ?t) ht start cmp mb =
        (if ?t = [46] then (0, ?ht, mb1) else dname_enc_loop E start cmp ?t (length c) ?ht 0 mb1)"
      using go 1(1) a
      by (cases "dname_lookup ht ?t"; cases cmp; cases "?t = [46]") (simp_all add: dns_dname_encode_def Let_def)
    show ?thesis
    proof (cases ls)
      case Nil
      have "sz_sub (sz_sub (mb_pos mb1) (length c)) 1 = 0"
        using at_endD [OF 1(2)] room by (simp add: sz_sub_small)
      moreover have "ht_entries ?ht = ht_entries ht"
        using dname_append_entries [of E ht ?t "sz_sub (mb_pos mb) start"] Nil by auto
      moreover have "name_at (c @ [0]) start (length c) [] 0 (length (c @ [0]))"
        using name_at.last [of "length c" "c @ [0]" start] by simp
      ultimately have "encoded c start ?t ht ?ht [0] 1"
        unfolding encoded_def using Nil by (intro conjI exI [of _ "[]"] exI [of _ 0]) simp_all
      moreover have "dns_dname_encode E (Some ?t) ht start cmp mb = (0, ?ht, mb1)"
        using enc Nil \<open>sz_sub (sz_sub (mb_pos mb1) (length c)) 1 = 0\<close> by (simp add: Let_def)
      ultimately show ?thesis using that 1(2) by blast
    next
      case (Cons l ls2)
      have tne: "?t \<noteq> []" "?t \<noteq> [46]"
      proof -
        show "?t \<noteq> []" using join_labels_nil [OF ls] Cons by simp
        show "?t \<noteq> [46]" using ls Cons by (cases ls2; cases l) (auto simp: labels_ok_def)
      qed
      define A where "A = drop (length (ht_entries ht)) (ht_entries ?ht)"
      have pos: "sz_sub (mb_pos mb) start = length c - start" using a mb(2) room by (simp add: sz_sub_small)
      have A: "ht_entries ?ht = ht_entries ht @ A" "\<forall>e \<in> set A. e = (?t, length c - start) \<and> snd e < 0x4000"
        using dname_append_entries [of E ht ?t "sz_sub (mb_pos mb) start"] pos by (auto simp: A_def)
      have "\<forall>e \<in> set (ht_entries ?ht). entry_ok c start e \<or> length (join_labels (l # ls2)) \<le> length (fst e)"
        using A ht Cons by (auto simp: ht_ok_def)
      then obtain ht' mb' bs where r: "dname_enc_loop E start cmp ?t (length c) ?ht 0 mb1 = (0, ht', mb')"
        "at_end mb' (c @ bs)" "encoded c start ?t ?ht ht' bs 0"
        using enc_loop_run [OF E, of l ls2 mb1 c 0 start ?ht cmp] ls 1(2) mb(2) room Cons by blast
      obtain ls' j D where d: "name_at (c @ bs) start (length c) ls' j (length (c @ bs))" "same_name (join_labels ls') ?t"
        "j \<le> length ls'" "ht_entries ht' = ht_entries ?ht @ D" "\<forall>e \<in> set D. entry_ok (c @ bs) start e"
        "length bs \<le> length ?t + 2"
        using r(3) by (auto simp: encoded_def)
      have "entry_ok (c @ bs) start e" if "e \<in> set A" for e
      proof -
        have "e = (?t, length c - start)" "snd e < 0x4000" using A(2) that by auto
        moreover have "start + (length c - start) = length c" using mb(2) by simp
        ultimately show ?thesis using d(1-3) tne unfolding entry_ok_def
          by (intro conjI exI [of _ ls'] exI [of _ j] exI [of _ "length (c @ bs)"]) simp_all
      qed
      then have "encoded c start ?t ht ht' bs 1"
        unfolding encoded_def using d A(1)
        by (intro conjI exI [of _ ls'] exI [of _ j] exI [of _ "A @ D"]) auto
      moreover have "dns_dname_encode E (Some ?t) ht start cmp mb = (0, ht', mb')" using enc tne r(1) by simp
      ultimately show ?thesis using that r(2) by blast
    qed
  qed
qed

lemma name_at_labels: "name_at c start p ls j q \<Longrightarrow> \<forall>l \<in> set ls. l \<noteq> [] \<and> 0 \<notin> set l"
  by (induction rule: name_at.induct) auto

lemma join_no_0: "\<forall>l \<in> set ls. 0 \<notin> set l \<Longrightarrow> (0 :: u8) \<notin> set (join_labels ls)"
  by (induction ls rule: join_labels.induct) auto

lemma length_labels: "\<forall>l \<in> set ls. l \<noteq> [] \<Longrightarrow> 2 * length ls \<le> Suc (length (join_labels ls))"
proof (induction ls rule: join_labels.induct)
  case (2 l)
  then show ?case by (cases l) auto
next
  case (3 l l2 ls)
  then have "0 < length l" by auto
  with 3 show ?case by (simp del: length_greater_0_conv)
qed simp

lemma dns_dname_decode_run:
  assumes E: "alloc_total E" and na: "name_at c start p ls j q" and mb: "mbuf_wf mb" "mbuf_content mb = c" "mb_pos mb = p"
    and len: "length (join_labels ls) < 256" and j: "j \<le> length ls + 1"
  shows "run_state (dns_dname_decode E start) mb = ((0, join_labels ls), mb\<lparr>mb_pos := q\<rparr>)"
proof -
  have lab: "\<forall>l \<in> set ls. l \<noteq> [] \<and> 0 \<notin> set l" using na by (rule name_at_labels)
  have "2 * length ls \<le> Suc (length (join_labels ls))" using length_labels lab by blast
  then have "0 + j \<le> COMP_LOOP + 1" using j len by (simp add: COMP_LOOP_def)
  from dname_dec_run [OF na mb this, of "[]" None] len
  have "dname_dec_loop start [] 0 None mb = (True, join_labels ls @ [0], mb\<lparr>mb_pos := q\<rparr>)"
    by (simp add: name_add_def)
  moreover have "takeWhile (\<lambda>c. c \<noteq> 0) (join_labels ls @ [0]) = join_labels ls"
    using join_no_0 [of ls] lab by (auto simp: takeWhile_append)
  moreover have "can_alloc E (length (join_labels ls @ [0]))" using E len by (simp add: alloc_total_def size_mod_def)
  ultimately show ?thesis using len by (simp add: dns_dname_decode_def name_room_def Let_def)
qed

text \<open>C28: domain names survive the wire. \<^verbatim>\<open>dns_dname_encode\<close> writes a name of non-empty labels (each shorter than 64
  bytes, 255 bytes together) behind what the buffer holds, with or without compression and whatever valid table of
  names it compresses with; \<^verbatim>\<open>dns_dname_decode\<close> at the place where it was written gives the name, case ignored, and
  ends behind it; the table is valid again for what the buffer holds now, so the next name can use it.\<close>

theorem dns_dname_roundtrip:
  assumes "alloc_total E" "labels_ok ls" "length (join_labels ls) < 256" "at_end mb c" "start \<le> length c"
    and "length c + length (join_labels ls) + 2 < size_mod" "ht_ok c start ht"
  shows "\<exists>ht' mb' name bs. dns_dname_encode E (Some (join_labels ls)) ht start cmp mb = (0, ht', mb') \<and>
    run_state (dns_dname_decode E start) (mb'\<lparr>mb_pos := mb_pos mb\<rparr>) = ((0, name), mb') \<and>
    same_name name (join_labels ls) \<and> at_end mb' (c @ bs) \<and> length bs \<le> length (join_labels ls) + 2 \<and>
    ht_ok (c @ bs) start ht'"
proof -
  obtain ht' mb' bs where r: "dns_dname_encode E (Some (join_labels ls)) ht start cmp mb = (0, ht', mb')"
    "at_end mb' (c @ bs)" "encoded c start (join_labels ls) ht ht' bs 1"
    by (rule dname_encode_run [OF assms(1,2,4-7)])
  obtain ls' j D where d: "name_at (c @ bs) start (length c) ls' j (length (c @ bs))" "same_name (join_labels ls') (join_labels ls)"
    "j \<le> length ls' + 1" "ht_entries ht' = ht_entries ht @ D" "\<forall>e \<in> set D. entry_ok (c @ bs) start e"
    "length bs \<le> length (join_labels ls) + 2"
    using r(3) by (auto simp: encoded_def)
  note a = at_endD [OF assms(4)] and a' = at_endD [OF r(2)]
  have "length (join_labels ls') = length (join_labels ls)" using d(2) by (metis length_map)
  then have "length (join_labels ls') < 256" using assms(3) by simp
  moreover have "mbuf_wf (mb'\<lparr>mb_pos := mb_pos mb\<rparr>)" using a a' assms(6) by (intro mbuf_wf_set_pos) auto
  ultimately have "run_state (dns_dname_decode E start) (mb'\<lparr>mb_pos := mb_pos mb\<rparr>) =
      ((0, join_labels ls'), mb'\<lparr>mb_pos := mb_pos mb, mb_pos := length (c @ bs)\<rparr>)"
    using dns_dname_decode_run [OF assms(1) d(1), of "mb'\<lparr>mb_pos := mb_pos mb\<rparr>"] a a' d(3) by simp
  moreover have "mb'\<lparr>mb_pos := length (c @ bs)\<rparr> = mb'" using a' by simp
  moreover have "ht_ok (c @ bs) start ht'" using assms(7) d(4,5) ht_ok_more [of c start ht bs]
    by (auto simp: ht_ok_def)
  ultimately show ?thesis using r d(2,6)
    by (intro exI [of _ ht'] exI [of _ mb'] exI [of _ "join_labels ls'"] exI [of _ bs]) simp
qed

theorem dns_dname_roundtrip_witness:
  "\<exists>ht' mb' name. dns_dname_encode ideal_env (Some [119, 46, 100, 101]) (Some []) 0 True mbuf_init = (0, ht', mb') \<and>
    run_state (dns_dname_decode ideal_env 0) (mb'\<lparr>mb_pos := 0\<rparr>) = ((0, name), mb')"
  using dns_dname_roundtrip [of ideal_env "[[119], [100, 101]]" mbuf_init "[]" 0 "Some []" True]
  by (auto simp: labels_ok_def at_end_def mbuf_content_def mbuf_bytes_def ht_ok_def ht_entries_def mbuf_init_ok
      mbuf_ok_wf size_mod_def) (auto simp: mbuf_init_def)

text \<open>C29: what \<^verbatim>\<open>dns_dname_decode\<close> does to any packet: it ends (pointers are counted), changes nothing, and a name it finds
  ends inside the packet. The one fault it can make is not one of the packet: it stores past the 256 bytes of its
  local array exactly when the labels it copied need more.\<close>

theorem dns_dname_decode_bounds:
  assumes "mbuf_ok mb"
  shows "\<exists>found buf p. dname_dec_loop start [] 0 None mb = (found, buf, mb\<lparr>mb_pos := p\<rparr>) \<and> p < size_mod \<and>
    (fst (fst (run_state (dns_dname_decode E start) mb)) = 0 \<longrightarrow> p \<le> mb_end mb) \<and>
    snd (run_state (dns_dname_decode E start) mb) = mb\<lparr>mb_pos := p, mb_fault := 256 < length buf\<rparr>"
proof -
  have wf: "mbuf_wf mb" "\<not> mb_fault mb" using assms by (auto simp: mbuf_ok_def mbuf_wf_def)
  obtain found buf p where d: "dname_dec_loop start [] 0 None mb = (found, buf, mb\<lparr>mb_pos := p\<rparr>)"
    "found \<longrightarrow> p \<le> mb_end mb" "p < size_mod"
    using dname_dec_frame [OF wf(1), of None start "[]" 0] by auto
  then show ?thesis using wf(2)
    by (intro exI [of _ found] exI [of _ buf] exI [of _ p])
      (auto simp: dns_dname_decode_def name_room_def Let_def not_le)
qed

theorem dns_dname_decode_bounds_witness:
  "\<exists>buf p. dname_dec_loop 0 [] 0 None mbuf_init = (False, buf, mbuf_init\<lparr>mb_pos := p\<rparr>) \<and> p < size_mod"
  using dns_dname_decode_bounds [OF mbuf_init_ok, of 0] 
  by (subst dname_dec_loop.simps) (auto simp: mbuf_init_def size_mod_def)

lemma dname_dec_label:
  assumes "mbuf_wf mb" "mbuf_content mb = pre @ of_nat (length l) # l @ post" "mb_pos mb = length pre" "l \<noteq> []" "length l < 192"
    and "length l \<le> sz_sub (sz_sub name_room (length buf)) 2"
  shows "dname_dec_loop start buf loopc ret mb =
    dname_dec_loop start (buf @ (if buf = [] then [] else [46]) @ l) loopc ret (mb\<lparr>mb_pos := length pre + 1 + length l\<rparr>)"
proof -
  have e: "mb_end mb = length pre + 1 + length l + length post" using assms(1,2) length_mbuf_content [OF assms(1)] by simp
  have n: "unat (of_nat (length l) :: u8) = length l" using assms(5) by (simp add: unat_of_nat)
  then have nz: "(of_nat (length l) :: u8) \<noteq> 0" using assms(4) by (metis length_0_conv unat_0)
  have "unat ((of_nat (length l) :: u8) AND 0xc0) \<noteq> 192"
  proof -
    have "(of_nat (length l) :: u8) AND 0xc0 \<le> of_nat (length l)" by (rule word_and_le2)
    then show ?thesis using n assms(5) by (simp add: word_le_nat_alt)
  qed
  then have nc: "(of_nat (length l) :: u8) AND 0xc0 \<noteq> 0xc0" by auto
  show ?thesis
    using assms(2-) e n nz nc by (subst dname_dec_step [OF assms(1)]) (simp add: dname_len_def Let_def not_le)
qed

text \<open>The packet: labels of 127, 125 and 1 bytes fill 255 bytes of the array, then comes one of 60 bytes.\<close>

definition long_name :: "u8 list" where
  "long_name = 127 # replicate 127 97 @ 125 # replicate 125 97 @ 1 # 97 # 60 # replicate 60 97 @ [0]"

definition long_packet :: mbuf where
  "long_packet = \<lparr>mb_buf = Some long_name, mb_size = length long_name, mb_pos = 0, mb_end = length long_name, mb_fault = False\<rparr>"

text \<open>C30: the check against the array's size in \<^verbatim>\<open>dns_dname_decode\<close> wraps around when 255 bytes are used: a well-formed
  packet buffer with a name of four labels and no pointer makes the decoder store 61 bytes behind the end of its local
  array, and it reports success.\<close>

theorem dns_dname_decode_overrun:
  "mbuf_ok long_packet \<and> fst (fst (run_state (dns_dname_decode ideal_env 0) long_packet)) = 0 \<and>
   mb_fault (snd (run_state (dns_dname_decode ideal_env 0) long_packet))"
proof -
  let ?a = "replicate 127 (97 :: u8)" and ?b = "replicate 125 (97 :: u8)" and ?d = "replicate 60 (97 :: u8)"
  let ?at = "\<lambda>p. long_packet\<lparr>mb_pos := p\<rparr>"
  have len: "length long_name = 318" by (simp add: long_name_def)
  have ok: "mbuf_ok long_packet" using len by (simp add: mbuf_ok_def mbuf_wf_def long_packet_def size_mod_def)
  have c: "mbuf_content (?at p) = long_name" for p by (simp add: mbuf_content_def mbuf_bytes_def long_packet_def)
  have wf: "mbuf_wf (?at p)" if "p < size_mod" for p using ok that by (intro mbuf_wf_set_pos) (simp_all add: mbuf_ok_def)
  have sz: "size_mod = 4294967296" by (simp add: size_mod_def)
  have 0: "?at 0 = long_packet" by (simp add: long_packet_def)
  have 1: "dname_dec_loop 0 [] 0 None (?at 0) = dname_dec_loop 0 ?a 0 None (?at 128)"
    using dname_dec_label [of "?at 0" "[]" ?a "125 # ?b @ 1 # 97 # 60 # ?d @ [0]" "[]" 0 0 None] wf [of 0] c sz
    by (simp add: long_name_def name_room_def sz_sub_small)
  have 2: "dname_dec_loop 0 ?a 0 None (?at 128) = dname_dec_loop 0 (?a @ [46] @ ?b) 0 None (?at 254)"
    using dname_dec_label [of "?at 128" "127 # ?a" ?b "1 # 97 # 60 # ?d @ [0]" ?a 0 0 None] wf [of 128] c sz
    by (simp add: long_name_def name_room_def sz_sub_small)
  have 3: "dname_dec_loop 0 (?a @ [46] @ ?b) 0 None (?at 254) = dname_dec_loop 0 (?a @ [46] @ ?b @ [46, 97]) 0 None (?at 256)"
    using dname_dec_label [of "?at 254" "127 # ?a @ 125 # ?b" "[97]" "60 # ?d @ [0]" "?a @ [46] @ ?b" 0 0 None]
      wf [of 254] c sz
    by (simp add: long_name_def name_room_def sz_sub_small)
  have w: "length ?d \<le> sz_sub (sz_sub name_room (length (?a @ [46] @ ?b @ [46, 97]))) 2"
    by (simp add: name_room_def sz_sub_def size_mod_def)
  have 4: "dname_dec_loop 0 (?a @ [46] @ ?b @ [46, 97]) 0 None (?at 256) =
      dname_dec_loop 0 (?a @ [46] @ ?b @ [46, 97, 46] @ ?d) 0 None (?at 317)"
    using dname_dec_label [of "?at 256" "127 # ?a @ 125 # ?b @ [1, 97]" ?d "[0]" "?a @ [46] @ ?b @ [46, 97]" 0 0 None,
        OF _ _ _ _ _ w] wf [of 256] c sz
    by (simp add: long_name_def)
  let ?buf = "?a @ [46] @ ?b @ [46, 97, 46] @ ?d"
  have 5: "dname_dec_loop 0 ?buf 0 None (?at 317) = (True, ?buf @ [0], ?at 318)"
    using wf [of 317] c sz len
    by (subst dname_dec_step) (simp_all add: dname_len_def long_packet_def long_name_def nth_append)
  have "dname_dec_loop 0 [] 0 None long_packet = (True, ?buf @ [0], ?at 318)"
    using 1 2 3 4 5 unfolding 0 by (simp only:)
  then have "run_state (dns_dname_decode ideal_env 0) long_packet =
      ((0, takeWhile (\<lambda>c. c \<noteq> 0) (?buf @ [0])), (?at 318)\<lparr>mb_fault := True\<rparr>)"
    by (simp add: dns_dname_decode_def Let_def name_room_def ideal_env_def del: takeWhile_append)
  then show ?thesis using ok by simp
qed

subsection \<open>Records: comparison, order, search\<close>

text \<open>Names as the comparison sees them.\<close>

definition ci :: "c_string \<Rightarrow> c_string" where "ci = map_option (map tolower)"

fun rd_norm :: "dns_rdata \<Rightarrow> dns_rdata" where
  "rd_norm (RdNs n) = RdNs (ci n)"
| "rd_norm (RdCname n) = RdCname (ci n)"
| "rd_norm (RdSoa m r a b c d e) = RdSoa (ci m) (ci r) a b c d e"
| "rd_norm (RdPtr n) = RdPtr (ci n)"
| "rd_norm (RdMx p n) = RdMx p (ci n)"
| "rd_norm (RdAaaa a) = RdAaaa (take 16 a)"
| "rd_norm (RdSrv p w q n) = RdSrv p w q (ci n)"
| "rd_norm (RdNaptr p q f s x n) = RdNaptr p q (ci f) (ci s) (ci x) (ci n)"
| "rd_norm d = d"

lemma str_casecmp_ci: "str_casecmp_eq a b \<longleftrightarrow> ci a = ci b"
  by (cases a; cases b) (simp_all add: str_casecmp_eq_def ci_def)

lemma rdata_cmp_norm: "rdata_cmp d1 d2 \<longleftrightarrow> rd_norm d1 = rd_norm d2 \<and> d1 \<noteq> RdOther"
  by (cases d1; cases d2; simp add: rdata_cmp_def str_casecmp_ci)

lemma dns_rr_cmp_norm:
  "dns_rr_cmp False (Some r) (Some s) d \<longleftrightarrow> rr_type r = rr_type s \<and> rr_dnsclass r = rr_dnsclass s \<and>
     ci (rr_name r) = ci (rr_name s) \<and> (d \<longrightarrow> rr_type r \<in> set dns_types \<and>
       rd_norm (rr_rdata r) = rd_norm (rr_rdata s) \<and> rr_rdata r \<noteq> RdOther)"
  by (simp add: dns_rr_cmp_def rdata_cmp_norm str_casecmp_ci)

lemma rd_norm_other: "rd_norm d = RdOther \<longleftrightarrow> d = RdOther"
  by (cases d) simp_all

lemma tolower_twice: "tolower (tolower c) = tolower c"
proof (cases "65 \<le> c \<and> c \<le> 90")
  case True
  then have "unat (c + 32) = unat c + 32" by (simp add: unat_add_small word_le_nat_alt)
  then have "90 < c + 32" using True by (simp add: word_less_nat_alt word_le_nat_alt)
  with True show ?thesis by (auto simp: tolower_def)
qed (auto simp: tolower_def)

text \<open>\<^verbatim>\<open>dns_rr_cmp\<close> is a partial equivalence of records: symmetric and transitive, and reflexive but for the data of
  types it does not know. Two records are equal exactly when type and class are and the names and data are after
  putting all letters in lower case; the time to live does not count.\<close>

theorem dns_rr_cmp_equivalence:
  "dns_rr_cmp False (Some r) (Some r) d = (d \<longrightarrow> rr_type r \<in> set dns_types \<and> rr_rdata r \<noteq> RdOther) \<and>
   dns_rr_cmp False (Some r) (Some s) d = dns_rr_cmp False (Some s) (Some r) d \<and>
   (dns_rr_cmp False (Some r) (Some s) d \<and> dns_rr_cmp False (Some s) (Some u) d \<longrightarrow> dns_rr_cmp False (Some r) (Some u) d) \<and>
   dns_rr_cmp False (Some r) (Some (r\<lparr>rr_name := ci (rr_name r), rr_ttl := t\<rparr>)) False"
proof -
  have idem: "ci (ci n) = ci n" for n
    by (cases n) (auto simp: ci_def tolower_twice)
  have other: "rd_norm a = rd_norm b \<Longrightarrow> a = RdOther \<longleftrightarrow> b = RdOther" for a b
    using rd_norm_other [of a] rd_norm_other [of b] by simp
  show ?thesis
  proof (intro conjI)
    show "dns_rr_cmp False (Some r) (Some s) d = dns_rr_cmp False (Some s) (Some r) d"
      using other [of "rr_rdata r" "rr_rdata s"] by (auto simp: dns_rr_cmp_norm)
    show "dns_rr_cmp False (Some r) (Some s) d \<and> dns_rr_cmp False (Some s) (Some u) d \<longrightarrow> dns_rr_cmp False (Some r) (Some u) d"
      by (auto simp: dns_rr_cmp_norm)
  qed (simp_all add: dns_rr_cmp_norm idem)
qed

theorem dns_rr_cmp_equivalence_witness:
  "dns_rr_cmp False (Some \<lparr>rr_name = None, rr_type = 1, rr_dnsclass = 1, rr_ttl = 0, rr_rdlen = 4, rr_rdata = RdA 5\<rparr>)
     (Some \<lparr>rr_name = None, rr_type = 1, rr_dnsclass = 1, rr_ttl = 0, rr_rdlen = 4, rr_rdata = RdA 5\<rparr>) True"
  by (rule iffD2 [OF dns_rr_cmp_equivalence [THEN conjunct1,
      of "\<lparr>rr_name = None, rr_type = 1, rr_dnsclass = 1, rr_ttl = 0, rr_rdlen = 4, rr_rdata = RdA 5\<rparr>" True]]) (simp add: dns_types_def)

definition rr_wf :: "dnsrr \<Rightarrow> bool" where
  "rr_wf rr \<longleftrightarrow> (rr_type rr \<in> set dns_types \<longrightarrow> rdata_type (rr_rdata rr) = Some (rr_type rr))"

text \<open>The rank of a record: preference first, records of another type last.\<close>

definition rr_rank :: "u16 \<Rightarrow> dnsrr \<Rightarrow> nat" where
  "rr_rank type rr =
     (if rr_type rr \<noteq> type then 2 ^ 32
      else if type = DNS_TYPE_MX then (case rr_rdata rr of RdMx p _ \<Rightarrow> unat p | _ \<Rightarrow> 0)
      else if type = DNS_TYPE_SRV then
        (case rr_rdata rr of RdSrv p w _ _ \<Rightarrow> 65536 * unat p + unat (of_bool (w \<noteq> 0) :: u16) | _ \<Rightarrow> 0)
      else if type = DNS_TYPE_NAPTR then (case rr_rdata rr of RdNaptr p q _ _ _ _ \<Rightarrow> 65536 * unat p + unat q | _ \<Rightarrow> 0)
      else 0)"

lemma rank_bound: "65536 * unat (p :: u16) + unat (q :: u16) < 2 ^ 32" "unat p < 2 ^ 32"
  using unat_bounds(2) [of p] unat_bounds(2) [of q] by simp_all

lemma rr_rank_less: "rr_type r = type \<Longrightarrow> rr_rank type r < 2 ^ 32"
  using rank_bound by (auto simp: rr_rank_def split: dns_rdata.split)

lemma rank_pair:
  fixes p p' q q' :: u16
  shows "65536 * unat p + unat q \<le> 65536 * unat p' + unat q' \<longleftrightarrow> (if p = p' then q \<le> q' else p < p')"
proof (cases "p = p'")
  case False
  then have "unat p \<noteq> unat p'" by (simp add: word_unat_eq_iff)
  then have "unat p < unat p' \<or> unat p' < unat p" by arith
  then show ?thesis using unat_bounds(2) [of q] unat_bounds(2) [of q'] False
    by (auto simp: word_less_nat_alt)
qed (simp add: word_le_nat_alt)

lemma rdata_type_iff:
  "rdata_type d = Some DNS_TYPE_MX \<longleftrightarrow> (\<exists>p n. d = RdMx p n)"
  "rdata_type d = Some DNS_TYPE_SRV \<longleftrightarrow> (\<exists>p w q n. d = RdSrv p w q n)"
  "rdata_type d = Some DNS_TYPE_NAPTR \<longleftrightarrow> (\<exists>p q f s x n. d = RdNaptr p q f s x n)"
  by (cases d; simp add: rdata_type_def)+

lemma rr_before_rank:
  assumes "rr_wf a" "rr_wf b"
  shows "rr_before type a b \<longleftrightarrow> rr_rank type a \<le> rr_rank type b"
proof (cases "rr_type a = type \<and> rr_type b = type")
  case False
  then consider "rr_type a \<noteq> type" "rr_type b \<noteq> type" | "rr_type a \<noteq> type" "rr_type b = type"
    | "rr_type a = type" "rr_type b \<noteq> type" by blast
  then show ?thesis
  proof cases
    case 2
    then show ?thesis using rr_rank_less [of b type] by (simp add: rr_before_def rr_rank_def [of type a])
  next
    case 3
    then show ?thesis using rr_rank_less [of a type] by (simp add: rr_before_def rr_rank_def [of type b])
  qed (simp add: rr_before_def rr_rank_def)
next
  case True
  have known: "rdata_type (rr_rdata a) = Some type" "rdata_type (rr_rdata b) = Some type" if "type \<in> set dns_types"
    using assms True that by (simp_all add: rr_wf_def)
  have sorted_type: "DNS_TYPE_MX \<in> set dns_types" "DNS_TYPE_SRV \<in> set dns_types" "DNS_TYPE_NAPTR \<in> set dns_types"
    unfolding dns_types_def by simp_all
  have flag: "(of_bool P :: u16) \<le> of_bool Q \<longleftrightarrow> (P \<longrightarrow> Q)" for P Q by (cases P; cases Q) simp_all
  consider (mx) "type = DNS_TYPE_MX" | (srv) "type = DNS_TYPE_SRV" | (naptr) "type = DNS_TYPE_NAPTR"
    | (no) "type \<noteq> DNS_TYPE_MX" "type \<noteq> DNS_TYPE_SRV" "type \<noteq> DNS_TYPE_NAPTR" by argo
  then show ?thesis
  proof cases
    case mx
    have "rdata_type (rr_rdata a) = Some DNS_TYPE_MX" "rdata_type (rr_rdata b) = Some DNS_TYPE_MX"
      using known sorted_type unfolding mx by blast+
    then obtain p q m n where d: "rr_rdata a = RdMx p m" "rr_rdata b = RdMx q n" unfolding rdata_type_iff by blast
    have "rr_before type a b \<longleftrightarrow> p \<le> q" using True unfolding mx by (simp add: rr_before_def d)
    moreover have "rr_rank type a = unat p" "rr_rank type b = unat q" using True unfolding mx by (simp_all add: rr_rank_def d)
    ultimately show ?thesis by (simp add: word_le_nat_alt)
  next
    case srv
    have "rdata_type (rr_rdata a) = Some DNS_TYPE_SRV" "rdata_type (rr_rdata b) = Some DNS_TYPE_SRV"
      using known sorted_type unfolding srv by blast+
    then obtain p w n m p' w' n' m' where d: "rr_rdata a = RdSrv p w n m" "rr_rdata b = RdSrv p' w' n' m'"
      unfolding rdata_type_iff by blast
    have "rr_before type a b \<longleftrightarrow> (if p = p' then w \<noteq> 0 \<longrightarrow> w' \<noteq> 0 else p < p')"
      using True unfolding srv by (simp add: rr_before_def d)
    moreover have "rr_rank type a = 65536 * unat p + unat (of_bool (w \<noteq> 0) :: u16)"
      "rr_rank type b = 65536 * unat p' + unat (of_bool (w' \<noteq> 0) :: u16)"
      using True unfolding srv by (simp_all add: rr_rank_def d)
    ultimately show ?thesis using rank_pair [of p "of_bool (w \<noteq> 0)" p' "of_bool (w' \<noteq> 0)"] by (simp only: flag)
  next
    case naptr
    have "rdata_type (rr_rdata a) = Some DNS_TYPE_NAPTR" "rdata_type (rr_rdata b) = Some DNS_TYPE_NAPTR"
      using known sorted_type unfolding naptr by blast+
    then obtain p q f s x n p' q' f' s' x' n'
      where d: "rr_rdata a = RdNaptr p q f s x n" "rr_rdata b = RdNaptr p' q' f' s' x' n'" unfolding rdata_type_iff by blast
    have "rr_before type a b \<longleftrightarrow> (if p = p' then q \<le> q' else p < p')"
      using True unfolding naptr by (simp add: rr_before_def d)
    moreover have "rr_rank type a = 65536 * unat p + unat q" "rr_rank type b = 65536 * unat p' + unat q'"
      using True unfolding naptr by (simp_all add: rr_rank_def d)
    ultimately show ?thesis using rank_pair [of p q p' q'] by (simp only:)
  next
    case no
    then show ?thesis using True by (simp add: rr_before_def rr_rank_def)
  qed
qed

lemma u16_apart [simp]: "(y :: u16) \<noteq> x \<Longrightarrow> x < y \<or> y < x"
  by (metis neq_iff)

lemma rr_before_total: "rr_before type a b \<or> rr_before type b a"
  unfolding rr_before_def by (cases "rr_rdata a"; cases "rr_rdata b") (simp_all add: linear)

text \<open>Sorting a list of records for a type (\<^verbatim>\<open>dns_rrlist_sort\<close>) ends; afterwards the list holds the same
  elements, the records of that type come first and in the order of their preference (MX), of priority and of zero
  weight first (SRV), of order and preference (NAPTR), and the links of all lists are sound.\<close>

theorem dns_rrlist_sort_ranks:
  assumes "heap_ok h S" and "\<forall>a \<in> set (S L). rr_wf (rr_of a)"
  shows "\<exists>h' xs. dns_rrlist_sort rr_of L type h = Some h' \<and> heap_ok h' (S(L := xs)) \<and> mset xs = mset (S L) \<and>
    sorted (map (\<lambda>a. rr_rank type (rr_of a)) xs)"
proof -
  let ?sh = "std_sort_handler rr_of type"
  have total: "?sh x y \<or> ?sh y x" for x y by (simp add: std_sort_handler_def rr_before_total)
  obtain h' xs where r: "list_sort L ?sh h = Some h'" "heap_ok h' (S(L := xs))" "mset xs = mset (S L)" "successively ?sh xs"
    using list_sort_run [where sh = ?sh and L = L, OF total assms(1)] by blast
  have "\<forall>a \<in> set xs. rr_wf (rr_of a)" using assms(2) r(3) by (metis set_mset_mset)
  with r(4) have "sorted (map (\<lambda>a. rr_rank type (rr_of a)) xs)"
    by (induction xs rule: induct_list012) (auto simp: std_sort_handler_def rr_before_rank)
  with r show ?thesis by (auto simp: dns_rrlist_sort_def)
qed

theorem dns_rrlist_sort_ranks_witness:
  "\<exists>h' xs. dns_rrlist_sort (\<lambda>a. \<lparr>rr_name = None, rr_type = 15, rr_dnsclass = 1, rr_ttl = 0, rr_rdlen = 4,
       rr_rdata = RdMx (10 - of_nat a) None\<rparr>) 0 15 heap_123 = Some h' \<and> mset xs = {#1, 2, 3#} \<and>
     sorted (map (\<lambda>a. unat (10 - of_nat a :: u16)) xs)"
  using dns_rrlist_sort_ranks [OF heap_123_ok, of 0 "\<lambda>a. \<lparr>rr_name = None, rr_type = 15, rr_dnsclass = 1, rr_ttl = 0,
    rr_rdlen = 4, rr_rdata = RdMx (10 - of_nat a) None\<rparr>" 15]
  by (simp add: rr_wf_def rdata_type_def rr_rank_def) blast

subsection \<open>Search\<close>

text \<open>The names that a search for a name comes to: the name, and the target of every alias record in the list whose
  owner is a name reached and whose class fits.\<close>

inductive reaches :: "dnsrr list \<Rightarrow> u16 \<Rightarrow> c_string \<Rightarrow> c_string \<Rightarrow> bool" for rrl cls where
  reaches_self: "reaches rrl cls n n"
| reaches_alias: "reaches rrl cls n m \<Longrightarrow> r \<in> set rrl \<Longrightarrow> rr_type r = DNS_TYPE_CNAME \<Longrightarrow>
    m = None \<or> ci (rr_name r) = ci m \<Longrightarrow> cls = DNS_QCLASS_ANY \<or> rr_dnsclass r = cls \<Longrightarrow> reaches rrl cls n (rr_cname r)"

lemma rrlist_go_sound:
  assumes "rrlist_go rrl t1 t2 cls recurse (Some f) name depth rem s = (Some r, s')" "set rem \<subseteq> set rrl"
    "reaches rrl cls n0 name"
  shows "r \<in> set rrl \<and> (\<exists>m st. reaches rrl cls n0 m \<and> \<not> rr_skip m t1 t2 cls recurse r \<and> fst (f r st) \<and>
    (\<not> recurse \<longrightarrow> m = name))"
proof -
  have "rrlh = Some f \<Longrightarrow> rrlist_go rrl t1 t2 cls recurse rrlh name depth rem s = (Some r, s') \<Longrightarrow>
      set rem \<subseteq> set rrl \<Longrightarrow> reaches rrl cls n0 name \<Longrightarrow> ?thesis" for rrlh
  proof (induction rrl t1 t2 cls recurse rrlh name depth rem s arbitrary: s' rule: rrlist_go.induct)
    case (2 rrl t1 t2 cls recurse rrlh name depth rr rem s)
    note f = 2(5) and prems = 2(6-8)
    show ?case
    proof (cases "rr_skip name t1 t2 cls recurse rr")
      case True
      then show ?thesis using 2(1) f prems by simp
    next
      case hit: False
      obtain stop st where st: "f rr s = (stop, st)" by fastforce
      show ?thesis
      proof (cases stop)
        case True
        then have "r = rr" "fst (f rr s)" using hit prems(1) st by (simp_all add: f)
        then show ?thesis using hit prems by auto
      next
        case go: False
        show ?thesis
        proof (cases "rr_follow t1 t2 recurse rr")
          case False
          then show ?thesis using 2(4) st hit go prems f by auto
        next
          case fol: True
          then have cn: "rr_type rr = DNS_TYPE_CNAME" "recurse" by (simp_all add: rr_follow_def)
          have re: "reaches rrl cls n0 (rr_cname rr)"
            using reaches_alias [OF prems(3) _ cn(1)] prems(2) hit
            by (auto simp: rr_skip_def str_casecmp_ci)
          obtain q s1 where q: "(if depth + 1 > CNAME_RECURSE_MAX then (None, st)
              else rrlist_go rrl t1 t2 cls recurse (Some f) (rr_cname rr) (depth + 1) rrl st) = (q, s1)"
            by fastforce
          show ?thesis
          proof (cases q)
            case None
            then show ?thesis using 2(3) hit st go fol q prems f by auto
          next
            case (Some r')
            then show ?thesis using 2(2) hit st go fol q prems f re cn by (auto split: if_splits)
          qed
        qed
      qed
    qed
  qed simp
  from this [OF refl assms] show ?thesis .
qed

lemma rrlist_go_complete:
  assumes "x \<in> set rem" "\<not> rr_skip name t1 t2 cls recurse x" "\<And>st. fst (f x st)"
  shows "\<exists>r s'. rrlist_go rrl t1 t2 cls recurse (Some f) name depth rem s = (Some r, s')"
  using assms(1)
proof (induction rem arbitrary: depth s)
  case (Cons y rem)
  show ?case
  proof (cases "y = x")
    case True
    obtain st where "f x s = (True, st)" using assms(3) [of s] by (cases "f x s") simp
    then show ?thesis using assms(2) True by simp
  next
    case False
    then have "x \<in> set rem" using Cons.prems by simp
    from Cons.IH [OF this] show ?thesis by (auto split: prod.split option.split)
  qed
qed simp

definition rr_fits :: "u16 \<Rightarrow> u16 \<Rightarrow> dnsrr \<Rightarrow> bool" where
  "rr_fits type cls r \<longleftrightarrow> rr_type r = type \<and> (cls = DNS_QCLASS_ANY \<or> rr_dnsclass r = cls)"

text \<open>Searching a list of records for a name, a type and a class (\<^verbatim>\<open>dns_rrlist_find\<close>) always returns: what it
  returns is a record of the list, of the type and class asked for, owned by the name or by a name its alias records
  lead to (by the name itself when aliases are not followed); and it returns a record when the list holds one for the
  name, wherever loops of alias records stand before it.\<close>

theorem dns_rrlist_find_correct:
  "case dns_rrlist_find rrl name type cls recurse of
     Some r \<Rightarrow> r \<in> set rrl \<and> rr_fits type cls r \<and>
       (\<exists>m. reaches rrl cls name m \<and> (m = None \<or> ci m = ci (rr_name r)) \<and> (recurse \<or> m = name))
   | None \<Rightarrow> \<not> (\<exists>r \<in> set rrl. rr_fits type cls r \<and> (name = None \<or> ci name = ci (rr_name r)))"
proof (cases "dns_rrlist_find rrl name type cls recurse")
  case None
  have "\<not> (rr_fits type cls r \<and> (name = None \<or> ci name = ci (rr_name r)))" if "r \<in> set rrl" for r
    using None rrlist_go_complete [OF that, of name type type cls recurse "find_handler type" rrl 0 "()"]
    by (auto simp: rr_fits_def dns_rrlist_find_def rrlist_apply_def find_handler_def rr_skip_def str_casecmp_ci)
  with None show ?thesis by auto
next
  case (Some r)
  then obtain s' where "rrlist_go rrl type type cls recurse (Some (find_handler type)) name 0 rrl () = (Some r, s')"
    by (cases "rrlist_go rrl type type cls recurse (Some (find_handler type)) name 0 rrl ()")
      (auto simp: dns_rrlist_find_def rrlist_apply_def)
  from rrlist_go_sound [OF this _ reaches_self] Some show ?thesis
    by (auto simp: rr_fits_def find_handler_def rr_skip_def str_casecmp_ci)
qed

end
