(* ===== verification/Print.thy ===== *)
theory Print
  imports Sa
begin

text \<open>
  Formatted printing: \<^verbatim>\<open>src/fmt/print.c\<close>. A print handler is a function on its argument, the state \<open>'s\<close>; it is given
  the bytes and returns an error. The arguments of a format are a list of values with the types the callers pass on the
  32-bit ABI; a conversion that meets another type (undefined in C) has no result. What the C library says of an error
  number and of an address is a parameter, as is the text of a floating-point number.
\<close>

subsection \<open>Numbers\<close>

text \<open>\<^verbatim>\<open>local_itoa\<close> writes the digits from the last to the first; a base below 2 is never used.\<close>

function itoa_loop :: "nat \<Rightarrow> nat \<Rightarrow> u8 \<Rightarrow> u8 list \<Rightarrow> u8 list" where
  "itoa_loop n base a p =
     (let dv = n div base; c = n - dv * base; p = (if c < 10 then 48 + of_nat c else a + of_nat (c - 10)) # p
      in if dv = 0 \<or> base < 2 then p else itoa_loop dv base a p)"
  by pat_completeness auto

termination by (relation "measure (\<lambda>(n, base, a, p). n)") (auto simp: div_eq_0_iff)

declare itoa_loop.simps [simp del]

definition local_itoa :: "u64 \<Rightarrow> u8 \<Rightarrow> bool \<Rightarrow> u8 list" where
  "local_itoa n base uc = itoa_loop (unat n) (unat base) (if uc then 65 else 97) []"

definition fmt_u :: "u32 \<Rightarrow> u8 list" where "fmt_u n = local_itoa (ucast n) 10 False"

subsection \<open>The format interpreter\<close>

text \<open>What is written to the handler, one piece per call.\<close>

definition write_padded :: "u8 list option \<Rightarrow> nat \<Rightarrow> u8 \<Rightarrow> bool \<Rightarrow> u8 list option \<Rightarrow> u8 list list" where
  "write_padded p pad pch plr prfx =
     (let sz = str_len p; pad = pad - min pad (str_len prfx); fill = replicate (pad - sz) [pch];
          pre = (case prfx of None \<Rightarrow> [] | Some x \<Rightarrow> [x])
      in (if pch = 48 then pre else []) @ (if plr then [] else fill) @ (if pch \<noteq> 48 then pre else []) @
         (case p of Some x \<Rightarrow> if x \<noteq> [] then [x] else [] | None \<Rightarrow> []) @ (if plr then fill else []))"

datatype dbl = DInf | DNan | DNum bool "nat \<Rightarrow> u8 list"

datatype 's parg =
    PaInt u32 | PaLong u32 | PaSize u32 | PaLLong u64
  | PaStr c_string | PaBuf "u8 list option" | PaPl pl | PaPtr u32 | PaSa "sa option" | PaDbl dbl
  | PaH "('s \<Rightarrow> err \<times> 's) option"
  | PaV "u8 list" "'s parg list"
  | PaVNull

type_synonym 's vph = "u8 list \<Rightarrow> 's \<Rightarrow> err \<times> 's"

record penv =
  pe_strerror :: "u32 \<Rightarrow> u8 list"
  pe_ntop4 :: "u32 \<Rightarrow> u8 list"
  pe_ntop6 :: "u8 list \<Rightarrow> u8 list"

definition sa_ntop :: "penv \<Rightarrow> sa \<Rightarrow> err \<times> u8 list" where
  "sa_ntop V sa =
     (if sa_family sa = AF_INET then (0, pe_ntop4 V (sin_addr sa))
      else if sa_family sa = AF_INET6 then (0, pe_ntop6 V (sin6_addr sa))
      else (EAFNOSUPPORT, []))"

text \<open>The flags of a conversion; \<open>None\<close> in \<open>ps_fpad\<close> is \<^verbatim>\<open>-1\<close>, \<open>ps_lenmod\<close> counts the letters l, 42 is the letter z.\<close>

record pspec =
  ps_pch :: u8
  ps_plr :: bool
  ps_pad :: nat
  ps_fpad :: "nat option"
  ps_lenmod :: nat

definition pspec_init :: pspec where
  "pspec_init = \<lparr>ps_pch = 32, ps_plr = False, ps_pad = 0, ps_fpad = None, ps_lenmod = 0\<rparr>"

fun arg_u :: "nat \<Rightarrow> 's parg \<Rightarrow> u64 option" where
  "arg_u m (PaInt n) = (if m = 0 then Some (ucast n) else None)"
| "arg_u m (PaLong n) = (if m = 1 then Some (ucast n) else None)"
| "arg_u m (PaSize n) = (if m = 42 then Some (ucast n) else None)"
| "arg_u m (PaLLong n) = (if m \<noteq> 0 \<and> m \<noteq> 1 \<and> m \<noteq> 42 then Some n else None)"
| "arg_u m _ = None"

fun arg_s :: "nat \<Rightarrow> 's parg \<Rightarrow> u64 option" where
  "arg_s m (PaInt n) = (if m = 0 then Some (scast n) else None)"
| "arg_s m (PaLong n) = (if m = 1 then Some (scast n) else None)"
| "arg_s m (PaSize n) = (if m = 42 then Some (scast n) else None)"
| "arg_s m (PaLLong n) = (if m \<noteq> 0 \<and> m \<noteq> 1 \<and> m \<noteq> 42 then Some n else None)"
| "arg_s m _ = None"

datatype 's pconv =
    Spec pspec
  | Emit "u8 list list" "'s parg list"
  | Call "('s \<Rightarrow> err \<times> 's) option" "'s parg list"
  | Nested "u8 list" "'s parg list" "'s parg list"
  | Undef

definition conv_num :: "u64 \<Rightarrow> u8 \<Rightarrow> bool \<Rightarrow> u8 list option \<Rightarrow> pspec \<Rightarrow> u8 list list" where
  "conv_num n base uc prfx sp =
     write_padded (Some (local_itoa n base uc)) (ps_pad sp) (if ps_plr sp then 32 else ps_pch sp) (ps_plr sp) prfx"

definition conv_str :: "u8 list option \<Rightarrow> pspec \<Rightarrow> u8 list list" where
  "conv_str s sp = write_padded s (ps_pad sp) 32 (ps_plr sp) None"

definition conv_dbl :: "dbl \<Rightarrow> pspec \<Rightarrow> u8 list list" where
  "conv_dbl d sp =
     (let fpad = (case ps_fpad sp of None \<Rightarrow> ps_pad sp | Some f \<Rightarrow> f); pad = (if ps_fpad sp = None then 0 else ps_pad sp) in
      case d of
        DInf \<Rightarrow> write_padded (Some (ascii ''inf'')) fpad 32 (ps_plr sp) None
      | DNan \<Rightarrow> write_padded (Some (ascii ''nan'')) fpad 32 (ps_plr sp) None
      | DNum neg txt \<Rightarrow> write_padded (Some (txt (if pad \<noteq> 0 then min pad 42 else 6))) fpad
          (if ps_plr sp then 32 else ps_pch sp) (ps_plr sp) (if neg then Some [45] else None))"

definition conv_hex :: "u8 list option \<Rightarrow> bool \<Rightarrow> pspec \<Rightarrow> u8 list list" where
  "conv_hex b uc sp =
     (let bs = (case b of None \<Rightarrow> [] | Some bs \<Rightarrow> bs);
          fill = replicate (ps_pad sp - length bs * 2) [if ps_plr sp then 32 else ps_pch sp]
      in (if ps_plr sp then [] else fill) @
         concat (map (\<lambda>v. write_padded (Some (local_itoa (ucast v) 16 uc)) 2 48 False None) bs) @
         (if ps_plr sp then fill else []))"

definition conv_sa :: "penv \<Rightarrow> sa option \<Rightarrow> bool \<Rightarrow> pspec \<Rightarrow> u8 list list" where
  "conv_sa V sa port sp = (case sa of
     None \<Rightarrow> []
   | Some sa \<Rightarrow> (case sa_ntop V sa of (err, addr) \<Rightarrow>
       if err \<noteq> 0 then conv_str (Some [63]) sp
       else if \<not> port then conv_str (Some addr) sp
       else (if sa_af sa = AF_INET6 then [[91]] else []) @ conv_str (Some addr) sp @
         (if sa_af sa = AF_INET6 then [[93]] else []) @ [[58]] @ conv_num (ucast (sa_port sa)) 10 False None sp))"

text \<open>One character after the percent sign.\<close>

definition conv :: "penv \<Rightarrow> u8 \<Rightarrow> pspec \<Rightarrow> 's parg list \<Rightarrow> 's pconv" where
  "conv V c sp args =
     (if c = 45 then Spec (sp\<lparr>ps_plr := True\<rparr>)
      else if c = 46 then Spec (sp\<lparr>ps_fpad := (if ps_pad sp = size_mod - 1 then None else Some (ps_pad sp)), ps_pad := 0\<rparr>)
      else if c = 37 then Emit [[37]] args
      else if c = 98 then (case args of PaBuf b # as \<Rightarrow> Emit (conv_str b sp) as | _ \<Rightarrow> Undef)
      else if c = 99 then (case args of PaInt n # as \<Rightarrow> Emit (conv_str (Some [ucast n]) sp) as | _ \<Rightarrow> Undef)
      else if c = 100 \<or> c = 105 then (case args of
        a # as \<Rightarrow> (case arg_s (ps_lenmod sp) a of
          Some n \<Rightarrow> (let neg = (sint n < 0) in
            Emit (conv_num (if neg then - n else n) 10 False (if neg then Some [45] else None) sp) as)
        | None \<Rightarrow> Undef)
      | [] \<Rightarrow> Undef)
      else if c = 102 \<or> c = 70 then (case args of PaDbl d # as \<Rightarrow> Emit (conv_dbl d sp) as | _ \<Rightarrow> Undef)
      else if c = 72 then (case args of PaH h # as \<Rightarrow> Call h as | _ \<Rightarrow> Undef)
      else if c = 108 then Spec (sp\<lparr>ps_lenmod := ps_lenmod sp + 1\<rparr>)
      else if c = 109 then (case args of PaInt n # as \<Rightarrow> Emit (conv_str (Some (pe_strerror V n)) sp) as | _ \<Rightarrow> Undef)
      else if c = 112 then (case args of
        PaPtr n # as \<Rightarrow> Emit (if n \<noteq> 0 then conv_num (ucast n) 16 False (Some [48, 120]) sp
          else conv_str (Some (ascii ''(nil)'')) sp) as
      | _ \<Rightarrow> Undef)
      else if c = 114 then (case args of PaPl p # as \<Rightarrow> Emit (conv_str p sp) as | _ \<Rightarrow> Undef)
      else if c = 115 then (case args of PaStr s # as \<Rightarrow> Emit (conv_str s sp) as | _ \<Rightarrow> Undef)
      else if c = 88 \<or> c = 120 \<or> c = 117 then (case args of
        a # as \<Rightarrow> (case arg_u (ps_lenmod sp) a of
          Some n \<Rightarrow> Emit (conv_num n (if c = 117 then 10 else 16) (c = 88) None sp) as
        | None \<Rightarrow> Undef)
      | [] \<Rightarrow> Undef)
      else if c = 118 then (case args of PaV f as' # as \<Rightarrow> Nested f as' as | PaVNull # as \<Rightarrow> Emit [] as | _ \<Rightarrow> Undef)
      else if c = 87 \<or> c = 119 then (case args of PaBuf b # as \<Rightarrow> Emit (conv_hex b (c = 87) sp) as | _ \<Rightarrow> Undef)
      else if c = 122 then Spec (sp\<lparr>ps_lenmod := 42\<rparr>)
      else if c = 106 \<or> c = 74 then (case args of PaSa sa # as \<Rightarrow> Emit (conv_sa V sa (c = 74) sp) as | _ \<Rightarrow> Undef)
      else if 48 \<le> c \<and> c \<le> 57 then
        Spec (if ps_pad sp = 0 \<and> c = 48 then sp\<lparr>ps_pch := 48\<rparr>
              else sp\<lparr>ps_pad := sz_add (sz_mul (ps_pad sp) 10) (unat (c - 48))\<rparr>)
      else Emit [[63]] args)"

text \<open>All pieces are written, the errors joined.\<close>

fun emit :: "'s vph \<Rightarrow> u8 list list \<Rightarrow> 's \<Rightarrow> err \<times> 's" where
  "emit vph [] s = (0, s)"
| "emit vph (x # xs) s = (case vph x s of (e, s) \<Rightarrow> case emit vph xs s of (e', s) \<Rightarrow> (e OR e', s))"

lemma conv_size:
  "conv V c sp args = Emit xs as \<Longrightarrow> size_list size as \<le> size_list size args"
  "conv V c sp args = Call h as \<Longrightarrow> size_list size as \<le> size_list size args"
  "conv V c sp args = Nested f as' as \<Longrightarrow> size_list size as \<le> size_list size args \<and> size_list size as' < size_list size args"
  by (auto simp: conv_def Let_def split: if_splits list.splits parg.splits option.splits)

text \<open>The loop: the conversion in progress, if any, the literal text not yet written, and the remaining arguments. It stops
  at the first error; the error of the call before is \<open>err\<close>.\<close>

function vhloop ::
  "penv \<Rightarrow> 's vph \<Rightarrow> u8 list \<Rightarrow> pspec option \<Rightarrow> u8 list \<Rightarrow> 's parg list \<Rightarrow> 's \<Rightarrow> (err \<times> 's) option" where
  "vhloop V vph [] fm lit args s = Some (if fm = None \<and> lit \<noteq> [] then vph lit s else (0, s))"
| "vhloop V vph (c # cs) None lit args s =
     (if c \<noteq> 37 then vhloop V vph cs None (lit @ [c]) args s
      else (case (if lit \<noteq> [] then vph lit s else (0, s)) of (err, s) \<Rightarrow>
        if err \<noteq> 0 then Some (err, s) else vhloop V vph cs (Some pspec_init) [] args s))"
| "vhloop V vph (c # cs) (Some sp) lit args s = (case conv V c sp args of
     Spec sp \<Rightarrow> vhloop V vph cs (Some sp) lit args s
   | Emit xs as \<Rightarrow> (case emit vph xs s of (err, s) \<Rightarrow>
       if err \<noteq> 0 then Some (err, s) else vhloop V vph cs None [] as s)
   | Call h as \<Rightarrow> (case (case h of None \<Rightarrow> (0, s) | Some f \<Rightarrow> f s) of (err, s) \<Rightarrow>
       if err \<noteq> 0 then Some (err, s) else vhloop V vph cs None [] as s)
   | Nested f as' as \<Rightarrow> (case vhloop V vph f None [] as' s of
       None \<Rightarrow> None
     | Some (err, s) \<Rightarrow> if err \<noteq> 0 then Some (err, s) else vhloop V vph cs None [] as s)
   | Undef \<Rightarrow> None)"
  by pat_completeness auto

termination
  by (relation "measures [\<lambda>(V, vph, fmt, fm, lit, args, s). size_list size args, \<lambda>(V, vph, fmt, fm, lit, args, s). length fmt]")
    (auto dest: conv_size simp: le_eq_less_or_eq)

definition re_vhprintf :: "penv \<Rightarrow> 's vph \<Rightarrow> u8 list \<Rightarrow> 's parg list \<Rightarrow> 's \<Rightarrow> (err \<times> 's) option" where
  "re_vhprintf V vph fmt args s = vhloop V vph fmt None [] args s"

definition re_hprintf :: "penv \<Rightarrow> 's vph \<Rightarrow> u8 list \<Rightarrow> 's parg list \<Rightarrow> 's \<Rightarrow> (err \<times> 's) option" where
  "re_hprintf V vph fmt args s = re_vhprintf V vph fmt args s"

subsection \<open>The handlers\<close>

text \<open>A fixed array: what was written, and the room left.\<close>

definition print_handler :: "(u8 list \<times> nat) vph" where
  "print_handler p st = (case st of (out, l) \<Rightarrow>
     if length p > l then (ENOMEM, st) else (0, out @ p, l - length p))"

text \<open>\<^verbatim>\<open>re_vsnprintf\<close>: the string in the array, without the zero byte after it, and the result, \<open>-1\<close> on an error.\<close>

definition re_vsnprintf :: "penv \<Rightarrow> nat \<Rightarrow> u8 list \<Rightarrow> (u8 list \<times> nat) parg list \<Rightarrow> (int \<times> u8 list) option" where
  "re_vsnprintf V sz fmt args =
     (if sz = 0 then Some (-1, [])
      else map_option (\<lambda>(err, out, l). (if err \<noteq> 0 then -1 else int (sz - l - 1), out))
        (re_vhprintf V print_handler fmt args ([], sz - 1)))"

definition re_snprintf :: "penv \<Rightarrow> nat \<Rightarrow> u8 list \<Rightarrow> (u8 list \<times> nat) parg list \<Rightarrow> (int \<times> u8 list) option" where
  "re_snprintf V sz fmt args = re_vsnprintf V sz fmt args"

text \<open>A block that grows: its bytes, the place to write, the room left and the size.\<close>

record dyn_print =
  dp_str :: "u8 list"
  dp_p :: nat
  dp_l :: nat
  dp_size :: nat

definition print_handler_dyn :: "mem_env \<Rightarrow> dyn_print vph" where
  "print_handler_dyn E p dp =
     (let n = length p;
          grown = (if n > sz_sub (dp_l dp) 1 then
            (let new_size = max (sz_add (dp_size dp) n) (sz_mul (dp_size dp) 2) in
             if \<not> can_alloc E new_size then None
             else (let l = sz_add (dp_l dp) (sz_sub new_size (dp_size dp)) in
               Some (dp\<lparr>dp_str := realloc_block E (Some (dp_str dp)) new_size, dp_l := l, dp_p := sz_sub new_size l,
                        dp_size := new_size\<rparr>)))
            else Some dp)
      in case grown of
        None \<Rightarrow> (ENOMEM, dp)
      | Some dp \<Rightarrow> (0, dp\<lparr>dp_str := overwrite (dp_p dp) p (dp_str dp), dp_p := dp_p dp + n, dp_l := sz_sub (dp_l dp) n\<rparr>))"

text \<open>\<^verbatim>\<open>re_vsdprintf\<close>: the C string, as its bytes before the first zero.\<close>

definition re_vsdprintf :: "mem_env \<Rightarrow> penv \<Rightarrow> u8 list \<Rightarrow> dyn_print parg list \<Rightarrow> (err + u8 list) option" where
  "re_vsdprintf E V fmt args =
     (if \<not> can_alloc E 16 then Some (Inl ENOMEM)
      else map_option (\<lambda>(err, dp). if err \<noteq> 0 then Inl err else Inr (c_str (overwrite (dp_p dp) [0] (dp_str dp))))
        (re_vhprintf V (print_handler_dyn E) fmt args \<lparr>dp_str = map (fresh E 16) [0..<16], dp_p = 0, dp_l = 16, dp_size = 16\<rparr>))"

definition re_sdprintf :: "mem_env \<Rightarrow> penv \<Rightarrow> u8 list \<Rightarrow> dyn_print parg list \<Rightarrow> (err + u8 list) option" where
  "re_sdprintf E V fmt args = re_vsdprintf E V fmt args"

text \<open>A memory buffer (\<^verbatim>\<open>src/mbuf/mbuf.c\<close>).\<close>

definition vprintf_handler :: "mem_env \<Rightarrow> mbuf vph" where
  "vprintf_handler E p mb = run_state (mbuf_write_mem E (Some p)) mb"

definition mbuf_vprintf :: "mem_env \<Rightarrow> penv \<Rightarrow> u8 list \<Rightarrow> mbuf parg list \<Rightarrow> mbuf \<Rightarrow> (err \<times> mbuf) option" where
  "mbuf_vprintf E V fmt args mb = re_vhprintf V (vprintf_handler E) fmt args mb"

definition mbuf_printf :: "mem_env \<Rightarrow> penv \<Rightarrow> u8 list \<Rightarrow> mbuf parg list \<Rightarrow> mbuf \<Rightarrow> (err \<times> mbuf) option" where
  "mbuf_printf E V fmt args mb = re_vhprintf V (vprintf_handler E) fmt args mb"

subsection \<open>What a format prints\<close>

text \<open>A handler that takes everything while there is room: \<open>out\<close> is what it was given so far, \<open>room n\<close> says that \<open>n\<close> more
  bytes will be taken.\<close>

locale print_target =
  fixes vph :: "'s vph" and out :: "'s \<Rightarrow> u8 list" and room :: "nat \<Rightarrow> 's \<Rightarrow> bool"
  assumes takes: "room (length p + n) s \<Longrightarrow> \<exists>s'. vph p s = (0, s') \<and> out s' = out s @ p \<and> room n s'"
begin

definition printed :: "u8 list \<Rightarrow> nat \<Rightarrow> 's \<Rightarrow> 's \<Rightarrow> bool" where
  "printed xs n s s' \<longleftrightarrow> out s' = out s @ xs \<and> room n s'"

definition prints :: "('s \<Rightarrow> err \<times> 's) \<Rightarrow> u8 list \<Rightarrow> bool" where
  "prints f xs \<longleftrightarrow> (\<forall>n s. room (length xs + n) s \<longrightarrow> (\<exists>s'. f s = (0, s') \<and> printed xs n s s'))"

lemma prints_vph: "prints (vph p) p"
  using takes by (auto simp: prints_def printed_def)

lemma prints_emit: "prints (emit vph xs) (concat xs)"
proof (induction xs)
  case Nil
  then show ?case by (simp add: prints_def printed_def)
next
  case (Cons x xs)
  show ?case unfolding prints_def
  proof (intro allI impI)
    fix n s assume "room (length (concat (x # xs)) + n) s"
    then obtain s1 where s1: "vph x s = (0, s1)" "out s1 = out s @ x" "room (length (concat xs) + n) s1"
      using takes [of x "length (concat xs) + n" s] by (auto simp: add.assoc)
    then obtain s2 where "emit vph xs s1 = (0, s2)" "printed (concat xs) n s1 s2"
      using Cons unfolding prints_def by blast
    then show "\<exists>s'. emit vph (x # xs) s = (0, s') \<and> printed (concat (x # xs)) n s s'"
      using s1 by (simp add: printed_def)
  qed
qed

end

text \<open>The conversions of a format, their flags, and the text each gives: every character that \<open>conv\<close> knows, with the length
  modifiers of numbers and the precision of floating-point numbers.\<close>

datatype pint = NInt u32 | NLong u32 | NSize u32 | NLLong u64

fun int_fmt :: "pint \<Rightarrow> u8 list" where
  "int_fmt (NInt n) = []" | "int_fmt (NLong n) = [108]" | "int_fmt (NSize n) = [122]" | "int_fmt (NLLong n) = [108, 108]"

fun int_mod :: "pint \<Rightarrow> nat" where
  "int_mod (NInt n) = 0" | "int_mod (NLong n) = 1" | "int_mod (NSize n) = 42" | "int_mod (NLLong n) = 2"

fun int_arg :: "pint \<Rightarrow> 's parg" where
  "int_arg (NInt n) = PaInt n" | "int_arg (NLong n) = PaLong n" | "int_arg (NSize n) = PaSize n" | "int_arg (NLLong n) = PaLLong n"

fun int_u :: "pint \<Rightarrow> nat" where
  "int_u (NInt n) = unat n" | "int_u (NLong n) = unat n" | "int_u (NSize n) = unat n" | "int_u (NLLong n) = unat n"

fun int_s :: "pint \<Rightarrow> int" where
  "int_s (NInt n) = sint n" | "int_s (NLong n) = sint n" | "int_s (NSize n) = sint n" | "int_s (NLLong n) = sint n"

datatype 's fkind =
    KStr c_string | KBuf "u8 list option" | KPl pl | KChr u32
  | KU pint | KX bool pint | KD bool pint | KHex bool "u8 list option" | KPtr u32
  | KErr u32 | KSa bool "sa option" | KDbl bool "nat option" dbl
  | KSub "'s \<Rightarrow> err \<times> 's" "u8 list" | KNoSub | KNoVa

datatype 's fitem = FText "u8 list" | FPercent | FConv bool bool nat "'s fkind" | FVa "'s fitem list"

fun kind_fmt :: "'s fkind \<Rightarrow> u8 list" where
  "kind_fmt (KStr s) = [115]" | "kind_fmt (KBuf b) = [98]" | "kind_fmt (KPl p) = [114]" | "kind_fmt (KChr c) = [99]"
| "kind_fmt (KU i) = int_fmt i @ [117]" | "kind_fmt (KX uc i) = int_fmt i @ [if uc then 88 else 120]"
| "kind_fmt (KD alt i) = int_fmt i @ [if alt then 105 else 100]"
| "kind_fmt (KHex uc b) = [if uc then 87 else 119]" | "kind_fmt (KPtr n) = [112]" | "kind_fmt (KErr n) = [109]"
| "kind_fmt (KSa port sa) = [if port then 74 else 106]"
| "kind_fmt (KDbl alt prec d) = (case prec of None \<Rightarrow> [] | Some q \<Rightarrow> 46 # itoa_loop q 10 97 []) @ [if alt then 70 else 102]"
| "kind_fmt (KSub f xs) = [72]" | "kind_fmt KNoSub = [72]" | "kind_fmt KNoVa = [118]"

fun kind_arg :: "'s fkind \<Rightarrow> 's parg" where
  "kind_arg (KStr s) = PaStr s" | "kind_arg (KBuf b) = PaBuf b" | "kind_arg (KPl p) = PaPl p" | "kind_arg (KChr c) = PaInt c"
| "kind_arg (KU i) = int_arg i" | "kind_arg (KX uc i) = int_arg i" | "kind_arg (KD alt i) = int_arg i"
| "kind_arg (KHex uc b) = PaBuf b" | "kind_arg (KPtr n) = PaPtr n" | "kind_arg (KErr n) = PaInt n"
| "kind_arg (KSa port sa) = PaSa sa" | "kind_arg (KDbl alt prec d) = PaDbl d"
| "kind_arg (KSub f xs) = PaH (Some f)" | "kind_arg KNoSub = PaH None" | "kind_arg KNoVa = PaVNull"

fun item_fmt :: "'s fitem \<Rightarrow> u8 list" where
  "item_fmt (FText t) = t" | "item_fmt FPercent = [37, 37]"
| "item_fmt (FConv left zero w k) = [37] @ (if left then [45] else []) @ (if zero then [48] else []) @
     (if w = 0 then [] else itoa_loop w 10 97 []) @ kind_fmt k"
| "item_fmt (FVa is) = [37, 118]"

fun item_args :: "'s fitem \<Rightarrow> 's parg list" where
  "item_args (FConv left zero w k) = [kind_arg k]"
| "item_args (FVa is) = [PaV (concat (map item_fmt is)) (concat (map item_args is))]"
| "item_args _ = []"

definition pad_to :: "bool \<Rightarrow> u8 \<Rightarrow> nat \<Rightarrow> u8 list \<Rightarrow> u8 list" where
  "pad_to left c w s = (if left then s @ replicate (w - length s) 32 else replicate (w - length s) c @ s)"

text \<open>A number with a prefix, its sign or \<^verbatim>\<open>0x\<close>: zeros come between the two, blanks around both.\<close>

definition num_to :: "bool \<Rightarrow> bool \<Rightarrow> nat \<Rightarrow> u8 list \<Rightarrow> u8 list \<Rightarrow> u8 list" where
  "num_to left zero w pre ds =
     (if zero \<and> \<not> left then pre @ pad_to False 48 (w - length pre) ds else pad_to left 32 w (pre @ ds))"

definition hex_bytes :: "bool \<Rightarrow> u8 list \<Rightarrow> u8 list" where
  "hex_bytes uc bs = concat (map (\<lambda>v. pad_to False 48 2 (itoa_loop (unat v) 16 (if uc then 65 else 97) [])) bs)"

fun kind_out :: "penv \<Rightarrow> bool \<Rightarrow> bool \<Rightarrow> nat \<Rightarrow> 's fkind \<Rightarrow> u8 list" where
  "kind_out V left zero w (KStr s) = pad_to left 32 w (pl_bytes s)"
| "kind_out V left zero w (KBuf b) = pad_to left 32 w (pl_bytes b)"
| "kind_out V left zero w (KPl p) = pad_to left 32 w (pl_bytes p)"
| "kind_out V left zero w (KChr c) = pad_to left 32 w [ucast c]"
| "kind_out V left zero w (KU i) = num_to left zero w [] (itoa_loop (int_u i) 10 97 [])"
| "kind_out V left zero w (KX uc i) = num_to left zero w [] (itoa_loop (int_u i) 16 (if uc then 65 else 97) [])"
| "kind_out V left zero w (KD alt i) =
     num_to left zero w (if int_s i < 0 then [45] else []) (itoa_loop (nat \<bar>int_s i\<bar>) 10 97 [])"
| "kind_out V left zero w (KHex uc b) = pad_to left (if zero then 48 else 32) w (hex_bytes uc (pl_bytes b))"
| "kind_out V left zero w (KPtr n) =
     (if n = 0 then pad_to left 32 w (ascii ''(nil)'') else num_to left zero w [48, 120] (itoa_loop (unat n) 16 97 []))"
| "kind_out V left zero w (KErr n) = pad_to left 32 w (pe_strerror V n)"
| "kind_out V left zero w (KSa port sa) = (case sa of
     None \<Rightarrow> []
   | Some sa \<Rightarrow>
       if sa_af sa \<noteq> AF_INET \<and> sa_af sa \<noteq> AF_INET6 then pad_to left 32 w [63]
       else (let addr = (if sa_af sa = AF_INET then pe_ntop4 V (sin_addr sa) else pe_ntop6 V (sin6_addr sa));
                 bracket = (\<lambda>c. if port \<and> sa_af sa = AF_INET6 then [c] else [])
         in bracket 91 @ pad_to left 32 w addr @ bracket 93 @
            (if port then 58 # num_to left zero w [] (itoa_loop (unat (sa_port sa)) 10 97 []) else [])))"
| "kind_out V left zero w (KDbl alt prec d) = (case d of
     DInf \<Rightarrow> pad_to left 32 w (ascii ''inf'')
   | DNan \<Rightarrow> pad_to left 32 w (ascii ''nan'')
   | DNum neg txt \<Rightarrow> num_to left zero w (if neg then [45] else []) (txt (case prec of None \<Rightarrow> 6 | Some q \<Rightarrow> min q 42)))"
| "kind_out V left zero w (KSub f xs) = xs"
| "kind_out V left zero w KNoSub = []"
| "kind_out V left zero w KNoVa = []"

fun item_out :: "penv \<Rightarrow> 's fitem \<Rightarrow> u8 list" where
  "item_out V (FText t) = t" | "item_out V FPercent = [37]" | "item_out V (FConv left zero w k) = kind_out V left zero w k"
| "item_out V (FVa is) = concat (map (item_out V) is)"

definition fmt_of :: "'s fitem list \<Rightarrow> u8 list" where "fmt_of is = concat (map item_fmt is)"
definition args_of :: "'s fitem list \<Rightarrow> 's parg list" where "args_of is = concat (map item_args is)"
definition out_of :: "penv \<Rightarrow> 's fitem list \<Rightarrow> u8 list" where "out_of V is = concat (map (item_out V) is)"

text \<open>The handlers among the arguments, each with the text it is to print.\<close>

fun item_subs :: "'s fitem \<Rightarrow> (('s \<Rightarrow> err \<times> 's) \<times> u8 list) list" where
  "item_subs (FConv left zero w k) = (case k of KSub f xs \<Rightarrow> [(f, xs)] | _ \<Rightarrow> [])"
| "item_subs (FVa is) = concat (map item_subs is)"
| "item_subs _ = []"

definition subs_of :: "'s fitem list \<Rightarrow> (('s \<Rightarrow> err \<times> 's) \<times> u8 list) list" where
  "subs_of is = concat (map item_subs is)"

text \<open>What the flags do to the conversion.\<close>

lemma write_padded_out:
  assumes "plr \<longrightarrow> c = 32"
  shows "concat (write_padded s pad c plr None) = pad_to plr c pad (pl_bytes s)"
proof -
  have r: "concat (replicate k [c]) = replicate k c" for k by (induction k) simp_all
  show ?thesis using assms by (cases s) (auto simp: write_padded_def pad_to_def Let_def r str_len_def pl_bytes_def)
qed

lemma write_padded_num:
  assumes "plr \<longrightarrow> c = 32" "c = 32 \<or> c = 48"
  shows "concat (write_padded (Some d) pad c plr pre) = num_to plr (c = 48) pad (pl_bytes pre) d"
proof -
  have r: "concat (replicate k [c]) = replicate k c" for k by (induction k) simp_all
  have m: "pad - min pad k = pad - k" for k by auto
  show ?thesis using assms
    by (cases pre) (auto simp: write_padded_def num_to_def pad_to_def Let_def r m str_len_def pl_bytes_def)
qed

text \<open>The width of a conversion is read back.\<close>

abbreviation digits_from :: "nat \<Rightarrow> u8 list \<Rightarrow> nat" where
  "digits_from \<equiv> foldl (\<lambda>a ch. 10 * a + unat (ch - 48))"

lemma digits_from_ge: "a \<le> digits_from a ds"
proof (induction ds arbitrary: a)
  case (Cons d ds)
  have "a \<le> 10 * a + unat (d - 48)" by simp
  also have "\<dots> \<le> digits_from (10 * a + unat (d - 48)) ds" by (rule Cons)
  finally show ?case by simp
qed simp

lemma conv_digit:
  assumes "48 \<le> d" "d \<le> 57" "d \<noteq> 48 \<or> ps_pad sp \<noteq> 0" "10 * ps_pad sp + unat (d - 48) < size_mod"
  shows "conv V d sp args = Spec (sp\<lparr>ps_pad := 10 * ps_pad sp + unat (d - 48)\<rparr>)"
proof -
  have k: "unat (d - 48) = unat d - 48" using assms(1) by (simp add: unat_sub_small word_le_nat_alt)
  have "unat d \<ge> 48" "unat d \<le> 57" using assms(1,2) by (simp_all add: word_le_nat_alt)
  then have ne: "d \<notin> {45, 46, 37, 98, 99, 100, 105, 102, 70, 72, 108, 109, 112, 114, 115, 88, 120, 117, 118, 87, 119, 122, 106, 74}"
    by auto
  have "sz_add (sz_mul (ps_pad sp) 10) (unat (d - 48)) = 10 * ps_pad sp + unat (d - 48)"
    using assms(4) by (simp add: sz_mul_small sz_add_small)
  moreover have "\<not> (ps_pad sp = 0 \<and> d = 48)" using assms(3) by auto
  ultimately show ?thesis using assms(1,2) ne by (auto simp: conv_def)
qed

lemma vhloop_width:
  assumes "is_dec ds" "\<forall>a b. ds = a # b \<longrightarrow> a \<noteq> 48 \<or> ps_pad sp \<noteq> 0" "digits_from (ps_pad sp) ds < size_mod"
  shows "vhloop V vph (ds @ cs) (Some sp) lit args s = vhloop V vph cs (Some (sp\<lparr>ps_pad := digits_from (ps_pad sp) ds\<rparr>)) lit args s"
  using assms
proof (induction ds arbitrary: sp)
  case (Cons d ds)
  let ?p = "10 * ps_pad sp + unat (d - 48)"
  have d: "48 \<le> d" "d \<le> 57" "is_dec ds" "d \<noteq> 48 \<or> ps_pad sp \<noteq> 0" using Cons.prems by (auto simp: is_dec_def)
  have lt: "?p < size_mod" using Cons.prems(3) digits_from_ge [of ?p ds] by simp
  have "unat (d - 48) = 0 \<Longrightarrow> d = 48" by (simp add: unat_eq_0)
  then have "?p \<noteq> 0" using d(4) by auto
  then show ?case using Cons.IH [of "sp\<lparr>ps_pad := ?p\<rparr>"] Cons.prems(3) d(3) by (simp add: conv_digit [OF d(1,2,4) lt])
qed simp

lemma less_10_cases: "c < 10 \<Longrightarrow> c = 0 \<or> c = 1 \<or> c = 2 \<or> c = 3 \<or> c = 4 \<or> c = 5 \<or> c = 6 \<or> c = 7 \<or> c = 8 \<or> c = (9 :: nat)"
  by auto

lemma digit_dec: "c < 10 \<Longrightarrow> (48 :: u8) \<le> 48 + of_nat c \<and> 48 + of_nat c \<le> (57 :: u8) \<and> unat (48 + of_nat c - 48 :: u8) = c"
  by (drule less_10_cases, elim disjE) simp_all

lemma itoa_step:
  "2 \<le> base \<Longrightarrow> itoa_loop n base a p =
     (if n < base then (if n < 10 then 48 + of_nat n else a + of_nat (n - 10)) # p
      else itoa_loop (n div base) base a ((if n mod base < 10 then 48 + of_nat (n mod base) else a + of_nat (n mod base - 10)) # p))"
  by (subst itoa_loop.simps) (simp add: Let_def div_eq_0_iff minus_div_mult_eq_mod)

text \<open>The digits of a number are decimal, start with a digit other than zero unless the number is zero, and have its value.\<close>

lemma itoa_dec:
  "\<exists>ds. itoa_loop n 10 a p = ds @ p \<and> is_dec ds \<and> (n \<noteq> 0 \<longrightarrow> ds \<noteq> [] \<and> hd ds \<noteq> 48) \<and> digits_from 0 ds = n"
proof (induction n arbitrary: p rule: less_induct)
  case (less n)
  show ?case
  proof (cases "n < 10")
    case True
    have "n \<noteq> 0 \<Longrightarrow> (48 + of_nat n :: u8) \<noteq> 48" using less_10_cases [OF True] by (elim disjE) simp_all
    then show ?thesis using True digit_dec [OF True]
      by (intro exI [of _ "[48 + of_nat n]"]) (simp add: itoa_step is_dec_def)
  next
    case False
    let ?d = "48 + of_nat (n mod 10) :: u8"
    have d: "48 \<le> ?d \<and> ?d \<le> 57 \<and> unat (?d - 48) = n mod 10" using digit_dec [of "n mod 10"] by simp
    obtain ds where ds: "itoa_loop (n div 10) 10 a (?d # p) = ds @ ?d # p" "is_dec ds" "ds \<noteq> [] \<and> hd ds \<noteq> 48" "digits_from 0 ds = n div 10"
      using less.IH [of "n div 10" "?d # p"] False by (auto simp: div_eq_0_iff)
    then show ?thesis using False d by (intro exI [of _ "ds @ [?d]"]) (simp add: itoa_step is_dec_def)
  qed
qed

definition spec_of :: "bool \<Rightarrow> bool \<Rightarrow> nat \<Rightarrow> pspec" where
  "spec_of left zero w = pspec_init\<lparr>ps_plr := left, ps_pch := (if zero then 48 else 32), ps_pad := w\<rparr>"

lemma itoa_dec_Nil:
  "is_dec (itoa_loop n 10 a [])" "n \<noteq> 0 \<Longrightarrow> itoa_loop n 10 a [] \<noteq> [] \<and> hd (itoa_loop n 10 a []) \<noteq> 48"
  "digits_from 0 (itoa_loop n 10 a []) = n"
  using itoa_dec [of n a "[]"] by auto

text \<open>The flags and the width give the conversion.\<close>

lemma vhloop_flags:
  assumes "w < size_mod"
  shows "vhloop V vph ((if left then [45] else []) @ (if zero then [48] else []) @ (if w = 0 then [] else itoa_loop w 10 97 []) @ cs)
      (Some pspec_init) lit args s = vhloop V vph cs (Some (spec_of left zero w)) lit args s"
proof -
  let ?ds = "if w = 0 then [] else itoa_loop w 10 97 []"
  have 1: "vhloop V vph ((if left then [45] else []) @ cs) (Some pspec_init) lit args s =
      vhloop V vph cs (Some (pspec_init\<lparr>ps_plr := left\<rparr>)) lit args s" for cs
    by (simp add: conv_def pspec_init_def)
  have 2: "vhloop V vph ((if zero then [48] else []) @ cs) (Some (pspec_init\<lparr>ps_plr := left\<rparr>)) lit args s =
      vhloop V vph cs (Some (spec_of left zero 0)) lit args s" for cs
    by (simp add: conv_def pspec_init_def spec_of_def)
  have 3: "vhloop V vph (?ds @ cs) (Some (spec_of left zero 0)) lit args s = vhloop V vph cs (Some (spec_of left zero w)) lit args s"
  proof (cases "w = 0")
    case False
    have "digits_from (ps_pad (spec_of left zero 0)) ?ds = w" using False itoa_dec_Nil(3) by (simp add: spec_of_def pspec_init_def)
    moreover have "is_dec ?ds" "\<forall>a b. ?ds = a # b \<longrightarrow> a \<noteq> 48 \<or> ps_pad (spec_of left zero 0) \<noteq> 0"
      using False itoa_dec_Nil(1,2) [of w 97] by auto
    ultimately show ?thesis using assms by (subst vhloop_width) (simp_all add: spec_of_def)
  qed simp
  show ?thesis unfolding 1 2 3 ..
qed

text \<open>A precision is larger than zero (a zero would be read as the flag), and the width before it is not the number that
  stands for no width.\<close>

fun kind_ok :: "nat \<Rightarrow> 's fkind \<Rightarrow> bool" where
  "kind_ok w (KDbl alt (Some q) d) \<longleftrightarrow> 0 < q \<and> q < size_mod \<and> w < size_mod - 1"
| "kind_ok w _ \<longleftrightarrow> w < size_mod"

fun fitem_ok :: "'s fitem \<Rightarrow> bool" where
  "fitem_ok (FText t) \<longleftrightarrow> 37 \<notin> set t" | "fitem_ok FPercent \<longleftrightarrow> True" | "fitem_ok (FConv left zero w k) \<longleftrightarrow> kind_ok w k"
| "fitem_ok (FVa is) \<longleftrightarrow> list_all fitem_ok is"

lemma kind_ok_width: "kind_ok w k \<Longrightarrow> w < size_mod"
  by (induction w k rule: kind_ok.induct) auto

lemma spec_of_simps [simp]:
  "ps_plr (spec_of left zero w) = left" "ps_pch (spec_of left zero w) = (if zero then 48 else 32)" "ps_pad (spec_of left zero w) = w"
  "ps_lenmod (spec_of left zero w) = 0" "ps_fpad (spec_of left zero w) = None"
  by (simp_all add: spec_of_def pspec_init_def)

text \<open>\<open>sp\<close> has the flags and the width.\<close>

definition flags :: "bool \<Rightarrow> bool \<Rightarrow> nat \<Rightarrow> pspec \<Rightarrow> bool" where
  "flags left zero w sp \<longleftrightarrow> ps_plr sp = left \<and> ps_pch sp = (if zero then 48 else 32) \<and> ps_pad sp = w"

lemma flags_spec_of [simp]: "flags left zero w (spec_of left zero w)" "flags left zero w ((spec_of left zero w)\<lparr>ps_lenmod := m\<rparr>)"
  by (simp_all add: flags_def)

lemma num_to_zero: "num_to left (\<not> left \<and> zero) w pre ds = num_to left zero w pre ds"
  by (simp add: num_to_def)

lemma conv_num_out:
  assumes "flags left zero w sp"
  shows "concat (conv_num n base uc pre sp) = num_to left zero w (pl_bytes pre) (local_itoa n base uc)"
proof -
  let ?c = "if left then 32 else if zero then 48 else 32 :: u8"
  have "concat (conv_num n base uc pre sp) = num_to left (?c = 48) w (pl_bytes pre) (local_itoa n base uc)"
    using assms unfolding conv_num_def flags_def by (subst write_padded_num) auto
  then show ?thesis by (auto simp: num_to_def)
qed

lemma conv_str_out: "flags left zero w sp \<Longrightarrow> concat (conv_str s sp) = pad_to left 32 w (pl_bytes s)"
  by (simp add: conv_str_def write_padded_out flags_def)

lemma conv_dbl_out:
  assumes "ps_plr sp = left" "ps_pch sp = (if zero then 48 else 32)"
    and "case prec of None \<Rightarrow> ps_fpad sp = None \<and> ps_pad sp = w | Some q \<Rightarrow> ps_fpad sp = Some w \<and> ps_pad sp = q \<and> 0 < q"
  shows "concat (conv_dbl d sp) = kind_out V left zero w (KDbl alt prec d)"
proof -
  have n: "concat (write_padded (Some ds) w (if left then 32 else if zero then 48 else 32) left pre) = num_to left zero w (pl_bytes pre) ds" for ds pre
    by (subst write_padded_num) (auto simp: num_to_def)
  have "conv_dbl d sp = (case d of
      DInf \<Rightarrow> write_padded (Some (ascii ''inf'')) w 32 left None
    | DNan \<Rightarrow> write_padded (Some (ascii ''nan'')) w 32 left None
    | DNum neg txt \<Rightarrow> write_padded (Some (txt (case prec of None \<Rightarrow> 6 | Some q \<Rightarrow> min q 42))) w
        (if left then 32 else if zero then 48 else 32) left (if neg then Some [45] else None))"
    using assms by (cases prec) (simp_all add: conv_dbl_def split: dbl.split)
  then show ?thesis
    by (cases d) (simp_all only: dbl.case n kind_out.simps, simp_all add: write_padded_out pl_bytes_def)
qed

lemma hex_digits: "length (itoa_loop (unat (v :: u8)) 16 a []) \<in> {1, 2}"
proof -
  have "unat v div 16 < 16" using unat_bounds(1) [of v] by simp
  then show ?thesis by (simp add: itoa_step)
qed

lemma length_hex_bytes: "length (hex_bytes uc bs) = 2 * length bs"
proof (induction bs)
  case (Cons v bs)
  have "length (pad_to False 48 2 (itoa_loop (unat v) 16 a [])) = 2" for a
    using hex_digits [of v a] by (auto simp: pad_to_def)
  then show ?case using Cons by (simp add: hex_bytes_def)
qed (simp add: hex_bytes_def)

lemma unat_ucast64: "unat (ucast (n :: u8) :: u64) = unat n" "unat (ucast (k :: u16) :: u64) = unat k" "unat (ucast (m :: u32) :: u64) = unat m"
  using unat_bounds(1) [of n] unat_bounds(2) [of k] unat_bounds(3) [of m]
  by (simp_all add: unsigned_ucast_eq take_bit_nat_eq_self)

lemma conv_hex_out:
  assumes "flags left zero w sp"
  shows "concat (conv_hex b uc sp) = pad_to left (if zero then 48 else 32) w (hex_bytes uc (pl_bytes b))"
proof -
  have r: "concat (replicate k [c]) = replicate k c" for k and c :: u8 by (induction k) simp_all
  have h: "concat (concat (map (\<lambda>v. write_padded (Some (local_itoa (ucast v) 16 uc)) 2 48 False None) bs)) = hex_bytes uc bs" for bs
    by (induction bs) (simp_all add: hex_bytes_def write_padded_out local_itoa_def unat_ucast64, simp add: pl_bytes_def)
  have b: "(case b of None \<Rightarrow> [] | Some bs \<Rightarrow> bs) = pl_bytes b" by (cases b) (simp_all add: pl_bytes_def)
  have m: "length (pl_bytes b) * 2 = length (hex_bytes uc (pl_bytes b))" by (simp add: length_hex_bytes)
  show ?thesis using assms unfolding conv_hex_def b Let_def m by (simp add: flags_def h r pad_to_def)
qed

lemma conv_sa_out:
  assumes "flags left zero w sp"
  shows "concat (conv_sa V sa port sp) = kind_out V left zero w (KSa port sa)"
proof -
  have f: "sa_family s = sa_af s" for s by (simp add: sa_af_def)
  show ?thesis
    by (cases sa) (auto simp: conv_sa_def sa_ntop_def Let_def f conv_str_out [OF assms] conv_num_out [OF assms] local_itoa_def unat_ucast64 pl_bytes_def)
qed

text \<open>Integers of each size.\<close>

lemma arg_u_int: "\<exists>n. arg_u (int_mod i) (int_arg i) = Some n \<and> unat n = int_u i"
  by (cases i) (simp_all add: unat_ucast64)

lemma arg_s_int: "\<exists>n. arg_s (int_mod i) (int_arg i) = Some n \<and> sint n = int_s i"
  by (cases i) (simp_all add: sint_up_scast is_up)

lemma int_text: "local_itoa (if sint (n :: u64) < 0 then - n else n) 10 False = itoa_loop (nat \<bar>sint n\<bar>) 10 97 []"
proof -
  have r: "- (2 ^ 63) \<le> sint n" "sint n < 2 ^ 63" using sint_range_size [of n] by (simp_all add: word_size)
  have "uint (word_of_int k :: u64) = k" if "0 \<le> k" "k \<le> 2 ^ 63" for k
    using that by (simp add: uint_word_of_int)
  moreover have "(if sint n < 0 then - n else n) = word_of_int \<bar>sint n\<bar>"
    by (cases "sint n < 0") (simp_all add: abs_if flip: wi_hom_neg)
  ultimately have "unat (if sint n < 0 then - n else n) = nat \<bar>sint n\<bar>"
    using r by (simp add: unat_eq_nat_uint)
  then show ?thesis by (simp add: local_itoa_def)
qed

lemma vhloop_ints:
  "ps_lenmod sp = 0 \<Longrightarrow> vhloop V vph (int_fmt i @ cs) (Some sp) lit args s =
     vhloop V vph cs (Some (sp\<lparr>ps_lenmod := int_mod i\<rparr>)) lit args s"
proof -
  have l: "conv V 108 sp as = Spec (sp\<lparr>ps_lenmod := ps_lenmod sp + 1\<rparr>)" "conv V 122 sp as = Spec (sp\<lparr>ps_lenmod := 42\<rparr>)"
    for sp and as :: "'b parg list"
    by (simp_all add: conv_def)
  show "ps_lenmod sp = 0 \<Longrightarrow> ?thesis" by (cases i; cases sp) (simp_all add: l numeral_2_eq_2)
qed

text \<open>A conversion writes its text.\<close>

abbreviation emits :: "penv \<Rightarrow> 's vph \<Rightarrow> u8 list list \<Rightarrow> u8 list \<Rightarrow> 's parg list \<Rightarrow> 's \<Rightarrow> (err \<times> 's) option" where
  "emits V vph xs cs as s \<equiv> (case emit vph xs s of (err, s) \<Rightarrow> if err \<noteq> 0 then Some (err, s) else vhloop V vph cs None [] as s)"

lemma vhloop_num:
  fixes vph :: "'s vph"
  assumes "arg_u (int_mod i) (int_arg i :: 's parg) = Some n" "c = 88 \<or> c = 120 \<or> c = 117"
  shows "vhloop V vph (int_fmt i @ c # cs) (Some (spec_of left zero w)) lit (int_arg i # as) s =
    emits V vph (conv_num n (if c = 117 then 10 else 16) (c = 88) None ((spec_of left zero w)\<lparr>ps_lenmod := int_mod i\<rparr>)) cs as s"
proof -
  have "conv V c ((spec_of left zero w)\<lparr>ps_lenmod := int_mod i\<rparr>) (int_arg i # as) =
      Emit (conv_num n (if c = 117 then 10 else 16) (c = 88) None ((spec_of left zero w)\<lparr>ps_lenmod := int_mod i\<rparr>)) as"
    using assms by (elim disjE) (simp_all add: conv_def)
  then show ?thesis by (subst vhloop_ints) simp_all
qed

lemma vhloop_dec:
  fixes vph :: "'s vph"
  assumes "arg_s (int_mod i) (int_arg i :: 's parg) = Some n" "c = 100 \<or> c = 105"
  shows "vhloop V vph (int_fmt i @ c # cs) (Some (spec_of left zero w)) lit (int_arg i # as) s =
    emits V vph (conv_num (if sint n < 0 then - n else n) 10 False (if sint n < 0 then Some [45] else None)
      ((spec_of left zero w)\<lparr>ps_lenmod := int_mod i\<rparr>)) cs as s"
proof -
  have "conv V c ((spec_of left zero w)\<lparr>ps_lenmod := int_mod i\<rparr>) (int_arg i # as) =
      Emit (conv_num (if sint n < 0 then - n else n) 10 False (if sint n < 0 then Some [45] else None)
        ((spec_of left zero w)\<lparr>ps_lenmod := int_mod i\<rparr>)) as"
    using assms by (elim disjE) (simp_all add: conv_def Let_def)
  then show ?thesis by (subst vhloop_ints) simp_all
qed

lemma vhloop_prec:
  assumes "0 < q" "q < size_mod" "w < size_mod - 1"
  shows "vhloop V vph (46 # itoa_loop q 10 97 [] @ cs) (Some (spec_of left zero w)) lit args s =
    vhloop V vph cs (Some ((spec_of left zero w)\<lparr>ps_fpad := Some w, ps_pad := q\<rparr>)) lit args s"
proof -
  let ?sp = "(spec_of left zero w)\<lparr>ps_fpad := Some w, ps_pad := 0\<rparr>"
  have "vhloop V vph (46 # itoa_loop q 10 97 [] @ cs) (Some (spec_of left zero w)) lit args s =
      vhloop V vph (itoa_loop q 10 97 [] @ cs) (Some ?sp) lit args s"
    using assms(3) by (simp add: conv_def)
  moreover have "digits_from (ps_pad ?sp) (itoa_loop q 10 97 []) = q" using itoa_dec_Nil(3) by simp
  moreover have "\<forall>a b. itoa_loop q 10 97 [] = a # b \<longrightarrow> a \<noteq> 48 \<or> ps_pad ?sp \<noteq> 0"
    using assms(1) itoa_dec_Nil(2) [of q 97] by auto
  ultimately show ?thesis using assms(2) itoa_dec_Nil(1) by (subst (asm) vhloop_width) simp_all
qed

lemma vhloop_kind:
  fixes vph :: "'s vph"
  assumes "\<forall>f xs. k \<noteq> KSub f xs" "kind_ok w k"
  shows "\<exists>xs. concat xs = kind_out V left zero w k \<and>
    (\<forall>lit s. vhloop V vph (kind_fmt k @ cs) (Some (spec_of left zero w)) lit (kind_arg k # as) s = emits V vph xs cs as s)"
proof -
  have str: "t = pl_bytes u \<Longrightarrow> \<exists>xs. concat xs = pad_to left 32 w t \<and>
      (\<forall>s. emits V vph (conv_str u (spec_of left zero w)) cs as s = emits V vph xs cs as s)" for t u
    by (intro exI [of _ "conv_str u (spec_of left zero w)"]) (simp add: conv_str_out [OF flags_spec_of(1)])
  show ?thesis
  proof (cases k)
    case (KU i)
    obtain n where "arg_u (int_mod i) (int_arg i :: 's parg) = Some n" "unat n = int_u i" using arg_u_int by blast
    then show ?thesis using KU vhloop_num [of i n 117 V vph cs left zero w _ as]
      by (intro exI [of _ "conv_num n 10 False None ((spec_of left zero w)\<lparr>ps_lenmod := int_mod i\<rparr>)"])
        (simp add: conv_num_out [OF flags_spec_of(2)] local_itoa_def pl_bytes_def)
  next
    case (KX uc i)
    obtain n where n: "arg_u (int_mod i) (int_arg i :: 's parg) = Some n" "unat n = int_u i" using arg_u_int by blast
    let ?c = "if uc then 88 else 120 :: u8"
    have "concat (conv_num n 16 uc None ((spec_of left zero w)\<lparr>ps_lenmod := int_mod i\<rparr>)) = kind_out V left zero w k"
      using n(2) KX by (simp add: conv_num_out [OF flags_spec_of(2)] local_itoa_def pl_bytes_def)
    moreover have "vhloop V vph (kind_fmt k @ cs) (Some (spec_of left zero w)) lit (kind_arg k # as) s =
        emits V vph (conv_num n 16 uc None ((spec_of left zero w)\<lparr>ps_lenmod := int_mod i\<rparr>)) cs as s" for lit s
      using vhloop_num [OF n(1), of ?c] KX by (cases uc) simp_all
    ultimately show ?thesis by blast
  next
    case (KD alt i)
    obtain n where n: "arg_s (int_mod i) (int_arg i :: 's parg) = Some n" "sint n = int_s i" using arg_s_int by blast
    let ?xs = "conv_num (if sint n < 0 then - n else n) 10 False (if sint n < 0 then Some [45] else None)
        ((spec_of left zero w)\<lparr>ps_lenmod := int_mod i\<rparr>)"
    have "concat ?xs = kind_out V left zero w k"
      unfolding conv_num_out [OF flags_spec_of(2)] int_text using n(2) KD by (simp add: pl_bytes_def)
    moreover have "vhloop V vph (kind_fmt k @ cs) (Some (spec_of left zero w)) lit (kind_arg k # as) s = emits V vph ?xs cs as s" for lit s
      using vhloop_dec [OF n(1), of "if alt then 105 else 100"] KD by simp
    ultimately show ?thesis by blast
  next
    case (KDbl alt prec d)
    define sp where "sp = (case prec of None \<Rightarrow> spec_of left zero w | Some q \<Rightarrow> (spec_of left zero w)\<lparr>ps_fpad := Some w, ps_pad := q\<rparr>)"
    have "concat (conv_dbl d sp) = kind_out V left zero w k"
      unfolding KDbl by (rule conv_dbl_out) (use assms(2) KDbl in \<open>auto simp: sp_def split: option.splits\<close>)
    moreover have "vhloop V vph (kind_fmt k @ cs) (Some (spec_of left zero w)) lit (kind_arg k # as) s =
        emits V vph (conv_dbl d sp) cs as s" for lit s
    proof -
      have "vhloop V vph (kind_fmt k @ cs) (Some (spec_of left zero w)) lit (kind_arg k # as) s =
          vhloop V vph ((if alt then 70 else 102) # cs) (Some sp) lit (kind_arg k # as) s"
        using assms(2) KDbl by (cases prec) (simp_all add: sp_def vhloop_prec del: vhloop.simps)
      then show ?thesis using KDbl by (simp add: conv_def)
    qed
    ultimately show ?thesis by blast
  next
    case (KHex uc b)
    have "concat (conv_hex b uc (spec_of left zero w)) = kind_out V left zero w k" using KHex by (simp add: conv_hex_out [OF flags_spec_of(1)])
    then show ?thesis using KHex by (intro exI [of _ "conv_hex b uc (spec_of left zero w)"]) (simp add: conv_def)
  next
    case (KPtr n)
    let ?xs = "if n \<noteq> 0 then conv_num (ucast n) 16 False (Some [48, 120]) (spec_of left zero w) else conv_str (Some (ascii ''(nil)'')) (spec_of left zero w)"
    have "concat ?xs = kind_out V left zero w k"
      using KPtr by (simp add: conv_num_out [OF flags_spec_of(1)] conv_str_out [OF flags_spec_of(1)] local_itoa_def unat_ucast64 pl_bytes_def)
    then show ?thesis using KPtr by (intro exI [of _ ?xs]) (simp add: conv_def)
  next
    case (KSa port sa)
    have "concat (conv_sa V sa port (spec_of left zero w)) = kind_out V left zero w k"
      unfolding KSa by (rule conv_sa_out) simp
    then show ?thesis using KSa by (intro exI [of _ "conv_sa V sa port (spec_of left zero w)"]) (simp add: conv_def)
  next
    case KNoSub
    then show ?thesis by (intro exI [of _ "[]"]) (simp add: conv_def)
  next
    case KNoVa
    then show ?thesis by (intro exI [of _ "[]"]) (simp add: conv_def)
  qed (use assms in \<open>auto simp: conv_def pl_bytes_def intro: str\<close>)
qed

context print_target
begin

text \<open>A handler with the argument list, from a place in the middle of the format.\<close>

lemma vhloop_text:
  assumes "37 \<notin> set t"
  shows "vhloop V vph (t @ cs) None lit args s = vhloop V vph cs None (lit @ t) args s"
  using assms by (induction t arbitrary: lit) simp_all

definition subs_ok :: "'s fitem list \<Rightarrow> bool" where
  "subs_ok is \<longleftrightarrow> (\<forall>(f, xs) \<in> set (subs_of is). prints f xs)"

lemma lit_out:
  assumes "room (length lit + n) s"
  shows "\<exists>s1. (if lit \<noteq> [] then vph lit s else (0, s)) = (0, s1) \<and> printed lit n s s1"
  using assms takes [of lit n s] by (cases "lit = []") (auto simp: printed_def)

lemma printed_join: "printed xs (length ys + n) s s1 \<Longrightarrow> printed ys n s1 s2 \<Longrightarrow> printed (xs @ ys) n s s2"
  by (simp add: printed_def)

text \<open>The percent sign first has the text before it written.\<close>

lemma vhloop_percent:
  assumes "room (length lit + n) s"
  obtains s1 where "vhloop V vph (37 # cs) None lit args s = vhloop V vph cs (Some pspec_init) [] args s1" "printed lit n s s1"
  using lit_out [OF assms] by (auto split: prod.splits if_splits)

lemma vhloop_conv:
  assumes "kind_ok w k" "subs_ok [FConv left zero w k]" "room (length (kind_out V left zero w k) + n) s"
  shows "\<exists>s'. vhloop V vph (kind_fmt k @ cs) (Some (spec_of left zero w)) [] (kind_arg k # args) s = vhloop V vph cs None [] args s' \<and>
    printed (kind_out V left zero w k) n s s'"
proof (cases "\<exists>f xs. k = KSub f xs")
  case True
  then obtain f xs where k: "k = KSub f xs" by blast
  then have "prints f xs" using assms(2) by (simp add: subs_ok_def subs_of_def)
  then obtain s' where "f s = (0, s')" "printed xs n s s'" using assms(3) k by (auto simp: prints_def)
  then show ?thesis using k by (auto simp: conv_def)
next
  case False
  then obtain xs where xs: "concat xs = kind_out V left zero w k"
    "\<And>lit s. vhloop V vph (kind_fmt k @ cs) (Some (spec_of left zero w)) lit (kind_arg k # args) s = emits V vph xs cs args s"
    using vhloop_kind [OF _ assms(1), of V left zero vph cs args] by blast
  obtain s' where "emit vph xs s = (0, s')" "printed (kind_out V left zero w k) n s s'"
    using prints_emit [of xs] assms(3) unfolding prints_def xs(1) by blast
  then show ?thesis using xs(2) by auto
qed

end

lemma items_Nil [simp]: "fmt_of [] = []" "args_of [] = []" "out_of V [] = []" "subs_of [] = []"
  by (simp_all add: fmt_of_def args_of_def out_of_def subs_of_def)

lemma items_Cons [simp]:
  "fmt_of (i # is) = item_fmt i @ fmt_of is" "args_of (i # is) = item_args i @ args_of is" "out_of V (i # is) = item_out V i @ out_of V is"
  "subs_of (i # is) = item_subs i @ subs_of is"
  by (simp_all add: fmt_of_def args_of_def out_of_def subs_of_def)

context print_target
begin

lemma subs_ok_Cons: "subs_ok (i # is) \<longleftrightarrow> subs_ok [i] \<and> subs_ok is"
  by (auto simp: subs_ok_def)

text \<open>One item, with the text before it.\<close>

lemma vhloop_item_percent:
  assumes "room (length lit + (1 + n)) s"
  shows "\<exists>s2. vhloop V vph (37 # 37 # cs) None lit args s = vhloop V vph cs None [] args s2 \<and> printed (lit @ [37]) n s s2"
proof -
  obtain s1 where s1: "vhloop V vph (37 # 37 # cs) None lit args s = vhloop V vph (37 # cs) (Some pspec_init) [] args s1"
      "printed lit (1 + n) s s1"
    by (rule vhloop_percent [OF assms])
  obtain s2 where s2: "vph [37] s1 = (0, s2)" "printed [37] n s1 s2"
    using takes [of "[37]" n s1] s1(2) by (auto simp: printed_def)
  have "vhloop V vph (37 # 37 # cs) None lit args s = vhloop V vph cs None [] args s2"
    using s1(1) s2(1) by (simp add: conv_def del: vhloop.simps(2))
  moreover have "printed (lit @ [37]) n s s2" using printed_join [of lit "[37]" n s s1 s2] s1(2) s2(2) by simp
  ultimately show ?thesis by blast
qed

lemma vhloop_item_conv:
  assumes "kind_ok w k" "subs_ok [FConv left zero w k]" "room (length lit + (length (kind_out V left zero w k) + n)) s"
  shows "\<exists>s2. vhloop V vph (item_fmt (FConv left zero w k) @ cs) None lit (kind_arg k # args) s = vhloop V vph cs None [] args s2 \<and>
    printed (lit @ kind_out V left zero w k) n s s2"
proof -
  let ?fl = "(if left then [45] else []) @ (if zero then [48] else []) @ (if w = 0 then [] else itoa_loop w 10 97 []) @ kind_fmt k @ cs"
  obtain s1 where s1: "vhloop V vph (37 # ?fl) None lit (kind_arg k # args) s = vhloop V vph ?fl (Some pspec_init) [] (kind_arg k # args) s1"
      "printed lit (length (kind_out V left zero w k) + n) s s1"
    using vhloop_percent [OF assms(3)] by blast
  have "room (length (kind_out V left zero w k) + n) s1" using s1(2) by (simp add: printed_def)
  from vhloop_conv [OF assms(1,2) this] obtain s2 where
    s2: "vhloop V vph (kind_fmt k @ cs) (Some (spec_of left zero w)) [] (kind_arg k # args) s1 = vhloop V vph cs None [] args s2"
      "printed (kind_out V left zero w k) n s1 s2"
    by blast
  have "vhloop V vph (item_fmt (FConv left zero w k) @ cs) None lit (kind_arg k # args) s = vhloop V vph (37 # ?fl) None lit (kind_arg k # args) s"
    by (simp only: item_fmt.simps append.simps append_assoc)
  also have "\<dots> = vhloop V vph cs None [] args s2"
    unfolding s1(1) vhloop_flags [OF kind_ok_width [OF assms(1)]] s2(1) ..
  finally show ?thesis using printed_join [OF s1(2) s2(2)] by blast
qed

lemma vhloop_item_nested:
  assumes "\<And>n s. room (length xs + n) s \<Longrightarrow> \<exists>s'. vhloop V vph f None [] as s = Some (0, s') \<and> printed xs n s s'"
    and "room (length lit + (length xs + n)) s"
  shows "\<exists>s2. vhloop V vph (37 # 118 # cs) None lit (PaV f as # args) s = vhloop V vph cs None [] args s2 \<and> printed (lit @ xs) n s s2"
proof -
  obtain s1 where s1: "vhloop V vph (37 # 118 # cs) None lit (PaV f as # args) s = vhloop V vph (118 # cs) (Some pspec_init) [] (PaV f as # args) s1"
      "printed lit (length xs + n) s s1"
    using vhloop_percent [OF assms(2)] by blast
  obtain s2 where s2: "vhloop V vph f None [] as s1 = Some (0, s2)" "printed xs n s1 s2"
    using assms(1) [of n s1] s1(2) by (auto simp: printed_def)
  have "conv V 118 sp (PaV f as # args) = Nested f as args" for sp by (simp add: conv_def)
  then have "vhloop V vph (37 # 118 # cs) None lit (PaV f as # args) s = vhloop V vph cs None [] args s2"
    using s1(1) s2(1) by (simp del: vhloop.simps(2))
  then show ?thesis using printed_join [OF s1(2) s2(2)] by blast
qed

text \<open>The whole format; the items of a nested format are smaller than those around it.\<close>

lemma vhloop_items:
  assumes "list_all fitem_ok is" "subs_ok is" "room (length lit + length (out_of V is) + n) s"
  shows "\<exists>s'. vhloop V vph (fmt_of is) None lit (args_of is) s = Some (0, s') \<and> printed (lit @ out_of V is) n s s'"
  using assms
proof (induction "size_list size is" arbitrary: "is" lit n s rule: less_induct)
  case less
  show ?case
  proof (cases "is")
    case Nil
    then show ?thesis using lit_out [of lit n s] less.prems(3) by auto
  next
    case (Cons i js)
    let ?m = "length (out_of V js) + n"
    have js: "size_list size js < size_list size is" "list_all fitem_ok js" "subs_ok js" "subs_ok [i]" "fitem_ok i"
      using less.prems(1,2) Cons subs_ok_Cons [of i js] by simp_all
    note rest = less.hyps [OF js(1-3)]
    have room: "room (length lit + (length (item_out V i) + ?m)) s" using less.prems(3) Cons by (simp add: add.assoc)
    have step: ?thesis
      if ex: "\<exists>s2. vhloop V vph (fmt_of is) None lit (args_of is) s = vhloop V vph (fmt_of js) None [] (args_of js) s2 \<and>
        printed (lit @ item_out V i) ?m s s2"
    proof -
      obtain s2 where s2: "vhloop V vph (fmt_of is) None lit (args_of is) s = vhloop V vph (fmt_of js) None [] (args_of js) s2"
          "printed (lit @ item_out V i) ?m s s2"
        using ex by blast
      then have "room (length [] + length (out_of V js) + n) s2" by (simp add: printed_def)
      from rest [OF this] show ?thesis using s2(1) Cons printed_join [OF s2(2)] by auto
    qed
    show ?thesis
    proof (cases i)
      case (FText t)
      have "vhloop V vph (fmt_of is) None lit (args_of is) s = vhloop V vph (fmt_of js) None (lit @ t) (args_of js) s"
        using js(5) Cons FText by (simp add: vhloop_text)
      moreover have "room (length (lit @ t) + length (out_of V js) + n) s" using room FText by (simp add: add.assoc)
      ultimately show ?thesis using rest [of "lit @ t" n s] Cons FText by simp
    next
      case FPercent
      have "room (length lit + (1 + ?m)) s" using room FPercent by simp
      from vhloop_item_percent [OF this] show ?thesis using Cons FPercent by (intro step) simp
    next
      case (FConv left zero w k)
      have "kind_ok w k" "subs_ok [FConv left zero w k]" using js(4,5) FConv by simp_all
      from vhloop_item_conv [OF this, of lit V ?m s] room show ?thesis
        using Cons FConv by (intro step) (simp del: item_fmt.simps)
    next
      case (FVa vs)
      have a: "item_args i = [PaV (fmt_of vs) (args_of vs)]" "item_out V i = out_of V vs"
        by (simp_all add: FVa fmt_of_def args_of_def out_of_def)
      have "size_list size vs < size_list size is" "list_all fitem_ok vs" "subs_ok vs"
        using js(4,5) Cons FVa by (simp_all add: subs_ok_def subs_of_def)
      from less.hyps [OF this, of "[]"] have "room (length (out_of V vs) + n) s \<Longrightarrow>
          \<exists>s'. vhloop V vph (fmt_of vs) None [] (args_of vs) s = Some (0, s') \<and> printed (out_of V vs) n s s'" for n s
        by simp
      from vhloop_item_nested [OF this, of lit ?m s] room show ?thesis
        using Cons FVa a by (intro step) (simp del: item_args.simps item_out.simps)
    qed
  qed
qed

text \<open>Every format made of literal text and conversions prints the text of its parts, whatever the handler does with it.\<close>

lemma hprintf_items:
  assumes "list_all fitem_ok is" "subs_ok is" "room (length (out_of V is) + n) s"
  shows "\<exists>s'. re_hprintf V vph (fmt_of is) (args_of is) s = Some (0, s') \<and> out s' = out s @ out_of V is \<and> room n s'"
  using vhloop_items [OF assms(1,2), of "[]" V n s] assms(3) by (auto simp: re_hprintf_def re_vhprintf_def printed_def)

end

subsection \<open>The handlers are targets\<close>

interpretation buf: print_target print_handler fst "\<lambda>n s. n \<le> snd s \<and> length (fst s) + snd s = sz" for sz
  by unfold_locales (auto simp: print_handler_def split: prod.splits)

lemma handler_mbuf:
  assumes "alloc_total E" "mbuf_ok mb" "mb_pos mb + length p + n < size_mod"
  shows "\<exists>mb'. vprintf_handler E p mb = (0, mb') \<and> take (mb_pos mb') (mbuf_content mb') = take (mb_pos mb) (mbuf_content mb) @ p \<and>
    mbuf_ok mb' \<and> mb_pos mb' + n < size_mod"
proof -
  have wf: "mbuf_wf mb" "mb_pos mb \<le> mb_end mb" using assms(2) by (simp_all add: mbuf_ok_def)
  obtain mb' where mb': "run_state (mbuf_write_mem E (Some p)) mb = (0, mb')" "put_at mb p mb'"
    using putsD [OF puts_mem [OF assms(1)] wf(1), of p] assms(3) by auto
  note d = put_atD [OF mb'(2)]
  have "mb_pos mb' \<le> mb_end mb'" using put_at_end [OF mb'(2)] d(2,3) wf(2) by (cases "p = []") auto
  moreover have "take (mb_pos mb') (mbuf_content mb') = take (mb_pos mb) (mbuf_content mb) @ p"
    using d(2,5,6) wf(2) by (simp add: take_add min_absorb1)
  ultimately show ?thesis using mb'(1) d(1,2) assms(3) by (auto simp: vprintf_handler_def mbuf_ok_def)
qed

interpretation mb: print_target "vprintf_handler E" "\<lambda>mb. take (mb_pos mb) (mbuf_content mb)"
    "\<lambda>n mb. alloc_total E \<and> mbuf_ok mb \<and> mb_pos mb + n < size_mod" for E
  by unfold_locales (use handler_mbuf in \<open>auto simp: add.assoc\<close>)

definition dyn_ok :: "nat \<Rightarrow> dyn_print \<Rightarrow> bool" where
  "dyn_ok n dp \<longleftrightarrow> length (dp_str dp) = dp_size dp \<and> dp_p dp + dp_l dp = dp_size dp \<and> 1 \<le> dp_l dp \<and>
     dp_size dp \<le> max 16 (2 * dp_p dp) \<and> 2 * (dp_p dp + n) + 16 < size_mod"

lemma handler_dyn:
  assumes E: "alloc_total E" and ok: "dyn_ok (length p + n) dp"
  shows "\<exists>dp'. print_handler_dyn E p dp = (0, dp') \<and> take (dp_p dp') (dp_str dp') = take (dp_p dp) (dp_str dp) @ p \<and> dyn_ok n dp'"
proof -
  let ?k = "length p"
  have b: "length (dp_str dp) = dp_size dp" "dp_p dp + dp_l dp = dp_size dp" "1 \<le> dp_l dp" "dp_size dp \<le> max 16 (2 * dp_p dp)"
      "2 * (dp_p dp + ?k + n) + 16 < size_mod"
    using ok by (auto simp: dyn_ok_def)
  have l: "sz_sub (dp_l dp) 1 = dp_l dp - 1" using b by (subst sz_sub_small) auto
  have fin: "take (dp_p dp + ?k) (overwrite (dp_p dp) p xs) = take (dp_p dp) xs @ p" if "dp_p dp + ?k \<le> length xs" for xs :: "u8 list"
    using that by (simp add: overwrite_def)
  show ?thesis
  proof (cases "?k > dp_l dp - 1")
    case False
    then have "sz_sub (dp_l dp) ?k = dp_l dp - ?k" using b by (subst sz_sub_small) auto
    then show ?thesis using False b l fin [of "dp_str dp"]
      by (auto simp: print_handler_dyn_def Let_def dyn_ok_def)
  next
    case True
    let ?sz = "max (dp_size dp + ?k) (dp_size dp * 2)"
    have grow: "dp_size dp \<le> dp_p dp + ?k" "?sz < size_mod" using b True by auto
    have s1: "sz_add (dp_size dp) ?k = dp_size dp + ?k" "sz_mul (dp_size dp) 2 = dp_size dp * 2"
      using grow(2) by (simp_all add: sz_add_small sz_mul_small)
    have s2: "sz_sub ?sz (dp_size dp) = ?sz - dp_size dp" "sz_add (dp_l dp) (?sz - dp_size dp) = dp_l dp + (?sz - dp_size dp)"
      using grow(2) b(2) by (subst sz_sub_small sz_add_small; auto simp: max_def)+
    have s3: "sz_sub ?sz (dp_l dp + (?sz - dp_size dp)) = dp_p dp"
      using grow(2) b(2) by (subst sz_sub_small) auto
    have s4: "sz_sub (dp_l dp + (?sz - dp_size dp)) ?k = dp_l dp + (?sz - dp_size dp) - ?k"
      using grow b(2) by (subst sz_sub_small) auto
    note s = s1 s2 s3 s4
    let ?str = "realloc_block E (Some (dp_str dp)) ?sz"
    have r: "length ?str = ?sz" "take (dp_p dp) ?str = take (dp_p dp) (dp_str dp)"
      using b by (simp_all add: realloc_block_def max_def)
    let ?dp1 = "dp\<lparr>dp_str := ?str, dp_l := dp_l dp + (?sz - dp_size dp), dp_p := dp_p dp, dp_size := ?sz\<rparr>"
    have "can_alloc E ?sz" using E grow(2) by (simp add: alloc_total_def)
    then have run: "print_handler_dyn E p dp = (0, ?dp1\<lparr>dp_str := overwrite (dp_p ?dp1) p (dp_str ?dp1), dp_p := dp_p ?dp1 + ?k,
        dp_l := sz_sub (dp_l ?dp1) ?k\<rparr>)"
      unfolding print_handler_dyn_def Let_def l s using True by (simp only: if_True if_False not_not simp_thms option.case)
    have "dp_p dp + ?k \<le> ?sz" "dp_size dp \<le> dp_p dp + ?k" using b True by auto
    then have q: "?sz \<le> max 16 (2 * (dp_p dp + ?k))" "1 \<le> dp_l dp + (?sz - dp_size dp) - ?k"
        "dp_p dp + ?k + (dp_l dp + (?sz - dp_size dp) - ?k) = ?sz"
      using b by auto
    let ?dp2 = "?dp1\<lparr>dp_str := overwrite (dp_p ?dp1) p (dp_str ?dp1), dp_p := dp_p ?dp1 + ?k, dp_l := sz_sub (dp_l ?dp1) ?k\<rparr>"
    have f: "dp_str ?dp2 = overwrite (dp_p dp) p ?str" "dp_p ?dp2 = dp_p dp + ?k" "dp_l ?dp2 = dp_l dp + (?sz - dp_size dp) - ?k"
        "dp_size ?dp2 = ?sz"
      using s4 by simp_all
    have "length (overwrite (dp_p dp) p ?str) = ?sz"
      using r(1) \<open>dp_p dp + ?k \<le> ?sz\<close> by (subst length_overwrite) (simp_all add: max_def)
    then have "dyn_ok n ?dp2" using q b(5) by (simp only: dyn_ok_def f)
    moreover have "take (dp_p ?dp2) (dp_str ?dp2) = take (dp_p dp) (dp_str dp) @ p"
      using fin [of ?str] r \<open>dp_p dp + ?k \<le> ?sz\<close> by (simp only: f)
    ultimately show ?thesis using run by blast
  qed
qed

interpretation dyn: print_target "print_handler_dyn E" "\<lambda>dp. take (dp_p dp) (dp_str dp)" "\<lambda>n dp. alloc_total E \<and> dyn_ok n dp" for E
  by unfold_locales (use handler_dyn in auto)

subsection \<open>Properties\<close>

text \<open>A print handler that writes a text into a memory buffer.\<close>

definition mbuf_writes :: "(mbuf \<Rightarrow> err \<times> mbuf) \<Rightarrow> u8 list \<Rightarrow> bool" where
  "mbuf_writes f xs \<longleftrightarrow> (\<forall>mb n. mbuf_ok mb \<and> mb_pos mb + length xs + n < size_mod \<longrightarrow>
     (\<exists>mb'. f mb = (0, mb') \<and> mbuf_ok mb' \<and> mb_pos mb' + n < size_mod \<and>
        take (mb_pos mb') (mbuf_content mb') = take (mb_pos mb) (mbuf_content mb) @ xs))"

lemma mbuf_subs_ok:
  assumes "\<forall>(f, xs) \<in> set (subs_of is). mbuf_writes f xs" "alloc_total E"
  shows "mb.subs_ok E is"
  using assms unfolding mb.subs_ok_def mb.prints_def mb.printed_def mbuf_writes_def by (fastforce simp: add.assoc)



text \<open>The same text is what \<^verbatim>\<open>re_sdprintf\<close> returns as a new string, growing its block as needed, up to the first zero byte.\<close>

theorem re_sdprintf_prints:
  assumes "alloc_total E" "2 * length (out_of V is) + 16 < size_mod" "list_all fitem_ok is" "0 \<notin> set (out_of V is)"
    and "subs_of is = []"
  shows "re_sdprintf E V (fmt_of is) (args_of is) = Some (Inr (out_of V is))"
proof -
  let ?dp = "\<lparr>dp_str = map (fresh E 16) [0..<16], dp_p = 0, dp_l = 16, dp_size = 16\<rparr>"
  have sub: "dyn.subs_ok E is" using assms(5) by (simp add: dyn.subs_ok_def)
  have "dyn_ok (length (out_of V is) + 0) ?dp" using assms(2) by (simp add: dyn_ok_def)
  then obtain dp where dp: "re_vhprintf V (print_handler_dyn E) (fmt_of is) (args_of is) ?dp = Some (0, dp)"
      "take (dp_p dp) (dp_str dp) = out_of V is" "dyn_ok 0 dp"
    using dyn.hprintf_items [OF assms(3) sub, where n = 0 and s = ?dp and V = V] assms(1) by (auto simp: re_hprintf_def)
  have "dp_p dp < length (dp_str dp)" using dp(3) by (auto simp: dyn_ok_def)
  then have "overwrite (dp_p dp) [0] (dp_str dp) = out_of V is @ 0 # drop (Suc (dp_p dp)) (dp_str dp)"
    using dp(2) by (simp add: overwrite_def)
  moreover have "takeWhile (\<lambda>b. b \<noteq> 0) (xs @ 0 # r) = xs" if "0 \<notin> set xs" for xs r :: "u8 list"
    using that by (induction xs) auto
  note this [OF assms(4)]
  ultimately have "c_str (overwrite (dp_p dp) [0] (dp_str dp)) = out_of V is" by (simp only: c_str_def)
  then show ?thesis using dp(1) assms(1) by (simp add: re_sdprintf_def re_vsdprintf_def alloc_total_def size_mod_def)
qed

theorem re_sdprintf_prints_witness:
  "\<forall>V. re_sdprintf ideal_env V (ascii ''[%-3s]'') [PaStr (Some (ascii ''a''))] = Some (Inr (ascii ''[a  ]''))"
proof
  fix V
  let ?is = "[FText (ascii ''[''), FConv True False 3 (KStr (Some (ascii ''a''))), FText (ascii '']'')] :: dyn_print fitem list"
  have "itoa_loop 3 10 97 [] = [51]" by (simp add: itoa_step)
  then have f: "fmt_of ?is = ascii ''[%-3s]''" "args_of ?is = [PaStr (Some (ascii ''a''))]" "out_of V ?is = ascii ''[a  ]''"
    by (simp_all add: fmt_of_def args_of_def out_of_def ascii_def pad_to_def pl_bytes_def numeral_2_eq_2)
  have "list_all fitem_ok ?is" by (simp add: ascii_def size_mod_def)
  from re_sdprintf_prints [OF alloc_total_ideal _ this, of V]
  show "re_sdprintf ideal_env V (ascii ''[%-3s]'') [PaStr (Some (ascii ''a''))] = Some (Inr (ascii ''[a  ]''))"
    unfolding f by (simp add: ascii_def size_mod_def subs_of_def)
qed

text \<open>\<^verbatim>\<open>re_snprintf\<close>, when the array has room.\<close>

lemma re_snprintf_prints:
  assumes "length (out_of V is) < sz" "list_all fitem_ok is" "buf.subs_ok (sz - 1) is"
  shows "re_snprintf V sz (fmt_of is) (args_of is) = Some (int (length (out_of V is)), out_of V is)"
proof -
  have le: "length (out_of V is) \<le> sz - 1" using assms(1) by simp
  obtain l where o: "re_vhprintf V print_handler (fmt_of is) (args_of is) ([], sz - 1) = Some (0, out_of V is, l)"
      "length (out_of V is) + l = sz - 1"
    using buf.hprintf_items [OF assms(2,3), where n = 0 and s = "([], sz - 1)" and V = V] le
    by (auto simp: re_hprintf_def)
  then show ?thesis using assms(1) by (simp add: re_snprintf_def re_vsnprintf_def)
qed

subsection \<open>Numbers are read as they were written\<close>

definition digit :: "u8 \<Rightarrow> nat \<Rightarrow> u8" where
  "digit a c = (if c < 10 then 48 + of_nat c else a + of_nat (c - 10))"

lemma itoa_digit:
  "2 \<le> base \<Longrightarrow> itoa_loop n base a p =
     (if n < base then digit a n # p else itoa_loop (n div base) base a (digit a (n mod base) # p))"
  by (simp add: itoa_step digit_def)

lemma itoa_acc: "2 \<le> base \<Longrightarrow> itoa_loop n base a p = itoa_loop n base a [] @ p"
proof (induction n arbitrary: p rule: less_induct)
  case (less n)
  show ?case
  proof (cases "n < base")
    case False
    then have "n div base < n" using less.prems by simp
    note ih = less.IH [OF this less.prems]
    show ?thesis using False less.prems ih [of "digit a (n mod base) # p"] ih [of "[digit a (n mod base)]"]
      by (simp add: itoa_digit [of base n])
  qed (use less.prems in \<open>simp add: itoa_digit\<close>)
qed

lemma rev_itoa:
  assumes "2 \<le> base"
  shows "rev (itoa_loop n base a []) =
    (if n < base then [digit a n] else digit a (n mod base) # rev (itoa_loop (n div base) base a []))"
  using itoa_digit [OF assms, of n a "[]"] itoa_acc [OF assms, of "n div base" a "[digit a (n mod base)]"]
  by auto

lemma dec_loop_itoa: "dec_loop (rev (itoa_loop n 10 a [])) v m = v + m * of_nat n"
proof (induction n arbitrary: v m rule: less_induct)
  case (less n)
  have dg: "digit a c - 48 = of_nat c \<and> \<not> 9 < (of_nat c :: u8) \<and> (ucast (of_nat c :: u8) :: 'a word) = of_nat c" if "c < 10" for c
  proof -
    have "unat (of_nat c :: u8) = c" using that by (simp add: unsigned_of_nat take_bit_nat_eq_self)
    then show ?thesis using that by (simp add: digit_def word_less_nat_alt unsigned_of_nat take_bit_nat_eq_self)
  qed
  show ?case
  proof (cases "n < 10")
    case True
    then show ?thesis using dg [OF True] by (simp add: rev_itoa Let_def)
  next
    case False
    have "of_nat n = (of_nat (n mod 10) + of_nat 10 * of_nat (n div 10) :: 'a word)"
      by (metis mod_mult_div_eq of_nat_add of_nat_mult)
    then show ?thesis using False dg [of "n mod 10"] less.IH [of "n div 10"]
      by (simp add: rev_itoa Let_def algebra_simps)
  qed
qed

lemma hex_loop_itoa:
  assumes "a = 97 \<or> a = 65"
  shows "hex_loop (rev (itoa_loop n 16 a [])) v m = v + m * of_nat n"
proof (induction n arbitrary: v m rule: less_induct)
  case (less n)
  have dg: "\<exists>d. hex_digit (digit a c) = Some d \<and> (ucast d :: 'a word) = of_nat c" if "c < 16" for c
  proof -
    from less_16_cases [OF that] show ?thesis using assms
      by (elim disjE) (simp_all add: digit_def hex_digit_def)
  qed
  show ?case
  proof (cases "n < 16")
    case True
    then show ?thesis using dg [OF True] by (auto simp: rev_itoa)
  next
    case False
    have "of_nat n = (of_nat (n mod 16) + of_nat 16 * of_nat (n div 16) :: 'a word)"
      by (metis mod_mult_div_eq of_nat_add of_nat_mult)
    moreover obtain d where "hex_digit (digit a (n mod 16)) = Some d" "(ucast d :: 'a word) = of_nat (n mod 16)"
      using dg [of "n mod 16"] by auto
    ultimately show ?thesis using False less.IH [of "n div 16"]
      by (simp add: rev_itoa algebra_simps)
  qed
qed

text \<open>What \<^verbatim>\<open>local_itoa\<close> prints in base 10 and base 16, \<^verbatim>\<open>pl_u32\<close>, \<^verbatim>\<open>pl_u64\<close> and \<^verbatim>\<open>pl_x64\<close> read back, for every value.\<close>

theorem itoa_roundtrip:
  "pl_u64 (Some (local_itoa n 10 uc)) = n \<and> pl_x64 (Some (local_itoa n 16 uc)) = n \<and> pl_u32 (Some (fmt_u k)) = k"
  by (simp add: pl_u64_def pl_x64_def pl_u32_def fmt_u_def local_itoa_def dec_loop_itoa hex_loop_itoa)

end
