(* ===== verification/Sip.thy ===== *)
theory Sip
  imports Print
begin

text \<open>
  What the SIP transaction layers share: messages as the layers read them (\<^verbatim>\<open>struct sip_msg\<close> of \<^verbatim>\<open>re_sip.h\<close>, its
  header values already found by the parser), the stack (\<^verbatim>\<open>struct sip\<close> of \<^verbatim>\<open>src/sip/sip.h\<close>) with its client and
  server transactions, and sending. The transactions are objects in two memories (maps from
  addresses); the hash tables are the sequences of their elements in the order of insertion, as elements that match
  have the same hash value. The answer of the sockets to a message is the parameter \<open>N\<close>, a function of what happened
  before; messages that leave and handlers that are called are entries of a log with their time. A running timer is
  its expiry.
\<close>

subsection \<open>Messages and transports\<close>

datatype sip_transp = SIP_TRANSP_NONE | SIP_TRANSP_UDP | SIP_TRANSP_TCP | SIP_TRANSP_TLS | SIP_TRANSPC

definition sip_transp_reliable :: "sip_transp \<Rightarrow> bool" where
  "sip_transp_reliable tp = (case tp of
     SIP_TRANSP_UDP \<Rightarrow> False | SIP_TRANSP_TCP \<Rightarrow> True | SIP_TRANSP_TLS \<Rightarrow> True | _ \<Rightarrow> False)"

definition SIP_T1 :: nat where "SIP_T1 = 500"
definition SIP_T2 :: nat where "SIP_T2 = 4000"
definition SIP_T4 :: nat where "SIP_T4 = 5000"

record sip_msg =
  mg_met :: pl
  mg_ruri :: pl
  mg_scode :: u16
  mg_via_val :: pl
  mg_branch :: pl
  mg_sentby :: pl
  mg_to_val :: pl
  mg_to_tag :: pl
  mg_from_val :: pl
  mg_from_tag :: pl
  mg_callid :: pl
  mg_cseq_num :: u32
  mg_cseq_met :: pl
  mg_routes :: "pl list"
  mg_sock :: "nat option"
  mg_tag :: u64
  mg_tp :: sip_transp

subsection \<open>The stack\<close>

datatype ctrans_state = TRYING | CALLING | PROCEEDING | COMPLETED
datatype strans_state = S_TRYING | S_PROCEEDING | S_ACCEPTED | S_COMPLETED | S_CONFIRMED

text \<open>A client transaction; \<open>cc_tmr\<close> and \<open>cc_tmre\<close> are the expiries of its timers, \<open>'h\<close> are handlers with their argument.\<close>

record 'h sip_ctrans =
  cc_dst :: sa
  cc_tmr :: "u64 option"
  cc_tmre :: "u64 option"
  cc_mb :: mbuf
  cc_mb_ack :: "mbuf option"
  cc_req :: "sip_msg option"
  cc_met :: "u8 list"
  cc_branch :: "u8 list"
  cc_resph :: "'h option"
  cc_tp :: sip_transp
  cc_state :: ctrans_state
  cc_txc :: u32
  cc_invite :: bool

text \<open>A server transaction.\<close>

record 'h sip_strans =
  sv_tmr :: "u64 option"
  sv_tmrg :: "u64 option"
  sv_dst :: "sa option"
  sv_msg :: sip_msg
  sv_mb :: "mbuf option"
  sv_cancelh :: "'h option"
  sv_state :: strans_state
  sv_txc :: u32
  sv_invite :: bool

datatype 'h sip_ev =
    SeSend "nat option" sip_transp sa "u8 list"
  | SeResp 'h err "sip_msg option"
  | SeCancel 'h
  | SeReply sip_msg u16 "u8 list"

record 'h sip =
  ss_ctl :: "addr list"
  ss_ctm :: "addr \<Rightarrow> 'h sip_ctrans option"
  ss_stl :: "addr list"
  ss_stm :: "addr \<Rightarrow> 'h sip_strans option"
  ss_software :: c_string
  ss_now :: u64
  ss_log :: "(u64 \<times> 'h sip_ev) list"

type_synonym 'h sip_net = "(u64 \<times> 'h sip_ev) list \<Rightarrow> err"

definition sip_note :: "'h sip_ev \<Rightarrow> 'h sip \<Rightarrow> 'h sip" where
  "sip_note e st = st\<lparr>ss_log := ss_log st @ [(ss_now st, e)]\<rparr>"

definition timer_at :: "nat \<Rightarrow> 'h sip \<Rightarrow> u64 option" where
  "timer_at ms st = Some (of_nat ms + ss_now st)"

text \<open>A message that the transport takes leaves, on its socket or connection, now or when the connection is there.\<close>

definition sip_transp_send ::
  "'h sip_net \<Rightarrow> nat option \<Rightarrow> sip_transp \<Rightarrow> sa option \<Rightarrow> mbuf option \<Rightarrow> 'h sip \<Rightarrow> err \<times> 'h sip" where
  "sip_transp_send N sock tp dst mb st = (case (dst, mb) of
     (Some dst, Some mb) \<Rightarrow>
       if tp = SIP_TRANSP_NONE \<or> tp = SIP_TRANSPC then (EPROTONOSUPPORT, st)
       else (let err = N (ss_log st)
         in (err, if err = 0 then sip_note (SeSend sock tp dst (mbuf_rest mb)) st else st))
   | _ \<Rightarrow> (EINVAL, st))"

definition sip_send ::
  "'h sip_net \<Rightarrow> nat option \<Rightarrow> sip_transp \<Rightarrow> sa option \<Rightarrow> mbuf option \<Rightarrow> 'h sip \<Rightarrow> err \<times> 'h sip" where
  "sip_send N sock tp dst mb st = sip_transp_send N sock tp dst mb st"

text \<open>Only UDP sends on the socket of the message; a failure does not change the stack.\<close>

definition sip_start :: "c_string \<Rightarrow> u64 \<Rightarrow> 'h sip" where
  "sip_start software now = \<lparr>ss_ctl = [], ss_ctm = (\<lambda>_. None), ss_stl = [], ss_stm = (\<lambda>_. None), ss_software = software,
     ss_now = now, ss_log = []\<rparr>"

end
