(* ===== verification/Handlers.thy ===== *)
theory Handlers
  imports Prelude
begin

text \<open>
  The interface of a layer that takes requests with a handler and calls the handler with what comes back: runs of its
  steps, and what the laws of a single step say of a whole run. The SIP client transactions provide it.
\<close>

text \<open>A run; the label of a step is the handler of a request that was accepted.\<close>

inductive runs :: "('s \<Rightarrow> 'l option \<Rightarrow> 's \<Rightarrow> bool) \<Rightarrow> 's \<Rightarrow> 'l option list \<Rightarrow> 's \<Rightarrow> bool" for step where
  runs_nil: "runs step s [] s"
| runs_snoc: "runs step s ls s' \<Longrightarrow> step s' l s'' \<Longrightarrow> runs step s (ls @ [l]) s''"

inductive_cases runsE: "runs step s ls s'"

definition accepted :: "'l \<Rightarrow> 'l option list \<Rightarrow> nat" where
  "accepted h ls = length (filter (\<lambda>l. l = Some h) ls)"

lemma accepted_simps [simp]:
  "accepted h [] = 0" "accepted h (ls @ [l]) = accepted h ls + (if l = Some h then 1 else 0)"
  by (simp_all add: accepted_def)

text \<open>
  \<open>calls h s\<close> are the calls of the handler so far, \<open>pend h s\<close> is how many requests wait with it. A step leaves the calls
  of a handler as they are, or makes one more for a request that waits, which waits no longer when the call is final.
\<close>

locale handler_layer =
  fixes step :: "'s \<Rightarrow> 'h option \<Rightarrow> 's \<Rightarrow> bool"
    and calls :: "'h \<Rightarrow> 's \<Rightarrow> 'e list"
    and pend :: "'h \<Rightarrow> 's \<Rightarrow> nat"
    and final :: "'e \<Rightarrow> bool"
    and good :: "'s \<Rightarrow> bool"
  assumes step_inv: "step s l s' \<Longrightarrow> good s \<Longrightarrow> good s'"
    and step_calls: "step s l s' \<Longrightarrow> good s \<Longrightarrow>
      calls h s' = calls h s \<and> pend h s' \<le> pend h s + (if l = Some h then 1 else 0) \<or>
      (\<exists>e. calls h s' = calls h s @ [e] \<and> 0 < pend h s \<and> pend h s' = pend h s - (if final e then 1 else 0) \<and> l \<noteq> Some h)"
begin

lemma runs_inv: "runs step s ls s' \<Longrightarrow> good s \<Longrightarrow> good s'"
  by (induction rule: runs.induct) (auto intro: step_inv)

lemma finals_bound:
  "runs step s ls s' \<Longrightarrow> good s \<Longrightarrow>
   length (filter final (calls h s')) + pend h s' \<le> length (filter final (calls h s)) + pend h s + accepted h ls"
proof (induction rule: runs.induct)
  case (runs_snoc s ls s' l s'')
  from step_calls [OF runs_snoc.hyps(2) runs_inv [OF runs_snoc.hyps(1) runs_snoc.prems], of h] runs_snoc
  show ?case by auto
qed simp

definition answered :: "nat \<Rightarrow> nat \<Rightarrow> 'e list \<Rightarrow> bool" where
  "answered n p es \<longleftrightarrow>
     (n = 0 \<longrightarrow> es = [] \<and> p = 0) \<and>
     (n = 1 \<longrightarrow> (\<forall>e \<in> set es. \<not> final e) \<and> p \<le> 1 \<or>
        (\<exists>ps f. es = ps @ [f] \<and> final f \<and> (\<forall>e \<in> set ps. \<not> final e) \<and> p = 0))"

lemma answered_once:
  "runs step s ls s' \<Longrightarrow> good s \<Longrightarrow> calls h s = [] \<Longrightarrow> pend h s = 0 \<Longrightarrow> accepted h ls \<le> 1 \<Longrightarrow>
   answered (accepted h ls) (pend h s') (calls h s')"
proof (induction rule: runs.induct)
  case (runs_snoc s ls s' l s'')
  have le: "accepted h ls \<le> 1" using runs_snoc.prems(4) by (simp split: if_splits)
  from runs_snoc.IH [OF runs_snoc.prems(1-3) le] have a: "answered (accepted h ls) (pend h s') (calls h s')" .
  from step_calls [OF runs_snoc.hyps(2) runs_inv [OF runs_snoc.hyps(1) runs_snoc.prems(1)], of h]
  show ?case
  proof (elim disjE exE conjE)
    assume c: "calls h s'' = calls h s'" "pend h s'' \<le> pend h s' + (if l = Some h then 1 else 0)"
    with a runs_snoc.prems(4) le show ?case by (auto simp: answered_def split: if_splits)
  next
    fix e assume c: "calls h s'' = calls h s' @ [e]" "0 < pend h s'" "l \<noteq> Some h"
      "pend h s'' = pend h s' - (if final e then 1 else 0)"
    with a le have n: "accepted h ls = 1" and q: "\<forall>e \<in> set (calls h s'). \<not> final e" "pend h s' \<le> 1"
      by (cases "accepted h ls = 0"; auto simp: answered_def)+
    with c show ?case by (auto simp: answered_def)
  qed
qed (simp add: answered_def)

end

end
