(* ===== verification/SipCtrans.thy ===== *)
theory SipCtrans
  imports Sip Handlers
begin

text \<open>
  SIP client transactions: \<^verbatim>\<open>src/sip/ctrans.c\<close>, the machines of RFC 3261 section 17.1. \<open>dec\<close> is the parser
  \<^verbatim>\<open>sip_msg_decode\<close>, which the transaction needs once for its own request to build an ACK or a CANCEL from; it gives
  the message and how far it moved the position of the buffer.
\<close>

subsection \<open>Operations\<close>

definition COMPLETE_WAIT :: nat where "COMPLETE_WAIT = 32000"

type_synonym sip_dec = "u8 list \<Rightarrow> err + sip_msg \<times> nat"

definition put_cc :: "addr \<Rightarrow> 'h sip_ctrans \<Rightarrow> 'h sip \<Rightarrow> 'h sip" where
  "put_cc a ct st = st\<lparr>ss_ctm := (ss_ctm st)(a \<mapsto> ct)\<rparr>"

fun put_lines :: "mem_env \<Rightarrow> u8 list list \<Rightarrow> (mbuf, err) state" where
  "put_lines E [] = State_Monad.return 0"
| "put_lines E (l # ls) = do {
     e \<leftarrow> mbuf_write_mem E (Some l);
     e' \<leftarrow> put_lines E ls;
     State_Monad.return (e OR e') }"

text \<open>\<^verbatim>\<open>route_handler\<close> over the route headers; it stops at the first failure.\<close>

fun put_routes :: "mem_env \<Rightarrow> pl list \<Rightarrow> (mbuf, err) state" where
  "put_routes E [] = State_Monad.return 0"
| "put_routes E (r # rs) = do {
     e \<leftarrow> mbuf_write_mem E (Some (ascii ''Route: '' @ pl_bytes r @ crlf));
     (if e \<noteq> 0 then State_Monad.return ENOMEM else put_routes E rs) }"

definition request_lines1 :: "u8 list \<Rightarrow> sip_msg \<Rightarrow> u8 list list" where
  "request_lines1 met req =
     [met @ ascii '' '' @ pl_bytes (mg_ruri req) @ ascii '' SIP/2.0'' @ crlf,
      ascii ''Via: '' @ pl_bytes (mg_via_val req) @ crlf,
      ascii ''Max-Forwards: 70'' @ crlf]"

definition request_lines2 :: "u8 list \<Rightarrow> sip_msg \<Rightarrow> sip_msg option \<Rightarrow> c_string \<Rightarrow> u8 list list" where
  "request_lines2 met req resp software =
     [ascii ''To: '' @ pl_bytes (mg_to_val (case resp of None \<Rightarrow> req | Some r \<Rightarrow> r)) @ crlf,
      ascii ''From: '' @ pl_bytes (mg_from_val req) @ crlf,
      ascii ''Call-ID: '' @ pl_bytes (mg_callid req) @ crlf,
      ascii ''CSeq: '' @ fmt_u (mg_cseq_num req) @ ascii '' '' @ met @ crlf] @
     (case software of None \<Rightarrow> [] | Some s \<Rightarrow> [ascii ''User-Agent: '' @ s @ crlf]) @
     [ascii ''Content-Length: 0'' @ crlf @ crlf]"

text \<open>The request of the transaction is parsed when it is needed first, and kept.\<close>

definition request_copy ::
  "mem_env \<Rightarrow> sip_dec \<Rightarrow> c_string \<Rightarrow> 'h sip_ctrans \<Rightarrow> u8 list \<Rightarrow> sip_msg option \<Rightarrow> (err + mbuf) \<times> 'h sip_ctrans" where
  "request_copy E dec software ct met resp =
     (case (case cc_req ct of Some r \<Rightarrow> Inr (r, 0) | None \<Rightarrow> dec (mbuf_rest (cc_mb ct))) of
        Inl err \<Rightarrow> (Inl err, ct)
      | Inr (req, n) \<Rightarrow> (let ct = ct\<lparr>cc_req := Some req, cc_mb := (cc_mb ct)\<lparr>mb_pos := mb_pos (cc_mb ct) + n\<rparr>\<rparr> in
         case mbuf_alloc E 1024 of
           None \<Rightarrow> (Inl ENOMEM, ct)
         | Some mb \<Rightarrow> (case run_state (do {
               e1 \<leftarrow> put_lines E (request_lines1 met req);
               e2 \<leftarrow> put_routes E (mg_routes req);
               e3 \<leftarrow> put_lines E (request_lines2 met req resp software);
               State_Monad.return (e1 OR e2 OR e3) }) mb of
             (err, mb) \<Rightarrow> (if err \<noteq> 0 then Inl err else Inr (mb\<lparr>mb_pos := 0\<rparr>), ct))))"

text \<open>\<^verbatim>\<open>mem_deref\<close> of the only reference: out of the table, timers cancelled, memory gone.\<close>

definition cc_free :: "addr \<Rightarrow> 'h sip \<Rightarrow> 'h sip" where
  "cc_free a st = st\<lparr>ss_ctl := remove1 a (ss_ctl st), ss_ctm := (ss_ctm st)(a := None)\<rparr>"

definition cmp_handler :: "sip_msg \<Rightarrow> 'h sip_ctrans \<Rightarrow> bool" where
  "cmp_handler msg ct \<longleftrightarrow>
     pl_strcmp (mg_branch msg) (Some (cc_branch ct)) = 0 \<and> pl_strcmp (mg_cseq_met msg) (Some (cc_met ct)) = 0"

text \<open>\<^verbatim>\<open>dummy_handler\<close>, taken when there is no handler, does nothing.\<close>

definition call_resph :: "'h sip_ctrans \<Rightarrow> err \<Rightarrow> sip_msg option \<Rightarrow> 'h sip \<Rightarrow> 'h sip" where
  "call_resph ct err msg st = (case cc_resph ct of None \<Rightarrow> st | Some h \<Rightarrow> sip_note (SeResp h err msg) st)"

definition terminate :: "'h sip_ctrans \<Rightarrow> err \<Rightarrow> 'h sip \<Rightarrow> 'h sip" where
  "terminate ct err st = (case cc_state ct of
     TRYING \<Rightarrow> call_resph ct err None st
   | CALLING \<Rightarrow> call_resph ct err None st
   | PROCEEDING \<Rightarrow> call_resph ct err None st
   | COMPLETED \<Rightarrow> st)"

definition transport_handler :: "err \<Rightarrow> addr \<Rightarrow> 'h sip \<Rightarrow> 'h sip" where
  "transport_handler err a st = (case ss_ctm st a of None \<Rightarrow> st | Some ct \<Rightarrow> cc_free a (terminate ct err st))"

definition tmr_handler :: "addr \<Rightarrow> 'h sip \<Rightarrow> 'h sip" where
  "tmr_handler a st = (case ss_ctm st a of None \<Rightarrow> st | Some ct \<Rightarrow> cc_free a (terminate ct ETIMEDOUT st))"

text \<open>The shift is one of \<^verbatim>\<open>int\<close>, defined while the count is below 23; \<open>retransmit_count\<close> shows that it is.\<close>

definition cc_timeout :: "ctrans_state \<Rightarrow> u32 \<Rightarrow> nat option" where
  "cc_timeout s txc = (case s of
     TRYING \<Rightarrow> Some (min (SIP_T1 * 2 ^ unat txc) SIP_T2)
   | CALLING \<Rightarrow> Some (SIP_T1 * 2 ^ unat txc)
   | PROCEEDING \<Rightarrow> Some SIP_T2
   | COMPLETED \<Rightarrow> None)"

definition retransmit_handler :: "'h sip_net \<Rightarrow> addr \<Rightarrow> 'h sip \<Rightarrow> 'h sip" where
  "retransmit_handler N a st = (case ss_ctm st a of
     None \<Rightarrow> st
   | Some ct \<Rightarrow> (let ct = ct\<lparr>cc_txc := cc_txc ct + 1\<rparr> in
       case cc_timeout (cc_state ct) (cc_txc ct) of
         None \<Rightarrow> put_cc a ct st
       | Some timeout \<Rightarrow> (let ct = ct\<lparr>cc_tmre := timer_at timeout st\<rparr>; st = put_cc a ct st in
           case sip_transp_send N None (cc_tp ct) (Some (cc_dst ct)) (Some (cc_mb ct)) st of (err, st) \<Rightarrow>
             if err \<noteq> 0 then cc_free a (terminate ct err st) else st)))"

definition invite_response ::
  "mem_env \<Rightarrow> sip_dec \<Rightarrow> 'h sip_net \<Rightarrow> addr \<Rightarrow> 'h sip_ctrans \<Rightarrow> sip_msg \<Rightarrow> 'h sip \<Rightarrow> 'h sip" where
  "invite_response E dec N a ct msg st =
     (if cc_state ct = CALLING \<or> cc_state ct = PROCEEDING then
        (let ct = (if cc_state ct = CALLING then ct\<lparr>cc_tmr := None, cc_tmre := None\<rparr> else ct) in
         if mg_scode msg < 200 then
           (let ct = ct\<lparr>cc_state := PROCEEDING\<rparr> in call_resph ct 0 (Some msg) (put_cc a ct st))
         else if mg_scode msg < 300 then cc_free a (call_resph ct 0 (Some msg) (put_cc a ct st))
         else
           (let ct = ct\<lparr>cc_state := COMPLETED\<rparr> in
            case request_copy E dec (ss_software st) ct (ascii ''ACK'') (Some msg) of (r, ct) \<Rightarrow>
              (let ct = (case r of Inl _ \<Rightarrow> ct | Inr mb \<Rightarrow> ct\<lparr>cc_mb_ack := Some mb\<rparr>);
                   st = snd (sip_send N None (cc_tp ct) (Some (cc_dst ct)) (cc_mb_ack ct) (put_cc a ct st));
                   st = call_resph ct 0 (Some msg) st
               in if sip_transp_reliable (cc_tp ct) then cc_free a st
                  else put_cc a (ct\<lparr>cc_tmr := timer_at COMPLETE_WAIT st\<rparr>) st)))
      else if cc_state ct = COMPLETED then
        (if mg_scode msg < 300 then st
         else snd (sip_send N None (cc_tp ct) (Some (cc_dst ct)) (cc_mb_ack ct) st))
      else st)"

definition other_response :: "addr \<Rightarrow> 'h sip_ctrans \<Rightarrow> sip_msg \<Rightarrow> 'h sip \<Rightarrow> 'h sip" where
  "other_response a ct msg st =
     (if cc_state ct = TRYING \<or> cc_state ct = PROCEEDING then
        (if mg_scode msg < 200 then
           (let ct = ct\<lparr>cc_state := PROCEEDING\<rparr> in call_resph ct 0 (Some msg) (put_cc a ct st))
         else
           (let ct = ct\<lparr>cc_state := COMPLETED\<rparr>; st = call_resph ct 0 (Some msg) (put_cc a ct st)
            in if sip_transp_reliable (cc_tp ct) then cc_free a st
               else put_cc a (ct\<lparr>cc_tmr := timer_at SIP_T4 st, cc_tmre := None\<rparr>) st))
      else st)"

definition find_cc :: "sip_msg \<Rightarrow> 'h sip \<Rightarrow> addr option" where
  "find_cc msg st = find (\<lambda>a. case ss_ctm st a of None \<Rightarrow> False | Some ct \<Rightarrow> cmp_handler msg ct) (ss_ctl st)"

text \<open>True when the response was for a transaction.\<close>

definition response_handler ::
  "mem_env \<Rightarrow> sip_dec \<Rightarrow> 'h sip_net \<Rightarrow> sip_msg \<Rightarrow> 'h sip \<Rightarrow> bool \<times> 'h sip" where
  "response_handler E dec N msg st = (case find_cc msg st of
     None \<Rightarrow> (False, st)
   | Some a \<Rightarrow> (let ct = the (ss_ctm st a) in
       (True, if cc_invite ct then invite_response E dec N a ct msg st else other_response a ct msg st)))"

definition sizeof_sip_ctrans :: nat where "sizeof_sip_ctrans = 184"

text \<open>\<open>a\<close> is what the allocator returns.\<close>

definition sip_ctrans_request ::
  "mem_env \<Rightarrow> 'h sip_net \<Rightarrow> addr \<Rightarrow> sip_transp \<Rightarrow> sa \<Rightarrow> u8 list \<Rightarrow> u8 list \<Rightarrow> mbuf \<Rightarrow> 'h option \<Rightarrow> 'h sip \<Rightarrow> err \<times> 'h sip" where
  "sip_ctrans_request E N a tp dst met branch mb resph st =
     (if \<not> can_alloc E sizeof_sip_ctrans then (ENOMEM, st)
      else (let invite = (met = ascii ''INVITE'');
                ct = \<lparr>cc_dst = dst, cc_tmr = None, cc_tmre = None, cc_mb = mb, cc_mb_ack = None, cc_req = None,
                      cc_met = met, cc_branch = branch, cc_resph = resph, cc_tp = tp,
                      cc_state = (if invite then CALLING else TRYING), cc_txc = 0, cc_invite = invite\<rparr>;
                st = put_cc a ct (st\<lparr>ss_ctl := ss_ctl st @ [a]\<rparr>)
        in case sip_transp_send N None tp (Some dst) (Some mb) st of (err, st) \<Rightarrow>
          if err \<noteq> 0 then (err, cc_free a st)
          else (let ct = ct\<lparr>cc_tmr := timer_at (64 * SIP_T1) st\<rparr>;
                    ct = (if sip_transp_reliable tp then ct else ct\<lparr>cc_tmre := timer_at SIP_T1 st\<rparr>)
            in (0, put_cc a ct st))))"

text \<open>A CANCEL is a transaction of its own, at \<open>a'\<close>, with the same branch; nobody is told of its outcome.\<close>

definition sip_ctrans_cancel ::
  "mem_env \<Rightarrow> sip_dec \<Rightarrow> 'h sip_net \<Rightarrow> addr \<Rightarrow> addr \<Rightarrow> 'h sip \<Rightarrow> err \<times> 'h sip" where
  "sip_ctrans_cancel E dec N a a' st = (case ss_ctm st a of
     None \<Rightarrow> (EINVAL, st)
   | Some ct \<Rightarrow>
       if \<not> cc_invite ct then (0, st)
       else if cc_state ct \<noteq> PROCEEDING then (EPROTO, st)
       else (let ct = ct\<lparr>cc_tmr := timer_at (64 * SIP_T1) st\<rparr>; cancel = ascii ''CANCEL''; st = put_cc a ct st in
         if \<not> can_alloc E 7 then (ENOMEM, st)
         else case request_copy E dec (ss_software st) ct cancel None of
           (Inl err, ct) \<Rightarrow> (err, put_cc a ct st)
         | (Inr mb, ct) \<Rightarrow> sip_ctrans_request E N a' (cc_tp ct) (cc_dst ct) cancel (cc_branch ct) mb None (put_cc a ct st)))"

subsection \<open>Timers\<close>

text \<open>As \<^verbatim>\<open>tmr_poll\<close> does for a due timer: it is stopped, then its handler runs.\<close>

definition cc_fire_tmr :: "addr \<Rightarrow> 'h sip \<Rightarrow> 'h sip" where
  "cc_fire_tmr a st = (case ss_ctm st a of None \<Rightarrow> st | Some ct \<Rightarrow> tmr_handler a (put_cc a (ct\<lparr>cc_tmr := None\<rparr>) st))"

definition cc_fire_tmre :: "'h sip_net \<Rightarrow> addr \<Rightarrow> 'h sip \<Rightarrow> 'h sip" where
  "cc_fire_tmre N a st =
     (case ss_ctm st a of None \<Rightarrow> st | Some ct \<Rightarrow> retransmit_handler N a (put_cc a (ct\<lparr>cc_tmre := None\<rparr>) st))"

subsection \<open>Responses of a transaction\<close>

text \<open>The calls of a handler so far; a final one is an error or a response of 200 or more.\<close>

fun resp_of :: "'h \<Rightarrow> u64 \<times> 'h sip_ev \<Rightarrow> (err \<times> sip_msg option) list" where
  "resp_of h (t, SeResp h' e m) = (if h' = h then [(e, m)] else [])"
| "resp_of h _ = []"

definition resps :: "'h \<Rightarrow> 'h sip \<Rightarrow> (err \<times> sip_msg option) list" where
  "resps h st = concat (map (resp_of h) (ss_log st))"

definition final_resp :: "err \<times> sip_msg option \<Rightarrow> bool" where
  "final_resp r \<longleftrightarrow> fst r \<noteq> 0 \<or> (case snd r of None \<Rightarrow> True | Some m \<Rightarrow> 200 \<le> mg_scode m)"

definition owes :: "'h \<Rightarrow> 'h sip_ctrans option \<Rightarrow> bool" where
  "owes h x = (case x of None \<Rightarrow> False | Some ct \<Rightarrow> cc_resph ct = Some h \<and> cc_state ct \<noteq> COMPLETED)"

definition pending :: "'h \<Rightarrow> 'h sip \<Rightarrow> nat" where
  "pending h st = length (filter (\<lambda>a. owes h (ss_ctm st a)) (ss_ctl st))"

text \<open>What holds of a transaction between events: its state fits its method, and a timer runs unless it is an INVITE that
  is answered provisionally; requests are repeated before a final response only.\<close>

definition cc_ok :: "'h sip_ctrans \<Rightarrow> bool" where
  "cc_ok ct \<longleftrightarrow> (cc_invite ct \<longrightarrow> cc_state ct \<noteq> TRYING) \<and> (\<not> cc_invite ct \<longrightarrow> cc_state ct \<noteq> CALLING) \<and>
     (cc_tmr ct = None \<longrightarrow> cc_invite ct \<and> cc_state ct = PROCEEDING) \<and>
     (cc_tmre ct \<noteq> None \<longrightarrow> cc_state ct \<noteq> COMPLETED \<and> (cc_invite ct \<longrightarrow> cc_state ct = CALLING))"

definition sip_ok :: "'h sip \<Rightarrow> bool" where
  "sip_ok st \<longleftrightarrow> distinct (ss_ctl st) \<and> (\<forall>a. (a \<in> set (ss_ctl st)) = (ss_ctm st a \<noteq> None)) \<and>
     (\<forall>a ct. ss_ctm st a = Some ct \<longrightarrow> cc_ok ct)"

text \<open>One transaction takes a step: nobody is called and nothing more is owed, or the one who waits is called.\<close>

definition local_step :: "'h \<Rightarrow> addr \<Rightarrow> 'h sip_ctrans \<Rightarrow> 'h sip \<Rightarrow> 'h sip \<Rightarrow> bool" where
  "local_step h a ct st st' \<longleftrightarrow> (\<exists>x. ss_ctm st' = (ss_ctm st)(a := x) \<and>
     ss_ctl st' = (if x = None then remove1 a (ss_ctl st) else ss_ctl st) \<and> (\<forall>c. x = Some c \<longrightarrow> cc_ok c) \<and>
     (resps h st' = resps h st \<and> (owes h x \<longrightarrow> owes h (Some ct)) \<or>
      (\<exists>e. resps h st' = resps h st @ [e] \<and> owes h (Some ct) \<and> (owes h x \<longleftrightarrow> \<not> final_resp e))))"

lemma sip_note_simps [simp]:
  "ss_ctl (sip_note e st) = ss_ctl st" "ss_ctm (sip_note e st) = ss_ctm st" "ss_now (sip_note e st) = ss_now st"
  "ss_log (sip_note e st) = ss_log st @ [(ss_now st, e)]" "ss_software (sip_note e st) = ss_software st"
  "ss_stl (sip_note e st) = ss_stl st" "ss_stm (sip_note e st) = ss_stm st"
  by (simp_all add: sip_note_def)

lemma put_cc_simps [simp]:
  "ss_ctl (put_cc a ct st) = ss_ctl st" "ss_ctm (put_cc a ct st) = (ss_ctm st)(a \<mapsto> ct)"
  "ss_now (put_cc a ct st) = ss_now st" "ss_log (put_cc a ct st) = ss_log st" "ss_software (put_cc a ct st) = ss_software st"
  "ss_stl (put_cc a ct st) = ss_stl st" "ss_stm (put_cc a ct st) = ss_stm st"
  by (simp_all add: put_cc_def)

lemma cc_free_simps [simp]:
  "ss_ctl (cc_free a st) = remove1 a (ss_ctl st)" "ss_ctm (cc_free a st) = (ss_ctm st)(a := None)"
  "ss_now (cc_free a st) = ss_now st" "ss_log (cc_free a st) = ss_log st"
  "ss_stl (cc_free a st) = ss_stl st" "ss_stm (cc_free a st) = ss_stm st"
  by (simp_all add: cc_free_def)

lemma resps_simps [simp]:
  "resps h (put_cc a ct st) = resps h st" "resps h (cc_free a st) = resps h st" "resps h (st\<lparr>ss_ctl := l\<rparr>) = resps h st"
  "resps h (st\<lparr>ss_now := t\<rparr>) = resps h st"
  "resps h (sip_note (SeSend s tp d b) st) = resps h st" "resps h (sip_note (SeReply q c r) st) = resps h st"
  "resps h (sip_note (SeCancel h') st) = resps h st"
  "resps h (sip_note (SeResp h' e m) st) = resps h st @ (if h' = h then [(e, m)] else [])"
  by (simp_all add: resps_def)

lemma owes_simps [simp]: "\<not> owes h None" "owes h (Some ct) \<longleftrightarrow> cc_resph ct = Some h \<and> cc_state ct \<noteq> COMPLETED"
  by (simp_all add: owes_def)

lemma call_resph_frame [simp]:
  "ss_ctl (call_resph ct err m st) = ss_ctl st" "ss_ctm (call_resph ct err m st) = ss_ctm st"
  "ss_now (call_resph ct err m st) = ss_now st" "ss_software (call_resph ct err m st) = ss_software st"
  "ss_stl (call_resph ct err m st) = ss_stl st" "ss_stm (call_resph ct err m st) = ss_stm st"
  "resps h (call_resph ct err m st) = resps h st @ (if cc_resph ct = Some h then [(err, m)] else [])"
  by (auto simp: call_resph_def split: option.split)

lemma terminate_frame [simp]:
  "ss_ctl (terminate ct err st) = ss_ctl st" "ss_ctm (terminate ct err st) = ss_ctm st"
  "ss_now (terminate ct err st) = ss_now st"
  "resps h (terminate ct err st) = resps h st @ (if cc_resph ct = Some h \<and> cc_state ct \<noteq> COMPLETED then [(err, None)] else [])"
  by (auto simp: terminate_def split: ctrans_state.split)

lemma transp_send_frame:
  assumes "sip_transp_send N s tp d mb st = (err, st')"
  shows "ss_ctl st' = ss_ctl st" "ss_ctm st' = ss_ctm st" "ss_now st' = ss_now st" "ss_software st' = ss_software st"
    "ss_stl st' = ss_stl st" "ss_stm st' = ss_stm st" "resps h st' = resps h st"
  using assms by (auto simp: sip_transp_send_def Let_def split: option.splits if_splits)

lemma sip_send_frame [simp]:
  "ss_ctl (snd (sip_send N s tp d mb st)) = ss_ctl st" "ss_ctm (snd (sip_send N s tp d mb st)) = ss_ctm st"
  "ss_now (snd (sip_send N s tp d mb st)) = ss_now st" "resps h (snd (sip_send N s tp d mb st)) = resps h st"
  "ss_stl (snd (sip_send N s tp d mb st)) = ss_stl st" "ss_stm (snd (sip_send N s tp d mb st)) = ss_stm st"
  by (auto simp: sip_send_def sip_transp_send_def Let_def split: option.splits if_splits)

lemma final_simps [simp]: "final_resp (e, None)" "final_resp (0, Some m) \<longleftrightarrow> 200 \<le> mg_scode m"
  by (simp_all add: final_resp_def)

lemma request_copy_frame:
  assumes "request_copy E dec sw ct met resp = (r, ct')"
  shows "cc_resph ct' = cc_resph ct" "cc_state ct' = cc_state ct" "cc_tp ct' = cc_tp ct" "cc_tmr ct' = cc_tmr ct"
    "cc_tmre ct' = cc_tmre ct" "cc_invite ct' = cc_invite ct" "cc_dst ct' = cc_dst ct" "cc_met ct' = cc_met ct"
    "cc_branch ct' = cc_branch ct" "cc_mb_ack ct' = cc_mb_ack ct"
  using assms by (auto simp: request_copy_def Let_def split: option.splits sum.splits prod.splits)

lemma transport_handler_step:
  assumes "ss_ctm st a = Some ct"
  shows "local_step h a ct st (transport_handler err a st)"
  unfolding local_step_def using assms
  by (intro exI [of _ None]) (auto simp: transport_handler_def)

lemma fire_tmr_step:
  assumes "ss_ctm st a = Some ct"
  shows "local_step h a ct st (cc_fire_tmr a st)"
  unfolding local_step_def using assms
  by (intro exI [of _ None]) (auto simp: cc_fire_tmr_def tmr_handler_def)

lemma fire_tmre_step:
  assumes "ss_ctm st a = Some ct" "cc_ok ct" "cc_tmre ct \<noteq> None"
  shows "local_step h a ct st (cc_fire_tmre N a st)"
proof -
  have nc: "cc_state ct \<noteq> COMPLETED" using assms(2,3) by (auto simp: cc_ok_def)
  let ?ct = "ct\<lparr>cc_tmre := None, cc_txc := cc_txc ct + 1\<rparr>"
  obtain t where t: "cc_timeout (cc_state ct) (cc_txc ct + 1) = Some t"
    using nc by (cases "cc_state ct") (auto simp: cc_timeout_def)
  let ?st = "put_cc a (?ct\<lparr>cc_tmre := timer_at t (put_cc a (ct\<lparr>cc_tmre := None\<rparr>) st)\<rparr>) (put_cc a (ct\<lparr>cc_tmre := None\<rparr>) st)"
  obtain err st' where s: "sip_transp_send N None (cc_tp ct) (Some (cc_dst ct)) (Some (cc_mb ct)) ?st = (err, st')"
    by (rule prod.exhaust)
  note f = transp_send_frame [OF s]
  show ?thesis
  proof (cases "err = 0")
    case True
    then show ?thesis using assms nc t s f unfolding local_step_def
      by (intro exI [of _ "Some (?ct\<lparr>cc_tmre := timer_at t (put_cc a (ct\<lparr>cc_tmre := None\<rparr>) st)\<rparr>)"])
        (auto simp: cc_fire_tmre_def retransmit_handler_def Let_def cc_ok_def)
  next
    case False
    then show ?thesis using assms nc t s f unfolding local_step_def
      by (intro exI [of _ None]) (auto simp: cc_fire_tmre_def retransmit_handler_def Let_def)
  qed
qed

lemma invite_response_step:
  assumes "ss_ctm st a = Some ct" "cc_ok ct" "cc_invite ct"
  shows "local_step h a ct st (invite_response E dec N a ct msg st)"
proof -
  have st: "cc_state ct = CALLING \<or> cc_state ct = PROCEEDING \<or> cc_state ct = COMPLETED"
    using assms(2,3) by (cases "cc_state ct") (simp_all add: cc_ok_def)
  consider (prov) "cc_state ct = CALLING \<or> cc_state ct = PROCEEDING" "mg_scode msg < 200"
    | (ok) "cc_state ct = CALLING \<or> cc_state ct = PROCEEDING" "200 \<le> mg_scode msg" "mg_scode msg < 300"
    | (bad) "cc_state ct = CALLING \<or> cc_state ct = PROCEEDING" "300 \<le> mg_scode msg"
    | (over) "cc_state ct = COMPLETED"
    using st by (metis not_less)
  then show ?thesis
  proof cases
    case prov
    then show ?thesis using assms unfolding local_step_def invite_response_def Let_def
      by (intro exI [of _ "Some ((if cc_state ct = CALLING then ct\<lparr>cc_tmr := None, cc_tmre := None\<rparr> else ct)\<lparr>cc_state := PROCEEDING\<rparr>)"])
        (auto simp: cc_ok_def not_le)
  next
    case ok
    then show ?thesis using assms unfolding local_step_def invite_response_def Let_def
      by (intro exI [of _ None]) (auto simp: not_less [symmetric])
  next
    case bad
    let ?c = "(if cc_state ct = CALLING then ct\<lparr>cc_tmr := None, cc_tmre := None\<rparr> else ct)\<lparr>cc_state := COMPLETED\<rparr>"
    obtain r c where rc: "request_copy E dec (ss_software st) ?c (ascii ''ACK'') (Some msg) = (r, c)" by (rule prod.exhaust)
    have s: "\<not> mg_scode msg < 200" "\<not> mg_scode msg < 300" "200 \<le> mg_scode msg" using bad(2)
      by (auto simp: not_less elim: order_trans [rotated])
    have tm: "cc_tmre c = None" using rc assms(2,3) bad(1)
      by (auto dest!: request_copy_frame(5) simp: cc_ok_def split: if_splits)
    let ?d = "case r of Inl _ \<Rightarrow> c | Inr mb \<Rightarrow> c\<lparr>cc_mb_ack := Some mb\<rparr>"
    note f = request_copy_frame [OF rc]
    show ?thesis
    proof (cases "sip_transp_reliable (cc_tp ct)")
      case True
      then show ?thesis using assms bad(1) s rc f unfolding local_step_def invite_response_def Let_def
        by (intro exI [of _ None]) (auto split: sum.split)
    next
      case False
      then show ?thesis using assms bad(1) s rc f tm unfolding local_step_def invite_response_def Let_def
        by (intro exI [of _ "Some (?d\<lparr>cc_tmr := timer_at COMPLETE_WAIT st\<rparr>)"])
          (auto simp: cc_ok_def timer_at_def split: sum.split)
    qed
  next
    case over
    then show ?thesis using assms unfolding local_step_def invite_response_def Let_def
      by (intro exI [of _ "Some ct"]) (auto simp: fun_upd_idem)
  qed
qed

lemma other_response_step:
  assumes "ss_ctm st a = Some ct" "cc_ok ct" "\<not> cc_invite ct"
  shows "local_step h a ct st (other_response a ct msg st)"
proof -
  consider (prov) "cc_state ct \<noteq> COMPLETED" "mg_scode msg < 200" | (fin) "cc_state ct \<noteq> COMPLETED" "200 \<le> mg_scode msg"
    | (over) "cc_state ct = COMPLETED"
    by (metis not_less)
  then show ?thesis
  proof cases
    case prov
    then show ?thesis using assms unfolding local_step_def other_response_def Let_def
      by (intro exI [of _ "Some (ct\<lparr>cc_state := PROCEEDING\<rparr>)"]) (cases "cc_state ct"; auto simp: cc_ok_def not_le)
  next
    case fin
    then have s: "\<not> mg_scode msg < 200" by (simp add: not_less)
    show ?thesis
    proof (cases "sip_transp_reliable (cc_tp ct)")
      case True
      then show ?thesis using assms fin s unfolding local_step_def other_response_def Let_def
        by (intro exI [of _ None]) (cases "cc_state ct"; auto simp: cc_ok_def)
    next
      case False
      then show ?thesis using assms fin s unfolding local_step_def other_response_def Let_def
        by (intro exI [of _ "Some (ct\<lparr>cc_state := COMPLETED, cc_tmr := timer_at SIP_T4 st, cc_tmre := None\<rparr>)"])
          (cases "cc_state ct"; auto simp: cc_ok_def timer_at_def)
    qed
  next
    case over
    then show ?thesis using assms unfolding local_step_def other_response_def
      by (intro exI [of _ "Some ct"]) (auto simp: fun_upd_idem)
  qed
qed

subsection \<open>Steps of the stack\<close>

lemma filter_remove1_add:
  "distinct xs \<Longrightarrow> a \<in> set xs \<Longrightarrow> length (filter P xs) = (if P a then 1 else 0) + length (filter P (remove1 a xs))"
  by (induction xs) auto

lemma filter_upd:
  "distinct xs \<Longrightarrow> a \<in> set xs \<Longrightarrow>
   length (filter (\<lambda>b. P ((m(a := x)) b)) xs) + (if P (m a) then 1 else 0) = length (filter (\<lambda>b. P (m b)) xs) + (if P x then 1 else 0)"
proof (induction xs)
  case (Cons y ys)
  show ?case
  proof (cases "y = a")
    case True
    then have "filter (\<lambda>b. P ((m(a := x)) b)) ys = filter (\<lambda>b. P (m b)) ys"
      using Cons.prems(1) by (intro filter_cong) auto
    with True show ?thesis by simp
  next
    case False
    then show ?thesis using Cons by auto
  qed
qed simp

lemma pending_local:
  assumes "sip_ok st" "ss_ctm st a = Some ct" "ss_ctm st' = (ss_ctm st)(a := x)"
    "ss_ctl st' = (if x = None then remove1 a (ss_ctl st) else ss_ctl st)"
  shows "pending h st' + (if owes h (Some ct) then 1 else 0) = pending h st + (if owes h x then 1 else 0)"
proof -
  have d: "distinct (ss_ctl st)" "a \<in> set (ss_ctl st)" using assms(1,2) by (auto simp: sip_ok_def)
  have f: "length (filter (\<lambda>b. owes h (((ss_ctm st)(a := x)) b)) (ss_ctl st)) + (if owes h (Some ct) then 1 else 0) =
      pending h st + (if owes h x then 1 else 0)"
    using filter_upd [OF d, of "owes h" "ss_ctm st" x] assms(2) by (simp add: pending_def)
  show ?thesis
  proof (cases x)
    case None
    then show ?thesis using f filter_remove1_add [OF d, of "\<lambda>b. owes h (((ss_ctm st)(a := x)) b)"] assms(3,4)
      by (simp add: pending_def)
  next
    case (Some c)
    then show ?thesis using f assms(3,4) by (simp add: pending_def)
  qed
qed

definition called_step :: "'h \<Rightarrow> 'h option \<Rightarrow> 'h sip \<Rightarrow> 'h sip \<Rightarrow> bool" where
  "called_step h l st st' \<longleftrightarrow>
     resps h st' = resps h st \<and> pending h st' \<le> pending h st + (if l = Some h then 1 else 0) \<or>
     (\<exists>e. resps h st' = resps h st @ [e] \<and> 0 < pending h st \<and>
        pending h st' = pending h st - (if final_resp e then 1 else 0) \<and> l \<noteq> Some h)"

lemma local_step_called:
  assumes "sip_ok st" "ss_ctm st a = Some ct" "local_step h a ct st st'"
  shows "called_step h None st st'"
proof -
  obtain x where x: "ss_ctm st' = (ss_ctm st)(a := x)" "ss_ctl st' = (if x = None then remove1 a (ss_ctl st) else ss_ctl st)"
    and o: "resps h st' = resps h st \<and> (owes h x \<longrightarrow> owes h (Some ct)) \<or>
      (\<exists>e. resps h st' = resps h st @ [e] \<and> owes h (Some ct) \<and> (owes h x \<longleftrightarrow> \<not> final_resp e))"
    using assms(3) unfolding local_step_def by blast
  note p = pending_local [OF assms(1,2) x, of h]
  from o show ?thesis
  proof (elim disjE exE conjE)
    assume "resps h st' = resps h st" "owes h x \<longrightarrow> owes h (Some ct)"
    then show ?thesis using p unfolding called_step_def by (auto split: if_splits)
  next
    fix e assume e: "resps h st' = resps h st @ [e]" "owes h (Some ct)" "owes h x \<longleftrightarrow> \<not> final_resp e"
    have q: "pending h st' + 1 = pending h st + (if final_resp e then 0 else 1)" using p e(2,3) by simp
    have "\<exists>xs ys. ss_ctl st = xs @ a # ys" using assms(1,2) by (auto simp: sip_ok_def intro: split_list)
    then have "0 < pending h st" using e(2) assms(2) by (auto simp: pending_def)
    with q e(1) show ?thesis unfolding called_step_def by (intro disjI2 exI [of _ e]) (simp split: if_splits)
  qed
qed

lemma local_step_ok:
  assumes "sip_ok st" "ss_ctm st a = Some ct" "local_step h a ct st st'"
  shows "sip_ok st'"
proof -
  obtain x where x: "ss_ctm st' = (ss_ctm st)(a := x)" "ss_ctl st' = (if x = None then remove1 a (ss_ctl st) else ss_ctl st)"
    "\<forall>c. x = Some c \<longrightarrow> cc_ok c"
    using assms(3) unfolding local_step_def by blast
  have d: "distinct (ss_ctl st)" "a \<in> set (ss_ctl st)" using assms(1,2) by (auto simp: sip_ok_def)
  show ?thesis using assms(1) x d unfolding sip_ok_def by (cases x) auto
qed

lemma release_step: "local_step h a ct st (cc_free a st)"
  unfolding local_step_def by (intro exI [of _ None]) simp

lemma find_cc_some:
  "find_cc msg st = Some a \<Longrightarrow> \<exists>ct. ss_ctm st a = Some ct \<and> cmp_handler msg ct \<and> a \<in> set (ss_ctl st)"
  by (auto simp: find_cc_def find_Some_iff split: option.splits)

lemma response_step:
  assumes "sip_ok st" "response_handler E dec N msg st = (b, st')"
  obtains "st' = st" | a ct where "ss_ctm st a = Some ct" "\<And>h. local_step h a ct st st'"
proof (cases "find_cc msg st")
  case None
  then show ?thesis using assms(2) that(1) by (simp add: response_handler_def)
next
  case (Some a)
  then obtain ct where ct: "ss_ctm st a = Some ct" using find_cc_some by blast
  then have k: "cc_ok ct" using assms(1) by (auto simp: sip_ok_def)
  have "local_step h a ct st st'" for h
    using assms(2) Some ct k by (auto simp: response_handler_def Let_def intro: invite_response_step other_response_step)
  with ct show ?thesis by (rule that(2))
qed

lemma request_step:
  assumes "sip_ok st" "ss_ctm st a = None" "sip_ctrans_request E N a tp dst met branch mb resph st = (err, st')"
  shows "sip_ok st' \<and> called_step h (if err = 0 then resph else None) st st'"
proof (cases "can_alloc E sizeof_sip_ctrans")
  case False
  then show ?thesis using assms by (simp add: sip_ctrans_request_def called_step_def)
next
  case True
  let ?inv = "met = ascii ''INVITE''"
  let ?ct = "\<lparr>cc_dst = dst, cc_tmr = None, cc_tmre = None, cc_mb = mb, cc_mb_ack = None, cc_req = None,
     cc_met = met, cc_branch = branch, cc_resph = resph, cc_tp = tp,
     cc_state = (if ?inv then CALLING else TRYING), cc_txc = 0, cc_invite = ?inv\<rparr>"
  let ?s = "put_cc a ?ct (st\<lparr>ss_ctl := ss_ctl st @ [a]\<rparr>)"
  have na: "a \<notin> set (ss_ctl st)" using assms(1,2) by (auto simp: sip_ok_def)
  obtain e s where t: "sip_transp_send N None tp (Some dst) (Some mb) ?s = (e, s)" by (rule prod.exhaust)
  note f = transp_send_frame [OF t]
  show ?thesis
  proof (cases "e = 0")
    case False
    then have r: "err = e" "st' = cc_free a s" using assms(3) True t by (simp_all add: sip_ctrans_request_def Let_def)
    have "ss_ctm st' = ss_ctm st" "ss_ctl st' = ss_ctl st" "resps h st' = resps h st"
      using r f na assms(2) by (auto simp: remove1_append fun_upd_idem)
    then show ?thesis using assms(1) by (simp add: sip_ok_def called_step_def pending_def)
  next
    case e0: True
    let ?c = "(if sip_transp_reliable tp then id else cc_tmre_update (\<lambda>_. timer_at SIP_T1 s)) (?ct\<lparr>cc_tmr := timer_at (64 * SIP_T1) s\<rparr>)"
    have r: "err = 0" "st' = put_cc a ?c s" using assms(3) True t e0 by (auto simp: sip_ctrans_request_def Let_def)
    have m: "ss_ctm st' = (ss_ctm st)(a \<mapsto> ?c)" "ss_ctl st' = ss_ctl st @ [a]" "resps h st' = resps h st"
      using r f by auto
    have "cc_ok ?c" by (auto simp: cc_ok_def timer_at_def)
    then have "sip_ok st'" using assms(1) m na by (auto simp: sip_ok_def)
    moreover have "filter (\<lambda>b. owes h (ss_ctm st' b)) (ss_ctl st) = filter (\<lambda>b. owes h (ss_ctm st b)) (ss_ctl st)"
      using m na by (intro filter_cong) auto
    then have "pending h st' \<le> pending h st + (if resph = Some h then 1 else 0)" using m by (simp add: pending_def)
    ultimately show ?thesis using r m by (simp add: called_step_def)
  qed
qed

lemma cancel_step:
  assumes "sip_ok st" "ss_ctm st a' = None" "sip_ctrans_cancel E dec N a a' st = (err, st')"
  shows "sip_ok st' \<and> called_step h None st st'"
proof -
  have keep: "sip_ok u \<and> called_step h l st u"
    if "ss_ctm u = (ss_ctm st)(a \<mapsto> c)" "ss_ctl u = ss_ctl st" "resps h u = resps h st" "ss_ctm st a = Some ct" "cc_ok c"
      "owes h (Some c) = owes h (Some ct)" for u c ct l
  proof -
    have "local_step h a ct st u" unfolding local_step_def using that by (intro exI [of _ "Some c"]) simp
    from local_step_ok [OF assms(1) that(4) this] local_step_called [OF assms(1) that(4) this]
    show ?thesis using pending_local [OF assms(1) that(4,1), of h] that by (auto simp: called_step_def)
  qed
  show ?thesis
  proof (cases "ss_ctm st a")
    case None
    then show ?thesis using assms by (simp add: sip_ctrans_cancel_def called_step_def)
  next
    case (Some ct)
    show ?thesis
    proof (cases "cc_invite ct \<and> cc_state ct = PROCEEDING")
      case False
      then have "st' = st" using assms(3) Some by (cases "cc_invite ct") (simp_all add: sip_ctrans_cancel_def)
      then show ?thesis using assms(1) by (simp add: called_step_def)
    next
      case inv: True
      have k: "cc_ok ct" using assms(1) Some by (auto simp: sip_ok_def)
      let ?ct = "ct\<lparr>cc_tmr := timer_at (64 * SIP_T1) st\<rparr>"
      have k': "cc_ok ?ct" using k by (auto simp: cc_ok_def timer_at_def)
      have c0: "sip_ok (put_cc a ?ct st) \<and> called_step h l st (put_cc a ?ct st)" for l
        by (rule keep [where c = ?ct and ct = ct]) (use Some k' in simp_all)
      show ?thesis
      proof (cases "can_alloc E 7")
        case False
        then show ?thesis using assms(3) Some inv c0 by (auto simp: sip_ctrans_cancel_def Let_def)
      next
        case True
        obtain r c where rc: "request_copy E dec (ss_software st) ?ct (ascii ''CANCEL'') None = (r, c)" by (rule prod.exhaust)
        note f = request_copy_frame [OF rc]
        have "cc_ok c" using k' f by (simp add: cc_ok_def)
        then have c1: "sip_ok (put_cc a c (put_cc a ?ct st)) \<and> called_step h l st (put_cc a c (put_cc a ?ct st))" for l
          by (intro keep [where c = c and ct = ct]) (use Some f in simp_all)
        show ?thesis
        proof (cases r)
          case (Inl e)
          then show ?thesis using assms(3) Some inv True rc c1 by (auto simp: sip_ctrans_cancel_def Let_def)
        next
          case (Inr mb)
          have req: "sip_ctrans_request E N a' (cc_tp c) (cc_dst c) (ascii ''CANCEL'') (cc_branch c) mb None
              (put_cc a c (put_cc a ?ct st)) = (err, st')"
            using assms(3) Some inv True rc Inr by (simp add: sip_ctrans_cancel_def Let_def)
          have "ss_ctm (put_cc a c (put_cc a ?ct st)) a' = None" using assms(2) Some by auto
          from request_step [OF conjunct1 [OF c1] this req, of h]
          have q: "sip_ok st'" "called_step h None (put_cc a c (put_cc a ?ct st)) st'" by auto
          have "pending h (put_cc a c (put_cc a ?ct st)) = pending h st"
            using pending_local [OF assms(1) Some, of "put_cc a c (put_cc a ?ct st)" "Some c" h] f by simp
          with q show ?thesis by (simp add: called_step_def)
        qed
      qed
    qed
  qed
qed

text \<open>
  What happens to the client side: time passes, a due timer fires, a response arrives, the transport gives up a
  connection, the application sends a request, cancels or drops one.
\<close>

inductive client_step :: "mem_env \<Rightarrow> sip_dec \<Rightarrow> 'h sip_net \<Rightarrow> 'h sip \<Rightarrow> 'h option \<Rightarrow> 'h sip \<Rightarrow> bool" for E dec N where
  cl_time: "client_step E dec N st None (st\<lparr>ss_now := t\<rparr>)"
| cl_tmr: "ss_ctm st a = Some ct \<Longrightarrow> cc_tmr ct = Some e \<Longrightarrow> e \<le> ss_now st \<Longrightarrow> client_step E dec N st None (cc_fire_tmr a st)"
| cl_tmre: "ss_ctm st a = Some ct \<Longrightarrow> cc_tmre ct = Some e \<Longrightarrow> e \<le> ss_now st \<Longrightarrow>
    client_step E dec N st None (cc_fire_tmre N a st)"
| cl_resp: "response_handler E dec N msg st = (b, st') \<Longrightarrow> client_step E dec N st None st'"
| cl_gone: "ss_ctm st a = Some ct \<Longrightarrow> client_step E dec N st None (transport_handler err a st)"
| cl_req: "ss_ctm st a = None \<Longrightarrow> sip_ctrans_request E N a tp dst met branch mb resph st = (err, st') \<Longrightarrow>
    client_step E dec N st (if err = 0 then resph else None) st'"
| cl_cancel: "ss_ctm st a' = None \<Longrightarrow> sip_ctrans_cancel E dec N a a' st = (err, st') \<Longrightarrow> client_step E dec N st None st'"
| cl_free: "ss_ctm st a = Some ct \<Longrightarrow> client_step E dec N st None (cc_free a st)"

lemma client_step_ok:
  assumes "client_step E dec N st l st'" "sip_ok st"
  shows "sip_ok st' \<and> called_step h l st st'"
proof -
  have loc: "sip_ok u \<and> called_step h None st u" if "ss_ctm st a = Some ct" "local_step h a ct st u" for a ct u
    using that local_step_ok [OF assms(2)] local_step_called [OF assms(2)] by blast
  have k: "cc_ok ct" if "ss_ctm st a = Some ct" for a ct using assms(2) that by (auto simp: sip_ok_def)
  from assms(1) show ?thesis
  proof cases
    case cl_time
    then show ?thesis using assms(2) by (simp add: sip_ok_def called_step_def pending_def)
  next
    case (cl_tmr a ct e)
    then show ?thesis using loc [OF _ fire_tmr_step] by simp
  next
    case (cl_tmre a ct e)
    then show ?thesis using loc [OF cl_tmre(3) fire_tmre_step [OF cl_tmre(3) k]] by simp
  next
    case (cl_resp msg b)
    from assms(2) cl_resp(2) show ?thesis
    proof (cases rule: response_step)
      case 1
      then show ?thesis using assms(2) cl_resp(1) by (simp add: called_step_def)
    next
      case (2 a ct)
      then show ?thesis using loc [OF 2(1) 2(2)] cl_resp(1) by simp
    qed
  next
    case (cl_gone a ct err)
    then show ?thesis using loc [OF _ transport_handler_step] by simp
  next
    case (cl_req a tp dst met branch mb resph err)
    then show ?thesis using request_step [OF assms(2) cl_req(2,3), of h] by simp
  next
    case (cl_cancel a' a err)
    then show ?thesis using cancel_step [OF assms(2) cl_cancel(2,3), of h] by simp
  next
    case (cl_free a ct)
    then show ?thesis using loc [OF _ release_step] by simp
  qed
qed

interpretation cl: handler_layer "client_step E dec N" resps pending final_resp sip_ok for E dec N
proof unfold_locales
  fix st l st' assume s: "client_step E dec N st l st'" "sip_ok st"
  show "sip_ok st'" using client_step_ok [OF s, of undefined] by blast
  fix h show "resps h st' = resps h st \<and> pending h st' \<le> pending h st + (if l = Some h then 1 else 0) \<or>
      (\<exists>e. resps h st' = resps h st @ [e] \<and> 0 < pending h st \<and>
        pending h st' = pending h st - (if final_resp e then 1 else 0) \<and> l \<noteq> Some h)"
    using client_step_ok [OF s, of h] unfolding called_step_def by blast
qed

lemma sip_start_ok: "sip_ok (sip_start sw now)" "resps h (sip_start sw now) = []" "pending h (sip_start sw now) = 0"
  by (simp_all add: sip_ok_def sip_start_def resps_def pending_def)

text \<open>C1: In every run of the client side of a stack, with responses, timeouts, transport errors, cancels and other
  requests in any order, the handler of a request that was accepted is called with any number of provisional
  responses and then at most once with a final outcome, a response of 200 or more or an error; after it nothing waits
  with the handler and it is never called again.\<close>

theorem sip_client_one_final:
  assumes "runs (client_step E dec N) (sip_start sw now) ls st" "accepted h ls = 1"
  shows "(\<forall>r \<in> set (resps h st). \<not> final_resp r) \<and> pending h st \<le> 1 \<or>
    (\<exists>ps f. resps h st = ps @ [f] \<and> final_resp f \<and> (\<forall>r \<in> set ps. \<not> final_resp r) \<and> pending h st = 0)"
  using cl.answered_once [OF assms(1) sip_start_ok, of h] assms(2) by (simp add: cl.answered_def)

text \<open>C6: What holds of every client transaction in every run: its state fits its method, a timer runs unless it is an
  INVITE that was answered provisionally (which may take as long as the user likes), and it repeats its request only
  while no final response came; the table holds exactly the transactions that live, each once.\<close>

theorem sip_client_invariant:
  assumes "runs (client_step E dec N) (sip_start sw now) ls st"
  shows "distinct (ss_ctl st) \<and> (\<forall>a. (a \<in> set (ss_ctl st)) = (ss_ctm st a \<noteq> None)) \<and>
    (\<forall>a ct. ss_ctm st a = Some ct \<longrightarrow>
      (cc_tmr ct = None \<longrightarrow> cc_invite ct \<and> cc_state ct = PROCEEDING) \<and>
      (cc_invite ct \<longrightarrow> cc_state ct \<noteq> TRYING) \<and> (\<not> cc_invite ct \<longrightarrow> cc_state ct \<noteq> CALLING) \<and>
      (cc_tmre ct \<noteq> None \<longrightarrow> cc_state ct \<noteq> COMPLETED))"
  using cl.runs_inv [OF assms sip_start_ok(1)] by (auto simp: sip_ok_def cc_ok_def)

subsection \<open>When requests are repeated\<close>

text \<open>The earlier of the two timers of the transaction expires and fires.\<close>

definition cc_run :: "'h sip_net \<Rightarrow> addr \<Rightarrow> 'h sip \<Rightarrow> 'h sip" where
  "cc_run N a st = (case ss_ctm st a of
     None \<Rightarrow> st
   | Some ct \<Rightarrow> (case (cc_tmr ct, cc_tmre ct) of
       (Some e, Some r) \<Rightarrow> if r \<le> e then cc_fire_tmre N a (st\<lparr>ss_now := r\<rparr>) else cc_fire_tmr a (st\<lparr>ss_now := e\<rparr>)
     | (Some e, None) \<Rightarrow> cc_fire_tmr a (st\<lparr>ss_now := e\<rparr>)
     | (None, Some r) \<Rightarrow> cc_fire_tmre N a (st\<lparr>ss_now := r\<rparr>)
     | (None, None) \<Rightarrow> st))"

text \<open>When copy number \<open>i\<close> leaves, in milliseconds after the first.\<close>

fun copy_time :: "bool \<Rightarrow> nat \<Rightarrow> nat" where
  "copy_time invite 0 = 0"
| "copy_time invite (Suc i) = copy_time invite i + (if invite then 500 * 2 ^ i else min (500 * 2 ^ i) 4000)"

definition copies_of :: "bool \<Rightarrow> nat" where "copies_of invite = (if invite then 7 else 11)"

lemma copy_time_numeral [simp]:
  "copy_time b (numeral k) = copy_time b (pred_numeral k) + (if b then 500 * 2 ^ pred_numeral k else min (500 * 2 ^ pred_numeral k) 4000)"
  by (simp add: numeral_eq_Suc)

lemma copy_times:
  "map (copy_time True) [0..<7] = [0, 500, 1500, 3500, 7500, 15500, 31500]"
  "map (copy_time False) [0..<11] = [0, 500, 1500, 3500, 7500, 11500, 15500, 19500, 23500, 27500, 31500]"
  by (simp_all add: upt_rec)

lemma copy_time_last: "copy_time True 7 = 63500" "copy_time False 11 = 35500"
  by simp_all

lemma copy_time_bound: "i < copies_of iv \<Longrightarrow> copy_time iv i \<le> 31500"
proof -
  assume "i < copies_of iv"
  then have "copy_time iv i \<in> set (map (copy_time iv) [0..<copies_of iv])" by simp
  then show ?thesis using copy_times by (cases iv) (auto simp: copies_of_def)
qed

definition copied :: "u64 \<Rightarrow> (u64 \<times> 'h sip_ev) list \<Rightarrow> addr \<Rightarrow> bool \<Rightarrow> 'h \<Rightarrow> 'h sip_ev \<Rightarrow> nat \<Rightarrow> 'h sip \<Rightarrow> bool" where
  "copied now log0 a iv h ev k st \<longleftrightarrow>
     ss_log st = log0 @ map (\<lambda>i. (now + of_nat (copy_time iv i), ev)) [0..<Suc k] \<and>
     (\<exists>ct. ss_ctm st a = Some ct \<and> cc_resph ct = Some h \<and> cc_state ct = (if iv then CALLING else TRYING) \<and>
       cc_tp ct = SIP_TRANSP_UDP \<and> ev = SeSend None SIP_TRANSP_UDP (cc_dst ct) (mbuf_rest (cc_mb ct)) \<and>
       unat (cc_txc ct) = k \<and> cc_tmr ct = Some (now + 32000) \<and>
       cc_tmre ct = Some (now + of_nat (copy_time iv (Suc k))))"

lemma later_eq:
  assumes "unat (now :: u64) + 64000 < 2 ^ 64" "x \<le> 64000" "y \<le> 64000"
  shows "now + of_nat x \<le> now + of_nat y \<longleftrightarrow> x \<le> y"
proof -
  have "unat (now + of_nat z) = unat now + z" if "z \<le> 64000" for z
  proof -
    have "unat (of_nat z :: u64) = z" using that by (simp add: unsigned_of_nat take_bit_nat_eq_self)
    then show ?thesis using that assms(1) by (simp add: unat_add_small)
  qed
  then show ?thesis using assms(2,3) by (simp add: word_le_nat_alt)
qed

lemma cc_run_again:
  assumes c: "copied now log0 a iv h ev k st" and now: "unat now + 64000 < 2 ^ 64" and k: "Suc k < copies_of iv"
    and n: "\<forall>l. N l = 0"
  shows "copied now log0 a iv h ev (Suc k) (cc_run N a st)"
proof -
  obtain ct where ct: "ss_ctm st a = Some ct" "cc_resph ct = Some h" "cc_state ct = (if iv then CALLING else TRYING)"
    "cc_tp ct = SIP_TRANSP_UDP" "ev = SeSend None SIP_TRANSP_UDP (cc_dst ct) (mbuf_rest (cc_mb ct))" "unat (cc_txc ct) = k"
    "cc_tmr ct = Some (now + of_nat 32000)" "cc_tmre ct = Some (now + of_nat (copy_time iv (Suc k)))"
    and log: "ss_log st = log0 @ map (\<lambda>i. (now + of_nat (copy_time iv i), ev)) [0..<Suc k]"
    using c by (auto simp: copied_def)
  have "copy_time iv (Suc k) \<le> 31500" by (rule copy_time_bound [OF k])
  then have le: "now + of_nat (copy_time iv (Suc k)) \<le> now + of_nat 32000"
    using later_eq [OF now, of "copy_time iv (Suc k)" 32000] by simp
  have "k < 32" using k by (simp add: copies_of_def split: if_splits)
  then have tx: "unat (cc_txc ct + 1) = Suc k" using ct(6) by (simp add: unat_word_ariths)
  have w: "cc_timeout (if iv then CALLING else TRYING) (cc_txc ct + 1) = Some (if iv then 500 * 2 ^ Suc k else min (500 * 2 ^ Suc k) 4000)"
    unfolding cc_timeout_def tx by (simp add: SIP_T1_def SIP_T2_def)
  let ?t = "now + of_nat (copy_time iv (Suc k))"
  have "copied now log0 a iv h ev (Suc k) (cc_fire_tmre N a (st\<lparr>ss_now := ?t\<rparr>))"
    unfolding copied_def cc_fire_tmre_def retransmit_handler_def Let_def
    using ct log w n tx
    by (simp add: sip_transp_send_def timer_at_def add.commute add.left_commute)
  then show ?thesis using ct(1,7,8) le by (simp add: cc_run_def)
qed

lemma cc_run_end:
  assumes c: "copied now log0 a iv h ev k st" and now: "unat now + 64000 < 2 ^ 64" and k: "Suc k = copies_of iv"
  shows "ss_ctm (cc_run N a st) a = None \<and> ss_log (cc_run N a st) =
    log0 @ map (\<lambda>i. (now + of_nat (copy_time iv i), ev)) [0..<Suc k] @ [(now + 32000, SeResp h ETIMEDOUT None)]"
proof -
  obtain ct where ct: "ss_ctm st a = Some ct" "cc_resph ct = Some h" "cc_state ct = (if iv then CALLING else TRYING)"
    "cc_tmr ct = Some (now + of_nat 32000)" "cc_tmre ct = Some (now + of_nat (copy_time iv (Suc k)))"
    and log: "ss_log st = log0 @ map (\<lambda>i. (now + of_nat (copy_time iv i), ev)) [0..<Suc k]"
    using c by (auto simp: copied_def)
  have "32000 < copy_time iv (Suc k)" "copy_time iv (Suc k) \<le> 64000"
    unfolding k using copy_time_last by (cases iv; simp add: copies_of_def)+
  then have "\<not> now + of_nat (copy_time iv (Suc k)) \<le> now + of_nat 32000"
    using later_eq [OF now, of "copy_time iv (Suc k)" 32000] by simp
  then have "cc_run N a st = cc_fire_tmr a (st\<lparr>ss_now := now + of_nat 32000\<rparr>)"
    using ct(1,4,5) by (simp add: cc_run_def)
  then show ?thesis using ct log
    by (cases iv) (simp_all add: cc_fire_tmr_def tmr_handler_def terminate_def call_resph_def)
qed

lemma cc_run_all:
  assumes "copied now log0 a iv h ev 0 st" "unat now + 64000 < 2 ^ 64" "\<forall>l. N l = 0"
  shows "ss_ctm ((cc_run N a ^^ copies_of iv) st) a = None \<and> ss_log ((cc_run N a ^^ copies_of iv) st) =
    log0 @ map (\<lambda>i. (now + of_nat (copy_time iv i), ev)) [0..<copies_of iv] @ [(now + 32000, SeResp h ETIMEDOUT None)]"
proof -
  obtain m where m: "copies_of iv = Suc m" by (cases iv) (auto simp: copies_of_def)
  have "copied now log0 a iv h ev k ((cc_run N a ^^ k) st)" if "k \<le> m" for k
    using that
  proof (induction k)
    case (Suc k)
    then show ?case using cc_run_again [OF Suc.IH assms(2) _ assms(3)] m by simp
  qed (simp add: assms(1))
  then have "copied now log0 a iv h ev m ((cc_run N a ^^ m) st)" by simp
  from cc_run_end [OF this assms(2) m [symmetric], of N] m show ?thesis by simp
qed

text \<open>C2: The retransmissions of a request over UDP that nobody answers, the timers A, B, E and F of RFC 3261: an INVITE
  leaves 7 times, at 0, 500, 1500, 3500, 7500, 15500 and 31500 milliseconds, any other request 11 times, at 0, 500, 1500,
  3500 and from then on every 4 seconds up to 31500; all copies are the same; after 32 seconds the handler is called
  once, with \<^verbatim>\<open>ETIMEDOUT\<close>, and the transaction is gone.\<close>

theorem sip_request_schedule:
  assumes "alloc_total E" "\<forall>l. N l = 0" "unat (ss_now st) + 64000 < 2 ^ 64"
  shows "\<exists>st1. sip_ctrans_request E N a SIP_TRANSP_UDP dst met branch mb (Some h) st = (0, st1) \<and>
    (let iv = (met = ascii ''INVITE''); n = copies_of iv in
      ss_log ((cc_run N a ^^ n) st1) = ss_log st @
        map (\<lambda>i. (ss_now st + of_nat (copy_time iv i), SeSend None SIP_TRANSP_UDP dst (mbuf_rest mb))) [0..<n] @
        [(ss_now st + 32000, SeResp h ETIMEDOUT None)] \<and>
      ss_ctm ((cc_run N a ^^ n) st1) a = None)"
proof -
  let ?iv = "met = ascii ''INVITE''"
  let ?ev = "SeSend None SIP_TRANSP_UDP dst (mbuf_rest mb)"
  have al: "can_alloc E sizeof_sip_ctrans" using assms(1) by (simp add: alloc_total_def sizeof_sip_ctrans_def size_mod_def)
  obtain st1 where r: "sip_ctrans_request E N a SIP_TRANSP_UDP dst met branch mb (Some h) st = (0, st1)"
    "copied (ss_now st) (ss_log st) a ?iv h ?ev 0 st1"
    using al assms(2)
    by (simp add: sip_ctrans_request_def Let_def sip_transp_send_def copied_def sip_transp_reliable_def timer_at_def
        SIP_T1_def add.commute)
  from cc_run_all [OF r(2) assms(3,2)] r(1) show ?thesis by (auto simp: Let_def)
qed

theorem sip_request_schedule_witness:
  "\<exists>st1. sip_ctrans_request ideal_env (\<lambda>_. 0) 1 SIP_TRANSP_UDP (sa_init AF_UNSPEC) (ascii ''INVITE'') (ascii ''z9hG4bK1'') mbuf_init
      (Some (3 :: nat)) (sip_start None 1000) = (0, st1) \<and>
    map fst (ss_log ((cc_run (\<lambda>_. 0) 1 ^^ 7) st1)) = [1000, 1500, 2500, 4500, 8500, 16500, 32500, 33000]"
proof -
  have E: "alloc_total ideal_env" "\<forall>l. (\<lambda>_. 0 :: err) l = 0" "unat (ss_now (sip_start None 1000)) + 64000 < 2 ^ 64"
    by (simp_all add: sip_start_def alloc_total_ideal)
  show ?thesis
    using sip_request_schedule [OF E(1) E(2) E(3), of 1 "sa_init AF_UNSPEC" "ascii ''INVITE''" "ascii ''z9hG4bK1''" mbuf_init "3 :: nat"]
    unfolding Let_def copies_of_def by (auto simp: sip_start_def comp_def upt_rec)
qed

subsection \<open>The ACK of a refused INVITE\<close>

text \<open>The request that RFC 3261 (sections 9.1 and 17.1.1.3) asks for.\<close>

definition header :: "string \<Rightarrow> u8 list \<Rightarrow> u8 list" where
  "header name val = ascii name @ ascii '': '' @ val @ crlf"

definition copy_text :: "u8 list \<Rightarrow> sip_msg \<Rightarrow> sip_msg option \<Rightarrow> c_string \<Rightarrow> u8 list" where
  "copy_text met req resp sw =
     met @ ascii '' '' @ pl_bytes (mg_ruri req) @ ascii '' SIP/2.0'' @ crlf @
     header ''Via'' (pl_bytes (mg_via_val req)) @ header ''Max-Forwards'' (ascii ''70'') @
     concat (map (\<lambda>r. header ''Route'' (pl_bytes r)) (mg_routes req)) @
     header ''To'' (pl_bytes (case resp of Some r \<Rightarrow> mg_to_val r | None \<Rightarrow> mg_to_val req)) @
     header ''From'' (pl_bytes (mg_from_val req)) @ header ''Call-ID'' (pl_bytes (mg_callid req)) @
     header ''CSeq'' (fmt_u (mg_cseq_num req) @ ascii '' '' @ met) @
     (case sw of Some s \<Rightarrow> header ''User-Agent'' s | None \<Rightarrow> []) @
     header ''Content-Length'' (ascii ''0'') @ crlf"

lemma copy_text_lines:
  "copy_text met req resp sw = concat (request_lines1 met req) @
     concat (map (\<lambda>r. ascii ''Route: '' @ pl_bytes r @ crlf) (mg_routes req)) @ concat (request_lines2 met req resp sw)"
proof -
  have "concat (map (\<lambda>r. header ''Route'' (pl_bytes r)) rs) = concat (map (\<lambda>r. ascii ''Route: '' @ pl_bytes r @ crlf) rs)" for rs
    by (simp add: header_def ascii_def)
  then show ?thesis
    by (cases resp; cases sw) (simp_all add: copy_text_def request_lines1_def request_lines2_def header_def ascii_def)
qed

lemma puts_lines: "alloc_total E \<Longrightarrow> puts (put_lines E ls) (concat ls)"
proof (induction ls)
  case (Cons l ls)
  have "puts (State_Monad.bind (put_lines E ls) (\<lambda>e'. State_Monad.return (0 OR e'))) (concat ls @ [])"
    by (rule puts_bind [OF Cons.IH [OF Cons.prems]]) (simp add: puts_return)
  then show ?case using puts_bind [OF puts_mem [OF Cons.prems], where xs = l] by simp
qed (simp add: puts_return)

lemma puts_routes: "alloc_total E \<Longrightarrow> puts (put_routes E rs) (concat (map (\<lambda>r. ascii ''Route: '' @ pl_bytes r @ crlf) rs))"
proof (induction rs)
  case (Cons r rs)
  have "puts (put_routes E (r # rs)) ((ascii ''Route: '' @ pl_bytes r @ crlf) @ concat (map (\<lambda>r. ascii ''Route: '' @ pl_bytes r @ crlf) rs))"
    unfolding put_routes.simps by (rule puts_bind [OF puts_mem [OF Cons.prems]]) (simp add: Cons)
  then show ?case by simp
qed (simp add: puts_return)

lemma request_copy_run:
  assumes E: "alloc_total E" and len: "length (copy_text met req resp sw) < size_mod"
    and req: "cc_req ct = Some req \<or> cc_req ct = None \<and> dec (mbuf_rest (cc_mb ct)) = Inr (req, n)"
  shows "\<exists>mb ct'. request_copy E dec sw ct met resp = (Inr mb, ct') \<and> mbuf_rest mb = copy_text met req resp sw \<and> cc_req ct' = Some req"
proof -
  obtain mb where mb: "mbuf_alloc E 1024 = Some mb" "mbuf_wf mb" "mb_end mb = 0" "mb_pos mb = 0"
    using mbuf_alloc_run [OF E, of 1024] by (auto simp: size_mod_def)
  let ?m = "do { e1 \<leftarrow> put_lines E (request_lines1 met req);
               e2 \<leftarrow> put_routes E (mg_routes req);
               e3 \<leftarrow> put_lines E (request_lines2 met req resp sw);
               State_Monad.return (e1 OR e2 OR e3) }"
  have "puts ?m (concat (request_lines1 met req) @ concat (map (\<lambda>r. ascii ''Route: '' @ pl_bytes r @ crlf) (mg_routes req)) @
      concat (request_lines2 met req resp sw) @ [])"
    by (rule puts_bind puts_lines puts_routes puts_return E | simp)+
  then have p: "puts ?m (copy_text met req resp sw)" by (simp add: copy_text_lines)
  obtain mb' where r: "run_state ?m mb = (0, mb')" "put_at mb (copy_text met req resp sw) mb'"
    using putsD [OF p mb(2)] mb(4) len by auto
  have "copy_text met req resp sw \<noteq> []" by (simp add: copy_text_def crlf_def)
  from put_at_rest(2) [OF mb(2) _ r(2) this] mb have "mbuf_rest (mb'\<lparr>mb_pos := 0\<rparr>) = copy_text met req resp sw" by simp
  then show ?thesis using req mb(1) r(1)
    by (auto simp: request_copy_def Let_def)
qed

text \<open>C3: A final response of 300 or more to an INVITE over UDP is acknowledged by the transaction itself: the ACK that leaves
  has the method ACK, the request line, Via, Route, From, Call-ID and sequence number of the INVITE and the To of the
  response; the application is told once; every later final response is acknowledged with the very same bytes and the
  application hears nothing of it, until 32 seconds later the transaction goes silently.\<close>

theorem sip_invite_acknowledged:
  assumes "alloc_total E" "\<forall>l. N l = 0"
    and ct: "ss_ctm st a = Some ct" "cc_invite ct" "cc_state ct = CALLING \<or> cc_state ct = PROCEEDING" "cc_tp ct = SIP_TRANSP_UDP"
      "cc_resph ct = Some h" "find_cc msg st = Some a" "300 \<le> mg_scode msg"
    and req: "dec (mbuf_rest (cc_mb ct)) = Inr (req, n)" "cc_req ct = None"
    and ack: "ack = SeSend None SIP_TRANSP_UDP (cc_dst ct) (copy_text (ascii ''ACK'') req (Some msg) (ss_software st))"
      "length (copy_text (ascii ''ACK'') req (Some msg) (ss_software st)) < size_mod"
  shows "\<exists>st1 ct1. response_handler E dec N msg st = (True, st1) \<and> ss_ctm st1 a = Some ct1 \<and> cc_state ct1 = COMPLETED \<and>
    ss_log st1 = ss_log st @ [(ss_now st, ack), (ss_now st, SeResp h 0 (Some msg))] \<and>
    cc_tmr ct1 = Some (of_nat 32000 + ss_now st) \<and>
    (\<forall>msg' t. find_cc msg' (st1\<lparr>ss_now := t\<rparr>) = Some a \<and> 300 \<le> mg_scode msg' \<longrightarrow>
       response_handler E dec N msg' (st1\<lparr>ss_now := t\<rparr>) = (True, sip_note ack (st1\<lparr>ss_now := t\<rparr>))) \<and>
    (\<forall>t. cc_fire_tmr a (st1\<lparr>ss_now := t\<rparr>) = cc_free a (st1\<lparr>ss_now := t\<rparr>))"
proof -
  let ?c = "(if cc_state ct = CALLING then ct\<lparr>cc_tmr := None, cc_tmre := None\<rparr> else ct)\<lparr>cc_state := COMPLETED\<rparr>"
  have "cc_req ?c = None" "mbuf_rest (cc_mb ?c) = mbuf_rest (cc_mb ct)" using req(2) by simp_all
  then obtain mb c where rc: "request_copy E dec (ss_software st) ?c (ascii ''ACK'') (Some msg) = (Inr mb, c)"
    "mbuf_rest mb = copy_text (ascii ''ACK'') req (Some msg) (ss_software st)"
    using request_copy_run [OF assms(1) ack(2), of ?c dec n] req(1) by metis
  note f = request_copy_frame [OF rc(1)]
  let ?d = "c\<lparr>cc_mb_ack := Some mb, cc_tmr := timer_at COMPLETE_WAIT st\<rparr>"
  have d: "cc_invite ?d" "cc_state ?d = COMPLETED" "cc_tp ?d = SIP_TRANSP_UDP" "cc_dst ?d = cc_dst ct" "cc_resph ?d = Some h"
    using f ct by (auto split: if_splits)
  have s: "\<not> mg_scode msg < 200" "\<not> mg_scode msg < 300" using ct(7) by (auto simp: not_less elim: order_trans [rotated])
  let ?s = "put_cc a ?d (sip_note (SeResp h 0 (Some msg)) (sip_note ack (put_cc a (c\<lparr>cc_mb_ack := Some mb\<rparr>) st)))"
  have r: "response_handler E dec N msg st = (True, ?s)"
    using ct s rc f assms(2) ack(1)
    by (auto simp: response_handler_def invite_response_def Let_def sip_send_def sip_transp_send_def call_resph_def timer_at_def
        sip_transp_reliable_def)
  have later: "response_handler E dec N msg' (?s\<lparr>ss_now := t\<rparr>) = (True, sip_note ack (?s\<lparr>ss_now := t\<rparr>))"
    if "find_cc msg' (?s\<lparr>ss_now := t\<rparr>) = Some a" "300 \<le> mg_scode msg'" for msg' t
  proof -
    have "\<not> mg_scode msg' < 300" using that(2) by (simp add: not_less)
    then show ?thesis using that(1) d assms(2) rc(2) ack(1)
      by (simp add: response_handler_def invite_response_def Let_def sip_send_def sip_transp_send_def)
  qed
  show ?thesis
  proof (intro exI conjI allI impI)
    show "response_handler E dec N msg st = (True, ?s)" by (rule r)
    show "ss_ctm ?s a = Some ?d" "cc_state ?d = COMPLETED" using d by simp_all
    show "cc_tmr ?d = Some (of_nat 32000 + ss_now st)" by (simp add: timer_at_def COMPLETE_WAIT_def)
  next
    fix msg' t assume "find_cc msg' (?s\<lparr>ss_now := t\<rparr>) = Some a \<and> 300 \<le> mg_scode msg'"
    then show "response_handler E dec N msg' (?s\<lparr>ss_now := t\<rparr>) = (True, sip_note ack (?s\<lparr>ss_now := t\<rparr>))" using later by blast
  next
    fix t show "cc_fire_tmr a (?s\<lparr>ss_now := t\<rparr>) = cc_free a (?s\<lparr>ss_now := t\<rparr>)"
      using d(2) by (simp add: cc_fire_tmr_def tmr_handler_def terminate_def cc_free_def put_cc_def)
  qed simp
qed

definition sample_msg :: "u16 \<Rightarrow> sip_msg" where
  "sample_msg code = \<lparr>mg_met = Some (ascii ''INVITE''), mg_ruri = Some (ascii ''sip:b@x''), mg_scode = code,
     mg_via_val = Some (ascii ''SIP/2.0/UDP a;branch=z9''), mg_branch = Some (ascii ''z9''), mg_sentby = Some (ascii ''a''),
     mg_to_val = Some (ascii ''<sip:b@x>''), mg_to_tag = None, mg_from_val = Some (ascii ''<sip:a@x>''),
     mg_from_tag = Some (ascii ''1''), mg_callid = Some (ascii ''c''), mg_cseq_num = 1, mg_cseq_met = Some (ascii ''INVITE''),
     mg_routes = [], mg_sock = None, mg_tag = 7, mg_tp = SIP_TRANSP_UDP\<rparr>"

definition sample_call :: "nat sip_ctrans" where
  "sample_call = \<lparr>cc_dst = sa_init AF_UNSPEC, cc_tmr = Some 32000, cc_tmre = Some 500, cc_mb = mbuf_init, cc_mb_ack = None,
     cc_req = None, cc_met = ascii ''INVITE'', cc_branch = ascii ''z9'', cc_resph = Some 3, cc_tp = SIP_TRANSP_UDP,
     cc_state = CALLING, cc_txc = 0, cc_invite = True\<rparr>"

definition sample_stack :: "nat sip" where
  "sample_stack = (sip_start None 0)\<lparr>ss_ctl := [1], ss_ctm := [1 \<mapsto> sample_call]\<rparr>"

lemma length_ascii [simp]: "length (ascii s) = length s"
  by (simp add: ascii_def)

lemma length_fmt_1: "length (fmt_u 1) = 1"
  by (simp add: fmt_u_def local_itoa_def itoa_step)

theorem sip_invite_acknowledged_witness:
  "\<exists>st1. response_handler ideal_env (\<lambda>_. Inr (sample_msg 0, 0)) (\<lambda>_. 0) (sample_msg 486) sample_stack = (True, st1) \<and>
     resps 3 st1 = [(0, Some (sample_msg 486))] \<and> length (ss_log st1) = 2"
proof -
  have f: "find_cc (sample_msg 486) sample_stack = Some 1" "ss_ctm sample_stack 1 = Some sample_call"
    by (simp_all add: find_cc_def sample_stack_def sample_msg_def sample_call_def cmp_handler_def pl_strcmp_def pl_set_str_def pl_cmp_def)
  have c: "cc_invite sample_call" "cc_state sample_call = CALLING \<or> cc_state sample_call = PROCEEDING"
    "cc_tp sample_call = SIP_TRANSP_UDP" "cc_resph sample_call = Some 3" "cc_req sample_call = None"
    by (simp_all add: sample_call_def)
  have len: "length (copy_text (ascii ''ACK'') (sample_msg 0) (Some (sample_msg 486)) (ss_software sample_stack)) < size_mod"
    by (simp add: copy_text_def header_def sample_msg_def pl_bytes_def crlf_def length_fmt_1
        sample_stack_def sip_start_def size_mod_def)
  have code: "300 \<le> mg_scode (sample_msg 486)" by (simp add: sample_msg_def)
  obtain st1 ct1 ack where r: "response_handler ideal_env (\<lambda>_. Inr (sample_msg 0, 0)) (\<lambda>_. 0) (sample_msg 486) sample_stack = (True, st1)"
    "ss_log st1 = ss_log sample_stack @ [(ss_now sample_stack, ack), (ss_now sample_stack, SeResp 3 0 (Some (sample_msg 486)))]"
    "ack = SeSend None SIP_TRANSP_UDP (cc_dst sample_call) (copy_text (ascii ''ACK'') (sample_msg 0) (Some (sample_msg 486)) (ss_software sample_stack))"
    using sip_invite_acknowledged [OF alloc_total_ideal, of "\<lambda>_. 0" sample_stack 1 sample_call 3 "sample_msg 486"
        "\<lambda>_. Inr (sample_msg 0, 0)" "sample_msg 0" 0, OF _ f(2) c(1-4) f(1) code _ c(5) refl len] by auto
  then show ?thesis by (simp add: resps_def) (simp add: sample_stack_def sip_start_def)
qed

lemma sample_run:
  obtains st where "runs (client_step ideal_env (\<lambda>_. Inr (sample_msg 0, 0)) (\<lambda>_. 0)) (sip_start None 0) [Some (3 :: nat)] st"
    "resps 3 st = []"
proof -
  obtain err st where r: "sip_ctrans_request ideal_env (\<lambda>_. 0) 1 SIP_TRANSP_UDP (sa_init AF_UNSPEC) (ascii ''INVITE'') (ascii ''z9'')
      mbuf_init (Some (3 :: nat)) (sip_start None 0) = (err, st)" by (rule prod.exhaust)
  have e: "err = 0" "resps 3 st = []" using r
    by (auto simp: sip_ctrans_request_def sip_transp_send_def Let_def ideal_env_def resps_def put_cc_def sip_note_def sip_start_def
        split: if_splits)
  have "ss_ctm (sip_start None 0 :: nat sip) 1 = None" by (simp add: sip_start_def)
  from client_step.cl_req [OF this r] e(1)
  have "client_step ideal_env (\<lambda>_. Inr (sample_msg 0, 0)) (\<lambda>_. 0) (sip_start None 0) (Some 3) st" by simp
  then have "runs (client_step ideal_env (\<lambda>_. Inr (sample_msg 0, 0)) (\<lambda>_. 0)) (sip_start None 0) ([] @ [Some 3]) st"
    by (rule runs_snoc [OF runs_nil])
  then show ?thesis using that e(2) by simp
qed

theorem sip_client_one_final_witness:
  "\<exists>st. runs (client_step ideal_env (\<lambda>_. Inr (sample_msg 0, 0)) (\<lambda>_. 0)) (sip_start None 0) [Some (3 :: nat)] st \<and>
     pending 3 st \<le> 1 \<and> (\<forall>r \<in> set (resps 3 st). \<not> final_resp r)"
proof (rule sample_run)
  fix st assume run: "runs (client_step ideal_env (\<lambda>_. Inr (sample_msg 0, 0)) (\<lambda>_. 0)) (sip_start None 0) [Some (3 :: nat)] st"
    "resps 3 st = []"
  from sip_client_one_final [OF run(1), of 3] run show ?thesis by (auto simp: accepted_def)
qed

theorem sip_client_invariant_witness:
  "\<exists>st. runs (client_step ideal_env (\<lambda>_. Inr (sample_msg 0, 0)) (\<lambda>_. 0)) (sip_start None 0) [Some (3 :: nat)] st \<and> distinct (ss_ctl st)"
proof (rule sample_run)
  fix st assume run: "runs (client_step ideal_env (\<lambda>_. Inr (sample_msg 0, 0)) (\<lambda>_. 0)) (sip_start None 0) [Some (3 :: nat)] st"
  from sip_client_invariant [OF this] run show ?thesis by blast
qed

end
