(* ===== verification/SipStrans.thy ===== *)
theory SipStrans
  imports SipCtrans
begin

text \<open>
  SIP server transactions: \<^verbatim>\<open>src/sip/strans.c\<close>, the machines of RFC 3261 section 17.2 (with the accepted state of
  RFC 6026). What \<^verbatim>\<open>sip_reply\<close> sends without a transaction is the entry \<open>SeReply\<close> of the log.
\<close>

subsection \<open>Operations\<close>

definition put_sv :: "addr \<Rightarrow> 'h sip_strans \<Rightarrow> 'h sip \<Rightarrow> 'h sip" where
  "put_sv a t st = st\<lparr>ss_stm := (ss_stm st)(a \<mapsto> t)\<rparr>"

text \<open>The destructor: out of both tables, both timers cancelled.\<close>

definition sv_free :: "addr \<Rightarrow> 'h sip \<Rightarrow> 'h sip" where
  "sv_free a st = st\<lparr>ss_stl := remove1 a (ss_stl st), ss_stm := (ss_stm st)(a := None)\<rparr>"

definition strans_cmp :: "sip_msg \<Rightarrow> sip_msg \<Rightarrow> bool" where
  "strans_cmp msg1 msg2 \<longleftrightarrow>
     (if pl_cmp (mg_branch msg1) (mg_branch msg2) \<noteq> 0 then False
      else if pl_cmp (mg_sentby msg1) (mg_sentby msg2) \<noteq> 0 then False
      else True)"

definition sv_cmp_handler :: "sip_msg \<Rightarrow> 'h sip_strans \<Rightarrow> bool" where
  "sv_cmp_handler msg t \<longleftrightarrow> strans_cmp (sv_msg t) msg \<and> pl_cmp (mg_cseq_met (sv_msg t)) (mg_cseq_met msg) = 0"

definition cmp_ack_handler :: "sip_msg \<Rightarrow> 'h sip_strans \<Rightarrow> bool" where
  "cmp_ack_handler msg t \<longleftrightarrow>
     strans_cmp (sv_msg t) msg \<and> pl_strcmp (mg_cseq_met (sv_msg t)) (Some (ascii ''INVITE'')) = 0"

definition cmp_cancel_handler :: "sip_msg \<Rightarrow> 'h sip_strans \<Rightarrow> bool" where
  "cmp_cancel_handler msg t \<longleftrightarrow>
     strans_cmp (sv_msg t) msg \<and> pl_strcmp (mg_cseq_met (sv_msg t)) (Some (ascii ''CANCEL'')) \<noteq> 0"

definition cmp_merge_handler :: "sip_msg \<Rightarrow> 'h sip_strans \<Rightarrow> bool" where
  "cmp_merge_handler msg t \<longleftrightarrow> (let m = sv_msg t in
     pl_cmp (mg_cseq_met m) (mg_cseq_met msg) = 0 \<and> mg_cseq_num m = mg_cseq_num msg \<and>
     pl_cmp (mg_callid m) (mg_callid msg) = 0 \<and> pl_cmp (mg_from_tag m) (mg_from_tag msg) = 0 \<and>
     pl_cmp (mg_ruri m) (mg_ruri msg) = 0)"

definition find_sv :: "('h sip_strans \<Rightarrow> bool) \<Rightarrow> 'h sip \<Rightarrow> addr option" where
  "find_sv P st = find (\<lambda>a. case ss_stm st a of None \<Rightarrow> False | Some t \<Rightarrow> P t) (ss_stl st)"

definition sv_tmr_handler :: "addr \<Rightarrow> 'h sip \<Rightarrow> 'h sip" where
  "sv_tmr_handler a st = sv_free a st"

definition sv_retransmit_handler :: "'h sip_net \<Rightarrow> addr \<Rightarrow> 'h sip \<Rightarrow> 'h sip" where
  "sv_retransmit_handler N a st = (case ss_stm st a of
     None \<Rightarrow> st
   | Some t \<Rightarrow> (let st = snd (sip_send N (mg_sock (sv_msg t)) (mg_tp (sv_msg t)) (sv_dst t) (sv_mb t) st);
                    t = t\<lparr>sv_txc := sv_txc t + 1\<rparr>
       in put_sv a (t\<lparr>sv_tmrg := timer_at (min (SIP_T1 * 2 ^ unat (sv_txc t)) SIP_T2) st\<rparr>) st))"

text \<open>The result says whether the message was taken; otherwise the next listener gets it.\<close>

definition ack_handler :: "sip_msg \<Rightarrow> 'h sip \<Rightarrow> bool \<times> 'h sip" where
  "ack_handler msg st = (case find_sv (cmp_ack_handler msg) st of
     None \<Rightarrow> (False, st)
   | Some a \<Rightarrow> (let t = the (ss_stm st a) in
       case sv_state t of
         S_ACCEPTED \<Rightarrow> (False, st)
       | S_COMPLETED \<Rightarrow>
           (True, if sip_transp_reliable (mg_tp (sv_msg t)) then sv_free a st
                  else put_sv a (t\<lparr>sv_tmr := timer_at SIP_T4 st, sv_tmrg := None, sv_state := S_CONFIRMED\<rparr>) st)
       | _ \<Rightarrow> (True, st)))"

definition cancel_handler :: "sip_msg \<Rightarrow> 'h sip \<Rightarrow> bool \<times> 'h sip" where
  "cancel_handler msg st = (case find_sv (cmp_cancel_handler msg) st of
     None \<Rightarrow> (False, st)
   | Some a \<Rightarrow> (let t = the (ss_stm st a); msg = msg\<lparr>mg_tag := mg_tag (sv_msg t)\<rparr>;
                    st = sip_note (SeReply msg 200 (ascii ''OK'')) st
       in (True, if sv_state t = S_TRYING \<or> sv_state t = S_PROCEEDING
                 then (case sv_cancelh t of None \<Rightarrow> st | Some h \<Rightarrow> sip_note (SeCancel h) st) else st)))"

definition request_handler :: "'h sip_net \<Rightarrow> sip_msg \<Rightarrow> 'h sip \<Rightarrow> bool \<times> 'h sip" where
  "request_handler N msg st =
     (if pl_strcmp (mg_met msg) (Some (ascii ''ACK'')) = 0 then ack_handler msg st
      else case find_sv (sv_cmp_handler msg) st of
        Some a \<Rightarrow> (let t = the (ss_stm st a) in
          (True, if sv_state t = S_PROCEEDING \<or> sv_state t = S_COMPLETED
                 then snd (sip_send N (mg_sock (sv_msg t)) (mg_tp (sv_msg t)) (sv_dst t) (sv_mb t) st) else st))
      | None \<Rightarrow>
          if \<not> pl_isset (mg_to_tag msg) \<and> find_sv (cmp_merge_handler msg) st \<noteq> None
          then (True, sip_note (SeReply msg 482 (ascii ''Loop Detected'')) st)
          else if pl_strcmp (mg_met msg) (Some (ascii ''CANCEL'')) = 0 then cancel_handler msg st
          else (False, st))"

definition sizeof_sip_strans :: nat where "sizeof_sip_strans = 168"

text \<open>\<open>a\<close> is what the allocator returns.\<close>

definition sip_strans_alloc :: "mem_env \<Rightarrow> addr \<Rightarrow> sip_msg \<Rightarrow> 'h option \<Rightarrow> 'h sip \<Rightarrow> (err + addr) \<times> 'h sip" where
  "sip_strans_alloc E a msg cancelh st =
     (if \<not> can_alloc E sizeof_sip_strans then (Inl ENOMEM, st)
      else (Inr a, put_sv a \<lparr>sv_tmr = None, sv_tmrg = None, sv_dst = None, sv_msg = msg, sv_mb = None, sv_cancelh = cancelh,
          sv_state = S_TRYING, sv_txc = 0, sv_invite = (pl_strcmp (mg_met msg) (Some (ascii ''INVITE'')) = 0)\<rparr>
        (st\<lparr>ss_stl := ss_stl st @ [a]\<rparr>)))"

text \<open>\<open>stp\<close> is the caller's variable, when it has one: the transaction it holds, and afterwards the one it holds then.\<close>

definition sip_strans_reply ::
  "mem_env \<Rightarrow> 'h sip_net \<Rightarrow> addr option option \<Rightarrow> addr \<Rightarrow> sip_msg \<Rightarrow> sa \<Rightarrow> u16 \<Rightarrow> mbuf \<Rightarrow> 'h sip
   \<Rightarrow> err \<times> addr option option \<times> 'h sip" where
  "sip_strans_reply E N stp anew msg dst scode mb st =
     (if scode < 200 \<and> stp = None then (EINVAL, stp, st)
      else case (case stp of Some (Some a) \<Rightarrow> (Inr a, st) | _ \<Rightarrow> sip_strans_alloc E anew msg None st) of
        (Inl err, st) \<Rightarrow> (err, stp, st)
      | (Inr a, st) \<Rightarrow> (let t = (the (ss_stm st a))\<lparr>sv_mb := Some mb, sv_dst := Some dst\<rparr>; tp = mg_tp (sv_msg t) in
          case sip_send N (mg_sock (sv_msg t)) tp (Some dst) (Some mb) (put_sv a t st) of (err, st) \<Rightarrow>
            (let stp = (case stp of None \<Rightarrow> None | Some _ \<Rightarrow> Some (if err \<noteq> 0 \<or> scode \<ge> 200 then None else Some a)) in
             if err \<noteq> 0 then (err, stp, sv_free a st)
             else (0, stp,
               if sv_invite t then
                 (if scode < 200 then put_sv a (t\<lparr>sv_state := S_PROCEEDING\<rparr>) st
                  else if scode < 300 then put_sv a (t\<lparr>sv_tmr := timer_at (64 * SIP_T1) st, sv_state := S_ACCEPTED\<rparr>) st
                  else put_sv a (t\<lparr>sv_tmr := timer_at (64 * SIP_T1) st, sv_state := S_COMPLETED,
                    sv_tmrg := (if sip_transp_reliable tp then sv_tmrg t else timer_at SIP_T1 st)\<rparr>) st)
               else
                 (if scode < 200 then put_sv a (t\<lparr>sv_state := S_PROCEEDING\<rparr>) st
                  else if \<not> sip_transp_reliable tp then
                    put_sv a (t\<lparr>sv_tmr := timer_at (64 * SIP_T1) st, sv_state := S_COMPLETED\<rparr>) st
                  else sv_free a st)))))"

subsection \<open>Timers\<close>

definition sv_fire_tmr :: "addr \<Rightarrow> 'h sip \<Rightarrow> 'h sip" where
  "sv_fire_tmr a st = (case ss_stm st a of None \<Rightarrow> st | Some t \<Rightarrow> sv_tmr_handler a (put_sv a (t\<lparr>sv_tmr := None\<rparr>) st))"

definition sv_fire_tmrg :: "'h sip_net \<Rightarrow> addr \<Rightarrow> 'h sip \<Rightarrow> 'h sip" where
  "sv_fire_tmrg N a st =
     (case ss_stm st a of None \<Rightarrow> st | Some t \<Rightarrow> sv_retransmit_handler N a (put_sv a (t\<lparr>sv_tmrg := None\<rparr>) st))"

subsection \<open>Invariant\<close>

text \<open>Until the final reply the application owns the transaction and no timer runs; from then on a timer runs that
  ends it, and a response is repeated only for an INVITE that was refused and not yet acknowledged.\<close>

definition sv_ok :: "'h sip_strans \<Rightarrow> bool" where
  "sv_ok t \<longleftrightarrow> (sv_tmr t = None \<longleftrightarrow> sv_state t = S_TRYING \<or> sv_state t = S_PROCEEDING) \<and>
     (sv_tmrg t \<noteq> None \<longrightarrow> sv_state t = S_COMPLETED \<and> sv_invite t) \<and>
     (sv_state t \<noteq> S_TRYING \<longrightarrow> sv_mb t \<noteq> None \<and> sv_dst t \<noteq> None) \<and>
     (sv_state t = S_ACCEPTED \<longrightarrow> sv_invite t)"

definition server_ok :: "'h sip \<Rightarrow> bool" where
  "server_ok st \<longleftrightarrow> distinct (ss_stl st) \<and> (\<forall>a. (a \<in> set (ss_stl st)) = (ss_stm st a \<noteq> None)) \<and>
     (\<forall>a t. ss_stm st a = Some t \<longrightarrow> sv_ok t)"

lemma put_sv_simps [simp]:
  "ss_stl (put_sv a t st) = ss_stl st" "ss_stm (put_sv a t st) = (ss_stm st)(a \<mapsto> t)"
  "ss_now (put_sv a t st) = ss_now st" "ss_log (put_sv a t st) = ss_log st"
  "ss_ctl (put_sv a t st) = ss_ctl st" "ss_ctm (put_sv a t st) = ss_ctm st"
  by (simp_all add: put_sv_def)

lemma sv_free_simps [simp]:
  "ss_stl (sv_free a st) = remove1 a (ss_stl st)" "ss_stm (sv_free a st) = (ss_stm st)(a := None)"
  "ss_now (sv_free a st) = ss_now st" "ss_log (sv_free a st) = ss_log st"
  by (simp_all add: sv_free_def)

lemma server_ok_cong:
  "ss_stl st' = ss_stl st \<Longrightarrow> ss_stm st' = ss_stm st \<Longrightarrow> server_ok st' = server_ok st"
  by (simp add: server_ok_def)

lemma server_ok_free: "server_ok st \<Longrightarrow> server_ok (sv_free a st)"
  by (auto simp: server_ok_def)

lemma server_ok_put: "server_ok st \<Longrightarrow> ss_stm st a \<noteq> None \<Longrightarrow> sv_ok t \<Longrightarrow> server_ok (put_sv a t st)"
  by (auto simp: server_ok_def)

lemma server_okD: "server_ok st \<Longrightarrow> ss_stm st a = Some t \<Longrightarrow> sv_ok t"
  by (simp add: server_ok_def)

lemma find_sv_some: "find_sv P st = Some a \<Longrightarrow> \<exists>t. ss_stm st a = Some t \<and> P t"
  by (auto simp: find_sv_def find_Some_iff split: option.splits)

lemma server_ok_now [simp]: "server_ok (st\<lparr>ss_now := t\<rparr>) = server_ok st"
  by (simp add: server_ok_def)

lemma server_ok_note [simp]: "server_ok (sip_note e st) = server_ok st"
  by (simp add: server_ok_def)

lemma server_ok_send [simp]: "server_ok (snd (sip_send N s tp d mb st)) = server_ok st"
  by (simp add: server_ok_def)

lemma fire_tmrg_ok:
  assumes "server_ok st" "ss_stm st a = Some t" "sv_tmrg t \<noteq> None"
  shows "server_ok (sv_fire_tmrg N a st)"
proof -
  have ok: "sv_ok t" by (rule server_okD [OF assms(1,2)])
  let ?st = "snd (sip_send N (mg_sock (sv_msg t)) (mg_tp (sv_msg t)) (sv_dst t) (sv_mb t) (put_sv a (t\<lparr>sv_tmrg := None\<rparr>) st))"
  have "sv_ok (t\<lparr>sv_tmrg := None\<rparr>)" using ok by (simp add: sv_ok_def)
  then have "server_ok ?st" using server_ok_put [OF assms(1)] assms(2) by simp
  moreover have "sv_ok (t\<lparr>sv_txc := n, sv_tmrg := x\<rparr>)" for x n using ok assms(3) by (auto simp: sv_ok_def)
  ultimately show ?thesis using assms(2)
    by (auto simp: sv_fire_tmrg_def sv_retransmit_handler_def Let_def intro!: server_ok_put)
qed

lemma ack_handler_ok:
  assumes "server_ok st" "ack_handler msg st = (b, st')"
  shows "server_ok st'"
proof (cases "find_sv (cmp_ack_handler msg) st")
  case None
  then show ?thesis using assms by (simp add: ack_handler_def)
next
  case (Some a)
  then obtain t where t: "ss_stm st a = Some t" "cmp_ack_handler msg t" using find_sv_some by blast
  note ok = server_okD [OF assms(1) t(1)]
  let ?t = "t\<lparr>sv_tmr := timer_at SIP_T4 st, sv_tmrg := None, sv_state := S_CONFIRMED\<rparr>"
  show ?thesis
  proof (cases "sv_state t = S_COMPLETED \<and> \<not> sip_transp_reliable (mg_tp (sv_msg t))")
    case True
    then have "sv_ok ?t" using ok by (auto simp: sv_ok_def timer_at_def)
    then show ?thesis using assms Some t True by (auto simp: ack_handler_def Let_def intro: server_ok_put)
  next
    case False
    then show ?thesis using assms Some t
      by (cases "sv_state t") (auto simp: ack_handler_def Let_def intro: server_ok_free)
  qed
qed

lemma request_handler_ok:
  assumes "server_ok st" "request_handler N msg st = (b, st')"
  shows "server_ok st'"
  using assms ack_handler_ok [OF assms(1), of msg b st']
  by (auto simp: request_handler_def cancel_handler_def Let_def split: if_splits option.splits)

lemma alloc_ok:
  assumes "server_ok st" "ss_stm st a = None" "sip_strans_alloc E a msg ch st = (r, st')"
  shows "server_ok st'" "\<And>b. r = Inr b \<Longrightarrow> b = a \<and> (\<exists>t. ss_stm st' a = Some t \<and> sv_state t = S_TRYING)"
proof -
  have "a \<notin> set (ss_stl st)" using assms(1,2) by (auto simp: server_ok_def)
  then show "server_ok st'" "\<And>b. r = Inr b \<Longrightarrow> b = a \<and> (\<exists>t. ss_stm st' a = Some t \<and> sv_state t = S_TRYING)"
    using assms by (auto simp: sip_strans_alloc_def server_ok_def sv_ok_def split: if_splits)
qed

text \<open>A reply from the owner of the transaction.\<close>

definition owned :: "addr option option \<Rightarrow> 'h sip \<Rightarrow> bool" where
  "owned stp st \<longleftrightarrow> (case stp of
     Some (Some a) \<Rightarrow> (case ss_stm st a of None \<Rightarrow> False | Some t \<Rightarrow> sv_state t = S_TRYING \<or> sv_state t = S_PROCEEDING)
   | _ \<Rightarrow> True)"

lemma reply_ok:
  assumes "server_ok st" "ss_stm st anew = None" "owned stp st"
    and r: "sip_strans_reply E N stp anew msg dst scode mb st = (err, stp', st')"
  shows "server_ok st'" "owned stp' st'"
proof -
  obtain x s where x: "(case stp of Some (Some a) \<Rightarrow> (Inr a, st) | _ \<Rightarrow> sip_strans_alloc E anew msg None st) = (x, s)"
    by (rule prod.exhaust)
  have s: "server_ok s \<and> (\<forall>a. x = Inr a \<longrightarrow> (\<exists>t. ss_stm s a = Some t \<and> (sv_state t = S_TRYING \<or> sv_state t = S_PROCEEDING)))"
    using x assms(1,3) alloc_ok [OF assms(1,2), of E msg None x s]
    by (auto simp: owned_def split: option.splits)
  have "server_ok st' \<and> owned stp' st'"
  proof (cases "scode < 200 \<and> stp = None")
    case True
    then show ?thesis using r assms by (simp add: sip_strans_reply_def)
  next
    case False
    note go = False
    show ?thesis
    proof (cases x)
      case (Inl e)
      then show ?thesis using r False x s by (auto simp: sip_strans_reply_def owned_def sip_strans_alloc_def split: option.splits if_splits)
    next
      case (Inr a)
      then obtain t where t: "ss_stm s a = Some t" "sv_state t = S_TRYING \<or> sv_state t = S_PROCEEDING" using s by blast
      let ?t = "t\<lparr>sv_mb := Some mb, sv_dst := Some dst\<rparr>"
      obtain e u where u: "sip_send N (mg_sock (sv_msg t)) (mg_tp (sv_msg t)) (Some dst) (Some mb) (put_sv a ?t s) = (e, u)"
        by (rule prod.exhaust)
      have f: "ss_stl u = ss_stl s" "ss_stm u = (ss_stm s)(a \<mapsto> ?t)"
        using transp_send_frame(5,6) [OF u [unfolded sip_send_def]] by simp_all
      have ok: "sv_ok t" using server_okD s t(1) by blast
      then have tm: "sv_tmr t = None" "sv_tmrg t = None" using t(2) by (auto simp: sv_ok_def)
      have uok: "server_ok u" using s t ok f by (auto simp: server_ok_def sv_ok_def)
      have put: "server_ok (put_sv a v u)" if "sv_ok v" for v using server_ok_put [OF uok _ that, of a] f by simp
      note free = server_ok_free [OF uok]
      let ?pr = "?t\<lparr>sv_state := S_PROCEEDING\<rparr>"
      let ?ac = "?t\<lparr>sv_tmr := timer_at (64 * SIP_T1) u, sv_state := S_ACCEPTED\<rparr>"
      let ?co = "\<lambda>g. ?t\<lparr>sv_tmr := timer_at (64 * SIP_T1) u, sv_state := S_COMPLETED, sv_tmrg := g\<rparr>"
      let ?oc = "?t\<lparr>sv_tmr := timer_at (64 * SIP_T1) u, sv_state := S_COMPLETED\<rparr>"
      have sel: "sv_msg ?t = sv_msg t" "sv_invite ?t = sv_invite t" "sv_tmrg ?t = sv_tmrg t" by simp_all
      let ?stp = "case stp of None \<Rightarrow> None | Some _ \<Rightarrow> Some (if e \<noteq> 0 \<or> 200 \<le> scode then None else Some a)"
      let ?res = "if e \<noteq> 0 then sv_free a u
          else if sv_invite t then (if scode < 200 then put_sv a ?pr u else if scode < 300 then put_sv a ?ac u
            else put_sv a (?co (if sip_transp_reliable (mg_tp (sv_msg t)) then sv_tmrg t else timer_at SIP_T1 u)) u)
          else if scode < 200 then put_sv a ?pr u
          else if \<not> sip_transp_reliable (mg_tp (sv_msg t)) then put_sv a ?oc u else sv_free a u"
      have "sip_strans_reply E N stp anew msg dst scode mb st = (e, ?stp, ?res)"
        unfolding sip_strans_reply_def if_not_P [OF go] x Inr
        by (cases "e = 0") (simp_all only: sum.case prod.case Let_def t(1) option.sel sel u refl if_True if_False simp_thms)
      then have st': "st' = ?res" and stp': "stp' = ?stp" using r by simp_all
      have ok4: "sv_ok ?pr" "sv_invite t \<Longrightarrow> sv_ok ?ac" "sv_invite t \<Longrightarrow> sv_ok (?co g)" "sv_ok ?oc" for g
        using tm by (simp_all add: sv_ok_def timer_at_def)
      have "server_ok st'" unfolding st' by (simp add: put free ok4)
      moreover have "owned stp' st'"
      proof (cases "e \<noteq> 0 \<or> 200 \<le> scode \<or> stp = None")
        case True
        then show ?thesis by (auto simp: stp' owned_def split: option.split)
      next
        case False
        then have "st' = put_sv a ?pr u" by (simp add: st' not_le)
        then show ?thesis by (auto simp: stp' owned_def split: option.split)
      qed
      ultimately show ?thesis by simp
    qed
  qed
  then show "server_ok st'" "owned stp' st'" by blast+
qed

subsection \<open>Runs of the server side\<close>

text \<open>Time passes, a due timer fires, a request arrives, the application takes a request, replies or drops what it owns.\<close>

inductive server_step :: "mem_env \<Rightarrow> 'h sip_net \<Rightarrow> 'h sip \<Rightarrow> unit option \<Rightarrow> 'h sip \<Rightarrow> bool" for E N where
  sv_time: "server_step E N st None (st\<lparr>ss_now := t\<rparr>)"
| sv_due: "ss_stm st a = Some t \<Longrightarrow> sv_tmr t = Some e \<Longrightarrow> e \<le> ss_now st \<Longrightarrow> server_step E N st None (sv_fire_tmr a st)"
| sv_dueg: "ss_stm st a = Some t \<Longrightarrow> sv_tmrg t = Some e \<Longrightarrow> e \<le> ss_now st \<Longrightarrow> server_step E N st None (sv_fire_tmrg N a st)"
| sv_recv: "request_handler N msg st = (b, st') \<Longrightarrow> server_step E N st None st'"
| sv_take: "ss_stm st a = None \<Longrightarrow> sip_strans_alloc E a msg ch st = (r, st') \<Longrightarrow> server_step E N st None st'"
| sv_repl: "ss_stm st anew = None \<Longrightarrow> owned stp st \<Longrightarrow> sip_strans_reply E N stp anew msg dst scode mb st = (err, stp', st') \<Longrightarrow>
    server_step E N st None st'"
| sv_drop: "owned (Some (Some a)) st \<Longrightarrow> server_step E N st None (sv_free a st)"

lemma server_step_ok: "server_step E N st l st' \<Longrightarrow> server_ok st \<Longrightarrow> server_ok st'"
proof (induction rule: server_step.induct)
  case (sv_due st a t e)
  have "sv_fire_tmr a st = sv_free a (put_sv a (t\<lparr>sv_tmr := None\<rparr>) st)" using sv_due(1) by (simp add: sv_fire_tmr_def sv_tmr_handler_def)
  moreover have "sv_free a (put_sv a u st) = sv_free a st" for u by (simp add: sv_free_def put_sv_def)
  ultimately show ?case using server_ok_free [OF sv_due.prems] by simp
next
  case (sv_dueg st a t e)
  then show ?case using fire_tmrg_ok by fastforce
qed (auto dest: request_handler_ok alloc_ok(1) reply_ok(1) server_ok_free)

lemma server_runs_ok: "runs (server_step E N) st ls st' \<Longrightarrow> server_ok st \<Longrightarrow> server_ok st'"
  by (induction rule: runs.induct) (auto intro: server_step_ok)

lemma server_start_ok: "server_ok (sip_start sw now)"
  by (simp add: server_ok_def sip_start_def)

text \<open>C5: What holds of every server transaction in every run, with requests, ACKs, CANCELs, replies and timeouts in any
  order: no timer runs while the application owns it, a timer runs that ends it as soon as the final reply is out, a
  response is repeated only for an INVITE that was refused and is not acknowledged, and from the first reply on there
  is a response to repeat; the tables hold exactly the transactions that live, each once.\<close>

theorem sip_server_invariant:
  assumes "runs (server_step E N) (sip_start sw now) ls st"
  shows "distinct (ss_stl st) \<and> (\<forall>a. (a \<in> set (ss_stl st)) = (ss_stm st a \<noteq> None)) \<and>
    (\<forall>a t. ss_stm st a = Some t \<longrightarrow>
      (sv_tmr t = None \<longleftrightarrow> sv_state t = S_TRYING \<or> sv_state t = S_PROCEEDING) \<and>
      (sv_tmrg t \<noteq> None \<longrightarrow> sv_state t = S_COMPLETED \<and> sv_invite t) \<and>
      (sv_state t \<noteq> S_TRYING \<longrightarrow> sv_mb t \<noteq> None \<and> sv_dst t \<noteq> None))"
  using server_runs_ok [OF assms server_start_ok] by (simp add: server_ok_def sv_ok_def)

subsection \<open>When responses are repeated\<close>

definition sv_run :: "'h sip_net \<Rightarrow> addr \<Rightarrow> 'h sip \<Rightarrow> 'h sip" where
  "sv_run N a st = (case ss_stm st a of
     None \<Rightarrow> st
   | Some t \<Rightarrow> (case (sv_tmr t, sv_tmrg t) of
       (Some e, Some r) \<Rightarrow> if r \<le> e then sv_fire_tmrg N a (st\<lparr>ss_now := r\<rparr>) else sv_fire_tmr a (st\<lparr>ss_now := e\<rparr>)
     | (Some e, None) \<Rightarrow> sv_fire_tmr a (st\<lparr>ss_now := e\<rparr>)
     | (None, Some r) \<Rightarrow> sv_fire_tmrg N a (st\<lparr>ss_now := r\<rparr>)
     | (None, None) \<Rightarrow> st))"

definition repeated :: "u64 \<Rightarrow> (u64 \<times> 'h sip_ev) list \<Rightarrow> addr \<Rightarrow> sip_msg \<Rightarrow> 'h sip_ev \<Rightarrow> nat \<Rightarrow> 'h sip \<Rightarrow> bool" where
  "repeated now log0 a msg ev k st \<longleftrightarrow>
     ss_log st = log0 @ map (\<lambda>i. (now + of_nat (copy_time False i), ev)) [0..<Suc k] \<and>
     (\<exists>t dst mb. ss_stm st a = Some t \<and> sv_state t = S_COMPLETED \<and> sv_msg t = msg \<and> sv_dst t = Some dst \<and> sv_mb t = Some mb \<and>
       ev = SeSend (mg_sock msg) SIP_TRANSP_UDP dst (mbuf_rest mb) \<and> unat (sv_txc t) = k \<and> sv_tmr t = Some (now + 32000) \<and>
       sv_tmrg t = Some (now + of_nat (copy_time False (Suc k))))"

lemma sv_run_again:
  assumes c: "repeated now log0 a msg ev k st" and now: "unat now + 64000 < 2 ^ 64" and k: "Suc k < 11"
    and n: "\<forall>l. N l = 0" and tp: "mg_tp msg = SIP_TRANSP_UDP"
  shows "repeated now log0 a msg ev (Suc k) (sv_run N a st)"
proof -
  obtain t dst mb where t: "ss_stm st a = Some t" "sv_state t = S_COMPLETED" "sv_msg t = msg" "sv_dst t = Some dst"
    "sv_mb t = Some mb" "ev = SeSend (mg_sock msg) SIP_TRANSP_UDP dst (mbuf_rest mb)" "unat (sv_txc t) = k"
    "sv_tmr t = Some (now + of_nat 32000)" "sv_tmrg t = Some (now + of_nat (copy_time False (Suc k)))"
    and log: "ss_log st = log0 @ map (\<lambda>i. (now + of_nat (copy_time False i), ev)) [0..<Suc k]"
    using c by (auto simp: repeated_def)
  have "copy_time False (Suc k) \<le> 31500" using copy_time_bound [of "Suc k" False] k by (simp add: copies_of_def)
  then have le: "now + of_nat (copy_time False (Suc k)) \<le> now + of_nat 32000"
    using later_eq [OF now, of "copy_time False (Suc k)" 32000] by simp
  have tx: "unat (sv_txc t + 1) = Suc k" using t(7) k by (simp add: unat_word_ariths)
  have w: "min (SIP_T1 * 2 ^ unat (sv_txc t + 1)) SIP_T2 = min (500 * 2 ^ Suc k) 4000"
    unfolding tx by (simp add: SIP_T1_def SIP_T2_def)
  let ?t = "now + of_nat (copy_time False (Suc k))"
  have "repeated now log0 a msg ev (Suc k) (sv_fire_tmrg N a (st\<lparr>ss_now := ?t\<rparr>))"
    unfolding repeated_def sv_fire_tmrg_def sv_retransmit_handler_def Let_def
    using t log w n tx tp
    by (simp add: sip_send_def sip_transp_send_def timer_at_def add.commute add.left_commute)
  then show ?thesis using t(1,8,9) le by (simp add: sv_run_def)
qed

lemma sv_run_end:
  assumes c: "repeated now log0 a msg ev 10 st" and now: "unat now + 64000 < 2 ^ 64"
  shows "ss_stm (sv_run N a st) a = None \<and> ss_log (sv_run N a st) =
    log0 @ map (\<lambda>i. (now + of_nat (copy_time False i), ev)) [0..<11]"
proof -
  obtain t where t: "ss_stm st a = Some t" "sv_tmr t = Some (now + of_nat 32000)"
    "sv_tmrg t = Some (now + of_nat (copy_time False (Suc 10)))"
    and log: "ss_log st = log0 @ map (\<lambda>i. (now + of_nat (copy_time False i), ev)) [0..<Suc 10]"
    using c by (auto simp: repeated_def)
  have c11: "copy_time False (Suc 10) = 35500" using copy_time_last(2) by simp
  have "\<not> now + of_nat 35500 \<le> now + of_nat 32000" using later_eq [OF now, of 35500 32000] by simp
  then have "sv_run N a st = sv_fire_tmr a (st\<lparr>ss_now := now + of_nat 32000\<rparr>)"
    using t c11 by (simp add: sv_run_def del: copy_time.simps)
  then show ?thesis using t(1) log by (simp add: sv_fire_tmr_def sv_tmr_handler_def)
qed

lemma reply_refused:
  assumes t: "ss_stm st a = Some t" "sv_invite t" "sv_txc t = 0" "mg_tp (sv_msg t) = SIP_TRANSP_UDP" and n: "\<forall>l. N l = 0"
    and code: "300 \<le> scode"
  shows "\<exists>st1. sip_strans_reply E N (Some (Some a)) anew msg dst scode mb st = (0, Some None, st1) \<and>
    repeated (ss_now st) (ss_log st) a (sv_msg t) (SeSend (mg_sock (sv_msg t)) SIP_TRANSP_UDP dst (mbuf_rest mb)) 0 st1"
proof -
  have s: "\<not> scode < 200" "\<not> scode < 300" "200 \<le> scode" using code by (auto simp: not_less elim: order_trans [rotated])
  then show ?thesis using t n
    by (simp add: sip_strans_reply_def Let_def sip_send_def sip_transp_send_def repeated_def timer_at_def SIP_T1_def
        sip_transp_reliable_def add.commute)
qed

lemma sv_run_some:
  assumes "repeated now log0 a msg ev 0 st" "unat now + 64000 < 2 ^ 64" "\<forall>l. N l = 0" "mg_tp msg = SIP_TRANSP_UDP" "k \<le> 10"
  shows "repeated now log0 a msg ev k ((sv_run N a ^^ k) st)"
  using assms(5)
proof (induction k)
  case (Suc k)
  then show ?case using sv_run_again [OF Suc.IH assms(2) _ assms(3,4)] by simp
qed (simp add: assms(1))

text \<open>C4: A refused INVITE over UDP, the timers G and H: the final response leaves when the application replies and is
  repeated after 500, 1500, 3500 milliseconds and then every 4 seconds up to 31500, 11 copies of the same message, and
  the transaction is gone after 32 seconds; the caller's variable is cleared at the reply. When the ACK comes after
  any number of copies no further copy leaves: the transaction takes the ACK and later ACKs, swallows repeated
  requests, and is gone 5 seconds after the ACK.\<close>

theorem sip_response_schedule:
  assumes "ss_stm st a = Some t" "sv_invite t" "sv_txc t = 0" "mg_tp (sv_msg t) = SIP_TRANSP_UDP"
    and "\<forall>l. N l = 0" "300 \<le> scode" "unat (ss_now st) + 64000 < 2 ^ 64"
  shows "\<exists>st1. sip_strans_reply E N (Some (Some a)) anew msg dst scode mb st = (0, Some None, st1) \<and>
    (let copy = SeSend (mg_sock (sv_msg t)) SIP_TRANSP_UDP dst (mbuf_rest mb);
         sent = (\<lambda>n. ss_log st @ map (\<lambda>i. (ss_now st + of_nat (copy_time False i), copy)) [0..<n]) in
      ss_log ((sv_run N a ^^ 11) st1) = sent 11 \<and> ss_stm ((sv_run N a ^^ 11) st1) a = None \<and>
      (\<forall>k \<le> 10. \<forall>ack. find_sv (cmp_ack_handler ack) ((sv_run N a ^^ k) st1) = Some a \<longrightarrow>
        (\<exists>st2. ack_handler ack ((sv_run N a ^^ k) st1) = (True, st2) \<and> ss_log st2 = sent (Suc k) \<and>
          (find_sv (cmp_ack_handler ack) st2 = Some a \<longrightarrow> ack_handler ack st2 = (True, st2)) \<and>
          ss_now (sv_run N a st2) = ss_now ((sv_run N a ^^ k) st1) + 5000 \<and>
          ss_stm (sv_run N a st2) a = None \<and> ss_log (sv_run N a st2) = sent (Suc k))))"
proof -
  let ?copy = "SeSend (mg_sock (sv_msg t)) SIP_TRANSP_UDP dst (mbuf_rest mb)"
  let ?sent = "\<lambda>n. ss_log st @ map (\<lambda>i. (ss_now st + of_nat (copy_time False i), ?copy)) [0..<n]"
  obtain st1 where r: "sip_strans_reply E N (Some (Some a)) anew msg dst scode mb st = (0, Some None, st1)"
    "repeated (ss_now st) (ss_log st) a (sv_msg t) ?copy 0 st1"
    using reply_refused [OF assms(1-6)] by blast
  note some = sv_run_some [OF r(2) assms(7,5,4)]
  have "ss_log ((sv_run N a ^^ 11) st1) = ?sent 11 \<and> ss_stm ((sv_run N a ^^ 11) st1) a = None"
  proof -
    have "(sv_run N a ^^ Suc 10) st1 = sv_run N a ((sv_run N a ^^ 10) st1)" by (simp only: funpow.simps(2) comp_apply)
    moreover have "Suc 10 = (11 :: nat)" by simp
    ultimately have "(sv_run N a ^^ 11) st1 = sv_run N a ((sv_run N a ^^ 10) st1)" by (simp only:)
    then show ?thesis using sv_run_end [OF some [OF order_refl] assms(7), of N] by simp
  qed
  moreover have "\<exists>st2. ack_handler ack ((sv_run N a ^^ k) st1) = (True, st2) \<and> ss_log st2 = ?sent (Suc k) \<and>
      (find_sv (cmp_ack_handler ack) st2 = Some a \<longrightarrow> ack_handler ack st2 = (True, st2)) \<and>
      ss_now (sv_run N a st2) = ss_now ((sv_run N a ^^ k) st1) + 5000 \<and>
      ss_stm (sv_run N a st2) a = None \<and> ss_log (sv_run N a st2) = ?sent (Suc k)"
    if k: "k \<le> 10" and f: "find_sv (cmp_ack_handler ack) ((sv_run N a ^^ k) st1) = Some a" for k ack
  proof -
    let ?st = "(sv_run N a ^^ k) st1"
    obtain u where u: "ss_stm ?st a = Some u" "sv_state u = S_COMPLETED" "sv_msg u = sv_msg t" "ss_log ?st = ?sent (Suc k)"
      using some [OF k] by (auto simp: repeated_def)
    let ?u = "u\<lparr>sv_tmr := timer_at SIP_T4 ?st, sv_tmrg := None, sv_state := S_CONFIRMED\<rparr>"
    have "ack_handler ack ?st = (True, put_sv a ?u ?st)"
      using f u assms(4) by (simp add: ack_handler_def Let_def sip_transp_reliable_def)
    then show ?thesis using u(4)
      by (intro exI [of _ "put_sv a ?u ?st"])
        (simp add: sv_run_def sv_fire_tmr_def sv_tmr_handler_def timer_at_def SIP_T4_def ack_handler_def Let_def add.commute)
  qed
  ultimately show ?thesis using r(1) unfolding Let_def by blast
qed

definition sample_server :: "nat sip" where
  "sample_server = snd (sip_strans_alloc ideal_env 1 (sample_msg 0) None (sip_start None 1000))"

lemma sample_server_call:
  obtains t where "ss_stm sample_server 1 = Some t" "sv_invite t" "sv_txc t = 0" "sv_msg t = sample_msg 0"
    "ss_now sample_server = 1000" "ss_log sample_server = []"
proof -
  have "pl_strcmp (mg_met (sample_msg 0)) (Some (ascii ''INVITE'')) = 0"
    by (simp add: sample_msg_def pl_strcmp_def pl_set_str_def pl_cmp_def)
  then show ?thesis
    by (intro that [of "the (ss_stm sample_server 1)"])
      (simp_all add: sample_server_def sip_strans_alloc_def ideal_env_def sip_start_def)
qed

theorem sip_response_schedule_witness:
  "\<exists>st1. sip_strans_reply ideal_env (\<lambda>_. 0) (Some (Some 1)) 2 (sample_msg 0) (sa_init AF_UNSPEC) 486 mbuf_init sample_server =
      (0, Some None, st1) \<and>
    map fst (ss_log ((sv_run (\<lambda>_. 0) 1 ^^ 11) st1)) =
      [1000, 1500, 2500, 4500, 8500, 12500, 16500, 20500, 24500, 28500, 32500]"
proof (rule sample_server_call)
  fix t assume t: "ss_stm sample_server 1 = Some t" "sv_invite t" "sv_txc t = 0" "sv_msg t = sample_msg 0"
    "ss_now sample_server = 1000" "ss_log sample_server = []"
  have tp: "mg_tp (sv_msg t) = SIP_TRANSP_UDP" by (simp add: t(4) sample_msg_def)
  obtain st1 where r: "sip_strans_reply ideal_env (\<lambda>_. 0) (Some (Some 1)) 2 (sample_msg 0) (sa_init AF_UNSPEC) 486 mbuf_init sample_server =
      (0, Some None, st1)"
    "ss_log ((sv_run (\<lambda>_. 0) 1 ^^ 11) st1) = ss_log sample_server @ map (\<lambda>i. (ss_now sample_server + of_nat (copy_time False i),
       SeSend (mg_sock (sv_msg t)) SIP_TRANSP_UDP (sa_init AF_UNSPEC) (mbuf_rest mbuf_init))) [0..<11]"
    using sip_response_schedule [OF t(1-3) tp, of "\<lambda>_. 0" 486 ideal_env 2 "sample_msg 0" "sa_init AF_UNSPEC" mbuf_init] t(5)
    unfolding Let_def by auto
  then show ?thesis using t(5,6) by (auto simp: comp_def upt_rec)
qed

theorem sip_server_invariant_witness:
  "\<exists>st. runs (server_step ideal_env (\<lambda>_. 0)) (sip_start None 0) [None] st \<and> ss_stl st = [1] \<and> distinct (ss_stl (st :: nat sip))"
proof -
  let ?st = "snd (sip_strans_alloc ideal_env 1 (sample_msg 0) None (sip_start None 0 :: nat sip))"
  have "server_step ideal_env (\<lambda>_. 0) (sip_start None 0) None ?st"
    by (rule sv_take [of _ 1 _ "sample_msg 0" None "fst (sip_strans_alloc ideal_env 1 (sample_msg 0) None (sip_start None 0 :: nat sip))"])
      (simp_all add: sip_start_def)
  then have run: "runs (server_step ideal_env (\<lambda>_. 0)) (sip_start None 0) ([] @ [None]) ?st"
    by (rule runs_snoc [OF runs_nil])
  have "ss_stl ?st = [1]" by (simp add: sip_strans_alloc_def ideal_env_def sip_start_def)
  with run sip_server_invariant [OF run] show ?thesis by (intro exI [of _ ?st]) simp
qed

end
