(* ===== verification/Telev.thy ===== *)
theory Telev
  imports Mbuf "HOL-Library.Sublist"
begin

text \<open>
  Telephone events (RFC 4733): \<^verbatim>\<open>src/telev/telev.c\<close>. A C \<^verbatim>\<open>int\<close> that holds an event is an integer; the queue of
  events to send is the rest of the buffer of the state, as in the code.
\<close>

subsection \<open>State and payload\<close>

definition TXC_DIGIT_MIN :: u32 where "TXC_DIGIT_MIN = 9"
definition TXC_END :: u32 where "TXC_END = 3"
definition EVENT_END :: u8 where "EVENT_END = 0xff"
definition PAYLOAD_SIZE :: nat where "PAYLOAD_SIZE = 4"
definition VOLUME :: u8 where "VOLUME = 10"

datatype telev_state = IDLE | SENDING | ENDING

record telev_fmt =
  tf_event :: u8
  tf_end :: bool
  tf_vol :: u8
  tf_dur :: u16

record telev =
  tv_mb :: mbuf
  tv_ptime :: u32
  tv_state :: telev_state
  tv_event :: int
  tv_dur :: u16
  tv_txc :: u32
  tv_rx_event :: int
  tv_rx_end :: bool

definition payload_encode :: "mem_env \<Rightarrow> int \<Rightarrow> bool \<Rightarrow> u16 \<Rightarrow> (mbuf, err) state" where
  "payload_encode E event end dur = do {
     mb \<leftarrow> State_Monad.get;
     let pos = mb_pos mb;
     e1 \<leftarrow> mbuf_write_u8 E (of_int event);
     e2 \<leftarrow> mbuf_write_u8 E ((if end then 0x80 else 0) OR (VOLUME AND 0x3f));
     e3 \<leftarrow> mbuf_write_u16 E (htons dur);
     let err = e1 OR e2 OR e3;
     _ \<leftarrow> (if err \<noteq> 0 then State_Monad.update (\<lambda>mb. mb\<lparr>mb_pos := pos\<rparr>) else State_Monad.return ());
     State_Monad.return err
   }"

definition payload_decode :: "(mbuf, err + telev_fmt) state" where
  "payload_decode = do {
     mb \<leftarrow> State_Monad.get;
     (if mbuf_get_left mb < PAYLOAD_SIZE then State_Monad.return (Inl ENOENT)
      else do {
        event \<leftarrow> mbuf_read_u8;
        b \<leftarrow> mbuf_read_u8;
        dur \<leftarrow> mbuf_read_u16;
        State_Monad.return (Inr \<lparr>tf_event = event, tf_end = (b AND 0x80 = 0x80), tf_vol = b AND 0x3f, tf_dur = htons dur\<rparr>) })
   }"

subsection \<open>Operations\<close>

definition sizeof_telev :: nat where "sizeof_telev = 36"

definition telev_alloc :: "mem_env \<Rightarrow> u32 \<Rightarrow> err + telev" where
  "telev_alloc E ptime =
     (if ptime = 0 then Inl EINVAL
      else if \<not> can_alloc E sizeof_telev then Inl ENOMEM
      else case mbuf_alloc E 16 of
        None \<Rightarrow> Inl ENOMEM
      | Some mb \<Rightarrow> Inr \<lparr>tv_mb = mb, tv_ptime = ptime, tv_state = IDLE, tv_event = 0, tv_dur = 0, tv_txc = 0,
          tv_rx_event = -1, tv_rx_end = False\<rparr>)"

definition telev_send :: "mem_env \<Rightarrow> int \<Rightarrow> bool \<Rightarrow> telev \<Rightarrow> err \<times> telev" where
  "telev_send E event end tel = (let pos = mb_pos (tv_mb tel) in
     case run_state (mbuf_write_u8 E (if end then EVENT_END else of_int event)) ((tv_mb tel)\<lparr>mb_pos := mb_end (tv_mb tel)\<rparr>) of
       (err, mb) \<Rightarrow> (err, tel\<lparr>tv_mb := mb\<lparr>mb_pos := pos\<rparr>\<rparr>))"

text \<open>The result of \<^verbatim>\<open>telev_recv\<close>: the error, or the event and whether it is its end.\<close>

definition telev_recv :: "mbuf \<Rightarrow> telev \<Rightarrow> (err + int \<times> bool) \<times> mbuf \<times> telev" where
  "telev_recv mb tel = (case run_state payload_decode mb of
     (Inl err, mb) \<Rightarrow> (Inl err, mb, tel)
   | (Inr fmt, mb) \<Rightarrow>
       if tf_end fmt then
         (if tv_rx_end tel then (Inl EALREADY, mb, tel)
          else (Inr (uint (tf_event fmt), True), mb, tel\<lparr>tv_rx_event := -1, tv_rx_end := True\<rparr>))
       else if uint (tf_event fmt) = tv_rx_event tel then (Inl EALREADY, mb, tel)
       else (Inr (uint (tf_event fmt), False), mb, tel\<lparr>tv_rx_event := uint (tf_event fmt), tv_rx_end := False\<rparr>))"

text \<open>The marker is the caller's variable; it is set when there is something to send.\<close>

definition telev_poll :: "mem_env \<Rightarrow> bool \<Rightarrow> mbuf \<Rightarrow> telev \<Rightarrow> err \<times> bool \<times> mbuf \<times> telev" where
  "telev_poll E marker mb tel = (let ms = tv_ptime tel * 8 in
     case tv_state tel of
       IDLE \<Rightarrow>
         if mbuf_get_left (tv_mb tel) = 0 then (ENOENT, marker, mb, tel)
         else (case run_state mbuf_read_u8 (tv_mb tel) of (ev, q) \<Rightarrow>
           (let tel = tel\<lparr>tv_mb := q, tv_event := uint ev, tv_dur := ucast ms, tv_state := SENDING, tv_txc := 1\<rparr> in
            case run_state (payload_encode E (tv_event tel) False (tv_dur tel)) mb of (err, mb) \<Rightarrow>
              (err, if err = 0 then True else marker, mb, tel)))
     | SENDING \<Rightarrow>
         (let tel = tel\<lparr>tv_dur := tv_dur tel + ucast ms\<rparr> in
          case run_state (payload_encode E (tv_event tel) False (tv_dur tel)) mb of (err, mb) \<Rightarrow>
            (let tel = tel\<lparr>tv_txc := tv_txc tel + 1\<rparr>;
                 tel = (if tv_txc tel < TXC_DIGIT_MIN \<or> mbuf_get_left (tv_mb tel) = 0 then tel
                   else (case run_state mbuf_read_u8 (tv_mb tel) of (b, q) \<Rightarrow>
                     tel\<lparr>tv_mb := (if b \<noteq> EVENT_END then q\<lparr>mb_pos := mb_pos q - 1\<rparr> else q), tv_state := ENDING, tv_txc := 0\<rparr>))
             in (err, if err = 0 then False else marker, mb, tel)))
     | ENDING \<Rightarrow>
         (case run_state (payload_encode E (tv_event tel) True (tv_dur tel)) mb of (err, mb) \<Rightarrow>
            (let tel = tel\<lparr>tv_txc := tv_txc tel + 1\<rparr>;
                 tel = (if tv_txc tel < TXC_END then tel
                   else (let tel = (if mbuf_get_left (tv_mb tel) = 0 then tel\<lparr>tv_mb := (tv_mb tel)\<lparr>mb_pos := 0, mb_end := 0\<rparr>\<rparr> else tel)
                     in tel\<lparr>tv_state := IDLE\<rparr>))
             in (err, if err = 0 then False else marker, mb, tel))))"

definition telev_digit2code :: "int \<Rightarrow> int" where
  "telev_digit2code digit =
     (if 48 \<le> digit \<and> digit \<le> 57 then digit - 48
      else if digit = 42 then 10
      else if digit = 35 then 11
      else if 97 \<le> digit \<and> digit \<le> 100 then digit - 97 + 12
      else if 65 \<le> digit \<and> digit \<le> 68 then digit - 65 + 12
      else -1)"

definition telev_code2digit :: "int \<Rightarrow> int" where
  "telev_code2digit code =
     (if code < 0 \<or> code \<ge> 16 then -1
      else [48, 49, 50, 51, 52, 53, 54, 55, 56, 57, 42, 35, 65, 66, 67, 68] ! nat code)"

subsection \<open>Payloads\<close>

definition payload :: "u8 \<Rightarrow> bool \<Rightarrow> u16 \<Rightarrow> u8 list" where
  "payload ev end dur = [ev, if end then 0x8a else 0x0a] @ be16 dur"

lemma puts_payload:
  assumes "alloc_total E"
  shows "puts (payload_encode E (uint ev) end dur) (payload ev end dur)"
  unfolding puts_def
proof (intro allI impI)
  fix mb assume mb: "mbuf_wf mb" "mb_pos mb + length (payload ev end dur) < size_mod"
  let ?v = "(if end then 0x80 else 0) OR (VOLUME AND 0x3f)"
  have v: "?v = (if end then 0x8a else 0x0a)" by (simp add: VOLUME_def)
  let ?m = "do { e1 \<leftarrow> mbuf_write_u8 E ev; e2 \<leftarrow> mbuf_write_u8 E ?v; e3 \<leftarrow> mbuf_write_u16 E (htons dur); State_Monad.return (e1 OR e2 OR e3) }"
  have "puts ?m ([ev] @ [?v] @ be16 dur @ [])"
    by (rule puts_bind puts_ints puts_return assms | simp)+
  then have "puts ?m (payload ev end dur)" by (simp add: payload_def v)
  then obtain t where t: "run_state ?m mb = (0, t)" "put_at mb (payload ev end dur) t"
    using mb by (auto elim: putsD)
  have "run_state (payload_encode E (uint ev) end dur) mb = run_state ?m mb" if "fst (run_state ?m mb) = 0"
    using that by (auto simp: payload_encode_def Let_def split: prod.splits)
  with t show "\<exists>t. run_state (payload_encode E (uint ev) end dur) mb = (0, t) \<and> put_at mb (payload ev end dur) t" by auto
qed

lemma payload_decode_run:
  assumes "mbuf_ok mb" "mbuf_rest mb = payload ev end dur @ rest"
  shows "run_state payload_decode mb = (Inr \<lparr>tf_event = ev, tf_end = end, tf_vol = 10, tf_dur = dur\<rparr>, adv 4 mb)"
proof -
  have "mbuf_ok (adv 1 mb)" "mbuf_ok (adv 2 mb)" using assms by (simp_all add: mb_simps payload_def)
  then show ?thesis using assms
    by (simp add: payload_decode_def mb_simps payload_def PAYLOAD_SIZE_def byte_simps)
qed

subsection \<open>The sender\<close>

definition tel_queue :: "telev \<Rightarrow> u8 list" where "tel_queue tel = mbuf_rest (tv_mb tel)"

definition tel_ok :: "telev \<Rightarrow> bool" where "tel_ok tel \<longleftrightarrow> mbuf_ok (tv_mb tel)"

definition tel_ms :: "telev \<Rightarrow> u16" where "tel_ms tel = ucast (tv_ptime tel * 8)"

text \<open>Polls with a fresh buffer each; the payloads that are there to send.\<close>

fun telev_polls :: "mem_env \<Rightarrow> nat \<Rightarrow> telev \<Rightarrow> u8 list list \<times> telev" where
  "telev_polls E 0 tel = ([], tel)"
| "telev_polls E (Suc n) tel = (case telev_poll E False mbuf_init tel of (err, mk, mb, tel) \<Rightarrow>
     (case telev_polls E n tel of (ps, tel) \<Rightarrow> (if err = 0 then mbuf_rest (mb\<lparr>mb_pos := 0\<rparr>) # ps else ps, tel)))"

lemma telev_polls_add:
  "telev_polls E (m + n) tel = (case telev_polls E m tel of (ps, tel) \<Rightarrow> (case telev_polls E n tel of (qs, tel) \<Rightarrow> (ps @ qs, tel)))"
  by (induction m arbitrary: tel) (auto split: prod.splits)

lemma payload_encode_init:
  assumes "alloc_total E"
  obtains mb where "run_state (payload_encode E (uint ev) end dur) mbuf_init = (0, mb)" "mbuf_rest (mb\<lparr>mb_pos := 0\<rparr>) = payload ev end dur"
proof -
  have i: "mbuf_wf mbuf_init" "mb_pos mbuf_init = 0" "mb_end mbuf_init = 0" by (simp_all add: mbuf_init_def mbuf_wf_def)
  have "mb_pos mbuf_init + length (payload ev end dur) < size_mod" by (simp add: i payload_def size_mod_def)
  from putsD [OF puts_payload [OF assms] i(1) this] obtain mb
    where mb: "run_state (payload_encode E (uint ev) end dur) mbuf_init = (0, mb)" "put_at mbuf_init (payload ev end dur) mb" .
  have "payload ev end dur \<noteq> []" by (simp add: payload_def)
  from put_at_rest(2) [OF i(1) _ mb(2) this] i have "mbuf_rest (mb\<lparr>mb_pos := 0\<rparr>) = payload ev end dur" by simp
  with mb(1) show ?thesis by (rule that)
qed

definition on_air :: "telev \<Rightarrow> telev_state \<Rightarrow> u8 \<Rightarrow> u16 \<Rightarrow> nat \<Rightarrow> u8 list \<Rightarrow> u32 \<Rightarrow> bool" where
  "on_air tel s ev dur k q pt \<longleftrightarrow> tel_ok tel \<and> tv_state tel = s \<and> tel_queue tel = q \<and> tv_ptime tel = pt \<and>
     (s \<noteq> IDLE \<longrightarrow> tv_event tel = uint ev \<and> tv_dur tel = dur \<and> unat (tv_txc tel) = k)"

lemma poll_idle:
  assumes E: "alloc_total E" and t: "on_air tel IDLE x d j (ev # q) pt"
  shows "\<exists>tel'. telev_polls E (Suc 0) tel = ([payload ev False (ucast (pt * 8))], tel') \<and>
    on_air tel' SENDING ev (ucast (pt * 8)) 1 q pt"
proof -
  have ok: "mbuf_ok (tv_mb tel)" "mbuf_rest (tv_mb tel) = ev # q" "tv_state tel = IDLE" "tv_ptime tel = pt"
    using t by (simp_all add: on_air_def tel_ok_def tel_queue_def)
  obtain mb where mb: "run_state (payload_encode E (uint ev) False (ucast (pt * 8))) mbuf_init = (0, mb)"
    "mbuf_rest (mb\<lparr>mb_pos := 0\<rparr>) = payload ev False (ucast (pt * 8))" by (rule payload_encode_init [OF E])
  show ?thesis using ok mb
    by (simp add: telev_poll_def Let_def mb_simps on_air_def tel_ok_def tel_queue_def)
qed

lemma txc_less: "unat (t :: u32) = k \<Longrightarrow> Suc k < 100 \<Longrightarrow> unat (t + 1) = Suc k"
  by (simp add: unat_word_ariths)

lemma poll_sending:
  assumes E: "alloc_total E" and t: "on_air tel SENDING ev d k q pt" and k: "Suc k < 9"
  shows "\<exists>tel'. telev_polls E (Suc 0) tel = ([payload ev False (d + ucast (pt * 8))], tel') \<and>
    on_air tel' SENDING ev (d + ucast (pt * 8)) (Suc k) q pt"
proof -
  have ok: "tel_ok tel" "tel_queue tel = q" "tv_state tel = SENDING" "tv_ptime tel = pt" "tv_event tel = uint ev" "tv_dur tel = d"
    "unat (tv_txc tel) = k"
    using t by (simp_all add: on_air_def)
  obtain mb where mb: "run_state (payload_encode E (uint ev) False (d + ucast (pt * 8))) mbuf_init = (0, mb)"
    "mbuf_rest (mb\<lparr>mb_pos := 0\<rparr>) = payload ev False (d + ucast (pt * 8))" by (rule payload_encode_init [OF E])
  have n: "unat (tv_txc tel + 1) = Suc k" using txc_less [OF ok(7)] k by simp
  then have "tv_txc tel + 1 < TXC_DIGIT_MIN" using k by (simp add: word_less_nat_alt TXC_DIGIT_MIN_def)
  then show ?thesis using ok mb n
    by (simp add: telev_poll_def Let_def on_air_def tel_ok_def tel_queue_def)
qed

lemma poll_release:
  assumes E: "alloc_total E" and t: "on_air tel SENDING ev d 8 (0xff # q) pt"
  shows "\<exists>tel'. telev_polls E (Suc 0) tel = ([payload ev False (d + ucast (pt * 8))], tel') \<and>
    on_air tel' ENDING ev (d + ucast (pt * 8)) 0 q pt"
proof -
  have ok: "mbuf_ok (tv_mb tel)" "mbuf_rest (tv_mb tel) = 0xff # q" "tv_state tel = SENDING" "tv_ptime tel = pt"
    "tv_event tel = uint ev" "tv_dur tel = d" "unat (tv_txc tel) = 8"
    using t by (simp_all add: on_air_def tel_ok_def tel_queue_def)
  obtain mb where mb: "run_state (payload_encode E (uint ev) False (d + ucast (pt * 8))) mbuf_init = (0, mb)"
    "mbuf_rest (mb\<lparr>mb_pos := 0\<rparr>) = payload ev False (d + ucast (pt * 8))" by (rule payload_encode_init [OF E])
  have "\<not> tv_txc tel + 1 < TXC_DIGIT_MIN" using txc_less [OF ok(7)] by (simp add: word_less_nat_alt TXC_DIGIT_MIN_def)
  then show ?thesis using ok mb
    by (simp add: telev_poll_def Let_def mb_simps on_air_def tel_ok_def tel_queue_def EVENT_END_def)
qed

lemma poll_ending:
  assumes E: "alloc_total E" and t: "on_air tel ENDING ev d k q pt" and k: "Suc k < 3"
  shows "\<exists>tel'. telev_polls E (Suc 0) tel = ([payload ev True d], tel') \<and> on_air tel' ENDING ev d (Suc k) q pt"
proof -
  have ok: "tel_ok tel" "tel_queue tel = q" "tv_state tel = ENDING" "tv_ptime tel = pt" "tv_event tel = uint ev" "tv_dur tel = d"
    "unat (tv_txc tel) = k"
    using t by (simp_all add: on_air_def)
  obtain mb where mb: "run_state (payload_encode E (uint ev) True d) mbuf_init = (0, mb)"
    "mbuf_rest (mb\<lparr>mb_pos := 0\<rparr>) = payload ev True d" by (rule payload_encode_init [OF E])
  have n: "unat (tv_txc tel + 1) = Suc k" using txc_less [OF ok(7)] k by simp
  then have "tv_txc tel + 1 < TXC_END" using k by (simp add: word_less_nat_alt TXC_END_def)
  then show ?thesis using ok mb n
    by (simp add: telev_poll_def Let_def on_air_def tel_ok_def tel_queue_def)
qed

lemma reset_ok: "mbuf_ok mb \<Longrightarrow> mbuf_ok (mb\<lparr>mb_pos := 0, mb_end := 0\<rparr>) \<and> mbuf_rest (mb\<lparr>mb_pos := 0, mb_end := 0\<rparr>) = []"
  by (auto simp: mbuf_ok_def mbuf_wf_def mbuf_rest_def mbuf_content_def split: option.splits)

lemma poll_ended:
  assumes E: "alloc_total E" and t: "on_air tel ENDING ev d 2 q pt"
  shows "\<exists>tel'. telev_polls E (Suc 0) tel = ([payload ev True d], tel') \<and> on_air tel' IDLE ev d 0 q pt"
proof -
  have ok: "mbuf_ok (tv_mb tel)" "mbuf_rest (tv_mb tel) = q" "tv_state tel = ENDING" "tv_ptime tel = pt" "tv_event tel = uint ev"
    "tv_dur tel = d" "unat (tv_txc tel) = 2"
    using t by (simp_all add: on_air_def tel_ok_def tel_queue_def)
  obtain mb where mb: "run_state (payload_encode E (uint ev) True d) mbuf_init = (0, mb)"
    "mbuf_rest (mb\<lparr>mb_pos := 0\<rparr>) = payload ev True d" by (rule payload_encode_init [OF E])
  have "\<not> tv_txc tel + 1 < TXC_END" using txc_less [OF ok(7)] by (simp add: word_less_nat_alt TXC_END_def)
  then show ?thesis using ok mb reset_ok [OF ok(1)]
    by (simp add: telev_poll_def Let_def mb_simps on_air_def tel_ok_def tel_queue_def)
qed

text \<open>One digit: nine payloads of growing duration, then three with the end bit.\<close>

definition press_pkts :: "u16 \<Rightarrow> u8 \<Rightarrow> u8 list list" where
  "press_pkts ms ev = map (\<lambda>k. payload ev False (of_nat (Suc k) * ms)) [0..<9]"

definition release_pkts :: "u16 \<Rightarrow> u8 \<Rightarrow> u8 list list" where
  "release_pkts ms ev = replicate 3 (payload ev True (9 * ms))"

lemma polls_press:
  assumes E: "alloc_total E" and t: "on_air tel IDLE x d j (ev # q) pt" and k: "k < 8"
  shows "\<exists>tel'. telev_polls E (Suc k) tel = (map (\<lambda>k. payload ev False (of_nat (Suc k) * ucast (pt * 8))) [0..<Suc k], tel') \<and>
    on_air tel' SENDING ev (of_nat (Suc k) * ucast (pt * 8)) (Suc k) q pt"
  using k
proof (induction k)
  case 0
  then show ?case using poll_idle [OF E t] by simp
next
  case (Suc k)
  then obtain tel' where t': "telev_polls E (Suc k) tel = (map (\<lambda>k. payload ev False (of_nat (Suc k) * ucast (pt * 8))) [0..<Suc k], tel')"
    "on_air tel' SENDING ev (of_nat (Suc k) * ucast (pt * 8)) (Suc k) q pt" by auto
  have "Suc (Suc k) < 9" using Suc.prems by simp
  from poll_sending [OF E t'(2) this] obtain tel'' where t'':
    "telev_polls E (Suc 0) tel' = ([payload ev False (of_nat (Suc (Suc k)) * ucast (pt * 8))], tel'')"
    "on_air tel'' SENDING ev (of_nat (Suc (Suc k)) * ucast (pt * 8)) (Suc (Suc k)) q pt"
    by (auto simp: algebra_simps)
  have "telev_polls E (Suc k + Suc 0) tel = (map (\<lambda>k. payload ev False (of_nat (Suc k) * ucast (pt * 8))) [0..<Suc (Suc k)], tel'')"
    unfolding telev_polls_add t'(1) prod.case t''(1) by simp
  with t''(2) show ?case by auto
qed

lemma polls_digit:
  assumes E: "alloc_total E" and t: "on_air tel IDLE x d j (ev # 0xff # q) pt"
  shows "\<exists>tel' x d j. telev_polls E 12 tel = (press_pkts (ucast (pt * 8)) ev @ release_pkts (ucast (pt * 8)) ev, tel') \<and>
    on_air tel' IDLE x d j q pt"
proof -
  let ?ms = "ucast (pt * 8) :: u16"
  obtain t1 where t1: "telev_polls E (Suc 7) tel = (map (\<lambda>k. payload ev False (of_nat (Suc k) * ?ms)) [0..<Suc 7], t1)"
    "on_air t1 SENDING ev (of_nat (Suc 7) * ?ms) (Suc 7) (0xff # q) pt"
    using polls_press [OF E t, of 7] by auto
  then have "on_air t1 SENDING ev (8 * ?ms) 8 (0xff # q) pt" by simp
  from poll_release [OF E this] obtain t2 where t2: "telev_polls E (Suc 0) t1 = ([payload ev False (9 * ?ms)], t2)"
    "on_air t2 ENDING ev (9 * ?ms) 0 q pt" by (auto simp: algebra_simps)
  obtain t3 where t3: "telev_polls E (Suc 0) t2 = ([payload ev True (9 * ?ms)], t3)" "on_air t3 ENDING ev (9 * ?ms) 1 q pt"
    using poll_ending [OF E t2(2)] by auto
  obtain t4 where t4: "telev_polls E (Suc 0) t3 = ([payload ev True (9 * ?ms)], t4)" "on_air t4 ENDING ev (9 * ?ms) 2 q pt"
    using poll_ending [OF E t3(2)] by (auto simp: numeral_2_eq_2)
  obtain t5 where t5: "telev_polls E (Suc 0) t4 = ([payload ev True (9 * ?ms)], t5)" "on_air t5 IDLE ev (9 * ?ms) 0 q pt"
    using poll_ended [OF E t4(2)] by auto
  have "telev_polls E (((((Suc 7 + Suc 0) + Suc 0) + Suc 0)) + Suc 0) tel =
      (map (\<lambda>k. payload ev False (of_nat (Suc k) * ?ms)) [0..<Suc 7] @ [payload ev False (9 * ?ms)] @
        [payload ev True (9 * ?ms), payload ev True (9 * ?ms), payload ev True (9 * ?ms)], t5)"
    unfolding telev_polls_add t1(1) prod.case t2(1) t3(1) t4(1) t5(1) by simp
  moreover have "[0..<9] = [0..<Suc 7] @ [8]" by (simp add: upt_rec)
  then have "map (\<lambda>k. payload ev False (of_nat (Suc k) * ?ms)) [0..<Suc 7] @ [payload ev False (9 * ?ms)] = press_pkts ?ms ev"
    by (simp add: press_pkts_def)
  then have "map (\<lambda>k. payload ev False (of_nat (Suc k) * ?ms)) [0..<Suc 7] @ [payload ev False (9 * ?ms)] @
        [payload ev True (9 * ?ms), payload ev True (9 * ?ms), payload ev True (9 * ?ms)] = press_pkts ?ms ev @ release_pkts ?ms ev"
    by (simp add: release_pkts_def numeral_3_eq_3)
  ultimately have "telev_polls E 12 tel = (press_pkts ?ms ev @ release_pkts ?ms ev, t5)" by simp
  with t5(2) show ?thesis by blast
qed

lemma polls_digits:
  assumes E: "alloc_total E"
  shows "on_air tel IDLE x d j (concat (map (\<lambda>ev. [ev, 0xff]) evs) @ q) pt \<Longrightarrow>
    \<exists>tel' x d j. telev_polls E (12 * length evs) tel =
        (concat (map (\<lambda>ev. press_pkts (ucast (pt * 8)) ev @ release_pkts (ucast (pt * 8)) ev) evs), tel') \<and>
      on_air tel' IDLE x d j q pt"
proof (induction evs arbitrary: tel x d j)
  case (Cons ev evs)
  then have "on_air tel IDLE x d j (ev # 0xff # (concat (map (\<lambda>ev. [ev, 0xff]) evs) @ q)) pt" by simp
  from polls_digit [OF E this] obtain t1 x1 d1 j1 where
    t1: "telev_polls E 12 tel = (press_pkts (ucast (pt * 8)) ev @ release_pkts (ucast (pt * 8)) ev, t1)"
    "on_air t1 IDLE x1 d1 j1 (concat (map (\<lambda>ev. [ev, 0xff]) evs) @ q) pt" by blast
  from Cons.IH [OF t1(2)] obtain t2 x2 d2 j2 where
    t2: "telev_polls E (12 * length evs) t1 =
        (concat (map (\<lambda>ev. press_pkts (ucast (pt * 8)) ev @ release_pkts (ucast (pt * 8)) ev) evs), t2)"
    "on_air t2 IDLE x2 d2 j2 q pt" by blast
  have "12 * length (ev # evs) = 12 + 12 * length evs" by simp
  then have "telev_polls E (12 * length (ev # evs)) tel =
      (concat (map (\<lambda>ev. press_pkts (ucast (pt * 8)) ev @ release_pkts (ucast (pt * 8)) ev) (ev # evs)), t2)"
    by (simp only: telev_polls_add t1(1) t2(1) prod.case) simp
  with t2(2) show ?case by blast
qed auto

text \<open>Pressing and releasing keys, each once.\<close>

fun telev_keys :: "mem_env \<Rightarrow> u8 list \<Rightarrow> telev \<Rightarrow> telev" where
  "telev_keys E [] tel = tel"
| "telev_keys E (ev # evs) tel = telev_keys E evs (snd (telev_send E (uint ev) True (snd (telev_send E (uint ev) False tel))))"

lemma telev_send_run:
  assumes E: "alloc_total E" and t: "on_air tel IDLE x d j q pt" and len: "mb_end (tv_mb tel) + 1 < size_mod"
  shows "\<exists>tel'. telev_send E (uint ev) end tel = (0, tel') \<and> on_air tel' IDLE x d j (q @ [if end then 0xff else ev]) pt \<and>
    mb_end (tv_mb tel') = mb_end (tv_mb tel) + 1"
proof -
  let ?mb = "tv_mb tel" and ?v = "if end then 0xff else ev"
  have ok: "mbuf_ok ?mb" "mbuf_rest ?mb = q" "tv_state tel = IDLE" "tv_ptime tel = pt"
    using t by (simp_all add: on_air_def tel_ok_def tel_queue_def)
  have m: "mbuf_ok (?mb\<lparr>mb_pos := mb_end ?mb\<rparr>)"
    using ok(1) by (auto simp: mbuf_ok_def mbuf_wf_def split: option.splits)
  from writesD [OF writes_ints(1) [OF E, of ?v] m] len obtain mb' where
    w: "run_state (mbuf_write_u8 E ?v) (?mb\<lparr>mb_pos := mb_end ?mb\<rparr>) = (0, mb')" "wrote (?mb\<lparr>mb_pos := mb_end ?mb\<rparr>) [?v] mb'"
    by auto
  have c: "mbuf_content mb' = mbuf_content ?mb @ [?v]"
    using w(2) length_mbuf_content [OF mbuf_ok_wf [OF ok(1)]] overwrite_at_end [of "mbuf_content ?mb" "[?v]"]
    by (simp add: wrote_def)
  have wf': "mbuf_ok mb'" using w(2) by (simp add: wrote_def)
  then have e: "mb_end mb' = mb_end ?mb + 1"
    using c length_mbuf_content [OF mbuf_ok_wf [OF ok(1)]] length_mbuf_content [OF mbuf_ok_wf [OF wf']] by simp
  have le: "mb_pos ?mb \<le> length (mbuf_content ?mb)" using ok(1) by (simp add: mbuf_ok_def)
  have "mbuf_ok (mb'\<lparr>mb_pos := mb_pos ?mb\<rparr>)"
    using wf' e ok(1) by (auto simp: mbuf_ok_def mbuf_wf_def split: option.splits)
  moreover have "mbuf_rest (mb'\<lparr>mb_pos := mb_pos ?mb\<rparr>) = q @ [?v]"
    using c ok(2) le by (simp add: mbuf_rest_def)
  moreover have "telev_send E (uint ev) end tel = (0, tel\<lparr>tv_mb := mb'\<lparr>mb_pos := mb_pos ?mb\<rparr>\<rparr>)"
    using w(1) by (cases "end") (simp_all add: telev_send_def Let_def EVENT_END_def)
  ultimately show ?thesis using t e by (intro exI) (auto simp: on_air_def tel_ok_def tel_queue_def)
qed

lemma telev_keys_run:
  assumes E: "alloc_total E"
  shows "on_air tel IDLE x d j q pt \<Longrightarrow> mb_end (tv_mb tel) + 2 * length evs < size_mod \<Longrightarrow>
    on_air (telev_keys E evs tel) IDLE x d j (q @ concat (map (\<lambda>ev. [ev, 0xff]) evs)) pt"
proof (induction evs arbitrary: tel q)
  case (Cons ev evs)
  have "mb_end (tv_mb tel) + 1 < size_mod" using Cons.prems(2) by simp
  from telev_send_run [OF E Cons.prems(1) this, of ev False] obtain t1 where
    t1: "telev_send E (uint ev) False tel = (0, t1)" "on_air t1 IDLE x d j (q @ [ev]) pt" "mb_end (tv_mb t1) = mb_end (tv_mb tel) + 1"
    by auto
  have "mb_end (tv_mb t1) + 1 < size_mod" using Cons.prems(2) t1(3) by simp
  from telev_send_run [OF E t1(2) this, of ev True] obtain t2 where
    t2: "telev_send E (uint ev) True t1 = (0, t2)" "on_air t2 IDLE x d j ((q @ [ev]) @ [0xff]) pt" "mb_end (tv_mb t2) = mb_end (tv_mb t1) + 1"
    by auto
  have "mb_end (tv_mb t2) + 2 * length evs < size_mod" using Cons.prems(2) t1(3) t2(3) by simp
  from Cons.IH [OF t2(2) this] show ?case using t1(1) t2(1) by simp
qed simp

subsection \<open>The receiver\<close>

text \<open>What the application hears of a sequence of payloads, each in a buffer of its own.\<close>

definition packet :: "u8 list \<Rightarrow> mbuf" where
  "packet p = \<lparr>mb_buf = Some p, mb_size = length p, mb_pos = 0, mb_end = length p, mb_fault = False\<rparr>"

fun telev_hear :: "u8 list list \<Rightarrow> telev \<Rightarrow> (int \<times> bool) list \<times> telev" where
  "telev_hear [] tel = ([], tel)"
| "telev_hear (p # ps) tel = (case telev_recv (packet p) tel of (r, mb, tel) \<Rightarrow>
     (case telev_hear ps tel of (es, tel) \<Rightarrow> (case r of Inl _ \<Rightarrow> es | Inr e \<Rightarrow> e # es, tel)))"

lemma telev_hear_append:
  "telev_hear (ps @ qs) tel = (case telev_hear ps tel of (es, tel) \<Rightarrow> (case telev_hear qs tel of (fs, tel) \<Rightarrow> (es @ fs, tel)))"
  by (induction ps arbitrary: tel) (auto split: prod.splits sum.splits)

lemma packet_ok: "length p < size_mod \<Longrightarrow> mbuf_ok (packet p) \<and> mbuf_rest (packet p) = p"
  by (simp add: packet_def mbuf_ok_def mbuf_wf_def mbuf_rest_def mbuf_content_def mbuf_bytes_def size_mod_def)

lemma recv_payload:
  "telev_recv (packet (payload ev end dur)) tel =
    (if end then
       (if tv_rx_end tel then (Inl EALREADY, adv 4 (packet (payload ev end dur)), tel)
        else (Inr (uint ev, True), adv 4 (packet (payload ev end dur)), tel\<lparr>tv_rx_event := -1, tv_rx_end := True\<rparr>))
     else if uint ev = tv_rx_event tel then (Inl EALREADY, adv 4 (packet (payload ev end dur)), tel)
     else (Inr (uint ev, False), adv 4 (packet (payload ev end dur)), tel\<lparr>tv_rx_event := uint ev, tv_rx_end := False\<rparr>))"
proof -
  have "length (payload ev end dur) < size_mod" by (simp add: payload_def size_mod_def)
  from packet_ok [OF this] payload_decode_run [of "packet (payload ev end dur)" ev "end" dur "[]"]
  show ?thesis by (simp add: telev_recv_def)
qed

lemma hear_press:
  assumes "\<forall>p \<in> set ps. \<exists>dur. p = payload ev False dur" "tv_rx_event tel = uint ev"
  shows "telev_hear ps tel = ([], tel)"
  using assms by (induction ps) (auto simp: recv_payload)

lemma hear_release:
  assumes "\<forall>p \<in> set ps. \<exists>dur. p = payload ev True dur" "tv_rx_end tel"
  shows "telev_hear ps tel = ([], tel)"
  using assms by (induction ps) (auto simp: recv_payload)

text \<open>At least one payload of each kind of a digit arrives: the digit is heard once, its end once.\<close>

lemma hear_digit:
  assumes "tv_rx_event tel = -1" and ps: "\<forall>p \<in> set ps. \<exists>dur. p = payload ev False dur" "ps \<noteq> []"
    and rs: "\<forall>p \<in> set rs. \<exists>dur. p = payload ev True dur" "rs \<noteq> []"
  shows "\<exists>tel'. telev_hear (ps @ rs) tel = ([(uint ev, False), (uint ev, True)], tel') \<and> tv_rx_event tel' = -1"
proof -
  obtain d ps' where p: "ps = payload ev False d # ps'" using ps by (cases ps) auto
  obtain d' rs' where r: "rs = payload ev True d' # rs'" using rs by (cases rs) auto
  have ne: "uint ev \<noteq> -1" using uint_ge_0 [of ev] by linarith
  let ?t = "tel\<lparr>tv_rx_event := uint ev, tv_rx_end := False\<rparr>"
  have "telev_hear ps' ?t = ([], ?t)" using hear_press [of ps' ev ?t] ps(1) p by simp
  then have h1: "telev_hear ps tel = ([(uint ev, False)], ?t)" using assms(1) ne p by (simp add: recv_payload)
  let ?u = "?t\<lparr>tv_rx_event := -1, tv_rx_end := True\<rparr>"
  have "telev_hear rs' ?u = ([], ?u)" using hear_release [of rs' ev ?u] rs(1) r by simp
  then have "telev_hear rs ?t = ([(uint ev, True)], ?u)" using r by (simp add: recv_payload)
  then show ?thesis using h1 by (simp add: telev_hear_append)
qed

text \<open>What arrives of a digit: some of its payloads in their order, but not none of either kind.\<close>

definition arrives :: "u16 \<Rightarrow> u8 \<Rightarrow> u8 list list \<Rightarrow> bool" where
  "arrives ms ev as \<longleftrightarrow> (\<exists>ps rs. as = ps @ rs \<and> ps \<noteq> [] \<and> rs \<noteq> [] \<and> subseq ps (press_pkts ms ev) \<and> subseq rs (release_pkts ms ev))"

lemma arrives_kinds:
  "subseq ps (press_pkts ms ev) \<Longrightarrow> \<forall>p \<in> set ps. \<exists>dur. p = payload ev False dur"
  "subseq rs (release_pkts ms ev) \<Longrightarrow> \<forall>p \<in> set rs. \<exists>dur. p = payload ev True dur"
proof -
  assume "subseq ps (press_pkts ms ev)"
  then have "set ps \<subseteq> set (press_pkts ms ev)" by (auto elim: list_emb_set)
  then show "\<forall>p \<in> set ps. \<exists>dur. p = payload ev False dur" by (auto simp: press_pkts_def)
next
  assume "subseq rs (release_pkts ms ev)"
  then have "set rs \<subseteq> set (release_pkts ms ev)" by (auto elim: list_emb_set)
  then show "\<forall>p \<in> set rs. \<exists>dur. p = payload ev True dur" by (auto simp: release_pkts_def)
qed

lemma hear_digits:
  "list_all2 (arrives ms) evs ass \<Longrightarrow> tv_rx_event tel = -1 \<Longrightarrow>
   fst (telev_hear (concat ass) tel) = concat (map (\<lambda>ev. [(uint ev, False), (uint ev, True)]) evs)"
proof (induction arbitrary: tel rule: list_all2_induct)
  case (Cons ev evs as ass)
  then obtain ps rs where a: "as = ps @ rs" "ps \<noteq> []" "rs \<noteq> []" "subseq ps (press_pkts ms ev)" "subseq rs (release_pkts ms ev)"
    by (auto simp: arrives_def)
  from hear_digit [OF Cons.prems arrives_kinds(1) [OF a(4)] a(2) arrives_kinds(2) [OF a(5)] a(3)]
  obtain t where t: "telev_hear as tel = ([(uint ev, False), (uint ev, True)], t)" "tv_rx_event t = -1"
    using a(1) by auto
  from Cons.IH [OF t(2)] t(1) show ?case by (auto simp: telev_hear_append split: prod.split)
qed simp

text \<open>C32: Keys arrive exactly once. Any keys (event codes below 255) pressed and released in turn on a fresh sender are
  sent, in 12 polls each, as nine payloads of growing duration and three with the end bit; whatever a network that
  keeps the order loses, as long as one payload of each kind gets through for each key, a fresh receiver reports every
  key exactly once and its end exactly once, in order, and nothing else.\<close>

theorem telev_keys_arrive:
  assumes "alloc_total E" "telev_alloc E ptime = Inr sender" "telev_alloc E ptime' = Inr receiver"
    and "2 * length evs < size_mod" and "list_all2 (arrives (ucast (ptime * 8))) evs ass"
  shows "fst (telev_polls E (12 * length evs) (telev_keys E evs sender)) =
      concat (map (\<lambda>ev. press_pkts (ucast (ptime * 8)) ev @ release_pkts (ucast (ptime * 8)) ev) evs) \<and>
    fst (telev_hear (concat ass) receiver) = concat (map (\<lambda>ev. [(uint ev, False), (uint ev, True)]) evs)"
proof -
  obtain mb where mb: "mbuf_alloc E 16 = Some mb" "mbuf_wf mb" "mb_end mb = 0" "mb_pos mb = 0"
    using mbuf_alloc_run [OF assms(1), of 16] by (auto simp: size_mod_def)
  have s: "on_air sender IDLE 0 0 0 [] ptime" "mb_end (tv_mb sender) = 0" "tv_rx_event receiver = -1"
    using assms(2,3) mb
    by (auto simp: telev_alloc_def on_air_def tel_ok_def tel_queue_def mbuf_ok_def mbuf_rest_def mbuf_content_def split: if_splits)
  have "on_air (telev_keys E evs sender) IDLE 0 0 0 ([] @ concat (map (\<lambda>ev. [ev, 0xff]) evs)) ptime"
    using s(2) assms(4) by (intro telev_keys_run [OF assms(1) s(1)]) simp
  then have "on_air (telev_keys E evs sender) IDLE 0 0 0 (concat (map (\<lambda>ev. [ev, 0xff]) evs) @ []) ptime" by simp
  from polls_digits [OF assms(1) this] hear_digits [OF assms(5) s(3)] show ?thesis by auto
qed

theorem telev_keys_arrive_witness:
  "\<exists>sender receiver. telev_alloc ideal_env 20 = Inr sender \<and> telev_alloc ideal_env 20 = Inr receiver \<and>
     length (fst (telev_polls ideal_env 24 (telev_keys ideal_env [5, 5] sender))) = 24 \<and>
     fst (telev_hear [payload 5 False 160, payload 5 True 1440, payload 5 False 320, payload 5 False 1440, payload 5 True 1440] receiver) =
       [(5, False), (5, True), (5, False), (5, True)]"
proof -
  obtain mb where mb: "mbuf_alloc ideal_env 16 = Some mb" using mbuf_alloc_run [of ideal_env 16] by (auto simp: size_mod_def)
  obtain t where t: "telev_alloc ideal_env 20 = Inr t" using mb by (simp add: telev_alloc_def ideal_env_def)
  have p: "press_pkts 160 5 = [payload 5 False 160, payload 5 False 320, payload 5 False 480, payload 5 False 640, payload 5 False 800,
      payload 5 False 960, payload 5 False 1120, payload 5 False 1280, payload 5 False 1440]"
    "release_pkts 160 5 = [payload 5 True 1440, payload 5 True 1440, payload 5 True 1440]"
    by (simp_all add: press_pkts_def release_pkts_def upt_rec numeral_3_eq_3)
  have "arrives 160 5 [payload 5 False 160, payload 5 True 1440]"
    unfolding arrives_def p by (intro exI [of _ "[payload 5 False 160]"] exI [of _ "[payload 5 True 1440]"]) simp
  moreover have "arrives 160 5 [payload 5 False 320, payload 5 False 1440, payload 5 True 1440]"
    unfolding arrives_def p by (intro exI [of _ "[payload 5 False 320, payload 5 False 1440]"] exI [of _ "[payload 5 True 1440]"])
      (simp add: payload_def)
  ultimately have "list_all2 (arrives (ucast ((20 :: u32) * 8))) [5, 5] [[payload 5 False 160, payload 5 True 1440],
      [payload 5 False 320, payload 5 False 1440, payload 5 True 1440]]" by simp
  from telev_keys_arrive [OF alloc_total_ideal t t _ this] t show ?thesis
    by (intro exI [of _ t]) (simp add: size_mod_def p)
qed

text \<open>\<^verbatim>\<open>telev_digit2code\<close> and \<^verbatim>\<open>telev_code2digit\<close> are inverse: every code below 16 is the code of its digit, and every
  key of the pad (small letters as capital ones) is the digit of its code; other values are refused by both.\<close>

theorem telev_digits_codes:
  "(0 \<le> c \<and> c < 16 \<longrightarrow> telev_digit2code (telev_code2digit c) = c) \<and>
   (telev_digit2code d \<noteq> -1 \<longrightarrow> telev_code2digit (telev_digit2code d) = (if 97 \<le> d then d - 32 else d)) \<and>
   (c < 0 \<or> 16 \<le> c \<longrightarrow> telev_code2digit c = -1)"
proof -
  have 1: "telev_digit2code (telev_code2digit c) = c" if c: "0 \<le> c" "c < 16" for c
  proof -
    have "c = 0 \<or> c = 1 \<or> c = 2 \<or> c = 3 \<or> c = 4 \<or> c = 5 \<or> c = 6 \<or> c = 7 \<or> c = 8 \<or> c = 9 \<or> c = 10 \<or> c = 11 \<or>
      c = 12 \<or> c = 13 \<or> c = 14 \<or> c = 15" using c by presburger
    then show ?thesis by (elim disjE) (simp_all add: telev_code2digit_def telev_digit2code_def)
  qed
  have 2: "telev_code2digit (telev_digit2code d) = (if 97 \<le> d then d - 32 else d)" if d: "telev_digit2code d \<noteq> -1"
  proof -
    have "d = 42 \<or> d = 35 \<or> d = 48 \<or> d = 49 \<or> d = 50 \<or> d = 51 \<or> d = 52 \<or> d = 53 \<or> d = 54 \<or> d = 55 \<or> d = 56 \<or> d = 57 \<or>
      d = 97 \<or> d = 98 \<or> d = 99 \<or> d = 100 \<or> d = 65 \<or> d = 66 \<or> d = 67 \<or> d = 68"
      using d unfolding telev_digit2code_def by presburger
    then show ?thesis by (elim disjE) (simp_all add: telev_code2digit_def telev_digit2code_def)
  qed
  show ?thesis using 1 2 by (auto simp: telev_code2digit_def)
qed

theorem telev_digits_codes_witness: "telev_digit2code (telev_code2digit 11) = 11 \<and> telev_code2digit (telev_digit2code 98) = 66"
  using telev_digits_codes [of 11 98] by (simp add: telev_digit2code_def)

end
