(* ===== verification/Base64.thy ===== *)
theory Base64
  imports Prelude
begin

text \<open>
  Base64: \<^verbatim>\<open>src/base64/b64.c\<close>. The functions get the size of the output array and do not return the bytes but store
  them there; here the result is the error, the bytes stored, and whether a byte was read or stored outside an array.
\<close>

definition b64_table :: "u8 list" where
  "b64_table = map of_char ''ABCDEFGHIJKLMNOPQRSTUVWXYZabcdefghijklmnopqrstuvwxyz0123456789+/''"

text \<open>One round of the loop: up to three bytes become four characters.\<close>

definition b64_digit :: "u32 \<Rightarrow> nat \<Rightarrow> u8" where
  "b64_digit v k = b64_table ! unat (drop_bit k v AND 0x3f)"

definition b64_chars :: "u32 \<Rightarrow> nat \<Rightarrow> u8 list" where
  "b64_chars v pad = [b64_digit v 18, b64_digit v 12, if pad \<ge> 2 then 61 else b64_digit v 6, if pad \<ge> 1 then 61 else b64_digit v 0]"

fun b64_enc_loop :: "u8 list \<Rightarrow> u8 list" where
  "b64_enc_loop [] = []"
| "b64_enc_loop [a] = b64_chars (push_bit 16 (ucast a)) 2"
| "b64_enc_loop [a, b] = b64_chars (push_bit 16 (ucast a) OR push_bit 8 (ucast b)) 1"
| "b64_enc_loop (a # b # c # xs) =
     b64_chars (push_bit 16 (ucast a) OR push_bit 8 (ucast b) OR ucast c) 0 @ b64_enc_loop xs"

definition base64_encode :: "u8 list \<Rightarrow> nat \<Rightarrow> err \<times> u8 list \<times> bool" where
  "base64_encode inp olen =
     (if olen < sz_mul (length inp) 4 div 3 then (EOVERFLOW, [], False)
      else (let out = b64_enc_loop inp in (0, out, olen < length out)))"

definition b64val :: "u8 \<Rightarrow> u32" where
  "b64val c =
     (if 65 \<le> c \<and> c \<le> 90 then ucast c - 65 + 0
      else if 97 \<le> c \<and> c \<le> 122 then ucast c - 97 + 26
      else if 48 \<le> c \<and> c \<le> 57 then ucast c - 48 + 52
      else if c = 43 then 62
      else if c = 47 then 63
      else if c = 61 then push_bit 24 1
      else 0)"

text \<open>The loop reads four characters at a time; the last flag says that it read past the end.\<close>

definition b64_bytes :: "u32 \<Rightarrow> u8 list" where
  "b64_bytes v = [ucast (drop_bit 16 v)] @ (if v AND push_bit 30 1 = 0 then [ucast (drop_bit 8 v AND 0xff)] else []) @
     (if v AND push_bit 24 1 = 0 then [ucast (v AND 0xff)] else [])"

fun b64_dec_loop :: "u8 list \<Rightarrow> u8 list \<times> bool" where
  "b64_dec_loop [] = ([], False)"
| "b64_dec_loop (a # b # c # d # cs) =
     (let v = push_bit 18 (b64val a) OR push_bit 12 (b64val b) OR push_bit 6 (b64val c) OR b64val d
      in case b64_dec_loop cs of (out, past) \<Rightarrow> (b64_bytes v @ out, past))"
| "b64_dec_loop cs = ([], True)"

definition base64_decode :: "u8 list \<Rightarrow> nat \<Rightarrow> err \<times> u8 list \<times> bool" where
  "base64_decode inp olen =
     (if olen < sz_mul (length inp) 3 div 4 then (EOVERFLOW, [], False)
      else (case b64_dec_loop inp of (out, past) \<Rightarrow> (0, out, past \<or> olen < length out)))"

subsection \<open>Round trip and bounds\<close>

lemma length_table: "length b64_table = 64"
  by (simp add: b64_table_def)

lemma table_values: "map b64val b64_table = map of_nat [0..<64]"
  by code_simp

lemma b64val_digit: "b64val (b64_digit v k) = drop_bit k v AND 0x3f"
proof -
  let ?i = "unat (drop_bit k v AND 0x3f)"
  have "(drop_bit k v AND 0x3f) < 64"
    using and_mask_less' [of 6 "drop_bit k v"] by (simp add: mask_eq_exp_minus_1)
  then have i: "?i < 64" by (simp add: word_less_nat_alt)
  then have "b64val (b64_table ! ?i) = map b64val b64_table ! ?i" by (simp add: length_table)
  also have "\<dots> = of_nat ?i" unfolding table_values using i by simp
  finally show ?thesis by (simp add: b64_digit_def)
qed

lemma mask_3f: "(0x3f :: u32) = mask 6"
  by (simp add: mask_eq_exp_minus_1)

lemma regroup:
  fixes v :: u32
  assumes "v < 2 ^ 24"
  shows "push_bit 18 (drop_bit 18 v AND 0x3f) OR push_bit 12 (drop_bit 12 v AND 0x3f) OR push_bit 6 (drop_bit 6 v AND 0x3f) OR
    (drop_bit 0 v AND 0x3f) = v"
  unfolding mask_3f
proof (rule bit_word_eqI)
  fix n assume n: "n < LENGTH(32)"
  have hi: "bit v n \<Longrightarrow> n < 24" using bit_below [OF assms] by blast
  consider "n < 6" | "6 \<le> n" "n < 12" | "12 \<le> n" "n < 18" | "18 \<le> n" "n < 24" | "24 \<le> n" by linarith
  then show "bit (push_bit 18 (drop_bit 18 v AND mask 6) OR push_bit 12 (drop_bit 12 v AND mask 6) OR
      push_bit 6 (drop_bit 6 v AND mask 6) OR (drop_bit 0 v AND mask 6)) n = bit v n"
    using hi n by cases (auto simp: bit_simps)
qed

lemma b64val_pad: "b64val 61 = push_bit 24 1" "push_bit 6 (push_bit 24 1) = (push_bit 30 1 :: u32)"
  by (simp_all add: b64val_def)

definition b64_value :: "u8 list \<Rightarrow> u32" where
  "b64_value cs = push_bit 18 (b64val (cs ! 0)) OR push_bit 12 (b64val (cs ! 1)) OR push_bit 6 (b64val (cs ! 2)) OR b64val (cs ! 3)"

lemma value_full: "v < 2 ^ 24 \<Longrightarrow> b64_value (b64_chars v 0) = v"
  using regroup [of v] by (simp add: b64_value_def b64_chars_def b64val_digit)

lemma digit_zero:
  fixes v :: u32
  assumes "take_bit (k + 6) v = 0"
  shows "drop_bit k v AND 0x3f = 0"
  unfolding mask_3f
proof (rule bit_word_eqI)
  fix n assume n: "n < LENGTH(32)"
  have "bit v i \<Longrightarrow> k + 6 \<le> i" for i
    using assms by (metis bit_0_eq bit_take_bit_iff bot_apply bot_bool_def not_le_imp_less)
  then show "bit (drop_bit k v AND mask 6) n = bit (0 :: u32) n"
    using n by (fastforce simp: bit_simps)
qed

lemma take_bit_less_zero: "take_bit m v = 0 \<Longrightarrow> k \<le> m \<Longrightarrow> take_bit k (v :: u32) = 0"
  by (metis min.absorb1 take_bit_of_0 take_bit_take_bit)

lemma value_one_pad:
  assumes "v < 2 ^ 24" "take_bit 8 v = 0"
  shows "b64_value (b64_chars v 1) = v OR push_bit 24 1"
proof -
  have "drop_bit 0 v AND 0x3f = 0" by (rule digit_zero) (use assms in \<open>auto intro: take_bit_less_zero\<close>)
  then show ?thesis
    using regroup [OF assms(1)] by (simp add: b64_value_def b64_chars_def b64val_digit b64val_pad flip: or.assoc)
qed

lemma value_two_pads:
  assumes "v < 2 ^ 24" "take_bit 16 v = 0"
  shows "b64_value (b64_chars v 2) = v OR push_bit 30 1 OR push_bit 24 1"
proof -
  have "drop_bit 0 v AND 0x3f = 0" "drop_bit 6 v AND 0x3f = 0"
    by (rule digit_zero; use assms in \<open>auto intro: take_bit_less_zero\<close>)+
  then show ?thesis
    using regroup [OF assms(1)] by (simp add: b64_value_def b64_chars_def b64val_digit b64val_pad flip: or.assoc)
qed

abbreviation group3 :: "u8 \<Rightarrow> u8 \<Rightarrow> u8 \<Rightarrow> u32" where
  "group3 a b c \<equiv> push_bit 16 (ucast a) OR push_bit 8 (ucast b) OR ucast c"

lemma u8_bit: "bit (b :: u8) n \<Longrightarrow> n < 8"
  using bit_imp_le_length [of b n] by simp

lemma take_bit_word_less: "take_bit 24 (v :: u32) < 2 ^ 24"
  by (simp add: take_bit_eq_mod word_mod_less_divisor)

lemma group3_less: "group3 a b c < 2 ^ 24"
proof -
  have "take_bit 24 (group3 a b c) = group3 a b c"
    by (rule bit_word_eqI) (auto simp: bit_simps dest: u8_bit)
  then show ?thesis by (metis take_bit_word_less)
qed

lemma mask_ff: "(0xff :: u32) = mask 8"
  by (simp add: mask_eq_exp_minus_1)

lemma b64_bytes_bits:
  "b64_bytes v = [ucast (drop_bit 16 v)] @ (if bit v 30 then [] else [ucast (drop_bit 8 v)]) @ (if bit v 24 then [] else [ucast v])"
proof -
  have "ucast (w AND 0xff) = (ucast w :: u8)" for w :: u32
    unfolding mask_ff by (rule bit_word_eqI) (auto simp: bit_simps)
  then show ?thesis by (simp only: b64_bytes_def bit_iff_and_push_bit_not_eq_0) simp
qed

lemma group_bytes_pad:
  fixes p :: u32
  assumes "bit p 0"
  shows "b64_bytes (push_bit 16 (ucast a) OR push_bit 8 (ucast b) OR push_bit 24 p) = (if bit p 6 then [a] else [a, b])"
proof -
  let ?v = "push_bit 16 (ucast a) OR push_bit 8 (ucast b) OR push_bit 24 p :: u32"
  have "ucast (drop_bit 16 ?v) = a" "ucast (drop_bit 8 ?v) = b"
    by (rule bit_word_eqI, auto simp: bit_simps dest: u8_bit)+
  moreover have "bit ?v 30 = bit p 6" "bit ?v 24" using assms by (auto simp: bit_simps dest: u8_bit)
  ultimately show ?thesis by (simp only: b64_bytes_bits) simp
qed

lemma group3_bytes:
  "b64_bytes (group3 a b c) = [a, b, c]"
  "b64_bytes (push_bit 16 (ucast a) OR push_bit 8 (ucast b) OR 16777216) = [a, b]"
  "b64_bytes (push_bit 16 (ucast a) OR 1090519040) = [a]"
proof -
  have "ucast (drop_bit 16 (group3 a b c)) = a" "ucast (drop_bit 8 (group3 a b c)) = b" "ucast (group3 a b c) = c"
      "\<not> bit (group3 a b c) 30" "\<not> bit (group3 a b c) 24"
    by ((rule bit_word_eqI)?, auto simp: bit_simps dest: u8_bit)+
  then show "b64_bytes (group3 a b c) = [a, b, c]" by (simp only: b64_bytes_bits) simp
qed (use group_bytes_pad [of 1 a b] group_bytes_pad [of "0x41" a 0] in \<open>simp_all add: bit_0\<close>)

lemma enc_dec_loop: "b64_dec_loop (b64_enc_loop xs) = (xs, False)"
proof (induction xs rule: b64_enc_loop.induct)
  case (2 a)
  have "b64_value (b64_chars (push_bit 16 (ucast a)) 2) = push_bit 16 (ucast a) OR push_bit 30 1 OR push_bit 24 1"
    by (rule value_two_pads) (use group3_less [of a 0 0] in \<open>auto intro!: bit_word_eqI simp: bit_simps\<close>)
  then show ?case by (simp add: b64_value_def b64_chars_def Let_def group3_bytes del: push_bit_numeral)
next
  case (3 a b)
  let ?v = "push_bit 16 (ucast a) OR push_bit 8 (ucast b) :: u32"
  have "b64_value (b64_chars ?v 1) = ?v OR push_bit 24 1"
    by (rule value_one_pad) (use group3_less [of a b 0] in \<open>auto intro!: bit_word_eqI simp: bit_simps\<close>)
  then show ?case by (simp add: b64_value_def b64_chars_def Let_def group3_bytes or.assoc)
next
  case (4 a b c xs)
  have "b64_value (b64_chars (group3 a b c) 0) = group3 a b c"
    by (rule value_full [OF group3_less])
  then show ?case using 4 by (simp add: b64_value_def b64_chars_def Let_def group3_bytes)
qed simp

lemma length_enc_loop: "length (b64_enc_loop xs) = 4 * ((length xs + 2) div 3)"
proof (induction xs rule: b64_enc_loop.induct)
  case (4 a b c xs)
  have "(length (a # b # c # xs) + 2) div 3 = Suc ((length xs + 2) div 3)"
    by (simp add: numeral_3_eq_3 [symmetric] div_eq_dividend_iff)
  then show ?case using 4 by (simp add: b64_chars_def)
qed (simp_all add: b64_chars_def)

text \<open>C39: Decoding what was encoded gives the bytes back, without leaving any array, when the arrays have room for the padded
  text and for its decoded size.\<close>

theorem base64_roundtrip:
  assumes "12 * ((length xs + 2) div 3) < size_mod"
    and "4 * ((length xs + 2) div 3) \<le> olen" "3 * ((length xs + 2) div 3) \<le> olen'"
  shows "\<exists>txt. base64_encode xs olen = (0, txt, False) \<and> base64_decode txt olen' = (0, xs, False)"
proof -
  let ?n = "(length xs + 2) div 3" and ?txt = "b64_enc_loop xs"
  have "length xs \<le> 3 * ?n" by presburger
  then have "length xs * 4 div 3 \<le> olen" "length xs * 4 < size_mod" "length xs \<le> olen'" using assms by linarith+
  then have "base64_encode xs olen = (0, ?txt, False)"
    using assms(2) by (simp add: base64_encode_def sz_mul_small length_enc_loop)
  moreover have "base64_decode ?txt olen' = (0, xs, False)"
    using assms(1,3) \<open>length xs \<le> olen'\<close> by (simp add: base64_decode_def sz_mul_small length_enc_loop enc_dec_loop)
  ultimately show ?thesis by blast
qed

theorem base64_roundtrip_witness:
  "\<exists>txt. base64_encode [0x66, 0x6f, 0x6f, 0x62] 8 = (0, txt, False) \<and> base64_decode txt 6 = (0, [0x66, 0x6f, 0x6f, 0x62], False)"
  by (rule base64_roundtrip) (simp_all add: size_mod_def)

lemma dec_loop_past: "snd (b64_dec_loop cs) \<longleftrightarrow> length cs mod 4 \<noteq> 0"
proof (induction cs rule: b64_dec_loop.induct)
  case (2 a b c d cs)
  have "length (a # b # c # d # cs) mod 4 = length cs mod 4" by simp
  then show ?case using 2 by (cases "b64_dec_loop cs") (simp add: Let_def)
qed simp_all

lemma length_dec_loop: "length (fst (b64_dec_loop cs)) \<le> 3 * (length cs div 4)"
proof (induction cs rule: b64_dec_loop.induct)
  case (2 a b c d cs)
  have "length (b64_bytes v) \<le> 3" for v by (simp add: b64_bytes_def)
  moreover have "length (a # b # c # d # cs) div 4 = length cs div 4 + 1" by simp
  ultimately show ?case using 2 by (cases "b64_dec_loop cs") (simp add: Let_def add_mono)
qed simp_all

text \<open>C40: The size check of the encoder rounds down where the text is padded up: exactly the sizes in between make it store
  past the end of the output. An access of the decoder is outside of an array exactly when the sizes pass its check and the length of
  the input is not a multiple of four: then it reads past its input.\<close>

theorem base64_overruns:
  assumes "length xs * 4 < size_mod"
  shows "(snd (snd (base64_encode xs olen)) \<longleftrightarrow> length xs * 4 div 3 \<le> olen \<and> olen < 4 * ((length xs + 2) div 3)) \<and>
    (snd (snd (base64_decode xs olen')) \<longleftrightarrow> length xs * 3 div 4 \<le> olen' \<and> length xs mod 4 \<noteq> 0)"
proof
  show "snd (snd (base64_encode xs olen)) \<longleftrightarrow> length xs * 4 div 3 \<le> olen \<and> olen < 4 * ((length xs + 2) div 3)"
    using assms by (auto simp: base64_encode_def sz_mul_small length_enc_loop Let_def)
  have "length (fst (b64_dec_loop xs)) \<le> length xs * 3 div 4" using length_dec_loop [of xs] by linarith
  then show "snd (snd (base64_decode xs olen')) \<longleftrightarrow> length xs * 3 div 4 \<le> olen' \<and> length xs mod 4 \<noteq> 0"
    using assms dec_loop_past [of xs] by (auto simp: base64_decode_def sz_mul_small split: prod.splits)
qed

theorem base64_overruns_witness:
  "snd (snd (base64_encode [0x66, 0x6f, 0x6f, 0x62] 5)) \<and> snd (snd (base64_decode [0x66] 0))"
  using base64_overruns [of "[0x66, 0x6f, 0x6f, 0x62]" 5 0] base64_overruns [of "[0x66]" 0 0] by (simp add: size_mod_def)

end
