(* ===== verification/Regex.thy ===== *)
theory Regex
  imports Pl
begin

text \<open>
  The expression matcher all text parsers are built on: \<^verbatim>\<open>re_regex\<close> of \<^verbatim>\<open>src/fmt/regex.c\<close>. An expression is a list of
  literal characters and character classes, each class with its number of repetitions; the matcher looks for the first
  place of the subject where the parts match one after the other, every class taking as much as it can. What a class took
  is a span of the subject, an offset and a length; the pointers given by the caller are the list of the spans, of which
  a failed attempt leaves those it stored.
\<close>

subsection \<open>The matcher\<close>

type_synonym span = "nat \<times> nat"

definition span_of :: "u8 list \<Rightarrow> span \<Rightarrow> u8 list" where
  "span_of s x = take (snd x) (drop (fst x) s)"

definition CHRV_SIZE :: nat where "CHRV_SIZE = 64"

definition expr_match :: "(u8 \<times> u8) list \<Rightarrow> u8 \<Rightarrow> bool \<Rightarrow> bool" where
  "expr_match chrv c neg = (let hit = (\<exists>(mn, mx) \<in> set chrv. \<not> c < mn \<and> \<not> c > mx) in if neg then \<not> hit else hit)"

text \<open>How many characters a class takes, at most \<open>k\<close>.\<close>

fun re_scan :: "(u8 \<times> u8) list \<Rightarrow> bool \<Rightarrow> bool \<Rightarrow> bool \<Rightarrow> bool \<Rightarrow> nat \<Rightarrow> u8 list \<Rightarrow> nat" where
  "re_scan chrv neg qesc quote esc (Suc k) (c # cs) =
     (if qesc \<and> esc then Suc (re_scan chrv neg qesc quote False k cs)
      else if qesc \<and> c = 92 then Suc (re_scan chrv neg qesc quote True k cs)
      else if qesc \<and> c = 34 then Suc (re_scan chrv neg qesc (\<not> quote) esc k cs)
      else if qesc \<and> quote then Suc (re_scan chrv neg qesc quote esc k cs)
      else if \<not> expr_match chrv (tolower c) neg then 0
      else Suc (re_scan chrv neg qesc quote esc k cs))"
| "re_scan chrv neg qesc quote esc _ _ = 0"

text \<open>The variables of the loop; \<open>rx_p\<close> is the place in the subject, \<open>rx_chrv\<close> the array \<^verbatim>\<open>chrv\<close>, \<open>rx_pl\<close> the spans
  stored, \<open>rx_i\<close> the next pointer of the caller, \<open>rx_fault\<close> says that a store was outside the array.\<close>

record re_st =
  rx_p :: nat
  rx_fm :: bool
  rx_range :: bool
  rx_ec :: bool
  rx_neg :: bool
  rx_qesc :: bool
  rx_eesc :: bool
  rx_n :: nat
  rx_chrv :: "(u8 \<times> u8) list"
  rx_i :: nat
  rx_pl :: "span list"
  rx_fault :: bool

definition list_put :: "nat \<Rightarrow> 'a \<Rightarrow> 'a list \<Rightarrow> 'a list" where
  "list_put i x xs = (if i < length xs then xs[i := x] else xs @ [x])"

datatype re_next = Go re_st | Again re_st | Out re_st

definition rep_bounds :: "u8 \<Rightarrow> (nat \<times> nat) option" where
  "rep_bounds c =
     (if c = 42 then Some (0, 2 ^ 32 - 1)
      else if c = 43 then Some (1, 2 ^ 32 - 1)
      else if 49 \<le> c \<and> c \<le> 57 then Some (unat (c - 48), unat (c - 48))
      else None)"

text \<open>The end of a class: what it takes, less the quotes around it.\<close>

definition re_take :: "u8 list \<Rightarrow> nat \<Rightarrow> nat \<Rightarrow> re_st \<Rightarrow> re_next" where
  "re_take s nmin nmax st =
     (let cs = drop (rx_p st) s;
          k = re_scan (take (rx_n st) (rx_chrv st)) (rx_neg st) (rx_qesc st) False False nmax cs;
          quoted = (rx_qesc st \<and> k > 1 \<and> cs ! 0 = 34 \<and> cs ! (k - 1) = 34);
          lpl = (if quoted then (rx_p st + 1, k - 2) else (rx_p st, k));
          nm = (if quoted then k - 2 else k);
          st = st\<lparr>rx_fm := False, rx_p := rx_p st + k\<rparr>
      in if nm < nmin \<or> nm > nmax then Again st
         else Go (st\<lparr>rx_i := rx_i st + 1, rx_pl := list_put (rx_i st) lpl (rx_pl st), rx_eesc := False\<rparr>))"

text \<open>A character of a class.\<close>

definition re_chr :: "u8 \<Rightarrow> re_st \<Rightarrow> re_next" where
  "re_chr c st =
     (let n = rx_n st; c = tolower c;
          mn = (if rx_range st then fst (rx_chrv st ! n) else c);
          st = st\<lparr>rx_fault := (rx_fault st \<or> n \<ge> CHRV_SIZE), rx_chrv := list_put n (mn, c) (rx_chrv st), rx_range := False,
                  rx_n := n + 1\<rparr>
      in if n + 1 > CHRV_SIZE then Out st else Go st)"

text \<open>One round of the loop.\<close>

definition re_step :: "u8 list \<Rightarrow> u8 \<Rightarrow> re_st \<Rightarrow> re_next" where
  "re_step s c st =
     (if c = 92 \<and> \<not> rx_eesc st then Go (st\<lparr>rx_eesc := True\<rparr>)
      else if \<not> rx_fm st then
        (if c = 91 \<and> \<not> rx_eesc st
         then Go (st\<lparr>rx_n := 0, rx_fm := True, rx_ec := False, rx_neg := False, rx_range := False, rx_qesc := False\<rparr>)
         else if rx_p st \<ge> length s then Out st
         else if tolower c \<noteq> tolower (s ! rx_p st) then Again st
         else Go (st\<lparr>rx_eesc := False, rx_p := rx_p st + 1\<rparr>))
      else if rx_ec st then
        (case rep_bounds c of None \<Rightarrow> Out st | Some (nmin, nmax) \<Rightarrow> re_take s nmin nmax st)
      else if rx_eesc st then re_chr c (st\<lparr>rx_eesc := False\<rparr>)
      else if c = 93 then Go (st\<lparr>rx_ec := True\<rparr>)
      else if c = 126 \<and> rx_n st = 0 then Go (st\<lparr>rx_qesc := True, rx_neg := True\<rparr>)
      else if c = 94 \<and> rx_n st = 0 then Go (st\<lparr>rx_neg := True\<rparr>)
      else if c = 45 \<and> rx_n st \<noteq> 0 \<and> \<not> rx_range st then Go (st\<lparr>rx_range := True, rx_n := rx_n st - 1\<rparr>)
      else re_chr c st)"

fun re_loop :: "u8 list \<Rightarrow> u8 list \<Rightarrow> re_st \<Rightarrow> re_next \<times> u8 list" where
  "re_loop s [] st = (Out st, [])"
| "re_loop s (c # ep) st = (case re_step s c st of Go st \<Rightarrow> re_loop s ep st | r \<Rightarrow> (r, c # ep))"

definition re_init :: "nat \<Rightarrow> span list \<Rightarrow> bool \<Rightarrow> re_st" where
  "re_init start pls fault = \<lparr>rx_p = start, rx_fm = False, rx_range = False, rx_ec = False, rx_neg = False, rx_qesc = False,
     rx_eesc = False, rx_n = 0, rx_chrv = [], rx_i = 0, rx_pl = pls, rx_fault = fault\<rparr>"

definition re_out :: "bool \<Rightarrow> u8 list \<Rightarrow> err" where
  "re_out fm ep = (if fm then EINVAL else if ep \<noteq> [] then ENOENT else 0)"

text \<open>One attempt after the other, each a character further; none is made at the end of the subject.\<close>

function re_search :: "u8 list \<Rightarrow> u8 list \<Rightarrow> nat \<Rightarrow> span list \<Rightarrow> bool \<Rightarrow> err \<times> span list \<times> bool" where
  "re_search s expr start pls fault =
     (if start \<ge> length s then (re_out False expr, pls, fault)
      else (case re_loop s expr (re_init start pls fault) of
          (Again st, ep) \<Rightarrow> re_search s expr (start + 1) (rx_pl st) (rx_fault st)
        | (Go st, ep) \<Rightarrow> (re_out (rx_fm st) ep, rx_pl st, rx_fault st)
        | (Out st, ep) \<Rightarrow> (re_out (rx_fm st) ep, rx_pl st, rx_fault st)))"
  by pat_completeness auto

termination by (relation "measure (\<lambda>(s, expr, start, pls, fault). length s - start)") auto

declare re_search.simps [simp del]

definition re_regex :: "pl \<Rightarrow> u8 list \<Rightarrow> err \<times> span list \<times> bool" where
  "re_regex ptr expr = (case ptr of None \<Rightarrow> (EINVAL, [], False) | Some s \<Rightarrow> re_search s expr 0 [] False)"

subsection \<open>What an expression means\<close>

text \<open>The parts of an expression, and the text they are written as. A class takes characters of its ranges, or all others;
  the quoting kind takes quoted strings whole.\<close>

datatype cls_elem = Ch u8 | Rng u8 u8
datatype rep = Star | Plus | Times nat
datatype cls_kind = In | NotIn | Quoting
datatype re_item = Lit u8 | Esc u8 | Cls cls_kind "cls_elem list" rep

fun elem_text :: "cls_elem \<Rightarrow> u8 list" where
  "elem_text (Ch c) = [c]"
| "elem_text (Rng a b) = [a, 45, b]"

fun rep_text :: "rep \<Rightarrow> u8" where
  "rep_text Star = 42" | "rep_text Plus = 43" | "rep_text (Times k) = 48 + of_nat k"

fun kind_text :: "cls_kind \<Rightarrow> u8 list" where
  "kind_text In = []" | "kind_text NotIn = [94]" | "kind_text Quoting = [126]"

fun item_text :: "re_item \<Rightarrow> u8 list" where
  "item_text (Lit c) = [c]"
| "item_text (Esc c) = [92, c]"
| "item_text (Cls kd es r) = [91] @ kind_text kd @ concat (map elem_text es) @ [93, rep_text r]"

definition re_text :: "re_item list \<Rightarrow> u8 list" where "re_text is = concat (map item_text is)"

text \<open>Items that can be written: no character that has another meaning at its place.\<close>

fun elem_ok :: "bool \<Rightarrow> cls_elem \<Rightarrow> bool" where
  "elem_ok first (Ch c) \<longleftrightarrow> c \<notin> {92, 93} \<and> (if first then c \<notin> {94, 126} else c \<noteq> 45)"
| "elem_ok first (Rng a b) \<longleftrightarrow> a \<notin> {92, 93} \<and> (if first then a \<notin> {94, 126} else a \<noteq> 45) \<and> b \<notin> {92, 93, 94, 126}"

fun elems_ok :: "cls_elem list \<Rightarrow> bool" where
  "elems_ok [] \<longleftrightarrow> True" | "elems_ok (e # es) \<longleftrightarrow> elem_ok True e \<and> list_all (elem_ok False) es"

fun rep_ok :: "rep \<Rightarrow> bool" where "rep_ok (Times k) \<longleftrightarrow> 1 \<le> k \<and> k \<le> 9" | "rep_ok _ \<longleftrightarrow> True"

fun item_ok :: "re_item \<Rightarrow> bool" where
  "item_ok (Lit c) \<longleftrightarrow> c \<notin> {91, 92}"
| "item_ok (Esc c) \<longleftrightarrow> True"
| "item_ok (Cls kd es r) \<longleftrightarrow> length es \<le> CHRV_SIZE \<and> elems_ok es \<and> rep_ok r"

text \<open>What a class takes from a text, and whether that is enough.\<close>

fun elem_range :: "cls_elem \<Rightarrow> u8 \<times> u8" where
  "elem_range (Ch c) = (tolower c, tolower c)" | "elem_range (Rng a b) = (tolower a, tolower b)"

definition elem_hit :: "cls_elem list \<Rightarrow> u8 \<Rightarrow> bool" where
  "elem_hit es c \<longleftrightarrow> (\<exists>e \<in> set es. fst (elem_range e) \<le> tolower c \<and> tolower c \<le> snd (elem_range e))"

fun skip_quoted :: "cls_elem list \<Rightarrow> u8 list \<Rightarrow> nat" and in_quotes :: "cls_elem list \<Rightarrow> u8 list \<Rightarrow> nat" where
  "skip_quoted es [] = 0"
| "skip_quoted es (c # cs) =
     (if c = 92 then (case cs of [] \<Rightarrow> 1 | _ # cs' \<Rightarrow> 2 + skip_quoted es cs')
      else if c = 34 then 1 + in_quotes es cs
      else if elem_hit es c then 0 else 1 + skip_quoted es cs)"
| "in_quotes es [] = 0"
| "in_quotes es (c # cs) =
     (if c = 92 then (case cs of [] \<Rightarrow> 1 | _ # cs' \<Rightarrow> 2 + in_quotes es cs')
      else if c = 34 then 1 + skip_quoted es cs
      else 1 + in_quotes es cs)"

fun class_len :: "cls_kind \<Rightarrow> cls_elem list \<Rightarrow> u8 list \<Rightarrow> nat" where
  "class_len In es cs = length (takeWhile (elem_hit es) cs)"
| "class_len NotIn es cs = length (takeWhile (\<lambda>c. \<not> elem_hit es c) cs)"
| "class_len Quoting es cs = skip_quoted es cs"

fun rep_max :: "rep \<Rightarrow> nat option" where "rep_max (Times k) = Some k" | "rep_max _ = None"
fun rep_min :: "rep \<Rightarrow> nat" where "rep_min Star = 0" | "rep_min Plus = 1" | "rep_min (Times k) = k"

text \<open>The span a class takes at an offset, without the quotes, and how far it goes.\<close>

definition class_span :: "cls_kind \<Rightarrow> cls_elem list \<Rightarrow> rep \<Rightarrow> nat \<Rightarrow> u8 list \<Rightarrow> (nat \<times> span) option" where
  "class_span kd es r off cs =
     (let k = (case rep_max r of None \<Rightarrow> class_len kd es cs | Some m \<Rightarrow> class_len kd es (take m cs));
          q = (kd = Quoting \<and> 1 < k \<and> hd cs = 34 \<and> cs ! (k - 1) = 34);
          w = (if q then k - 2 else k)
      in if w < rep_min r then None else Some (k, if q then off + 1 else off, w))"

datatype re_res = Hit "span list" | Miss | Short

text \<open>\<open>Short\<close>: a literal was due at the end of the subject. That ends the search, whatever would come later.\<close>

fun re_match :: "nat \<Rightarrow> u8 list \<Rightarrow> re_item list \<Rightarrow> re_res" where
  "re_match off cs [] = Hit []"
| "re_match off cs (Cls kd es r # is) = (case class_span kd es r off cs of
     None \<Rightarrow> Miss
   | Some (k, sp) \<Rightarrow> (case re_match (off + k) (drop k cs) is of Hit sps \<Rightarrow> Hit (sp # sps) | x \<Rightarrow> x))"
| "re_match off cs (i # is) = (case cs of
     [] \<Rightarrow> Short
   | c # cs' \<Rightarrow> (let l = (case i of Lit l \<Rightarrow> l | Esc l \<Rightarrow> l) in
       if tolower l \<noteq> tolower c then Miss else re_match (off + 1) cs' is))"

fun re_find :: "nat \<Rightarrow> u8 list \<Rightarrow> re_item list \<Rightarrow> span list option" where
  "re_find off [] is = (if is = [] then Some [] else None)"
| "re_find off (c # cs) is = (case re_match off (c # cs) is of
     Hit sps \<Rightarrow> Some sps | Short \<Rightarrow> None | Miss \<Rightarrow> re_find (off + 1) cs is)"

subsection \<open>The matcher computes the meaning\<close>

abbreviation ranges :: "cls_elem list \<Rightarrow> (u8 \<times> u8) list" where "ranges es \<equiv> map elem_range es"

lemma expr_match_hit: "expr_match (ranges es) (tolower c) neg = (if neg then \<not> elem_hit es c else elem_hit es c)"
proof -
  have "(\<exists>(mn, mx) \<in> set (ranges es). \<not> tolower c < mn \<and> \<not> tolower c > mx) = elem_hit es c"
    by (simp add: elem_hit_def case_prod_beta not_less)
  then show ?thesis by (simp add: expr_match_def Let_def)
qed

lemma scan_plain:
  "re_scan (ranges es) neg False False False k cs = length (takeWhile (\<lambda>c. if neg then \<not> elem_hit es c else elem_hit es c) (take k cs))"
  by (induction cs arbitrary: k; case_tac k) (simp_all add: expr_match_hit)

lemma scan_quoting:
  "re_scan (ranges es) True True False False k cs = skip_quoted es (take k cs)"
  "re_scan (ranges es) True True True False k cs = in_quotes es (take k cs)"
  "re_scan (ranges es) True True q True k cs =
     (case take k cs of [] \<Rightarrow> 0 | _ # cs' \<Rightarrow> 1 + (if q then in_quotes es cs' else skip_quoted es cs'))"
proof (induction cs arbitrary: k q)
  case (Cons c cs)
  have two: "(case xs of [] \<Rightarrow> 1 | _ # ys \<Rightarrow> 2 + f ys) = Suc (case xs of [] \<Rightarrow> 0 | _ # ys \<Rightarrow> 1 + f ys)" for xs :: "u8 list" and f
    by (cases xs) simp_all
  { case 1 show ?case by (cases k) (simp_all add: Cons expr_match_hit two split: list.split) }
  { case 2 show ?case by (cases k) (simp_all add: Cons expr_match_hit two split: list.split) }
  { case 3 show ?case by (cases k) (simp_all add: Cons) }
qed simp_all

lemma scan_class:
  "re_scan (ranges es) (kd \<noteq> In) (kd = Quoting) False False k cs = class_len kd es (take k cs)"
  by (cases kd) (simp_all add: scan_plain scan_quoting)

definition same_place :: "re_st \<Rightarrow> re_st \<Rightarrow> bool" where
  "same_place st st' \<longleftrightarrow> rx_p st' = rx_p st \<and> rx_i st' = rx_i st \<and> rx_pl st' = rx_pl st \<and> rx_fault st' = rx_fault st \<and>
     rx_neg st' = rx_neg st \<and> rx_qesc st' = rx_qesc st"

definition in_class :: "cls_elem list \<Rightarrow> re_st \<Rightarrow> bool" where
  "in_class es st \<longleftrightarrow> rx_fm st \<and> \<not> rx_ec st \<and> \<not> rx_eesc st \<and> \<not> rx_range st \<and> rx_n st = length es \<and>
     take (length es) (rx_chrv st) = ranges es"

definition idle :: "re_st \<Rightarrow> bool" where "idle st \<longleftrightarrow> \<not> rx_fm st \<and> \<not> rx_eesc st"

lemma take_list_put: "n \<le> length xs \<Longrightarrow> take (Suc n) (list_put n x xs) = take n xs @ [x]"
  by (cases "n < length xs") (simp_all add: list_put_def take_Suc_conv_app_nth)

lemma in_class_length: "in_class es st \<Longrightarrow> length es \<le> length (rx_chrv st)"
  unfolding in_class_def by (metis length_map length_take min.cobounded1)

lemma re_chr_go:
  assumes "in_class es st" "length es < CHRV_SIZE"
  shows "\<exists>st'. re_chr c st = Go st' \<and> in_class (es @ [Ch c]) st' \<and> same_place st st'"
  using assms in_class_length [OF assms(1)]
  by (auto simp: re_chr_def Let_def in_class_def same_place_def take_list_put)

lemma re_chr_range:
  assumes "in_class (es @ [Ch a]) st" "length es < CHRV_SIZE"
  shows "\<exists>st'. re_chr b (st\<lparr>rx_range := True, rx_n := rx_n st - 1\<rparr>) = Go st' \<and> in_class (es @ [Rng a b]) st' \<and> same_place st st'"
proof -
  have l: "length es < length (rx_chrv st)" using in_class_length [OF assms(1)] by simp
  have t: "take (Suc (length es)) (rx_chrv st) = ranges es @ [(tolower a, tolower a)]" using assms(1) by (simp add: in_class_def)
  then have "take (length es) (rx_chrv st) = ranges es" "rx_chrv st ! length es = (tolower a, tolower a)"
    using l by (simp_all add: take_Suc_conv_app_nth)
  then show ?thesis using assms l
    by (auto simp: re_chr_def Let_def in_class_def same_place_def take_list_put)
qed

lemma re_loop_Go: "re_step s c st = Go st' \<Longrightarrow> re_loop s (c # ep) st = re_loop s ep st'"
  by simp

lemma same_place_trans: "same_place a b \<Longrightarrow> same_place b c \<Longrightarrow> same_place a c"
  by (simp add: same_place_def)

lemma re_step_chr:
  assumes "in_class es st" "c \<notin> {92, 93}" "es = [] \<longrightarrow> c \<notin> {94, 126}" "es \<noteq> [] \<longrightarrow> c \<noteq> 45"
  shows "re_step s c st = re_chr c st"
  using assms by (cases "es = []") (simp_all add: re_step_def in_class_def)

lemma class_elem:
  assumes "in_class es st" "elem_ok (es = []) e" "length es < CHRV_SIZE"
  shows "\<exists>st'. re_loop s (elem_text e @ ep) st = re_loop s ep st' \<and> in_class (es @ [e]) st' \<and> same_place st st'"
proof (cases e)
  case (Ch c)
  then have "re_step s c st = re_chr c st" using assms by (intro re_step_chr) (auto split: if_splits)
  then show ?thesis using re_chr_go [OF assms(1,3), of c] Ch by auto
next
  case (Rng a b)
  then have a: "re_step s a st = re_chr a st" using assms by (intro re_step_chr) (auto split: if_splits)
  obtain st1 where st1: "re_chr a st = Go st1" "in_class (es @ [Ch a]) st1" "same_place st st1"
    using re_chr_go [OF assms(1,3)] by blast
  let ?st = "st1\<lparr>rx_range := True, rx_n := rx_n st1 - 1\<rparr>"
  have dash: "re_step s 45 st1 = Go ?st" using st1(2) by (simp add: re_step_def in_class_def)
  have "re_step s b ?st = re_chr b ?st" using Rng assms(2) st1(2) by (auto simp: re_step_def in_class_def)
  moreover obtain st2 where "re_chr b ?st = Go st2" "in_class (es @ [Rng a b]) st2" "same_place st1 st2"
    using re_chr_range [OF st1(2) assms(3)] by blast
  ultimately show ?thesis using Rng a st1 dash same_place_trans by auto
qed

lemma class_elems:
  assumes "in_class es st" "list_all (elem_ok False) es'" "es \<noteq> []" "length es + length es' \<le> CHRV_SIZE"
  shows "\<exists>st'. re_loop s (concat (map elem_text es') @ ep) st = re_loop s ep st' \<and> in_class (es @ es') st' \<and> same_place st st'"
  using assms
proof (induction es' arbitrary: es st)
  case (Cons e es')
  obtain st1 where st1: "re_loop s (elem_text e @ concat (map elem_text es') @ ep) st = re_loop s (concat (map elem_text es') @ ep) st1"
    "in_class (es @ [e]) st1" "same_place st st1"
    using class_elem [of es st e] Cons.prems by auto
  show ?case using Cons.IH [OF st1(2)] Cons.prems st1 same_place_trans by fastforce
qed (auto simp: same_place_def)

lemma class_all:
  assumes "in_class [] st" "elems_ok es" "length es \<le> CHRV_SIZE"
  shows "\<exists>st'. re_loop s (concat (map elem_text es) @ ep) st = re_loop s ep st' \<and> in_class es st' \<and> same_place st st'"
proof (cases es)
  case (Cons e es')
  obtain st1 where st1: "re_loop s (elem_text e @ concat (map elem_text es') @ ep) st = re_loop s (concat (map elem_text es') @ ep) st1"
    "in_class [e] st1" "same_place st st1"
    using class_elem [of "[]" st e] assms Cons by auto
  show ?thesis using class_elems [OF st1(2), of es' s ep] assms Cons st1 same_place_trans by fastforce
qed (use assms in \<open>auto simp: same_place_def\<close>)

text \<open>The opening of a class.\<close>

definition opened :: "cls_kind \<Rightarrow> re_st \<Rightarrow> re_st" where
  "opened kd st = st\<lparr>rx_n := 0, rx_fm := True, rx_ec := False, rx_range := False, rx_qesc := (kd = Quoting), rx_neg := (kd \<noteq> In)\<rparr>"

lemma class_open: "idle st \<Longrightarrow> re_loop s ([91] @ kind_text kd @ ep) st = re_loop s ep (opened kd st)"
  by (cases kd; cases st) (simp_all add: re_step_def idle_def opened_def)

lemma rep_bounds_text:
  "rep_ok r \<Longrightarrow> rep_bounds (rep_text r) = Some (rep_min r, case rep_max r of None \<Rightarrow> 2 ^ 32 - 1 | Some m \<Rightarrow> m)"
proof (cases r)
  case (Times k)
  assume "rep_ok r"
  then have "k \<in> {1, 2, 3, 4, 5, 6, 7, 8, 9}" using Times by auto
  then show ?thesis using Times by (auto simp: rep_bounds_def)
qed (simp_all add: rep_bounds_def)

lemma skip_quoted_le: "skip_quoted es cs \<le> length cs" "in_quotes es cs' \<le> length cs'"
  by (induction es cs and es cs' rule: skip_quoted_in_quotes.induct) (auto split: list.splits)

lemma class_len_le: "class_len kd es cs \<le> length cs"
  using skip_quoted_le(1) [of es cs] by (cases kd) (simp_all add: length_takeWhile_le)

lemma class_span_bounds:
  assumes "class_span kd es r off cs = Some (k, sp)"
  shows "k \<le> length cs"
  using assms class_len_le [of kd es cs] class_len_le [of kd es "take (the (rep_max r)) cs"]
  by (auto simp: class_span_def Let_def split: if_splits option.splits)

text \<open>A whole class, from the bracket to the repetition.\<close>

lemma re_take_span:
  fixes s st r kd es
  defines "cs \<equiv> drop (rx_p st) s" and "m \<equiv> (case rep_max r of None \<Rightarrow> 2 ^ 32 - 1 | Some m \<Rightarrow> m)"
  defines "K \<equiv> (case rep_max r of None \<Rightarrow> class_len kd es cs | Some m \<Rightarrow> class_len kd es (take m cs))"
  assumes K: "re_scan (take (rx_n st) (rx_chrv st)) (rx_neg st) (rx_qesc st) False False m cs = K" "K \<le> m"
    and q: "rx_qesc st = (kd = Quoting)"
  shows "re_take s (rep_min r) m st = (case class_span kd es r (rx_p st) cs of
      None \<Rightarrow> Again (st\<lparr>rx_fm := False, rx_p := rx_p st + K\<rparr>)
    | Some (k, sp) \<Rightarrow> Go (st\<lparr>rx_fm := False, rx_p := rx_p st + k, rx_i := rx_i st + 1,
         rx_pl := list_put (rx_i st) sp (rx_pl st), rx_eesc := False\<rparr>))"
proof -
  have "K \<le> length cs" unfolding K_def using class_len_le [of kd es cs] class_len_le [of kd es "take (the (rep_max r)) cs"]
    by (auto split: option.splits)
  then have h: "1 < K \<Longrightarrow> hd cs = cs ! 0" by (cases cs) auto
  define quoted where "quoted \<longleftrightarrow> kd = Quoting \<and> 1 < K \<and> cs ! 0 = 34 \<and> cs ! (K - 1) = 34"
  have sp: "class_span kd es r (rx_p st) cs =
      (let w = (if quoted then K - 2 else K) in if w < rep_min r then None else Some (K, if quoted then rx_p st + 1 else rx_p st, w))"
    unfolding class_span_def K_def [symmetric] Let_def quoted_def using h by auto
  have "re_take s (rep_min r) m st =
     (let lpl = (if quoted then (rx_p st + 1, K - 2) else (rx_p st, K));
          nm = (if quoted then K - 2 else K);
          st = st\<lparr>rx_fm := False, rx_p := rx_p st + K\<rparr>
      in if nm < rep_min r \<or> nm > m then Again st
         else Go (st\<lparr>rx_i := rx_i st + 1, rx_pl := list_put (rx_i st) lpl (rx_pl st), rx_eesc := False\<rparr>))"
    unfolding re_take_def cs_def [symmetric] Let_def q K(1) [unfolded q] quoted_def by (simp only: conj_assoc)
  then show ?thesis using K(2) unfolding sp by (cases quoted) (auto simp: Let_def)
qed

lemma class_item:
  assumes st: "idle st" "rx_p st \<le> length s" and i: "item_ok (Cls kd es r)" and len: "length s < size_mod"
  shows "case class_span kd es r (rx_p st) (drop (rx_p st) s) of
      None \<Rightarrow> \<exists>st' ep'. re_loop s (item_text (Cls kd es r) @ ep) st = (Again st', ep') \<and> rx_pl st' = rx_pl st \<and> rx_fault st' = rx_fault st
    | Some (k, sp) \<Rightarrow> \<exists>st'. re_loop s (item_text (Cls kd es r) @ ep) st = re_loop s ep st' \<and> idle st' \<and> rx_p st' = rx_p st + k \<and>
        rx_i st' = rx_i st + 1 \<and> rx_pl st' = list_put (rx_i st) sp (rx_pl st) \<and> rx_fault st' = rx_fault st"
proof -
  have "in_class [] (opened kd st)" using st by (simp add: in_class_def opened_def idle_def)
  from class_all [OF this, of es s "[93, rep_text r] @ ep"] i obtain st1 where
    st1: "re_loop s (concat (map elem_text es) @ [93, rep_text r] @ ep) (opened kd st) = re_loop s ([93, rep_text r] @ ep) st1"
      "in_class es st1" "same_place (opened kd st) st1" by auto
  let ?st = "st1\<lparr>rx_ec := True\<rparr>" and ?m = "case rep_max r of None \<Rightarrow> 2 ^ 32 - 1 | Some m \<Rightarrow> m"
  have pl: "rx_p ?st = rx_p st" "rx_i ?st = rx_i st" "rx_pl ?st = rx_pl st" "rx_fault ?st = rx_fault st"
    "rx_neg ?st = (kd \<noteq> In)" "rx_qesc ?st = (kd = Quoting)" "rx_fm ?st" "rx_ec ?st" "\<not> rx_eesc ?st"
    "take (rx_n ?st) (rx_chrv ?st) = ranges es"
    using st1(2,3) by (simp_all add: same_place_def opened_def in_class_def)
  have "rep_text r \<noteq> 92"
  proof (cases r)
    case (Times k)
    then have "k \<in> {1, 2, 3, 4, 5, 6, 7, 8, 9}" using i by auto
    then show ?thesis using Times by auto
  qed simp_all
  then have step: "re_step s (rep_text r) ?st = re_take s (rep_min r) ?m ?st"
    using pl(7-9) rep_bounds_text [of r] i by (simp add: re_step_def)
  have "re_loop s (item_text (Cls kd es r) @ ep) st = re_loop s ([93, rep_text r] @ ep) st1"
    using class_open [OF st(1), of s kd "concat (map elem_text es) @ [93, rep_text r] @ ep"] st1(1) by simp
  also have "\<dots> = re_loop s (rep_text r # ep) ?st"
    using st1(2) by (simp add: re_step_def in_class_def)
  finally have run: "re_loop s (item_text (Cls kd es r) @ ep) st = re_loop s (rep_text r # ep) ?st" .
  let ?cs = "drop (rx_p st) s"
  let ?k = "case rep_max r of None \<Rightarrow> class_len kd es ?cs | Some m \<Rightarrow> class_len kd es (take m ?cs)"
  have k: "re_scan (take (rx_n ?st) (rx_chrv ?st)) (rx_neg ?st) (rx_qesc ?st) False False ?m (drop (rx_p ?st) s) = ?k"
    using len by (simp only: pl scan_class) (simp add: size_mod_def split: option.split)
  have "?k \<le> ?m" using class_len_le [of kd es ?cs] class_len_le [of kd es "take (the (rep_max r)) ?cs"] len
    by (auto simp: size_mod_def split: option.split)
  with k [unfolded pl] have take: "re_take s (rep_min r) ?m ?st = (case class_span kd es r (rx_p st) ?cs of
      None \<Rightarrow> Again (?st\<lparr>rx_fm := False, rx_p := rx_p st + ?k\<rparr>)
    | Some (k, sp) \<Rightarrow> Go (?st\<lparr>rx_fm := False, rx_p := rx_p st + k, rx_i := rx_i st + 1,
         rx_pl := list_put (rx_i st) sp (rx_pl st), rx_eesc := False\<rparr>))"
    using re_take_span [of ?st r s kd es, unfolded pl] by simp
  show ?thesis
  proof (cases "class_span kd es r (rx_p st) ?cs")
    case None
    then have "re_loop s (rep_text r # ep) ?st = (Again (?st\<lparr>rx_fm := False, rx_p := rx_p st + ?k\<rparr>), rep_text r # ep)"
      using step take by simp
    then show ?thesis unfolding None option.case run using pl(3,4)
      by (intro exI [of _ "?st\<lparr>rx_fm := False, rx_p := rx_p st + ?k\<rparr>"] exI [of _ "rep_text r # ep"]) simp
  next
    case (Some x)
    obtain k sp where x: "x = (k, sp)" by (cases x)
    let ?t = "?st\<lparr>rx_fm := False, rx_p := rx_p st + k, rx_i := rx_i st + 1, rx_pl := list_put (rx_i st) sp (rx_pl st), rx_eesc := False\<rparr>"
    have "re_loop s (rep_text r # ep) ?st = re_loop s ep ?t" using step take Some x by simp
    then show ?thesis unfolding Some x option.case prod.case run using pl(4)
      by (intro exI [of _ ?t] conjI) (simp_all add: idle_def)
  qed
qed

definition classes :: "re_item list \<Rightarrow> nat" where
  "classes is = length (filter (\<lambda>i. case i of Cls _ _ _ \<Rightarrow> True | _ \<Rightarrow> False) is)"

text \<open>The spans of a hit overwrite those of earlier attempts.\<close>

definition over :: "nat \<Rightarrow> span list \<Rightarrow> span list \<Rightarrow> span list" where
  "over i sps pls = take i pls @ sps @ drop (i + length sps) pls"

lemma over_Nil: "over i [] pls = pls"
  by (simp add: over_def)

lemma over_put: "i \<le> length pls \<Longrightarrow> over (i + 1) sps (list_put i sp pls) = over i (sp # sps) pls"
  by (cases "i < length pls") (simp_all add: over_def list_put_def take_Suc_conv_app_nth)

lemma length_put: "i \<le> length pls \<Longrightarrow> length (list_put i sp pls) = max (i + 1) (length pls)"
  by (auto simp: list_put_def)

definition ends :: "u8 list \<Rightarrow> re_item list \<Rightarrow> re_st \<Rightarrow> re_res \<Rightarrow> bool" where
  "ends s is st res \<longleftrightarrow> (case res of
     Hit sps \<Rightarrow> \<exists>st'. re_loop s (re_text is) st = (Out st', []) \<and> \<not> rx_fm st' \<and> rx_pl st' = over (rx_i st) sps (rx_pl st) \<and>
       rx_fault st' = rx_fault st \<and> length sps = classes is
   | Miss \<Rightarrow> \<exists>st' ep. re_loop s (re_text is) st = (Again st', ep) \<and> rx_fault st' = rx_fault st \<and>
       length (rx_pl st') \<le> max (length (rx_pl st)) (rx_i st + classes is)
   | Short \<Rightarrow> \<exists>st' ep. re_loop s (re_text is) st = (Out st', ep) \<and> ep \<noteq> [] \<and> \<not> rx_fm st' \<and> rx_fault st' = rx_fault st)"

lemma re_text_Cons: "re_text (i # is) = item_text i @ re_text is"
  by (simp add: re_text_def)

lemma lit_item:
  assumes st: "idle st" "rx_p st \<le> length s" and i: "item_ok i" "i = Lit l \<or> i = Esc l"
  shows "case drop (rx_p st) s of
      [] \<Rightarrow> \<exists>st' ep'. re_loop s (item_text i @ ep) st = (Out st', ep') \<and> ep' \<noteq> [] \<and> \<not> rx_fm st' \<and> rx_fault st' = rx_fault st
    | c # cs \<Rightarrow> if tolower l \<noteq> tolower c
        then \<exists>st' ep'. re_loop s (item_text i @ ep) st = (Again st', ep') \<and> rx_pl st' = rx_pl st \<and> rx_fault st' = rx_fault st
        else \<exists>st'. re_loop s (item_text i @ ep) st = re_loop s ep st' \<and> idle st' \<and> rx_p st' = rx_p st + 1 \<and>
          rx_i st' = rx_i st \<and> rx_pl st' = rx_pl st \<and> rx_fault st' = rx_fault st"
proof -
  obtain st1 where st1: "re_loop s (item_text i @ ep) st = re_loop s (l # ep) st1" "rx_p st1 = rx_p st" "rx_i st1 = rx_i st"
      "rx_pl st1 = rx_pl st" "rx_fault st1 = rx_fault st" "\<not> rx_fm st1" "rx_eesc st1 \<or> l \<notin> {91, 92}"
  proof (cases "i = Esc l")
    case True
    then show ?thesis using st that [of "st\<lparr>rx_eesc := True\<rparr>"] by (simp add: re_step_def idle_def)
  next
    case False
    then show ?thesis using st i that [of st] by (simp add: idle_def)
  qed
  have step: "re_step s l st1 = (if rx_p st \<ge> length s then Out st1
      else if tolower l \<noteq> tolower (s ! rx_p st) then Again st1
      else Go (st1\<lparr>rx_eesc := False, rx_p := rx_p st + 1\<rparr>))"
    using st1 by (auto simp: re_step_def)
  show ?thesis
  proof (cases "drop (rx_p st) s")
    case Nil
    then show ?thesis using st1 step by simp
  next
    case (Cons c cs)
    then have "rx_p st < length s" "s ! rx_p st = c" using st(2)
      by (metis drop_all linorder_not_less list.distinct(1), metis nth_via_drop)
    then show ?thesis using st1 step Cons by (auto simp: idle_def)
  qed
qed

lemma re_loop_match:
  assumes "idle st" "rx_p st \<le> length s" "list_all item_ok is" "length s < size_mod" "rx_i st \<le> length (rx_pl st)"
  shows "ends s is st (re_match (rx_p st) (drop (rx_p st) s) is)"
  using assms
proof (induction "is" arbitrary: st)
  case Nil
  then show ?case by (auto simp: ends_def re_text_def idle_def over_Nil classes_def)
next
  case (Cons i "is")
  have "(\<exists>kd es r. i = Cls kd es r) \<or> (\<exists>l. i = Lit l \<or> i = Esc l)" by (cases i) auto
  then consider (cls) kd es r where "i = Cls kd es r" | (lit) l where "i = Lit l \<or> i = Esc l" by blast
  then show ?case
  proof cases
    case cls
    let ?sp = "class_span kd es r (rx_p st) (drop (rx_p st) s)"
    note ci = class_item [of st s kd es r "re_text is"]
    show ?thesis
    proof (cases ?sp)
      case None
      then obtain st' ep where "re_loop s (re_text (i # is)) st = (Again st', ep)" "rx_pl st' = rx_pl st" "rx_fault st' = rx_fault st"
        using ci Cons.prems cls by (auto simp: re_text_Cons)
      then show ?thesis using cls None by (simp add: ends_def)
    next
      case (Some x)
      obtain k sp where x: "x = (k, sp)" by (cases x)
      then obtain st' where st': "re_loop s (re_text (i # is)) st = re_loop s (re_text is) st'" "idle st'" "rx_p st' = rx_p st + k"
         "rx_i st' = rx_i st + 1" "rx_pl st' = list_put (rx_i st) sp (rx_pl st)" "rx_fault st' = rx_fault st"
        using ci Some Cons.prems cls by (auto simp: re_text_Cons)
      have "k \<le> length (drop (rx_p st) s)" using Some x class_span_bounds by blast
      then have "ends s is st' (re_match (rx_p st + k) (drop (rx_p st + k) s) is)"
        using Cons.IH [of st'] Cons.prems st' by (simp add: length_put)
      moreover have "classes (i # is) = Suc (classes is)" using cls by (simp add: classes_def)
      moreover have "re_match (rx_p st) (drop (rx_p st) s) (i # is) =
          (case re_match (rx_p st + k) (drop (rx_p st + k) s) is of Hit sps \<Rightarrow> Hit (sp # sps) | y \<Rightarrow> y)"
        using cls Some x by (simp add: add.commute)
      ultimately show ?thesis using st' Cons.prems(5) over_put [OF Cons.prems(5)] length_put [OF Cons.prems(5)]
        by (cases "re_match (rx_p st + k) (drop (rx_p st + k) s) is") (fastforce simp: ends_def)+
    qed
  next
    case lit
    have cl: "classes (i # is) = classes is" using lit by (auto simp: classes_def)
    note li = lit_item [of st s i l "re_text is"]
    show ?thesis
    proof (cases "drop (rx_p st) s")
      case Nil
      then show ?thesis using li Cons.prems lit by (auto simp: ends_def re_text_Cons)
    next
      case C: (Cons c cs)
      then have d: "cs = drop (rx_p st + 1) s" "rx_p st < length s"
        by (metis Suc_eq_plus1 drop_Suc list.sel(3) tl_drop, metis drop_all linorder_not_less list.distinct(1))
      show ?thesis
      proof (cases "tolower l = tolower c")
        case False
        then show ?thesis using li Cons.prems lit C by (auto simp: ends_def re_text_Cons Let_def)
      next
        case True
        then obtain st' where st': "re_loop s (re_text (i # is)) st = re_loop s (re_text is) st'" "idle st'" "rx_p st' = rx_p st + 1"
           "rx_i st' = rx_i st" "rx_pl st' = rx_pl st" "rx_fault st' = rx_fault st"
          using li Cons.prems lit C by (auto simp: re_text_Cons)
        then have "ends s is st' (re_match (rx_p st + 1) cs is)" using Cons.IH [of st'] Cons.prems d by simp
        then show ?thesis using st' lit C True cl
          by (auto simp: ends_def Let_def split: re_res.splits)
      qed
    qed
  qed
qed

lemma re_search_find:
  assumes "list_all item_ok is" "length s < size_mod" "length pls \<le> classes is" "start \<le> length s"
  shows "case re_search s (re_text is) start pls fault of (err, sps, fault') \<Rightarrow> fault' = fault \<and>
    (case re_find start (drop start s) is of None \<Rightarrow> err = ENOENT | Some r \<Rightarrow> err = 0 \<and> (is \<noteq> [] \<or> start < length s \<longrightarrow> sps = r))"
  using assms(3,4)
proof (induction "length s - start" arbitrary: start pls)
  case 0
  have "re_text is = [] \<longleftrightarrow> is = []" by (cases "is"; cases "hd is") (simp_all add: re_text_def)
  then show ?case using 0 by (simp add: re_search.simps [of s _ start] re_out_def)
next
  case (Suc n)
  then obtain c cs where d: "drop start s = c # cs" "cs = drop (start + 1) s"
    by (metis Cons_nth_drop_Suc Suc_eq_plus1 zero_less_Suc zero_less_diff)
  have e: "ends s is (re_init start pls fault) (re_match start (c # cs) is)"
    using re_loop_match [of "re_init start pls fault" s "is"] assms Suc d by (simp add: re_init_def idle_def)
  have lt: "\<not> start \<ge> length s" using Suc by simp
  show ?case
  proof (cases "re_match start (c # cs) is")
    case (Hit sps)
    then show ?thesis using e lt d Suc.prems
      by (auto simp: re_search.simps [of s _ start] ends_def re_init_def re_out_def over_def)
  next
    case Short
    then show ?thesis using e lt d by (auto simp: re_search.simps [of s _ start] ends_def re_init_def re_out_def)
  next
    case Miss
    then obtain st' ep where st': "re_loop s (re_text is) (re_init start pls fault) = (Again st', ep)" "rx_fault st' = fault"
        "length (rx_pl st') \<le> classes is"
      using e Suc.prems by (auto simp: ends_def re_init_def)
    have "is \<noteq> []" "n = length s - (start + 1)" "start + 1 \<le> length s" using Miss Suc.hyps(2) lt by auto
    then show ?thesis using Suc.hyps(1) [of "start + 1" "rx_pl st'"] st' lt d Miss
      by (auto simp: re_search.simps [of s _ start] split: prod.splits option.splits)
  qed
qed

text \<open>C33: For every expression made of well-formed parts, \<^verbatim>\<open>re_regex\<close> finds what the parts mean: the spans of the leftmost
  place where they match, or \<^verbatim>\<open>ENOENT\<close> when there is none (or when an attempt before it ran out of text). It never
  writes outside its array of ranges.\<close>

theorem re_regex_meaning:
  assumes "list_all item_ok is" "length s < size_mod"
  shows "case re_find 0 s is of
      Some sps \<Rightarrow> re_regex (Some s) (re_text is) = (0, sps, False)
    | None \<Rightarrow> \<exists>sps. re_regex (Some s) (re_text is) = (ENOENT, sps, False)"
proof (cases "is = [] \<and> s = []")
  case True
  then show ?thesis by (simp add: re_regex_def re_search.simps re_text_def re_out_def)
next
  case False
  then show ?thesis using re_search_find [OF assms, of "[]" 0 False]
    by (auto simp: re_regex_def split: prod.splits option.splits)
qed

theorem re_regex_meaning_witness:
  "re_regex (Some (ascii ''foo 42 bar'')) (ascii ''[0-9]+'') = (0, [(4, 2)], False)"
proof -
  have "re_find 0 (ascii ''foo 42 bar'') [Cls In [Rng 48 57] Plus] = Some [(4, 2)]"
    by (simp add: ascii_def class_span_def elem_hit_def tolower_def)
  moreover have "re_text [Cls In [Rng 48 57] Plus] = ascii ''[0-9]+''" by (simp add: re_text_def ascii_def)
  moreover have "list_all item_ok [Cls In [Rng 48 57] Plus]" "length (ascii ''foo 42 bar'') < size_mod"
    by (simp_all add: CHRV_SIZE_def size_mod_def ascii_def)
  ultimately show ?thesis using re_regex_meaning [of "[Cls In [Rng 48 57] Plus]" "ascii ''foo 42 bar''"] by simp
qed

text \<open>A class of 65 characters is stored past the end of the array: the test comes after the store.\<close>

lemma re_regex_overrun: "snd (snd (re_regex (Some [97]) ([91] @ replicate 65 97 @ [93, 43])))"
  by code_simp

subsection \<open>Concrete texts\<close>

lemma class_span_plain:
  assumes "kd = In \<or> kd = NotIn" "\<forall>c \<in> set xs. elem_hit es c = (kd = In)" "ys = [] \<or> elem_hit es (hd ys) = (kd = NotIn)"
    "r = Star \<or> r = Plus \<and> xs \<noteq> []"
  shows "class_span kd es r off (xs @ ys) = Some (length xs, off, length xs)"
proof -
  have "class_len kd es (xs @ ys) = length xs"
    using assms(1-3) by (cases ys) (auto simp: takeWhile_eq_all_conv [THEN iffD2])
  then show ?thesis using assms(1,4) by (auto simp: class_span_def Let_def Suc_le_eq)
qed

lemma re_match_cls:
  assumes "kd = In \<or> kd = NotIn" "\<forall>c \<in> set xs. elem_hit es c = (kd = In)" "ys = [] \<or> elem_hit es (hd ys) = (kd = NotIn)"
    "r = Star \<or> r = Plus \<and> xs \<noteq> []"
  shows "re_match off (xs @ ys) (Cls kd es r # is) = (case re_match (off + length xs) ys is of
    Hit sps \<Rightarrow> Hit ((off, length xs) # sps) | x \<Rightarrow> x)"
  using class_span_plain [OF assms, of off] by simp

lemma re_find_first: "s \<noteq> [] \<Longrightarrow> re_match 0 s is = Hit sps \<Longrightarrow> re_find 0 s is = Some sps"
  by (cases s) simp_all

subsection \<open>Matches of known texts\<close>

text \<open>What the parsers take from a match: the bytes of each span.\<close>

definition regex_pls :: "pl \<Rightarrow> u8 list \<Rightarrow> err + pl list" where
  "regex_pls s expr = (case re_regex s expr of (err, sps, fault) \<Rightarrow>
     if err \<noteq> 0 then Inl err else Inr (map (\<lambda>sp. Some (span_of (the s) sp)) sps))"

text \<open>The classes of \<open>is\<close> take the pieces \<open>ps\<close> of a text, one behind the other.\<close>

definition splits :: "u8 list \<Rightarrow> re_item list \<Rightarrow> u8 list list \<Rightarrow> bool" where
  "splits cs is ps \<longleftrightarrow> (\<forall>pre. \<exists>sps. re_match (length pre) cs is = Hit sps \<and> map (span_of (pre @ cs)) sps = ps)"

text \<open>An attempt that ends the search, and one that goes on.\<close>

definition shorts :: "u8 list \<Rightarrow> re_item list \<Rightarrow> bool" where
  "shorts cs is \<longleftrightarrow> (\<forall>off. re_match off cs is = Short)"

definition misses :: "u8 list \<Rightarrow> re_item list \<Rightarrow> bool" where
  "misses cs is \<longleftrightarrow> (\<forall>off. re_match off cs is = Miss)"

definition takes_all :: "cls_kind \<Rightarrow> cls_elem list \<Rightarrow> rep \<Rightarrow> u8 list \<Rightarrow> u8 list \<Rightarrow> bool" where
  "takes_all kd es r xs ys \<longleftrightarrow> kd \<in> {In, NotIn} \<and> (\<forall>c \<in> set xs. elem_hit es c = (kd = In)) \<and>
     (ys = [] \<or> elem_hit es (hd ys) = (kd = NotIn)) \<and> (r = Star \<or> r = Plus \<and> xs \<noteq> [])"

lemma takes_all_span:
  assumes "takes_all kd es r xs ys"
  shows "class_span kd es r off (xs @ ys) = Some (length xs, off, length xs)"
  using assms by (intro class_span_plain) (auto simp: takes_all_def)

lemma splits_Nil: "splits cs [] []"
  by (simp add: splits_def)

lemma splits_cls:
  assumes "takes_all kd es r xs ys" "splits ys is ps"
  shows "splits (xs @ ys) (Cls kd es r # is) (xs # ps)"
  unfolding splits_def
proof
  fix pre :: "u8 list"
  obtain sps where s: "re_match (length (pre @ xs)) ys is = Hit sps" "map (span_of ((pre @ xs) @ ys)) sps = ps"
    using assms(2) unfolding splits_def by blast
  then show "\<exists>sps. re_match (length pre) (xs @ ys) (Cls kd es r # is) = Hit sps \<and> map (span_of (pre @ xs @ ys)) sps = xs # ps"
    by (intro exI [of _ "(length pre, length xs) # sps"]) (simp add: takes_all_span [OF assms(1)] span_of_def)
qed

lemma splits_lit:
  assumes "i = Lit l \<or> i = Esc l" "tolower l = tolower c" "splits cs is ps"
  shows "splits (c # cs) (i # is) ps"
  unfolding splits_def
proof
  fix pre :: "u8 list"
  obtain sps where s: "re_match (length (pre @ [c])) cs is = Hit sps" "map (span_of ((pre @ [c]) @ cs)) sps = ps"
    using assms(3) unfolding splits_def by blast
  then show "\<exists>sps. re_match (length pre) (c # cs) (i # is) = Hit sps \<and> map (span_of (pre @ c # cs)) sps = ps"
    using assms(1,2) by auto
qed

lemma shorts_cls: "takes_all kd es r xs ys \<Longrightarrow> shorts ys is \<Longrightarrow> shorts (xs @ ys) (Cls kd es r # is)"
  by (simp add: shorts_def takes_all_span)

lemma shorts_lit: "i = Lit l \<or> i = Esc l \<Longrightarrow> tolower l = tolower c \<Longrightarrow> shorts cs is \<Longrightarrow> shorts (c # cs) (i # is)"
  by (auto simp: shorts_def)

lemma shorts_end: "i = Lit l \<or> i = Esc l \<Longrightarrow> shorts [] (i # is)"
  by (auto simp: shorts_def)

lemma misses_cls: "takes_all kd es r xs ys \<Longrightarrow> misses ys is \<Longrightarrow> misses (xs @ ys) (Cls kd es r # is)"
  by (simp add: misses_def takes_all_span)

lemma misses_lit: "i = Lit l \<or> i = Esc l \<Longrightarrow> tolower l = tolower c \<Longrightarrow> misses cs is \<Longrightarrow> misses (c # cs) (i # is)"
  by (auto simp: misses_def)

lemma misses_here: "i = Lit l \<or> i = Esc l \<Longrightarrow> tolower l \<noteq> tolower c \<Longrightarrow> misses (c # cs) (i # is)"
  by (auto simp: misses_def)

lemma misses_plus:
  assumes "kd \<in> {In, NotIn}" "elem_hit es c = (kd = NotIn)"
  shows "misses (c # cs) (Cls kd es Plus # is)"
  using assms by (auto simp: misses_def class_span_def)

lemma re_find_skip:
  assumes "\<forall>i < length a. misses (drop i (a @ b)) is"
  shows "re_find off (a @ b) is = re_find (off + length a) b is"
  using assms
proof (induction a arbitrary: off)
  case (Cons c a)
  have "misses (c # a @ b) is" using Cons.prems by force
  moreover have "\<forall>i < length a. misses (drop i (a @ b)) is" using Cons.prems by force
  ultimately show ?case using Cons.IH [of "off + 1"] by (simp add: misses_def)
qed simp

text \<open>The first match behind a part where there is none.\<close>

lemma regex_pls_hit:
  assumes "\<forall>i < length a. misses (drop i (a @ b)) is" "splits b is ps" "b \<noteq> []" "list_all item_ok is" "length (a @ b) < size_mod"
  shows "regex_pls (Some (a @ b)) (re_text is) = Inr (map Some ps)"
proof -
  obtain sps where s: "re_match (length a) b is = Hit sps" "map (span_of (a @ b)) sps = ps"
    using assms(2) unfolding splits_def by blast
  have "re_find (length a) b is = Some sps" using s(1) assms(3) by (cases b) simp_all
  then have "re_find 0 (a @ b) is = Some sps" using re_find_skip [OF assms(1), of 0] by simp
  then have "re_regex (Some (a @ b)) (re_text is) = (0, sps, False)"
    using re_regex_meaning [OF assms(4,5)] by simp
  then show ?thesis using s(2) by (auto simp: regex_pls_def)
qed

lemma regex_pls_start:
  assumes "splits s is ps" "s \<noteq> []" "list_all item_ok is" "length s < size_mod"
  shows "regex_pls (Some s) (re_text is) = Inr (map Some ps)"
  using regex_pls_hit [of "[]" s "is" ps] assms by simp

lemma regex_pls_none:
  assumes "re_find 0 s is = None" "list_all item_ok is" "length s < size_mod"
  shows "regex_pls (Some s) (re_text is) = Inl ENOENT"
proof -
  have "ENOENT \<noteq> 0" by simp
  then show ?thesis using re_regex_meaning [OF assms(2,3)] assms(1) by (auto simp: regex_pls_def)
qed

lemma regex_pls_short:
  assumes "shorts s is" "s \<noteq> []" "list_all item_ok is" "length s < size_mod"
  shows "regex_pls (Some s) (re_text is) = Inl ENOENT"
  using regex_pls_none [of s "is"] assms by (cases s) (auto simp: shorts_def)

lemma regex_pls_absent:
  assumes "\<forall>i < length s. misses (drop i s) is" "is \<noteq> []" "list_all item_ok is" "length s < size_mod"
  shows "regex_pls (Some s) (re_text is) = Inl ENOENT"
  using regex_pls_none [of s "is"] re_find_skip [of s "[]" "is" 0] assms by simp

text \<open>Which characters the elements of a class are.\<close>

lemma elem_hit_simps [simp]:
  "\<not> elem_hit [] c"
  "elem_hit (Ch a # es) c \<longleftrightarrow> tolower a = tolower c \<or> elem_hit es c"
  "elem_hit (Rng a b # es) c \<longleftrightarrow> tolower a \<le> tolower c \<and> tolower c \<le> tolower b \<or> elem_hit es c"
  by (auto simp: elem_hit_def)

lemma unat_tolower: "unat (tolower c) = (if 65 \<le> unat c \<and> unat c \<le> 90 then unat c + 32 else unat c)"
proof -
  have "unat (c + 32) = unat c + 32" if "unat c \<le> 90" using that by (simp add: unat_add_small)
  then show ?thesis by (auto simp: tolower_def word_le_nat_alt)
qed

lemma tolower_eq:
  assumes "unat x < 65 \<or> 90 < unat x \<and> unat x < 97 \<or> 122 < unat x"
  shows "tolower x = tolower c \<longleftrightarrow> c = x"
proof -
  have "tolower x = tolower c \<longleftrightarrow> unat (tolower x) = unat (tolower c)" by (simp add: word_unat_eq_iff)
  also have "\<dots> \<longleftrightarrow> unat x = unat c" using assms unfolding unat_tolower by (auto split: if_splits)
  also have "\<dots> \<longleftrightarrow> c = x" by (auto simp: word_unat_eq_iff)
  finally show ?thesis .
qed

end
