(* ===== verification/Uri.thy ===== *)
theory Uri
  imports Regex Print
begin

text \<open>
  URIs: \<^verbatim>\<open>src/uri/uri.c\<close>, \<^verbatim>\<open>ucmp.c\<close> and \<^verbatim>\<open>uric.c\<close>. Printing goes to any print handler; parsing uses \<^verbatim>\<open>re_regex\<close>.
  \<open>J\<close> is what the uninitialised \<^verbatim>\<open>struct sa\<close> and text buffer on the stack of \<^verbatim>\<open>uri_decode\<close> hold.
\<close>

subsection \<open>Encoding\<close>

record uri =
  uri_scheme :: pl
  uri_user :: pl
  uri_password :: pl
  uri_host :: pl
  uri_af :: u16
  uri_port :: u16
  uri_params :: pl
  uri_headers :: pl

definition uri_empty :: uri where
  "uri_empty = \<lparr>uri_scheme = None, uri_user = None, uri_password = None, uri_host = None, uri_af = 0, uri_port = 0,
     uri_params = None, uri_headers = None\<rparr>"

definition uri_encode :: "penv \<Rightarrow> 's vph \<Rightarrow> uri \<Rightarrow> 's \<Rightarrow> (err \<times> 's) option" where
  "uri_encode V vph u s =
     (if \<not> pl_isset (uri_scheme u) \<or> \<not> pl_isset (uri_host u) then Some (EINVAL, s)
      else do {
        (err, s) \<leftarrow> re_hprintf V vph (ascii ''%r:'') [PaPl (uri_scheme u)] s;
        (if err \<noteq> 0 then Some (err, s)
         else do {
           (err, s) \<leftarrow> (if pl_isset (uri_user u) then do {
               (e1, s) \<leftarrow> re_hprintf V vph (ascii ''%r'') [PaPl (uri_user u)] s;
               (e2, s) \<leftarrow> (if pl_isset (uri_password u) then re_hprintf V vph (ascii '':%r'') [PaPl (uri_password u)] s else Some (0, s));
               (e3, s) \<leftarrow> Some (vph [64] s);
               Some (e1 OR e2 OR e3, s) }
             else Some (0, s));
           (if err \<noteq> 0 then Some (err, s)
            else do {
              (err, s) \<leftarrow> re_hprintf V vph (if uri_af u = AF_INET6 then ascii ''[%r]'' else ascii ''%r'') [PaPl (uri_host u)] s;
              (if err \<noteq> 0 then Some (err, s)
               else do {
                 (err, s) \<leftarrow> (if uri_port u \<noteq> 0 then re_hprintf V vph (ascii '':%u'') [PaInt (ucast (uri_port u))] s else Some (0, s));
                 (e2, s) \<leftarrow> re_hprintf V vph (ascii ''%r%r'') [PaPl (uri_params u), PaPl (uri_headers u)] s;
                 Some (err OR e2, s) }) }) }) })"

subsection \<open>Decoding\<close>

definition uri_hostport_expr6 :: "u8 list" where
  "uri_hostport_expr6 = [92] @ ascii ''[[0-9a-f:]+'' @ [92] @ ascii '']'' @ ascii ''[:]*[0-9]*''"

definition uri_hostport_expr :: "u8 list" where "uri_hostport_expr = ascii ''[^:]+[:]*[0-9]*''"

definition decode_hostport :: "pl \<Rightarrow> err + pl \<times> pl" where
  "decode_hostport hostport = (case regex_pls hostport uri_hostport_expr6 of
     Inr ps \<Rightarrow> Inr (ps ! 0, ps ! 2)
   | Inl _ \<Rightarrow> (case regex_pls hostport uri_hostport_expr of Inr ps \<Rightarrow> Inr (ps ! 0, ps ! 2) | Inl err \<Rightarrow> Inl err))"

definition uri_expr_user :: "u8 list" where "uri_expr_user = ascii ''[^:]+:[^@:]*[:]*[^@]*@[^;? ]+[^?]*[^]*''"
definition uri_expr :: "u8 list" where "uri_expr = ascii ''[^:]+:[^;? ]+[^?]*[^]*''"

definition uri_done :: "pton_env \<Rightarrow> u8 list \<times> sa \<Rightarrow> pl \<Rightarrow> uri \<Rightarrow> uri" where
  "uri_done N J port u =
     (let (err, addr) = sa_set N (fst J) (uri_host u) 0 (snd J)
      in u\<lparr>uri_af := (if err = 0 then sa_af addr else AF_UNSPEC),
           uri_port := (if pl_isset port then ucast (pl_u32 port) else uri_port u)\<rparr>)"

definition uri_decode :: "pton_env \<Rightarrow> u8 list \<times> sa \<Rightarrow> pl \<Rightarrow> err + uri" where
  "uri_decode N J pl =
     (let second = (case regex_pls pl uri_expr of
          Inl err \<Rightarrow> Inl err
        | Inr ps \<Rightarrow> (case decode_hostport (ps ! 1) of
            Inl err \<Rightarrow> Inl err
          | Inr (host, port) \<Rightarrow>
              Inr (uri_done N J port (uri_empty\<lparr>uri_scheme := ps ! 0, uri_host := host, uri_params := ps ! 2, uri_headers := ps ! 3\<rparr>))))
      in case regex_pls pl uri_expr_user of
        Inl _ \<Rightarrow> second
      | Inr ps \<Rightarrow> (case decode_hostport (ps ! 4) of
          Inl _ \<Rightarrow> second
        | Inr (host, port) \<Rightarrow>
            Inr (uri_done N J port (uri_empty\<lparr>uri_scheme := ps ! 0, uri_user := ps ! 1, uri_password := ps ! 3, uri_host := host,
              uri_params := ps ! 5, uri_headers := ps ! 6\<rparr>))))"

subsection \<open>Parameters and headers\<close>

definition snprintf_text :: "penv \<Rightarrow> nat \<Rightarrow> u8 list \<Rightarrow> (u8 list \<times> nat) parg list \<Rightarrow> u8 list" where
  "snprintf_text V sz fmt args = (case re_snprintf V sz fmt args of None \<Rightarrow> [] | Some (n, s) \<Rightarrow> s)"

text \<open>The value is stored when the expression has a second class: a name so long that the text buffer cuts the expression
  leaves what \<open>pv\<close> was.\<close>

definition second :: "pl list \<Rightarrow> pl \<Rightarrow> pl" where "second ps pv = (if 1 < length ps then ps ! 1 else pv)"

definition uri_param_get :: "penv \<Rightarrow> pl \<Rightarrow> pl \<Rightarrow> pl \<Rightarrow> err + pl" where
  "uri_param_get V pl pname pv = (case regex_pls pl (snprintf_text V 128 (ascii '';%r[=]*[^;]*'') [PaPl pname]) of
     Inl err \<Rightarrow> Inl err | Inr ps \<Rightarrow> Inr (second ps pv))"

definition uri_header_get :: "penv \<Rightarrow> pl \<Rightarrow> pl \<Rightarrow> pl \<Rightarrow> err + pl" where
  "uri_header_get V pl hname hv = (case regex_pls pl (snprintf_text V 128 (ascii ''[?&]1%r=[^&]+'') [PaPl hname]) of
     Inl err \<Rightarrow> Inl err | Inr ps \<Rightarrow> Inr (second ps hv))"

text \<open>The handler gets the name and the value; its state is its argument.\<close>

function uri_params_loop :: "(pl \<Rightarrow> pl \<Rightarrow> 'a \<Rightarrow> err \<times> 'a) \<Rightarrow> u8 list \<Rightarrow> 'a \<Rightarrow> err \<times> 'a" where
  "uri_params_loop ah plr arg =
     (if plr = [] then (0, arg)
      else (case regex_pls (Some plr) (ascii '';[^;=]+[=]*[^;]*'') of
        Inl err \<Rightarrow> (err, arg)
      | Inr ps \<Rightarrow> (case ah (ps ! 0) (ps ! 2) arg of (err, arg) \<Rightarrow>
          if err \<noteq> 0 then (err, arg)
          else uri_params_loop ah (drop (1 + pl_len (ps ! 0) + pl_len (ps ! 1) + pl_len (ps ! 2)) plr) arg)))"
  by pat_completeness auto

termination by (relation "measure (\<lambda>(ah, plr, arg). length plr)") (auto simp: neq_Nil_conv)

function uri_headers_loop :: "(pl \<Rightarrow> pl \<Rightarrow> 'a \<Rightarrow> err \<times> 'a) \<Rightarrow> u8 list \<Rightarrow> 'a \<Rightarrow> err \<times> 'a" where
  "uri_headers_loop ah plr arg =
     (if plr = [] then (0, arg)
      else (case regex_pls (Some plr) (ascii ''[?&]1[^=]+=[^&]+'') of
        Inl err \<Rightarrow> (err, arg)
      | Inr ps \<Rightarrow> (case ah (ps ! 1) (ps ! 2) arg of (err, arg) \<Rightarrow>
          if err \<noteq> 0 then (err, arg)
          else uri_headers_loop ah (drop (pl_len (ps ! 0) + pl_len (ps ! 1) + 1 + pl_len (ps ! 2)) plr) arg)))"
  by pat_completeness auto

termination by (relation "measure (\<lambda>(ah, plr, arg). length plr)") (auto simp: neq_Nil_conv)

declare uri_params_loop.simps [simp del] uri_headers_loop.simps [simp del]

definition uri_params_apply :: "(pl \<Rightarrow> pl \<Rightarrow> 'a \<Rightarrow> err \<times> 'a) \<Rightarrow> pl \<Rightarrow> 'a \<Rightarrow> err \<times> 'a" where
  "uri_params_apply ah pl arg = (case pl of None \<Rightarrow> (0, arg) | Some s \<Rightarrow> uri_params_loop ah s arg)"

definition uri_headers_apply :: "(pl \<Rightarrow> pl \<Rightarrow> 'a \<Rightarrow> err \<times> 'a) \<Rightarrow> pl \<Rightarrow> 'a \<Rightarrow> err \<times> 'a" where
  "uri_headers_apply ah pl arg = (case pl of None \<Rightarrow> (0, arg) | Some s \<Rightarrow> uri_headers_loop ah s arg)"

subsection \<open>Comparison\<close>

definition param_handler :: "penv \<Rightarrow> pl \<Rightarrow> pl \<Rightarrow> pl \<Rightarrow> err" where
  "param_handler V other_params pname pvalue =
     (let both = list_ex (\<lambda>n. pl_strcmp pname (Some n) = 0) [ascii ''user'', ascii ''ttl'', ascii ''method'', ascii ''maddr'', ascii ''transport'']
      in case uri_param_get V other_params pname pl_null of
        Inl _ \<Rightarrow> if both then ENOENT else 0
      | Inr other_pvalue \<Rightarrow> pl_casecmp pvalue other_pvalue)"

text \<open>\<open>junk\<close>: the uninitialised \<^verbatim>\<open>other_hvalue\<close>.\<close>

definition header_handler :: "penv \<Rightarrow> pl \<Rightarrow> pl \<Rightarrow> pl \<Rightarrow> pl \<Rightarrow> err" where
  "header_handler V junk other_headers hname hvalue = (case uri_header_get V other_headers hname junk of
     Inl err \<Rightarrow> err | Inr other_hvalue \<Rightarrow> pl_casecmp hvalue other_hvalue)"

text \<open>\<open>same\<close>: both are the same object.\<close>

definition uri_cmp :: "penv \<Rightarrow> pl \<Rightarrow> bool \<Rightarrow> uri \<Rightarrow> uri \<Rightarrow> bool" where
  "uri_cmp V junk same l r =
     (if same then True
      else if pl_casecmp (uri_scheme l) (uri_scheme r) \<noteq> 0 then False
      else if pl_cmp (uri_user l) (uri_user r) \<noteq> 0 then False
      else if pl_cmp (uri_password l) (uri_password r) \<noteq> 0 then False
      else if pl_casecmp (uri_host l) (uri_host r) \<noteq> 0 then False
      else if uri_af l \<noteq> uri_af r then False
      else if uri_port l \<noteq> uri_port r then False
      else if fst (uri_params_apply (\<lambda>n v _. (param_handler V (uri_params r) n v, ())) (uri_params l) ()) \<noteq> 0 then False
      else if fst (uri_params_apply (\<lambda>n v _. (param_handler V (uri_params l) n v, ())) (uri_params r) ()) \<noteq> 0 then False
      else if fst (uri_headers_apply (\<lambda>n v _. (header_handler V junk (uri_headers r) n v, ())) (uri_headers l) ()) \<noteq> 0 then False
      else if fst (uri_headers_apply (\<lambda>n v _. (header_handler V junk (uri_headers l) n v, ())) (uri_headers r) ()) \<noteq> 0 then False
      else True)"

subsection \<open>Escapes\<close>

definition is_mark :: "u8 \<Rightarrow> bool" where "is_mark c \<longleftrightarrow> c \<in> set (ascii ''-_.!~*'' @ [39] @ ascii ''()'')"

definition is_alnum :: "u8 \<Rightarrow> bool" where
  "is_alnum c \<longleftrightarrow> 48 \<le> c \<and> c \<le> 57 \<or> 65 \<le> c \<and> c \<le> 90 \<or> 97 \<le> c \<and> c \<le> 122"

definition is_unreserved :: "u8 \<Rightarrow> bool" where "is_unreserved c \<longleftrightarrow> is_alnum c \<or> is_mark c"
definition is_user_unreserved :: "u8 \<Rightarrow> bool" where "is_user_unreserved c \<longleftrightarrow> c \<in> set (ascii ''&=+$,;?/'')"
definition is_hnv_unreserved :: "u8 \<Rightarrow> bool" where "is_hnv_unreserved c \<longleftrightarrow> c \<in> set (ascii ''[]/?:+$'')"
definition is_user :: "u8 \<Rightarrow> bool" where "is_user c \<longleftrightarrow> is_unreserved c \<or> is_user_unreserved c"
definition is_password :: "u8 \<Rightarrow> bool" where "is_password c \<longleftrightarrow> c \<in> set (ascii ''&=+$,'') \<or> is_unreserved c"
definition is_param_unreserved :: "u8 \<Rightarrow> bool" where "is_param_unreserved c \<longleftrightarrow> c \<in> set (ascii ''[]/:&+$'')"
definition is_paramchar :: "u8 \<Rightarrow> bool" where "is_paramchar c \<longleftrightarrow> is_param_unreserved c \<or> is_unreserved c"
definition is_hvalue :: "u8 \<Rightarrow> bool" where "is_hvalue c \<longleftrightarrow> is_hnv_unreserved c \<or> is_unreserved c"

fun comp_escape :: "penv \<Rightarrow> 's vph \<Rightarrow> (u8 \<Rightarrow> bool) \<Rightarrow> u8 list \<Rightarrow> 's \<Rightarrow> (err \<times> 's) option" where
  "comp_escape V vph eh [] s = Some (0, s)"
| "comp_escape V vph eh (c # cs) s = do {
     (err, s) \<leftarrow> (if eh c then Some (vph [c] s) else re_hprintf V vph (ascii ''%%%02X'') [PaInt (ucast c)] s);
     (if err \<noteq> 0 then Some (err, s) else comp_escape V vph eh cs s) }"

text \<open>\<open>l\<close> is the length of the whole text, \<open>i\<close> the index of the next character. The last component of the result says
  that the text was read past its end.\<close>

fun comp_unescape :: "'s vph \<Rightarrow> (u8 \<Rightarrow> bool) \<Rightarrow> nat \<Rightarrow> nat \<Rightarrow> u8 list \<Rightarrow> 's \<Rightarrow> err \<times> 's \<times> bool" where
  "comp_unescape vph eh l i [] s = (0, s, False)"
| "comp_unescape vph eh l i (c # cs) s =
     (if eh c then (case vph [c] s of (err, s) \<Rightarrow> if err \<noteq> 0 then (err, s, False) else comp_unescape vph eh l (i + 1) cs s)
      else if c = 37 then
        (if i < sz_sub l 2 then
           (case cs of
              a # b # cs \<Rightarrow> (case vph [push_bit 4 (ch_hex a) OR ch_hex b] s of (err, s) \<Rightarrow>
                if err \<noteq> 0 then (err, s, False) else comp_unescape vph eh l (i + 3) cs s)
            | _ \<Rightarrow> (0, s, True))
         else (EBADMSG, s, False))
      else (EINVAL, s, False))"

definition uri_user_escape :: "penv \<Rightarrow> 's vph \<Rightarrow> u8 list \<Rightarrow> 's \<Rightarrow> (err \<times> 's) option" where
  "uri_user_escape V vph pl s = comp_escape V vph is_user pl s"
definition uri_user_unescape :: "'s vph \<Rightarrow> u8 list \<Rightarrow> 's \<Rightarrow> err \<times> 's \<times> bool" where
  "uri_user_unescape vph pl s = comp_unescape vph is_user (length pl) 0 pl s"
definition uri_password_escape :: "penv \<Rightarrow> 's vph \<Rightarrow> u8 list \<Rightarrow> 's \<Rightarrow> (err \<times> 's) option" where
  "uri_password_escape V vph pl s = comp_escape V vph is_password pl s"
definition uri_password_unescape :: "'s vph \<Rightarrow> u8 list \<Rightarrow> 's \<Rightarrow> err \<times> 's \<times> bool" where
  "uri_password_unescape vph pl s = comp_unescape vph is_password (length pl) 0 pl s"
definition uri_param_escape :: "penv \<Rightarrow> 's vph \<Rightarrow> u8 list \<Rightarrow> 's \<Rightarrow> (err \<times> 's) option" where
  "uri_param_escape V vph pl s = comp_escape V vph is_paramchar pl s"
definition uri_param_unescape :: "'s vph \<Rightarrow> u8 list \<Rightarrow> 's \<Rightarrow> err \<times> 's \<times> bool" where
  "uri_param_unescape vph pl s = comp_unescape vph is_paramchar (length pl) 0 pl s"
definition uri_header_escape :: "penv \<Rightarrow> 's vph \<Rightarrow> u8 list \<Rightarrow> 's \<Rightarrow> (err \<times> 's) option" where
  "uri_header_escape V vph pl s = comp_escape V vph is_hvalue pl s"
definition uri_header_unescape :: "'s vph \<Rightarrow> u8 list \<Rightarrow> 's \<Rightarrow> err \<times> 's \<times> bool" where
  "uri_header_unescape vph pl s = comp_unescape vph is_hvalue (length pl) 0 pl s"

subsection \<open>What is printed\<close>

definition uri_text :: "uri \<Rightarrow> u8 list" where
  "uri_text u = pl_bytes (uri_scheme u) @ 58 #
     (if pl_isset (uri_user u) then pl_bytes (uri_user u) @
        (if pl_isset (uri_password u) then 58 # pl_bytes (uri_password u) else []) @ [64] else []) @
     (if uri_af u = AF_INET6 then 91 # pl_bytes (uri_host u) @ [93] else pl_bytes (uri_host u)) @
     (if uri_port u \<noteq> 0 then 58 # fmt_u (ucast (uri_port u)) else []) @
     pl_bytes (uri_params u) @ pl_bytes (uri_headers u)"

fun hex_text :: "u8 \<Rightarrow> u8 list" where
  "hex_text c = [37] @ pad_to False 48 2 (itoa_loop (unat c) 16 65 [])"

definition escape_text :: "(u8 \<Rightarrow> bool) \<Rightarrow> u8 list \<Rightarrow> u8 list" where
  "escape_text eh xs = concat (map (\<lambda>c. if eh c then [c] else hex_text c) xs)"

context print_target
begin

definition oprints :: "('s \<Rightarrow> (err \<times> 's) option) \<Rightarrow> u8 list \<Rightarrow> bool" where
  "oprints f xs \<longleftrightarrow> (\<forall>n s. room (length xs + n) s \<longrightarrow> (\<exists>s'. f s = Some (0, s') \<and> printed xs n s s'))"

lemma oprints_items:
  "list_all fitem_ok is \<Longrightarrow> subs_ok is \<Longrightarrow> fmt = fmt_of is \<Longrightarrow> args = args_of is \<Longrightarrow> xs = out_of V is \<Longrightarrow>
     oprints (re_hprintf V vph fmt args) xs"
  using hprintf_items [of "is"] by (auto simp: oprints_def printed_def)

lemma oprints_none: "oprints (\<lambda>s. Some (0, s)) []"
  by (simp add: oprints_def printed_def)

lemma oprints_vph: "oprints (\<lambda>s. Some (vph p s)) p"
  using takes by (auto simp: oprints_def printed_def)

lemma oprints_seq:
  assumes "oprints f xs" "oprints g ys" "zs = xs @ ys"
  shows "oprints (\<lambda>s. do { (err, s) \<leftarrow> f s; (if err \<noteq> 0 then Some (err, s) else g s) }) zs"
  unfolding oprints_def
proof (intro allI impI)
  fix n s assume "room (length zs + n) s"
  then obtain s1 where s1: "f s = Some (0, s1)" "printed xs (length ys + n) s s1"
    using assms(1,3) unfolding oprints_def by (auto simp: add.assoc)
  then obtain s2 where "g s1 = Some (0, s2)" "printed ys n s1 s2"
    using assms(2) unfolding oprints_def printed_def by blast
  then show "\<exists>s'. do { (err, s) \<leftarrow> f s; (if err \<noteq> 0 then Some (err, s) else g s) } = Some (0, s') \<and> printed zs n s s'"
    using s1 assms(3) by (auto simp: printed_def)
qed

lemma oprints_or:
  assumes "oprints f xs" "oprints g ys" "zs = xs @ ys"
  shows "oprints (\<lambda>s. do { (e1, s) \<leftarrow> f s; (e2, s) \<leftarrow> g s; Some (e1 OR e2, s) }) zs"
  unfolding oprints_def
proof (intro allI impI)
  fix n s assume "room (length zs + n) s"
  then obtain s1 where s1: "f s = Some (0, s1)" "printed xs (length ys + n) s s1"
    using assms(1,3) unfolding oprints_def by (auto simp: add.assoc)
  then obtain s2 where "g s1 = Some (0, s2)" "printed ys n s1 s2"
    using assms(2) unfolding oprints_def printed_def by blast
  then show "\<exists>s'. do { (e1, s) \<leftarrow> f s; (e2, s) \<leftarrow> g s; Some (e1 OR e2, s) } = Some (0, s') \<and> printed zs n s s'"
    using s1 assms(3) by (auto simp: printed_def)
qed

lemma oprints_or3:
  assumes "oprints f xs" "oprints g ys" "oprints h zs" "ws = xs @ ys @ zs"
  shows "oprints (\<lambda>s. do { (e1, s) \<leftarrow> f s; (e2, s) \<leftarrow> g s; (e3, s) \<leftarrow> h s; Some (e1 OR e2 OR e3, s) }) ws"
proof -
  have "(\<lambda>s. do { (e1, s) \<leftarrow> f s; (e2, s) \<leftarrow> do { (e2, s) \<leftarrow> g s; (e3, s) \<leftarrow> h s; Some (e2 OR e3, s) }; Some (e1 OR e2, s) }) =
      (\<lambda>s. do { (e1, s) \<leftarrow> f s; (e2, s) \<leftarrow> g s; (e3, s) \<leftarrow> h s; Some (e1 OR e2 OR e3, s) })"
    by (rule ext) (auto split: Option.bind_splits)
  then show ?thesis using oprints_or [OF assms(1) oprints_or [OF assms(2,3) refl] assms(4)] by simp
qed

lemma oprints_if: "(c \<Longrightarrow> oprints f xs) \<Longrightarrow> (\<not> c \<Longrightarrow> oprints g ys) \<Longrightarrow> zs = (if c then xs else ys) \<Longrightarrow>
    oprints (\<lambda>s. if c then f s else g s) zs"
  by (cases c) simp_all

lemma oprints_uri_fmts:
  "oprints (re_hprintf V vph (ascii ''%r:'') [PaPl p]) (pl_bytes p @ [58])"
  "oprints (re_hprintf V vph (ascii ''%r'') [PaPl p]) (pl_bytes p)"
  "oprints (re_hprintf V vph (ascii '':%r'') [PaPl p]) (58 # pl_bytes p)"
  "oprints (re_hprintf V vph (ascii ''[%r]'') [PaPl p]) (91 # pl_bytes p @ [93])"
  "oprints (re_hprintf V vph (ascii '':%u'') [PaInt k]) (58 # fmt_u k)"
  "oprints (re_hprintf V vph (ascii ''%r%r'') [PaPl p, PaPl q]) (pl_bytes p @ pl_bytes q)"
  by (rule oprints_items [of "[FConv False False 0 (KPl p), FText [58]]"]
      oprints_items [of "[FConv False False 0 (KPl p)]"]
      oprints_items [of "[FText [58], FConv False False 0 (KPl p)]"]
      oprints_items [of "[FText [91], FConv False False 0 (KPl p), FText [93]]"]
      oprints_items [of "[FText [58], FConv False False 0 (KU (NInt k))]"]
      oprints_items [of "[FConv False False 0 (KPl p), FConv False False 0 (KPl q)]"];
      simp add: subs_ok_def subs_of_def fmt_of_def ascii_def out_of_def args_of_def pad_to_def num_to_def fmt_u_def local_itoa_def; fail)+

lemma uri_encode_prints:
  assumes "pl_isset (uri_scheme u)" "pl_isset (uri_host u)"
  shows "oprints (uri_encode V vph u) (uri_text u)"
proof -
  have "uri_encode V vph u = (\<lambda>s. do {
        (err, s) \<leftarrow> re_hprintf V vph (ascii ''%r:'') [PaPl (uri_scheme u)] s;
        (if err \<noteq> 0 then Some (err, s)
         else do {
           (err, s) \<leftarrow> (if pl_isset (uri_user u) then do {
               (e1, s) \<leftarrow> re_hprintf V vph (ascii ''%r'') [PaPl (uri_user u)] s;
               (e2, s) \<leftarrow> (if pl_isset (uri_password u) then re_hprintf V vph (ascii '':%r'') [PaPl (uri_password u)] s else Some (0, s));
               (e3, s) \<leftarrow> Some (vph [64] s);
               Some (e1 OR e2 OR e3, s) }
             else Some (0, s));
           (if err \<noteq> 0 then Some (err, s)
            else do {
              (err, s) \<leftarrow> re_hprintf V vph (if uri_af u = AF_INET6 then ascii ''[%r]'' else ascii ''%r'') [PaPl (uri_host u)] s;
              (if err \<noteq> 0 then Some (err, s)
               else do {
                 (err, s) \<leftarrow> (if uri_port u \<noteq> 0 then re_hprintf V vph (ascii '':%u'') [PaInt (ucast (uri_port u))] s else Some (0, s));
                 (e2, s) \<leftarrow> re_hprintf V vph (ascii ''%r%r'') [PaPl (uri_params u), PaPl (uri_headers u)] s;
                 Some (err OR e2, s) }) }) }) })"
    by (rule ext) (simp add: uri_encode_def assms)
  moreover have "oprints \<dots> ((pl_bytes (uri_scheme u) @ [58]) @
      (if pl_isset (uri_user u) then pl_bytes (uri_user u) @ (if pl_isset (uri_password u) then 58 # pl_bytes (uri_password u) else []) @ [64] else []) @
      (if uri_af u = AF_INET6 then 91 # pl_bytes (uri_host u) @ [93] else pl_bytes (uri_host u)) @
      (if uri_port u \<noteq> 0 then 58 # fmt_u (ucast (uri_port u)) else []) @ pl_bytes (uri_params u) @ pl_bytes (uri_headers u))"
  proof (rule oprints_seq [OF oprints_uri_fmts(1) oprints_seq [OF _ oprints_seq [OF _ oprints_or [OF _ oprints_uri_fmts(6) refl] refl] refl] refl])
    show "oprints (\<lambda>s. if pl_isset (uri_user u) then do {
               (e1, s) \<leftarrow> re_hprintf V vph (ascii ''%r'') [PaPl (uri_user u)] s;
               (e2, s) \<leftarrow> (if pl_isset (uri_password u) then re_hprintf V vph (ascii '':%r'') [PaPl (uri_password u)] s else Some (0, s));
               (e3, s) \<leftarrow> Some (vph [64] s);
               Some (e1 OR e2 OR e3, s) }
             else Some (0, s))
         (if pl_isset (uri_user u) then pl_bytes (uri_user u) @ (if pl_isset (uri_password u) then 58 # pl_bytes (uri_password u) else []) @ [64] else [])"
      by (rule oprints_if [OF oprints_or3 [OF oprints_uri_fmts(2) oprints_if [OF oprints_uri_fmts(3) oprints_none refl] oprints_vph refl] oprints_none refl])
    show "oprints (re_hprintf V vph (if uri_af u = AF_INET6 then ascii ''[%r]'' else ascii ''%r'') [PaPl (uri_host u)])
        (if uri_af u = AF_INET6 then 91 # pl_bytes (uri_host u) @ [93] else pl_bytes (uri_host u))"
      by (simp add: oprints_uri_fmts)
    show "oprints (\<lambda>s. if uri_port u \<noteq> 0 then re_hprintf V vph (ascii '':%u'') [PaInt (ucast (uri_port u))] s else Some (0, s))
        (if uri_port u \<noteq> 0 then 58 # fmt_u (ucast (uri_port u)) else [])"
      by (rule oprints_if [OF oprints_uri_fmts(5) oprints_none refl])
  qed
  ultimately show ?thesis by (simp add: uri_text_def)
qed

end

subsection \<open>Printing and parsing\<close>

lemma host6_items:
  "uri_hostport_expr6 = re_text [Esc 91, Cls In [Rng 48 57, Rng 97 102, Ch 58] Plus, Esc 93, Cls In [Ch 58] Star, Cls In [Rng 48 57] Star]"
  by (simp add: uri_hostport_expr6_def re_text_def ascii_def)

lemma host_items: "uri_hostport_expr = re_text [Cls NotIn [Ch 58] Plus, Cls In [Ch 58] Star, Cls In [Rng 48 57] Star]"
  by (simp add: uri_hostport_expr_def re_text_def ascii_def)

lemma uri_user_items:
  "uri_expr_user = re_text [Cls NotIn [Ch 58] Plus, Lit 58, Cls NotIn [Ch 64, Ch 58] Star, Cls In [Ch 58] Star, Cls NotIn [Ch 64] Star, Lit 64,
     Cls NotIn [Ch 59, Ch 63, Ch 32] Plus, Cls NotIn [Ch 63] Star, Cls NotIn [] Star]"
  by (simp add: uri_expr_user_def re_text_def ascii_def)

lemma uri_items:
  "uri_expr = re_text [Cls NotIn [Ch 58] Plus, Lit 58, Cls NotIn [Ch 59, Ch 63, Ch 32] Plus, Cls NotIn [Ch 63] Star, Cls NotIn [] Star]"
  by (simp add: uri_expr_def re_text_def ascii_def)

definition port_text :: "u16 \<Rightarrow> u8 list" where
  "port_text port = (if port \<noteq> 0 then 58 # fmt_u (ucast port) else [])"

lemma fmt_u_itoa: "fmt_u n = itoa_loop (unat n) 10 97 []"
  by (simp add: fmt_u_def local_itoa_def)

lemma fmt_u_digits: "is_dec (fmt_u n)" "n \<noteq> 0 \<Longrightarrow> fmt_u n \<noteq> []"
  using itoa_dec_Nil(1) itoa_dec_Nil(2) [of "unat n"] by (auto simp: fmt_u_itoa word_unat_eq_iff)

lemma itoa_length: "n < 10 ^ Suc k \<Longrightarrow> length (itoa_loop n 10 a []) \<le> Suc k"
proof (induction k arbitrary: n)
  case (Suc k)
  have "n div 10 < 10 ^ Suc k" using Suc.prems by (simp add: less_mult_imp_div_less)
  from Suc.IH [OF this] show ?case using arg_cong [OF rev_itoa [of 10 n a], of length] by simp
qed (simp add: itoa_step)

lemma digit_class: "48 \<le> c \<Longrightarrow> c \<le> (57 :: u8) \<Longrightarrow> elem_hit [Rng 48 57] c"
  by (simp add: unat_tolower word_le_nat_alt)

lemma colon_class: "elem_hit [Ch 58] c \<longleftrightarrow> c = 58"
  by (simp add: tolower_eq)

lemma splits_port:
  "splits (port_text port) [Cls In [Ch 58] Star, Cls In [Rng 48 57] Star]
     [if port \<noteq> 0 then [58] else [], if port \<noteq> 0 then fmt_u (ucast port) else []]"
proof (cases "port = 0")
  case True
  have "splits ([] @ [] @ []) [Cls In [Ch 58] Star, Cls In [Rng 48 57] Star] [[], []]"
    by (intro splits_cls splits_Nil) (simp_all add: takes_all_def)
  then show ?thesis using True by (simp add: port_text_def)
next
  case False
  have d: "\<forall>c \<in> set (fmt_u (ucast port)). 48 \<le> c \<and> c \<le> 57" using fmt_u_digits(1) by (simp add: is_dec_def)
  have "(ucast port :: u32) \<noteq> 0" using False by (simp add: word_unat_eq_iff)
  then have ne: "fmt_u (ucast port) \<noteq> []" by (rule fmt_u_digits)
  then have "hd (fmt_u (ucast port)) \<noteq> 58" using d by (cases "fmt_u (ucast port)") auto
  then have "splits ([58] @ fmt_u (ucast port) @ []) [Cls In [Ch 58] Star, Cls In [Rng 48 57] Star] [[58], fmt_u (ucast port)]"
    using d ne by (intro splits_cls splits_Nil) (auto simp: takes_all_def colon_class digit_class simp del: elem_hit_simps)
  then show ?thesis using False by (simp add: port_text_def)
qed

lemma items_ok_uri:
  "list_all item_ok [Esc 91, Cls In [Rng 48 57, Rng 97 102, Ch 58] Plus, Esc 93, Cls In [Ch 58] Star, Cls In [Rng 48 57] Star]"
  "list_all item_ok [Cls NotIn [Ch 58] Plus, Cls In [Ch 58] Star, Cls In [Rng 48 57] Star]"
  "list_all item_ok [Cls NotIn [Ch 58] Plus, Lit 58, Cls NotIn [Ch 64, Ch 58] Star, Cls In [Ch 58] Star, Cls NotIn [Ch 64] Star, Lit 64,
     Cls NotIn [Ch 59, Ch 63, Ch 32] Plus, Cls NotIn [Ch 63] Star, Cls NotIn [] Star]"
  "list_all item_ok [Cls NotIn [Ch 58] Plus, Lit 58, Cls NotIn [Ch 59, Ch 63, Ch 32] Plus, Cls NotIn [Ch 63] Star, Cls NotIn [] Star]"
  by (simp_all add: CHRV_SIZE_def)

text \<open>Host names have no colon and no bracket; an IPv6 address is in brackets.\<close>

definition ip6_text :: "u8 list \<Rightarrow> bool" where
  "ip6_text h \<longleftrightarrow> h \<noteq> [] \<and> (\<forall>c \<in> set h. 48 \<le> c \<and> c \<le> 57 \<or> 97 \<le> c \<and> c \<le> 102 \<or> c = 58)"

definition name_text :: "u8 list \<Rightarrow> bool" where
  "name_text h \<longleftrightarrow> h \<noteq> [] \<and> set h \<inter> {32, 58, 59, 63, 64, 91} = {}"

lemma tolower_id: "\<not> (65 \<le> c \<and> c \<le> 90) \<Longrightarrow> tolower c = c"
  by (auto simp: tolower_def)

lemma ip6_hit: "48 \<le> c \<and> c \<le> 57 \<or> 97 \<le> c \<and> c \<le> 102 \<or> c = 58 \<Longrightarrow> elem_hit [Rng 48 57, Rng 97 102, Ch 58] c"
  by (elim disjE; simp add: unat_tolower word_le_nat_alt)

lemma port_text_length: "length (port_text port) \<le> 6"
proof -
  have "unat port < 10 ^ Suc 4" using unat_bounds(2) [of port] by simp
  from itoa_length [OF this] show ?thesis by (simp add: port_text_def fmt_u_itoa)
qed

lemma port_text_hd: "port_text port = [] \<or> hd (port_text port) = 58"
  by (simp add: port_text_def)

lemma hostport6:
  assumes "ip6_text h" "length h + 10 < size_mod"
  shows "decode_hostport (Some (91 # h @ 93 # port_text port)) = Inr (Some h, Some (if port \<noteq> 0 then fmt_u (ucast port) else []))"
proof -
  have "takes_all In [Rng 48 57, Rng 97 102, Ch 58] Plus h (93 # port_text port)"
    using assms(1) ip6_hit by (auto simp: takes_all_def ip6_text_def tolower_def)
  then have "splits (91 # h @ 93 # port_text port)
      [Esc 91, Cls In [Rng 48 57, Rng 97 102, Ch 58] Plus, Esc 93, Cls In [Ch 58] Star, Cls In [Rng 48 57] Star]
      [h, if port \<noteq> 0 then [58] else [], if port \<noteq> 0 then fmt_u (ucast port) else []]"
    by (intro splits_lit [OF disjI2 [OF refl] refl] splits_cls splits_port)
  from regex_pls_start [OF this _ items_ok_uri(1)] show ?thesis
    using assms(2) port_text_length [of port] by (simp add: decode_hostport_def host6_items)
qed

text \<open>A name has no bracket, so the first expression is not there.\<close>

lemma no_bracket:
  assumes "91 \<notin> set s" "length s < size_mod"
  shows "regex_pls (Some s) uri_hostport_expr6 = Inl ENOENT"
proof -
  have "misses (drop i s) [Esc 91, Cls In [Rng 48 57, Rng 97 102, Ch 58] Plus, Esc 93, Cls In [Ch 58] Star, Cls In [Rng 48 57] Star]"
    if i: "i < length s" for i
  proof -
    have "s ! i \<noteq> 91" using assms(1) nth_mem [OF i] by metis
    then show ?thesis unfolding Cons_nth_drop_Suc [OF i, symmetric]
      by (intro misses_here [OF disjI2 [OF refl]]) (simp add: tolower_eq)
  qed
  then show ?thesis using regex_pls_absent [OF _ _ items_ok_uri(1) assms(2)] by (simp add: host6_items)
qed

lemma port_text_set: "c \<in> set (port_text port) \<Longrightarrow> 48 \<le> c \<and> c \<le> 58"
  using fmt_u_digits(1) [of "ucast port"]
  by (auto simp: port_text_def is_dec_def word_le_nat_alt split: if_splits intro: order_trans [of _ 57])

lemma hostport_name:
  assumes "name_text h" "length h + 10 < size_mod"
  shows "decode_hostport (Some (h @ port_text port)) = Inr (Some h, Some (if port \<noteq> 0 then fmt_u (ucast port) else []))"
proof -
  have "takes_all NotIn [Ch 58] Plus h (port_text port)"
    using assms(1) port_text_hd [of port] by (auto simp: takes_all_def name_text_def tolower_eq)
  then have "splits (h @ port_text port) [Cls NotIn [Ch 58] Plus, Cls In [Ch 58] Star, Cls In [Rng 48 57] Star]
      [h, if port \<noteq> 0 then [58] else [], if port \<noteq> 0 then fmt_u (ucast port) else []]"
    by (intro splits_cls splits_port)
  note s = regex_pls_start [OF this _ items_ok_uri(2)]
  have "91 \<notin> set (h @ port_text port)" using assms(1) port_text_set [of 91 port] by (auto simp: name_text_def)
  then have "regex_pls (Some (h @ port_text port)) uri_hostport_expr6 = Inl ENOENT"
    using assms(2) port_text_length [of port] by (intro no_bracket) simp_all
  then show ?thesis
    using assms s port_text_length [of port] by (simp add: decode_hostport_def host_items name_text_def)
qed

text \<open>An expression with a literal that is not in the text is not found.\<close>

lemma re_match_no_lit:
  "Lit l \<in> set is \<Longrightarrow> \<forall>c \<in> set cs. tolower l \<noteq> tolower c \<Longrightarrow> re_match off cs is \<noteq> Hit sps"
proof (induction off cs "is" arbitrary: sps rule: re_match.induct)
  case (2 off cs kd es r "is")
  show ?case
  proof (cases "class_span kd es r off cs")
    case (Some p)
    have "\<forall>c \<in> set (drop (fst p) cs). tolower l \<noteq> tolower c" using 2(3) in_set_dropD by fast
    with 2(1) [OF Some surjective_pairing [of p, symmetric]] 2(2) have "re_match (off + fst p) (drop (fst p) cs) is \<noteq> Hit x" for x by simp
    then show ?thesis using Some by (cases p) (auto split: re_res.splits)
  qed simp
qed (auto simp: Let_def split: list.splits)

lemma re_find_no_lit: "Lit l \<in> set is \<Longrightarrow> \<forall>c \<in> set cs. tolower l \<noteq> tolower c \<Longrightarrow> re_find off cs is = None"
proof (induction off cs "is" rule: re_find.induct)
  case (2 off c cs "is")
  then show ?case using re_match_no_lit [OF 2(2,3), of off] by (auto split: re_res.splits)
qed auto

definition pl_norm :: "pl \<Rightarrow> pl" where "pl_norm p = (if pl_isset p then p else None)"

definition uri_norm :: "uri \<Rightarrow> uri" where
  "uri_norm u = u\<lparr>uri_user := pl_norm (uri_user u), uri_password := pl_norm (uri_password u),
     uri_params := pl_norm (uri_params u), uri_headers := pl_norm (uri_headers u)\<rparr>"

definition hostport_text :: "uri \<Rightarrow> u8 list" where
  "hostport_text u = (if uri_af u = AF_INET6 then 91 # pl_bytes (uri_host u) @ 93 # port_text (uri_port u)
     else pl_bytes (uri_host u) @ port_text (uri_port u))"

definition user_text :: "uri \<Rightarrow> u8 list" where
  "user_text u = (if pl_isset (uri_user u) then pl_bytes (uri_user u) @
     (if pl_isset (uri_password u) then 58 # pl_bytes (uri_password u) else []) @ [64] else [])"

definition host_ok :: "pton_env \<Rightarrow> u8 list \<times> sa \<Rightarrow> uri \<Rightarrow> bool" where
  "host_ok N J u \<longleftrightarrow> (if uri_af u = AF_INET6 then ip6_text (pl_bytes (uri_host u)) else name_text (pl_bytes (uri_host u))) \<and>
     (case sa_set N (fst J) (uri_host u) 0 (snd J) of (err, addr) \<Rightarrow> uri_af u = (if err = 0 then sa_af addr else AF_UNSPEC))"

text \<open>Without a user there is no \<open>@\<close> at all; the parameters and the headers start with the character that marks them.\<close>

definition uri_wf :: "pton_env \<Rightarrow> u8 list \<times> sa \<Rightarrow> uri \<Rightarrow> bool" where
  "uri_wf N J u \<longleftrightarrow> pl_isset (uri_scheme u) \<and> 58 \<notin> set (pl_bytes (uri_scheme u)) \<and> host_ok N J u \<and>
     (if pl_isset (uri_user u) then set (pl_bytes (uri_user u)) \<inter> {58, 64} = {} \<and> 64 \<notin> set (pl_bytes (uri_password u)) \<and>
        (pl_isset (uri_password u) \<longrightarrow> hd (pl_bytes (uri_password u)) \<noteq> 58)
      else \<not> pl_isset (uri_password u) \<and> 64 \<notin> set (pl_bytes (uri_scheme u) @ pl_bytes (uri_params u) @ pl_bytes (uri_headers u))) \<and>
     (pl_isset (uri_params u) \<longrightarrow> hd (pl_bytes (uri_params u)) = 59 \<and> 63 \<notin> set (pl_bytes (uri_params u))) \<and>
     (pl_isset (uri_headers u) \<longrightarrow> hd (pl_bytes (uri_headers u)) = 63)"

lemma pl_isset_bytes: "pl_isset p \<Longrightarrow> p = Some (pl_bytes p) \<and> pl_bytes p \<noteq> []" "\<not> pl_isset p \<Longrightarrow> pl_bytes p = []"
  by (auto simp: pl_isset_def pl_bytes_def split: option.splits)

lemma uri_text_parts:
  "uri_text u = pl_bytes (uri_scheme u) @ 58 # user_text u @ hostport_text u @ pl_bytes (uri_params u) @ pl_bytes (uri_headers u)"
  by (simp add: uri_text_def user_text_def hostport_text_def port_text_def)

lemma hostport_chars:
  assumes "host_ok N J u" "c \<in> set (hostport_text u)"
  shows "c \<notin> {32, 59, 63, 64}"
  using assms port_text_set [of c "uri_port u"]
  by (fastforce simp: host_ok_def hostport_text_def ip6_text_def name_text_def word_le_nat_alt word_unat_eq_iff split: if_splits)

lemma hostport_ne: "host_ok N J u \<Longrightarrow> hostport_text u \<noteq> []"
  by (auto simp: host_ok_def hostport_text_def name_text_def)

lemma hostport_decodes:
  assumes "host_ok N J u" "length (hostport_text u) + 10 < size_mod"
  shows "decode_hostport (Some (hostport_text u)) =
     Inr (uri_host u, Some (if uri_port u \<noteq> 0 then fmt_u (ucast (uri_port u)) else []))"
proof -
  have "uri_host u = Some (pl_bytes (uri_host u))"
    using assms(1) by (auto simp: host_ok_def pl_bytes_def ip6_text_def name_text_def split: option.splits if_splits)
  then show ?thesis
    using assms hostport6 [of "pl_bytes (uri_host u)" "uri_port u"] hostport_name [of "pl_bytes (uri_host u)" "uri_port u"]
    by (auto simp: host_ok_def hostport_text_def split: if_splits)
qed

text \<open>The rest behind the host.\<close>

lemma splits_tail:
  assumes "uri_wf N J u"
  shows "splits (hostport_text u @ pl_bytes (uri_params u) @ pl_bytes (uri_headers u))
     [Cls NotIn [Ch 59, Ch 63, Ch 32] Plus, Cls NotIn [Ch 63] Star, Cls NotIn [] Star]
     [hostport_text u, pl_bytes (uri_params u), pl_bytes (uri_headers u)]"
proof -
  have h: "host_ok N J u" using assms by (simp add: uri_wf_def)
  have tail: "pl_bytes (uri_params u) = [] \<or> hd (pl_bytes (uri_params u)) = 59 \<and> 63 \<notin> set (pl_bytes (uri_params u))"
      "pl_bytes (uri_headers u) = [] \<or> hd (pl_bytes (uri_headers u)) = 63"
    using assms pl_isset_bytes(2) by (auto simp: uri_wf_def)
  have "takes_all NotIn [Ch 59, Ch 63, Ch 32] Plus (hostport_text u) (pl_bytes (uri_params u) @ pl_bytes (uri_headers u))"
    using hostport_chars [OF h] hostport_ne [OF h] tail
    by (auto simp: takes_all_def tolower_eq hd_append)
  moreover have "takes_all NotIn [Ch 63] Star (pl_bytes (uri_params u)) (pl_bytes (uri_headers u))"
    using tail by (auto simp: takes_all_def tolower_eq)
  moreover have "takes_all NotIn [] Star (pl_bytes (uri_headers u)) []" by (simp add: takes_all_def)
  ultimately have "splits (hostport_text u @ pl_bytes (uri_params u) @ pl_bytes (uri_headers u) @ [])
     [Cls NotIn [Ch 59, Ch 63, Ch 32] Plus, Cls NotIn [Ch 63] Star, Cls NotIn [] Star]
     [hostport_text u, pl_bytes (uri_params u), pl_bytes (uri_headers u)]"
    by (intro splits_cls splits_Nil) simp_all
  then show ?thesis by simp
qed

lemma splits_uri:
  assumes "uri_wf N J u" "\<not> pl_isset (uri_user u)"
  shows "splits (uri_text u) [Cls NotIn [Ch 58] Plus, Lit 58, Cls NotIn [Ch 59, Ch 63, Ch 32] Plus, Cls NotIn [Ch 63] Star, Cls NotIn [] Star]
     [pl_bytes (uri_scheme u), hostport_text u, pl_bytes (uri_params u), pl_bytes (uri_headers u)]"
proof -
  have "takes_all NotIn [Ch 58] Plus (pl_bytes (uri_scheme u)) (58 # r)" for r
    using assms(1) pl_isset_bytes(1) by (auto simp: takes_all_def uri_wf_def tolower_eq)
  then show ?thesis unfolding uri_text_parts using splits_tail [OF assms(1)] assms(2)
    by (auto simp: user_text_def intro!: splits_cls splits_lit)
qed

lemma splits_uri_user:
  assumes "uri_wf N J u" "pl_isset (uri_user u)"
  shows "splits (uri_text u) [Cls NotIn [Ch 58] Plus, Lit 58, Cls NotIn [Ch 64, Ch 58] Star, Cls In [Ch 58] Star, Cls NotIn [Ch 64] Star, Lit 64,
       Cls NotIn [Ch 59, Ch 63, Ch 32] Plus, Cls NotIn [Ch 63] Star, Cls NotIn [] Star]
     [pl_bytes (uri_scheme u), pl_bytes (uri_user u), if pl_isset (uri_password u) then [58] else [], pl_bytes (uri_password u),
      hostport_text u, pl_bytes (uri_params u), pl_bytes (uri_headers u)]"
proof -
  let ?colon = "if pl_isset (uri_password u) then [58] else []" and ?pw = "pl_bytes (uri_password u)"
  have w: "pl_bytes (uri_scheme u) \<noteq> []" "58 \<notin> set (pl_bytes (uri_scheme u))" "set (pl_bytes (uri_user u)) \<inter> {58, 64} = {}"
      "64 \<notin> set ?pw" "pl_isset (uri_password u) \<longrightarrow> ?pw \<noteq> [] \<and> hd ?pw \<noteq> 58" "\<not> pl_isset (uri_password u) \<longrightarrow> ?pw = []"
    using assms pl_isset_bytes by (auto simp: uri_wf_def)
  have t1: "takes_all NotIn [Ch 58] Plus (pl_bytes (uri_scheme u)) (58 # r)" for r
    using w by (auto simp: takes_all_def tolower_eq)
  have t2: "takes_all NotIn [Ch 64, Ch 58] Star (pl_bytes (uri_user u)) (?colon @ ?pw @ 64 # r)" for r
    using w by (auto simp: takes_all_def tolower_eq)
  have t3: "takes_all In [Ch 58] Star ?colon (?pw @ 64 # r)" for r
    using w by (auto simp: takes_all_def tolower_eq hd_append)
  have t4: "takes_all NotIn [Ch 64] Star ?pw (64 # r)" for r
    using w by (auto simp: takes_all_def tolower_eq)
  have e: "uri_text u = pl_bytes (uri_scheme u) @ 58 # pl_bytes (uri_user u) @ ?colon @ ?pw @ 64 #
      hostport_text u @ pl_bytes (uri_params u) @ pl_bytes (uri_headers u)"
    using w assms(2) by (simp add: uri_text_parts user_text_def)
  show ?thesis unfolding e
    by (intro splits_cls splits_lit [OF disjI1 [OF refl] refl] t1 t2 t3 t4 splits_tail [OF assms(1)])
qed

lemma uri_done_norm:
  assumes "host_ok N J u" "uri_host v = uri_host u" "uri_port v = 0" "uri_norm (v\<lparr>uri_af := uri_af u, uri_port := uri_port u\<rparr>) = uri_norm u"
  shows "uri_norm (uri_done N J (Some (if uri_port u \<noteq> 0 then fmt_u (ucast (uri_port u)) else [])) v) = uri_norm u"
proof -
  have "uri_port u \<noteq> 0 \<Longrightarrow> fmt_u (ucast (uri_port u)) \<noteq> []" by (rule fmt_u_digits) (simp add: word_unat_eq_iff)
  moreover have "pl_u32 (Some (fmt_u (ucast (uri_port u)))) = ucast (uri_port u)"
    by (simp add: pl_u32_def fmt_u_itoa dec_loop_itoa)
  moreover have "ucast (ucast (uri_port u) :: u32) = uri_port u" 
    by (simp add: unsigned_ucast_eq take_bit_word_eq_self)
  ultimately show ?thesis using assms
    by (auto simp: uri_done_def host_ok_def pl_isset_def split: prod.splits)
qed

text \<open>Parsing what was printed gives the URI back, up to the difference between an absent and an empty part.\<close>

lemma uri_text_decodes:
  assumes "uri_wf N J u" "length (uri_text u) + 10 < size_mod"
  shows "\<exists>u'. uri_decode N J (Some (uri_text u)) = Inr u' \<and> uri_norm u' = uri_norm u"
proof -
  have h: "host_ok N J u" using assms(1) by (simp add: uri_wf_def)
  have ne: "uri_text u \<noteq> []" and l: "length (uri_text u) < size_mod" "length (hostport_text u) + 10 < size_mod"
    using assms(2) by (auto simp: uri_text_parts)
  note d = hostport_decodes [OF h l(2)]
  have sch: "uri_scheme u = Some (pl_bytes (uri_scheme u))" using assms(1) pl_isset_bytes(1) by (simp add: uri_wf_def)
  have nm: "pl_norm (Some (pl_bytes p)) = pl_norm p" for p
    by (cases p) (auto simp: pl_norm_def pl_isset_def pl_bytes_def)
  show ?thesis
  proof (cases "pl_isset (uri_user u)")
    case True
    note s = regex_pls_start [OF splits_uri_user [OF assms(1) True] ne items_ok_uri(3) l(1)]
    show ?thesis
      using uri_done_norm [OF h, of "uri_empty\<lparr>uri_scheme := Some (pl_bytes (uri_scheme u)), uri_user := Some (pl_bytes (uri_user u)),
        uri_password := Some (pl_bytes (uri_password u)), uri_host := uri_host u, uri_params := Some (pl_bytes (uri_params u)),
        uri_headers := Some (pl_bytes (uri_headers u))\<rparr>"] d s
      by (simp add: uri_decode_def uri_user_items uri_norm_def nm sch [symmetric] uri_empty_def)
  next
    case False
    have "\<forall>c \<in> set (uri_text u). tolower 64 \<noteq> tolower c"
      using assms(1) False hostport_chars [OF h] by (auto simp: uri_text_parts uri_wf_def user_text_def tolower_eq)
    then have "re_find 0 (uri_text u) [Cls NotIn [Ch 58] Plus, Lit 58, Cls NotIn [Ch 64, Ch 58] Star, Cls In [Ch 58] Star, Cls NotIn [Ch 64] Star, Lit 64,
       Cls NotIn [Ch 59, Ch 63, Ch 32] Plus, Cls NotIn [Ch 63] Star, Cls NotIn [] Star] = None"
      by (intro re_find_no_lit [of 64]) auto
    note n = regex_pls_none [OF this items_ok_uri(3) l(1)]
    note s = regex_pls_start [OF splits_uri [OF assms(1) False] ne items_ok_uri(4) l(1)]
    have no: "pl_norm (uri_user u) = None" "pl_norm (uri_password u) = None" "pl_norm None = None"
      using assms(1) False by (simp_all add: uri_wf_def pl_norm_def)
    show ?thesis
      using uri_done_norm [OF h, of "uri_empty\<lparr>uri_scheme := Some (pl_bytes (uri_scheme u)), uri_host := uri_host u,
        uri_params := Some (pl_bytes (uri_params u)), uri_headers := Some (pl_bytes (uri_headers u))\<rparr>"] d s n no
      by (simp add: uri_decode_def uri_user_items uri_items uri_norm_def nm sch [symmetric] uri_empty_def)
  qed
qed

text \<open>C37: A URI whose parts are well formed is printed into a buffer as its text, and parsing that text gives the same URI.\<close>

theorem uri_roundtrip:
  assumes "uri_wf N J u" "alloc_total E" "mbuf_ok mb" "mb_pos mb + length (uri_text u) + 10 < size_mod"
  shows "\<exists>mb' u'. uri_encode V (vprintf_handler E) u mb = Some (0, mb') \<and>
     take (mb_pos mb') (mbuf_content mb') = take (mb_pos mb) (mbuf_content mb) @ uri_text u \<and>
     uri_decode N J (Some (uri_text u)) = Inr u' \<and> uri_norm u' = uri_norm u"
proof -
  have "pl_isset (uri_scheme u)" "pl_isset (uri_host u)"
    using assms(1) by (auto simp: uri_wf_def host_ok_def ip6_text_def name_text_def pl_isset_def pl_bytes_def split: option.splits if_splits)
  from mb.uri_encode_prints [OF this, of E V] obtain mb' where "uri_encode V (vprintf_handler E) u mb = Some (0, mb')"
      "take (mb_pos mb') (mbuf_content mb') = take (mb_pos mb) (mbuf_content mb) @ uri_text u"
    unfolding mb.oprints_def mb.printed_def using assms(2-4)
    by (elim allE [of _ "0 :: nat"] allE [of _ mb]) auto
  then show ?thesis using uri_text_decodes [OF assms(1)] assms(4) by auto
qed

lemma sa_set_none:
  "\<exists>addr. sa_set \<lparr>pton4 = (\<lambda>_. None), pton6 = (\<lambda>_. None)\<rparr> b h p sa = (EINVAL, addr)"
  by (simp add: sa_set_def sa_set_str_def net_inet_pton_def Let_def)

theorem uri_roundtrip_witness:
  "\<forall>V. \<exists>u' mb'. uri_encode V (vprintf_handler ideal_env) (uri_empty\<lparr>uri_scheme := Some (ascii ''sip''), uri_user := Some (ascii ''a''),
        uri_host := Some (ascii ''b''), uri_port := 5060, uri_params := Some (ascii '';x''), uri_headers := Some (ascii ''?y=z'')\<rparr>) mbuf_init = Some (0, mb') \<and>
     take (mb_pos mb') (mbuf_content mb') = ascii ''sip:a@b:5060;x?y=z'' \<and>
     uri_decode \<lparr>pton4 = (\<lambda>_. None), pton6 = (\<lambda>_. None)\<rparr> (replicate 64 0, sa_init 0) (Some (ascii ''sip:a@b:5060;x?y=z'')) = Inr u' \<and>
     uri_norm u' = uri_empty\<lparr>uri_scheme := Some (ascii ''sip''), uri_user := Some (ascii ''a''), uri_host := Some (ascii ''b''),
        uri_port := 5060, uri_params := Some (ascii '';x''), uri_headers := Some (ascii ''?y=z'')\<rparr>"
proof
  fix V
  let ?u = "uri_empty\<lparr>uri_scheme := Some (ascii ''sip''), uri_user := Some (ascii ''a''), uri_host := Some (ascii ''b''),
        uri_port := 5060, uri_params := Some (ascii '';x''), uri_headers := Some (ascii ''?y=z'')\<rparr>"
  let ?N = "\<lparr>pton4 = (\<lambda>_. None), pton6 = (\<lambda>_. None)\<rparr> :: pton_env" and ?J = "(replicate 64 0, sa_init 0) :: u8 list \<times> sa"
  obtain addr where "sa_set ?N (replicate 64 0) (Some (ascii ''b'')) 0 (sa_init 0) = (EINVAL, addr)"
    using sa_set_none by blast
  then have wf: "uri_wf ?N ?J ?u"
    by (simp add: uri_wf_def host_ok_def name_text_def uri_empty_def pl_isset_def pl_bytes_def ascii_def AF_UNSPEC_def)
  have "fmt_u 5060 = ascii ''5060''" by (simp add: fmt_u_itoa itoa_step ascii_def)
  then have t: "uri_text ?u = ascii ''sip:a@b:5060;x?y=z''"
    by (simp add: uri_text_def uri_empty_def pl_isset_def pl_bytes_def ascii_def)
  have n: "uri_norm ?u = ?u" by (simp add: uri_norm_def uri_empty_def pl_norm_def pl_isset_def ascii_def)
  have "mbuf_ok mbuf_init" "mb_pos mbuf_init = 0" "mbuf_content mbuf_init = []"
    by (simp_all add: mbuf_ok_def mbuf_wf_def mbuf_init_def mbuf_content_def)
  then show "\<exists>u' mb'. uri_encode V (vprintf_handler ideal_env) ?u mbuf_init = Some (0, mb') \<and>
     take (mb_pos mb') (mbuf_content mb') = ascii ''sip:a@b:5060;x?y=z'' \<and>
     uri_decode ?N ?J (Some (ascii ''sip:a@b:5060;x?y=z'')) = Inr u' \<and> uri_norm u' = ?u"
    using uri_roundtrip [OF wf alloc_total_ideal, of mbuf_init V] unfolding t n
    by (simp add: ascii_def size_mod_def) blast
qed

subsection \<open>Escapes are undone\<close>

lemma hex_text_digits: "hex_text c = [37, digit 65 (unat c div 16), digit 65 (unat c mod 16)]"
proof -
  have c: "unat c < 256" using unat_bounds(1) by blast
  show ?thesis
  proof (cases "unat c < 16")
    case True
    then show ?thesis by (simp add: itoa_digit pad_to_def) (simp add: digit_def)
  next
    case False
    then have "itoa_loop (unat c) 16 65 [] = [digit 65 (unat c div 16), digit 65 (unat c mod 16)]"
      using c by (simp add: itoa_digit)
    then show ?thesis by (simp add: pad_to_def)
  qed
qed

lemma ch_hex_digit: "d < 16 \<Longrightarrow> ch_hex (digit 65 d) = of_nat d"
  by (drule less_16_cases, elim disjE; simp add: digit_def ch_hex_def hex_digit_def)

lemma of_nat_unat_id: "of_nat (unat (x :: u8)) = x" by simp

lemma hex_byte: "push_bit 4 (of_nat (unat c div 16)) OR of_nat (unat c mod 16) = (c :: u8)"
proof -
  have "unat (drop_bit 4 c) = unat c div 16" "unat (take_bit 4 c) = unat c mod 16"
    by (simp_all only: unat_drop_bit_eq unsigned_take_bit_eq drop_bit_eq_div take_bit_eq_mod) (simp_all add: unat_div unat_mod)
  then have "of_nat (unat c div 16) = drop_bit 4 c" "of_nat (unat c mod 16) = take_bit 4 c"
    using of_nat_unat_id [of "drop_bit 4 c"] of_nat_unat_id [of "take_bit 4 c"] by argo+
  then show ?thesis by (auto simp: bit_eq_iff bit_simps)
qed

lemma escape_text_simps:
  "escape_text eh [] = []" "escape_text eh (c # cs) = (if eh c then [c] else hex_text c) @ escape_text eh cs"
  by (simp_all add: escape_text_def)

declare hex_text.simps [simp del]

context print_target
begin

lemma comp_escape_prints: "oprints (comp_escape V vph eh cs) (escape_text eh cs)"
proof (induction cs)
  case (Cons c cs)
  have "oprints (re_hprintf V vph (ascii ''%%%02X'') [PaInt (ucast c)]) (hex_text c)"
    by (rule oprints_items [of "[FPercent, FConv False True 2 (KX True (NInt (ucast c)))]"])
      (simp_all add: subs_ok_def subs_of_def fmt_of_def ascii_def out_of_def args_of_def num_to_def hex_text.simps itoa_step size_mod_def)
  then have "oprints (\<lambda>s. if eh c then Some (vph [c] s) else re_hprintf V vph (ascii ''%%%02X'') [PaInt (ucast c)] s)
      (if eh c then [c] else hex_text c)"
    by (intro oprints_if [OF oprints_vph _ refl])
  from oprints_seq [OF this Cons refl] show ?case by (simp add: escape_text_simps)
qed (simp add: oprints_none escape_text_simps)

text \<open>Undoing it prints the text, reading only what is there.\<close>

lemma comp_unescape_prints:
  "\<not> eh 37 \<Longrightarrow> l = i + length (escape_text eh cs) \<Longrightarrow> l < size_mod \<Longrightarrow> room (length cs + n) s \<Longrightarrow>
     \<exists>s'. comp_unescape vph eh l i (escape_text eh cs) s = (0, s', False) \<and> printed cs n s s'"
proof (induction cs arbitrary: i s)
  case (Cons c cs)
  have "room (length [c] + (length cs + n)) s" using Cons.prems(4) by (simp add: add.assoc)
  then obtain s1 where s1: "vph [c] s = (0, s1)" "printed [c] (length cs + n) s s1"
    using takes [of "[c]" "length cs + n" s] by (auto simp: printed_def)
  let ?i = "i + length (if eh c then [c] else hex_text c)"
  have "l = ?i + length (escape_text eh cs)" using Cons.prems(2) by (simp add: escape_text_simps)
  then obtain s2 where s2: "comp_unescape vph eh l ?i (escape_text eh cs) s1 = (0, s2, False)" "printed cs n s1 s2"
    using Cons.IH [of ?i s1] Cons.prems(1,3) s1(2) by (auto simp: printed_def)
  have p: "printed (c # cs) n s s2" using s1(2) s2(2) by (simp add: printed_def)
  show ?case
  proof (cases "eh c")
    case True
    then show ?thesis using s1 s2 p by (simp add: escape_text_simps)
  next
    case False
    have "i + 3 \<le> l" using Cons.prems(2) False by (simp add: escape_text_simps hex_text_digits)
    then have "i < sz_sub l 2" using Cons.prems(3) by (simp add: size_simps)
    moreover have "push_bit 4 (ch_hex (digit 65 (unat c div 16))) OR ch_hex (digit 65 (unat c mod 16)) = c"
      using unat_bounds(1) [of c] by (simp add: ch_hex_digit hex_byte)
    ultimately show ?thesis using False Cons.prems(1) s1 s2 p by (simp add: escape_text_simps hex_text_digits numeral_3_eq_3 add.commute)
  qed
qed (simp add: escape_text_simps printed_def)

end

text \<open>C38: Escaping a part of a URI and undoing it gives the part back, for each kind of part; the text in between is
  printed completely and never read past its end.\<close>

theorem uri_escape_roundtrip:
  assumes "alloc_total E" "mbuf_ok mb" "mb_pos mb + length (escape_text ok cs) < size_mod"
    and "(esc, unesc, ok) \<in> {(uri_user_escape, uri_user_unescape, is_user), (uri_password_escape, uri_password_unescape, is_password),
      (uri_param_escape, uri_param_unescape, is_paramchar), (uri_header_escape, uri_header_unescape, is_hvalue)}"
  shows "\<exists>mb' mb''. esc V (vprintf_handler E) cs mb = Some (0, mb') \<and>
      take (mb_pos mb') (mbuf_content mb') = take (mb_pos mb) (mbuf_content mb) @ escape_text ok cs \<and>
      unesc (vprintf_handler E) (escape_text ok cs) mb = (0, mb'', False) \<and>
      take (mb_pos mb'') (mbuf_content mb'') = take (mb_pos mb) (mbuf_content mb) @ cs"
proof -
  have ok: "\<not> ok 37" using assms(4)
    by (auto simp: is_user_def is_password_def is_paramchar_def is_hvalue_def is_unreserved_def is_user_unreserved_def is_alnum_def
      is_mark_def is_param_unreserved_def is_hnv_unreserved_def ascii_def)
  have e: "esc V (vprintf_handler E) cs mb = comp_escape V (vprintf_handler E) ok cs mb"
      "unesc (vprintf_handler E) xs mb = comp_unescape (vprintf_handler E) ok (length xs) 0 xs mb" for xs
    using assms(4) by (auto simp: uri_user_escape_def uri_password_escape_def uri_param_escape_def uri_header_escape_def
      uri_user_unescape_def uri_password_unescape_def uri_param_unescape_def uri_header_unescape_def)
  have "length cs \<le> length (escape_text ok cs)" by (induction cs) (simp_all add: escape_text_simps hex_text_digits)
  then show ?thesis
    using mb.comp_escape_prints [of E V ok cs] mb.comp_unescape_prints [where eh = ok and l = "length (escape_text ok cs)" and i = 0 and cs = cs and n = 0 and s = mb and E = E] ok assms(1-3)
    unfolding e mb.oprints_def mb.printed_def by (elim allE [of _ "0 :: nat"] allE [of _ mb]) auto
qed

theorem uri_escape_roundtrip_witness:
  "\<exists>mb'. uri_user_unescape (vprintf_handler ideal_env) (ascii ''a%40b'') mbuf_init = (0, mb', False) \<and>
     take (mb_pos mb') (mbuf_content mb') = ascii ''a@b''"
proof -
  have "\<not> is_user 64" "is_user 97" "is_user 98"
    by (simp_all add: is_user_def is_unreserved_def is_user_unreserved_def is_alnum_def is_mark_def ascii_def)
  then have t: "escape_text is_user (ascii ''a@b'') = ascii ''a%40b''"
    by (simp add: escape_text_simps ascii_def hex_text_digits digit_def)
  have "mbuf_ok mbuf_init" "mb_pos mbuf_init = 0" "mbuf_content mbuf_init = []"
    by (simp_all add: mbuf_ok_def mbuf_wf_def mbuf_init_def mbuf_content_def)
  then show ?thesis
    using uri_escape_roundtrip [OF alloc_total_ideal, of mbuf_init is_user "ascii ''a@b''" uri_user_escape uri_user_unescape]
    unfolding t by (simp add: ascii_def size_mod_def) blast
qed

text \<open>A percent sign alone is read past the end of the text.\<close>

lemma uri_unescape_overrun: "\<not> eh 37 \<Longrightarrow> comp_unescape vph eh 1 0 [37] s = (0, s, True)"
  by (simp add: sz_sub_wrap size_mod_def)

subsection \<open>Comparison does not depend on the order\<close>

lemma strncasecmp_eq_sym: "strncasecmp_eq n a b = strncasecmp_eq n b a"
proof (induction n arbitrary: a b)
  case (Suc n)
  then show ?case by (cases a; cases b) (auto simp: tolower_eq [of 0] dest: sym)
qed simp

lemma pl_cmp_sym: "pl_cmp a b = pl_cmp b a" "pl_casecmp a b = pl_casecmp b a"
  using strncasecmp_eq_sym [of "pl_len a" "pl_bytes a" "pl_bytes b"]
  by (auto simp: pl_cmp_def pl_casecmp_def pl_len_def pl_bytes_def split: option.splits)

text \<open>Whether two URIs are equal does not depend on their order.\<close>

theorem uri_cmp_symmetric: "uri_cmp V junk same l r = uri_cmp V junk same r l"
  unfolding uri_cmp_def using pl_cmp_sym [of "uri_scheme l" "uri_scheme r"] pl_cmp_sym [of "uri_user l" "uri_user r"]
    pl_cmp_sym [of "uri_password l" "uri_password r"] pl_cmp_sym [of "uri_host l" "uri_host r"]
  by (simp add: eq_commute [of "uri_af l"] eq_commute [of "uri_port l"])

end
