(* ===== verification/Aubuf.thy ===== *)
theory Aubuf
  imports Mbuf "HOL-Library.Monad_Syntax" "HOL-Library.Sublist"
begin

text \<open>
  The audio buffer between the network and the sound driver: \<^verbatim>\<open>src/aubuf/aubuf.c\<close> of \<^verbatim>\<open>librem\<close>. The frames are the buffers in the
  order of the list (a frame owns the reference it got; a caller of \<^verbatim>\<open>aubuf_append\<close> does not touch its buffer any more). The lock
  excludes other operations while one runs, so each operation is one step. The clock and what allocating a lock returns are arguments.
\<close>

subsection \<open>Operations\<close>

record aubuf =
  ab_afl :: "mbuf list"
  ab_wish_sz :: nat
  ab_cur_sz :: nat
  ab_max_sz :: nat
  ab_filling :: bool
  ab_ts :: u64

definition sizeof_aubuf :: nat where "sizeof_aubuf = 48"
definition sizeof_auframe :: nat where "sizeof_auframe = 20"

definition aubuf_alloc :: "mem_env \<Rightarrow> err \<Rightarrow> nat \<Rightarrow> nat \<Rightarrow> err + aubuf" where
  "aubuf_alloc E lockerr min_sz max_sz =
     (if min_sz = 0 then Inl EINVAL
      else if \<not> can_alloc E sizeof_aubuf then Inl ENOMEM
      else if lockerr \<noteq> 0 then Inl lockerr
      else Inr \<lparr>ab_afl = [], ab_wish_sz = min_sz, ab_cur_sz = 0, ab_max_sz = max_sz, ab_filling = True, ab_ts = 0\<rparr>)"

definition aubuf_append :: "mem_env \<Rightarrow> mbuf \<Rightarrow> aubuf \<Rightarrow> err \<times> aubuf" where
  "aubuf_append E mb ab =
     (if \<not> can_alloc E sizeof_auframe then (ENOMEM, ab)
      else let ab = ab\<lparr>ab_afl := ab_afl ab @ [mb], ab_cur_sz := sz_add (ab_cur_sz ab) (mbuf_get_left mb)\<rparr>
        in if ab_max_sz ab \<noteq> 0 \<and> ab_cur_sz ab > ab_max_sz ab
           then (case ab_afl ab of
               [] \<Rightarrow> (0, ab)
             | af # afl \<Rightarrow> (0, ab\<lparr>ab_cur_sz := sz_sub (ab_cur_sz ab) (mbuf_get_left af), ab_afl := afl\<rparr>))
           else (0, ab))"

definition aubuf_write :: "mem_env \<Rightarrow> u8 list \<Rightarrow> aubuf \<Rightarrow> err \<times> aubuf" where
  "aubuf_write E p ab = (case mbuf_alloc E (length p) of
     None \<Rightarrow> (ENOMEM, ab)
   | Some mb \<Rightarrow> aubuf_append E ((snd (run_state (mbuf_write_mem E (Some p)) mb))\<lparr>mb_pos := 0\<rparr>) ab)"

text \<open>The loop over the frames: the bytes stored, the frames left, the size.\<close>

fun read_loop :: "mbuf list \<Rightarrow> nat \<Rightarrow> nat \<Rightarrow> u8 list \<times> mbuf list \<times> nat" where
  "read_loop [] sz cur = ([], [], cur)"
| "read_loop (af # afl) sz cur =
     (let n = min (mbuf_get_left af) sz;
          r = run_state (mbuf_read_mem n) af;
          bs = snd (fst r); af = snd r;
          cur = sz_sub cur n;
          keep = (if mbuf_get_left af = 0 then [] else [af])
      in if n = sz then (bs, keep @ afl, cur)
         else case read_loop afl (sz - n) cur of (bs', afl', cur') \<Rightarrow> (bs @ bs', keep @ afl', cur'))"

text \<open>\<open>p\<close> is the array of the caller, of the size asked for; the result is what it holds then.\<close>

definition aubuf_read :: "u8 list \<Rightarrow> aubuf \<Rightarrow> u8 list \<times> aubuf" where
  "aubuf_read p ab = (let sz = length p in
     if sz = 0 then (p, ab)
     else if ab_cur_sz ab < (if ab_filling ab then ab_wish_sz ab else sz)
       then (replicate sz 0, ab\<lparr>ab_filling := True\<rparr>)
     else case read_loop (ab_afl ab) sz (ab_cur_sz ab) of (bs, afl, cur) \<Rightarrow>
       (bs @ drop (length bs) p, ab\<lparr>ab_filling := False, ab_afl := afl, ab_cur_sz := cur\<rparr>))"

definition aubuf_get :: "u64 \<Rightarrow> u32 \<Rightarrow> u8 list \<Rightarrow> aubuf \<Rightarrow> err \<times> u8 list \<times> aubuf" where
  "aubuf_get now ptime p ab =
     (if ptime = 0 then (EINVAL, p, ab)
      else let ab = (if ab_ts ab = 0 then ab\<lparr>ab_ts := now\<rparr> else ab)
        in if now < ab_ts ab then (ETIMEDOUT, p, ab)
           else (0, aubuf_read p (ab\<lparr>ab_ts := ab_ts ab + ucast ptime\<rparr>)))"

definition aubuf_flush :: "aubuf \<Rightarrow> aubuf" where
  "aubuf_flush ab = ab\<lparr>ab_afl := [], ab_filling := True, ab_cur_sz := 0, ab_ts := 0\<rparr>"

definition aubuf_cur_size :: "aubuf \<Rightarrow> nat" where "aubuf_cur_size ab = ab_cur_sz ab"

subsection \<open>The abstract buffer: a queue of frames\<close>

text \<open>What the buffer promises, on the bytes that the frames still hold and the filling state: a write puts a frame at
  the end and, when there is more than the maximum, loses the oldest frame; a read gives silence as long as the
  buffer fills up or has less than asked for, and otherwise takes bytes from the oldest frames.\<close>

type_synonym aqueue = "u8 list list \<times> bool"

fun q_drop :: "nat \<Rightarrow> u8 list list \<Rightarrow> u8 list list" where
  "q_drop n [] = []"
| "q_drop n (f # fs) = (if n < length f then drop n f # fs else if n = length f then fs else q_drop (n - length f) fs)"

definition q_write :: "nat \<Rightarrow> u8 list \<Rightarrow> aqueue \<Rightarrow> aqueue" where
  "q_write mx xs q = (let fs = fst q @ [xs]
     in (if mx \<noteq> 0 \<and> mx < length (concat fs) then tl fs else fs, snd q))"

definition q_read :: "nat \<Rightarrow> u8 list \<Rightarrow> aqueue \<Rightarrow> u8 list \<times> aqueue" where
  "q_read wish p q = (let ct = concat (fst q) in
     if p = [] then (p, q)
     else if length ct < (if snd q then wish else length p) then (replicate (length p) 0, fst q, True)
     else (take (length p) ct @ drop (length ct) p, q_drop (length p) (fst q), False))"

datatype aop = AWrite "u8 list" | ARead "u8 list"

fun q_run :: "nat \<Rightarrow> nat \<Rightarrow> aop list \<Rightarrow> aqueue \<Rightarrow> u8 list list \<times> aqueue" where
  "q_run wish mx [] q = ([], q)"
| "q_run wish mx (AWrite xs # ops) q = q_run wish mx ops (q_write mx xs q)"
| "q_run wish mx (ARead p # ops) q = (case q_read wish p q of (out, q) \<Rightarrow> case q_run wish mx ops q of (outs, q) \<Rightarrow> (out # outs, q))"

lemma concat_q_drop: "concat (q_drop n fs) = drop n (concat fs)"
  by (induction n fs rule: q_drop.induct) auto

subsection \<open>The operations implement the queue\<close>

definition frames :: "aubuf \<Rightarrow> u8 list list" where "frames ab = map mbuf_rest (ab_afl ab)"

abbreviation aqueue_of :: "aubuf \<Rightarrow> aqueue" where "aqueue_of ab \<equiv> (frames ab, ab_filling ab)"

definition content :: "aubuf \<Rightarrow> u8 list" where "content ab = concat (frames ab)"

definition aubuf_wf :: "aubuf \<Rightarrow> bool" where
  "aubuf_wf ab \<longleftrightarrow> list_all mbuf_ok (ab_afl ab) \<and> ab_cur_sz ab = length (content ab) \<and> ab_cur_sz ab < size_mod \<and> 0 < ab_wish_sz ab"

definition same_limits :: "aubuf \<Rightarrow> aubuf \<Rightarrow> bool" where
  "same_limits ab ab' \<longleftrightarrow> ab_wish_sz ab' = ab_wish_sz ab \<and> ab_max_sz ab' = ab_max_sz ab \<and> ab_ts ab' = ab_ts ab"

lemma read_loop_Cons:
  assumes "mbuf_ok af"
  shows "read_loop (af # afl) sz cur =
    (let n = min (length (mbuf_rest af)) sz; keep = (if length (mbuf_rest af) \<le> sz then [] else [adv n af])
     in if n = sz then (take n (mbuf_rest af), keep @ afl, sz_sub cur n)
        else case read_loop afl (sz - n) (sz_sub cur n) of (bs, afl', cur') \<Rightarrow> (take n (mbuf_rest af) @ bs, keep @ afl', cur'))"
proof -
  let ?n = "min (length (mbuf_rest af)) sz"
  have "run_state (mbuf_read_mem ?n) af = ((0, take ?n (mbuf_rest af)), adv ?n af)" using assms by (simp add: mb_simps)
  moreover have "mbuf_get_left af = length (mbuf_rest af)" "mbuf_get_left (adv ?n af) = length (mbuf_rest af) - ?n"
    using assms by (simp_all add: mb_simps)
  moreover have "length (mbuf_rest af) - ?n = 0 \<longleftrightarrow> length (mbuf_rest af) \<le> sz" by auto
  ultimately show ?thesis by (simp only: read_loop.simps Let_def fst_conv snd_conv)
qed

lemma read_loop_cases:
  assumes "mbuf_ok af"
  shows "sz \<le> length (mbuf_rest af) \<Longrightarrow> read_loop (af # afl) sz cur =
      (take sz (mbuf_rest af), (if length (mbuf_rest af) = sz then [] else [adv sz af]) @ afl, sz_sub cur sz)"
    "length (mbuf_rest af) < sz \<Longrightarrow> read_loop (af # afl) sz cur =
      (case read_loop afl (sz - length (mbuf_rest af)) (sz_sub cur (length (mbuf_rest af))) of (bs, afl', cur') \<Rightarrow> (mbuf_rest af @ bs, afl', cur'))"
  unfolding read_loop_Cons [OF assms] by (simp_all add: min_def Let_def)

declare read_loop.simps(2) [simp del]

lemma read_loop_run:
  "list_all mbuf_ok afl \<Longrightarrow> length (concat (map mbuf_rest afl)) \<le> cur \<Longrightarrow> cur < size_mod \<Longrightarrow>
   read_loop afl sz cur = (bs, afl', cur') \<Longrightarrow>
   list_all mbuf_ok afl' \<and> bs = take sz (concat (map mbuf_rest afl)) \<and>
   map mbuf_rest afl' = q_drop sz (map mbuf_rest afl) \<and> cur' = cur - length bs"
proof (induction afl arbitrary: sz cur bs afl' cur')
  case (Cons af afl)
  let ?r = "mbuf_rest af" and ?rs = "concat (map mbuf_rest afl)"
  have ok: "mbuf_ok af" and le: "length ?r + length ?rs \<le> cur" using Cons.prems(1,2) by simp_all
  have c: "sz_sub cur (length ?r) = cur - length ?r" "sz \<le> length ?r \<Longrightarrow> sz_sub cur sz = cur - sz"
    using le Cons.prems(3) by (simp_all add: size_simps)
  show ?case
  proof (cases "sz \<le> length ?r")
    case True
    then show ?thesis using Cons.prems ok c by (auto simp: read_loop_cases mb_simps)
  next
    case False
    obtain bs1 afl1 cur1 where rec: "read_loop afl (sz - length ?r) (cur - length ?r) = (bs1, afl1, cur1)" by (metis prod_cases3)
    then show ?thesis using Cons.IH [OF _ _ _ rec] Cons.prems le False ok c by (auto simp: read_loop_cases)
  qed
qed simp

text \<open>Reading: while the buffer fills up, or when it has less than asked for, silence; otherwise the oldest bytes,
  which leave the buffer. What is not there is not written.\<close>

lemma aubuf_read_refines:
  assumes "aubuf_wf ab" "aubuf_read p ab = (p', ab')"
  shows "aubuf_wf ab' \<and> same_limits ab ab' \<and> q_read (ab_wish_sz ab) p (aqueue_of ab) = (p', aqueue_of ab')"
proof (cases "p = [] \<or> ab_cur_sz ab < (if ab_filling ab then ab_wish_sz ab else length p)")
  case True
  then show ?thesis using assms
    by (auto simp: aubuf_read_def q_read_def Let_def aubuf_wf_def content_def frames_def same_limits_def)
next
  case False
  obtain bs afl cur where r: "read_loop (ab_afl ab) (length p) (ab_cur_sz ab) = (bs, afl, cur)" by (metis prod_cases3)
  have wf: "list_all mbuf_ok (ab_afl ab)" "ab_cur_sz ab = length (content ab)" "ab_cur_sz ab < size_mod" "0 < ab_wish_sz ab"
    using assms(1) by (simp_all add: aubuf_wf_def)
  have "length (concat (map mbuf_rest (ab_afl ab))) \<le> ab_cur_sz ab" using wf(2) by (simp add: content_def frames_def)
  note rl = read_loop_run [OF wf(1) this wf(3) r]
  have e: "p' = bs @ drop (length bs) p" "ab' = ab\<lparr>ab_filling := False, ab_afl := afl, ab_cur_sz := cur\<rparr>"
    using assms(2) False r by (simp_all add: aubuf_read_def)
  have bs: "bs = take (length p) (content ab)" using rl by (simp add: content_def frames_def)
  have fs: "frames ab' = q_drop (length p) (frames ab)" using rl e(2) by (simp add: frames_def)
  have "drop (length bs) p = drop (length (content ab)) p" by (auto simp: bs min_def)
  then have "q_read (ab_wish_sz ab) p (aqueue_of ab) = (p', aqueue_of ab')"
    using False wf(2) e fs bs by (simp add: q_read_def content_def Let_def)
  moreover have "length (content ab') = cur" "cur \<le> ab_cur_sz ab"
    using rl wf(2) fs bs by (simp_all add: content_def concat_q_drop)
  moreover have "ab_afl ab' = afl" "ab_cur_sz ab' = cur" "same_limits ab ab'"
    using e(2) by (simp_all add: same_limits_def)
  ultimately show ?thesis using rl wf by (simp add: aubuf_wf_def same_limits_def)
qed

lemma aubuf_append_refines:
  assumes "aubuf_wf ab" "mbuf_ok mb" "can_alloc E sizeof_auframe" "length (content ab) + length (mbuf_rest mb) < size_mod"
    and "aubuf_append E mb ab = (err, ab')"
  shows "err = 0 \<and> aubuf_wf ab' \<and> same_limits ab ab' \<and> aqueue_of ab' = q_write (ab_max_sz ab) (mbuf_rest mb) (aqueue_of ab)"
proof -
  have wf: "list_all mbuf_ok (ab_afl ab)" "ab_cur_sz ab = length (content ab)" "ab_cur_sz ab < size_mod" "0 < ab_wish_sz ab"
    using assms(1) by (simp_all add: aubuf_wf_def)
  have c: "sz_add (ab_cur_sz ab) (mbuf_get_left mb) = length (content ab) + length (mbuf_rest mb)"
    using assms(2,4) wf(2) by (simp add: mb_simps size_simps)
  obtain af afl where l: "ab_afl ab @ [mb] = af # afl" by (cases "ab_afl ab @ [mb]") auto
  have "list_all mbuf_ok (af # afl)" unfolding l [symmetric] using wf(1) assms(2) by simp
  then have ok: "mbuf_ok af" "list_all mbuf_ok afl" by simp_all
  have fs: "frames ab @ [mbuf_rest mb] = mbuf_rest af # map mbuf_rest afl"
    using arg_cong [OF l, of "map mbuf_rest"] by (simp add: frames_def)
  have lc: "length (content ab) + length (mbuf_rest mb) = length (mbuf_rest af) + length (concat (map mbuf_rest afl))"
    using arg_cong [OF fs, of "\<lambda>x. length (concat x)"] by (simp add: content_def)
  have s: "sz_sub (length (content ab) + length (mbuf_rest mb)) (mbuf_get_left af) = length (concat (map mbuf_rest afl))"
    using ok(1) assms(4) lc by (simp add: mb_simps size_simps)
  have w: "q_write (ab_max_sz ab) (mbuf_rest mb) (aqueue_of ab) =
    (if ab_max_sz ab \<noteq> 0 \<and> ab_max_sz ab < length (content ab) + length (mbuf_rest mb)
      then map mbuf_rest afl else frames ab @ [mbuf_rest mb], ab_filling ab)"
    using fs lc by (simp add: q_write_def content_def Let_def)
  show ?thesis
  proof (cases "ab_max_sz ab \<noteq> 0 \<and> ab_max_sz ab < length (content ab) + length (mbuf_rest mb)")
    case True
    then have e: "err = 0" "ab' = ab\<lparr>ab_afl := afl, ab_cur_sz := length (concat (map mbuf_rest afl))\<rparr>"
      using assms(3,5) l s c by (auto simp: aubuf_append_def Let_def)
    show ?thesis using True e ok wf assms(4) lc w by (simp add: aubuf_wf_def content_def frames_def same_limits_def)
  next
    case False
    then have e: "err = 0" "ab' = ab\<lparr>ab_afl := ab_afl ab @ [mb], ab_cur_sz := length (content ab) + length (mbuf_rest mb)\<rparr>"
      using assms(3,5) c by (auto simp: aubuf_append_def Let_def)
    show ?thesis using e wf assms(2,4) w [unfolded if_not_P [OF False]] by (simp add: aubuf_wf_def content_def frames_def same_limits_def)
  qed
qed

lemma mbuf_alloc_any:
  assumes "alloc_total E" "n < size_mod"
  shows "\<exists>mb. mbuf_alloc E n = Some mb \<and> mbuf_wf mb \<and> mb_end mb = 0 \<and> mb_pos mb = 0"
proof (cases "n = 0")
  case True
  then have "mbuf_alloc E n = mbuf_alloc E DEFAULT_SIZE" by (simp add: mbuf_alloc_def)
  then show ?thesis using mbuf_alloc_run [OF assms(1), of DEFAULT_SIZE] by (simp add: DEFAULT_SIZE_def size_mod_def)
qed (use mbuf_alloc_run [OF assms(1)] assms(2) in simp)

lemma aubuf_write_refines:
  assumes "alloc_total E" "aubuf_wf ab" "length (content ab) + length xs < size_mod" "aubuf_write E xs ab = (err, ab')"
  shows "err = 0 \<and> aubuf_wf ab' \<and> same_limits ab ab' \<and> aqueue_of ab' = q_write (ab_max_sz ab) xs (aqueue_of ab)"
proof -
  obtain mb where mb: "mbuf_alloc E (length xs) = Some mb" "mbuf_wf mb" "mb_end mb = 0" "mb_pos mb = 0"
    using mbuf_alloc_any [OF assms(1), of "length xs"] assms(3) by auto
  have ok: "mbuf_ok mb" using mb by (simp add: mbuf_ok_def)
  obtain t where t: "run_state (mbuf_write_mem E (Some xs)) mb = (0, t)" "wrote mb xs t"
    using writes_mem [OF assms(1), of xs] ok assms(3) mb(4) unfolding writes_def by fastforce
  have r: "mbuf_ok (t\<lparr>mb_pos := 0\<rparr>)" "mbuf_rest (t\<lparr>mb_pos := 0\<rparr>) = xs"
    using wrote_rest [OF ok t(2)] mb(3,4) ok by (simp_all add: mbuf_rest_def mbuf_content_def)
  have w: "aubuf_append E (t\<lparr>mb_pos := 0\<rparr>) ab = (err, ab')" using assms(4) mb(1) t(1) by (simp add: aubuf_write_def)
  have "can_alloc E sizeof_auframe" using assms(1) by (simp add: alloc_total_def sizeof_auframe_def size_mod_def)
  from aubuf_append_refines [OF assms(2) r(1) this _ w] show ?thesis using assms(3) r(2) by simp
qed


fun au_run :: "mem_env \<Rightarrow> aop list \<Rightarrow> aubuf \<Rightarrow> u8 list list \<times> aubuf" where
  "au_run E [] ab = ([], ab)"
| "au_run E (AWrite xs # ops) ab = au_run E ops (snd (aubuf_write E xs ab))"
| "au_run E (ARead p # ops) ab = (case aubuf_read p ab of (out, ab) \<Rightarrow> case au_run E ops ab of (outs, ab) \<Rightarrow> (out # outs, ab))"

fun written :: "aop list \<Rightarrow> u8 list" where
  "written [] = []"
| "written (AWrite xs # ops) = xs @ written ops"
| "written (ARead p # ops) = written ops"

fun arrays :: "aop list \<Rightarrow> u8 list list" where
  "arrays [] = []"
| "arrays (AWrite xs # ops) = arrays ops"
| "arrays (ARead p # ops) = p # arrays ops"

subsection \<open>The queue as a stream\<close>

text \<open>An array \<open>p\<close> in which \<open>out\<close> was read: silence, or the sound \<open>d\<close>, which is as long as the array unless the array is
  larger than the size the buffer waits for, and behind it what the array held.\<close>

definition heard :: "nat \<Rightarrow> u8 list \<Rightarrow> u8 list \<times> u8 list \<Rightarrow> bool" where
  "heard wish p od \<longleftrightarrow> (case od of (out, d) \<Rightarrow> d = [] \<and> out = replicate (length p) 0 \<or>
     out = d @ drop (length d) p \<and> length d \<le> length p \<and> (length p \<le> wish \<longrightarrow> length d = length p))"

lemma q_read_stream:
  assumes "q_read wish p q = (out, q')"
  obtains d where "heard wish p (out, d)" "d @ concat (fst q') = concat (fst q)"
proof (cases "p = [] \<or> length (concat (fst q)) < (if snd q then wish else length p)")
  case True
  then show ?thesis using assms that [of "[]"] by (auto simp: q_read_def heard_def Let_def split: if_splits)
next
  case False
  let ?d = "take (length p) (concat (fst q))"
  have "out = ?d @ drop (length (concat (fst q))) p" "fst q' = q_drop (length p) (fst q)"
    using assms False by (auto simp: q_read_def Let_def)
  moreover have "drop (length ?d) p = drop (length (concat (fst q))) p" by (auto simp: min_def)
  moreover have "length p \<le> wish \<longrightarrow> length ?d = length p" using False by (auto split: if_splits)
  ultimately show ?thesis using that [of ?d] by (simp add: heard_def concat_q_drop)
qed

lemma q_write_stream:
  "subseq (concat (fst (q_write mx xs q))) (concat (fst q) @ xs)"
  "mx = 0 \<or> length (concat (fst q)) + length xs \<le> mx \<Longrightarrow> concat (fst (q_write mx xs q)) = concat (fst q) @ xs"
proof -
  have "subseq (concat (tl fs)) (concat fs)" for fs :: "u8 list list" by (cases fs) (simp_all add: list_emb_append2)
  from this [of "fst q @ [xs]"] show "subseq (concat (fst (q_write mx xs q))) (concat (fst q) @ xs)"
    by (simp add: q_write_def Let_def)
qed (auto simp: q_write_def Let_def)

lemma q_run_stream:
  "q_run wish mx ops q = (outs, q') \<Longrightarrow>
   \<exists>ds. length ds = length outs \<and> list_all2 (heard wish) (arrays ops) (zip outs ds) \<and>
     subseq (concat ds @ concat (fst q')) (concat (fst q) @ written ops) \<and>
     (mx = 0 \<or> length (concat (fst q)) + length (written ops) \<le> mx \<longrightarrow>
       concat ds @ concat (fst q') = concat (fst q) @ written ops)"
proof (induction ops arbitrary: q outs)
  case Nil
  then show ?case by auto
next
  case (Cons a ops)
  show ?case
  proof (cases a)
    case (AWrite xs)
    let ?q = "q_write mx xs q"
    have "q_run wish mx ops ?q = (outs, q')" using Cons.prems AWrite by simp
    from Cons.IH [OF this] obtain ds where d: "length ds = length outs" "list_all2 (heard wish) (arrays ops) (zip outs ds)"
      "subseq (concat ds @ concat (fst q')) (concat (fst ?q) @ written ops)"
      "mx = 0 \<or> length (concat (fst ?q)) + length (written ops) \<le> mx \<Longrightarrow> concat ds @ concat (fst q') = concat (fst ?q) @ written ops"
      by blast
    have "subseq (concat ds @ concat (fst q')) (concat (fst q) @ written (a # ops))"
      using d(3) list_emb_append_mono [OF q_write_stream(1) [of mx xs q], of "written ops" "written ops"]
      by (auto simp: AWrite intro: subseq_order.trans)
    moreover have "concat ds @ concat (fst q') = concat (fst q) @ written (a # ops)"
      if "mx = 0 \<or> length (concat (fst q)) + length (written (a # ops)) \<le> mx"
    proof -
      have "concat (fst ?q) = concat (fst q) @ xs" using that by (intro q_write_stream) (auto simp: AWrite)
      then show ?thesis using d(4) that by (auto simp: AWrite)
    qed
    ultimately show ?thesis using d(1,2) by (auto simp: AWrite)
  next
    case (ARead p)
    obtain out q1 outs1 where o: "q_read wish p q = (out, q1)" "q_run wish mx ops q1 = (outs1, q')" "outs = out # outs1"
      using Cons.prems ARead by (auto split: prod.splits)
    obtain d where h: "heard wish p (out, d)" "d @ concat (fst q1) = concat (fst q)" by (rule q_read_stream [OF o(1)])
    from Cons.IH [OF o(2)] obtain ds where d: "length ds = length outs1" "list_all2 (heard wish) (arrays ops) (zip outs1 ds)"
      "subseq (concat ds @ concat (fst q')) (concat (fst q1) @ written ops)"
      "mx = 0 \<or> length (concat (fst q1)) + length (written ops) \<le> mx \<Longrightarrow> concat ds @ concat (fst q') = concat (fst q1) @ written ops"
      by blast
    show ?thesis
    proof (intro exI [of _ "d # ds"] conjI impI)
      show "concat (d # ds) @ concat (fst q') = concat (fst q) @ written (a # ops)"
        if "mx = 0 \<or> length (concat (fst q)) + length (written (a # ops)) \<le> mx"
        using d(4) that arg_cong [OF h(2), of length] by (auto simp: ARead h(2) [symmetric])
    qed (use d h o(3) in \<open>auto simp: ARead h(2) [symmetric] subseq_append'\<close>)
  qed
qed

text \<open>C31: in every run of writes and reads of any sizes the audio buffer is the abstract queue of frames: the arrays
  hold what the queue gives, and the frames and the filling state in the end are those of the queue. So what is heard
  is what was in the buffer and was written since, in order and without repetition, some of the oldest frames lost,
  and nothing is lost when there is no maximum or the writes do not exceed it. Each read gives silence or sound, and
  sound fills the array unless the array is larger than the size the buffer waits for; then the rest of the array is
  left as it was. Memory does not run out, and what is in the buffer and is written stays below 4 GB.\<close>

theorem aubuf_stream:
  assumes "alloc_total E" "aubuf_wf ab" "length (content ab) + length (written ops) < size_mod"
  shows "\<exists>outs ab' ds. au_run E ops ab = (outs, ab') \<and> aubuf_wf ab' \<and>
    q_run (ab_wish_sz ab) (ab_max_sz ab) ops (aqueue_of ab) = (outs, aqueue_of ab') \<and>
    length ds = length outs \<and> list_all2 (heard (ab_wish_sz ab)) (arrays ops) (zip outs ds) \<and>
    subseq (concat ds @ content ab') (content ab @ written ops) \<and>
    (ab_max_sz ab = 0 \<or> length (content ab) + length (written ops) \<le> ab_max_sz ab \<longrightarrow>
      concat ds @ content ab' = content ab @ written ops)"
proof -
  have "\<exists>outs ab'. au_run E ops ab = (outs, ab') \<and> aubuf_wf ab' \<and>
    q_run (ab_wish_sz ab) (ab_max_sz ab) ops (aqueue_of ab) = (outs, aqueue_of ab')"
    using assms(2,3)
  proof (induction ops arbitrary: ab)
    case (Cons a ops)
    show ?case
    proof (cases a)
      case (AWrite xs)
      obtain err ab1 where w: "aubuf_write E xs ab = (err, ab1)" by fastforce
      have "length (content ab) + length xs < size_mod" using Cons.prems(2) AWrite by simp
      note r = aubuf_write_refines [OF assms(1) Cons.prems(1) this w]
      then have "fst (aqueue_of ab1) = fst (q_write (ab_max_sz ab) xs (aqueue_of ab))" by (metis fst_conv)
      then have "length (content ab1) \<le> length (content ab) + length xs"
        using list_emb_length [OF q_write_stream(1) [of "ab_max_sz ab" xs "aqueue_of ab"]] by (simp add: content_def)
      then show ?thesis using Cons.IH [of ab1] Cons.prems r w by (simp add: AWrite same_limits_def)
    next
      case (ARead p)
      obtain out ab1 where o: "aubuf_read p ab = (out, ab1)" by fastforce
      note r = aubuf_read_refines [OF Cons.prems(1) o]
      obtain d where "d @ content ab1 = content ab"
        using r q_read_stream [of "ab_wish_sz ab" p "aqueue_of ab" out "aqueue_of ab1"] by (auto simp: content_def)
      then have "length (content ab1) \<le> length (content ab)" by (metis length_append le_add2)
      then show ?thesis using Cons.IH [of ab1] Cons.prems r o by (auto simp: ARead same_limits_def)
    qed
  qed simp
  then obtain outs ab' where r: "au_run E ops ab = (outs, ab')" "aubuf_wf ab'"
    "q_run (ab_wish_sz ab) (ab_max_sz ab) ops (aqueue_of ab) = (outs, aqueue_of ab')"
    by blast
  from q_run_stream [OF r(3)] r show ?thesis unfolding content_def fst_conv by blast
qed
definition new_aubuf :: "nat \<Rightarrow> nat \<Rightarrow> aubuf" where
  "new_aubuf wish mx = \<lparr>ab_afl = [], ab_wish_sz = wish, ab_cur_sz = 0, ab_max_sz = mx, ab_filling = True, ab_ts = 0\<rparr>"

definition sample_run :: "aop list" where
  "sample_run = [ARead [9], AWrite [1, 2, 3], AWrite [4, 5], ARead [9, 9, 9], AWrite [6, 7, 8], ARead [9]]"

text \<open>The first frame is lost, the second read is larger than the size waited for.\<close>

theorem aubuf_stream_witness:
  "fst (au_run ideal_env sample_run (new_aubuf 2 4)) = [[0], [4, 5, 9], [6]]"
proof -
  have n: "aubuf_wf (new_aubuf 2 4)" "ab_wish_sz (new_aubuf 2 4) = 2" "ab_max_sz (new_aubuf 2 4) = 4"
    "aqueue_of (new_aubuf 2 4) = ([], True)" "content (new_aubuf 2 4) = []"
    by (simp_all add: aubuf_wf_def new_aubuf_def content_def frames_def size_mod_def)
  moreover have "length (written sample_run) < size_mod" by (simp add: sample_run_def size_mod_def)
  moreover have "fst (q_run 2 4 sample_run ([], True)) = [[0], [4, 5, 9], [6]]"
    by (simp add: sample_run_def q_read_def q_write_def)
  ultimately show ?thesis using aubuf_stream [OF alloc_total_ideal n(1), of sample_run] by auto
qed

text \<open>A read that is larger than the size the buffer waits for gets fewer bytes than it asked for, and the rest of the array is not silenced
  but left as it was.\<close>

lemma aubuf_short_read:
  assumes "aubuf_wf ab" "ab_filling ab" "ab_wish_sz ab \<le> length (content ab)" "length (content ab) < length p"
  shows "fst (aubuf_read p ab) = content ab @ drop (length (content ab)) p"
proof -
  obtain out ab1 where o: "aubuf_read p ab = (out, ab1)" by fastforce
  have "p \<noteq> []" using assms(4) by auto
  with aubuf_read_refines [OF assms(1) o] assms(2-4) o show ?thesis
    by (simp add: q_read_def content_def Let_def)
qed

text \<open>Timed reads are not faster than one for each packet time: the time of the buffer is \<open>k\<close> packet times behind the first one
  after \<open>k\<close> reads that were not refused, and a read is refused before it.\<close>

lemma aubuf_get_paced:
  assumes "ptime \<noteq> 0" "aubuf_get now ptime p ab = (err, p', ab')"
  shows "err = 0 \<longleftrightarrow> ab_ts ab \<le> now" "err = 0 \<Longrightarrow> ab_ts ab' = (if ab_ts ab = 0 then now else ab_ts ab) + ucast ptime"
    "err \<noteq> 0 \<Longrightarrow> err = ETIMEDOUT \<and> p' = p \<and> ab' = ab"
proof -
  have ts: "aubuf_read q x = (q', x') \<Longrightarrow> ab_ts x' = ab_ts x" for q x q' x'
    by (auto simp: aubuf_read_def Let_def split: prod.splits if_splits)
  have z: "ETIMEDOUT \<noteq> 0" by simp
  show "err = 0 \<longleftrightarrow> ab_ts ab \<le> now" "err \<noteq> 0 \<Longrightarrow> err = ETIMEDOUT \<and> p' = p \<and> ab' = ab"
    using assms z by (auto simp: aubuf_get_def Let_def split: if_splits)
  show "err = 0 \<Longrightarrow> ab_ts ab' = (if ab_ts ab = 0 then now else ab_ts ab) + ucast ptime"
    using assms z by (auto simp: aubuf_get_def Let_def split: if_splits dest!: ts)
qed

end
