(* ===== verification/RefMem.thy ===== *)
theory RefMem
  imports LinkedList "HOL-Library.Multiset" "HOL-Library.Monad_Syntax"
begin

text \<open>
  Reference counted objects: \<^verbatim>\<open>src/mem/mem.c\<close>, with the statistics of a build without \<^verbatim>\<open>RELEASE\<close>. What an object holds is the business of
  its module; here it is the list of the objects its destructor releases, which grows while the module stores references in the object. A call of a destructor inside of \<^verbatim>\<open>mem_deref\<close> is a stack of things that
  are still to be done. Using an object that is gone is a fault. The addresses of new blocks are arguments.
\<close>

subsection \<open>Blocks and statistics\<close>

record block =
  bl_nrefs :: u32
  bl_dh :: bool
  bl_size :: nat
  bl_owns :: "addr list"

record memstat =
  bytes_cur :: nat
  bytes_peak :: nat
  blocks_cur :: nat
  blocks_peak :: nat
  size_min :: nat
  size_max :: nat

definition memstat_init :: memstat where
  "memstat_init = \<lparr>bytes_cur = 0, bytes_peak = 0, blocks_cur = 0, blocks_peak = 0, size_min = size_mod - 1, size_max = 0\<rparr>"

definition stat_alloc :: "nat \<Rightarrow> memstat \<Rightarrow> memstat" where
  "stat_alloc n s = (let cur = sz_add (bytes_cur s) n; blocks = sz_add (blocks_cur s) 1 in
     s\<lparr>bytes_cur := cur, bytes_peak := max cur (bytes_peak s), blocks_cur := blocks, blocks_peak := max blocks (blocks_peak s),
       size_min := min (size_min s) n, size_max := max (size_max s) n\<rparr>)"

definition stat_realloc :: "nat \<Rightarrow> nat \<Rightarrow> memstat \<Rightarrow> memstat" where
  "stat_realloc old n s = (let cur = sz_add (bytes_cur s) (sz_sub n old) in
     s\<lparr>bytes_cur := cur, bytes_peak := max cur (bytes_peak s), size_min := min (size_min s) n, size_max := max (size_max s) n\<rparr>)"

definition stat_deref :: "nat \<Rightarrow> memstat \<Rightarrow> memstat" where
  "stat_deref n s = s\<lparr>bytes_cur := sz_sub (bytes_cur s) n, blocks_cur := sz_sub (blocks_cur s) 1\<rparr>"

text \<open>\<open>ms_log\<close>: the objects whose destructors were called, in the order of the calls.\<close>

record mst =
  ms_heap :: "addr \<Rightarrow> block option"
  ms_meml :: "addr list"
  ms_stat :: memstat
  ms_thr :: int
  ms_log :: "addr list"
  ms_fault :: bool

definition over_threshold :: "mst \<Rightarrow> bool" where
  "over_threshold st \<longleftrightarrow> ms_thr st \<noteq> -1 \<and> blocks_cur (ms_stat st) \<ge> nat (ms_thr st mod int size_mod)"

subsection \<open>Operations\<close>

text \<open>\<open>mal\<close> is what \<^verbatim>\<open>malloc\<close> or \<^verbatim>\<open>realloc\<close> returns.\<close>

definition mem_alloc :: "addr option \<Rightarrow> nat \<Rightarrow> bool \<Rightarrow> mst \<Rightarrow> addr option \<times> mst" where
  "mem_alloc mal n dh st =
     (if over_threshold st then (None, st)
      else case mal of
        None \<Rightarrow> (None, st)
      | Some p \<Rightarrow> (Some p, st\<lparr>ms_heap := (ms_heap st)(p \<mapsto> \<lparr>bl_nrefs = 1, bl_dh = dh, bl_size = n, bl_owns = []\<rparr>),
          ms_meml := ms_meml st @ [p], ms_stat := stat_alloc n (ms_stat st)\<rparr>))"

text \<open>\<^verbatim>\<open>mem_zalloc\<close> also clears the memory, which the model does not have.\<close>

definition mem_zalloc :: "addr option \<Rightarrow> nat \<Rightarrow> bool \<Rightarrow> mst \<Rightarrow> addr option \<times> mst" where
  "mem_zalloc mal n dh st = mem_alloc mal n dh st"

definition mem_realloc :: "addr option \<Rightarrow> addr option \<Rightarrow> nat \<Rightarrow> mst \<Rightarrow> addr option \<times> mst" where
  "mem_realloc mal data n st = (case data of
     None \<Rightarrow> (None, st)
   | Some p \<Rightarrow> (case ms_heap st p of
       None \<Rightarrow> (None, st\<lparr>ms_fault := True\<rparr>)
     | Some b \<Rightarrow>
         if n > bl_size b \<and> over_threshold st then (None, st)
         else let l = remove1 p (ms_meml st) in (case mal of
             None \<Rightarrow> (None, st\<lparr>ms_meml := l @ [p]\<rparr>)
           | Some q \<Rightarrow> (Some q, st\<lparr>ms_heap := (ms_heap st)(p := None, q := Some (b\<lparr>bl_size := n\<rparr>)), ms_meml := l @ [q],
               ms_stat := stat_realloc (bl_size b) n (ms_stat st)\<rparr>))))"

definition mem_ref :: "addr option \<Rightarrow> mst \<Rightarrow> addr option \<times> mst" where
  "mem_ref data st = (case data of
     None \<Rightarrow> (None, st)
   | Some p \<Rightarrow> (case ms_heap st p of
       None \<Rightarrow> (data, st\<lparr>ms_fault := True\<rparr>)
     | Some b \<Rightarrow> (data, st\<lparr>ms_heap := (ms_heap st)(p \<mapsto> b\<lparr>bl_nrefs := bl_nrefs b + 1\<rparr>)\<rparr>)))"

definition mem_nrefs :: "addr option \<Rightarrow> mst \<Rightarrow> u32" where
  "mem_nrefs data st = (case data of None \<Rightarrow> 0 | Some p \<Rightarrow> (case ms_heap st p of None \<Rightarrow> 0 | Some b \<Rightarrow> bl_nrefs b))"

text \<open>The part of \<^verbatim>\<open>mem_deref\<close> after the call of the destructor, which may have taken a reference again.\<close>

definition mem_free :: "addr \<Rightarrow> block \<Rightarrow> mst \<Rightarrow> mst" where
  "mem_free p b st = st\<lparr>ms_heap := (ms_heap st)(p := None), ms_meml := remove1 p (ms_meml st), ms_stat := stat_deref (bl_size b) (ms_stat st)\<rparr>"

datatype task = Deref addr | Finish addr

partial_function (option) mem_work :: "task list \<Rightarrow> mst \<Rightarrow> mst option" where
  "mem_work ts st = (case ts of
     [] \<Rightarrow> Some st
   | Deref p # ts \<Rightarrow> (case ms_heap st p of
       None \<Rightarrow> Some (st\<lparr>ms_fault := True\<rparr>)
     | Some b \<Rightarrow>
         let b = b\<lparr>bl_nrefs := bl_nrefs b - 1\<rparr>; st = st\<lparr>ms_heap := (ms_heap st)(p \<mapsto> b)\<rparr>
         in if bl_nrefs b > 0 then mem_work ts st
            else if bl_dh b then mem_work (map Deref (bl_owns b) @ Finish p # ts) (st\<lparr>ms_log := ms_log st @ [p]\<rparr>)
            else mem_work (Finish p # ts) st)
   | Finish p # ts \<Rightarrow> (case ms_heap st p of
       None \<Rightarrow> Some (st\<lparr>ms_fault := True\<rparr>)
     | Some b \<Rightarrow> if bl_nrefs b > 0 then mem_work ts st else mem_work ts (mem_free p b st)))"

definition mem_deref :: "addr option \<Rightarrow> mst \<Rightarrow> mst option" where
  "mem_deref data st = (case data of None \<Rightarrow> Some st | Some p \<Rightarrow> mem_work [Deref p] st)"

definition mem_threshold_set :: "int \<Rightarrow> mst \<Rightarrow> mst" where "mem_threshold_set n st = st\<lparr>ms_thr := n\<rparr>"

definition mem_get_stat :: "mst \<Rightarrow> err \<times> memstat" where "mem_get_stat st = (0, ms_stat st)"

subsection \<open>Counting references\<close>

abbreviation blk :: "mst \<Rightarrow> addr \<Rightarrow> block" where "blk st p \<equiv> the (ms_heap st p)"

definition releases :: "block \<Rightarrow> addr list" where "releases b = (if bl_dh b then bl_owns b else [])"

text \<open>The references that the objects hold, those in \<open>D\<close> apart, which are being destroyed.\<close>

definition owned :: "addr set \<Rightarrow> mst \<Rightarrow> addr multiset" where
  "owned D st = (\<Sum>p \<in> dom (ms_heap st) - D. mset (releases (blk st p)))"

fun derefs :: "task list \<Rightarrow> addr multiset" where
  "derefs [] = {#}"
| "derefs (Deref p # ts) = add_mset p (derefs ts)"
| "derefs (Finish p # ts) = derefs ts"

fun finishes :: "task list \<Rightarrow> addr list" where
  "finishes [] = []"
| "finishes (Deref p # ts) = finishes ts"
| "finishes (Finish p # ts) = p # finishes ts"

lemma derefs_append [simp]: "derefs (ts @ us) = derefs ts + derefs us"
  by (induction ts rule: derefs.induct) simp_all

lemma finishes_append [simp]: "finishes (ts @ us) = finishes ts @ finishes us"
  by (induction ts rule: finishes.induct) simp_all

lemma derefs_map [simp]: "derefs (map Deref ps) = mset ps" "finishes (map Deref ps) = []"
  by (induction ps) simp_all

text \<open>The references of an object are counted exactly: \<open>R\<close> are those held outside of the objects, \<open>ts\<close> is what is still to be done.\<close>

definition counted :: "addr multiset \<Rightarrow> task list \<Rightarrow> mst \<Rightarrow> bool" where
  "counted R ts st \<longleftrightarrow> (let D = set (finishes ts); all = owned D st + R + derefs ts; live = dom (ms_heap st) in
     distinct (ms_meml st) \<and> set (ms_meml st) = live \<and> distinct (finishes ts) \<and> D \<subseteq> live \<and> set_mset all \<subseteq> live - D \<and>
     (\<forall>p \<in> D. bl_nrefs (blk st p) = 0) \<and> (\<forall>p \<in> live - D. unat (bl_nrefs (blk st p)) = count all p \<and> bl_nrefs (blk st p) \<noteq> 0))"

abbreviation dec_ref :: "addr \<Rightarrow> block \<Rightarrow> mst \<Rightarrow> mst" where
  "dec_ref p b st \<equiv> st\<lparr>ms_heap := (ms_heap st)(p \<mapsto> b\<lparr>bl_nrefs := bl_nrefs b - 1\<rparr>)\<rparr>"

lemma owned_upd [simp]:
  "ms_heap st p = Some b \<Longrightarrow> bl_dh b' = bl_dh b \<Longrightarrow> bl_owns b' = bl_owns b \<Longrightarrow> owned D (st\<lparr>ms_heap := (ms_heap st)(p \<mapsto> b')\<rparr>) = owned D st"
  unfolding owned_def by (rule sum.cong) (auto simp: releases_def)

lemma owned_log [simp]: "owned D (st\<lparr>ms_log := l\<rparr>) = owned D st"
  by (simp add: owned_def)

lemma owned_insert:
  "finite (dom (ms_heap st)) \<Longrightarrow> ms_heap st p = Some b \<Longrightarrow> p \<notin> D \<Longrightarrow> owned D st = mset (releases b) + owned (insert p D) st"
  unfolding owned_def by (subst sum.remove [of _ p]) (auto intro!: sum.cong)

lemma owned_free: "p \<in> D \<Longrightarrow> owned (D - {p}) (mem_free p b st) = owned D st"
  unfolding owned_def mem_free_def by (rule sum.cong) auto

lemma counted_finite: "counted R ts st \<Longrightarrow> finite (dom (ms_heap st))"
  unfolding counted_def Let_def by (metis List.finite_set)

lemma counted_log [simp]: "counted R ts (st\<lparr>ms_log := l\<rparr>) = counted R ts st"
  by (simp add: counted_def)

abbreviation all_refs :: "addr multiset \<Rightarrow> task list \<Rightarrow> mst \<Rightarrow> addr multiset" where
  "all_refs R ts st \<equiv> owned (set (finishes ts)) st + R + derefs ts"

lemma countedD:
  assumes "counted R ts st"
  shows "distinct (ms_meml st)" "set (ms_meml st) = dom (ms_heap st)" "distinct (finishes ts)" "set (finishes ts) \<subseteq> dom (ms_heap st)"
    and "p \<in># all_refs R ts st \<Longrightarrow> p \<in> dom (ms_heap st) \<and> p \<notin> set (finishes ts)"
    and "p \<in> set (finishes ts) \<Longrightarrow> bl_nrefs (blk st p) = 0"
    and "ms_heap st p = Some b \<Longrightarrow> p \<notin> set (finishes ts) \<Longrightarrow> unat (bl_nrefs b) = count (all_refs R ts st) p \<and> bl_nrefs b \<noteq> 0"
  using assms unfolding counted_def Let_def by (simp, simp, simp, simp, blast, simp, metis DiffI domI option.sel)

lemma countedI:
  assumes "distinct (ms_meml st)" "set (ms_meml st) = dom (ms_heap st)" "distinct (finishes ts)" "set (finishes ts) \<subseteq> dom (ms_heap st)"
    and "\<And>p. p \<in># all_refs R ts st \<Longrightarrow> p \<in> dom (ms_heap st) \<and> p \<notin> set (finishes ts)"
    and "\<And>p. p \<in> set (finishes ts) \<Longrightarrow> bl_nrefs (blk st p) = 0"
    and "\<And>p b. ms_heap st p = Some b \<Longrightarrow> p \<notin> set (finishes ts) \<Longrightarrow> unat (bl_nrefs b) = count (all_refs R ts st) p \<and> bl_nrefs b \<noteq> 0"
  shows "counted R ts st"
proof -
  have "set_mset (all_refs R ts st) \<subseteq> dom (ms_heap st) - set (finishes ts)" using assms(5) by blast
  moreover have "\<forall>p \<in> dom (ms_heap st) - set (finishes ts). unat (bl_nrefs (blk st p)) = count (all_refs R ts st) p \<and> bl_nrefs (blk st p) \<noteq> 0"
    using assms(7) by (metis DiffE domD option.sel)
  ultimately show ?thesis unfolding counted_def Let_def using assms(1-4,6) by blast
qed

lemma counted_Deref:
  assumes "counted R (Deref p # ts) st"
  obtains b where "ms_heap st p = Some b" "bl_nrefs b \<noteq> 0" "p \<notin> set (finishes ts)"
    "unat (bl_nrefs b) = Suc (count (all_refs R ts st) p)"
proof -
  have "p \<in> dom (ms_heap st) \<and> p \<notin> set (finishes ts)" using countedD(5) [OF assms, of p] by simp
  then obtain b where "ms_heap st p = Some b" "p \<notin> set (finishes ts)" by blast
  then show ?thesis using that countedD(7) [OF assms, of p b] by simp
qed

lemma unat_dec: "(w::u32) \<noteq> 0 \<Longrightarrow> unat (w - 1) = unat w - 1"
  by (metis unat_minus_one)

lemma counted_dec:
  assumes "counted R (Deref p # ts) st" "ms_heap st p = Some b" "bl_nrefs b - 1 \<noteq> 0"
  shows "counted R ts (dec_ref p b st)"
proof (rule countedI)
  note c = countedD [OF assms(1)]
  note o = owned_upd [OF assms(2), of "b\<lparr>bl_nrefs := bl_nrefs b - 1\<rparr>"]
  obtain b' where b': "ms_heap st p = Some b'" "bl_nrefs b' \<noteq> 0" "p \<notin> set (finishes ts)" "unat (bl_nrefs b') = Suc (count (all_refs R ts st) p)"
    by (rule counted_Deref [OF assms(1)])
  have b: "unat (bl_nrefs b - 1) = count (all_refs R ts st) p" using b' assms(2) unat_dec [of "bl_nrefs b"] by simp
  show "distinct (ms_meml (dec_ref p b st))" "set (ms_meml (dec_ref p b st)) = dom (ms_heap (dec_ref p b st))" "distinct (finishes ts)"
    "set (finishes ts) \<subseteq> dom (ms_heap (dec_ref p b st))" using c(1-4) assms(2) by auto
  show "q \<in># all_refs R ts (dec_ref p b st) \<Longrightarrow> q \<in> dom (ms_heap (dec_ref p b st)) \<and> q \<notin> set (finishes ts)" for q
    using c(5) [of q] o by auto
  show "q \<in> set (finishes ts) \<Longrightarrow> bl_nrefs (blk (dec_ref p b st) q) = 0" for q using c(6) [of q] b'(3) by auto
  show "ms_heap (dec_ref p b st) q = Some x \<Longrightarrow> q \<notin> set (finishes ts) \<Longrightarrow>
      unat (bl_nrefs x) = count (all_refs R ts (dec_ref p b st)) q \<and> bl_nrefs x \<noteq> 0" for q x
    using c(7) [of q x] o b assms(3) by (cases "q = p") auto
qed

lemma counted_zero:
  assumes "counted R (Deref p # ts) st" "ms_heap st p = Some b" "bl_nrefs b - 1 = 0"
  shows "counted R (map Deref (releases b) @ Finish p # ts) (dec_ref p b st)"
proof (rule countedI)
  let ?ts = "map Deref (releases b) @ Finish p # ts"
  note c = countedD [OF assms(1)]
  note o = owned_upd [OF assms(2), of "b\<lparr>bl_nrefs := bl_nrefs b - 1\<rparr>"]
  obtain b' where b': "ms_heap st p = Some b'" "bl_nrefs b' \<noteq> 0" "p \<notin> set (finishes ts)" "unat (bl_nrefs b') = Suc (count (all_refs R ts st) p)"
    by (rule counted_Deref [OF assms(1)])
  have "bl_nrefs b = 1" using assms(3) by simp
  then have n: "count (all_refs R ts st) p = 0" using b' assms(2) by simp
  have fin: "finite (dom (ms_heap st))" using counted_finite [OF assms(1)] .
  have e: "owned (set (finishes ts)) st = mset (releases b) + owned (insert p (set (finishes ts))) st"
    by (rule owned_insert [OF fin assms(2) b'(3)])
  have all: "all_refs R ?ts (dec_ref p b st) = all_refs R ts st" using o e by (simp add: ac_simps)
  show "distinct (ms_meml (dec_ref p b st))" "set (ms_meml (dec_ref p b st)) = dom (ms_heap (dec_ref p b st))" "distinct (finishes ?ts)"
    "set (finishes ?ts) \<subseteq> dom (ms_heap (dec_ref p b st))" using c(1-4) assms(2) b'(3) by auto
  show "q \<in># all_refs R ?ts (dec_ref p b st) \<Longrightarrow> q \<in> dom (ms_heap (dec_ref p b st)) \<and> q \<notin> set (finishes ?ts)" for q
  proof -
    assume "q \<in># all_refs R ?ts (dec_ref p b st)"
    then have "q \<in># all_refs R ts st" unfolding all .
    moreover have "q \<noteq> p" using n calculation by (metis not_in_iff)
    ultimately show ?thesis using c(5) [of q] by auto
  qed
  show "q \<in> set (finishes ?ts) \<Longrightarrow> bl_nrefs (blk (dec_ref p b st) q) = 0" for q using c(6) [of q] assms(3) by auto
  show "ms_heap (dec_ref p b st) q = Some x \<Longrightarrow> q \<notin> set (finishes ?ts) \<Longrightarrow>
      unat (bl_nrefs x) = count (all_refs R ?ts (dec_ref p b st)) q \<and> bl_nrefs x \<noteq> 0" for q x
    unfolding all using c(7) [of q x] by auto
qed

lemma counted_Finish:
  assumes "counted R (Finish p # ts) st"
  obtains b where "ms_heap st p = Some b" "bl_nrefs b = 0" "counted R ts (mem_free p b st)"
proof -
  note c = countedD [OF assms]
  obtain b where b: "ms_heap st p = Some b" using c(4) by auto
  have d: "set (finishes (Finish p # ts)) - {p} = set (finishes ts)" using c(3) by auto
  have all: "all_refs R ts (mem_free p b st) = all_refs R (Finish p # ts) st"
    using owned_free [of p "set (finishes (Finish p # ts))" b st] unfolding d by simp
  have h: "ms_heap (mem_free p b st) = (ms_heap st)(p := None)" "ms_meml (mem_free p b st) = remove1 p (ms_meml st)" by (simp_all add: mem_free_def)
  have "counted R ts (mem_free p b st)"
  proof (rule countedI)
    show "distinct (ms_meml (mem_free p b st))" "set (ms_meml (mem_free p b st)) = dom (ms_heap (mem_free p b st))"
      "distinct (finishes ts)" "set (finishes ts) \<subseteq> dom (ms_heap (mem_free p b st))"
      unfolding h using c(1-4) by auto
    show "q \<in># all_refs R ts (mem_free p b st) \<Longrightarrow> q \<in> dom (ms_heap (mem_free p b st)) \<and> q \<notin> set (finishes ts)" for q
      unfolding all h using c(5) [of q] by auto
    show "q \<in> set (finishes ts) \<Longrightarrow> bl_nrefs (blk (mem_free p b st) q) = 0" for q unfolding h using c(3) c(6) [of q] by auto
    show "ms_heap (mem_free p b st) q = Some x \<Longrightarrow> q \<notin> set (finishes ts) \<Longrightarrow>
        unat (bl_nrefs x) = count (all_refs R ts (mem_free p b st)) q \<and> bl_nrefs x \<noteq> 0" for q x
      unfolding all h using c(7) [of q x] by (auto split: if_splits)
  qed
  then show ?thesis using that b c(6) [of p] by simp
qed

text \<open>The statistics are those of the objects that exist, as long as these fit in the memory.\<close>

definition sizes :: "mst \<Rightarrow> nat" where "sizes st = (\<Sum>p \<in> dom (ms_heap st). bl_size (blk st p))"

definition stat_ok :: "mst \<Rightarrow> bool" where
  "stat_ok st \<longleftrightarrow> (let s = ms_stat st in
     sizes st < size_mod \<and> length (ms_meml st) < size_mod \<and> bytes_cur s = sizes st \<and> blocks_cur s = length (ms_meml st) \<and>
     bytes_cur s \<le> bytes_peak s \<and> blocks_cur s \<le> blocks_peak s \<and>
     (\<forall>b \<in> ran (ms_heap st). size_min s \<le> bl_size b \<and> bl_size b \<le> size_max s))"

lemma sizes_upd [simp]: "ms_heap st p = Some b \<Longrightarrow> bl_size b' = bl_size b \<Longrightarrow> sizes (st\<lparr>ms_heap := (ms_heap st)(p \<mapsto> b')\<rparr>) = sizes st"
  unfolding sizes_def by (rule sum.cong) auto

lemma sizes_free:
  "finite (dom (ms_heap st)) \<Longrightarrow> ms_heap st p = Some b \<Longrightarrow> sizes st = bl_size b + sizes (mem_free p b st)"
  unfolding sizes_def mem_free_def by (subst sum.remove [of _ p]) (auto intro!: sum.cong)

lemma stat_ok_log [simp]: "stat_ok (st\<lparr>ms_log := l\<rparr>) = stat_ok st"
  by (simp add: stat_ok_def sizes_def)

lemma stat_ok_upd:
  assumes "stat_ok st" "ms_heap st p = Some b" "bl_size b' = bl_size b"
  shows "stat_ok (st\<lparr>ms_heap := (ms_heap st)(p \<mapsto> b')\<rparr>)"
proof -
  have "b \<in> ran (ms_heap st)" using assms(2) by (auto simp: ran_def)
  moreover have "ran ((ms_heap st)(p \<mapsto> b')) \<subseteq> insert b' (ran (ms_heap st))" by (auto simp: ran_def)
  ultimately show ?thesis using assms by (auto simp: stat_ok_def Let_def dest!: subsetD)
qed

lemma stat_ok_free:
  assumes "stat_ok st" "finite (dom (ms_heap st))" "ms_heap st p = Some b" "p \<in> set (ms_meml st)"
  shows "stat_ok (mem_free p b st)"
proof -
  have a: "bl_size b \<le> sizes st" "sizes (mem_free p b st) = sizes st - bl_size b" using sizes_free [OF assms(2,3)] by simp_all
  have l: "1 \<le> length (ms_meml st)" "length (remove1 p (ms_meml st)) = length (ms_meml st) - 1"
    using assms(4) by (cases "ms_meml st", auto simp: length_remove1)
  have "ran ((ms_heap st)(p := None)) \<subseteq> ran (ms_heap st)" by (auto simp: ran_def split: if_splits)
  then show ?thesis using assms(1) a l by (auto simp: stat_ok_def Let_def mem_free_def stat_deref_def size_simps)
qed

text \<open>What releasing objects keeps: the other objects apart from their counts, their order; each destructor is called once.\<close>

definition kept :: "addr set \<Rightarrow> mst \<Rightarrow> mst \<Rightarrow> bool" where
  "kept D st st' \<longleftrightarrow> ms_fault st' = ms_fault st \<and> ms_thr st' = ms_thr st \<and> dom (ms_heap st') \<subseteq> dom (ms_heap st) - D \<and>
     (\<forall>p \<in> dom (ms_heap st'). blk st' p\<lparr>bl_nrefs := 0\<rparr> = blk st p\<lparr>bl_nrefs := 0\<rparr>) \<and>
     ms_meml st' = filter (\<lambda>p. p \<in> dom (ms_heap st')) (ms_meml st) \<and>
     (\<exists>l. ms_log st' = ms_log st @ l \<and> distinct l \<and> set l = {p \<in> dom (ms_heap st) - D - dom (ms_heap st'). bl_dh (blk st p)}) \<and>
     (stat_ok st \<longrightarrow> stat_ok st')"

lemma kept_refl: "finishes ts = [] \<Longrightarrow> counted R ts st \<Longrightarrow> kept {} st st"
  by (auto simp: kept_def dest!: countedD(2))

lemma kept_dec:
  assumes "kept D (dec_ref p b st) st'" "ms_heap st p = Some b"
  shows "kept D st st'"
proof -
  have d: "dom (ms_heap (dec_ref p b st)) = dom (ms_heap st)" using assms(2) by auto
  have k: "blk (dec_ref p b st) q\<lparr>bl_nrefs := 0\<rparr> = blk st q\<lparr>bl_nrefs := 0\<rparr>" "bl_dh (blk (dec_ref p b st) q) = bl_dh (blk st q)" for q
    using assms(2) by auto
  have s: "stat_ok st \<Longrightarrow> stat_ok (dec_ref p b st)" using stat_ok_upd [OF _ assms(2), of "b\<lparr>bl_nrefs := bl_nrefs b - 1\<rparr>"] by simp
  show ?thesis using assms(1) s unfolding kept_def d k by simp
qed

lemma kept_zero:
  assumes "kept (insert p D) (dec_ref p b st\<lparr>ms_log := ms_log st @ (if bl_dh b then [p] else [])\<rparr>) st'" "ms_heap st p = Some b" "p \<notin> D"
  shows "kept D st st'"
proof -
  let ?st = "dec_ref p b st\<lparr>ms_log := ms_log st @ (if bl_dh b then [p] else [])\<rparr>"
  have d: "dom (ms_heap ?st) = dom (ms_heap st)" using assms(2) by auto
  have k: "blk ?st q\<lparr>bl_nrefs := 0\<rparr> = blk st q\<lparr>bl_nrefs := 0\<rparr>" "bl_dh (blk ?st q) = bl_dh (blk st q)" for q
    using assms(2) by auto
  have s: "stat_ok st \<Longrightarrow> stat_ok ?st" using stat_ok_upd [OF _ assms(2), of "b\<lparr>bl_nrefs := bl_nrefs b - 1\<rparr>"] by simp
  have a: "ms_fault st' = ms_fault st" "ms_thr st' = ms_thr st" "dom (ms_heap st') \<subseteq> dom (ms_heap st) - insert p D"
    "\<forall>q \<in> dom (ms_heap st'). blk st' q\<lparr>bl_nrefs := 0\<rparr> = blk st q\<lparr>bl_nrefs := 0\<rparr>"
    "ms_meml st' = filter (\<lambda>q. q \<in> dom (ms_heap st')) (ms_meml st)" "stat_ok st \<longrightarrow> stat_ok st'"
    using assms(1) s unfolding kept_def d k by simp_all
  obtain l where l: "ms_log st' = ms_log ?st @ l" "distinct l" "set l = {q \<in> dom (ms_heap st) - insert p D - dom (ms_heap st'). bl_dh (blk st q)}"
    using assms(1) unfolding kept_def d k by blast
  then have "ms_log st' = ms_log st @ ((if bl_dh b then [p] else []) @ l)" "distinct ((if bl_dh b then [p] else []) @ l)"
      "set ((if bl_dh b then [p] else []) @ l) = {q \<in> dom (ms_heap st) - D - dom (ms_heap st'). bl_dh (blk st q)}"
    using assms(2,3) a(3) by auto
  then have "\<exists>l. ms_log st' = ms_log st @ l \<and> distinct l \<and> set l = {q \<in> dom (ms_heap st) - D - dom (ms_heap st'). bl_dh (blk st q)}" by blast
  then show ?thesis using a unfolding kept_def by blast
qed

lemma kept_free:
  assumes "kept D (mem_free p b st) st'" "ms_heap st p = Some b" "p \<notin> D" "counted R (Finish p # ts) st"
  shows "kept (insert p D) st st'"
proof -
  note c = countedD [OF assms(4)]
  let ?st = "mem_free p b st"
  have h: "ms_heap ?st = (ms_heap st)(p := None)" "ms_meml ?st = remove1 p (ms_meml st)" "ms_log ?st = ms_log st" "ms_thr ?st = ms_thr st"
    "ms_fault ?st = ms_fault st" by (simp_all add: mem_free_def)
  have s: "stat_ok st \<Longrightarrow> stat_ok ?st" using stat_ok_free [OF _ counted_finite [OF assms(4)] assms(2)] c(2) assms(2) by auto
  have d: "dom (ms_heap st') \<subseteq> dom (ms_heap st) - insert p D" using assms(1) unfolding kept_def h by auto
  have q: "q \<in> dom (ms_heap st') \<Longrightarrow> blk ?st q = blk st q" for q using d unfolding h by auto
  have f: "filter (\<lambda>q. q \<in> dom (ms_heap st')) (remove1 p (ms_meml st)) = filter (\<lambda>q. q \<in> dom (ms_heap st')) (ms_meml st)"
    using d by (metis (no_types, lifting) DiffE filter_remove1 insertI1 mem_Collect_eq remove1_idem set_filter subsetD)
  have l: "{q \<in> dom (ms_heap ?st) - D - dom (ms_heap st'). bl_dh (blk ?st q)} = {q \<in> dom (ms_heap st) - insert p D - dom (ms_heap st'). bl_dh (blk st q)}"
    unfolding h by auto
  show ?thesis using assms(1) d s f q unfolding kept_def l unfolding h by simp
qed

subsection \<open>Releasing references\<close>

definition weight :: "mst \<Rightarrow> nat" where "weight st = (\<Sum>p \<in> dom (ms_heap st). unat (bl_nrefs (blk st p)))"

lemma weight_log [simp]: "weight (st\<lparr>ms_log := l\<rparr>) = weight st"
  by (simp add: weight_def)

lemma weight_dec:
  assumes "finite (dom (ms_heap st))" "ms_heap st p = Some b" "bl_nrefs b \<noteq> 0"
  shows "weight (dec_ref p b st) < weight st"
proof -
  have "unat (bl_nrefs b - 1) < unat (bl_nrefs b)" using assms(3) unat_dec [of "bl_nrefs b"] by (simp add: unat_gt_0)
  then have "(\<Sum>q \<in> dom (ms_heap st). unat (bl_nrefs (blk (dec_ref p b st) q))) < (\<Sum>q \<in> dom (ms_heap st). unat (bl_nrefs (blk st q)))"
    using assms(1,2) by (intro sum_strict_mono_ex1) auto
  moreover have "dom (ms_heap (dec_ref p b st)) = dom (ms_heap st)" using assms(2) by auto
  ultimately show ?thesis by (simp add: weight_def)
qed

lemma weight_free:
  assumes "finite (dom (ms_heap st))" "ms_heap st p = Some b" "bl_nrefs b = 0"
  shows "weight (mem_free p b st) = weight st"
proof -
  have "weight st = unat (bl_nrefs b) + (\<Sum>q \<in> dom (ms_heap st) - {p}. unat (bl_nrefs (blk st q)))"
    unfolding weight_def using assms(1,2) by (subst sum.remove [of _ p]) auto
  also have "\<dots> = weight (mem_free p b st)" using assms(3) by (simp add: weight_def mem_free_def)
  finally show ?thesis by simp
qed

lemma mem_work_Nil [simp]: "mem_work [] st = Some st"
  by (subst mem_work.simps) simp

lemma mem_work_Deref:
  assumes "ms_heap st p = Some b"
  shows "bl_nrefs b - 1 \<noteq> 0 \<Longrightarrow> mem_work (Deref p # ts) st = mem_work ts (dec_ref p b st)"
    and "bl_nrefs b - 1 = 0 \<Longrightarrow> mem_work (Deref p # ts) st =
      mem_work (map Deref (releases b) @ Finish p # ts) (dec_ref p b st\<lparr>ms_log := ms_log st @ (if bl_dh b then [p] else [])\<rparr>)"
  unfolding mem_work.simps [of "Deref p # ts"] by (simp_all add: assms word_gt_0 releases_def)

lemma mem_work_Finish: "ms_heap st p = Some b \<Longrightarrow> bl_nrefs b = 0 \<Longrightarrow> mem_work (Finish p # ts) st = mem_work ts (mem_free p b st)"
  by (subst mem_work.simps) simp

text \<open>The work always ends, and then the counts are those of the references that are left.\<close>

lemma mem_work_run:
  "counted R ts st \<Longrightarrow> \<exists>st'. mem_work ts st = Some st' \<and> counted R [] st' \<and> kept (set (finishes ts)) st st'"
proof (induction "weight st" arbitrary: ts st rule: less_induct)
  case less
  have "weight st' = weight st \<Longrightarrow> counted R ts st' \<Longrightarrow> \<exists>st''. mem_work ts st' = Some st'' \<and> counted R [] st'' \<and> kept (set (finishes ts)) st' st''" for ts st'
  proof (induction ts arbitrary: st')
    case Nil
    then show ?case using kept_refl [of "[]"] by simp
  next
    case (Cons t ts)
    show ?case
    proof (cases t)
      case (Finish p)
      then obtain b where b: "ms_heap st' p = Some b" "bl_nrefs b = 0" "counted R ts (mem_free p b st')"
        using counted_Finish Cons.prems(2) by blast
      have "weight (mem_free p b st') = weight st" using weight_free [OF counted_finite b(1,2)] Cons.prems by simp
      from Cons.IH [OF this b(3)] obtain st'' where s: "mem_work ts (mem_free p b st') = Some st''" "counted R [] st''"
        "kept (set (finishes ts)) (mem_free p b st') st''" by blast
      have "p \<notin> set (finishes ts)" using countedD(3) [OF Cons.prems(2)] Finish by simp
      then have "kept (set (finishes (t # ts))) st' st''" using kept_free [OF s(3) b(1) _ Cons.prems(2) [unfolded Finish]] Finish by simp
      then show ?thesis using s(1,2) mem_work_Finish [OF b(1,2)] Finish by auto
    next
      case (Deref p)
      then obtain b where b: "ms_heap st' p = Some b" "bl_nrefs b \<noteq> 0" "p \<notin> set (finishes ts)"
        using counted_Deref Cons.prems(2) by blast
      note c = Cons.prems(2) [unfolded Deref]
      have w: "weight (dec_ref p b st') < weight st" using weight_dec [OF counted_finite b(1,2)] Cons.prems by simp
      show ?thesis
      proof (cases "bl_nrefs b - 1 = 0")
        case True
        let ?st = "dec_ref p b st'\<lparr>ms_log := ms_log st' @ (if bl_dh b then [p] else [])\<rparr>"
        have "weight ?st < weight st" "counted R (map Deref (releases b) @ Finish p # ts) ?st"
          using w counted_zero [OF c b(1) True] by simp_all
        from less.hyps [OF this] obtain st'' where s: "mem_work (Deref p # ts) st' = Some st''" "counted R [] st''"
          "kept (insert p (set (finishes ts))) ?st st''" using mem_work_Deref(2) [OF b(1) True] by auto
        show ?thesis using s(1,2) kept_zero [OF s(3) b(1,3)] Deref by auto
      next
        case False
        from less.hyps [OF w counted_dec [OF c b(1) False]] obtain st'' where s: "mem_work (Deref p # ts) st' = Some st''" "counted R [] st''"
          "kept (set (finishes ts)) (dec_ref p b st') st''" using mem_work_Deref(1) [OF b(1) False] by auto
        show ?thesis using s(1,2) kept_dec [OF s(3) b(1)] Deref by auto
      qed
    qed
  qed
  from this [OF refl less.prems] show ?case .
qed

text \<open>The objects that can be reached from the references in \<open>R\<close>.\<close>

inductive reach :: "mst \<Rightarrow> addr multiset \<Rightarrow> addr \<Rightarrow> bool" for st R where
  root: "p \<in># R \<Longrightarrow> reach st R p"
| owned: "reach st R p \<Longrightarrow> ms_heap st p = Some b \<Longrightarrow> q \<in> set (releases b) \<Longrightarrow> reach st R q"

definition owner_rel :: "mst \<Rightarrow> (addr \<times> addr) set" where
  "owner_rel st = {(p, q). \<exists>b. ms_heap st p = Some b \<and> q \<in> set (releases b)}"

lemma in_owned: "finite (dom (ms_heap st)) \<Longrightarrow> q \<in># owned {} st \<longleftrightarrow> (\<exists>p. (p, q) \<in> owner_rel st)"
  by (force simp: owned_def owner_rel_def set_mset_sum)

lemma counted_closed: "counted R [] st \<Longrightarrow> (p, q) \<in> owner_rel st \<Longrightarrow> q \<in> dom (ms_heap st)"
  using countedD(5) [of R "[]" st q] in_owned [OF counted_finite] by fastforce

lemma reach_dom: "reach st R p \<Longrightarrow> counted R [] st \<Longrightarrow> p \<in> dom (ms_heap st)"
proof (induction rule: reach.induct)
  case (root p)
  then show ?case using countedD(5) [of R "[]" st p] by simp
next
  case (owned p b q)
  then show ?case using counted_closed [of R st p q] by (auto simp: owner_rel_def)
qed

text \<open>With exact counts and without cycles everything that exists is reached.\<close>

lemma counted_reach:
  assumes "counted R [] st" "acyclic (owner_rel st)" "p \<in> dom (ms_heap st)"
  shows "reach st R p"
proof -
  have fin: "finite (dom (ms_heap st))" using counted_finite [OF assms(1)] .
  have "owner_rel st \<subseteq> dom (ms_heap st) \<times> dom (ms_heap st)"
    using counted_closed [OF assms(1)] by (auto simp: owner_rel_def)
  then have "wf (owner_rel st)" using assms(2) fin by (simp add: finite_acyclic_wf finite_subset)
  then show ?thesis using assms(3)
  proof (induction p)
    case (less p)
    then obtain b where b: "ms_heap st p = Some b" by blast
    have "count (all_refs R [] st) p \<noteq> 0" using countedD(7) [OF assms(1) b] by (metis finishes.simps(1) list.set(1) empty_iff unat_0 unsigned_0 word_unat_eq_iff)
    then have "p \<in># owned {} st + R" by (simp add: count_eq_zero_iff)
    then show ?case
    proof (cases "p \<in># R")
      case False
      then obtain q where q: "(q, p) \<in> owner_rel st" using \<open>p \<in># owned {} st + R\<close> in_owned [OF fin] by auto
      then show ?thesis using less.IH [OF q] by (auto simp: owner_rel_def intro: reach.owned)
    qed (simp add: reach.root)
  qed
qed

lemma kept_block:
  assumes "kept {} st st'" "ms_heap st' p = Some b'"
  obtains b where "ms_heap st p = Some b" "b'\<lparr>bl_nrefs := 0\<rparr> = b\<lparr>bl_nrefs := 0\<rparr>" "releases b' = releases b"
proof -
  have d: "p \<in> dom (ms_heap st')" using assms(2) by auto
  then obtain b where b: "ms_heap st p = Some b" using assms(1) by (auto simp: kept_def)
  have e: "b'\<lparr>bl_nrefs := 0\<rparr> = b\<lparr>bl_nrefs := 0\<rparr>" using assms d b by (force simp: kept_def)
  have "bl_dh b' = bl_dh b" "bl_owns b' = bl_owns b"
    using arg_cong [OF e, of bl_dh] arg_cong [OF e, of bl_owns] by simp_all
  then show ?thesis using that b e by (simp add: releases_def)
qed

lemma kept_reach:
  assumes "kept {} st st'" "counted R [] st'"
  shows "reach st' R p \<longleftrightarrow> reach st R p"
proof
  show "reach st' R p \<Longrightarrow> reach st R p"
  proof (induction rule: reach.induct)
    case (owned p b q)
    then show ?case by (metis kept_block [OF assms(1)] reach.owned)
  qed (rule reach.root)
  show "reach st R p \<Longrightarrow> reach st' R p"
  proof (induction rule: reach.induct)
    case (owned p b q)
    then obtain b' where b': "ms_heap st' p = Some b'" using reach_dom [OF owned.IH assms(2)] by blast
    then have "releases b' = releases b" using owned.hyps(2) by (metis kept_block [OF assms(1) b'] option.inject)
    then show ?case using reach.owned [OF owned.IH b'] owned.hyps(3) by simp
  qed (rule reach.root)
qed

lemma counted_held: "counted R [Deref a] st = counted (add_mset a R) [] st"
  by (simp add: counted_def)

lemma mem_deref_run:
  assumes "counted R [] st" "a \<in># R"
  obtains st' where "mem_deref (Some a) st = Some st'" "counted (R - {#a#}) [] st'" "kept {} st st'"
proof -
  have "counted (R - {#a#}) [Deref a] st" using assms by (simp add: counted_held)
  from mem_work_run [OF this] show ?thesis using that by (auto simp: mem_deref_def)
qed

text \<open>C7: Releasing a reference that is held ends, and then the counts are exact for the other references. All objects that can be reached
  from these are left, and apart from their counts as they were; the destructor of each object that is gone was called once. When no object
  owns itself, directly or through others, exactly these objects are left; objects that own each other in a circle stay.\<close>

theorem mem_deref_exact:
  assumes "counted R [] st" "a \<in># R"
  shows "\<exists>st'. mem_deref (Some a) st = Some st' \<and> counted (R - {#a#}) [] st' \<and> kept {} st st' \<and>
    {p. reach st (R - {#a#}) p} \<subseteq> dom (ms_heap st') \<and>
    (acyclic (owner_rel st) \<longrightarrow> dom (ms_heap st') = {p. reach st (R - {#a#}) p})"
proof -
  obtain st' where s: "mem_deref (Some a) st = Some st'" "counted (R - {#a#}) [] st'" "kept {} st st'"
    by (rule mem_deref_run [OF assms])
  note k = kept_reach [OF s(3,2)]
  have sub: "{p. reach st (R - {#a#}) p} \<subseteq> dom (ms_heap st')" using reach_dom [OF _ s(2)] k by blast
  have "dom (ms_heap st') = {p. reach st (R - {#a#}) p}" if "acyclic (owner_rel st)"
  proof -
    have "owner_rel st' \<subseteq> owner_rel st" by (auto simp: owner_rel_def elim!: kept_block [OF s(3)])
    then have "acyclic (owner_rel st')" using that by (rule acyclic_subset [rotated])
    then show ?thesis using counted_reach [OF s(2)] sub k by blast
  qed
  then show ?thesis using s sub by blast
qed

subsection \<open>Programs over the allocator\<close>

definition mem_init :: mst where
  "mem_init = \<lparr>ms_heap = Map.empty, ms_meml = [], ms_stat = memstat_init, ms_thr = -1, ms_log = [], ms_fault = False\<rparr>"

text \<open>What the modules do: the calls of \<^verbatim>\<open>mem.c\<close>, and storing a held reference in an object that releases it when it is destroyed.
  The references held outside of objects are counted beside the state.\<close>

datatype mop = MAlloc "addr option" nat bool | MRealloc "addr option" addr nat | MRef addr | MDeref addr | MKeep addr addr | MLimit int

fun mem_step :: "mop \<Rightarrow> addr multiset \<times> mst \<Rightarrow> (addr multiset \<times> mst) option" where
  "mem_step (MAlloc mal n dh) (R, st) = (case mem_alloc mal n dh st of
     (None, st) \<Rightarrow> Some (R, st) | (Some p, st) \<Rightarrow> Some (add_mset p R, st))"
| "mem_step (MRealloc mal a n) (R, st) = (case mem_realloc mal (Some a) n st of
     (None, st) \<Rightarrow> Some (R, st) | (Some q, st) \<Rightarrow> Some (add_mset q (R - {#a#}), st))"
| "mem_step (MRef a) (R, st) = Some (add_mset a R, snd (mem_ref (Some a) st))"
| "mem_step (MDeref a) (R, st) = map_option (\<lambda>st. (R - {#a#}, st)) (mem_deref (Some a) st)"
| "mem_step (MKeep p a) (R, st) =
     Some (R - {#a#}, st\<lparr>ms_heap := (ms_heap st)(p := map_option (\<lambda>b. b\<lparr>bl_owns := bl_owns b @ [a]\<rparr>) (ms_heap st p))\<rparr>)"
| "mem_step (MLimit n) (R, st) = Some (R, mem_threshold_set n st)"

text \<open>What they may do: new memory is not in use and fits, an object is moved by its only holder, a reference is taken of an object that
  exists and does not have all references yet, only held references are given up.\<close>

fun mop_ok :: "mop \<Rightarrow> addr multiset \<times> mst \<Rightarrow> bool" where
  "mop_ok (MAlloc mal n dh) (R, st) \<longleftrightarrow>
     (\<forall>p. mal = Some p \<longrightarrow> ms_heap st p = None) \<and> sizes st + n < size_mod \<and> length (ms_meml st) + 1 < size_mod"
| "mop_ok (MRealloc mal a n) (R, st) \<longleftrightarrow>
     a \<in># R \<and> bl_nrefs (blk st a) = 1 \<and> (\<forall>q. mal = Some q \<longrightarrow> q = a \<or> ms_heap st q = None) \<and> sizes st + n < size_mod"
| "mop_ok (MRef a) (R, st) \<longleftrightarrow> ms_heap st a \<noteq> None \<and> bl_nrefs (blk st a) + 1 \<noteq> 0"
| "mop_ok (MDeref a) (R, st) \<longleftrightarrow> a \<in># R"
| "mop_ok (MKeep p a) (R, st) \<longleftrightarrow> a \<in># R \<and> ms_heap st p \<noteq> None \<and> bl_dh (blk st p)"
| "mop_ok (MLimit n) (R, st) \<longleftrightarrow> True"

inductive mem_reached :: "addr multiset \<Rightarrow> mst \<Rightarrow> bool" where
  init: "mem_reached {#} mem_init"
| step: "mem_reached R st \<Longrightarrow> mop_ok op (R, st) \<Longrightarrow> mem_step op (R, st) = Some (R', st') \<Longrightarrow> mem_reached R' st'"

text \<open>Adding, moving and changing one block.\<close>

lemma owned_new:
  assumes "finite (dom (ms_heap st))" "ms_heap st p = None"
  shows "owned {} (st\<lparr>ms_heap := (ms_heap st)(p \<mapsto> b), ms_meml := l, ms_stat := s\<rparr>) = mset (releases b) + owned {} st"
proof -
  have "owned {} (st\<lparr>ms_heap := (ms_heap st)(p \<mapsto> b), ms_meml := l, ms_stat := s\<rparr>) =
      (\<Sum>q \<in> insert p (dom (ms_heap st)). mset (releases (the (((ms_heap st)(p \<mapsto> b)) q))))" by (simp add: owned_def)
  also have "\<dots> = mset (releases b) + (\<Sum>q \<in> dom (ms_heap st). mset (releases (the (((ms_heap st)(p \<mapsto> b)) q))))"
    using assms by (subst sum.insert) auto
  also have "(\<Sum>q \<in> dom (ms_heap st). mset (releases (the (((ms_heap st)(p \<mapsto> b)) q)))) = owned {} st"
    unfolding owned_def using assms(2) by (auto intro!: sum.cong)
  finally show ?thesis .
qed

lemma sizes_new:
  assumes "finite (dom (ms_heap st))" "ms_heap st p = None"
  shows "sizes (st\<lparr>ms_heap := (ms_heap st)(p \<mapsto> b), ms_meml := l, ms_stat := s\<rparr>) = bl_size b + sizes st"
proof -
  have "sizes (st\<lparr>ms_heap := (ms_heap st)(p \<mapsto> b), ms_meml := l, ms_stat := s\<rparr>) =
      bl_size b + (\<Sum>q \<in> dom (ms_heap st). bl_size (the (((ms_heap st)(p \<mapsto> b)) q)))"
    using assms by (simp add: sizes_def, subst sum.insert) auto
  also have "(\<Sum>q \<in> dom (ms_heap st). bl_size (the (((ms_heap st)(p \<mapsto> b)) q))) = sizes st"
    unfolding sizes_def using assms(2) by (auto intro!: sum.cong)
  finally show ?thesis .
qed

lemma counted_cong: "ms_heap st = ms_heap st' \<Longrightarrow> ms_meml st = ms_meml st' \<Longrightarrow> counted R ts st = counted R ts st'"
  by (simp add: counted_def owned_def)

lemma counted_tasks: "derefs ts = derefs ts' \<Longrightarrow> finishes ts = finishes ts' \<Longrightarrow> counted R ts st = counted R ts' st"
  by (simp add: counted_def)

lemma counted_derefs: "counted R (map Deref ps) st = counted (R + mset ps) [] st"
  unfolding counted_def derefs_map finishes.simps derefs.simps by (simp only: add.assoc add_0_right)

lemma counted_in:
  assumes "counted (R + mset (releases b)) [] st" "ms_heap st q = None" "bl_nrefs b = 1"
  shows "counted (add_mset q R) [] (st\<lparr>ms_heap := (ms_heap st)(q \<mapsto> b), ms_meml := ms_meml st @ [q], ms_stat := s\<rparr>)"
proof (rule countedI)
  let ?st = "st\<lparr>ms_heap := (ms_heap st)(q \<mapsto> b), ms_meml := ms_meml st @ [q], ms_stat := s\<rparr>"
  note c = countedD [OF assms(1)]
  have all: "all_refs (add_mset q R) [] ?st = add_mset q (all_refs (R + mset (releases b)) [] st)"
    using owned_new [OF counted_finite [OF assms(1)] assms(2)] by simp
  have n: "count (all_refs (R + mset (releases b)) [] st) q = 0" using c(5) [of q] assms(2) by (metis domIff not_in_iff)
  show "distinct (ms_meml ?st)" "set (ms_meml ?st) = dom (ms_heap ?st)" "distinct (finishes [])" "set (finishes []) \<subseteq> dom (ms_heap ?st)"
    using c(1,2) assms(2) by auto
  show "p \<in># all_refs (add_mset q R) [] ?st \<Longrightarrow> p \<in> dom (ms_heap ?st) \<and> p \<notin> set (finishes [])" for p
    unfolding all using c(5) [of p] by auto
  show "p \<in> set (finishes []) \<Longrightarrow> bl_nrefs (blk ?st p) = 0" for p by simp
  show "ms_heap ?st p = Some x \<Longrightarrow> p \<notin> set (finishes []) \<Longrightarrow> unat (bl_nrefs x) = count (all_refs (add_mset q R) [] ?st) p \<and> bl_nrefs x \<noteq> 0" for p x
    unfolding all using c(7) [of p x] n assms(3) by (cases "p = q") auto
qed

lemma counted_out:
  assumes "counted (add_mset p R) [] st" "ms_heap st p = Some b" "bl_nrefs b = 1"
  shows "counted (R + mset (releases b)) [] (st\<lparr>ms_heap := (ms_heap st)(p := None), ms_meml := remove1 p (ms_meml st)\<rparr>)"
proof -
  have "bl_nrefs b - 1 = 0" using assms(3) by simp
  moreover have "counted R [Deref p] st" using assms(1) by (simp add: counted_held)
  ultimately have "counted R (map Deref (releases b) @ [Finish p]) (dec_ref p b st)" using counted_zero [OF _ assms(2)] by blast
  moreover have "counted R (map Deref (releases b) @ [Finish p]) (dec_ref p b st) = counted R (Finish p # map Deref (releases b)) (dec_ref p b st)"
    by (rule counted_tasks) simp_all
  ultimately have "counted R (Finish p # map Deref (releases b)) (dec_ref p b st)" by blast
  then obtain b' where "ms_heap (dec_ref p b st) p = Some b'" "bl_nrefs b' = 0" and f: "counted R (map Deref (releases b)) (mem_free p b' (dec_ref p b st))" by (rule counted_Finish)
  have "counted R (map Deref (releases b)) (mem_free p b' (dec_ref p b st)) =
      counted R (map Deref (releases b)) (st\<lparr>ms_heap := (ms_heap st)(p := None), ms_meml := remove1 p (ms_meml st)\<rparr>)"
    by (rule counted_cong) (simp_all add: mem_free_def)
  with f show ?thesis by (simp only: counted_derefs)
qed

lemma stat_ok_alloc:
  assumes "stat_ok st" "finite (dom (ms_heap st))" "ms_heap st p = None" "bl_size b = n" "sizes st + n < size_mod" "length (ms_meml st) + 1 < size_mod"
  shows "stat_ok (st\<lparr>ms_heap := (ms_heap st)(p \<mapsto> b), ms_meml := ms_meml st @ [p], ms_stat := stat_alloc n (ms_stat st)\<rparr>)"
proof -
  have "ran ((ms_heap st)(p \<mapsto> b)) = insert b (ran (ms_heap st))" using assms(3) by simp
  then show ?thesis using assms(1,4-6) sizes_new [OF assms(2,3)]
    by (auto simp: stat_ok_def Let_def stat_alloc_def size_simps min.coboundedI1 max.coboundedI1 le_max_iff_disj min_le_iff_disj)
qed

lemma mem_alloc_run:
  assumes "counted R [] st" "stat_ok st" "mop_ok (MAlloc mal n dh) (R, st)" "mem_alloc mal n dh st = (r, st')"
  shows "case r of None \<Rightarrow> st' = st | Some p \<Rightarrow> mal = Some p \<and> counted (add_mset p R) [] st' \<and> stat_ok st' \<and> ms_fault st' = ms_fault st"
proof (cases r)
  case (Some p)
  let ?b = "\<lparr>bl_nrefs = 1, bl_dh = dh, bl_size = n, bl_owns = []\<rparr>"
  have e: "mal = Some p" "st' = st\<lparr>ms_heap := (ms_heap st)(p \<mapsto> ?b), ms_meml := ms_meml st @ [p], ms_stat := stat_alloc n (ms_stat st)\<rparr>"
    using assms(4) Some by (auto simp: mem_alloc_def split: if_splits option.splits)
  then have f: "ms_heap st p = None" "sizes st + n < size_mod" "length (ms_meml st) + 1 < size_mod" using assms(3) by auto
  show ?thesis using counted_in [of R ?b st p] assms(1) f stat_ok_alloc [OF assms(2) counted_finite [OF assms(1)] f(1) _ f(2,3), of ?b]
    by (simp add: Some e releases_def)
next
  case None
  then show ?thesis using assms(4) by (auto simp: mem_alloc_def split: if_splits option.splits)
qed

lemma counted_order:
  assumes "counted R [] st" "p \<in> set (ms_meml st)"
  shows "counted R [] (st\<lparr>ms_meml := remove1 p (ms_meml st) @ [p]\<rparr>)"
proof -
  have "distinct (remove1 p (ms_meml st) @ [p])" "set (remove1 p (ms_meml st) @ [p]) = set (ms_meml st)"
    using countedD(1) [OF assms(1)] assms(2) by auto
  then show ?thesis using assms(1) by (simp add: counted_def owned_def Let_def)
qed

lemma stat_ok_order:
  assumes "stat_ok st" "p \<in> set (ms_meml st)"
  shows "stat_ok (st\<lparr>ms_meml := remove1 p (ms_meml st) @ [p]\<rparr>)"
proof -
  have "length (remove1 p (ms_meml st) @ [p]) = length (ms_meml st)"
    using assms(2) length_pos_if_in_set [OF assms(2)] by (simp add: length_remove1)
  then show ?thesis using assms(1) by (simp add: stat_ok_def sizes_def)
qed

lemma sz_resize:
  assumes "b \<le> a" "a < size_mod" "a - b + n < size_mod"
  shows "sz_add a (sz_sub n b) = a - b + n"
proof (cases "b \<le> n")
  case True
  then have "sz_sub n b = n - b" using assms by (simp add: sz_sub_small)
  then show ?thesis using True assms by (simp add: sz_add_def)
next
  case False
  have "sz_sub n b = size_mod - (b - n)" by (rule sz_sub_wrap) (use False assms in simp_all)
  moreover have "a + (size_mod - (b - n)) = (a - b + n) + size_mod" using False assms by simp
  ultimately show ?thesis using assms(3) unfolding sz_add_def by (metis mod_add_self2 mod_less)
qed

lemma mem_realloc_run:
  assumes "counted R [] st" "stat_ok st" "mop_ok (MRealloc mal a n) (R, st)" "mem_realloc mal (Some a) n st = (r, st')"
  shows "ms_fault st' = ms_fault st \<and> stat_ok st' \<and> counted (case r of None \<Rightarrow> R | Some q \<Rightarrow> add_mset q (R - {#a#})) [] st'"
proof -
  have a: "a \<in># R" "bl_nrefs (blk st a) = 1" "R = add_mset a (R - {#a#})" using assms(3) by simp_all
  obtain b where b: "ms_heap st a = Some b" using countedD(5) [OF assms(1), of a] a(1) by auto
  have m: "a \<in> set (ms_meml st)" using b countedD(2) [OF assms(1)] by auto
  consider "r = None" "st' = st" | "r = None" "st' = st\<lparr>ms_meml := remove1 a (ms_meml st) @ [a]\<rparr>"
    | q where "mal = Some q" "r = Some q" "st' = st\<lparr>ms_heap := (ms_heap st)(a := None, q := Some (b\<lparr>bl_size := n\<rparr>)),
        ms_meml := remove1 a (ms_meml st) @ [q], ms_stat := stat_realloc (bl_size b) n (ms_stat st)\<rparr>"
    using assms(4) b by (auto simp: mem_realloc_def Let_def split: if_splits option.splits)
  then show ?thesis
  proof cases
    case 3
    let ?s = "st\<lparr>ms_heap := (ms_heap st)(a := None), ms_meml := remove1 a (ms_meml st)\<rparr>" and ?b = "b\<lparr>bl_size := n\<rparr>"
    have r: "releases ?b = releases b" by (simp add: releases_def)
    have q: "ms_heap ?s q = None" "sizes st + n < size_mod" using assms(3) 3(1) by auto
    have e: "st' = ?s\<lparr>ms_heap := (ms_heap ?s)(q \<mapsto> ?b), ms_meml := ms_meml ?s @ [q], ms_stat := stat_realloc (bl_size b) n (ms_stat st)\<rparr>"
      using 3(3) by simp
    have c: "counted (R - {#a#} + mset (releases ?b)) [] ?s"
      using counted_out [of a "R - {#a#}" st b] assms(1) a b unfolding r by (metis option.sel)
    have "sizes st = bl_size b + sizes (mem_free a b st)" using sizes_free [OF counted_finite [OF assms(1)] b] .
    also have "sizes (mem_free a b st) = sizes ?s" by (simp add: sizes_def mem_free_def)
    finally have s: "sizes st = bl_size b + sizes ?s" .
    have s': "sizes st' = n + sizes ?s" unfolding e using sizes_new [OF counted_finite [OF c] q(1)] by simp
    have l: "length (ms_meml st') = length (ms_meml st)" using m length_pos_if_in_set [OF m] by (simp add: 3(3) length_remove1)
    have "sz_add (sizes st) (sz_sub n (bl_size b)) = sizes st'" using sz_resize [of "bl_size b" "sizes st" n] s s' q(2) by simp
    then have st: "bytes_cur (ms_stat st') = sizes st'" "blocks_cur (ms_stat st') = blocks_cur (ms_stat st)"
      "bytes_peak (ms_stat st') = max (sizes st') (bytes_peak (ms_stat st))" "blocks_peak (ms_stat st') = blocks_peak (ms_stat st)"
      "size_min (ms_stat st') = min (size_min (ms_stat st)) n" "size_max (ms_stat st') = max (size_max (ms_stat st)) n"
      using assms(2) by (simp_all add: 3(3) stat_realloc_def stat_ok_def Let_def)
    have "ran (ms_heap st') \<subseteq> insert ?b (ran (ms_heap st))" unfolding 3(3) by (auto simp: ran_def split: if_splits)
    then have "\<forall>x \<in> ran (ms_heap st'). size_min (ms_stat st') \<le> bl_size x \<and> bl_size x \<le> size_max (ms_stat st')"
      using assms(2) unfolding st(5,6) stat_ok_def Let_def by fastforce
    then have "stat_ok st'" using assms(2) s s' q(2) unfolding stat_ok_def Let_def st l by simp
    moreover have "bl_nrefs ?b = 1" using a(2) b by simp
    then have "counted (add_mset q (R - {#a#})) [] st'" unfolding e by (rule counted_in [OF c q(1)])
    moreover have "ms_fault st' = ms_fault st" by (simp add: 3(3))
    ultimately show ?thesis unfolding 3(2) by simp
  qed (use assms m in \<open>simp_all add: counted_order stat_ok_order\<close>)
qed

lemma mem_ref_run:
  assumes "counted R [] st" "ms_heap st a = Some b" "bl_nrefs b + 1 \<noteq> 0"
  shows "counted (add_mset a R) [] (st\<lparr>ms_heap := (ms_heap st)(a \<mapsto> b\<lparr>bl_nrefs := bl_nrefs b + 1\<rparr>)\<rparr>)"
proof (rule countedI)
  let ?st = "st\<lparr>ms_heap := (ms_heap st)(a \<mapsto> b\<lparr>bl_nrefs := bl_nrefs b + 1\<rparr>)\<rparr>"
  note c = countedD [OF assms(1)]
  have all: "all_refs (add_mset a R) [] ?st = add_mset a (all_refs R [] st)" using owned_upd [OF assms(2)] by simp
  have n: "unat (bl_nrefs b + 1) = Suc (count (all_refs R [] st) a)" using c(7) [OF assms(2)] unatSuc [of "bl_nrefs b"] assms(3) by (simp add: add.commute)
  show "distinct (ms_meml ?st)" "set (ms_meml ?st) = dom (ms_heap ?st)" "distinct (finishes [])" "set (finishes []) \<subseteq> dom (ms_heap ?st)"
    using c(1,2) assms(2) by auto
  show "p \<in># all_refs (add_mset a R) [] ?st \<Longrightarrow> p \<in> dom (ms_heap ?st) \<and> p \<notin> set (finishes [])" for p
    unfolding all using c(5) [of p] assms(2) by auto
  show "p \<in> set (finishes []) \<Longrightarrow> bl_nrefs (blk ?st p) = 0" for p by simp
  show "ms_heap ?st p = Some x \<Longrightarrow> p \<notin> set (finishes []) \<Longrightarrow> unat (bl_nrefs x) = count (all_refs (add_mset a R) [] ?st) p \<and> bl_nrefs x \<noteq> 0" for p x
    unfolding all using c(7) [of p x] n assms(3) by (cases "p = a") auto
qed

lemma keep_run:
  assumes "counted (add_mset a R) [] st" "ms_heap st p = Some b" "bl_dh b"
  shows "counted R [] (st\<lparr>ms_heap := (ms_heap st)(p \<mapsto> b\<lparr>bl_owns := bl_owns b @ [a]\<rparr>)\<rparr>)"
proof (rule countedI)
  let ?b = "b\<lparr>bl_owns := bl_owns b @ [a]\<rparr>"
  let ?st = "st\<lparr>ms_heap := (ms_heap st)(p \<mapsto> ?b)\<rparr>"
  note c = countedD [OF assms(1)]
  have fin: "finite (dom (ms_heap st))" "finite (dom (ms_heap ?st))" using counted_finite [OF assms(1)] by simp_all
  have "owned {p} ?st = owned {p} st" unfolding owned_def by (rule sum.cong) auto
  then have "owned {} ?st = add_mset a (owned {} st)"
    using owned_insert [OF fin(1) assms(2), of "{}"] owned_insert [OF fin(2), of p ?b "{}"] assms(3) by (simp add: releases_def)
  then have all: "all_refs R [] ?st = all_refs (add_mset a R) [] st" by simp
  show "distinct (ms_meml ?st)" "set (ms_meml ?st) = dom (ms_heap ?st)" "distinct (finishes [])" "set (finishes []) \<subseteq> dom (ms_heap ?st)"
    using c(1,2) assms(2) by auto
  show "q \<in># all_refs R [] ?st \<Longrightarrow> q \<in> dom (ms_heap ?st) \<and> q \<notin> set (finishes [])" for q
    unfolding all using c(5) [of q] assms(2) by auto
  show "q \<in> set (finishes []) \<Longrightarrow> bl_nrefs (blk ?st q) = 0" for q by simp
  show "ms_heap ?st q = Some x \<Longrightarrow> q \<notin> set (finishes []) \<Longrightarrow> unat (bl_nrefs x) = count (all_refs R [] ?st) q \<and> bl_nrefs x \<noteq> 0" for q x
    unfolding all using c(7) [of q] assms(2) by (cases "q = p") auto
qed

definition mem_inv :: "addr multiset \<Rightarrow> mst \<Rightarrow> bool" where
  "mem_inv R st \<longleftrightarrow> counted R [] st \<and> stat_ok st \<and> \<not> ms_fault st"

lemma mem_step_run:
  assumes "mem_inv R st" "mop_ok op (R, st)"
  obtains R' st' where "mem_step op (R, st) = Some (R', st')" "mem_inv R' st'"
proof -
  have i: "counted R [] st" "stat_ok st" "\<not> ms_fault st" using assms(1) by (simp_all add: mem_inv_def)
  show ?thesis
  proof (cases op)
    case (MAlloc mal n dh)
    obtain r st' where e: "mem_alloc mal n dh st = (r, st')" by fastforce
    show ?thesis using mem_alloc_run [OF i(1,2) assms(2) [unfolded MAlloc] e] e i that MAlloc by (auto simp: mem_inv_def split: option.splits)
  next
    case (MRealloc mal a n)
    obtain r st' where e: "mem_realloc mal (Some a) n st = (r, st')" by fastforce
    show ?thesis using mem_realloc_run [OF i(1,2) assms(2) [unfolded MRealloc] e] e i that MRealloc by (auto simp: mem_inv_def split: option.splits)
  next
    case (MRef a)
    then obtain b where b: "ms_heap st a = Some b" "bl_nrefs b + 1 \<noteq> 0" using assms(2) by auto
    show ?thesis using mem_ref_run [OF i(1) b] stat_ok_upd [OF i(2) b(1)] i(3) b that MRef by (simp add: mem_inv_def mem_ref_def)
  next
    case (MDeref a)
    then obtain st' where "mem_deref (Some a) st = Some st'" "counted (R - {#a#}) [] st'" "kept {} st st'"
      using mem_deref_run [OF i(1)] assms(2) by auto
    then show ?thesis using i that MDeref by (simp add: mem_inv_def kept_def)
  next
    case (MKeep p a)
    then obtain b where b: "ms_heap st p = Some b" "bl_dh b" "R = add_mset a (R - {#a#})" using assms(2) by auto
    have "counted (add_mset a (R - {#a#})) [] st" using i(1) b(3) by simp
    from keep_run [OF this b(1,2)] show ?thesis using stat_ok_upd [OF i(2) b(1)] i(3) b(1) that MKeep by (simp add: mem_inv_def)
  next
    case (MLimit n)
    have "mem_inv R (st\<lparr>ms_thr := n\<rparr>)" using i by (simp add: mem_inv_def counted_def owned_def stat_ok_def sizes_def)
    then show ?thesis using that MLimit by (simp add: mem_threshold_set_def)
  qed
qed

lemma mem_reached_inv: "mem_reached R st \<Longrightarrow> mem_inv R st"
proof (induction rule: mem_reached.induct)
  case init
  show ?case by (simp add: mem_inv_def mem_init_def counted_def stat_ok_def owned_def sizes_def memstat_init_def Let_def)
next
  case (step R st op R' st')
  then show ?case using mem_step_run [OF step.IH step.hyps(2)] by (metis option.inject prod.inject)
qed


text \<open>Two objects, the second one held by the first: the program gives up the first, and both are gone.\<close>

definition two_blocks :: mst where
  "two_blocks = mem_init\<lparr>ms_heap := [1 \<mapsto> \<lparr>bl_nrefs = 1, bl_dh = True, bl_size = 8, bl_owns = [2]\<rparr>, 2 \<mapsto> \<lparr>bl_nrefs = 1, bl_dh = False, bl_size = 4, bl_owns = []\<rparr>],
     ms_meml := [1, 2], ms_stat := \<lparr>bytes_cur = 12, bytes_peak = 12, blocks_cur = 2, blocks_peak = 2, size_min = 4, size_max = 8\<rparr>\<rparr>"

lemma two_blocks_reached: "mem_reached {#1#} two_blocks"
proof -
  have s: "mem_reached R st \<Longrightarrow> mop_ok op (R, st) \<and> mem_step op (R, st) = Some (R', st') \<Longrightarrow> mem_reached R' st'" for R st op R' st'
    using mem_reached.step by blast
  have "mem_reached {#1#} (mem_init\<lparr>ms_heap := [1 \<mapsto> \<lparr>bl_nrefs = 1, bl_dh = True, bl_size = 8, bl_owns = []\<rparr>], ms_meml := [1],
      ms_stat := \<lparr>bytes_cur = 8, bytes_peak = 8, blocks_cur = 1, blocks_peak = 1, size_min = 8, size_max = 8\<rparr>\<rparr>)" (is "mem_reached _ ?a")
    by (rule s [OF mem_reached.init, of "MAlloc (Some 1) 8 True"])
      (simp add: mem_init_def mem_alloc_def over_threshold_def memstat_init_def stat_alloc_def sz_add_def sizes_def size_mod_def Let_def)
  from s [OF this, of "MAlloc (Some 2) 4 False" "{#2, 1#}" "?a\<lparr>ms_heap := (ms_heap ?a)(2 \<mapsto> \<lparr>bl_nrefs = 1, bl_dh = False, bl_size = 4, bl_owns = []\<rparr>),
      ms_meml := [1, 2], ms_stat := \<lparr>bytes_cur = 12, bytes_peak = 12, blocks_cur = 2, blocks_peak = 2, size_min = 4, size_max = 8\<rparr>\<rparr>"]
  have "mem_reached {#2, 1#} (?a\<lparr>ms_heap := (ms_heap ?a)(2 \<mapsto> \<lparr>bl_nrefs = 1, bl_dh = False, bl_size = 4, bl_owns = []\<rparr>),
      ms_meml := [1, 2], ms_stat := \<lparr>bytes_cur = 12, bytes_peak = 12, blocks_cur = 2, blocks_peak = 2, size_min = 4, size_max = 8\<rparr>\<rparr>)"
    by (simp add: mem_init_def mem_alloc_def over_threshold_def stat_alloc_def sz_add_def sizes_def size_mod_def Let_def)
  from s [OF this, of "MKeep 1 2" "{#1#}" two_blocks] show ?thesis
    by (simp add: two_blocks_def mem_init_def fun_upd_twist)
qed


theorem mem_deref_exact_witness: "\<exists>st'. mem_deref (Some 1) two_blocks = Some st' \<and> ms_heap st' = Map.empty"
proof -
  have c: "counted {#1#} [] two_blocks" using mem_reached_inv [OF two_blocks_reached] by (simp add: mem_inv_def)
  have o: "owner_rel two_blocks = {(1, 2)}" by (auto simp: owner_rel_def two_blocks_def releases_def split: if_splits)
  have "acyclic (owner_rel two_blocks)" unfolding o by (auto simp: acyclic_def trancl_insert)
  then obtain st' where s: "mem_deref (Some 1) two_blocks = Some st'" "dom (ms_heap st') = {p. reach two_blocks {#} p}"
    using mem_deref_exact [OF c, of 1] by auto
  have "\<not> reach st {#} p" for st p
  proof
    assume "reach st {#} p"
    then show False by (induction rule: reach.induct) simp_all
  qed
  then show ?thesis using s by simp
qed

end
